(* ===== verification/Prelude.thy ===== *)
theory Prelude
  imports Main "HOL-Library.Sublist"
begin

text \<open>
  The shared base of the development.

  \<^item> Programs that talk to the outside world (the cluster client, the hypervisor, an HTTP
    API, the file system) are functions from a state to a result and a new state. A Python
    exception is the left summand of the result and keeps the state reached so far, because
    the effects before a \<open>raise\<close> are not undone.
  \<^item> \<open>hoare\<close> is partial correctness of such a program with a postcondition for the normal
    and one for the exceptional exit; its rules are collected in \<open>wp\<close>.
  \<^item> The generic list facts at the end are about contiguous sublists, on which the byte
    level components rest.
\<close>

named_theorems wp \<open>rules for the Hoare triples of effectful programs\<close>
named_theorems prog_simps \<open>unfolding rules for the program combinators\<close>

section \<open>Programs with state and exceptions\<close>

type_synonym ('s, 'e, 'a) prog = "'s \<Rightarrow> ('e + 'a) \<times> 's"

definition ret :: "'a \<Rightarrow> ('s, 'e, 'a) prog" where
  "ret x s = (Inr x, s)"

definition raise :: "'e \<Rightarrow> ('s, 'e, 'a) prog" where
  "raise e s = (Inl e, s)"

definition bindP :: "('s, 'e, 'a) prog \<Rightarrow> ('a \<Rightarrow> ('s, 'e, 'b) prog) \<Rightarrow> ('s, 'e, 'b) prog" where
  "bindP m f s = (case m s of (Inl e, t) \<Rightarrow> (Inl e, t) | (Inr x, t) \<Rightarrow> f x t)"

definition thenP :: "('s, 'e, 'a) prog \<Rightarrow> ('s, 'e, 'b) prog \<Rightarrow> ('s, 'e, 'b) prog" where
  "thenP m n = bindP m (\<lambda>_. n)"

definition getP :: "('s \<Rightarrow> 'a) \<Rightarrow> ('s, 'e, 'a) prog" where
  "getP f s = (Inr (f s), s)"

definition modP :: "('s \<Rightarrow> 's) \<Rightarrow> ('s, 'e, unit) prog" where
  "modP f s = (Inr (), f s)"

definition liftP :: "'e + 'a \<Rightarrow> ('s, 'e, 'a) prog" where
  "liftP r s = (r, s)"

fun forP :: "('a \<Rightarrow> ('s, 'e, unit) prog) \<Rightarrow> 'a list \<Rightarrow> ('s, 'e, unit) prog" where
  "forP f [] = ret ()"
| "forP f (x # xs) = thenP (f x) (forP f xs)"

fun foldP :: "('b \<Rightarrow> 'a \<Rightarrow> ('s, 'e, 'b) prog) \<Rightarrow> 'b \<Rightarrow> 'a list \<Rightarrow> ('s, 'e, 'b) prog" where
  "foldP f b [] = ret b"
| "foldP f b (x # xs) = bindP (f b x) (\<lambda>b'. foldP f b' xs)"

text \<open>\<open>try: m except: h\<close>, the state changes of \<open>m\<close> being kept.\<close>

definition catchP :: "('s, 'e, 'a) prog \<Rightarrow> ('e \<Rightarrow> ('s, 'f, 'a) prog) \<Rightarrow> ('s, 'f, 'a) prog" where
  "catchP m h s = (case m s of (Inl e, t) \<Rightarrow> h e t | (Inr x, t) \<Rightarrow> (Inr x, t))"

text \<open>The same sequencing for computations without state.\<close>

definition bindE :: "'e + 'a \<Rightarrow> ('a \<Rightarrow> 'e + 'b) \<Rightarrow> 'e + 'b" where
  "bindE r f = (case r of Inl e \<Rightarrow> Inl e | Inr x \<Rightarrow> f x)"

fun foldE :: "('b \<Rightarrow> 'a \<Rightarrow> 'e + 'b) \<Rightarrow> 'b \<Rightarrow> 'a list \<Rightarrow> 'e + 'b" where
  "foldE f b [] = Inr b"
| "foldE f b (x # xs) = bindE (f b x) (\<lambda>b'. foldE f b' xs)"

fun mapE :: "('a \<Rightarrow> 'e + 'b) \<Rightarrow> 'a list \<Rightarrow> 'e + 'b list" where
  "mapE f [] = Inr []"
| "mapE f (x # xs) = bindE (f x) (\<lambda>y. bindE (mapE f xs) (\<lambda>ys. Inr (y # ys)))"

lemma bindE_simps [simp]:
  "bindE (Inl e) f = Inl e" "bindE (Inr x) f = f x"
  by (simp_all add: bindE_def)

lemma bindE_Inr_iff: "bindE r f = Inr y \<longleftrightarrow> (\<exists>x. r = Inr x \<and> f x = Inr y)"
  by (cases r) auto

lemma foldl_invariant:
  assumes "\<And>b x. x \<in> set xs \<Longrightarrow> I b \<Longrightarrow> I (f b x)" "I b"
  shows "I (foldl f b xs)"
  using assms by (induction xs arbitrary: b) auto

lemma foldE_invariant:
  assumes "foldE f b xs = Inr b'" "\<And>b x b'. I b \<Longrightarrow> f b x = Inr b' \<Longrightarrow> I b'" "I b"
  shows "I b'"
  using assms(1,3)
proof (induction xs arbitrary: b)
  case (Cons x xs)
  then show ?case using assms(2) by (auto simp: bindE_Inr_iff)
qed simp

lemma foldE_mem_invariant:
  assumes "foldE f b xs = Inr b'" "\<And>b x b'. x \<in> set xs \<Longrightarrow> I b \<Longrightarrow> f b x = Inr b' \<Longrightarrow> I b'" "I b"
  shows "I b'"
  using assms
proof (induction xs arbitrary: b)
  case (Cons x xs)
  then obtain b1 where "f b x = Inr b1" "foldE f b1 xs = Inr b'" by (auto simp: bindE_Inr_iff)
  with Cons show ?case by (metis list.set_intros(1,2))
qed simp

lemma mapE_Inr_length: "mapE f xs = Inr ys \<Longrightarrow> length ys = length xs"
  by (induction xs arbitrary: ys) (auto simp: bindE_Inr_iff)

lemma mapE_Inr_nth: "mapE f xs = Inr ys \<Longrightarrow> i < length xs \<Longrightarrow> f (xs ! i) = Inr (ys ! i)"
proof (induction xs arbitrary: ys i)
  case (Cons x xs)
  then show ?case by (cases i) (auto simp: bindE_Inr_iff)
qed simp

lemma mapE_total: "(\<And>x. x \<in> set xs \<Longrightarrow> f x = Inr (g x)) \<Longrightarrow> mapE f xs = Inr (map g xs)"
  by (induction xs) auto

lemma ret_app [simp, prog_simps]: "ret x s = (Inr x, s)"
  by (simp add: ret_def)

lemma raise_app [simp, prog_simps]: "raise e s = (Inl e, s)"
  by (simp add: raise_def)

lemma getP_app [simp, prog_simps]: "getP f s = (Inr (f s), s)"
  by (simp add: getP_def)

lemma modP_app [simp, prog_simps]: "modP f s = (Inr (), f s)"
  by (simp add: modP_def)

lemma liftP_app [simp, prog_simps]: "liftP r s = (r, s)"
  by (simp add: liftP_def)

lemma bindP_app_Inr: "m s = (Inr x, t) \<Longrightarrow> bindP m f s = f x t"
  by (simp add: bindP_def)

lemma bindP_app_Inl: "m s = (Inl e, t) \<Longrightarrow> bindP m f s = (Inl e, t)"
  by (simp add: bindP_def)

lemma bindP_ret [simp]: "bindP (ret x) f = f x"
  by (rule ext) (simp add: bindP_def)

lemma bindP_raise [simp]: "bindP (raise e) f = raise e"
  by (rule ext) (simp add: bindP_def)

text \<open>What a run that returns, or that raises, has gone through.\<close>

named_theorems run_iff \<open>decomposition of a run into the runs of its parts\<close>

lemma bindP_Inr_iff [run_iff]:
  "bindP m f s = (Inr x, t) \<longleftrightarrow> (\<exists>y u. m s = (Inr y, u) \<and> f y u = (Inr x, t))"
  by (auto simp: bindP_def split: prod.splits sum.splits)

lemma bindP_Inl_iff:
  "bindP m f s = (Inl e, t) \<longleftrightarrow> m s = (Inl e, t) \<or> (\<exists>y u. m s = (Inr y, u) \<and> f y u = (Inl e, t))"
  by (auto simp: bindP_def split: prod.splits sum.splits)

lemma thenP_Inr_iff [run_iff]:
  "thenP m n s = (Inr x, t) \<longleftrightarrow> (\<exists>y u. m s = (Inr y, u) \<and> n u = (Inr x, t))"
  by (simp add: thenP_def bindP_Inr_iff)

lemma thenP_Inl_iff:
  "thenP m n s = (Inl e, t) \<longleftrightarrow> m s = (Inl e, t) \<or> (\<exists>y u. m s = (Inr y, u) \<and> n u = (Inl e, t))"
  by (simp add: thenP_def bindP_Inl_iff)

lemma liftP_Inr_iff [run_iff]: "liftP r s = (Inr x, t) \<longleftrightarrow> r = Inr x \<and> t = s"
  by (auto simp: liftP_app)

lemma ret_Inr_iff [run_iff]: "ret y s = (Inr x, t) \<longleftrightarrow> x = y \<and> t = s"
  by (auto simp: ret_app)

lemma raise_Inr_iff [run_iff]: "raise e s = (Inr x, t) \<longleftrightarrow> False"
  by (simp add: raise_app)

text \<open>A loop that returns has gone through its body for each element.\<close>

lemma foldP_Inr_invariant:
  assumes "foldP f b xs s = (Inr r, t)" and "I b s {}"
    and "\<And>b x s b' s' done. x \<in> set xs \<Longrightarrow> I b s done \<Longrightarrow> f b x s = (Inr b', s') \<Longrightarrow> I b' s' (insert x done)"
  shows "I r t (set xs)"
proof -
  have "foldP f b ys s = (Inr r, t) \<Longrightarrow> I b s done \<Longrightarrow> set ys \<subseteq> set xs \<Longrightarrow> I r t (done \<union> set ys)" for ys b s "done"
  proof (induction ys arbitrary: b s "done")
    case (Cons y ys)
    then obtain b' s' where run: "f b y s = (Inr b', s')" "foldP f b' ys s' = (Inr r, t)"
      by (auto simp: bindP_Inr_iff)
    have y: "y \<in> set xs" "set ys \<subseteq> set xs" using Cons.prems(3) by auto
    have "I b' s' (insert y done)" by (rule assms(3) [OF y(1) Cons.prems(2) run(1)])
    from Cons.IH [OF run(2) this y(2)] show ?case by simp
  qed (simp add: ret_Inr_iff)
  from this [OF assms(1,2)] show ?thesis by simp
qed

section \<open>Hoare triples with an exceptional exit\<close>

definition hoare ::
  "('s \<Rightarrow> bool) \<Rightarrow> ('s, 'e, 'a) prog \<Rightarrow> ('a \<Rightarrow> 's \<Rightarrow> bool) \<Rightarrow> ('e \<Rightarrow> 's \<Rightarrow> bool) \<Rightarrow> bool" where
  "hoare P m Q E \<longleftrightarrow> (\<forall>s. P s \<longrightarrow>
     (case m s of (Inl e, t) \<Rightarrow> E e t | (Inr x, t) \<Rightarrow> Q x t))"

lemma hoareI:
  "(\<And>s x t. P s \<Longrightarrow> m s = (Inr x, t) \<Longrightarrow> Q x t) \<Longrightarrow>
   (\<And>s e t. P s \<Longrightarrow> m s = (Inl e, t) \<Longrightarrow> E e t) \<Longrightarrow> hoare P m Q E"
  unfolding hoare_def by (auto split: prod.splits sum.splits)

lemma hoareD_ret: "hoare P m Q E \<Longrightarrow> P s \<Longrightarrow> m s = (Inr x, t) \<Longrightarrow> Q x t"
  unfolding hoare_def by fastforce

lemma hoareD_exn: "hoare P m Q E \<Longrightarrow> P s \<Longrightarrow> m s = (Inl e, t) \<Longrightarrow> E e t"
  unfolding hoare_def by fastforce

lemma hoareD_any: "hoare P m (\<lambda>_. Q) (\<lambda>_. Q) \<Longrightarrow> P s \<Longrightarrow> Q (snd (m s))"
  unfolding hoare_def by (cases "m s"; cases "fst (m s)") fastforce+

lemma hoare_conseq:
  assumes "hoare P m Q E"
    and "\<And>s. P' s \<Longrightarrow> P s"
    and "\<And>x s. Q x s \<Longrightarrow> Q' x s"
    and "\<And>e s. E e s \<Longrightarrow> E' e s"
  shows "hoare P' m Q' E'"
  using assms unfolding hoare_def by (fastforce split: prod.splits sum.splits)

lemma hoare_weaken: "hoare P m Q E \<Longrightarrow> (\<And>s. P' s \<Longrightarrow> P s) \<Longrightarrow> hoare P' m Q E"
  by (rule hoare_conseq)

lemma hoare_ex: "(\<And>q. hoare (P q) m Q E) \<Longrightarrow> hoare (\<lambda>s. \<exists>q. P q s) m Q E"
  by (rule hoareI) (blast dest: hoareD_ret hoareD_exn)+

lemma hoare_pure: "(A \<Longrightarrow> hoare P m Q E) \<Longrightarrow> hoare (\<lambda>s. A \<and> P s) m Q E"
  unfolding hoare_def by auto

lemma hoare_ret [wp]: "hoare (Q x) (ret x) Q E"
  by (simp add: hoare_def)

lemma hoare_raise [wp]: "hoare (E e) (raise e) Q E"
  by (simp add: hoare_def)

lemma hoare_getP [wp]: "hoare (\<lambda>s. Q (f s) s) (getP f) Q E"
  by (simp add: hoare_def)

lemma hoare_modP [wp]: "hoare (\<lambda>s. Q () (f s)) (modP f) Q E"
  by (simp add: hoare_def)

lemma hoare_liftP [wp]:
  "hoare (\<lambda>s. (case r of Inl e \<Rightarrow> E e s | Inr x \<Rightarrow> Q x s)) (liftP r) Q E"
  by (simp add: hoare_def split: sum.splits)

lemma hoare_bind:
  assumes "hoare P m R E" and "\<And>x. hoare (R x) (f x) Q E"
  shows "hoare P (bindP m f) Q E"
  using assms unfolding hoare_def bindP_def
  by (fastforce split: prod.splits sum.splits)

lemma hoare_then:
  assumes "hoare P m (\<lambda>_. R) E" and "hoare R n Q E"
  shows "hoare P (thenP m n) Q E"
  unfolding thenP_def by (rule hoare_bind [OF assms(1)]) (rule assms(2))

lemma hoare_catch:
  assumes "hoare P m Q R" and "\<And>e. hoare (R e) (h e) Q E"
  shows "hoare P (catchP m h) Q E"
  unfolding hoare_def
proof (intro allI impI)
  fix s assume "P s"
  obtain r t where m: "m s = (r, t)" by fastforce
  have "case r of Inl e \<Rightarrow> R e t | Inr x \<Rightarrow> Q x t"
    using assms(1) \<open>P s\<close> unfolding hoare_def by (auto dest: spec [of _ s] simp: m)
  then show "case catchP m h s of (Inl e, t) \<Rightarrow> E e t | (Inr x, t) \<Rightarrow> Q x t"
    using assms(2) by (cases r) (auto simp: catchP_def m hoare_def)
qed

lemma hoare_if:
  "(b \<Longrightarrow> hoare P m Q E) \<Longrightarrow> (\<not> b \<Longrightarrow> hoare P n Q E) \<Longrightarrow> hoare P (if b then m else n) Q E"
  by simp

lemma hoare_forP:
  assumes "\<And>x. x \<in> set xs \<Longrightarrow> hoare I (f x) (\<lambda>_. I) E"
  shows "hoare I (forP f xs) (\<lambda>_. I) E"
  using assms by (induction xs) (auto intro: hoare_then hoare_ret)

lemma hoare_foldP:
  assumes "\<And>b x. x \<in> set xs \<Longrightarrow> hoare (I b) (f b x) I E"
  shows "hoare (I b) (foldP f b xs) I E"
  using assms by (induction xs arbitrary: b) (auto intro: hoare_bind hoare_ret)

text \<open>\<open>keeps I m\<close>: the program \<open>m\<close> preserves \<open>I\<close> however it ends. The rules are in \<open>keeps_rules\<close>.\<close>

named_theorems keeps_rules \<open>introduction rules for preserved state predicates\<close>

definition keeps :: "('s \<Rightarrow> bool) \<Rightarrow> ('s, 'e, 'a) prog \<Rightarrow> bool" where
  "keeps I m \<longleftrightarrow> (\<forall>s. I s \<longrightarrow> I (snd (m s)))"

lemma keepsI: "(\<And>s. I s \<Longrightarrow> I (snd (m s))) \<Longrightarrow> keeps I m"
  by (simp add: keeps_def)

lemma keepsD: "keeps I m \<Longrightarrow> I s \<Longrightarrow> I (snd (m s))"
  by (simp add: keeps_def)

lemma keeps_hoare: "keeps I m \<longleftrightarrow> hoare I m (\<lambda>_. I) (\<lambda>_. I)"
proof -
  have "(case m s of (Inl e, t) \<Rightarrow> I t | (Inr x, t) \<Rightarrow> I t) = I (snd (m s))" for s
    by (simp split: prod.split sum.split)
  then show ?thesis by (simp add: keeps_def hoare_def)
qed

lemma keeps_ret [keeps_rules]: "keeps I (ret x)"
  by (simp add: keeps_def)

lemma keeps_raise [keeps_rules]: "keeps I (raise e)"
  by (simp add: keeps_def)

lemma keeps_getP [keeps_rules]: "keeps I (getP f)"
  by (simp add: keeps_def)

lemma keeps_liftP [keeps_rules]: "keeps I (liftP r)"
  by (simp add: keeps_def)

lemma keeps_bind [keeps_rules]:
  "keeps I m \<Longrightarrow> (\<And>x. keeps I (f x)) \<Longrightarrow> keeps I (bindP m f)"
  unfolding keeps_hoare by (rule hoare_bind)

lemma keeps_then [keeps_rules]: "keeps I m \<Longrightarrow> keeps I n \<Longrightarrow> keeps I (thenP m n)"
  unfolding keeps_hoare by (rule hoare_then)

lemma keeps_catch [keeps_rules]: "keeps I m \<Longrightarrow> (\<And>e. keeps I (h e)) \<Longrightarrow> keeps I (catchP m h)"
  unfolding keeps_hoare by (rule hoare_catch)

lemma keeps_if [keeps_rules]:
  "(b \<Longrightarrow> keeps I m) \<Longrightarrow> (\<not> b \<Longrightarrow> keeps I n) \<Longrightarrow> keeps I (if b then m else n)"
  by simp

lemma keeps_forP [keeps_rules]: "(\<And>x. x \<in> set xs \<Longrightarrow> keeps I (f x)) \<Longrightarrow> keeps I (forP f xs)"
  unfolding keeps_hoare by (rule hoare_forP)

lemma keeps_foldP [keeps_rules]: "(\<And>b x. x \<in> set xs \<Longrightarrow> keeps I (f b x)) \<Longrightarrow> keeps I (foldP f b xs)"
  unfolding keeps_hoare by (rule hoare_foldP)

lemma hoare_keeps_conj:
  assumes "keeps I m" and "hoare P m Q E" and "\<And>s. I s \<Longrightarrow> P s"
  shows "hoare I m (\<lambda>x s. I s \<and> Q x s) (\<lambda>_. I)"
proof (rule hoareI)
  fix s x t
  assume "I s" "m s = (Inr x, t)"
  then show "I t \<and> Q x t"
    using assms keepsD [OF assms(1), of s] hoareD_ret [OF assms(2), of s x t] by auto
next
  fix s e t
  assume "I s" "m s = (Inl e, t)"
  then show "I t" using keepsD [OF assms(1), of s] by simp
qed

text \<open>
  \<open>emits tr A m\<close>: for a state with a trace \<open>tr\<close>, the program \<open>m\<close> only appends events that
  satisfy \<open>A\<close>, however it ends.
\<close>

named_theorems emits_rules \<open>introduction rules for the events a program appends\<close>

definition emits :: "('s \<Rightarrow> 'v list) \<Rightarrow> ('v \<Rightarrow> bool) \<Rightarrow> ('s, 'e, 'a) prog \<Rightarrow> bool" where
  "emits tr A m \<longleftrightarrow> (\<forall>s. \<exists>es. tr (snd (m s)) = tr s @ es \<and> list_all A es)"

lemma emitsI: "(\<And>s. \<exists>es. tr (snd (m s)) = tr s @ es \<and> list_all A es) \<Longrightarrow> emits tr A m"
  by (simp add: emits_def)

lemma emitsD: "emits tr A m \<Longrightarrow> \<exists>es. tr (snd (m s)) = tr s @ es \<and> list_all A es"
  by (simp add: emits_def)

lemma emits_from_empty:
  assumes "emits tr A m" and "tr s = []" and "e \<in> set (tr (snd (m s)))"
  shows "A e"
  using emitsD [OF assms(1), where s = s] assms(2,3) by (auto simp: list_all_iff)

lemma emits_mono: "emits tr A m \<Longrightarrow> (\<And>e. A e \<Longrightarrow> B e) \<Longrightarrow> emits tr B m"
  unfolding emits_def list_all_iff by blast

lemma emits_ret [emits_rules]: "emits tr A (ret x)"
  by (simp add: emits_def)

lemma emits_raise [emits_rules]: "emits tr A (raise e)"
  by (simp add: emits_def)

lemma emits_getP [emits_rules]: "emits tr A (getP f)"
  by (simp add: emits_def)

lemma emits_liftP [emits_rules]: "emits tr A (liftP r)"
  by (simp add: emits_def)

lemma emits_modP [emits_rules]: "(\<And>s. tr (f s) = tr s) \<Longrightarrow> emits tr A (modP f)"
  by (simp add: emits_def)

lemma emits_bind [emits_rules]:
  fixes m :: "('s, 'e, 'a) prog" and f :: "'a \<Rightarrow> ('s, 'e, 'b) prog"
  assumes "emits tr A m" and "\<And>x. emits tr A (f x)"
  shows "emits tr A (bindP m f)"
proof (rule emitsI)
  fix s :: 's
  obtain r t where m: "m s = (r, t)" by (cases "m s")
  from emitsD [OF assms(1), where s = s] m obtain es where es: "tr t = tr s @ es" "list_all A es" by auto
  show "\<exists>es. tr (snd (bindP m f s)) = tr s @ es \<and> list_all A es"
  proof (cases r)
    case (Inl e)
    with m es show ?thesis by (auto simp: bindP_def)
  next
    case (Inr x)
    from emitsD [OF assms(2), where s = t] obtain fs where "tr (snd (f x t)) = tr t @ fs" "list_all A fs" by blast
    with m es Inr show ?thesis by (intro exI [of _ "es @ fs"]) (simp add: bindP_def)
  qed
qed

lemma emits_then [emits_rules]: "emits tr A m \<Longrightarrow> emits tr A n \<Longrightarrow> emits tr A (thenP m n)"
  unfolding thenP_def by (rule emits_bind)

lemma emits_if [emits_rules]:
  "(b \<Longrightarrow> emits tr A m) \<Longrightarrow> (\<not> b \<Longrightarrow> emits tr A n) \<Longrightarrow> emits tr A (if b then m else n)"
  by simp

lemma emits_forP [emits_rules]: "(\<And>x. x \<in> set xs \<Longrightarrow> emits tr A (f x)) \<Longrightarrow> emits tr A (forP f xs)"
  by (induction xs) (auto intro: emits_then emits_ret)

lemma emits_foldP [emits_rules]:
  "(\<And>b x. x \<in> set xs \<Longrightarrow> emits tr A (f b x)) \<Longrightarrow> emits tr A (foldP f b xs)"
  by (induction xs arbitrary: b) (auto intro: emits_bind emits_ret)

text \<open>A program that first computes a value and then emits according to it.\<close>

lemma emits_bind_result:
  fixes m :: "('s, 'e, 'a) prog" and f :: "'a \<Rightarrow> ('s, 'e, 'b) prog"
  assumes "emits tr A m" and "hoare (\<lambda>_. True) m (\<lambda>x _. R x) (\<lambda>_ _. True)"
    and "\<And>x. R x \<Longrightarrow> emits tr A (f x)"
  shows "emits tr A (bindP m f)"
proof -
  have "emits tr A (bindP m (\<lambda>x. if R x then f x else ret undefined))"
    by (intro emits_bind assms(1) emits_if assms(3) emits_ret)
  moreover have "bindP m (\<lambda>x. if R x then f x else ret undefined) s = bindP m f s" for s :: 's
  proof -
    obtain r t where m: "m s = (r, t)" by (cases "m s")
    show ?thesis
    proof (cases r)
      case (Inr x)
      with m have "R x" using hoareD_ret [OF assms(2), of s x t] by simp
      with m Inr show ?thesis by (simp add: bindP_def)
    qed (simp add: bindP_def m)
  qed
  ultimately show ?thesis by (simp add: emits_def)
qed

section \<open>Which exceptions a program raises\<close>

text \<open>\<open>raises X m\<close>: an exception of \<open>m\<close> is in \<open>X\<close>. The rules are in \<open>raises_rules\<close>.\<close>

named_theorems raises_rules \<open>introduction rules for the exceptions of a program\<close>

definition raises :: "'e set \<Rightarrow> ('s, 'e, 'a) prog \<Rightarrow> bool" where
  "raises X m \<longleftrightarrow> (\<forall>s e t. m s = (Inl e, t) \<longrightarrow> e \<in> X)"

lemma raisesD: "raises X m \<Longrightarrow> m s = (Inl e, t) \<Longrightarrow> e \<in> X"
  unfolding raises_def by blast

lemma raises_ret [raises_rules]: "raises X (ret x)"
  by (simp add: raises_def)

lemma raises_raise [raises_rules]: "e \<in> X \<Longrightarrow> raises X (raise e)"
  by (simp add: raises_def)

lemma raises_getP [raises_rules]: "raises X (getP f)"
  by (simp add: raises_def)

lemma raises_modP [raises_rules]: "raises X (modP f)"
  by (simp add: raises_def)

lemma raises_liftP [raises_rules]: "(\<And>e. r = Inl e \<Longrightarrow> e \<in> X) \<Longrightarrow> raises X (liftP r)"
  by (auto simp: raises_def)

lemma raises_bind [raises_rules]: "raises X m \<Longrightarrow> (\<And>x. raises X (f x)) \<Longrightarrow> raises X (bindP m f)"
  unfolding raises_def bindP_Inl_iff by blast

lemma raises_then [raises_rules]: "raises X m \<Longrightarrow> raises X n \<Longrightarrow> raises X (thenP m n)"
  unfolding thenP_def by (rule raises_bind)

lemma raises_if [raises_rules]: "(b \<Longrightarrow> raises X m) \<Longrightarrow> (\<not> b \<Longrightarrow> raises X n) \<Longrightarrow> raises X (if b then m else n)"
  by simp

lemma raises_catch: "raises Y m \<Longrightarrow> (\<And>e. e \<in> Y \<Longrightarrow> raises X (h e)) \<Longrightarrow> raises X (catchP m h)"
  unfolding raises_def catchP_def by (fastforce split: prod.splits sum.splits)

lemma raises_mono: "raises X m \<Longrightarrow> X \<subseteq> Y \<Longrightarrow> raises Y m"
  unfolding raises_def by blast

section \<open>Logs\<close>

text \<open>\<open>every_event P log\<close>: each event satisfies \<open>P\<close> together with the events before it.\<close>

definition every_event :: "('e list \<Rightarrow> 'e \<Rightarrow> bool) \<Rightarrow> 'e list \<Rightarrow> bool" where
  "every_event P log \<longleftrightarrow> (\<forall>i < length log. P (take i log) (log ! i))"

lemma every_event_Nil [simp]: "every_event P []"
  by (simp add: every_event_def)

lemma every_event_snoc [simp]: "every_event P (log @ [e]) \<longleftrightarrow> every_event P log \<and> P log e"
  by (auto simp: every_event_def less_Suc_eq nth_append)

lemma every_event_split: "every_event P (as @ e # bs) \<Longrightarrow> P as e"
  unfolding every_event_def by (drule spec [of _ "length as"]) simp

section \<open>Contiguous sublists\<close>

lemma sublist_iff_take_drop:
  "sublist p s \<longleftrightarrow> (\<exists>i. i + length p \<le> length s \<and> take (length p) (drop i s) = p)"
proof
  assume "sublist p s"
  then obtain a b where "s = a @ p @ b" by (auto simp: sublist_def)
  then show "\<exists>i. i + length p \<le> length s \<and> take (length p) (drop i s) = p"
    by (intro exI [of _ "length a"]) simp
next
  assume "\<exists>i. i + length p \<le> length s \<and> take (length p) (drop i s) = p"
  then obtain i where "take (length p) (drop i s) = p" by blast
  then have "s = take i s @ p @ drop (length p) (drop i s)"
    by (metis append_take_drop_id)
  then show "sublist p s" by (auto simp: sublist_def)
qed

lemma take_drop_nth_eq:
  "take n (drop i s) = p \<Longrightarrow> j < length p \<Longrightarrow> j < n \<Longrightarrow> i + j < length s \<Longrightarrow> s ! (i + j) = p ! j"
  by auto

end
