(* ===== verification/PyStr.thy ===== *)
theory PyStr
  imports Prelude "HOL-Library.List_Lexorder" "HOL-Library.Char_ord" "HOL-Library.Code_Target_Nat"
begin

text \<open>
  The operations of Python's \<open>str\<close> and \<open>bytes\<close> that the program uses, on lists: searching,
  counting, replacing, splitting, stripping, joining and decimal formatting.

  A byte string is a \<open>char list\<close> (a \<open>char\<close> has exactly the 256 byte values). A text string
  is a \<open>char list\<close> as well, so text is modelled up to U+00FF, except where the code
  handles larger code points itself; those components use lists of code points, to which the
  polymorphic operations here apply unchanged.
\<close>

section \<open>Searching\<close>

definition is_at :: "'a list \<Rightarrow> 'a list \<Rightarrow> nat \<Rightarrow> bool" where
  "is_at p s i \<longleftrightarrow> i + length p \<le> length s \<and> take (length p) (drop i s) = p"

text \<open>\<open>s.find(p, i)\<close>; \<open>None\<close> stands for the result -1.\<close>

definition find_from :: "'a list \<Rightarrow> 'a list \<Rightarrow> nat \<Rightarrow> nat option" where
  "find_from p s i = List.find (is_at p s) [i..<Suc (length s)]"

text \<open>\<open>p in s\<close>\<close>

definition contains :: "'a list \<Rightarrow> 'a list \<Rightarrow> bool" where
  "contains p s \<longleftrightarrow> find_from p s 0 \<noteq> None"

definition starts_with :: "'a list \<Rightarrow> 'a list \<Rightarrow> bool" where
  "starts_with p s \<longleftrightarrow> take (length p) s = p"

definition ends_with :: "'a list \<Rightarrow> 'a list \<Rightarrow> bool" where
  "ends_with p s \<longleftrightarrow> length p \<le> length s \<and> drop (length s - length p) s = p"

lemma starts_with_iff: "starts_with p s \<longleftrightarrow> (\<exists>t. s = p @ t)"
  unfolding starts_with_def by (metis append_eq_conv_conj append_take_drop_id)

lemma is_atD_nth: "is_at p s i \<Longrightarrow> j < length p \<Longrightarrow> s ! (i + j) = p ! j"
  unfolding is_at_def by (metis add_leD1 nat_add_left_cancel_less nth_drop nth_take order_less_le_trans)

lemma find_from_Some:
  assumes "find_from p s i = Some j"
  shows "i \<le> j" "is_at p s j" "\<And>k. i \<le> k \<Longrightarrow> k < j \<Longrightarrow> \<not> is_at p s k"
proof -
  from assms obtain n where n: "n < length [i..<Suc (length s)]" "is_at p s ([i..<Suc (length s)] ! n)"
    "j = [i..<Suc (length s)] ! n" "\<And>m. m < n \<Longrightarrow> \<not> is_at p s ([i..<Suc (length s)] ! m)"
    unfolding find_from_def find_Some_iff by blast
  have j: "j = i + n" using n(1,3) by (simp del: upt_Suc)
  show "i \<le> j" using j by simp
  show "is_at p s j" using n(2,3) by simp
  fix k assume k: "i \<le> k" "k < j"
  then have "\<not> is_at p s ([i..<Suc (length s)] ! (k - i))"
    using n(4) [of "k - i"] j by simp
  then show "\<not> is_at p s k" using k j n(1) by (simp del: upt_Suc)
qed

lemma find_from_None: "find_from p s i = None \<longleftrightarrow> (\<forall>k \<ge> i. \<not> is_at p s k)"
proof
  assume *: "find_from p s i = None"
  show "\<forall>k \<ge> i. \<not> is_at p s k"
  proof (intro allI impI notI)
    fix k assume k: "i \<le> k" "is_at p s k"
    then have "k \<in> set [i..<Suc (length s)]" by (auto simp: is_at_def)
    with * k(2) show False unfolding find_from_def find_None_iff by blast
  qed
next
  assume "\<forall>k \<ge> i. \<not> is_at p s k"
  then show "find_from p s i = None" unfolding find_from_def find_None_iff by auto
qed

lemma contains_iff: "contains p s \<longleftrightarrow> (\<exists>i. is_at p s i)"
  by (simp add: contains_def find_from_None)

lemma contains_sublist: "contains p s \<longleftrightarrow> sublist p s"
  unfolding contains_iff sublist_iff_take_drop is_at_def ..

lemma contains_trans: "contains p q \<Longrightarrow> contains q s \<Longrightarrow> contains p s"
  unfolding contains_sublist by (rule sublist_order.order_trans)

section \<open>Counting and replacing\<close>

text \<open>
  \<open>s.count(p)\<close> and \<open>s.replace(p, r)\<close> scan for non-overlapping occurrences from the left. The
  program uses them with a non-empty \<open>p\<close> only; for an empty one the definitions return 0 and
  the text unchanged, which is not Python's answer.
\<close>

function py_count :: "'a list \<Rightarrow> 'a list \<Rightarrow> nat" where
  "py_count p s =
     (if p = [] \<or> s = [] then 0
      else if starts_with p s then Suc (py_count p (drop (length p) s))
      else py_count p (tl s))"
  by pat_completeness auto
termination
  by (relation "measure (\<lambda>(p, s). length s)") (auto simp: starts_with_iff)

function py_replace :: "'a list \<Rightarrow> 'a list \<Rightarrow> 'a list \<Rightarrow> 'a list" where
  "py_replace p r s =
     (if p = [] \<or> s = [] then s
      else if starts_with p s then r @ py_replace p r (drop (length p) s)
      else hd s # py_replace p r (tl s))"
  by pat_completeness auto
termination
  by (relation "measure (\<lambda>(p, r, s). length s)") (auto simp: starts_with_iff)

declare py_count.simps [simp del] py_replace.simps [simp del]

lemma py_replace_Nil [simp]: "py_replace p r [] = []"
  by (simp add: py_replace.simps)

lemma py_replace_single:
  "py_replace [c] r s = concat (map (\<lambda>x. if x = c then r else [x]) s)"
proof (induction s)
  case (Cons x s)
  then show ?case
    by (subst py_replace.simps) (simp add: starts_with_def)
qed simp

section \<open>Stripping and splitting\<close>

text \<open>\<open>str.isspace\<close> up to U+00FF, and the whitespace of \<open>bytes\<close>.\<close>

definition str_space :: "char \<Rightarrow> bool" where
  "str_space c \<longleftrightarrow> (let n = of_char c :: nat in
     (9 \<le> n \<and> n \<le> 13) \<or> (28 \<le> n \<and> n \<le> 32) \<or> n = 133 \<or> n = 160)"

definition byte_space :: "char \<Rightarrow> bool" where
  "byte_space c \<longleftrightarrow> (let n = of_char c :: nat in (9 \<le> n \<and> n \<le> 13) \<or> n = 32)"

definition lstrip_by :: "('a \<Rightarrow> bool) \<Rightarrow> 'a list \<Rightarrow> 'a list" where
  "lstrip_by sp s = dropWhile sp s"

definition rstrip_by :: "('a \<Rightarrow> bool) \<Rightarrow> 'a list \<Rightarrow> 'a list" where
  "rstrip_by sp s = rev (dropWhile sp (rev s))"

definition strip_by :: "('a \<Rightarrow> bool) \<Rightarrow> 'a list \<Rightarrow> 'a list" where
  "strip_by sp s = rstrip_by sp (lstrip_by sp s)"

abbreviation strip :: "string \<Rightarrow> string" where
  "strip \<equiv> strip_by str_space"

abbreviation rstrip :: "string \<Rightarrow> string" where
  "rstrip \<equiv> rstrip_by str_space"

lemma rstrip_by_prefix: "\<exists>t. s = rstrip_by sp s @ t"
proof -
  have "rev s = takeWhile sp (rev s) @ dropWhile sp (rev s)" by simp
  then have "s = rev (dropWhile sp (rev s)) @ rev (takeWhile sp (rev s))"
    by (metis rev_append rev_rev_ident)
  then show ?thesis unfolding rstrip_by_def by blast
qed

lemma length_rstrip_by: "length (rstrip_by sp s) \<le> length s"
  unfolding rstrip_by_def by (metis length_dropWhile_le length_rev)

lemma set_rstrip_by: "set (rstrip_by sp s) \<subseteq> set s"
  unfolding rstrip_by_def using set_dropWhileD by fastforce

lemma set_strip_by: "set (strip_by sp s) \<subseteq> set s"
  unfolding strip_by_def lstrip_by_def using set_rstrip_by set_dropWhileD by fastforce

text \<open>\<open>s.split(c)\<close> for a one-character separator: always at least one piece.\<close>

fun split_on :: "'a \<Rightarrow> 'a list \<Rightarrow> 'a list list" where
  "split_on c [] = [[]]"
| "split_on c (x # xs) =
     (if x = c then [] # split_on c xs
      else case split_on c xs of [] \<Rightarrow> [[x]] | w # ws \<Rightarrow> (x # w) # ws)"

lemma split_on_not_Nil [simp]: "split_on c s \<noteq> []"
  by (induction s) (auto split: list.splits)

text \<open>\<open>s.split()\<close>: the maximal runs of non-whitespace characters.\<close>

function words_by :: "('a \<Rightarrow> bool) \<Rightarrow> 'a list \<Rightarrow> 'a list list" where
  "words_by sp s =
     (let t = dropWhile sp s in
      if t = [] then []
      else takeWhile (Not \<circ> sp) t # words_by sp (dropWhile (Not \<circ> sp) t))"
  by pat_completeness auto
termination
proof (relation "measure (\<lambda>(sp, s). length s)", simp, clarsimp)
  fix sp :: "'a \<Rightarrow> bool" and s x
  assume "x \<in> set s" "\<not> sp x"
  then have "dropWhile sp s \<noteq> []" by (auto simp: dropWhile_eq_Nil_conv)
  then obtain y ys where y: "dropWhile sp s = y # ys" "\<not> sp y"
    by (metis hd_dropWhile list.collapse)
  have "length (dropWhile (Not \<circ> sp) (y # ys)) \<le> length ys"
    using y(2) by (simp add: length_dropWhile_le)
  also have "\<dots> < length (dropWhile sp s)" using y(1) by simp
  also have "\<dots> \<le> length s" by (rule length_dropWhile_le)
  finally show "length (dropWhile (Not \<circ> sp) (dropWhile sp s)) < length s" using y(1) by simp
qed

declare words_by.simps [simp del]

declare words_by.simps [code del]

lemma words_by_unfold [code]:
  "words_by sp s = (case dropWhile sp s of [] \<Rightarrow> []
     | x # t \<Rightarrow> (x # takeWhile (Not \<circ> sp) t) # words_by sp (dropWhile (Not \<circ> sp) t))"
proof (cases "dropWhile sp s")
  case Nil
  then show ?thesis by (simp add: words_by.simps [of sp s] del: dropWhile_eq_Nil_conv)
next
  case (Cons x t)
  then have "\<not> sp x" by (metis hd_dropWhile list.distinct(1) list.sel(1))
  with Cons show ?thesis by (simp add: words_by.simps [of sp s])
qed

lemma set_words_by: "w \<in> set (words_by sp s) \<Longrightarrow> w \<noteq> [] \<and> (\<forall>x \<in> set w. \<not> sp x \<and> x \<in> set s)"
proof (induction sp s rule: words_by.induct)
  case (1 sp s)
  show ?case
  proof (cases "dropWhile sp s")
    case Nil
    with 1(2) show ?thesis by (simp add: words_by.simps)
  next
    case (Cons x t)
    then have x: "\<not> sp x" "x \<in> set s"
      by (metis hd_dropWhile list.distinct(1) list.sel(1),
          metis Cons list.set_intros(1) set_dropWhileD)
    have sub: "set t \<subseteq> set s" using Cons by (metis set_dropWhileD set_subset_Cons subset_code(1))
    from 1(2) Cons consider "w = x # takeWhile (Not \<circ> sp) t"
      | "w \<in> set (words_by sp (dropWhile (Not \<circ> sp) t))"
      by (auto simp: words_by_unfold [of sp s])
    then show ?thesis
    proof cases
      case 1
      then show ?thesis using x sub by (auto dest: set_takeWhileD)
    next
      case 2
      then have "w \<in> set (words_by sp (dropWhile (Not \<circ> sp) (x # t)))" using x by simp
      from "1.IH" [OF Cons [symmetric] _ this]
      show ?thesis using x sub Cons by (auto dest: set_dropWhileD)
    qed
  qed
qed

text \<open>\<open>sep.join(parts)\<close>\<close>

fun join :: "'a list \<Rightarrow> 'a list list \<Rightarrow> 'a list" where
  "join sep [] = []"
| "join sep [w] = w"
| "join sep (w # ws) = w @ sep @ join sep ws"



section \<open>Characters and numbers\<close>

definition code :: "char \<Rightarrow> nat" where
  "code c = of_char c"

definition in_range :: "char \<Rightarrow> char \<Rightarrow> char \<Rightarrow> bool" where
  "in_range a b c \<longleftrightarrow> code a \<le> code c \<and> code c \<le> code b"

definition is_digit :: "char \<Rightarrow> bool" where
  "is_digit = in_range (CHR ''0'') (CHR ''9'')"

definition is_alpha :: "char \<Rightarrow> bool" where
  "is_alpha c \<longleftrightarrow> in_range (CHR ''a'') (CHR ''z'') c \<or> in_range (CHR ''A'') (CHR ''Z'') c"

definition is_alnum :: "char \<Rightarrow> bool" where
  "is_alnum c \<longleftrightarrow> is_alpha c \<or> is_digit c"

text \<open>\<open>str.splitlines()\<close> up to U+00FF: the line boundaries are LF, CR, CR LF, VT, FF, FS, GS, RS and NEL.
  The first argument holds the characters of the current line, reversed.\<close>

definition line_break :: "char \<Rightarrow> bool" where
  "line_break c \<longleftrightarrow> (let n = code c in (10 \<le> n \<and> n \<le> 13) \<or> (28 \<le> n \<and> n \<le> 30) \<or> n = 133)"

fun lines_acc :: "string \<Rightarrow> string \<Rightarrow> string list" where
  "lines_acc cur [] = (if cur = [] then [] else [rev cur])"
| "lines_acc cur [c] = (if line_break c then [rev cur] else [rev (c # cur)])"
| "lines_acc cur (c # d # s) =
     (if c = CHR 0x0D \<and> d = CHR 0x0A then rev cur # lines_acc [] s
      else if line_break c then rev cur # lines_acc [] (d # s)
      else lines_acc (c # cur) (d # s))"

definition lines_of :: "string \<Rightarrow> string list" where
  "lines_of s = lines_acc [] s"

text \<open>\<open>bytes.lower\<close>, and \<open>str.lower\<close> up to U+00FF.\<close>

definition byte_lower :: "char \<Rightarrow> char" where
  "byte_lower c = (if in_range (CHR ''A'') (CHR ''Z'') c then char_of (code c + 32) else c)"

definition str_lower :: "char \<Rightarrow> char" where
  "str_lower c = (if in_range (CHR ''A'') (CHR ''Z'') c \<or> (192 \<le> code c \<and> code c \<le> 222 \<and> code c \<noteq> 215)
     then char_of (code c + 32) else c)"

abbreviation lower :: "string \<Rightarrow> string" where
  "lower \<equiv> map str_lower"

fun show_nat :: "nat \<Rightarrow> string" where
  "show_nat n = (if n < 10 then [char_of (48 + n)]
     else show_nat (n div 10) @ [char_of (48 + n mod 10)])"

declare show_nat.simps [simp del]

definition show_int :: "int \<Rightarrow> string" where
  "show_int i = (if i < 0 then CHR ''-'' # show_nat (nat (- i)) else show_nat (nat i))"

lemma show_nat_digits: "list_all is_digit (show_nat n)"
proof (induction n rule: show_nat.induct)
  case (1 n)
  have d: "is_digit (char_of (48 + k))" if "k < 10" for k :: nat
    using that by (auto simp: is_digit_def in_range_def code_def of_char_of)
  show ?case
  proof (cases "n < 10")
    case True
    then show ?thesis by (subst show_nat.simps) (simp add: d)
  next
    case False
    with 1 show ?thesis by (subst show_nat.simps) (simp add: d)
  qed
qed

lemma show_nat_not_Nil: "show_nat n \<noteq> []"
  by (subst show_nat.simps) simp

text \<open>\<open>int(s)\<close> for a run of ASCII digits.\<close>

definition digits_val :: "string \<Rightarrow> nat" where
  "digits_val s = foldl (\<lambda>n c. 10 * n + (code c - 48)) 0 s"

lemma digits_val_show_nat: "digits_val (show_nat n) = n"
proof (induction n rule: show_nat.induct)
  case (1 n)
  have d: "code (char_of (48 + k)) - 48 = k" if "k < 10" for k :: nat
    using that by (simp add: code_def of_char_of)
  show ?case
  proof (cases "n < 10")
    case True
    then show ?thesis by (subst show_nat.simps) (simp add: digits_val_def d)
  next
    case False
    then have "digits_val (show_nat n) = 10 * digits_val (show_nat (n div 10)) + n mod 10"
      by (subst show_nat.simps) (simp add: digits_val_def d)
    with 1 False show ?thesis by simp
  qed
qed

text \<open>\<open>s.encode()\<close>: UTF-8, for text up to U+00FF.\<close>

definition utf8 :: "string \<Rightarrow> string" where
  "utf8 s = concat (map (\<lambda>c. if code c < 128 then [c]
     else [char_of (192 + code c div 64), char_of (128 + code c mod 64)]) s)"

section \<open>Minima and sorting by a key\<close>

text \<open>\<open>min(xs, key=f)\<close>: the first element whose key is least.\<close>

fun min_by :: "('a \<Rightarrow> 'k::linorder) \<Rightarrow> 'a list \<Rightarrow> 'a option" where
  "min_by f [] = None"
| "min_by f (x # xs) = (case min_by f xs of None \<Rightarrow> Some x
     | Some y \<Rightarrow> if f x \<le> f y then Some x else Some y)"

lemma min_by_None [simp]: "min_by f xs = None \<longleftrightarrow> xs = []"
  by (cases xs) (auto split: option.splits)

lemma min_by_Some: "min_by f xs = Some x \<Longrightarrow> x \<in> set xs \<and> (\<forall>y \<in> set xs. f x \<le> f y)"
proof (induction xs arbitrary: x)
  case (Cons a xs)
  show ?case
  proof (cases "min_by f xs")
    case None
    with Cons.prems show ?thesis by simp
  next
    case (Some b)
    with Cons.IH [OF Some] Cons.prems show ?thesis by (auto split: if_splits)
  qed
qed simp

end
