(* ===== verification/PyRegex.thy ===== *)
theory PyRegex
  imports PyStr
begin

text \<open>
  A backtracking matcher with the semantics of Python's \<open>re\<close> module: ordered alternatives,
  greedy and lazy repetition with bounds, numbered groups, back-references and zero-width
  assertions. \<open>rx_run r s i cs\<close> lists, in the order in which the engine would try them, every
  way to match \<open>r\<close> at position \<open>i\<close> of \<open>s\<close> starting from the group bindings \<open>cs\<close>: each result
  is the end position and the new bindings. \<open>re.match\<close> takes the first result.

  A pattern of the source is a term of \<open>rx\<close>; the engine is polymorphic in the character
  type, so it serves byte strings, text and lists of code points alike. Repetition drops an
  iteration that consumes nothing once the lower bound is reached, which is how the engine
  terminates on patterns such as \<open>(a*)*\<close>.
\<close>

section \<open>Patterns\<close>

datatype 'c rx =
    Eps
  | Cls "'c \<Rightarrow> bool"                     \<comment> \<open>one character of a class\<close>
  | Assert "'c list \<Rightarrow> nat \<Rightarrow> bool"       \<comment> \<open>zero-width: anchors, word boundaries, lookahead\<close>
  | Seq "'c rx" "'c rx"
  | Alt "'c rx" "'c rx"
  | Rep bool nat "nat option" "'c rx"    \<comment> \<open>greedy?, lower bound, upper bound\<close>
  | Grp nat "'c rx"
  | Backref nat

text \<open>Bindings: the group number and its half-open span, most recent first.\<close>

type_synonym caps = "(nat \<times> nat \<times> nat) list"

definition group_span :: "caps \<Rightarrow> nat \<Rightarrow> (nat \<times> nat) option" where
  "group_span cs g = map_of cs g"

definition slice :: "'c list \<Rightarrow> nat \<Rightarrow> nat \<Rightarrow> 'c list" where
  "slice s i j = take (j - i) (drop i s)"

section \<open>Matching\<close>

fun rep_opt ::
  "(nat \<Rightarrow> caps \<Rightarrow> (nat \<times> caps) list) \<Rightarrow> bool \<Rightarrow> nat \<Rightarrow> nat \<Rightarrow> caps \<Rightarrow> (nat \<times> caps) list" where
  "rep_opt f gr 0 i cs = [(i, cs)]"
| "rep_opt f gr (Suc n) i cs =
     (let more = concat (map (\<lambda>(j, ds). if j \<le> i then [] else rep_opt f gr n j ds) (f i cs))
      in if gr then more @ [(i, cs)] else (i, cs) # more)"

fun rep_run ::
  "(nat \<Rightarrow> caps \<Rightarrow> (nat \<times> caps) list) \<Rightarrow> bool \<Rightarrow> nat \<Rightarrow> nat \<Rightarrow> nat \<Rightarrow> caps \<Rightarrow> (nat \<times> caps) list" where
  "rep_run f gr 0 n i cs = rep_opt f gr n i cs"
| "rep_run f gr (Suc lo) n i cs = concat (map (\<lambda>(j, ds). rep_run f gr lo n j ds) (f i cs))"

primrec rx_run :: "'c rx \<Rightarrow> 'c list \<Rightarrow> nat \<Rightarrow> caps \<Rightarrow> (nat \<times> caps) list" where
  "rx_run Eps s i cs = [(i, cs)]"
| "rx_run (Cls p) s i cs = (if i < length s \<and> p (s ! i) then [(Suc i, cs)] else [])"
| "rx_run (Assert p) s i cs = (if p s i then [(i, cs)] else [])"
| "rx_run (Seq a b) s i cs = concat (map (\<lambda>(j, ds). rx_run b s j ds) (rx_run a s i cs))"
| "rx_run (Alt a b) s i cs = rx_run a s i cs @ rx_run b s i cs"
| "rx_run (Rep gr lo hi r) s i cs =
     rep_run (rx_run r s) gr lo
       (case hi of None \<Rightarrow> length s - i | Some h \<Rightarrow> min (h - lo) (length s - i)) i cs"
| "rx_run (Grp g r) s i cs = map (\<lambda>(j, ds). (j, (g, i, j) # ds)) (rx_run r s i cs)"
| "rx_run (Backref g) s i cs =
     (case group_span cs g of None \<Rightarrow> []
      | Some (a, b) \<Rightarrow> if is_at (slice s a b) s i then [(i + length (slice s a b), cs)] else [])"

text \<open>\<open>re.match\<close>, \<open>re.fullmatch\<close>, \<open>re.search\<close> and the leftmost non-overlapping matches of
  \<open>re.finditer\<close>. A match is its span and its group bindings.\<close>

record rx_match =
  m_start :: nat
  m_end :: nat
  m_caps :: caps

definition rx_match_at :: "'c rx \<Rightarrow> 'c list \<Rightarrow> nat \<Rightarrow> rx_match option" where
  "rx_match_at r s i = (case rx_run r s i [] of [] \<Rightarrow> None
     | (j, cs) # _ \<Rightarrow> Some \<lparr>m_start = i, m_end = j, m_caps = cs\<rparr>)"

definition rx_fullmatch :: "'c rx \<Rightarrow> 'c list \<Rightarrow> rx_match option" where
  "rx_fullmatch r s = (case filter (\<lambda>(j, cs). j = length s) (rx_run r s 0 []) of [] \<Rightarrow> None
     | (j, cs) # _ \<Rightarrow> Some \<lparr>m_start = 0, m_end = j, m_caps = cs\<rparr>)"

fun rx_scan :: "'c rx \<Rightarrow> 'c list \<Rightarrow> nat \<Rightarrow> nat \<Rightarrow> rx_match option" where
  "rx_scan r s 0 i = rx_match_at r s i"
| "rx_scan r s (Suc n) i =
     (case rx_match_at r s i of Some m \<Rightarrow> Some m | None \<Rightarrow> rx_scan r s n (Suc i))"

definition rx_search_from :: "'c rx \<Rightarrow> 'c list \<Rightarrow> nat \<Rightarrow> rx_match option" where
  "rx_search_from r s i = (if i \<le> length s then rx_scan r s (length s - i) i else None)"

definition rx_search :: "'c rx \<Rightarrow> 'c list \<Rightarrow> rx_match option" where
  "rx_search r s = rx_search_from r s 0"

text \<open>
  The program iterates over patterns that cannot match the empty string, so after a match
  the search goes on at its end. For an empty match the definition moves on by one
  character, which is where Python's iterator would look next for a non-empty match.
\<close>

fun rx_iter :: "'c rx \<Rightarrow> 'c list \<Rightarrow> nat \<Rightarrow> nat \<Rightarrow> rx_match list" where
  "rx_iter r s 0 i = []"
| "rx_iter r s (Suc n) i =
     (case rx_search_from r s i of None \<Rightarrow> []
      | Some m \<Rightarrow> m # rx_iter r s n (if m_end m = m_start m then Suc (m_end m) else m_end m))"

definition rx_finditer :: "'c rx \<Rightarrow> 'c list \<Rightarrow> rx_match list" where
  "rx_finditer r s = rx_iter r s (Suc (length s)) 0"

definition m_text :: "'c list \<Rightarrow> rx_match \<Rightarrow> 'c list" where
  "m_text s m = slice s (m_start m) (m_end m)"

definition m_group :: "'c list \<Rightarrow> rx_match \<Rightarrow> nat \<Rightarrow> 'c list" where
  "m_group s m g = (case group_span (m_caps m) g of None \<Rightarrow> [] | Some (a, b) \<Rightarrow> slice s a b)"

definition m_span :: "rx_match \<Rightarrow> nat \<Rightarrow> nat \<times> nat" where
  "m_span m g = (case group_span (m_caps m) g of None \<Rightarrow> (0, 0) | Some ab \<Rightarrow> ab)"

text \<open>\<open>re.sub\<close> with a function: the text between matches is kept.\<close>

fun sub_pieces :: "'c list \<Rightarrow> (rx_match \<Rightarrow> 'c list) \<Rightarrow> nat \<Rightarrow> rx_match list \<Rightarrow> 'c list" where
  "sub_pieces s f pos [] = drop pos s"
| "sub_pieces s f pos (m # ms) = slice s pos (m_start m) @ f m @ sub_pieces s f (m_end m) ms"

definition rx_sub :: "'c rx \<Rightarrow> (rx_match \<Rightarrow> 'c list) \<Rightarrow> 'c list \<Rightarrow> 'c list" where
  "rx_sub r f s = sub_pieces s f 0 (rx_finditer r s)"

section \<open>Building patterns\<close>

fun Lit :: "'c list \<Rightarrow> 'c rx" where
  "Lit [] = Eps"
| "Lit (c # cs) = Seq (Cls (\<lambda>x. x = c)) (Lit cs)"

fun Seqs :: "'c rx list \<Rightarrow> 'c rx" where
  "Seqs [] = Eps"
| "Seqs [r] = r"
| "Seqs (r # rs) = Seq r (Seqs rs)"

fun Alts :: "'c rx list \<Rightarrow> 'c rx" where
  "Alts [] = Cls (\<lambda>_. False)"
| "Alts [r] = r"
| "Alts (r # rs) = Alt r (Alts rs)"

abbreviation Star :: "'c rx \<Rightarrow> 'c rx" where "Star \<equiv> Rep True 0 None"
abbreviation Plus :: "'c rx \<Rightarrow> 'c rx" where "Plus \<equiv> Rep True 1 None"
abbreviation Opt :: "'c rx \<Rightarrow> 'c rx" where "Opt \<equiv> Rep True 0 (Some 1)"
abbreviation AnyLazy :: "'c rx" where "AnyLazy \<equiv> Rep False 0 None (Cls (\<lambda>_. True))"

text \<open>A literal compared without regard to ASCII case, as under \<open>(?i)\<close>.\<close>

definition ILit :: "string \<Rightarrow> char rx" where
  "ILit w = Seqs (map (\<lambda>c. Cls (\<lambda>x. byte_lower x = c)) w)"

definition at_end :: "'c list \<Rightarrow> nat \<Rightarrow> bool" where
  "at_end s i \<longleftrightarrow> i = length s"

text \<open>\<open>$\<close> in a text pattern without \<open>re.MULTILINE\<close>: the end, or before a line feed at the end.\<close>

definition dollar :: "string \<Rightarrow> nat \<Rightarrow> bool" where
  "dollar s i \<longleftrightarrow> i = length s \<or> (Suc i = length s \<and> s ! i = CHR 0x0A)"

definition word_char :: "char \<Rightarrow> bool" where
  "word_char c \<longleftrightarrow> is_alnum c \<or> c = CHR ''_''"

text \<open>\<open>\b\<close> in a bytes pattern.\<close>

definition word_boundary :: "string \<Rightarrow> nat \<Rightarrow> bool" where
  "word_boundary s i \<longleftrightarrow>
     ((0 < i \<and> i \<le> length s \<and> word_char (s ! (i - 1))) \<noteq> (i < length s \<and> word_char (s ! i)))"

section \<open>What every match satisfies\<close>

text \<open>Results never move backwards and never leave the text.\<close>

lemma rep_opt_bounds:
  assumes "\<And>i cs j ds. i \<le> L \<Longrightarrow> (j, ds) \<in> set (f i cs) \<Longrightarrow> i \<le> j \<and> j \<le> L"
  shows "i \<le> L \<Longrightarrow> (j, ds) \<in> set (rep_opt f gr n i cs) \<Longrightarrow> i \<le> j \<and> j \<le> L"
proof (induction n arbitrary: i cs)
  case (Suc n)
  then consider "(j, ds) = (i, cs)"
    | k es where "(k, es) \<in> set (f i cs)" "i < k" "(j, ds) \<in> set (rep_opt f gr n k es)"
    by (fastforce simp: Let_def split: if_splits)
  then show ?case
  proof cases
    case 2
    with assms Suc.prems have "k \<le> L" by blast
    with Suc.IH 2 show ?thesis by fastforce
  qed (use Suc.prems in simp)
qed simp

lemma rep_run_bounds:
  assumes "\<And>i cs j ds. i \<le> L \<Longrightarrow> (j, ds) \<in> set (f i cs) \<Longrightarrow> i \<le> j \<and> j \<le> L"
  shows "i \<le> L \<Longrightarrow> (j, ds) \<in> set (rep_run f gr lo n i cs) \<Longrightarrow> i \<le> j \<and> j \<le> L"
proof (induction lo arbitrary: i cs)
  case 0
  then have "(j, ds) \<in> set (rep_opt f gr n i cs)" by simp
  from rep_opt_bounds [OF assms 0(1) this] show ?case .
next
  case (Suc lo)
  then obtain k es where "(k, es) \<in> set (f i cs)" "(j, ds) \<in> set (rep_run f gr lo n k es)"
    by auto
  with Suc assms show ?case by (meson le_trans)
qed

lemma rx_run_bounds:
  "i \<le> length s \<Longrightarrow> (j, ds) \<in> set (rx_run r s i cs) \<Longrightarrow> i \<le> j \<and> j \<le> length s"
proof (induction r arbitrary: i j cs ds)
  case (Seq a b)
  from Seq.prems obtain k es where "(k, es) \<in> set (rx_run a s i cs)" "(j, ds) \<in> set (rx_run b s k es)"
    by auto
  with Seq show ?case by (meson le_trans)
next
  case (Rep gr lo hi r)
  from Rep.prems(2) obtain n where "(j, ds) \<in> set (rep_run (rx_run r s) gr lo n i cs)" by simp
  from rep_run_bounds [OF Rep.IH Rep.prems(1) this] show ?case .
next
  case (Backref g)
  then show ?case
    by (auto simp: is_at_def split: option.splits if_splits)
next
  case (Alt a b)
  from Alt.prems(2) consider "(j, ds) \<in> set (rx_run a s i cs)" | "(j, ds) \<in> set (rx_run b s i cs)"
    by auto
  then show ?case
    by cases (rule Alt.IH(1) [OF Alt.prems(1)], assumption, rule Alt.IH(2) [OF Alt.prems(1)], assumption)
next
  case (Grp g r)
  from Grp.prems(2) obtain es where "(j, es) \<in> set (rx_run r s i cs)" by auto
  then show ?case by (rule Grp.IH [OF Grp.prems(1)])
qed (simp_all split: if_splits)

lemma rx_match_at_bounds:
  "rx_match_at r s i = Some m \<Longrightarrow> i \<le> length s \<Longrightarrow>
   m_start m = i \<and> i \<le> m_end m \<and> m_end m \<le> length s"
proof -
  assume m: "rx_match_at r s i = Some m" and i: "i \<le> length s"
  then obtain j cs where "(j, cs) \<in> set (rx_run r s i [])" "m = \<lparr>m_start = i, m_end = j, m_caps = cs\<rparr>"
    unfolding rx_match_at_def by (cases "rx_run r s i []") auto
  with rx_run_bounds [OF i, of j cs r "[]"] show ?thesis by simp
qed

lemma rx_scan_bounds:
  "rx_scan r s n i = Some m \<Longrightarrow> i + n = length s \<Longrightarrow>
   i \<le> m_start m \<and> m_start m \<le> m_end m \<and> m_end m \<le> length s \<and>
   rx_match_at r s (m_start m) = Some m"
proof (induction n arbitrary: i)
  case 0
  then show ?case using rx_match_at_bounds [of r s i m] by simp
next
  case (Suc n)
  show ?case
  proof (cases "rx_match_at r s i")
    case None
    with Suc show ?thesis by (auto dest!: Suc.IH)
  next
    case (Some m')
    with Suc.prems show ?thesis using rx_match_at_bounds [of r s i m] by auto
  qed
qed

lemma rx_scan_None:
  "rx_scan r s n i = None \<longleftrightarrow> (\<forall>k. i \<le> k \<and> k \<le> i + n \<longrightarrow> rx_match_at r s k = None)"
proof (induction n arbitrary: i)
  case 0
  then show ?case by auto
next
  case (Suc n)
  have "(\<forall>k. i \<le> k \<and> k \<le> i + Suc n \<longrightarrow> rx_match_at r s k = None) \<longleftrightarrow>
    rx_match_at r s i = None \<and> (\<forall>k. Suc i \<le> k \<and> k \<le> Suc i + n \<longrightarrow> rx_match_at r s k = None)"
    (is "?l \<longleftrightarrow> ?a \<and> ?b")
  proof
    assume ?l
    then show "?a \<and> ?b" by simp
  next
    assume ab: "?a \<and> ?b"
    show ?l
    proof (intro allI impI)
      fix k assume "i \<le> k \<and> k \<le> i + Suc n"
      then consider "k = i" | "Suc i \<le> k \<and> k \<le> Suc i + n" by linarith
      then show "rx_match_at r s k = None" using ab by cases auto
    qed
  qed
  then show ?case using Suc by (auto split: option.splits)
qed

lemma rx_scan_first:
  "rx_scan r s n i = Some m \<Longrightarrow> i + n = length s \<Longrightarrow> i \<le> k \<Longrightarrow> k < m_start m \<Longrightarrow> rx_match_at r s k = None"
proof (induction n arbitrary: i)
  case 0
  then show ?case using rx_match_at_bounds [of r s i m] by simp
next
  case (Suc n)
  show ?case
  proof (cases "rx_match_at r s i")
    case None
    show ?thesis
    proof (cases "k = i")
      case False
      with None Suc show ?thesis by (auto intro: Suc.IH)
    qed (use None in simp)
  next
    case (Some m')
    with Suc.prems show ?thesis using rx_match_at_bounds [of r s i m] by auto
  qed
qed

lemma rx_search_from_Some:
  assumes "rx_search_from r s i = Some m"
  shows "i \<le> m_start m" "m_start m \<le> m_end m" "m_end m \<le> length s"
    "rx_match_at r s (m_start m) = Some m"
    "\<And>k. i \<le> k \<Longrightarrow> k < m_start m \<Longrightarrow> rx_match_at r s k = None"
  using assms rx_scan_bounds [of r s "length s - i" i m] rx_scan_first [of r s "length s - i" i m]
  unfolding rx_search_from_def by (auto split: if_splits)

lemma rx_search_from_None:
  "rx_search_from r s i = None \<longleftrightarrow> (\<forall>k. i \<le> k \<and> k \<le> length s \<longrightarrow> rx_match_at r s k = None)"
  unfolding rx_search_from_def by (auto simp: rx_scan_None)

lemma rx_search_None: "rx_search r s = None \<longleftrightarrow> (\<forall>k \<le> length s. rx_match_at r s k = None)"
  unfolding rx_search_def rx_search_from_None by simp

text \<open>The matches of \<open>finditer\<close> are in order and do not overlap.\<close>

fun spans_from :: "nat \<Rightarrow> nat \<Rightarrow> rx_match list \<Rightarrow> bool" where
  "spans_from L i [] = True"
| "spans_from L i (m # ms) =
     (i \<le> m_start m \<and> m_start m \<le> m_end m \<and> m_end m \<le> L \<and> spans_from L (m_end m) ms)"

lemma spans_from_mono: "spans_from L i ms \<Longrightarrow> j \<le> i \<Longrightarrow> spans_from L j ms"
  by (cases ms) auto

lemma spans_from_iter: "spans_from (length s) i (rx_iter r s n i)"
proof (induction n arbitrary: i)
  case (Suc n)
  show ?case
  proof (cases "rx_search_from r s i")
    case (Some m)
    let ?j = "if m_end m = m_start m then Suc (m_end m) else m_end m"
    have "spans_from (length s) (m_end m) (rx_iter r s n ?j)"
      by (rule spans_from_mono [OF Suc.IH]) simp
    with Some rx_search_from_Some [OF Some] show ?thesis by simp
  qed simp
qed simp

lemma spans_from_finditer: "spans_from (length s) 0 (rx_finditer r s)"
  unfolding rx_finditer_def by (rule spans_from_iter)

lemma rx_iter_match: "m \<in> set (rx_iter r s n i) \<Longrightarrow> rx_match_at r s (m_start m) = Some m"
proof (induction n arbitrary: i)
  case (Suc n)
  then show ?case
    by (cases "rx_search_from r s i") (auto simp: rx_search_from_Some(4))
qed simp

lemma rx_finditer_match: "m \<in> set (rx_finditer r s) \<Longrightarrow> rx_match_at r s (m_start m) = Some m"
  unfolding rx_finditer_def by (rule rx_iter_match)

lemma spans_from_mem:
  "spans_from L i ms \<Longrightarrow> m \<in> set ms \<Longrightarrow> i \<le> m_start m \<and> m_start m \<le> m_end m \<and> m_end m \<le> L"
proof (induction ms arbitrary: i)
  case (Cons x ms)
  then show ?case
  proof (cases "m = x")
    case False
    with Cons have "m_end x \<le> m_start m \<and> m_start m \<le> m_end m \<and> m_end m \<le> L" by auto
    with Cons.prems(1) show ?thesis by simp
  qed simp
qed simp

lemma rx_finditer_span:
  "m \<in> set (rx_finditer r s) \<Longrightarrow> m_start m \<le> m_end m \<and> m_end m \<le> length s"
  using spans_from_mem [OF spans_from_finditer] by fastforce

text \<open>With no match, \<open>re.sub\<close> changes nothing.\<close>

lemma rx_finditer_Nil: "rx_search r s = None \<Longrightarrow> rx_finditer r s = []"
  by (simp add: rx_finditer_def rx_search_def)

lemma rx_sub_no_match: "rx_search r s = None \<Longrightarrow> rx_sub r f s = s"
  by (simp add: rx_sub_def rx_finditer_Nil)

section \<open>Group spans\<close>

definition caps_ok :: "nat \<Rightarrow> caps \<Rightarrow> bool" where
  "caps_ok n cs \<longleftrightarrow> (\<forall>(g, a, b) \<in> set cs. a \<le> b \<and> b \<le> n)"

lemma rep_opt_keeps:
  assumes "\<And>i cs j ds. Q i cs \<Longrightarrow> (j, ds) \<in> set (f i cs) \<Longrightarrow> Q j ds"
  shows "Q i cs \<Longrightarrow> (j, ds) \<in> set (rep_opt f gr n i cs) \<Longrightarrow> Q j ds"
proof (induction n arbitrary: i cs)
  case (Suc n)
  then consider "j = i" "ds = cs" | k es where "(k, es) \<in> set (f i cs)" "(j, ds) \<in> set (rep_opt f gr n k es)"
    by (auto simp: Let_def split: if_splits)
  then show ?case
  proof cases
    case 1
    with Suc.prems show ?thesis by simp
  next
    case 2
    from Suc.IH [OF assms [OF Suc.prems(1) 2(1)] 2(2)] show ?thesis .
  qed
qed simp

lemma rep_run_keeps:
  assumes "\<And>i cs j ds. Q i cs \<Longrightarrow> (j, ds) \<in> set (f i cs) \<Longrightarrow> Q j ds"
  shows "Q i cs \<Longrightarrow> (j, ds) \<in> set (rep_run f gr lo n i cs) \<Longrightarrow> Q j ds"
proof (induction lo arbitrary: i cs)
  case 0
  from rep_opt_keeps [where Q = Q, OF assms 0(1)] 0(2) show ?case by simp
next
  case (Suc lo)
  then obtain k es where "(k, es) \<in> set (f i cs)" "(j, ds) \<in> set (rep_run f gr lo n k es)" by auto
  from Suc.IH [OF assms [OF Suc.prems(1) this(1)] this(2)] show ?case .
qed

lemma rx_run_caps:
  "i \<le> length s \<and> caps_ok (length s) cs \<Longrightarrow> (j, ds) \<in> set (rx_run r s i cs) \<Longrightarrow>
   j \<le> length s \<and> caps_ok (length s) ds"
proof (induction r arbitrary: i j cs ds)
  case (Seq a b)
  from Seq.prems obtain k es where "(k, es) \<in> set (rx_run a s i cs)" "(j, ds) \<in> set (rx_run b s k es)"
    by auto
  from Seq.IH(2) [OF Seq.IH(1) [OF Seq.prems(1) this(1)] this(2)] show ?case .
next
  case (Rep gr lo hi r)
  from Rep.prems(2) obtain n where "(j, ds) \<in> set (rep_run (rx_run r s) gr lo n i cs)" by simp
  from rep_run_keeps [where Q = "\<lambda>i cs. i \<le> length s \<and> caps_ok (length s) cs", OF Rep.IH Rep.prems(1) this]
  show ?case .
next
  case (Backref g)
  then show ?case by (auto simp: is_at_def split: option.splits if_splits)
next
  case (Alt a b)
  from Alt.prems(2) consider "(j, ds) \<in> set (rx_run a s i cs)" | "(j, ds) \<in> set (rx_run b s i cs)"
    by auto
  then show ?case
    by cases (rule Alt.IH(1) [OF Alt.prems(1)], assumption, rule Alt.IH(2) [OF Alt.prems(1)], assumption)
next
  case (Grp g r)
  from Grp.prems(2) obtain es where es: "(j, es) \<in> set (rx_run r s i cs)" "ds = (g, i, j) # es" by auto
  from Grp.IH [OF Grp.prems(1) es(1)] rx_run_bounds [of i s j es r cs] es Grp.prems(1)
  show ?case by (simp add: caps_ok_def)
qed (simp_all split: if_splits)

lemma m_span_ordered: "m \<in> set (rx_finditer r s) \<Longrightarrow> fst (m_span m g) \<le> snd (m_span m g) \<and> snd (m_span m g) \<le> length s"
proof -
  assume m: "m \<in> set (rx_finditer r s)"
  from rx_finditer_match [OF m] obtain j cs rest where
      h: "rx_run r s (m_start m) [] = (j, cs) # rest" "m = \<lparr>m_start = m_start m, m_end = j, m_caps = cs\<rparr>"
    unfolding rx_match_at_def by (auto split: list.splits)
  have "m_caps m = cs" by (subst h(2)) simp
  with h(1) have run: "(j, m_caps m) \<in> set (rx_run r s (m_start m) [])" by simp
  have i: "m_start m \<le> length s" using rx_finditer_span [OF m] by simp
  have "m_start m \<le> length s \<and> caps_ok (length s) []" using i by (simp add: caps_ok_def)
  from rx_run_caps [OF this run] have "caps_ok (length s) (m_caps m)" by simp
  then show ?thesis
    unfolding m_span_def group_span_def caps_ok_def by (auto split: option.split dest!: map_of_SomeD)
qed

end
