(* ===== verification/Json.thy ===== *)
theory Json
  imports PyRegex
begin

text \<open>
  JSON documents as Python sees them after \<open>json.load\<close>, and the quoting of \<open>json.dumps\<close> for
  text. An object is the list of its items in document order with distinct keys, which is what
  a Python \<open>dict\<close> built from it iterates over. A number with a fraction or an exponent is kept
  as its source text: the program never computes with one.
\<close>

datatype json =
    JNull
  | JBool bool
  | JInt int
  | JFloat string
  | JStr string
  | JArr "json list"
  | JObj "(string \<times> json) list"

text \<open>\<open>value.get(key)\<close> on an object; a missing key and a non-object give \<open>None\<close>. The places
  where a non-object would raise instead are modelled where they occur.\<close>

fun jget :: "json \<Rightarrow> string \<Rightarrow> json option" where
  "jget (JObj kvs) k = map_of kvs k"
| "jget _ k = None"

definition is_obj :: "json \<Rightarrow> bool" where
  "is_obj j \<longleftrightarrow> (case j of JObj _ \<Rightarrow> True | _ \<Rightarrow> False)"

definition is_arr :: "json \<Rightarrow> bool" where
  "is_arr j \<longleftrightarrow> (case j of JArr _ \<Rightarrow> True | _ \<Rightarrow> False)"

text \<open>Python truth of a value. A number with a fraction or an exponent is false when no digit before its
  exponent is other than zero; that a number too small for a float is rounded to zero is left out.\<close>

definition zero_text :: "string \<Rightarrow> bool" where
  "zero_text x \<longleftrightarrow> set (takeWhile (\<lambda>c. c \<noteq> CHR ''e'' \<and> c \<noteq> CHR ''E'') x) \<subseteq> {CHR ''-'', CHR ''0'', CHR ''.''}"

fun truthy :: "json \<Rightarrow> bool" where
  "truthy JNull = False"
| "truthy (JBool b) = b"
| "truthy (JInt i) = (i \<noteq> 0)"
| "truthy (JFloat x) = (\<not> zero_text x)"
| "truthy (JStr s) = (s \<noteq> [])"
| "truthy (JArr js) = (js \<noteq> [])"
| "truthy (JObj kvs) = (kvs \<noteq> [])"

section \<open>The quoting of text by \<open>json.dumps\<close>\<close>

definition hex_digit :: "nat \<Rightarrow> char" where
  "hex_digit n = (if n < 10 then char_of (48 + n) else char_of (87 + n))"

text \<open>With the default \<open>ensure_ascii\<close>, every character outside printable ASCII becomes an
  escape; up to U+00FF the four hexadecimal digits begin with two zeros.\<close>

definition json_escape_char :: "char \<Rightarrow> string" where
  "json_escape_char c =
     (if c = CHR 0x22 then [CHR 0x5C, CHR 0x22]
      else if c = CHR 0x5C then [CHR 0x5C, CHR 0x5C]
      else if c = CHR 0x0A then [CHR 0x5C, CHR ''n'']
      else if c = CHR 0x0D then [CHR 0x5C, CHR ''r'']
      else if c = CHR 0x09 then [CHR 0x5C, CHR ''t'']
      else if c = CHR 0x0C then [CHR 0x5C, CHR ''f'']
      else if c = CHR 0x08 then [CHR 0x5C, CHR ''b'']
      else if 32 \<le> code c \<and> code c < 127 then [c]
      else [CHR 0x5C, CHR ''u'', CHR ''0'', CHR ''0'', hex_digit (code c div 16), hex_digit (code c mod 16)])"

definition json_quote :: "string \<Rightarrow> string" where
  "json_quote s = CHR 0x22 # concat (map json_escape_char s) @ [CHR 0x22]"

text \<open>A reader of the quoted form: the text of one double-quoted scalar and what follows it.
  It is the decoding a JSON or YAML parser applies, used to state that quoting is safe.\<close>

definition unhex :: "char \<Rightarrow> nat" where
  "unhex c = (if is_digit c then code c - 48 else code c - 87)"

fun json_read :: "string \<Rightarrow> (string \<times> string) option" where
  "json_read [] = None"
| "json_read (c # s) =
     (if c = CHR 0x22 then Some ([], s)
      else if c = CHR 0x5C then
        (case s of
           [] \<Rightarrow> None
         | e # t \<Rightarrow>
             (if e = CHR ''u'' then
                (case t of a # b # x # y # u \<Rightarrow>
                   map_option (\<lambda>(w, r). (char_of (16 * unhex x + unhex y) # w, r)) (json_read u)
                 | _ \<Rightarrow> None)
              else map_option (\<lambda>(w, r).
                ((if e = CHR ''n'' then CHR 0x0A else if e = CHR ''r'' then CHR 0x0D
                  else if e = CHR ''t'' then CHR 0x09 else if e = CHR ''f'' then CHR 0x0C
                  else if e = CHR ''b'' then CHR 0x08 else e) # w, r)) (json_read t)))
      else map_option (\<lambda>(w, r). (c # w, r)) (json_read s))"

definition json_unquote :: "string \<Rightarrow> (string \<times> string) option" where
  "json_unquote s = (case s of [] \<Rightarrow> None | c # t \<Rightarrow> if c = CHR 0x22 then json_read t else None)"

lemma code_less_256 [simp]: "code c < 256"
  unfolding code_def by (cases c) simp

lemma code_nibbles: "code c div 16 < 16" "code c mod 16 < 16"
proof -
  have "code c < 256" by (rule code_less_256)
  then show "code c div 16 < 16" by presburger
  show "code c mod 16 < 16" by simp
qed

lemma char_of_code [simp]: "char_of (code c) = c"
  by (simp add: code_def)

lemma code_char_of: "n < 256 \<Longrightarrow> code (char_of n) = n"
  by (simp add: code_def of_char_of)

lemma unhex_hex_digit: "n < 16 \<Longrightarrow> unhex (hex_digit n) = n"
  unfolding unhex_def hex_digit_def is_digit_def in_range_def
  by (auto simp: code_char_of) (simp_all add: code_def)

lemma json_read_escape:
  "json_read (json_escape_char c @ s) = map_option (\<lambda>(w, r). (c # w, r)) (json_read s)"
proof -
  note d = code_nibbles [of c]
  have "16 * unhex (hex_digit (code c div 16)) + unhex (hex_digit (code c mod 16)) = code c"
    by (simp only: unhex_hex_digit [OF d(1)] unhex_hex_digit [OF d(2)]) simp
  then show ?thesis unfolding json_escape_char_def by (simp del: json_read.simps(1))
qed

lemma json_read_escapes:
  "json_read (concat (map json_escape_char s) @ CHR 0x22 # t) = Some (s, t)"
  by (induction s) (simp_all del: json_read.simps(2) add: json_read_escape, simp)

text \<open>Whatever follows the quoted text, a reader gets back exactly the quoted value.\<close>

lemma json_unquote_quote: "json_unquote (json_quote s @ t) = Some (s, t)"
  by (simp add: json_unquote_def json_quote_def json_read_escapes)

lemma hex_digit_printable: "n < 16 \<Longrightarrow> 48 \<le> code (hex_digit n) \<and> code (hex_digit n) \<le> 102"
  by (auto simp: hex_digit_def code_char_of)

lemma json_escape_char_printable: "x \<in> set (json_escape_char c) \<Longrightarrow> 32 \<le> code x \<and> code x < 127"
proof -
  have h: "32 \<le> code (hex_digit n) \<and> code (hex_digit n) < 127" if "n < 16" for n
    using hex_digit_printable [OF that] by simp
  have l: "32 \<le> code y \<and> code y < 127" if "y \<in> {CHR 0x22, CHR 0x5C, CHR ''n'', CHR ''r'', CHR ''t'',
      CHR ''f'', CHR ''b'', CHR ''u'', CHR ''0''}" for y
    using that by (auto simp: code_def)
  assume "x \<in> set (json_escape_char c)"
  then consider "x \<in> {CHR 0x22, CHR 0x5C, CHR ''n'', CHR ''r'', CHR ''t'',
      CHR ''f'', CHR ''b'', CHR ''u'', CHR ''0''}"
    | "32 \<le> code x" "code x < 127"
    | "x = hex_digit (code c div 16)" | "x = hex_digit (code c mod 16)"
    unfolding json_escape_char_def by (auto split: if_splits)
  then show ?thesis
  proof cases
    case 1
    then show ?thesis by (rule l)
  qed (simp_all add: h code_nibbles)
qed

lemma json_quote_printable: "x \<in> set (json_quote s) \<Longrightarrow> 32 \<le> code x \<and> code x < 127"
  unfolding json_quote_def by (auto dest: json_escape_char_printable) (simp_all add: code_def)

end
