(* ===== verification/RawInventory.thy ===== *)
theory RawInventory
  imports Json
begin

text \<open>
  \<^verbatim>\<open>.github/scripts/raw_inventory.py\<close>: the raw inventory, one JSON file that tracks one group
  of virtual bare-metal hosts. A file is what \<open>json.load\<close> makes of its text: a JSON value, or
  \<open>Garbled\<close> when it is not JSON (a file that is being written is garbled too). \<open>fs\<close> is the part
  of the file system the scripts touch.
\<close>

section \<open>Data\<close>

datatype stored_file = JsonFile json | Garbled

type_synonym path = string
type_synonym fs = "path \<rightharpoonup> stored_file"

text \<open>\<open>InventoryError\<close>; the constructors tell its messages apart.\<close>

datatype inventory_error =
    NotValidJson path
  | NotAnObjectWithHosts path
  | NoNamePrefix path
  | EntryNotAnObject path
  | InvalidHostEntry path                 \<comment> \<open>the \<open>TypeError\<close> of \<open>Host(**entry)\<close>\<close>
  | FieldMustBeString path string
  | FieldMustBeInteger path string

record host =
  h_name :: string
  h_uuid :: string
  h_boot_mac :: string
  h_bmc_address :: string
  h_bmc_username :: string
  h_bmc_password :: string
  h_cpu :: int
  h_memory_mib :: int

record raw_inventory =
  name_prefix :: "string option"
  hosts :: "host list"

section \<open>The naming scheme\<close>

definition hex_lower :: "char \<Rightarrow> bool" where
  "hex_lower c \<longleftrightarrow> is_digit c \<or> in_range (CHR ''a'') (CHR ''f'') c"

definition GROUP_NAME_TOKEN_RE :: "char rx" where
  "GROUP_NAME_TOKEN_RE = Rep True 2 (Some 2) (Cls hex_lower)"

definition is_group_host_name :: "string \<Rightarrow> string \<Rightarrow> bool" where
  "is_group_host_name name pfx =
     (let suffix = drop (length pfx + 1) name
      in starts_with (pfx @ ''-'') name \<and> rx_fullmatch GROUP_NAME_TOKEN_RE suffix \<noteq> None)"

section \<open>Reading an entry: \<open>Host(**entry)\<close> and the type checks\<close>

definition string_fields :: "string list" where
  "string_fields = [''name'', ''uuid'', ''boot_mac'', ''bmc_address'', ''bmc_username'', ''bmc_password'']"

definition int_fields :: "string list" where
  "int_fields = [''cpu'', ''memory_mib'']"

text \<open>\<open>Host(**entry)\<close> wants exactly the eight keyword arguments.\<close>

definition host_kwargs_ok :: "(string \<times> json) list \<Rightarrow> bool" where
  "host_kwargs_ok kvs \<longleftrightarrow>
     list_all (\<lambda>f. f \<in> set (map fst kvs)) (string_fields @ int_fields) \<and>
     list_all (\<lambda>k. k \<in> set (string_fields @ int_fields)) (map fst kvs)"

text \<open>A JSON \<open>true\<close> is a \<open>bool\<close>, which the code rejects although it is an \<open>int\<close> in Python.\<close>

fun check_string :: "path \<Rightarrow> (string \<times> json) list \<Rightarrow> string \<Rightarrow> inventory_error + unit" where
  "check_string p kvs f =
     (case map_of kvs f of Some (JStr _) \<Rightarrow> Inr () | _ \<Rightarrow> Inl (FieldMustBeString p f))"

fun check_int :: "path \<Rightarrow> (string \<times> json) list \<Rightarrow> string \<Rightarrow> inventory_error + unit" where
  "check_int p kvs f =
     (case map_of kvs f of Some (JInt _) \<Rightarrow> Inr () | _ \<Rightarrow> Inl (FieldMustBeInteger p f))"

definition validate_host_types :: "path \<Rightarrow> (string \<times> json) list \<Rightarrow> inventory_error + unit" where
  "validate_host_types p kvs =
     bindE (foldE (\<lambda>_ f. check_string p kvs f) () string_fields)
       (\<lambda>_. foldE (\<lambda>_ f. check_int p kvs f) () int_fields)"

fun str_at :: "(string \<times> json) list \<Rightarrow> string \<Rightarrow> string" where
  "str_at kvs f = (case map_of kvs f of Some (JStr s) \<Rightarrow> s | _ \<Rightarrow> [])"

fun int_at :: "(string \<times> json) list \<Rightarrow> string \<Rightarrow> int" where
  "int_at kvs f = (case map_of kvs f of Some (JInt i) \<Rightarrow> i | _ \<Rightarrow> 0)"

definition mk_host :: "(string \<times> json) list \<Rightarrow> host" where
  "mk_host kvs = \<lparr>h_name = str_at kvs ''name'', h_uuid = str_at kvs ''uuid'',
     h_boot_mac = str_at kvs ''boot_mac'', h_bmc_address = str_at kvs ''bmc_address'',
     h_bmc_username = str_at kvs ''bmc_username'', h_bmc_password = str_at kvs ''bmc_password'',
     h_cpu = int_at kvs ''cpu'', h_memory_mib = int_at kvs ''memory_mib''\<rparr>"

definition load_entry :: "path \<Rightarrow> json \<Rightarrow> inventory_error + host" where
  "load_entry p entry =
     (case entry of
        JObj kvs \<Rightarrow>
          if host_kwargs_ok kvs then bindE (validate_host_types p kvs) (\<lambda>_. Inr (mk_host kvs))
          else Inl (InvalidHostEntry p)
      | _ \<Rightarrow> Inl (EntryNotAnObject p))"

section \<open>The operations of \<open>RawInventory\<close>\<close>

definition empty_inventory :: raw_inventory where
  "empty_inventory = \<lparr>name_prefix = None, hosts = []\<rparr>"

definition load :: "fs \<Rightarrow> path \<Rightarrow> inventory_error + raw_inventory" where
  "load f p =
     (case f p of
        None \<Rightarrow> Inr empty_inventory
      | Some Garbled \<Rightarrow> Inl (NotValidJson p)
      | Some (JsonFile doc) \<Rightarrow>
          (case jget doc ''hosts'' of
             Some (JArr entries) \<Rightarrow>
               (case jget doc ''name_prefix'' of
                  Some (JStr np) \<Rightarrow>
                    if np = [] then Inl (NoNamePrefix p)
                    else bindE (mapE (load_entry p) entries)
                      (\<lambda>hs. Inr \<lparr>name_prefix = Some np, hosts = hs\<rparr>)
                | _ \<Rightarrow> Inl (NoNamePrefix p))
           | _ \<Rightarrow> Inl (NotAnObjectWithHosts p)))"

text \<open>\<open>asdict(host)\<close>: the fields in declaration order.\<close>

definition host_json :: "host \<Rightarrow> json" where
  "host_json h = JObj [(''name'', JStr (h_name h)), (''uuid'', JStr (h_uuid h)),
     (''boot_mac'', JStr (h_boot_mac h)), (''bmc_address'', JStr (h_bmc_address h)),
     (''bmc_username'', JStr (h_bmc_username h)), (''bmc_password'', JStr (h_bmc_password h)),
     (''cpu'', JInt (h_cpu h)), (''memory_mib'', JInt (h_memory_mib h))]"

definition payload :: "raw_inventory \<Rightarrow> json" where
  "payload iv = JObj
     [(''name_prefix'', case name_prefix iv of None \<Rightarrow> JNull | Some p \<Rightarrow> JStr p),
      (''hosts'', JArr (map host_json (hosts iv)))]"

definition tmp_of :: "path \<Rightarrow> path" where
  "tmp_of p = p @ ''.tmp''"

text \<open>
  \<open>save\<close> writes a temporary file and renames it. The file system after each of its steps: the
  temporary file is opened (empty, hence not JSON), holds a part of the text, holds all of it,
  and is renamed. \<open>save\<close> itself is the last of them.
\<close>

definition save_steps :: "raw_inventory \<Rightarrow> path \<Rightarrow> fs \<Rightarrow> fs list" where
  "save_steps iv p f =
     [f(tmp_of p \<mapsto> Garbled),
      f(tmp_of p \<mapsto> JsonFile (payload iv)),
      f(tmp_of p := None, p \<mapsto> JsonFile (payload iv))]"

definition save :: "raw_inventory \<Rightarrow> path \<Rightarrow> fs \<Rightarrow> fs" where
  "save iv p f = last (save_steps iv p f)"

text \<open>\<open>token\<close> is the value of \<open>secrets.token_hex(4)\<close>, drawn only when there is no prefix.\<close>

definition ensure_name_prefix :: "string \<Rightarrow> path \<Rightarrow> raw_inventory \<times> fs \<Rightarrow> string \<times> raw_inventory \<times> fs" where
  "ensure_name_prefix token p st =
     (case st of (iv, f) \<Rightarrow>
        (case name_prefix iv of
           Some np \<Rightarrow>
             if np \<noteq> [] then (np, iv, f)
             else (let iv' = iv\<lparr>name_prefix := Some (''virtual-bmh-'' @ token)\<rparr>
                   in (''virtual-bmh-'' @ token, iv', save iv' p f))
         | None \<Rightarrow>
             (let iv' = iv\<lparr>name_prefix := Some (''virtual-bmh-'' @ token)\<rparr>
              in (''virtual-bmh-'' @ token, iv', save iv' p f))))"

definition host_names :: "raw_inventory \<Rightarrow> string set" where
  "host_names iv = set (map h_name (hosts iv))"

definition add_host :: "host \<Rightarrow> raw_inventory \<Rightarrow> raw_inventory" where
  "add_host h iv = iv\<lparr>hosts := hosts iv @ [h]\<rparr>"

definition remove_hosts :: "string list \<Rightarrow> raw_inventory \<Rightarrow> raw_inventory" where
  "remove_hosts names iv = iv\<lparr>hosts := filter (\<lambda>h. h_name h \<notin> set names) (hosts iv)\<rparr>"

section \<open>Lemmas: the naming scheme\<close>

lemma rx_run_two_hex:
  "rx_run GROUP_NAME_TOKEN_RE s 0 [] =
     (if 2 \<le> length s \<and> hex_lower (s ! 0) \<and> hex_lower (s ! 1) then [(2, [])] else [])"
  by (auto simp: GROUP_NAME_TOKEN_RE_def numeral_2_eq_2)

lemma token_fullmatch:
  "rx_fullmatch GROUP_NAME_TOKEN_RE s \<noteq> None \<longleftrightarrow> length s = 2 \<and> list_all hex_lower s"
proof -
  have "rx_fullmatch GROUP_NAME_TOKEN_RE s \<noteq> None \<longleftrightarrow>
      length s = 2 \<and> hex_lower (s ! 0) \<and> hex_lower (s ! 1)"
    unfolding rx_fullmatch_def rx_run_two_hex by auto
  also have "\<dots> \<longleftrightarrow> length s = 2 \<and> list_all hex_lower s"
    by (auto simp: list_all_length less_2_cases_iff)
  finally show ?thesis .
qed

lemma is_group_host_name_iff:
  "is_group_host_name name pfx \<longleftrightarrow>
     (\<exists>t. name = pfx @ ''-'' @ t \<and> length t = 2 \<and> list_all hex_lower t)"
proof
  assume "is_group_host_name name pfx"
  then obtain t where "name = (pfx @ ''-'') @ t" "length (drop (length pfx + 1) name) = 2"
      "list_all hex_lower (drop (length pfx + 1) name)"
    unfolding is_group_host_name_def Let_def token_fullmatch starts_with_iff by blast
  then show "\<exists>t. name = pfx @ ''-'' @ t \<and> length t = 2 \<and> list_all hex_lower t" by simp
next
  assume "\<exists>t. name = pfx @ ''-'' @ t \<and> length t = 2 \<and> list_all hex_lower t"
  then show "is_group_host_name name pfx"
    unfolding is_group_host_name_def Let_def token_fullmatch starts_with_iff by auto
qed

section \<open>Lemmas: reading back what was written\<close>

lemma validate_host_json:
  assumes "host_json h = JObj kvs"
  shows "host_kwargs_ok kvs" "validate_host_types p kvs = Inr ()" "mk_host kvs = h"
  using assms
  by (auto simp: host_json_def host_kwargs_ok_def string_fields_def int_fields_def
      validate_host_types_def mk_host_def)

lemma load_entry_host_json: "load_entry p (host_json h) = Inr h"
proof -
  obtain kvs where "host_json h = JObj kvs" by (simp add: host_json_def)
  with validate_host_json [OF this] show ?thesis by (simp add: load_entry_def)
qed

lemma save_eq: "save iv p f = f(tmp_of p := None, p \<mapsto> JsonFile (payload iv))"
  by (simp add: save_def save_steps_def)

lemma tmp_of_neq [simp]: "tmp_of p \<noteq> p" "p \<noteq> tmp_of p"
  by (simp_all add: tmp_of_def)

lemma load_payload:
  assumes "f p = Some (JsonFile (payload iv))" "name_prefix iv = Some np" "np \<noteq> []"
  shows "load f p = Inr iv"
proof -
  have "mapE (load_entry p) (map host_json hs) = Inr hs" for hs
    by (induction hs) (simp_all add: load_entry_host_json)
  with assms show ?thesis by (simp add: load_def payload_def)
qed

lemma load_entry_types:
  assumes "load_entry p j = Inr h"
  shows "\<exists>kvs. j = JObj kvs \<and> h = mk_host kvs \<and> host_kwargs_ok kvs \<and>
    (\<forall>x \<in> set string_fields. \<exists>s. map_of kvs x = Some (JStr s)) \<and>
    (\<forall>x \<in> set int_fields. \<exists>i. map_of kvs x = Some (JInt i))"
proof -
  from assms obtain kvs where kvs: "j = JObj kvs" "host_kwargs_ok kvs"
      "validate_host_types p kvs = Inr ()" "h = mk_host kvs"
    by (auto simp: load_entry_def bindE_Inr_iff split: json.splits if_splits)
  have "foldE (\<lambda>_ x. check_string p kvs x) () fs = Inr () \<Longrightarrow>
      \<forall>x \<in> set fs. \<exists>s. map_of kvs x = Some (JStr s)" for fs
    by (induction fs) (auto simp: bindE_Inr_iff split: option.splits json.splits)
  moreover have "foldE (\<lambda>_ x. check_int p kvs x) () fs = Inr () \<Longrightarrow>
      \<forall>x \<in> set fs. \<exists>s. map_of kvs x = Some (JInt s)" for fs
    by (induction fs) (auto simp: bindE_Inr_iff split: option.splits json.splits)
  ultimately show ?thesis using kvs by (auto simp: validate_host_types_def bindE_Inr_iff)
qed

section \<open>The inventory as a store of named hosts\<close>

text \<open>
  What the tools that call the inventory rely on: which names each operation leaves. The
  clients' lemmas are proved from these laws.
\<close>

locale host_store =
  fixes names :: "'i \<Rightarrow> string set"
    and add :: "host \<Rightarrow> 'i \<Rightarrow> 'i"
    and remove :: "string list \<Rightarrow> 'i \<Rightarrow> 'i"
    and distinct_names :: "'i \<Rightarrow> bool"
  assumes names_add: "names (add h i) = insert (h_name h) (names i)"
    and names_remove: "names (remove ns i) = names i - set ns"
    and distinct_add: "distinct_names i \<Longrightarrow> h_name h \<notin> names i \<Longrightarrow> distinct_names (add h i)"
    and distinct_remove: "distinct_names i \<Longrightarrow> distinct_names (remove ns i)"
begin

lemma names_fold_add: "names (fold add hs i) = names i \<union> h_name ` set hs"
  by (induction hs arbitrary: i) (auto simp: names_add)

lemma distinct_fold_add:
  "distinct_names i \<Longrightarrow> distinct (map h_name hs) \<Longrightarrow> h_name ` set hs \<inter> names i = {} \<Longrightarrow>
   distinct_names (fold add hs i)"
  by (induction hs arbitrary: i) (auto simp: names_add distinct_add)

lemma remove_added: "set ns \<inter> names i = {} \<Longrightarrow> h_name ` set hs \<subseteq> set ns \<Longrightarrow>
    names (remove ns (fold add hs i)) = names i"
  by (auto simp: names_remove names_fold_add)

end

definition names_distinct :: "raw_inventory \<Rightarrow> bool" where
  "names_distinct iv \<longleftrightarrow> distinct (map h_name (hosts iv))"

interpretation invs: host_store host_names add_host remove_hosts names_distinct
proof unfold_locales
  fix h :: host and iv :: raw_inventory
  show "host_names (add_host h iv) = insert (h_name h) (host_names iv)"
    by (simp add: host_names_def add_host_def)
next
  fix ns and iv :: raw_inventory
  show "host_names (remove_hosts ns iv) = host_names iv - set ns"
    by (auto simp: host_names_def remove_hosts_def)
next
  fix h :: host and iv :: raw_inventory
  assume "names_distinct iv" "h_name h \<notin> host_names iv"
  then show "names_distinct (add_host h iv)"
    by (simp add: names_distinct_def host_names_def add_host_def)
next
  fix ns and iv :: raw_inventory
  assume "names_distinct iv"
  then show "names_distinct (remove_hosts ns iv)"
    by (simp add: names_distinct_def remove_hosts_def distinct_map_filter)
qed

lemma name_prefix_ops [simp]:
  "name_prefix (add_host h iv) = name_prefix iv"
  "name_prefix (remove_hosts ns iv) = name_prefix iv"
  "hosts (add_host h iv) = hosts iv @ [h]"
  by (simp_all add: add_host_def remove_hosts_def)

section \<open>Properties\<close>

text \<open>
  A prefix together with a two-digit token determines the prefix: two groups share no host name.
\<close>

lemma group_prefix_of_name:
  assumes "is_group_host_name n p"
  shows "p = take (length n - 3) n"
  using assms by (auto simp: is_group_host_name_iff)

text \<open>
  Claim C6: what \<open>save\<close> writes is what \<open>load\<close> reads back. For an inventory with a name prefix,
  loading the saved file gives the very same inventory: prefix, hosts, every field, in order.
  The other files are as before, and no temporary file is left.
\<close>

theorem save_then_load:
  assumes "name_prefix iv = Some np" and "np \<noteq> []"
  shows "load (save iv p f) p = Inr iv \<and> save iv p f (tmp_of p) = None \<and>
    (\<forall>q. q \<noteq> p \<longrightarrow> q \<noteq> tmp_of p \<longrightarrow> save iv p f q = f q)"
  using assms by (simp add: save_eq load_payload)

definition sample_host :: host where
  "sample_host = \<lparr>h_name = ''lab-0f'', h_uuid = ''u-1'', h_boot_mac = ''52:54:00:00:00:01'',
     h_bmc_address = ''redfish://10.0.0.1/u-1'', h_bmc_username = ''admin'',
     h_bmc_password = ''pw'', h_cpu = 4, h_memory_mib = 8192\<rparr>"

definition sample_inventory :: raw_inventory where
  "sample_inventory = \<lparr>name_prefix = Some ''lab'', hosts = [sample_host]\<rparr>"

lemma sample_inventory_prefix: "name_prefix sample_inventory = Some ''lab''" "''lab'' \<noteq> []"
  by (simp_all add: sample_inventory_def)

theorem save_then_load_witness:
  "load (save sample_inventory ''inv.json'' Map.empty) ''inv.json'' = Inr sample_inventory"
  using save_then_load [OF sample_inventory_prefix, of "''inv.json''" Map.empty] by blast

text \<open>
  Claim C7: a writer that dies in the middle of \<open>save\<close> never leaves a broken inventory. After
  each step of \<open>save\<close> the inventory file loads as the old one did or as the new one, and after
  the last step as the new one.
\<close>

theorem save_is_atomic:
  assumes "name_prefix iv = Some np" and "np \<noteq> []"
  shows "(\<forall>g \<in> set (save_steps iv p f). load g p = load f p \<or> load g p = Inr iv) \<and>
    load (last (save_steps iv p f)) p = Inr iv"
proof -
  have "load (f(tmp_of p \<mapsto> x)) p = load f p" for x by (simp add: load_def)
  moreover have "load (f(tmp_of p := None, p \<mapsto> JsonFile (payload iv))) p = Inr iv"
    using assms by (simp add: load_payload)
  ultimately show ?thesis by (auto simp: save_steps_def)
qed

theorem save_is_atomic_witness:
  "load (last (save_steps sample_inventory ''inv.json'' [''inv.json'' \<mapsto> Garbled])) ''inv.json'' = Inr sample_inventory"
  using save_is_atomic [OF sample_inventory_prefix, of "''inv.json''" "[''inv.json'' \<mapsto> Garbled]"]
  by (rule conjunct2)

text \<open>
  Groups are disjoint. A host name that follows the naming scheme of two prefixes
  follows that of one prefix only, so cleaning up one group by its scheme never selects a host
  of another group.
\<close>

theorem host_name_in_one_group:
  assumes "is_group_host_name n p" and "is_group_host_name n q"
  shows "p = q"
  using assms [THEN group_prefix_of_name] by simp

theorem host_name_in_one_group_witness:
  "is_group_host_name ''lab-0f'' (take 3 ''lab-0f'') \<and> ''lab'' = take 3 ''lab-0f''"
proof -
  have a: "is_group_host_name ''lab-0f'' ''lab''" and b: "is_group_host_name ''lab-0f'' (take 3 ''lab-0f'')"
    by code_simp+
  from b host_name_in_one_group [OF a b] show ?thesis ..
qed

text \<open>
  \<open>ensure_name_prefix\<close> makes the prefix durable. The prefix it returns is non-empty, is
  the one in the inventory it returns, and is kept when there was one already; whenever a new one
  is drawn, the file on disk already loads with it before any name is derived from it.
\<close>

theorem ensure_name_prefix_durable:
  "case ensure_name_prefix token p (iv, f) of (np, iv', f') \<Rightarrow>
     np \<noteq> [] \<and> name_prefix iv' = Some np \<and> hosts iv' = hosts iv \<and>
     (if name_prefix iv \<in> {None, Some []}
      then np = ''virtual-bmh-'' @ token \<and> load f' p = Inr iv'
      else name_prefix iv = Some np \<and> iv' = iv \<and> f' = f)"
proof (cases "name_prefix iv \<in> {None, Some []}")
  case True
  let ?np = "''virtual-bmh-'' @ token"
  let ?iv = "iv\<lparr>name_prefix := Some ?np\<rparr>"
  have "ensure_name_prefix token p (iv, f) = (?np, ?iv, save ?iv p f)"
    using True by (auto simp: ensure_name_prefix_def Let_def)
  moreover have "load (save ?iv p f) p = Inr ?iv"
    by (rule load_payload [where np = ?np]) (simp_all add: save_eq)
  ultimately show ?thesis using True by simp
next
  case False
  then obtain np where "name_prefix iv = Some np" "np \<noteq> []" by auto
  then show ?thesis by (simp add: ensure_name_prefix_def)
qed

end
