(* ===== verification/Xml.thy ===== *)
theory Xml
  imports PyStr
begin

text \<open>
  Parsed XML as \<^verbatim>\<open>xml.etree.ElementTree\<close> presents it, and the element paths the scripts evaluate.
  Parsing itself (\<open>ET.fromstring\<close>) is a parameter of the components that use it.
\<close>

text \<open>An XML element: tag, attributes, text and children.\<close>

datatype xml = Elem (xtag: string) (xattrs: "(string \<times> string) list") (xtext: string) (xkids: "xml list")

fun descendants :: "xml \<Rightarrow> xml list" where
  "descendants (Elem _ _ _ ks) = concat (map (\<lambda>k. k # descendants k) ks)"

definition kids_named :: "string \<Rightarrow> xml \<Rightarrow> xml list" where
  "kids_named t e = filter (\<lambda>k. xtag k = t) (xkids e)"

text \<open>\<open>element.find(tag)\<close> and \<open>element.get(attribute)\<close>.\<close>

definition find_kid :: "string \<Rightarrow> xml \<Rightarrow> xml option" where
  "find_kid t e = (case kids_named t e of [] \<Rightarrow> None | k # _ \<Rightarrow> Some k)"

definition xattr :: "string \<Rightarrow> xml \<Rightarrow> string option" where
  "xattr a e = map_of (xattrs e) a"

end
