(* ===== verification/VirtualBmh.thy ===== *)
theory VirtualBmh
  imports RawInventory Xml
begin

text \<open>
  \<^verbatim>\<open>.github/scripts/manage-virtual-bmh-vms.py\<close>: creating and deleting the libvirt VMs behind a
  group of virtual bare-metal hosts.

  Everything outside the process (virsh, qemu-img, the disk files, the Redfish emulator) is the
  parameter \<open>ext\<close>, which answers a command in a world of any type \<open>'w\<close>. The state keeps that
  world, the trace of the commands issued so far, the inventory object of the running command
  and the inventory file. The random bytes of \<open>secrets\<close> are a stream \<open>rnd\<close> read at the position
  \<open>draws\<close>. XML parsing (\<open>ET.fromstring\<close>) is the parameter \<open>parse\<close>; the element paths the script
  evaluates on the parsed tree are definitions.
\<close>

section \<open>Commands and state\<close>

datatype vm_cmd =
    Virsh "string list" "string option"       \<comment> \<open>arguments and standard input\<close>
  | QemuImgCreate path string
  | CopyVars path path
  | MakeDir path
  | Unlink path
  | UrlOpen string

record cmd_result =
  returncode :: int
  stdout :: string
  stderr :: string

datatype exec_out = Finished cmd_result | TimedOut | CommandNotFound | OsError

text \<open>How a command ends early. \<open>NoReturn\<close> stands for the loop of \<open>generate_vm_token\<close> never
  finding a free token; \<open>Uncaught\<close> for an exception that \<open>main\<close> does not handle.\<close>

datatype vm_exn =
    SysExit int
  | CalledProcessError int
  | TimeoutExpired
  | FileNotFound
  | InventoryErr inventory_error
  | Uncaught
  | NoReturn

record 'w vm_state =
  world :: 'w
  trace :: "vm_cmd list"
  inventory :: raw_inventory
  files :: fs
  draws :: nat

type_synonym ('w, 'a) vm = "('w vm_state, vm_exn, 'a) prog"
type_synonym 'w vm_ext = "'w \<Rightarrow> vm_cmd \<Rightarrow> exec_out \<times> 'w"

definition exec :: "'w vm_ext \<Rightarrow> vm_cmd \<Rightarrow> ('w, cmd_result) vm" where
  "exec ext c st =
     (case ext (world st) c of (r, w) \<Rightarrow>
        ((case r of Finished res \<Rightarrow> Inr res | TimedOut \<Rightarrow> Inl TimeoutExpired
          | CommandNotFound \<Rightarrow> Inl FileNotFound | OsError \<Rightarrow> Inl Uncaught),
         st\<lparr>world := w, trace := trace st @ [c]\<rparr>))"

definition fail :: "('w, 'a) vm" where
  "fail = raise (SysExit 1)"

definition run_virsh :: "'w vm_ext \<Rightarrow> string list \<Rightarrow> string option \<Rightarrow> bool \<Rightarrow> ('w, cmd_result) vm" where
  "run_virsh ext args stdin check =
     bindP (exec ext (Virsh args stdin))
       (\<lambda>r. if check \<and> returncode r \<noteq> 0 then raise (CalledProcessError (returncode r)) else ret r)"

section \<open>Names\<close>

definition MAC_PREFIX :: string where "MAC_PREFIX = ''52:54:00:bb:cc''"
definition MAX_VMS_PER_GROUP :: nat where "MAX_VMS_PER_GROUP = 256"
definition DISK_SUFFIX :: string where "DISK_SUFFIX = ''.qcow2''"
definition VARS_SUFFIX :: string where "VARS_SUFFIX = ''-VARS.fd''"

text \<open>\<open>secrets.token_hex(1)\<close> for the random byte \<open>b\<close>.\<close>

definition hex2 :: "nat \<Rightarrow> string" where
  "hex2 b = [hex_digit (b div 16 mod 16), hex_digit (b mod 16)]"

text \<open>The loop may run for ever, so it has an \<open>option\<close> result.\<close>

partial_function (option) token_loop :: "(nat \<Rightarrow> nat) \<Rightarrow> string set \<Rightarrow> nat \<Rightarrow> (string \<times> nat) option" where
  "token_loop rnd used k =
     (let token = hex2 (rnd k)
      in if token \<notin> used then Some (token, Suc k) else token_loop rnd used (Suc k))"

definition used_tokens :: "host list \<Rightarrow> string \<Rightarrow> string list" where
  "used_tokens hs pfx =
     map (\<lambda>h. drop (length pfx + 1) (h_name h)) (filter (\<lambda>h. starts_with (pfx @ ''-'') (h_name h)) hs)"

definition generate_vm_token :: "(nat \<Rightarrow> nat) \<Rightarrow> host list \<Rightarrow> string \<Rightarrow> ('w, string) vm" where
  "generate_vm_token rnd hs pfx st =
     (let used = used_tokens hs pfx
      in if MAX_VMS_PER_GROUP \<le> length (remdups used) then fail st
         else (case token_loop rnd (set used) (draws st) of
                 None \<Rightarrow> raise NoReturn st
               | Some (token, k) \<Rightarrow> ret token (st\<lparr>draws := k\<rparr>)))"

section \<open>Creating a VM\<close>

record create_args =
  a_network :: string
  a_disk_dir :: path
  a_redfish_host :: string
  a_redfish_port :: int
  a_count :: int
  a_cpu :: int
  a_memory_mib :: int
  a_disk_size :: string

definition EFI_CODE :: string where "EFI_CODE = ''/usr/share/OVMF/OVMF_CODE.secboot.fd''"

text \<open>\<open>disk_dir / name\<close> for a normalised \<open>Path\<close>.\<close>

definition path_join :: "path \<Rightarrow> string \<Rightarrow> path" where
  "path_join d n = (if d = ''.'' then n else if d = ''/'' then d @ n else d @ ''/'' @ n)"

text \<open>\<open>q\<close> is the single quote and \<open>nl\<close> the line feed of the template.\<close>

definition q :: string where "q = [CHR 0x27]"
definition nl :: string where "nl = [CHR 0x0A]"

definition quoted :: "string \<Rightarrow> string" where
  "quoted w = q @ w @ q"

definition render_vm_xml ::
  "string \<Rightarrow> string \<Rightarrow> int \<Rightarrow> int \<Rightarrow> string \<Rightarrow> string \<Rightarrow> string \<Rightarrow> string \<Rightarrow> string" where
  "render_vm_xml name mac cpu memory_mib disk_path vars_path efi_code network = concat (map (\<lambda>l. l @ nl)
    [''<domain type='' @ quoted ''kvm'' @ ''>'',
     ''  <name>'' @ name @ ''</name>'',
     ''  <memory unit='' @ quoted ''MiB'' @ ''>'' @ show_int memory_mib @ ''</memory>'',
     ''  <vcpu>'' @ show_int cpu @ ''</vcpu>'',
     ''  <os>'',
     ''    <type arch='' @ quoted ''x86_64'' @ '' machine='' @ quoted ''q35'' @ ''>hvm</type>'',
     ''    <loader readonly='' @ quoted ''yes'' @ '' type='' @ quoted ''pflash'' @ ''>'' @ efi_code @ ''</loader>'',
     ''    <nvram>'' @ vars_path @ ''</nvram>'',
     ''    <boot dev='' @ quoted ''network'' @ ''/>'',
     ''    <boot dev='' @ quoted ''hd'' @ ''/>'',
     ''  </os>'',
     ''  <cpu mode='' @ quoted ''host-passthrough'' @ '' check='' @ quoted ''none'' @ '' migratable='' @ quoted ''on'' @ ''/>'',
     ''  <features>'',
     ''    <acpi/>'',
     ''    <apic/>'',
     ''  </features>'',
     ''  <devices>'',
     ''    <disk type='' @ quoted ''file'' @ '' device='' @ quoted ''disk'' @ ''>'',
     ''      <driver name='' @ quoted ''qemu'' @ '' type='' @ quoted ''qcow2'' @ ''/>'',
     ''      <source file='' @ quoted disk_path @ ''/>'',
     ''      <target dev='' @ quoted ''vda'' @ '' bus='' @ quoted ''virtio'' @ ''/>'',
     ''    </disk>'',
     ''    <interface type='' @ quoted ''network'' @ ''>'',
     ''      <mac address='' @ quoted mac @ ''/>'',
     ''      <source network='' @ quoted network @ ''/>'',
     ''      <model type='' @ quoted ''virtio'' @ ''/>'',
     ''    </interface>'',
     ''    <console type='' @ quoted ''pty'' @ ''/>'',
     ''  </devices>'',
     ''  <seclabel type='' @ quoted ''none'' @ ''/>'',
     ''</domain>''])"

definition check_network :: "'w vm_ext \<Rightarrow> string \<Rightarrow> ('w, unit) vm" where
  "check_network ext network =
     bindP (run_virsh ext [''net-info'', network] None False)
       (\<lambda>r. if returncode r \<noteq> 0
            then bindP (run_virsh ext [''net-list'', ''--all''] None False) (\<lambda>_. raise (SysExit 1))
            else ret ())"

definition bmc_address :: "string \<Rightarrow> int \<Rightarrow> string \<Rightarrow> string" where
  "bmc_address rhost port uuid =
     ''redfish-virtualmedia+http://'' @ rhost @ '':'' @ show_int port @ ''/redfish/v1/Systems/'' @ uuid"

definition create_vm :: "'w vm_ext \<Rightarrow> path \<Rightarrow> string \<Rightarrow> string \<Rightarrow> create_args \<Rightarrow> ('w, host) vm" where
  "create_vm ext efi_vars name mac args =
     (let disk_path = path_join (a_disk_dir args) (name @ DISK_SUFFIX);
          vars_path = path_join (a_disk_dir args) (name @ VARS_SUFFIX);
          xml = render_vm_xml name mac (a_cpu args) (a_memory_mib args) disk_path vars_path EFI_CODE (a_network args)
      in bindP (exec ext (QemuImgCreate disk_path (a_disk_size args)))
           (\<lambda>r. if returncode r \<noteq> 0 then raise (CalledProcessError (returncode r))
         else thenP (exec ext (CopyVars efi_vars vars_path))
        (thenP (run_virsh ext [''define'', ''/dev/stdin''] (Some xml) True)
        (thenP (run_virsh ext [''start'', name] None True)
        (bindP (run_virsh ext [''domuuid'', name] None True)
           (\<lambda>r. let uuid = strip (stdout r)
                in ret \<lparr>h_name = name, h_uuid = uuid, h_boot_mac = mac,
                        h_bmc_address = bmc_address (a_redfish_host args) (a_redfish_port args) uuid,
                        h_bmc_username = ''admin'', h_bmc_password = ''password'',
                        h_cpu = a_cpu args, h_memory_mib = a_memory_mib args\<rparr>))))))"

definition warn_if_redfish_unreachable :: "'w vm_ext \<Rightarrow> string \<Rightarrow> int \<Rightarrow> ('w, unit) vm" where
  "warn_if_redfish_unreachable ext rhost port st =
     (let url = ''http://'' @ rhost @ '':'' @ show_int port @ ''/redfish/v1/Systems/''
      in (Inr (), snd (exec ext (UrlOpen url) st)))"

definition load_inventory :: "path \<Rightarrow> ('w, unit) vm" where
  "load_inventory p st =
     (case load (files st) p of Inl e \<Rightarrow> (Inl (InventoryErr e), st)
      | Inr iv \<Rightarrow> (Inr (), st\<lparr>inventory := iv\<rparr>))"

definition save_inventory :: "path \<Rightarrow> ('w, unit) vm" where
  "save_inventory p = modP (\<lambda>st. st\<lparr>files := save (inventory st) p (files st)\<rparr>)"

text \<open>\<open>token4\<close> is the value of \<open>secrets.token_hex(4)\<close>, if it is drawn.\<close>

definition ensure_prefix :: "string \<Rightarrow> path \<Rightarrow> ('w, string) vm" where
  "ensure_prefix token4 p st =
     (case ensure_name_prefix token4 p (inventory st, files st) of (np, iv, f) \<Rightarrow>
        (Inr np, st\<lparr>inventory := iv, files := f\<rparr>))"

text \<open>The body of the loop of \<open>cmd_create\<close>: one VM, recorded and saved.\<close>

definition create_one ::
  "'w vm_ext \<Rightarrow> (nat \<Rightarrow> nat) \<Rightarrow> path \<Rightarrow> path \<Rightarrow> create_args \<Rightarrow> string \<Rightarrow> ('w, unit) vm" where
  "create_one ext rnd efi_vars p args np =
     bindP (getP inventory) (\<lambda>iv.
     bindP (generate_vm_token rnd (hosts iv) np) (\<lambda>token.
     bindP (create_vm ext efi_vars (np @ ''-'' @ token) (MAC_PREFIX @ '':'' @ token) args) (\<lambda>h.
     thenP (modP (\<lambda>st. st\<lparr>inventory := add_host h (inventory st)\<rparr>))
       (save_inventory p))))"

definition cmd_create ::
  "'w vm_ext \<Rightarrow> (nat \<Rightarrow> nat) \<Rightarrow> string \<Rightarrow> path \<Rightarrow> path \<Rightarrow> create_args \<Rightarrow> ('w, unit) vm" where
  "cmd_create ext rnd token4 efi_vars p args =
     thenP (check_network ext (a_network args))
    (thenP (load_inventory p)
    (bindP (ensure_prefix token4 p) (\<lambda>np.
     thenP (exec ext (MakeDir (a_disk_dir args)))
    (thenP (forP (\<lambda>_. create_one ext rnd efi_vars p args np) [0..<nat (a_count args)])
       (warn_if_redfish_unreachable ext (a_redfish_host args) (a_redfish_port args))))))"

section \<open>Deleting a VM\<close>



text \<open>\<open>[s.get("file") for s in root.findall(".//disk/source") if s.get("file")]\<close>, then the text
  of \<open>./os/nvram\<close>.\<close>

definition disk_paths_of :: "xml \<Rightarrow> path list" where
  "disk_paths_of root =
     (let sources = concat (map (kids_named ''source'') (filter (\<lambda>e. xtag e = ''disk'') (descendants root)));
          nvrams = concat (map (kids_named ''nvram'') (kids_named ''os'' root))
      in concat (map (\<lambda>s. case map_of (xattrs s) ''file'' of None \<Rightarrow> []
                  | Some f \<Rightarrow> if f = [] then [] else [f]) sources)
         @ (case nvrams of [] \<Rightarrow> [] | n # _ \<Rightarrow> if xtext n = [] then [] else [xtext n]))"

text \<open>\<open>Path(p).name\<close>\<close>

definition path_name :: "path \<Rightarrow> string" where
  "path_name p = last (split_on (CHR ''/'') (rstrip_by (\<lambda>c. c = CHR ''/'') p))"

definition delete_vm :: "'w vm_ext \<Rightarrow> (string \<Rightarrow> xml option) \<Rightarrow> string \<Rightarrow> ('w, bool) vm" where
  "delete_vm ext parse name =
     bindP (run_virsh ext [''dumpxml'', name] None False) (\<lambda>dump.
     bindP (if returncode dump = 0
            then (case parse (stdout dump) of None \<Rightarrow> raise Uncaught | Some root \<Rightarrow> ret (disk_paths_of root))
            else ret []) (\<lambda>disk_paths.
     thenP (run_virsh ext [''destroy'', name] None False)
    (thenP (run_virsh ext [''undefine'', name, ''--nvram''] None False)
    (bindP (run_virsh ext [''domuuid'', name] None False) (\<lambda>r.
       if returncode r = 0 then ret False
       else thenP (forP (\<lambda>p. if path_name p \<in> {name @ DISK_SUFFIX, name @ VARS_SUFFIX}
                             then thenP (exec ext (Unlink p)) (ret ()) else ret ()) disk_paths)
             (ret True))))))"

text \<open>The deletions of \<open>cmd_delete\<close>: the names deleted and the names that failed.\<close>

definition delete_known ::
  "'w vm_ext \<Rightarrow> (string \<Rightarrow> xml option) \<Rightarrow> string list \<times> string list \<Rightarrow> host \<Rightarrow> ('w, string list \<times> string list) vm" where
  "delete_known ext parse acc h =
     bindP (delete_vm ext parse (h_name h))
       (\<lambda>ok. ret (if ok then (fst acc @ [h_name h], snd acc) else (fst acc, snd acc @ [h_name h])))"

definition delete_remnant ::
  "'w vm_ext \<Rightarrow> (string \<Rightarrow> xml option) \<Rightarrow> string list \<Rightarrow> string \<Rightarrow> ('w, string list) vm" where
  "delete_remnant ext parse failed name =
     bindP (delete_vm ext parse name) (\<lambda>ok. ret (if ok then failed else failed @ [name]))"

definition cmd_delete ::
  "'w vm_ext \<Rightarrow> (string \<Rightarrow> xml option) \<Rightarrow> path \<Rightarrow> string list \<Rightarrow> ('w, unit) vm" where
  "cmd_delete ext parse p names =
     bindP (getP (\<lambda>st. files st p)) (\<lambda>present.
     if present = None then fail else
     thenP (load_inventory p)
    (bindP (getP inventory) (\<lambda>iv.
     let unknown = filter (\<lambda>n. n \<notin> host_names iv) names;
         np = (case name_prefix iv of None \<Rightarrow> [] | Some x \<Rightarrow> x)
     in if \<not> list_all (\<lambda>n. is_group_host_name n np) unknown then fail else
     bindP (foldP (delete_known ext parse) ([], []) (filter (\<lambda>h. h_name h \<in> set names) (hosts iv)))
       (\<lambda>(deleted, failed).
     bindP (foldP (delete_remnant ext parse) failed unknown) (\<lambda>failed'.
     thenP (modP (\<lambda>st. st\<lparr>inventory := remove_hosts deleted (inventory st)\<rparr>))
    (thenP (save_inventory p)
       (if failed' \<noteq> [] then fail else ret ())))))))"

section \<open>The exit status of \<open>main\<close>\<close>

text \<open>\<open>None\<close>: the process does not end.\<close>

definition exit_status :: "vm_exn + unit \<Rightarrow> int option" where
  "exit_status r = (case r of
       Inr () \<Rightarrow> Some 0
     | Inl (SysExit n) \<Rightarrow> Some n
     | Inl (CalledProcessError n) \<Rightarrow> Some n
     | Inl TimeoutExpired \<Rightarrow> Some 1
     | Inl FileNotFound \<Rightarrow> Some 1
     | Inl (InventoryErr _) \<Rightarrow> Some 1
     | Inl Uncaught \<Rightarrow> Some 1
     | Inl NoReturn \<Rightarrow> None)"


section \<open>Lemmas: tokens\<close>

lemma hex2_inj: "hex2 a = hex2 b \<Longrightarrow> a < 256 \<Longrightarrow> b < 256 \<Longrightarrow> a = b"
proof -
  assume h: "hex2 a = hex2 b" "a < 256" "b < 256"
  have "unhex (hex_digit (a mod 16)) = unhex (hex_digit (b mod 16))"
    "unhex (hex_digit (a div 16 mod 16)) = unhex (hex_digit (b div 16 mod 16))"
    using h(1) by (simp_all add: hex2_def)
  then have "a mod 16 = b mod 16" "a div 16 mod 16 = b div 16 mod 16"
    by (simp_all add: unhex_hex_digit)
  moreover have "a div 16 mod 16 = a div 16" "b div 16 mod 16 = b div 16" using h by auto
  ultimately show "a = b" by (metis div_mult_mod_eq)
qed

lemma hex_digit_hex_lower: "n < 16 \<Longrightarrow> hex_lower (hex_digit n)"
  by (auto simp: hex_lower_def is_digit_def in_range_def hex_digit_def code_char_of) (simp_all add: code_def)

lemma hex2_token: "length (hex2 b) = 2 \<and> list_all hex_lower (hex2 b)"
  by (simp add: hex2_def hex_digit_hex_lower)

lemma token_loop_Some:
  assumes ret: "token_loop rnd used k = Some r"
  shows "fst r \<notin> used \<and> (\<exists>j \<ge> k. snd r = Suc j \<and> fst r = hex2 (rnd j))"
proof (rule token_loop.raw_induct [where
    P = "\<lambda>rnd used k r. fst r \<notin> used \<and> (\<exists>j \<ge> k. snd r = Suc j \<and> fst r = hex2 (rnd j))", OF _ ret])
  fix f rnd used k r
  assume IH: "\<And>rnd used k r. f rnd used k = Some r \<Longrightarrow>
      fst r \<notin> used \<and> (\<exists>j \<ge> k. snd r = Suc j \<and> fst r = hex2 (rnd j))"
    and eq: "(let token = hex2 (rnd k)
        in if token \<notin> used then Some (token, Suc k) else f rnd used (Suc k)) = Some r"
  show "fst r \<notin> used \<and> (\<exists>j \<ge> k. snd r = Suc j \<and> fst r = hex2 (rnd j))"
  proof (cases "hex2 (rnd k) \<in> used")
    case False
    with eq have "r = (hex2 (rnd k), Suc k)" by (simp add: Let_def)
    with False show ?thesis by auto
  next
    case True
    with eq have "f rnd used (Suc k) = Some r" by (simp add: Let_def)
    from IH [OF this] show ?thesis by (meson Suc_leD)
  qed
qed

text \<open>The loop returns as soon as the random stream yields a free token.\<close>

lemma token_loop_returns:
  "hex2 (rnd (k + n)) \<notin> used \<Longrightarrow> \<exists>t m. token_loop rnd used k = Some (t, m)"
proof (induction n arbitrary: k)
  case 0
  then show ?case by (subst token_loop.simps) simp
next
  case (Suc n)
  from Suc.prems have "hex2 (rnd (Suc k + n)) \<notin> used" by simp
  from Suc.IH [OF this] show ?case by (subst token_loop.simps) (simp add: Let_def)
qed

text \<open>Fewer than 256 used suffixes leave a free token.\<close>

lemma free_token_exists:
  assumes "length (remdups used) < 256"
  shows "\<exists>b < 256. hex2 b \<notin> set used"
proof (rule ccontr)
  assume "\<not> ?thesis"
  then have sub: "hex2 ` {..<256} \<subseteq> set used" by auto
  have "inj_on hex2 {..<256}" by (rule inj_onI) (simp add: hex2_inj)
  then have "card (hex2 ` {..<256}) = 256" by (simp add: card_image)
  then have "256 \<le> card (set used)" using card_mono [OF _ sub] by simp
  with assms show False by (simp add: length_remdups_card_conv)
qed

lemma used_tokens_iff: "t \<in> set (used_tokens hs pfx) \<longleftrightarrow> pfx @ ''-'' @ t \<in> h_name ` set hs"
proof
  assume "t \<in> set (used_tokens hs pfx)"
  then obtain h where "h \<in> set hs" "starts_with (pfx @ ''-'') (h_name h)" "t = drop (length pfx + 1) (h_name h)"
    by (auto simp: used_tokens_def)
  then show "pfx @ ''-'' @ t \<in> h_name ` set hs"
    by (auto simp: starts_with_iff intro!: image_eqI [of _ _ h])
next
  assume "pfx @ ''-'' @ t \<in> h_name ` set hs"
  then obtain h where h: "h \<in> set hs" "h_name h = pfx @ ''-'' @ t" by auto
  then have "starts_with (pfx @ ''-'') (h_name h)" "drop (length pfx + 1) (h_name h) = t"
    by (auto simp: starts_with_iff)
  with h(1) show "t \<in> set (used_tokens hs pfx)" by (force simp: used_tokens_def)
qed

lemma generate_vm_token_ret:
  assumes "generate_vm_token rnd hs pfx st = (Inr t, st')"
  shows "length t = 2" "list_all hex_lower t" "pfx @ ''-'' @ t \<notin> h_name ` set hs"
    "\<exists>k. st' = st\<lparr>draws := k\<rparr>" "is_group_host_name (pfx @ ''-'' @ t) pfx"
proof -
  from assms obtain k where k: "token_loop rnd (set (used_tokens hs pfx)) (draws st) = Some (t, k)"
      "st' = st\<lparr>draws := k\<rparr>"
    unfolding generate_vm_token_def
    by (auto simp: Let_def fail_def split: if_splits option.splits)
  from token_loop_Some [OF k(1)] have t: "t \<notin> set (used_tokens hs pfx)" "\<exists>j. t = hex2 (rnd j)" by auto
  then show "length t = 2" "list_all hex_lower t" using hex2_token by auto
  then show "is_group_host_name (pfx @ ''-'' @ t) pfx" by (auto simp: is_group_host_name_iff)
  show "pfx @ ''-'' @ t \<notin> h_name ` set hs" using t(1) by (simp add: used_tokens_iff)
  show "\<exists>k. st' = st\<lparr>draws := k\<rparr>" using k(2) by blast
qed

lemma generate_vm_token_exn:
  assumes "generate_vm_token rnd hs pfx st = (Inl e, st')"
  shows "st' = st"
  using assms unfolding generate_vm_token_def
  by (auto simp: Let_def fail_def split: if_splits option.splits)

section \<open>Lemmas: what the external commands cannot change\<close>

lemma keeps_exec:
  "(\<And>st w. I st \<Longrightarrow> I (st\<lparr>world := w, trace := trace st @ [c]\<rparr>)) \<Longrightarrow> keeps I (exec ext c)"
  by (rule keepsI) (simp add: exec_def split: prod.splits)

lemma keeps_run_virsh:
  "(\<And>st w. I st \<Longrightarrow> I (st\<lparr>world := w, trace := trace st @ [Virsh args stdin]\<rparr>)) \<Longrightarrow>
   keeps I (run_virsh ext args stdin check)"
  unfolding run_virsh_def by (intro keeps_rules keeps_exec)

text \<open>A predicate on the inventory and the files only.\<close>

definition frame :: "(raw_inventory \<Rightarrow> fs \<Rightarrow> bool) \<Rightarrow> 'w vm_state \<Rightarrow> bool" where
  "frame P st \<longleftrightarrow> P (inventory st) (files st)"

lemma frame_upd [simp]:
  "frame P (st\<lparr>world := w, trace := tr\<rparr>) = frame P st" "frame P (st\<lparr>draws := k\<rparr>) = frame P st"
  by (simp_all add: frame_def)

lemma keeps_frame [keeps_rules]:
  "keeps (frame P) (exec ext c)"
  "keeps (frame P) (run_virsh ext args stdin check)"
  by (simp_all add: keeps_exec keeps_run_virsh)

lemma keeps_frame_create_vm [keeps_rules]: "keeps (frame P) (create_vm ext ev name mac args)"
  unfolding create_vm_def Let_def by (intro keeps_rules)

lemma keeps_frame_delete_vm [keeps_rules]: "keeps (frame P) (delete_vm ext parse name)"
  unfolding delete_vm_def
  by (intro keeps_rules) (simp split: option.splits add: keeps_rules)

lemma keeps_frame_check_network [keeps_rules]: "keeps (frame P) (check_network ext network)"
  unfolding check_network_def by (intro keeps_rules)

lemma keeps_frame_warn [keeps_rules]: "keeps (frame P) (warn_if_redfish_unreachable ext rhost port)"
  by (rule keepsI) (simp add: warn_if_redfish_unreachable_def Let_def keepsD [OF keeps_frame(1)])

lemma create_vm_host:
  "hoare (\<lambda>_. True) (create_vm ext ev name mac args)
     (\<lambda>h _. h_name h = name \<and> h_boot_mac h = mac) (\<lambda>_ _. True)"
proof -
  have ex: "hoare (\<lambda>_. True) m (\<lambda>_ _. True) (\<lambda>_ _. True)" for m :: "('a, 'b) vm"
    by (rule hoareI) simp_all
  show ?thesis unfolding create_vm_def Let_def
    by (intro hoare_bind [OF ex] hoare_if hoare_then [OF ex])
      (auto intro!: hoareI)
qed

section \<open>Creating keeps the inventory exact\<close>

text \<open>A host that \<open>cmd_create\<close> adds: its name is in the group and its MAC is readable from it.\<close>

definition group_vm :: "string \<Rightarrow> host \<Rightarrow> bool" where
  "group_vm np h \<longleftrightarrow> is_group_host_name (h_name h) np \<and>
     h_boot_mac h = MAC_PREFIX @ '':'' @ drop (length np + 1) (h_name h)"

definition exact :: "path \<Rightarrow> string \<Rightarrow> host list \<Rightarrow> raw_inventory \<Rightarrow> fs \<Rightarrow> bool" where
  "exact p np base iv f \<longleftrightarrow> name_prefix iv = Some np \<and> np \<noteq> [] \<and> load f p = Inr iv \<and>
     names_distinct iv \<and> (\<exists>new. hosts iv = base @ new \<and> list_all (group_vm np) new)"

lemma exact_add:
  assumes "exact p np base iv f" "is_group_host_name (h_name h) np" "h_name h \<notin> host_names iv"
    "h_boot_mac h = MAC_PREFIX @ '':'' @ drop (length np + 1) (h_name h)"
  shows "exact p np base (add_host h iv) (save (add_host h iv) p g)"
proof -
  from assms(1) obtain new where "hosts iv = base @ new" "list_all (group_vm np) new"
    by (auto simp: exact_def)
  then have "hosts (add_host h iv) = base @ (new @ [h])" "list_all (group_vm np) (new @ [h])"
    using assms by (auto simp: group_vm_def)
  with assms(1,3) show ?thesis
    unfolding exact_def by (auto simp: save_eq invs.distinct_add intro: load_payload)
qed

lemma keeps_exact_create_one: "keeps (frame (exact p np base)) (create_one ext rnd ev p args np)"
  unfolding keeps_hoare create_one_def
proof (rule hoare_bind)
  show "hoare (frame (exact p np base)) (getP inventory)
      (\<lambda>iv s. frame (exact p np base) s \<and> iv = inventory s) (\<lambda>_. frame (exact p np base))"
    by (simp add: hoare_def)
next
  fix iv
  let ?K = "frame (\<lambda>iv' f. exact p np base iv' f \<and> iv' = iv)"
  show "hoare (\<lambda>s. frame (exact p np base) s \<and> iv = inventory s)
      (bindP (generate_vm_token rnd (hosts iv) np) (\<lambda>token.
       bindP (create_vm ext ev (np @ ''-'' @ token) (MAC_PREFIX @ '':'' @ token) args) (\<lambda>h.
       thenP (modP (\<lambda>st. st\<lparr>inventory := add_host h (inventory st)\<rparr>)) (save_inventory p))))
      (\<lambda>_. frame (exact p np base)) (\<lambda>_. frame (exact p np base))"
  proof (rule hoare_bind)
    show "hoare (\<lambda>s. frame (exact p np base) s \<and> iv = inventory s)
        (generate_vm_token rnd (hosts iv) np)
        (\<lambda>token s. ?K s \<and> length token = 2 \<and> is_group_host_name (np @ ''-'' @ token) np \<and>
           np @ ''-'' @ token \<notin> host_names iv)
        (\<lambda>_. frame (exact p np base))"
      by (rule hoareI)
        (fastforce simp: frame_def host_names_def dest: generate_vm_token_ret generate_vm_token_exn)+
  next
    fix token
    let ?fresh = "is_group_host_name (np @ ''-'' @ token) np \<and> np @ ''-'' @ token \<notin> host_names iv"
    have cv: "hoare ?K (create_vm ext ev (np @ ''-'' @ token) (MAC_PREFIX @ '':'' @ token) args)
        (\<lambda>h s. ?K s \<and> h_name h = np @ ''-'' @ token \<and> h_boot_mac h = MAC_PREFIX @ '':'' @ token)
        (\<lambda>_. frame (exact p np base))"
      by (rule hoare_conseq [OF hoare_keeps_conj [OF keeps_frame_create_vm
            [where P = "\<lambda>iv' f. exact p np base iv' f \<and> iv' = iv"] create_vm_host]])
        (auto simp: frame_def)
    have "hoare ?K (bindP (create_vm ext ev (np @ ''-'' @ token) (MAC_PREFIX @ '':'' @ token) args) (\<lambda>h.
       thenP (modP (\<lambda>st. st\<lparr>inventory := add_host h (inventory st)\<rparr>)) (save_inventory p)))
      (\<lambda>_. frame (exact p np base)) (\<lambda>_. frame (exact p np base))" if fresh: "?fresh"
    proof (rule hoare_bind [OF cv])
      fix h
      show "hoare (\<lambda>s. ?K s \<and> h_name h = np @ ''-'' @ token \<and> h_boot_mac h = MAC_PREFIX @ '':'' @ token)
          (thenP (modP (\<lambda>st. st\<lparr>inventory := add_host h (inventory st)\<rparr>)) (save_inventory p))
          (\<lambda>_. frame (exact p np base)) (\<lambda>_. frame (exact p np base))"
        using fresh exact_add [of p np base iv _ h]
        by (auto simp: hoare_def thenP_def bindP_def save_inventory_def frame_def)
    qed
    then show "hoare (\<lambda>s. ?K s \<and> length token = 2 \<and> ?fresh)
       (bindP (create_vm ext ev (np @ ''-'' @ token) (MAC_PREFIX @ '':'' @ token) args) (\<lambda>h.
       thenP (modP (\<lambda>st. st\<lparr>inventory := add_host h (inventory st)\<rparr>)) (save_inventory p)))
      (\<lambda>_. frame (exact p np base)) (\<lambda>_. frame (exact p np base))"
      by (auto simp: hoare_def)
  qed
qed

lemma ensure_prefix_exact:
  assumes "load (files st) p = Inr (inventory st)" "names_distinct (inventory st)"
    and "ensure_prefix token4 p st = (r, st')"
  shows "\<exists>np. r = Inr np \<and> frame (exact p np (hosts (inventory st))) st'"
proof -
  have fresh: "exact p (''virtual-bmh-'' @ token4) (hosts iv)
      (iv\<lparr>name_prefix := Some (''virtual-bmh-'' @ token4)\<rparr>)
      (save (iv\<lparr>name_prefix := Some (''virtual-bmh-'' @ token4)\<rparr>) p f)"
    if "names_distinct iv" for iv f
    using that by (auto simp: exact_def names_distinct_def save_eq intro: load_payload)
  show ?thesis
    using assms fresh
    by (auto simp: ensure_prefix_def ensure_name_prefix_def frame_def Let_def exact_def names_distinct_def
        split: option.splits if_splits)
qed


text \<open>A world in which every command succeeds and prints nothing, for the witnesses.\<close>

definition quiet_ext :: "unit vm_ext" where
  "quiet_ext w c = (Finished \<lparr>returncode = 0, stdout = [], stderr = []\<rparr>, w)"

definition start_state :: "fs \<Rightarrow> unit vm_state" where
  "start_state f = \<lparr>world = (), trace = [], inventory = empty_inventory, files = f, draws = 0\<rparr>"

definition example_host :: "string \<Rightarrow> host" where
  "example_host n = \<lparr>h_name = n, h_uuid = ''u'', h_boot_mac = ''m'', h_bmc_address = ''a'',
     h_bmc_username = ''admin'', h_bmc_password = ''password'', h_cpu = 4, h_memory_mib = 8192\<rparr>"

definition example_args :: create_args where
  "example_args = \<lparr>a_network = ''net'', a_disk_dir = ''/d'', a_redfish_host = ''h'', a_redfish_port = 8000,
     a_count = 2, a_cpu = 4, a_memory_mib = 8192, a_disk_size = ''150G''\<rparr>"

definition example_inventory :: raw_inventory where
  "example_inventory = \<lparr>name_prefix = Some ''g'', hosts = [example_host ''g-0a'', example_host ''g-0b'']\<rparr>"

definition example_fs :: fs where
  "example_fs = [''inv.json'' \<mapsto> JsonFile (payload example_inventory)]"

lemma load_example: "load example_fs ''inv.json'' = Inr example_inventory"
  by (rule load_payload [of _ _ _ "''g''"]) (simp_all add: example_fs_def example_inventory_def)

lemma names_distinct_example: "names_distinct example_inventory"
  by (simp add: names_distinct_def example_inventory_def example_host_def)


section \<open>Deleting touches only what the tool owns\<close>

definition owned_storage :: "string \<Rightarrow> path \<Rightarrow> bool" where
  "owned_storage name p \<longleftrightarrow> path_name p \<in> {name @ DISK_SUFFIX, name @ VARS_SUFFIX}"

definition delete_prelude :: "string \<Rightarrow> vm_cmd list" where
  "delete_prelude name = [Virsh [''dumpxml'', name] None, Virsh [''destroy'', name] None,
     Virsh [''undefine'', name, ''--nvram''] None, Virsh [''domuuid'', name] None]"

lemma hoare_virsh_trace:
  "hoare (\<lambda>s. trace s = cs) (run_virsh ext args stdin False)
     (\<lambda>_ s. trace s = cs @ [Virsh args stdin]) (\<lambda>_ s. trace s = cs @ [Virsh args stdin])"
  by (auto simp: hoare_def run_virsh_def bindP_def exec_def split: prod.splits sum.splits exec_out.splits)

lemma hoare_unlink_trace:
  "hoare (\<lambda>s. \<exists>ps. trace s = cs @ map Unlink ps \<and> list_all (owned_storage name) ps)
     (forP (\<lambda>p. if path_name p \<in> {name @ DISK_SUFFIX, name @ VARS_SUFFIX}
                then thenP (exec ext (Unlink p)) (ret ()) else ret ()) paths)
     (\<lambda>_ s. \<exists>ps. trace s = cs @ map Unlink ps \<and> list_all (owned_storage name) ps)
     (\<lambda>_ s. \<exists>ps. trace s = cs @ map Unlink ps \<and> list_all (owned_storage name) ps)"
    (is "hoare ?I _ _ _")
  unfolding keeps_hoare [symmetric]
proof (intro keeps_rules)
  fix p
  assume own: "path_name p \<in> {name @ DISK_SUFFIX, name @ VARS_SUFFIX}"
  show "keeps ?I (exec ext (Unlink p))"
  proof (rule keeps_exec)
    fix st :: "'a vm_state" and w
    assume "?I st"
    then obtain ps where "trace st = cs @ map Unlink ps" "list_all (owned_storage name) ps" by blast
    with own show "?I (st\<lparr>world := w, trace := trace st @ [Unlink p]\<rparr>)"
      by (intro exI [of _ "ps @ [p]"]) (simp add: owned_storage_def)
  qed
qed



text \<open>The deletions of one run: every processed name ends up in exactly the two result lists.\<close>

lemma fold_delete_known:
  "hoare (frame P) (foldP (delete_known ext parse) acc hs)
     (\<lambda>acc' s. frame P s \<and> set (fst acc) \<subseteq> set (fst acc') \<and>
        set (fst acc') \<subseteq> set (fst acc) \<union> h_name ` set hs \<and>
        h_name ` set hs \<subseteq> set (fst acc') \<union> set (snd acc') \<and> set (snd acc) \<subseteq> set (snd acc'))
     (\<lambda>_. frame P)"
proof (induction hs arbitrary: acc)
  case Nil
  then show ?case by (simp add: hoare_def)
next
  case (Cons h hs)
  have one: "hoare (frame P) (delete_known ext parse acc h)
     (\<lambda>a s. frame P s \<and> (a = (fst acc @ [h_name h], snd acc) \<or> a = (fst acc, snd acc @ [h_name h])))
     (\<lambda>_. frame P)"
    unfolding delete_known_def
    by (rule hoare_bind [OF keeps_frame_delete_vm [unfolded keeps_hoare]]) (auto simp: hoare_def)
  show ?case
    unfolding foldP.simps
  proof (rule hoare_bind [OF one])
    fix a
    show "hoare (\<lambda>s. frame P s \<and> (a = (fst acc @ [h_name h], snd acc) \<or> a = (fst acc, snd acc @ [h_name h])))
      (foldP (delete_known ext parse) a hs)
      (\<lambda>acc' s. frame P s \<and> set (fst acc) \<subseteq> set (fst acc') \<and>
        set (fst acc') \<subseteq> set (fst acc) \<union> h_name ` set (h # hs) \<and>
        h_name ` set (h # hs) \<subseteq> set (fst acc') \<union> set (snd acc') \<and> set (snd acc) \<subseteq> set (snd acc'))
      (\<lambda>_. frame P)"
    proof (cases "a = (fst acc @ [h_name h], snd acc) \<or> a = (fst acc, snd acc @ [h_name h])")
      case True
      then show ?thesis by (intro hoare_conseq [OF Cons.IH [of a]]) auto
    qed (simp add: hoare_def)
  qed
qed

lemma fold_delete_remnant:
  "hoare (frame P) (foldP (delete_remnant ext parse) acc ns)
     (\<lambda>acc' s. frame P s \<and> set acc \<subseteq> set acc') (\<lambda>_. frame P)"
proof (induction ns arbitrary: acc)
  case Nil
  then show ?case by (simp add: hoare_def)
next
  case (Cons n ns)
  have one: "hoare (frame P) (delete_remnant ext parse acc n)
     (\<lambda>a s. frame P s \<and> set acc \<subseteq> set a) (\<lambda>_. frame P)"
    unfolding delete_remnant_def
    by (rule hoare_bind [OF keeps_frame_delete_vm [unfolded keeps_hoare]]) (auto simp: hoare_def)
  show ?case
    unfolding foldP.simps
  proof (rule hoare_bind [OF one])
    fix a
    show "hoare (\<lambda>s. frame P s \<and> set acc \<subseteq> set a) (foldP (delete_remnant ext parse) a ns)
      (\<lambda>acc' s. frame P s \<and> set acc \<subseteq> set acc') (\<lambda>_. frame P)"
    proof (cases "set acc \<subseteq> set a")
      case True
      then show ?thesis by (intro hoare_conseq [OF Cons.IH [of a]]) auto
    qed (simp add: hoare_def)
  qed
qed

text \<open>
  Asked to delete a name that is neither in the inventory nor in the group,
  \<open>cmd_delete\<close> fails before it issues a single command, and the file is untouched.
\<close>

theorem delete_refuses_foreign_vms:
  assumes "load (files st) p = Inr iv" and "files st p \<noteq> None" and "name_prefix iv = Some np"
    and "n \<in> set names" and "n \<notin> host_names iv" and "\<not> is_group_host_name n np"
  shows "cmd_delete ext parse p names st = (Inl (SysExit 1), st\<lparr>inventory := iv\<rparr>)"
proof -
  have "\<not> list_all (\<lambda>n. is_group_host_name n np) (filter (\<lambda>n. n \<notin> host_names iv) names)"
    using assms(4-6) by (auto simp: list_all_iff)
  with assms(1-3) show ?thesis
    by (auto simp: cmd_delete_def bindP_def thenP_def load_inventory_def fail_def)
qed

theorem delete_refuses_foreign_vms_witness:
  "cmd_delete quiet_ext (\<lambda>_. None) ''inv.json'' [''g-0a'', ''other-0a''] (start_state example_fs)
     = (Inl (SysExit 1), (start_state example_fs)\<lparr>inventory := example_inventory\<rparr>)"
proof (rule delete_refuses_foreign_vms [where n = "''other-0a''" and np = "''g''"])
  show "load (files (start_state example_fs)) ''inv.json'' = Inr example_inventory"
    by (simp add: start_state_def load_example)
  show "files (start_state example_fs) ''inv.json'' \<noteq> None"
    by (simp add: start_state_def example_fs_def)
  show "\<not> is_group_host_name ''other-0a'' ''g''" by (auto simp: is_group_host_name_iff)
qed (simp_all add: example_inventory_def host_names_def example_host_def)

lemma load_name_prefix:
  "load f p = Inr iv \<Longrightarrow> f p \<noteq> None \<Longrightarrow> \<exists>np. name_prefix iv = Some np \<and> np \<noteq> []"
  by (auto simp: load_def bindE_Inr_iff split: option.splits stored_file.splits json.splits if_splits)

text \<open>
  A run of \<open>cmd_delete\<close> never loses a host it was not asked to delete, however it
  ends: the file is untouched or readable with only named hosts gone. When the run succeeds,
  the file holds exactly the hosts that were not named, in their order.
\<close>

theorem delete_keeps_other_hosts:
  fixes st :: "'w vm_state"
  assumes "load (files st) p = Inr iv" and "files st p \<noteq> None"
    and "cmd_delete ext parse p names st = (r, st')"
  shows "\<exists>gone. set gone \<subseteq> set names \<and>
      (files st' p = files st p \<or> load (files st') p = Inr (remove_hosts gone iv)) \<and>
      (r = Inr () \<longrightarrow> load (files st') p = Inr (remove_hosts names iv))"
proof -
  obtain np where np: "name_prefix iv = Some np" "np \<noteq> []"
    using load_name_prefix [OF assms(1,2)] by blast
  let ?K = "frame (\<lambda>i f. i = iv \<and> f = files st) :: 'w vm_state \<Rightarrow> bool"
  let ?unknown = "filter (\<lambda>n. n \<notin> host_names iv) names"
  let ?named = "filter (\<lambda>h. h_name h \<in> set names) (hosts iv)"
  let ?E = "\<lambda>(_ :: vm_exn) s :: 'w vm_state. \<exists>gone. set gone \<subseteq> set names \<and>
      (files s p = files st p \<or> load (files s) p = Inr (remove_hosts gone iv))"
  let ?Q = "\<lambda>(_ :: unit) s :: 'w vm_state. load (files s) p = Inr (remove_hosts names iv)"
  have KE: "?E e s" if "?K s" for e and s :: "'w vm_state"
    using that by (auto simp: frame_def intro: exI [of _ "[]"])
  let ?A = "\<lambda>acc. set (fst acc) \<subseteq> h_name ` set ?named \<and>
      h_name ` set ?named \<subseteq> set (fst acc) \<union> set (snd acc)"
  have known: "hoare ?K (foldP (delete_known ext parse) ([], []) ?named) (\<lambda>acc s. ?K s \<and> ?A acc) ?E"
    by (rule hoare_conseq [OF fold_delete_known]) (assumption, simp, rule KE)
  have rem: "hoare ?K (foldP (delete_remnant ext parse) failed ?unknown)
      (\<lambda>failed' s. ?K s \<and> set failed \<subseteq> set failed') ?E" for failed
    by (rule hoare_conseq [OF fold_delete_remnant]) (assumption, simp, rule KE)
  have fin: "hoare ?K (thenP (modP (\<lambda>st. st\<lparr>inventory := remove_hosts gone (inventory st)\<rparr>))
      (thenP (save_inventory p) (if failed \<noteq> [] then fail else ret ()))) ?Q ?E"
    if "set gone \<subseteq> set names" "failed = [] \<Longrightarrow> h_name ` set ?named \<subseteq> set gone" for gone failed
  proof -
    have "failed = [] \<Longrightarrow> remove_hosts gone iv = remove_hosts names iv"
    proof -
      assume "failed = []"
      with that have "filter (\<lambda>h. h_name h \<notin> set gone) (hosts iv) = filter (\<lambda>h. h_name h \<notin> set names) (hosts iv)"
        by (intro filter_cong refl) auto
      then show ?thesis by (simp add: remove_hosts_def)
    qed
    moreover have "load (save (remove_hosts gone iv) p f) p = Inr (remove_hosts gone iv)" for f
      by (rule load_payload [OF _ _ np(2)]) (simp_all add: save_eq np(1))
    ultimately show ?thesis
      using that(1) by (auto simp: hoare_def thenP_def bindP_def save_inventory_def frame_def fail_def)
  qed
  have "hoare ?K (bindP (foldP (delete_known ext parse) ([], []) ?named)
       (\<lambda>(deleted, failed).
     bindP (foldP (delete_remnant ext parse) failed ?unknown) (\<lambda>failed'.
     thenP (modP (\<lambda>st. st\<lparr>inventory := remove_hosts deleted (inventory st)\<rparr>))
    (thenP (save_inventory p)
       (if failed' \<noteq> [] then fail else ret ()))))) ?Q ?E" (is "hoare ?K ?body ?Q ?E")
  proof (rule hoare_bind [OF known])
    fix acc :: "string list \<times> string list"
    obtain deleted failed where acc: "acc = (deleted, failed)" by fastforce
    have "hoare ?K (bindP (foldP (delete_remnant ext parse) failed ?unknown) (\<lambda>failed'.
        thenP (modP (\<lambda>st. st\<lparr>inventory := remove_hosts deleted (inventory st)\<rparr>))
          (thenP (save_inventory p) (if failed' \<noteq> [] then fail else ret ())))) ?Q ?E" if A: "?A acc"
    proof (rule hoare_bind [OF rem])
      fix failed'
      show "hoare (\<lambda>s. ?K s \<and> set failed \<subseteq> set failed')
        (thenP (modP (\<lambda>st. st\<lparr>inventory := remove_hosts deleted (inventory st)\<rparr>))
          (thenP (save_inventory p) (if failed' \<noteq> [] then fail else ret ()))) ?Q ?E"
      proof (cases "set failed \<subseteq> set failed'")
        case True
        have "hoare ?K (thenP (modP (\<lambda>st. st\<lparr>inventory := remove_hosts deleted (inventory st)\<rparr>))
          (thenP (save_inventory p) (if failed' \<noteq> [] then fail else ret ()))) ?Q ?E"
          by (rule fin) (use A acc True in auto)
        then show ?thesis by (rule hoare_weaken) simp
      qed (simp add: hoare_def)
    qed
    then show "hoare (\<lambda>s. ?K s \<and> ?A acc) ((\<lambda>(deleted, failed).
       bindP (foldP (delete_remnant ext parse) failed ?unknown) (\<lambda>failed'.
       thenP (modP (\<lambda>st. st\<lparr>inventory := remove_hosts deleted (inventory st)\<rparr>))
         (thenP (save_inventory p) (if failed' \<noteq> [] then fail else ret ())))) acc) ?Q ?E"
      by (cases "?A acc") (simp_all add: acc hoare_def)
  qed
  note body = this
  let ?st1 = "st\<lparr>inventory := iv\<rparr>"
  have K1: "?K ?st1" by (simp add: frame_def)
  have run: "cmd_delete ext parse p names st =
      (if list_all (\<lambda>n. is_group_host_name n np) ?unknown then ?body ?st1 else (Inl (SysExit 1), ?st1))"
    using assms(1,2) np(1)
    by (auto simp: cmd_delete_def bindP_def [of "getP f" for f] thenP_def bindP_def [of "load_inventory p"]
        load_inventory_def fail_def Let_def)
  have "(\<forall>x. r = Inr x \<longrightarrow> ?Q x st') \<and> (\<forall>e. r = Inl e \<longrightarrow> ?E e st')"
    using hoareD_ret [OF body K1] hoareD_exn [OF body K1] KE [OF K1] assms(3)
    unfolding run by (auto split: if_splits)
  then show ?thesis by (cases r) (auto intro: exI [of _ names])
qed

theorem delete_keeps_other_hosts_witness:
  "let st = start_state example_fs;
       st' = snd (cmd_delete quiet_ext (\<lambda>_. None) ''inv.json'' [''g-0a''] st)
   in \<exists>gone. set gone \<subseteq> {''g-0a''} \<and>
      (files st' ''inv.json'' = files st ''inv.json'' \<or>
        load (files st') ''inv.json'' = Inr (remove_hosts gone example_inventory)) \<and>
      (fst (cmd_delete quiet_ext (\<lambda>_. None) ''inv.json'' [''g-0a''] st) = Inr () \<longrightarrow>
        load (files st') ''inv.json'' = Inr (remove_hosts [''g-0a''] example_inventory))"
proof -
  have "load (files (start_state example_fs)) ''inv.json'' = Inr example_inventory"
    "files (start_state example_fs) ''inv.json'' \<noteq> None"
    by (simp_all add: start_state_def load_example) (simp add: example_fs_def)
  from delete_keeps_other_hosts [OF this surjective_pairing,
      where ext = quiet_ext and parse = "\<lambda>_. None" and names = "[''g-0a'']"]
  show ?thesis by (simp add: Let_def)
qed

end
