(* ===== verification/ReconcileBmh.thy ===== *)
theory ReconcileBmh
  imports RawInventory
begin

text \<open>
  \<^verbatim>\<open>.github/scripts/reconcile-bmhs.py\<close>: bringing the BareMetalHost resources of a cluster in
  line with a raw inventory.

  The cluster behind \<open>oc\<close> is the parameter \<open>cl\<close>: it answers a command, or lets time pass, in a
  world of any type \<open>'w\<close>. The state keeps that world and the trace of what was issued together
  with what was answered.
\<close>

section \<open>Commands and state\<close>

datatype oc_cmd =
    Oc "string list" "string option"     \<comment> \<open>arguments and standard input\<close>
  | SleepFor nat

datatype oc_reply =
    OcDone int string string             \<comment> \<open>exit code, standard output, standard error\<close>
  | OcTimedOut
  | OcNotFound

datatype oc_exn = OcExit int | OcFailed int | OcTimeoutExpired | OcFileNotFound

record 'w oc_state =
  cluster :: 'w
  oc_log :: "(oc_cmd \<times> oc_reply) list"

type_synonym ('w, 'a) oc = "('w oc_state, oc_exn, 'a) prog"
type_synonym 'w oc_ext = "'w \<Rightarrow> oc_cmd \<Rightarrow> oc_reply \<times> 'w"

definition OC_TIMEOUT_SECONDS :: nat where "OC_TIMEOUT_SECONDS = 300"
definition AVAILABLE_RETRIES :: nat where "AVAILABLE_RETRIES = 120"
definition AVAILABLE_DELAY :: nat where "AVAILABLE_DELAY = 10"

definition oc_issue :: "'w oc_ext \<Rightarrow> oc_cmd \<Rightarrow> ('w, oc_reply) oc" where
  "oc_issue cl c st =
     (case cl (cluster st) c of (r, w) \<Rightarrow> (Inr r, st\<lparr>cluster := w, oc_log := oc_log st @ [(c, r)]\<rparr>))"

definition oc_fail :: "('w, 'a) oc" where
  "oc_fail = raise (OcExit 1)"

text \<open>\<open>run_oc\<close> returns exit code, output and error text.\<close>

definition run_oc :: "'w oc_ext \<Rightarrow> string list \<Rightarrow> string option \<Rightarrow> bool \<Rightarrow> ('w, int \<times> string \<times> string) oc" where
  "run_oc cl args stdin check =
     bindP (oc_issue cl (Oc args stdin))
       (\<lambda>r. case r of
              OcDone rc out err \<Rightarrow> if check \<and> rc \<noteq> 0 then raise (OcFailed rc) else ret (rc, out, err)
            | OcTimedOut \<Rightarrow> raise OcTimeoutExpired
            | OcNotFound \<Rightarrow> raise OcFileNotFound)"

definition dump_oc :: "'w oc_ext \<Rightarrow> string list \<Rightarrow> ('w, unit) oc" where
  "dump_oc cl args = bindP (run_oc cl args None False) (\<lambda>_. ret ())"

section \<open>Manifests\<close>

definition unlines :: "string list \<Rightarrow> string" where
  "unlines ls = concat (map (\<lambda>l. l @ [CHR 0x0A]) ls)"

definition dq :: "string \<Rightarrow> string" where
  "dq s = [CHR 0x22] @ s @ [CHR 0x22]"

definition render_namespace_manifest :: "string \<Rightarrow> string" where
  "render_namespace_manifest ns = unlines
     [''apiVersion: v1'',
      ''kind: Namespace'',
      ''metadata:'',
      ''  name: '' @ ns]"

definition bmh_manifest_lines :: "host \<Rightarrow> string \<Rightarrow> string list" where
  "bmh_manifest_lines h ns =
     [''---'',
      ''apiVersion: v1'',
      ''kind: Secret'',
      ''metadata:'',
      ''  name: '' @ h_name h @ ''-bmc-secret'',
      ''  namespace: '' @ ns,
      ''type: Opaque'',
      ''stringData:'',
      ''  # json.dumps = quoted YAML scalar: credentials can never be parsed'',
      ''  # as YAML syntax ('' @ dq ''12345'' @ '', '' @ dq ''true'' @ '', '' @ dq ''a: b'' @ '').'',
      ''  username: '' @ json_quote (h_bmc_username h),
      ''  password: '' @ json_quote (h_bmc_password h),
      ''---'',
      ''apiVersion: metal3.io/v1alpha1'',
      ''kind: BareMetalHost'',
      ''metadata:'',
      ''  name: '' @ h_name h,
      ''  namespace: '' @ ns,
      ''spec:'',
      ''  online: true'',
      ''  bootMACAddress: '' @ dq (h_boot_mac h),
      ''  bootMode: UEFI'',
      ''  automatedCleaningMode: metadata'',
      ''  rootDeviceHints:'',
      ''    deviceName: /dev/vda'',
      ''  bmc:'',
      ''    address: '' @ dq (h_bmc_address h),
      ''    credentialsName: '' @ h_name h @ ''-bmc-secret'']"

definition render_bmh_manifest :: "host \<Rightarrow> string \<Rightarrow> string" where
  "render_bmh_manifest h ns = unlines (bmh_manifest_lines h ns)"

section \<open>The steps\<close>

definition apply_namespace :: "'w oc_ext \<Rightarrow> string \<Rightarrow> ('w, unit) oc" where
  "apply_namespace cl ns =
     bindP (run_oc cl [''apply'', ''-f'', ''-''] (Some (render_namespace_manifest ns)) True) (\<lambda>_. ret ())"

definition create_bmhs :: "'w oc_ext \<Rightarrow> host list \<Rightarrow> string \<Rightarrow> ('w, unit) oc" where
  "create_bmhs cl hs ns =
     forP (\<lambda>h. bindP (run_oc cl [''apply'', ''-f'', ''-''] (Some (render_bmh_manifest h ns)) True) (\<lambda>_. ret ())) hs"

definition list_managed_bmh_names :: "'w oc_ext \<Rightarrow> string \<Rightarrow> string \<Rightarrow> ('w, string list) oc" where
  "list_managed_bmh_names cl ns np =
     bindP (run_oc cl [''get'', ''bmh'', ''-n'', ns, ''-o'', ''jsonpath={.items[*].metadata.name}''] None True)
       (\<lambda>(rc, out, err). ret (filter (\<lambda>n. is_group_host_name n np) (words_by str_space out)))"

definition finalizers_patch :: string where
  "finalizers_patch = ''{'' @ dq ''metadata'' @ '':{'' @ dq ''finalizers'' @ '':null}}''"

definition strip_args :: "string \<Rightarrow> string \<Rightarrow> string \<Rightarrow> string list" where
  "strip_args kind name ns = [''patch'', kind, name, ''-n'', ns, ''--type'', ''merge'', ''-p'', finalizers_patch]"

definition delete_args :: "string \<Rightarrow> string \<Rightarrow> string \<Rightarrow> string list" where
  "delete_args kind name ns = [''delete'', kind, name, ''-n'', ns, ''--ignore-not-found'', ''--wait=false'']"

definition strip_finalizers :: "'w oc_ext \<Rightarrow> string \<Rightarrow> string \<Rightarrow> string \<Rightarrow> ('w, unit) oc" where
  "strip_finalizers cl kind name ns = bindP (run_oc cl (strip_args kind name ns) None False) (\<lambda>_. ret ())"

definition delete_stale_bmhs :: "'w oc_ext \<Rightarrow> host list \<Rightarrow> string \<Rightarrow> string \<Rightarrow> ('w, unit) oc" where
  "delete_stale_bmhs cl hs ns np =
     bindP (list_managed_bmh_names cl ns np) (\<lambda>managed.
     forP (\<lambda>n.
       thenP (run_oc cl (delete_args ''bmh'' n ns) None True)
      (thenP (strip_finalizers cl ''bmh'' n ns)
      (thenP (run_oc cl (delete_args ''secret'' (n @ ''-bmc-secret'') ns) None True)
             (strip_finalizers cl ''secret'' (n @ ''-bmc-secret'') ns))))
      (filter (\<lambda>n. n \<notin> h_name ` set hs) managed))"

definition poll_args :: "string \<Rightarrow> string \<Rightarrow> string list" where
  "poll_args n ns = [''get'', ''bmh'', n, ''-n'', ns, ''-o'', ''jsonpath={.status.provisioning.state}'']"

definition label_args :: "string \<Rightarrow> string \<Rightarrow> string list" where
  "label_args n ns = [''label'', ''bmh'', n, ''-n'', ns, ''osac.openshift.io/host-type=default'', ''--overwrite'']"

text \<open>The attempts of one host; the argument counts those that are left.\<close>

fun wait_attempts :: "'w oc_ext \<Rightarrow> string \<Rightarrow> string \<Rightarrow> nat \<Rightarrow> ('w, unit) oc" where
  "wait_attempts cl n ns 0 = ret ()"
| "wait_attempts cl n ns (Suc left) =
     bindP (run_oc cl (poll_args n ns) None False) (\<lambda>(rc, out, err).
       if strip out = ''available'' then ret ()
       else if left = 0
       then thenP (dump_oc cl [''get'', ''bmh'', n, ''-n'', ns, ''-o'', ''yaml'']) (raise (OcExit 1))
       else thenP (oc_issue cl (SleepFor AVAILABLE_DELAY)) (wait_attempts cl n ns left))"

definition wait_for_available :: "'w oc_ext \<Rightarrow> host list \<Rightarrow> string \<Rightarrow> ('w, unit) oc" where
  "wait_for_available cl hs ns = forP (\<lambda>h. wait_attempts cl (h_name h) ns AVAILABLE_RETRIES) hs"

definition label_bmhs :: "'w oc_ext \<Rightarrow> host list \<Rightarrow> string \<Rightarrow> ('w, unit) oc" where
  "label_bmhs cl hs ns = forP (\<lambda>h. bindP (run_oc cl (label_args (h_name h) ns) None True) (\<lambda>_. ret ())) hs"

definition reconcile_steps :: "'w oc_ext \<Rightarrow> host list \<Rightarrow> string \<Rightarrow> string \<Rightarrow> ('w, unit) oc" where
  "reconcile_steps cl hs np ns =
     thenP (apply_namespace cl ns)
    (thenP (delete_stale_bmhs cl hs ns np)
    (thenP (create_bmhs cl hs ns)
    (thenP (wait_for_available cl hs ns)
           (label_bmhs cl hs ns))))"

text \<open>\<open>main\<close>: the exit status and the final state; an exception becomes an exit status.\<close>

definition oc_status :: "oc_exn + unit \<Rightarrow> int" where
  "oc_status r = (case r of Inr _ \<Rightarrow> 0 | Inl (OcExit n) \<Rightarrow> n | Inl (OcFailed n) \<Rightarrow> n
     | Inl OcTimeoutExpired \<Rightarrow> 1 | Inl OcFileNotFound \<Rightarrow> 1)"

definition bmh_main :: "'w oc_ext \<Rightarrow> fs \<Rightarrow> path \<Rightarrow> string \<Rightarrow> 'w oc_state \<Rightarrow> int \<times> 'w oc_state" where
  "bmh_main cl f p ns st =
     (if f p = None then (1, st)
      else case load f p of
        Inl e \<Rightarrow> (1, st)
      | Inr iv \<Rightarrow>
          (case name_prefix iv of
             None \<Rightarrow> (1, st)   \<comment> \<open>not reached: a loaded file has a prefix\<close>
           | Some np \<Rightarrow> (case reconcile_steps cl (hosts iv) np ns st of (r, st') \<Rightarrow> (oc_status r, st'))))"

section \<open>Lemmas: the log\<close>

lemma oc_issue_app:
  "oc_issue cl c st = (Inr (fst (cl (cluster st) c)),
     st\<lparr>cluster := snd (cl (cluster st) c), oc_log := oc_log st @ [(c, fst (cl (cluster st) c))]\<rparr>)"
  by (simp add: oc_issue_def split: prod.splits)

lemma emits_oc_issue [emits_rules]: "(\<And>r. A (c, r)) \<Longrightarrow> emits oc_log A (oc_issue cl c)"
  by (rule emitsI) (simp add: oc_issue_app)

lemma emits_run_oc [emits_rules]:
  "(\<And>r. A (Oc args stdin, r)) \<Longrightarrow> emits oc_log A (run_oc cl args stdin check)"
  unfolding run_oc_def
  by (intro emits_rules) (auto split: oc_reply.split intro!: emits_rules)

lemma emits_dump_oc [emits_rules]:
  "(\<And>r. A (Oc args None, r)) \<Longrightarrow> emits oc_log A (dump_oc cl args)"
  unfolding dump_oc_def by (intro emits_rules)

lemma emits_strip [emits_rules]:
  "(\<And>r. A (Oc (strip_args kind n ns) None, r)) \<Longrightarrow> emits oc_log A (strip_finalizers cl kind n ns)"
  unfolding strip_finalizers_def by (intro emits_rules)

lemma emits_list [emits_rules]:
  "(\<And>r. A (Oc [''get'', ''bmh'', ''-n'', ns, ''-o'', ''jsonpath={.items[*].metadata.name}''] None, r)) \<Longrightarrow>
   emits oc_log A (list_managed_bmh_names cl ns np)"
  unfolding list_managed_bmh_names_def
  by (intro emits_rules) (auto split: prod.split intro!: emits_rules)

lemma emits_wait [emits_rules]:
  assumes "\<And>r. A (Oc (poll_args n ns) None, r)" "\<And>r. A (SleepFor AVAILABLE_DELAY, r)"
    and "\<And>r. A (Oc [''get'', ''bmh'', n, ''-n'', ns, ''-o'', ''yaml''] None, r)"
  shows "emits oc_log A (wait_attempts cl n ns k)"
  using assms by (induction k) (auto split: prod.split intro!: emits_rules)


lemma list_managed_result:
  "hoare (\<lambda>_. True) (list_managed_bmh_names cl ns np) (\<lambda>names _. \<forall>n \<in> set names. is_group_host_name n np) (\<lambda>_ _. True)"
proof (rule hoareI)
  fix s names t
  assume "list_managed_bmh_names cl ns np s = (Inr names, t)"
  then show "\<forall>n \<in> set names. is_group_host_name n np"
    by (auto simp: list_managed_bmh_names_def bindP_def split: prod.splits sum.splits)
qed simp

section \<open>Lemmas: which objects are touched\<close>

text \<open>The events that may appear when the group \<open>np\<close> wants the hosts \<open>hs\<close>.\<close>

definition only_stale_deleted :: "string \<Rightarrow> string set \<Rightarrow> oc_cmd \<times> oc_reply \<Rightarrow> bool" where
  "only_stale_deleted np wanted e \<longleftrightarrow>
     (\<forall>kind n rest stdin. fst e = Oc (''delete'' # kind # n # rest) stdin \<longrightarrow>
        (\<exists>m. is_group_host_name m np \<and> m \<notin> wanted \<and>
             (kind = ''bmh'' \<and> n = m \<or> kind = ''secret'' \<and> n = m @ ''-bmc-secret'')))"

lemma only_stale_deleted_other [simp]:
  "\<not> (\<exists>kind n rest. args = ''delete'' # kind # n # rest) \<Longrightarrow> only_stale_deleted np w (Oc args stdin, r)"
  "only_stale_deleted np w (SleepFor k, r)"
  by (auto simp: only_stale_deleted_def)

lemma only_stale_deleted_delete [simp]:
  "is_group_host_name m np \<Longrightarrow> m \<notin> w \<Longrightarrow> only_stale_deleted np w (Oc (delete_args ''bmh'' m ns) x, r)"
  "is_group_host_name m np \<Longrightarrow> m \<notin> w \<Longrightarrow>
   only_stale_deleted np w (Oc (delete_args ''secret'' (m @ ''-bmc-secret'') ns) x, r)"
  unfolding only_stale_deleted_def delete_args_def by auto

lemma emits_delete_stale:
  "emits oc_log (only_stale_deleted np (h_name ` set hs)) (delete_stale_bmhs cl hs ns np)"
  unfolding delete_stale_bmhs_def
  by (rule emits_bind_result [OF emits_list list_managed_result])
    (auto simp: strip_args_def intro!: emits_rules)

lemma emits_reconcile_steps:
  "emits oc_log (only_stale_deleted np (h_name ` set hs)) (reconcile_steps cl hs np ns)"
proof -
  let ?A = "only_stale_deleted np (h_name ` set hs)"
  have "emits oc_log ?A (apply_namespace cl ns)" "emits oc_log ?A (create_bmhs cl hs ns)"
    "emits oc_log ?A (wait_for_available cl hs ns)" "emits oc_log ?A (label_bmhs cl hs ns)"
    unfolding apply_namespace_def create_bmhs_def wait_for_available_def label_bmhs_def
    by (auto simp: poll_args_def label_args_def intro!: emits_rules)
  then show ?thesis unfolding reconcile_steps_def by (intro emits_rules emits_delete_stale)
qed

section \<open>Lemmas: finalizers are stripped from terminating objects only\<close>

definition strips_ok :: "(oc_cmd \<times> oc_reply) list \<Rightarrow> bool" where
  "strips_ok l \<longleftrightarrow> (\<forall>i < length l. \<forall>kind n ns. fst (l ! i) = Oc (strip_args kind n ns) None \<longrightarrow>
     0 < i \<and> (\<exists>out err. l ! (i - 1) = (Oc (delete_args kind n ns) None, OcDone 0 out err)))"

lemma strips_ok_snoc:
  assumes "strips_ok l"
    and "\<And>kind n ns. fst e = Oc (strip_args kind n ns) None \<Longrightarrow>
      l \<noteq> [] \<and> (\<exists>out err. last l = (Oc (delete_args kind n ns) None, OcDone 0 out err))"
  shows "strips_ok (l @ [e])"
  unfolding strips_ok_def
proof (intro allI impI)
  fix i kind n ns
  assume i: "i < length (l @ [e])" and f: "fst ((l @ [e]) ! i) = Oc (strip_args kind n ns) None"
  show "0 < i \<and> (\<exists>out err. (l @ [e]) ! (i - 1) = (Oc (delete_args kind n ns) None, OcDone 0 out err))"
  proof (cases "i < length l")
    case True
    with f have "fst (l ! i) = Oc (strip_args kind n ns) None" by (simp add: nth_append)
    with True assms(1) have "0 < i \<and> (\<exists>out err. l ! (i - 1) = (Oc (delete_args kind n ns) None, OcDone 0 out err))"
      unfolding strips_ok_def by blast
    moreover have "i - 1 < length l" using True by linarith
    ultimately show ?thesis by (simp only: nth_append if_True)
  next
    case False
    with i have il: "i = length l" by simp
    with f have "fst e = Oc (strip_args kind n ns) None" by simp
    from assms(2) [OF this] show ?thesis by (auto simp: il nth_append last_conv_nth)
  qed
qed

definition no_strip :: "oc_cmd \<times> oc_reply \<Rightarrow> bool" where
  "no_strip e \<longleftrightarrow> (\<forall>kind n ns. fst e \<noteq> Oc (strip_args kind n ns) None)"

lemma strips_ok_append: "strips_ok l \<Longrightarrow> list_all no_strip es \<Longrightarrow> strips_ok (l @ es)"
proof (induction es arbitrary: l)
  case (Cons e es)
  then have "fst e \<noteq> Oc (strip_args kind n ns) None" for kind n ns by (simp add: no_strip_def)
  with Cons.prems have "strips_ok (l @ [e])" by (intro strips_ok_snoc) blast+
  from Cons.IH [OF this] Cons.prems show ?case by simp
qed simp

lemma keeps_strips_ok: "emits oc_log no_strip m \<Longrightarrow> keeps (\<lambda>s. strips_ok (oc_log s)) m"
  by (rule keepsI) (metis emitsD strips_ok_append)

lemma delete_then_strip:
  "keeps (\<lambda>s. strips_ok (oc_log s))
     (thenP (run_oc cl (delete_args kind n ns) None True) (strip_finalizers cl kind n ns))"
proof -
  let ?del = "\<lambda>r. (Oc (delete_args kind n ns) None, r)"
  have ne: "delete_args kind n ns \<noteq> strip_args k' n' ns'" for k' n' ns'
    by (simp add: delete_args_def strip_args_def)
  have d: "hoare (\<lambda>s. strips_ok (oc_log s)) (run_oc cl (delete_args kind n ns) None True)
      (\<lambda>_ s. strips_ok (oc_log s) \<and> oc_log s \<noteq> [] \<and> (\<exists>out err. last (oc_log s) = ?del (OcDone 0 out err)))
      (\<lambda>_ s. strips_ok (oc_log s))"
  proof (rule hoareI)
    fix s x t
    assume s: "strips_ok (oc_log s)" and r: "run_oc cl (delete_args kind n ns) None True s = (Inr x, t)"
    then obtain out err where "oc_log t = oc_log s @ [?del (OcDone 0 out err)]"
      by (auto simp: run_oc_def bindP_def oc_issue_app split: oc_reply.splits if_splits)
    with s show "strips_ok (oc_log t) \<and> oc_log t \<noteq> [] \<and>
        (\<exists>out err. last (oc_log t) = ?del (OcDone 0 out err))"
      by (auto intro!: strips_ok_snoc simp: ne)
  next
    fix s e t
    assume s: "strips_ok (oc_log s)" and r: "run_oc cl (delete_args kind n ns) None True s = (Inl e, t)"
    then obtain r where "oc_log t = oc_log s @ [?del r]"
      by (auto simp: run_oc_def bindP_def oc_issue_app split: oc_reply.splits if_splits)
    with s show "strips_ok (oc_log t)" by (auto intro!: strips_ok_snoc simp: ne)
  qed
  have p: "hoare (\<lambda>s. strips_ok (oc_log s) \<and> oc_log s \<noteq> [] \<and> (\<exists>out err. last (oc_log s) = ?del (OcDone 0 out err)))
      (strip_finalizers cl kind n ns) (\<lambda>_ s. strips_ok (oc_log s)) (\<lambda>_ s. strips_ok (oc_log s))"
  proof -
    have inj: "strip_args kind n ns = strip_args k' n' ns' \<longleftrightarrow> kind = k' \<and> n = n' \<and> ns = ns'" for k' n' ns'
      by (simp add: strip_args_def)
    have one: "strips_ok (oc_log (snd (strip_finalizers cl kind n ns s)))"
      if "strips_ok (oc_log s)" "oc_log s \<noteq> []" "last (oc_log s) = ?del (OcDone 0 out err)"
      for s :: "'a oc_state" and out err
    proof -
      let ?c = "Oc (strip_args kind n ns) None"
      have "oc_log (snd (strip_finalizers cl kind n ns s)) = oc_log s @ [(?c, fst (cl (cluster s) ?c))]"
        by (cases "fst (cl (cluster s) ?c)")
          (simp_all add: strip_finalizers_def run_oc_def bindP_def oc_issue_app)
      with that show ?thesis by (auto intro!: strips_ok_snoc simp: inj)
    qed
    then show ?thesis by (intro hoareI) (metis snd_conv)+
  qed
  show ?thesis unfolding keeps_hoare by (rule hoare_then [OF d p])
qed

lemma no_strip_simps [simp]:
  "args = [] \<or> hd args \<noteq> ''patch'' \<Longrightarrow> no_strip (Oc args x, r)" "no_strip (SleepFor k, r)"
  by (auto simp: no_strip_def strip_args_def)

lemma thenP_assoc: "thenP (thenP a b) c = thenP a (thenP b c)"
  by (rule ext) (auto simp: thenP_def bindP_def split: prod.split sum.split)

lemma keeps_delete_stale: "keeps (\<lambda>s. strips_ok (oc_log s)) (delete_stale_bmhs cl hs ns np)"
proof -
  have "emits oc_log no_strip (list_managed_bmh_names cl ns np)"
    by (intro emits_rules) simp
  moreover have "keeps (\<lambda>s. strips_ok (oc_log s))
      (thenP (run_oc cl (delete_args ''bmh'' n ns) None True)
      (thenP (strip_finalizers cl ''bmh'' n ns)
      (thenP (run_oc cl (delete_args ''secret'' (n @ ''-bmc-secret'') ns) None True)
             (strip_finalizers cl ''secret'' (n @ ''-bmc-secret'') ns))))" for n
    unfolding thenP_assoc [symmetric, where a = "run_oc cl (delete_args ''bmh'' n ns) None True"]
    by (rule keeps_then [OF delete_then_strip delete_then_strip])
  ultimately show ?thesis
    unfolding delete_stale_bmhs_def by (intro keeps_bind keeps_forP) (simp_all add: keeps_strips_ok)
qed

lemma keeps_reconcile_steps: "keeps (\<lambda>s. strips_ok (oc_log s)) (reconcile_steps cl hs np ns)"
proof -
  have "emits oc_log no_strip (apply_namespace cl ns)" "emits oc_log no_strip (create_bmhs cl hs ns)"
    "emits oc_log no_strip (wait_for_available cl hs ns)" "emits oc_log no_strip (label_bmhs cl hs ns)"
    unfolding apply_namespace_def create_bmhs_def wait_for_available_def label_bmhs_def
    by (auto simp: poll_args_def label_args_def intro!: emits_rules)
  then show ?thesis
    unfolding reconcile_steps_def
    by (intro keeps_then keeps_delete_stale) (simp_all add: keeps_strips_ok)
qed

section \<open>Lemmas: what a successful run has done\<close>

text \<open>
  \<open>achieves m Q\<close>: when \<open>m\<close> returns, the events it appended satisfy \<open>Q\<close>; when it raises, the
  process does not exit with status 0.
\<close>

definition achieves :: "('w, 'a) oc \<Rightarrow> ((oc_cmd \<times> oc_reply) list \<Rightarrow> bool) \<Rightarrow> bool" where
  "achieves m Q \<longleftrightarrow> (\<forall>s. (\<forall>x t. m s = (Inr x, t) \<longrightarrow> (\<exists>es. oc_log t = oc_log s @ es \<and> Q es)) \<and>
     (\<forall>e t. m s = (Inl e, t) \<longrightarrow> oc_status (Inl e) \<noteq> 0))"

lemma achievesD: "achieves m Q \<Longrightarrow> m s = (Inr x, t) \<Longrightarrow> \<exists>es. oc_log t = oc_log s @ es \<and> Q es"
  unfolding achieves_def by blast

lemma achieves_bind:
  fixes m :: "('w, 'a) oc" and n :: "'a \<Rightarrow> ('w, 'b) oc"
  assumes "achieves m P" and "\<And>x. achieves (n x) Q"
  shows "achieves (bindP m n) (\<lambda>es. \<exists>a b. es = a @ b \<and> P a \<and> Q b)"
  unfolding achieves_def
proof (intro allI conjI impI)
  fix s x t
  assume "bindP m n s = (Inr x, t)"
  then obtain y u where "m s = (Inr y, u)" "n y u = (Inr x, t)"
    by (auto simp: bindP_def split: prod.splits sum.splits)
  with assms obtain a b where "oc_log u = oc_log s @ a" "P a" "oc_log t = oc_log u @ b" "Q b"
    unfolding achieves_def by blast
  then show "\<exists>es. oc_log t = oc_log s @ es \<and> (\<exists>a b. es = a @ b \<and> P a \<and> Q b)" by auto
next
  fix s e t
  assume "bindP m n s = (Inl e, t)"
  then consider "m s = (Inl e, t)" | y u where "m s = (Inr y, u)" "n y u = (Inl e, t)"
    by (auto simp: bindP_def split: prod.splits sum.splits)
  then show "oc_status (Inl e) \<noteq> 0" using assms unfolding achieves_def by cases blast+
qed

lemma achieves_then:
  "achieves m P \<Longrightarrow> achieves n Q \<Longrightarrow> achieves (thenP m n) (\<lambda>es. \<exists>a b. es = a @ b \<and> P a \<and> Q b)"
  unfolding thenP_def by (rule achieves_bind)

lemma achieves_weaken: "achieves m P \<Longrightarrow> (\<And>es. P es \<Longrightarrow> Q es) \<Longrightarrow> achieves m Q"
  unfolding achieves_def by blast

text \<open>Without a claim on the events: only the exit status of a failure.\<close>

abbreviation fails_loudly :: "('w, 'a) oc \<Rightarrow> bool" where
  "fails_loudly m \<equiv> achieves m (\<lambda>_. True)"

lemma loud_ret: "fails_loudly (ret x)"
  by (simp add: achieves_def)

lemma loud_bind: "fails_loudly m \<Longrightarrow> (\<And>x. fails_loudly (f x)) \<Longrightarrow> fails_loudly (bindP m f)"
  by (rule achieves_weaken [OF achieves_bind]) auto

lemma loud_then: "fails_loudly m \<Longrightarrow> fails_loudly n \<Longrightarrow> fails_loudly (thenP m n)"
  unfolding thenP_def by (rule loud_bind)

lemma loud_forP: "(\<And>x. x \<in> set xs \<Longrightarrow> fails_loudly (f x)) \<Longrightarrow> fails_loudly (forP f xs)"
  by (induction xs) (auto intro: loud_ret loud_then)

lemma achieves_run_oc:
  "achieves (run_oc cl args stdin check)
     (\<lambda>es. \<exists>rc out err. es = [(Oc args stdin, OcDone rc out err)] \<and> (check \<longrightarrow> rc = 0))"
  unfolding achieves_def run_oc_def
  by (auto simp: bindP_def oc_issue_app oc_status_def split: oc_reply.splits if_splits)

lemma achieves_run_oc_ignore:
  "achieves (bindP (run_oc cl args stdin True) (\<lambda>_. ret ()))
     (\<lambda>es. \<exists>out err. (Oc args stdin, OcDone 0 out err) \<in> set es)"
proof -
  have "achieves (ret () :: ('w, unit) oc) (\<lambda>es. es = [])" by (simp add: achieves_def)
  from achieves_then [OF achieves_run_oc this] show ?thesis
    unfolding thenP_def by (rule achieves_weaken) auto
qed

lemma achieves_forP:
  assumes "\<And>x. x \<in> set xs \<Longrightarrow> achieves (f x) (\<lambda>es. \<exists>e \<in> set es. E x e)"
  shows "achieves (forP f xs) (\<lambda>es. \<forall>x \<in> set xs. \<exists>e \<in> set es. E x e)"
  using assms
proof (induction xs)
  case Nil
  show ?case by (simp add: achieves_def)
next
  case (Cons x xs)
  have "achieves (f x) (\<lambda>es. \<exists>e \<in> set es. E x e)" using Cons.prems by simp
  moreover have "achieves (forP f xs) (\<lambda>es. \<forall>x \<in> set xs. \<exists>e \<in> set es. E x e)" using Cons by simp
  ultimately have "achieves (forP f (x # xs)) (\<lambda>es. \<exists>a b. es = a @ b \<and>
      (\<exists>e \<in> set a. E x e) \<and> (\<forall>x \<in> set xs. \<exists>e \<in> set b. E x e))"
    using achieves_then by simp
  then show ?case by (rule achieves_weaken) (elim exE conjE, simp, blast)
qed

definition available_poll :: "string \<Rightarrow> string \<Rightarrow> oc_cmd \<times> oc_reply \<Rightarrow> bool" where
  "available_poll ns n e \<longleftrightarrow>
     (\<exists>rc out err. e = (Oc (poll_args n ns) None, OcDone rc out err) \<and> strip out = ''available'')"

lemma wait_attempts_achieves:
  "0 < k \<Longrightarrow> achieves (wait_attempts cl n ns k) (\<lambda>es. \<exists>e \<in> set es. available_poll ns n e)"
proof (induction k)
  case (Suc k)
  let ?wait = "wait_attempts cl n ns"
  have *: "(\<forall>x t. ?wait (Suc k) s = (Inr x, t) \<longrightarrow> (\<exists>es. oc_log t = oc_log s @ es \<and> (\<exists>e \<in> set es. available_poll ns n e))) \<and>
      (\<forall>e t. ?wait (Suc k) s = (Inl e, t) \<longrightarrow> oc_status (Inl e) \<noteq> 0)" for s
  proof (cases "fst (cl (cluster s) (Oc (poll_args n ns) None))")
    case (OcDone rc out err)
    let ?ev = "(Oc (poll_args n ns) None, OcDone rc out err)"
    let ?s = "s\<lparr>cluster := snd (cl (cluster s) (Oc (poll_args n ns) None)), oc_log := oc_log s @ [?ev]\<rparr>"
    have run: "run_oc cl (poll_args n ns) None False s = (Inr (rc, out, err), ?s)"
      using OcDone by (simp add: run_oc_def bindP_def oc_issue_app)
    show ?thesis
    proof (cases "strip out = ''available''")
      case True
      with run have "?wait (Suc k) s = (Inr (), ?s)" by (simp add: bindP_app_Inr)
      with True show ?thesis by (auto simp: available_poll_def)
    next
      case False
      show ?thesis
      proof (cases "k = 0")
        case True
        let ?stop = "thenP (dump_oc cl [''get'', ''bmh'', n, ''-n'', ns, ''-o'', ''yaml'']) (raise (OcExit 1))"
        have "?wait (Suc k) s = ?stop ?s" using run False True by (simp add: bindP_app_Inr)
        moreover have "achieves ?stop (\<lambda>es. False)"
          unfolding achieves_def dump_oc_def run_oc_def
          by (auto simp: thenP_def bindP_def oc_issue_app oc_status_def split: oc_reply.splits)
        ultimately have "\<forall>x t. ?wait (Suc k) s \<noteq> (Inr x, t)"
            "\<forall>e t. ?wait (Suc k) s = (Inl e, t) \<longrightarrow> oc_status (Inl e) \<noteq> 0"
          unfolding achieves_def by metis+
        then show ?thesis by blast
      next
        case False
        let ?rest = "thenP (oc_issue cl (SleepFor AVAILABLE_DELAY)) (?wait k)"
        have eq: "?wait (Suc k) s = ?rest ?s" using run False \<open>strip out \<noteq> ''available''\<close> by (simp add: bindP_app_Inr)
        have "achieves (oc_issue cl (SleepFor AVAILABLE_DELAY)) (\<lambda>_. True)"
          by (simp add: achieves_def oc_issue_app)
        from achieves_then [OF this Suc.IH] False
        have "achieves ?rest (\<lambda>es. \<exists>a b. es = a @ b \<and> True \<and> (\<exists>e \<in> set b. available_poll ns n e))" by simp
        then have r: "achieves ?rest (\<lambda>es. \<exists>e \<in> set es. available_poll ns n e)"
          by (rule achieves_weaken) auto
        show ?thesis
        proof (intro conjI allI impI)
          fix x t
          assume "?wait (Suc k) s = (Inr x, t)"
          with r eq obtain es where "oc_log t = oc_log ?s @ es" "\<exists>e \<in> set es. available_poll ns n e"
            unfolding achieves_def by metis
          then show "\<exists>es. oc_log t = oc_log s @ es \<and> (\<exists>e \<in> set es. available_poll ns n e)"
            by (intro exI [of _ "?ev # es"]) auto
        next
          fix e t
          assume "?wait (Suc k) s = (Inl e, t)"
          with r eq show "oc_status (Inl e) \<noteq> 0" unfolding achieves_def by metis
        qed
      qed
    qed
  qed (simp_all add: run_oc_def bindP_def oc_issue_app oc_status_def)
  then show ?case unfolding achieves_def by blast
qed simp

text \<open>Polling and waiting are bounded: \<open>k\<close> attempts issue at most \<open>k\<close> polls and \<open>k - 1\<close> pauses.\<close>

definition pauses :: "(oc_cmd \<times> oc_reply) list \<Rightarrow> nat" where
  "pauses l = length (filter (\<lambda>e. fst e = SleepFor AVAILABLE_DELAY) l)"

definition polls :: "string \<Rightarrow> string \<Rightarrow> (oc_cmd \<times> oc_reply) list \<Rightarrow> nat" where
  "polls ns n l = length (filter (\<lambda>e. fst e = Oc (poll_args n ns) None) l)"

lemma bounded_bind:
  fixes m :: "('w, 'a) oc" and f :: "'a \<Rightarrow> ('w, 'b) oc"
  assumes "\<exists>a. oc_log (snd (m s)) = oc_log s @ a \<and> c a \<le> (i::nat)"
    and "\<And>x t. \<exists>b. oc_log (snd (f x t)) = oc_log t @ b \<and> c b \<le> j"
    and add: "\<And>a b. c (a @ b) = c a + c b"
  shows "\<exists>es. oc_log (snd (bindP m f s)) = oc_log s @ es \<and> c es \<le> i + j"
proof (cases "m s")
  case (Pair r t)
  with assms(1) obtain a where a: "oc_log t = oc_log s @ a" "c a \<le> i" by auto
  show ?thesis
  proof (cases r)
    case (Inl e)
    with Pair a show ?thesis by (auto simp: bindP_def intro: trans_le_add1)
  next
    case (Inr x)
    from assms(2) obtain b where "oc_log (snd (f x t)) = oc_log t @ b" "c b \<le> j" by blast
    with Pair Inr a show ?thesis by (intro exI [of _ "a @ b"]) (simp add: bindP_def add)
  qed
qed

lemma pauses_append: "pauses (a @ b) = pauses a + pauses b"
  by (simp add: pauses_def)

lemma pauses_run_oc: "\<exists>a. oc_log (snd (run_oc cl args x chk s)) = oc_log s @ a \<and> pauses a \<le> 0"
  by (cases "fst (cl (cluster s) (Oc args x))")
    (simp_all add: run_oc_def bindP_def oc_issue_app pauses_def)

lemma pauses_wait_attempts:
  "\<exists>es. oc_log (snd (wait_attempts cl n ns k s)) = oc_log s @ es \<and> pauses es \<le> k - 1"
proof (induction k arbitrary: s)
  case (Suc k)
  let ?f = "\<lambda>(rc, out, err).
       if strip out = ''available'' then ret ()
       else if k = 0
       then thenP (dump_oc cl [''get'', ''bmh'', n, ''-n'', ns, ''-o'', ''yaml'']) (raise (OcExit 1))
       else thenP (oc_issue cl (SleepFor AVAILABLE_DELAY)) (wait_attempts cl n ns k)"
  have step: "\<exists>b. oc_log (snd (?f y t)) = oc_log t @ b \<and> pauses b \<le> k" for y and t :: "'a oc_state"
  proof -
    have "\<exists>b. oc_log (snd (thenP (dump_oc cl args) (raise (OcExit 1)) t)) = oc_log t @ b \<and> pauses b \<le> 0" for args
      by (cases "fst (cl (cluster t) (Oc args None))")
        (simp_all add: dump_oc_def run_oc_def thenP_def bindP_def oc_issue_app pauses_def)
    moreover have "\<exists>b. oc_log (snd (thenP (oc_issue cl (SleepFor AVAILABLE_DELAY)) (wait_attempts cl n ns k) t)) = oc_log t @ b \<and>
        pauses b \<le> 1 + (k - 1)"
      unfolding thenP_def
      by (rule bounded_bind [OF _ Suc.IH pauses_append]) (simp add: oc_issue_app pauses_def)
    ultimately show ?thesis by (cases y) (auto simp: pauses_def)
  qed
  have "\<exists>es. oc_log (snd (bindP (run_oc cl (poll_args n ns) None False) ?f s)) = oc_log s @ es \<and> pauses es \<le> 0 + k"
    by (rule bounded_bind [OF _ step pauses_append]) (rule pauses_run_oc)
  then show ?case by simp
qed (simp add: pauses_def)

section \<open>Properties\<close>

text \<open>A cluster for the examples: it holds two hosts of the group and one other, and every host is
  available.\<close>

definition sample_cluster :: "unit oc_ext" where
  "sample_cluster w c =
     ((case c of
         Oc args stdin \<Rightarrow>
           if args ! 0 = ''get'' \<and> length args = 6 then OcDone 0 ''lab-0f lab-aa other-01'' ''''
           else if args ! 0 = ''get'' then OcDone 0 ''available'' ''''
           else OcDone 0 '''' ''''
       | SleepFor k \<Rightarrow> OcDone 0 '''' ''''), ())"

definition sample_fs :: fs where
  "sample_fs p = (if p = ''inv.json'' then Some (JsonFile (payload sample_inventory)) else None)"

definition oc_start :: "unit oc_state" where
  "oc_start = \<lparr>cluster = (), oc_log = []\<rparr>"

lemma sample_load: "load sample_fs ''inv.json'' = Inr sample_inventory"
  by (rule load_payload [where np = "''lab''"]) (simp_all add: sample_fs_def sample_inventory_def)

lemma sample_run:
  "fst (bmh_main sample_cluster sample_fs ''inv.json'' ''ns'' oc_start) = 0"
  "(Oc [''delete'', ''bmh'', ''lab-aa'', ''-n'', ''ns'', ''--ignore-not-found'', ''--wait=false''] None, OcDone 0 '''' '''')
     \<in> set (oc_log (snd (bmh_main sample_cluster sample_fs ''inv.json'' ''ns'' oc_start)))"
  by code_simp+

text \<open>
  Claim C3: the reconciler deletes nothing but its own stale hosts. In every run of \<open>main\<close>,
  whatever the cluster answers, an \<open>oc delete\<close> names either a BareMetalHost that follows the naming
  scheme of the inventory's prefix and that the inventory no longer lists, or the BMC Secret of
  such a host.
\<close>

theorem reconcile_deletes_only_stale:
  assumes "load f p = Inr iv" and "name_prefix iv = Some np" and "oc_log st = []"
    and "(Oc (''delete'' # kind # n # rest) stdin, r) \<in> set (oc_log (snd (bmh_main cl f p ns st)))"
  shows "\<exists>m. is_group_host_name m np \<and> m \<notin> host_names iv \<and>
    (kind = ''bmh'' \<and> n = m \<or> kind = ''secret'' \<and> n = m @ ''-bmc-secret'')"
proof -
  have names: "host_names iv = h_name ` set (hosts iv)" by (simp add: host_names_def)
  have "oc_log (snd (bmh_main cl f p ns st)) = oc_log (snd (reconcile_steps cl (hosts iv) np ns st))"
    if "f p \<noteq> None" using that assms(1,2) by (auto simp: bmh_main_def split: prod.split)
  moreover have "oc_log (snd (bmh_main cl f p ns st)) = []" if "f p = None"
    using that assms(3) by (simp add: bmh_main_def)
  ultimately have "(Oc (''delete'' # kind # n # rest) stdin, r) \<in>
      set (oc_log (snd (reconcile_steps cl (hosts iv) np ns st)))"
    using assms(4) by (cases "f p = None") auto
  from emits_from_empty [OF emits_reconcile_steps assms(3) this] names
  show ?thesis by (simp add: only_stale_deleted_def)
qed

theorem reconcile_deletes_only_stale_witness:
  "\<exists>m. is_group_host_name m ''lab'' \<and> m \<notin> host_names sample_inventory \<and> ''lab-aa'' = m"
proof -
  have "oc_log oc_start = []" by (simp add: oc_start_def)
  from reconcile_deletes_only_stale [OF sample_load sample_inventory_prefix(1) this sample_run(2)]
  show ?thesis by simp
qed

text \<open>
  Claim C4: finalizers are removed from terminating objects only. In every run, each patch that
  clears finalizers comes directly after a deletion of the same object that the cluster accepted,
  so no controller can re-add them.
\<close>

theorem finalizers_only_after_delete:
  assumes "oc_log st = []" and "i < length (oc_log (snd (bmh_main cl f p ns st)))"
    and "fst (oc_log (snd (bmh_main cl f p ns st)) ! i) = Oc (strip_args kind n ns') None"
  shows "0 < i \<and> (\<exists>out err. oc_log (snd (bmh_main cl f p ns st)) ! (i - 1) =
    (Oc (delete_args kind n ns') None, OcDone 0 out err))"
proof -
  have s: "strips_ok (oc_log st)" using assms(1) by (simp add: strips_ok_def)
  have steps: "strips_ok (oc_log (snd (reconcile_steps cl hs np ns st)))" for hs np
    using keepsD [OF keeps_reconcile_steps s] .
  have "strips_ok (oc_log (snd (bmh_main cl f p ns st)))"
    unfolding bmh_main_def using s steps
    by (auto split: sum.split option.split prod.split) (metis snd_conv)
  with assms(2,3) show ?thesis unfolding strips_ok_def by blast
qed

lemma sample_strip:
  "3 < length (oc_log (snd (bmh_main sample_cluster sample_fs ''inv.json'' ''ns'' oc_start)))"
  "fst (oc_log (snd (bmh_main sample_cluster sample_fs ''inv.json'' ''ns'' oc_start)) ! 3) =
     Oc (strip_args ''bmh'' ''lab-aa'' ''ns'') None"
  by code_simp+

theorem finalizers_only_after_delete_witness:
  "\<exists>out err. oc_log (snd (bmh_main sample_cluster sample_fs ''inv.json'' ''ns'' oc_start)) ! 2 =
    (Oc (delete_args ''bmh'' ''lab-aa'' ''ns'') None, OcDone 0 out err)"
proof -
  have "oc_log oc_start = []" by (simp add: oc_start_def)
  from finalizers_only_after_delete [OF this sample_strip] show ?thesis by simp
qed

lemma loud_run_oc: "fails_loudly (run_oc cl args stdin check)"
  by (rule achieves_weaken [OF achieves_run_oc]) simp

lemma loud_delete_stale: "fails_loudly (delete_stale_bmhs cl hs ns np)"
  unfolding delete_stale_bmhs_def list_managed_bmh_names_def strip_finalizers_def
  by (intro loud_bind loud_forP loud_then loud_run_oc loud_ret)
    (auto intro: loud_ret)

text \<open>
  Claim C5: exit status 0 means the hosts are there. If \<open>main\<close> exits with 0, its log splits into
  three parts: in the first the manifest of every inventory host was applied successfully, in the
  second every host was seen in the state \<open>available\<close>, in the third every host was labelled.
\<close>

theorem exit_zero_means_available:
  assumes "load f p = Inr iv" and "fst (bmh_main cl f p ns st) = 0"
  shows "\<exists>a b c. oc_log (snd (bmh_main cl f p ns st)) = oc_log st @ a @ b @ c \<and>
    (\<forall>h \<in> set (hosts iv).
       (\<exists>out err. (Oc [''apply'', ''-f'', ''-''] (Some (render_bmh_manifest h ns)), OcDone 0 out err) \<in> set a) \<and>
       (\<exists>e \<in> set b. available_poll ns (h_name h) e) \<and>
       (\<exists>out err. (Oc (label_args (h_name h) ns) None, OcDone 0 out err) \<in> set c))"
proof -
  let ?ap = "\<lambda>h e. \<exists>out err. e = (Oc [''apply'', ''-f'', ''-''] (Some (render_bmh_manifest h ns)), OcDone 0 out err)"
  let ?lb = "\<lambda>h e. \<exists>out err. e = (Oc (label_args (h_name h) ns) None, OcDone 0 out err)"
  let ?hs = "hosts iv"
  let ?all = "\<lambda>P es. \<forall>h \<in> set ?hs. \<exists>e \<in> set es. P h e"
  from assms obtain np where np: "f p \<noteq> None" "name_prefix iv = Some np"
    by (auto simp: bmh_main_def split: if_splits sum.splits option.splits)
  obtain r t where run: "reconcile_steps cl ?hs np ns st = (r, t)" by (cases "reconcile_steps cl ?hs np ns st")
  have main: "bmh_main cl f p ns st = (oc_status r, t)" using np assms(1) run by (auto simp: bmh_main_def)
  have ap: "achieves (create_bmhs cl ?hs ns) (?all ?ap)"
    unfolding create_bmhs_def
    by (intro achieves_forP achieves_weaken [OF achieves_run_oc_ignore]) blast
  have av: "achieves (wait_for_available cl ?hs ns) (?all (\<lambda>h. available_poll ns (h_name h)))"
    unfolding wait_for_available_def
    by (intro achieves_forP wait_attempts_achieves) (simp add: AVAILABLE_RETRIES_def)
  have lb: "achieves (label_bmhs cl ?hs ns) (?all ?lb)"
    unfolding label_bmhs_def
    by (intro achieves_forP achieves_weaken [OF achieves_run_oc_ignore]) blast
  have t: "fails_loudly (apply_namespace cl ns)"
    unfolding apply_namespace_def by (intro loud_bind loud_run_oc loud_ret)
  have all: "achieves (reconcile_steps cl ?hs np ns) (\<lambda>es. \<exists>d a b c. es = d @ a @ b @ c \<and>
      ?all ?ap a \<and> ?all (\<lambda>h. available_poll ns (h_name h)) b \<and> ?all ?lb c)"
    unfolding reconcile_steps_def
    by (rule achieves_weaken [OF achieves_then [OF t achieves_then [OF loud_delete_stale
            achieves_then [OF ap achieves_then [OF av lb]]]]]) (metis append.assoc)
  have "r = Inr ()"
  proof (cases r)
    case (Inl e)
    with all run have "oc_status r \<noteq> 0" unfolding achieves_def by metis
    with main assms(2) show ?thesis by simp
  qed simp
  with run have "reconcile_steps cl ?hs np ns st = (Inr (), t)" by simp
  from achievesD [OF all this] obtain es d a b c where es: "oc_log t = oc_log st @ es"
      and abc: "es = d @ a @ b @ c" "?all ?ap a"
      "?all (\<lambda>h. available_poll ns (h_name h)) b" "?all ?lb c" by (elim exE conjE)
  show ?thesis unfolding main
  proof (rule exI [of _ "d @ a"], rule exI [of _ b], rule exI [of _ c], intro conjI ballI)
    show "oc_log (snd (oc_status r, t)) = oc_log st @ (d @ a) @ b @ c" using es abc(1) by simp
  next
    fix h assume "h \<in> set ?hs"
    with abc(2) obtain out err where
      "(Oc [''apply'', ''-f'', ''-''] (Some (render_bmh_manifest h ns)), OcDone 0 out err) \<in> set a" by metis
    then show "\<exists>out err. (Oc [''apply'', ''-f'', ''-''] (Some (render_bmh_manifest h ns)), OcDone 0 out err) \<in> set (d @ a)"
      by auto
  next
    fix h assume "h \<in> set ?hs"
    with abc(3) show "\<exists>e \<in> set b. available_poll ns (h_name h) e" by blast
  next
    fix h assume "h \<in> set ?hs"
    with abc(4) show "\<exists>out err. (Oc (label_args (h_name h) ns) None, OcDone 0 out err) \<in> set c"
      by fast
  qed
qed

theorem exit_zero_means_available_witness:
  "\<exists>a b c. oc_log (snd (bmh_main sample_cluster sample_fs ''inv.json'' ''ns'' oc_start)) = a @ b @ c \<and>
    (\<exists>e \<in> set b. available_poll ''ns'' ''lab-0f'' e)"
proof -
  have h: "oc_log oc_start = []" "sample_host \<in> set (hosts sample_inventory)" "h_name sample_host = ''lab-0f''"
    by (simp_all add: oc_start_def sample_inventory_def sample_host_def)
  from exit_zero_means_available [OF sample_load sample_run(1)] obtain a b c where
      log: "oc_log (snd (bmh_main sample_cluster sample_fs ''inv.json'' ''ns'' oc_start)) = oc_log oc_start @ a @ b @ c"
      and "\<exists>e \<in> set b. available_poll ''ns'' (h_name sample_host) e"
    using h(2) by blast
  then show ?thesis unfolding h(1,3) append_Nil by blast
qed

text \<open>
  Waiting is bounded. Whatever the cluster answers, waiting for the hosts to become
  available pauses at most 119 times per host (119 pauses of 10 seconds between 120 polls), and
  then either returns or raises.
\<close>

theorem wait_for_available_bounded:
  "\<exists>es. oc_log (snd (wait_for_available cl hs ns st)) = oc_log st @ es \<and> pauses es \<le> 119 * length hs"
proof -
  have "\<exists>es. oc_log (snd (forP (\<lambda>h. wait_attempts cl (h_name h) ns AVAILABLE_RETRIES) hs s)) = oc_log s @ es \<and>
      pauses es \<le> 119 * length hs" for s
  proof (induction hs arbitrary: s)
    case (Cons h hs)
    have "\<exists>es. oc_log (snd (wait_attempts cl (h_name h) ns AVAILABLE_RETRIES s)) = oc_log s @ es \<and> pauses es \<le> 119"
      using pauses_wait_attempts [where k = AVAILABLE_RETRIES] by (simp add: AVAILABLE_RETRIES_def)
    then have "\<exists>es. oc_log (snd (bindP (wait_attempts cl (h_name h) ns AVAILABLE_RETRIES)
          (\<lambda>_. forP (\<lambda>h. wait_attempts cl (h_name h) ns AVAILABLE_RETRIES) hs) s)) = oc_log s @ es \<and>
        pauses es \<le> 119 + 119 * length hs"
      by (rule bounded_bind [OF _ _ pauses_append]) (rule Cons.IH)
    then show ?case by (simp add: thenP_def)
  qed (simp add: pauses_def)
  then show ?thesis unfolding wait_for_available_def by blast
qed

text \<open>The lines of a text, and those of the manifest of a host.\<close>

lemma split_unlines:
  "(\<And>l. l \<in> set ls \<Longrightarrow> CHR 0x0A \<notin> set l) \<Longrightarrow> split_on (CHR 0x0A) (unlines ls) = ls @ [[]]"
proof (induction ls)
  case (Cons l ls)
  have app: "CHR 0x0A \<notin> set l \<Longrightarrow> split_on (CHR 0x0A) (l @ CHR 0x0A # s) = l # split_on (CHR 0x0A) s" for l s
    by (induction l) auto
  show ?case using Cons app [of l "unlines ls"] by (simp add: unlines_def)
qed (simp add: unlines_def)

lemma json_quote_one_line: "CHR 0x0A \<notin> set (json_quote s)"
  using json_quote_printable [of "CHR 0x0A" s] by (auto simp: code_def)

text \<open>
  Credentials are data, never YAML. For a host whose name, MAC and BMC address have no line
  break, the manifest has exactly the 28 lines of its template whatever the user name and the password
  are; the eleventh and twelfth carry the credentials as one quoted scalar each, and the decoding of
  that scalar gives back the credential exactly.
\<close>

theorem credentials_stay_scalars:
  assumes "\<forall>w \<in> {h_name h, h_boot_mac h, h_bmc_address h, ns}. CHR 0x0A \<notin> set w"
  shows "split_on (CHR 0x0A) (render_bmh_manifest h ns) = bmh_manifest_lines h ns @ [[]] \<and>
    length (bmh_manifest_lines h ns) = 28 \<and>
    (\<exists>u. bmh_manifest_lines h ns ! 10 = ''  username: '' @ u \<and> json_unquote u = Some (h_bmc_username h, [])) \<and>
    (\<exists>w. bmh_manifest_lines h ns ! 11 = ''  password: '' @ w \<and> json_unquote w = Some (h_bmc_password h, []))"
proof (intro conjI)
  show "split_on (CHR 0x0A) (render_bmh_manifest h ns) = bmh_manifest_lines h ns @ [[]]"
    unfolding render_bmh_manifest_def using assms json_quote_one_line
    by (intro split_unlines) (auto simp: bmh_manifest_lines_def dq_def)
qed (simp_all add: bmh_manifest_lines_def json_unquote_quote [where t = "[]", simplified])

theorem credentials_stay_scalars_witness:
  "length (split_on (CHR 0x0A) (render_bmh_manifest (sample_host\<lparr>h_bmc_password := CHR 0x0A # ''a: b''\<rparr>) ''ns'')) = 29"
proof -
  let ?h = "sample_host\<lparr>h_bmc_password := CHR 0x0A # ''a: b''\<rparr>"
  have "\<forall>w \<in> {h_name ?h, h_boot_mac ?h, h_bmc_address ?h, ''ns''}. CHR 0x0A \<notin> set w"
    by (simp add: sample_host_def)
  from credentials_stay_scalars [OF this] show ?thesis by simp
qed

end
