(* ===== verification/PyDyn.thy ===== *)
theory PyDyn
  imports Json
begin

text \<open>
  Dynamically typed access to JSON documents, with the exceptions Python raises when a document
  does not have the expected shape. A missing key read with \<open>get\<close> is \<open>None\<close>, hence \<open>JNull\<close>.
\<close>

datatype py_error = KeyErr | TypeErr | ValueErr | AttrErr | IndexErr

definition as_str :: "json \<Rightarrow> string option" where
  "as_str j = (case j of JStr s \<Rightarrow> Some s | _ \<Rightarrow> None)"

definition is_str :: "json \<Rightarrow> bool" where
  "is_str j \<longleftrightarrow> as_str j \<noteq> None"

text \<open>\<open>x.get(k)\<close>, \<open>x[k]\<close> for a key, \<open>x[0]\<close>, iteration over \<open>x\<close>, and \<open>x or y\<close>.\<close>

definition obj_get :: "(string \<times> json) list \<Rightarrow> string \<Rightarrow> json" where
  "obj_get kvs k = (case map_of kvs k of None \<Rightarrow> JNull | Some v \<Rightarrow> v)"

definition d_get :: "json \<Rightarrow> string \<Rightarrow> py_error + json" where
  "d_get j k = (case j of JObj kvs \<Rightarrow> Inr (obj_get kvs k) | _ \<Rightarrow> Inl AttrErr)"

definition d_key :: "json \<Rightarrow> string \<Rightarrow> py_error + json" where
  "d_key j k = (case j of JObj kvs \<Rightarrow> (case map_of kvs k of None \<Rightarrow> Inl KeyErr | Some v \<Rightarrow> Inr v)
     | _ \<Rightarrow> Inl TypeErr)"

definition d_items :: "json \<Rightarrow> py_error + json list" where
  "d_items j = (case j of JArr js \<Rightarrow> Inr js
     | JObj kvs \<Rightarrow> Inr (map (\<lambda>kv. JStr (fst kv)) kvs)
     | JStr s \<Rightarrow> Inr (map (\<lambda>c. JStr [c]) s)
     | _ \<Rightarrow> Inl TypeErr)"

definition d_first :: "json \<Rightarrow> py_error + json" where
  "d_first j = (case j of
       JArr js \<Rightarrow> (case js of [] \<Rightarrow> Inl IndexErr | x # _ \<Rightarrow> Inr x)
     | JStr s \<Rightarrow> (case s of [] \<Rightarrow> Inl IndexErr | c # _ \<Rightarrow> Inr (JStr [c]))
     | JObj _ \<Rightarrow> Inl KeyErr
     | _ \<Rightarrow> Inl TypeErr)"

definition d_len :: "json \<Rightarrow> py_error + nat" where
  "d_len j = bindE (d_items j) (\<lambda>js. Inr (length js))"

definition d_or :: "json \<Rightarrow> json \<Rightarrow> json" where
  "d_or a b = (if truthy a then a else b)"

text \<open>\<open>x in {a, b, ...}\<close> for a set of texts: a list or an object is not hashable.\<close>

definition d_in_texts :: "json \<Rightarrow> string list \<Rightarrow> py_error + bool" where
  "d_in_texts j ws = (case j of JStr s \<Rightarrow> Inr (s \<in> set ws) | JArr _ \<Rightarrow> Inl TypeErr | JObj _ \<Rightarrow> Inl TypeErr
     | _ \<Rightarrow> Inr False)"

text \<open>\<open>int(s)\<close> for a text: optional sign, ASCII digits, single underscores between digits.\<close>

definition int_of_str :: "string \<Rightarrow> int option" where
  "int_of_str s =
     (let t = strip s;
          (sgn, body) = (case t of [] \<Rightarrow> (1, t)
            | c # r \<Rightarrow> if c = CHR ''-'' then (-1, r) else if c = CHR ''+'' then (1, r) else (1, t));
          parts = split_on (CHR ''_'') body
      in if list_all (\<lambda>p. p \<noteq> [] \<and> list_all is_digit p) parts
         then Some (sgn * int (digits_val (concat parts))) else None)"

text \<open>\<open>int(x)\<close>. The value of a JSON number that is not an integer is \<open>trunc\<close> of its text
  (\<open>None\<close> for an infinity or a not-a-number, for which Python raises too).\<close>

definition d_int :: "(string \<Rightarrow> int option) \<Rightarrow> json \<Rightarrow> py_error + int" where
  "d_int trunc j = (case j of
       JInt i \<Rightarrow> Inr i
     | JBool b \<Rightarrow> Inr (if b then 1 else 0)
     | JStr s \<Rightarrow> (case int_of_str s of None \<Rightarrow> Inl ValueErr | Some i \<Rightarrow> Inr i)
     | JFloat x \<Rightarrow> (case trunc x of None \<Rightarrow> Inl ValueErr | Some i \<Rightarrow> Inr i)
     | _ \<Rightarrow> Inl TypeErr)"

text \<open>A member of a set must be hashable; \<open>True\<close> and \<open>1\<close> are the same member.\<close>

definition hashable :: "json \<Rightarrow> py_error + json" where
  "hashable j = (case j of JArr _ \<Rightarrow> Inl TypeErr | JObj _ \<Rightarrow> Inl TypeErr | _ \<Rightarrow> Inr j)"

definition py_key :: "json \<Rightarrow> json" where
  "py_key j = (case j of JBool b \<Rightarrow> JInt (if b then 1 else 0) | _ \<Rightarrow> j)"

definition member :: "json \<Rightarrow> json list \<Rightarrow> bool" where
  "member j xs \<longleftrightarrow> py_key j \<in> py_key ` set xs"

lemma hashable_Inr: "hashable j = Inr k \<Longrightarrow> k = j"
  by (cases j) (simp_all add: hashable_def)

text \<open>The text of a value in an f-string; \<open>repr\<close> is the text of a number with a fraction, a list or an object.\<close>

definition d_text :: "(json \<Rightarrow> string) \<Rightarrow> json \<Rightarrow> string" where
  "d_text repr j = (case j of JStr s \<Rightarrow> s | JInt i \<Rightarrow> show_int i | JNull \<Rightarrow> ''None''
     | JBool b \<Rightarrow> (if b then ''True'' else ''False'') | _ \<Rightarrow> repr j)"

lemma d_get_Inr_iff: "d_get j k = Inr v \<longleftrightarrow> (\<exists>kvs. j = JObj kvs \<and> v = obj_get kvs k)"
  by (auto simp: d_get_def split: json.splits)

lemma d_items_JArr [simp]: "d_items (JArr js) = Inr js"
  by (simp add: d_items_def)

text \<open>An insertion-ordered \<open>dict\<close> as an association list: assignment keeps the place of a key.\<close>

fun dict_set :: "'k \<Rightarrow> 'v \<Rightarrow> ('k \<times> 'v) list \<Rightarrow> ('k \<times> 'v) list" where
  "dict_set k v [] = [(k, v)]"
| "dict_set k v ((k', v') # d) = (if k' = k then (k, v) # d else (k', v') # dict_set k v d)"

text \<open>\<open>d.setdefault(k, []).append(v)\<close>\<close>

definition dict_append :: "'k \<Rightarrow> 'v \<Rightarrow> ('k \<times> 'v list) list \<Rightarrow> ('k \<times> 'v list) list" where
  "dict_append k v d = dict_set k ((case map_of d k of None \<Rightarrow> [] | Some vs \<Rightarrow> vs) @ [v]) d"

lemma map_of_dict_set: "map_of (dict_set k v d) = (map_of d)(k \<mapsto> v)"
  by (induction k v d rule: dict_set.induct) (auto simp: fun_eq_iff)

lemma keys_dict_set: "set (map fst (dict_set k v d)) = insert k (set (map fst d))"
  by (induction k v d rule: dict_set.induct) auto

lemma distinct_dict_set: "distinct (map fst d) \<Longrightarrow> distinct (map fst (dict_set k v d))"
  by (induction k v d rule: dict_set.induct) (auto simp: keys_dict_set simp del: set_map)

lemma map_of_dict_append:
  "map_of (dict_append k v d) k' =
     (if k' = k then Some ((case map_of d k of None \<Rightarrow> [] | Some vs \<Rightarrow> vs) @ [v]) else map_of d k')"
  by (simp add: dict_append_def map_of_dict_set)

lemma distinct_dict_append: "distinct (map fst d) \<Longrightarrow> distinct (map fst (dict_append k v d))"
  unfolding dict_append_def by (rule distinct_dict_set)

section \<open>Dictionaries as finite maps\<close>

text \<open>
  What the components rely on when they keep a Python \<open>dict\<close>: reading after writing, distinct keys.
  The lemmas about building a dictionary in a loop are proved from these laws.
\<close>

locale py_dict =
  fixes look :: "'d \<Rightarrow> 'k \<Rightarrow> 'v option"
    and set_item :: "'k \<Rightarrow> 'v \<Rightarrow> 'd \<Rightarrow> 'd"
    and wf :: "'d \<Rightarrow> bool"
  assumes look_set: "look (set_item k v d) k' = (if k' = k then Some v else look d k')"
    and wf_set: "wf d \<Longrightarrow> wf (set_item k v d)"
begin

lemma wf_fold: "wf d \<Longrightarrow> wf (fold (\<lambda>x. set_item (key x) (val x)) xs d)"
  by (induction xs arbitrary: d) (auto simp: wf_set)

lemma look_fold_other: "k \<notin> key ` set xs \<Longrightarrow> look (fold (\<lambda>x. set_item (key x) (val x)) xs d) k = look d k"
  by (induction xs arbitrary: d) (auto simp: look_set)

lemma look_fold_distinct:
  "distinct (map key xs) \<Longrightarrow> x \<in> set xs \<Longrightarrow>
   look (fold (\<lambda>x. set_item (key x) (val x)) xs d) (key x) = Some (val x)"
  by (induction xs arbitrary: d) (auto simp: look_set look_fold_other)

end

definition distinct_keys :: "('k \<times> 'v) list \<Rightarrow> bool" where
  "distinct_keys d \<longleftrightarrow> distinct (map fst d)"

interpretation pyd: py_dict map_of dict_set distinct_keys
  by unfold_locales (auto simp: map_of_dict_set distinct_keys_def distinct_dict_set)

end
