(* ===== verification/OcpUplink.thy ===== *)
theory OcpUplink
  imports PyDyn Xml
begin

text \<open>
  \<^verbatim>\<open>infra/netris/scripts/ocp_uplink.py\<close>: finding the fabric port of a single-node OpenShift VM and
  attaching it to its Netris VNet.

  Outside the process are the commands it runs (virsh, ssh) and the Netris controller's HTTP API;
  both are the parameter \<open>ext\<close>, which answers in a world of any type \<open>'w\<close>. The state keeps the world
  and the log of requests with their answers. The record \<open>lib\<close> holds what the script takes from
  parsers that it does not define (regular expressions given by the user, shell words, IP addresses,
  XML) and from its environment.
\<close>

section \<open>Requests, state, library\<close>

datatype up_cmd =
    RunCmd "string list" nat                      \<comment> \<open>argv and timeout\<close>
  | Http string string "json option"              \<comment> \<open>method, path, body\<close>

datatype up_reply =
    CmdDone int string string                     \<comment> \<open>exit code, standard output, standard error\<close>
  | CmdFailed                                     \<comment> \<open>not runnable, or timed out\<close>
  | HttpDoc json                                  \<comment> \<open>the decoded body\<close>
  | HttpEmpty
  | HttpFailed                                    \<comment> \<open>\<open>OSError\<close>, or the body is not JSON\<close>

text \<open>\<open>UplinkError\<close> and the exceptions of Python's own that the code can raise.\<close>

datatype up_exn = UplinkError | PyErr py_error

record 'w up_state =
  lab :: 'w
  up_log :: "(up_cmd \<times> up_reply) list"

type_synonym ('w, 'a) up = "('w up_state, up_exn, 'a) prog"
type_synonym 'w up_ext = "'w \<Rightarrow> up_cmd \<Rightarrow> up_reply \<times> 'w"

record up_lib =
  l_compile :: "string \<Rightarrow> char rx option"          \<comment> \<open>\<open>re.compile\<close> of a user's pattern\<close>
  l_shlex :: "string \<Rightarrow> string list option"        \<comment> \<open>\<open>shlex.split\<close>\<close>
  l_ip :: "string \<Rightarrow> string option"                \<comment> \<open>\<open>str(ipaddress.ip_address(s))\<close>\<close>
  l_xml :: "string \<Rightarrow> xml option"                  \<comment> \<open>\<open>ET.fromstring\<close>\<close>
  l_trunc :: "string \<Rightarrow> int option"                \<comment> \<open>\<open>int\<close> of a non-integer JSON number\<close>
  l_read :: "string \<Rightarrow> string option"              \<comment> \<open>the text of a file, if it is one\<close>
  l_cookie :: string                               \<comment> \<open>\<open>NETRIS_SESSION_COOKIE\<close>\<close>

definition up_issue :: "'w up_ext \<Rightarrow> up_cmd \<Rightarrow> ('w, up_reply) up" where
  "up_issue ext c st =
     (case ext (lab st) c of (r, w) \<Rightarrow> (Inr r, st\<lparr>lab := w, up_log := up_log st @ [(c, r)]\<rparr>))"

definition uplink_error :: "('w, 'a) up" where
  "uplink_error = raise UplinkError"

text \<open>An exception of the pure part.\<close>

definition py :: "py_error + 'a \<Rightarrow> ('w, 'a) up" where
  "py r = (case r of Inl e \<Rightarrow> raise (PyErr e) | Inr x \<Rightarrow> ret x)"

definition guard :: "bool \<Rightarrow> ('w, unit) up" where
  "guard b = (if b then ret () else uplink_error)"

section \<open>Patterns\<close>

definition hex_char :: "char \<Rightarrow> bool" where
  "hex_char c \<longleftrightarrow> is_digit c \<or> in_range (CHR ''a'') (CHR ''f'') c"

definition MAC_PATTERN :: "char rx" where
  "MAC_PATTERN = Seq (Rep True 2 (Some 2) (Cls hex_char))
     (Rep True 5 (Some 5) (Seq (Lit '':'') (Rep True 2 (Some 2) (Cls hex_char))))"

definition iface_char :: "char \<Rightarrow> bool" where
  "iface_char c \<longleftrightarrow> is_alnum c \<or> c \<in> set ''_.:-''"

definition IFACE_PATTERN :: "char rx" where
  "IFACE_PATTERN = Plus (Cls iface_char)"

definition ALIAS_PATTERN :: "char rx" where
  "ALIAS_PATTERN = Seqs [Lit ''alias'', Plus (Cls str_space),
     Grp 1 (Plus (Cls (\<lambda>c. \<not> str_space c))), Lit ''='',
     Grp 2 (Cls (\<lambda>c. c \<in> {CHR 0x27, CHR 0x22})),
     Grp 3 (Star (Cls (\<lambda>c. c \<noteq> CHR 0x0A))), Backref 2]"

definition mac_address :: "string \<Rightarrow> up_exn + string" where
  "mac_address value =
     (let v = lower (strip value)
      in if rx_fullmatch MAC_PATTERN v = None then Inl UplinkError else Inr v)"

section \<open>Commands\<close>

definition up_run :: "'w up_ext \<Rightarrow> string list \<Rightarrow> nat \<Rightarrow> ('w, string) up" where
  "up_run ext argv timeout =
     bindP (up_issue ext (RunCmd argv timeout)) (\<lambda>r. case r of
         CmdDone rc out err \<Rightarrow> if rc \<noteq> 0 then uplink_error else ret out
       | _ \<Rightarrow> uplink_error)"

definition ssh :: "'w up_ext \<Rightarrow> string \<Rightarrow> string \<Rightarrow> string \<Rightarrow> string \<Rightarrow> ('w, string) up" where
  "ssh ext host user key command = up_run ext
     [''ssh'', ''-o'', ''BatchMode=yes'', ''-o'', ''PasswordAuthentication=no'',
      ''-o'', ''StrictHostKeyChecking=no'', ''-o'', ''UserKnownHostsFile=/dev/null'',
      ''-o'', ''ConnectTimeout=5'', ''-i'', key, user @ ''@'' @ host, command] 12"

text \<open>The alias of one line, if it is one: \<open>destination.rsplit("@", 1)[1]\<close> is what follows the last \<open>@\<close>.\<close>

definition alias_entry :: "up_lib \<Rightarrow> string \<Rightarrow> (string \<times> string) option" where
  "alias_entry lb line =
     (let s = strip line in
      case rx_fullmatch ALIAS_PATTERN s of
        None \<Rightarrow> None
      | Some m \<Rightarrow>
          (case l_shlex lb (m_group s m 3) of
             None \<Rightarrow> None
           | Some ws \<Rightarrow>
               if ws = [] then None
               else (let parts = split_on (CHR ''@'') (last ws)
                     in if length parts < 2 then None
                        else (case l_ip lb (last parts) of
                                None \<Rightarrow> None
                              | Some a \<Rightarrow> Some (m_group s m 1, a)))))"

definition aliases :: "up_lib \<Rightarrow> string \<Rightarrow> (string \<times> string) list" where
  "aliases lb p =
     (case l_read lb p of
        None \<Rightarrow> []
      | Some text \<Rightarrow>
          fold (\<lambda>line found. case alias_entry lb line of None \<Rightarrow> found | Some (n, a) \<Rightarrow> dict_set n a found)
            (lines_of text) [])"

text \<open>\<open>api_request\<close>: the cookie check, the request, and the checks on the answer. A missing \<open>data\<close>
  field of a PUT is \<open>None\<close>.\<close>

definition api_request :: "up_lib \<Rightarrow> 'w up_ext \<Rightarrow> string \<Rightarrow> string \<Rightarrow> json option \<Rightarrow> ('w, json) up" where
  "api_request lb ext path meth body =
     thenP (guard (l_cookie lb \<noteq> []))
    (bindP (up_issue ext (Http meth path body)) (\<lambda>r.
     bindP (case r of HttpDoc d \<Rightarrow> ret d | HttpEmpty \<Rightarrow> ret (JObj []) | _ \<Rightarrow> uplink_error) (\<lambda>result.
     case result of
       JObj kvs \<Rightarrow>
         if obj_get kvs ''isSuccess'' = JBool False then uplink_error
         else if meth = ''GET'' \<and> map_of kvs ''data'' = None then uplink_error
         else ret (obj_get kvs ''data'')
     | _ \<Rightarrow> uplink_error)))"

definition api_list :: "up_lib \<Rightarrow> 'w up_ext \<Rightarrow> string \<Rightarrow> ('w, json list) up" where
  "api_list lb ext path =
     bindP (api_request lb ext path ''GET'' None) (\<lambda>data.
       case data of JArr items \<Rightarrow> if list_all is_obj items then ret items else uplink_error
       | _ \<Rightarrow> uplink_error)"

definition vm_names :: "up_lib \<Rightarrow> 'w up_ext \<Rightarrow> string \<Rightarrow> ('w, string list \<times> string) up" where
  "vm_names lb ext pattern =
     (case l_compile lb pattern of
        None \<Rightarrow> uplink_error
      | Some r \<Rightarrow>
          bindP (up_run ext [''virsh'', ''list'', ''--all'', ''--name''] 30) (\<lambda>out.
            let names = filter (\<lambda>n. n \<noteq> []) (lines_of out);
                matches = filter (\<lambda>n. rx_search r n \<noteq> None) names
            in if length matches \<noteq> 1 then uplink_error else ret (names, hd matches)))"

section \<open>Adapters and links\<close>

record adapter =
  ad_mac :: string
  ad_local :: "string \<times> string"
  ad_remote :: "string \<times> string"

definition non_empty :: "string option \<Rightarrow> bool" where
  "non_empty x \<longleftrightarrow> x \<noteq> None \<and> x \<noteq> Some []"

definition read_adapter :: "xml \<Rightarrow> up_exn + adapter" where
  "read_adapter interface =
     (case (find_kid ''mac'' interface, find_kid ''source'' interface) of
        (Some mac, Some source) \<Rightarrow>
          (case find_kid ''local'' source of
             None \<Rightarrow> Inl UplinkError
           | Some loc \<Rightarrow>
               if list_all non_empty [xattr ''address'' source, xattr ''port'' source,
                    xattr ''address'' loc, xattr ''port'' loc]
               then bindE (mac_address (case xattr ''address'' mac of None \<Rightarrow> [] | Some a \<Rightarrow> a)) (\<lambda>m.
                      Inr \<lparr>ad_mac = m,
                           ad_local = (the (xattr ''address'' loc), the (xattr ''port'' loc)),
                           ad_remote = (the (xattr ''address'' source), the (xattr ''port'' source))\<rparr>)
               else Inl UplinkError)
      | _ \<Rightarrow> Inl UplinkError)"

text \<open>\<open>root.findall("./devices/interface[@type='udp']")\<close>\<close>

definition udp_elements :: "xml \<Rightarrow> xml list" where
  "udp_elements root =
     filter (\<lambda>e. xattr ''type'' e = Some ''udp'')
       (concat (map (kids_named ''interface'') (kids_named ''devices'' root)))"

definition udp_interfaces :: "up_lib \<Rightarrow> 'w up_ext \<Rightarrow> string \<Rightarrow> ('w, adapter list) up" where
  "udp_interfaces lb ext vm =
     bindP (up_run ext [''virsh'', ''dumpxml'', ''--inactive'', vm] 30) (\<lambda>out.
       case l_xml lb out of
         None \<Rightarrow> uplink_error
       | Some root \<Rightarrow> liftP (mapE read_adapter (udp_elements root)))"

definition leaf_mac :: "'w up_ext \<Rightarrow> string \<Rightarrow> string \<Rightarrow> string \<Rightarrow> ('w, string) up" where
  "leaf_mac ext host key interface =
     (if rx_fullmatch IFACE_PATTERN interface = None then uplink_error
      else bindP (ssh ext host ''cumulus'' key (''cat /sys/class/net/'' @ interface @ ''/address''))
             (\<lambda>out. liftP (mac_address out)))"

record peer =
  p_leaf_endpoint :: string
  p_leaf_vm :: string
  p_leaf_interface :: string
  p_underlay :: string

definition server_port_rx :: "string \<Rightarrow> char rx" where
  "server_port_rx vm = Seqs [Lit ''eth'', Plus (Cls is_digit), Lit (''@'' @ vm)]"

definition leaf_endpoint_rx :: "char rx" where
  "leaf_endpoint_rx = Seqs [Grp 1 (Plus (Cls (\<lambda>c. c \<noteq> CHR ''@''))), Lit ''@'',
     Grp 2 (Seq (Lit ''ns-leaf-'') (Plus (Cls (\<lambda>c. c \<noteq> CHR ''@''))))]"

text \<open>One orientation of one link: the server port and its peer, if it is a North-South link of the VM.\<close>

definition link_peer :: "string \<Rightarrow> json \<Rightarrow> json \<times> json \<Rightarrow> up_exn + (string \<times> peer) option" where
  "link_peer vm underlay ends =
     (case ends of
        (JStr server_port, JStr leaf_endpoint) \<Rightarrow>
          (case (rx_fullmatch (server_port_rx vm) server_port, rx_fullmatch leaf_endpoint_rx leaf_endpoint) of
             (Some _, Some lm) \<Rightarrow>
               (case d_in_texts underlay [''enabled'', ''disabled''] of
                  Inl e \<Rightarrow> Inl (PyErr e)
                | Inr False \<Rightarrow> Inl UplinkError
                | Inr True \<Rightarrow>
                    Inr (Some (server_port,
                      \<lparr>p_leaf_endpoint = leaf_endpoint, p_leaf_vm = m_group leaf_endpoint lm 2,
                       p_leaf_interface = m_group leaf_endpoint lm 1,
                       p_underlay = the (as_str underlay)\<rparr>)))
           | _ \<Rightarrow> Inr None)
      | _ \<Rightarrow> Inr None)"

definition add_peer ::
  "string \<Rightarrow> json \<Rightarrow> (string \<times> peer list) list \<Rightarrow> json \<times> json \<Rightarrow> up_exn + (string \<times> peer list) list" where
  "add_peer vm underlay found ends =
     bindE (link_peer vm underlay ends) (\<lambda>r. case r of None \<Rightarrow> Inr found
       | Some (port, p) \<Rightarrow> Inr (dict_append port p found))"

definition add_link :: "string \<Rightarrow> (string \<times> peer list) list \<Rightarrow> json \<Rightarrow> up_exn + (string \<times> peer list) list" where
  "add_link vm found link =
     (case (jget link ''local'', jget link ''remote'') of
        (Some (JObj loc), Some (JObj rem)) \<Rightarrow>
          (let a = obj_get loc ''name''; b = obj_get rem ''name'';
               underlay = (case jget link ''underlay'' of None \<Rightarrow> JNull | Some u \<Rightarrow> u)
           in foldE (add_peer vm underlay) found [(a, b), (b, a)])
      | _ \<Rightarrow> Inr found)"

definition north_south_links :: "json list \<Rightarrow> string \<Rightarrow> up_exn + (string \<times> peer) list" where
  "north_south_links links vm =
     bindE (foldE (add_link vm) [] links) (\<lambda>found.
       if found = [] then Inl UplinkError
       else if list_all (\<lambda>(port, peers). length peers = 1) found
       then Inr (map (\<lambda>(port, peers). (port, hd peers)) found)
       else Inl UplinkError)"

section \<open>Verified uplinks\<close>

record uplink =
  u_guest_mac :: string
  u_leaf_port :: string
  u_underlay :: string

text \<open>\<open>(mgmtAddress or known_ips.get(leaf_vm))\<close>, then the text before \<open>/\<close> as an IP address.\<close>

definition leaf_address :: "up_lib \<Rightarrow> json list \<Rightarrow> (string \<times> string) list \<Rightarrow> string \<Rightarrow> up_exn + string" where
  "leaf_address lb devices known_ips leaf_vm =
     (let matching = filter (\<lambda>d. jget d ''name'' = Some (JStr leaf_vm)) devices
      in if length matching \<noteq> 1 then Inl UplinkError
         else (let mgmt = (case jget (hd matching) ''mgmtAddress'' of None \<Rightarrow> JNull | Some v \<Rightarrow> v);
                   address = (if truthy mgmt then mgmt
                              else case map_of known_ips leaf_vm of None \<Rightarrow> JNull | Some a \<Rightarrow> JStr a)
               in if \<not> truthy address then Inl UplinkError
                  else (case address of
                          JStr a \<Rightarrow> (case l_ip lb (hd (split_on (CHR ''/'') a)) of
                             None \<Rightarrow> Inl UplinkError | Some ip \<Rightarrow> Inr ip)
                        | _ \<Rightarrow> Inl (PyErr AttrErr))))"

record leaf_cache =
  lc_ips :: "(string \<times> string) list"
  lc_adapters :: "(string \<times> adapter list) list"

definition fetch_leaf ::
  "up_lib \<Rightarrow> 'w up_ext \<Rightarrow> json list \<Rightarrow> (string \<times> string) list \<Rightarrow> string \<Rightarrow> leaf_cache \<Rightarrow> ('w, leaf_cache) up" where
  "fetch_leaf lb ext devices known_ips leaf_vm cache =
     (case map_of (lc_ips cache) leaf_vm of
        Some _ \<Rightarrow> ret cache
      | None \<Rightarrow>
          bindP (liftP (leaf_address lb devices known_ips leaf_vm)) (\<lambda>ip.
          bindP (udp_interfaces lb ext leaf_vm) (\<lambda>ads.
          ret \<lparr>lc_ips = dict_set leaf_vm ip (lc_ips cache), lc_adapters = dict_set leaf_vm ads (lc_adapters cache)\<rparr>)))"

text \<open>The reverse libvirt tunnels of a leaf port with the given MAC.\<close>

definition tunnel_peers :: "adapter list \<Rightarrow> adapter list \<Rightarrow> string \<Rightarrow> (adapter \<times> adapter) list" where
  "tunnel_peers snos leaves mac =
     filter (\<lambda>(sno, leaf). ad_mac leaf = mac \<and> ad_local sno = ad_remote leaf \<and> ad_remote sno = ad_local leaf)
       (concat (map (\<lambda>sno. map (\<lambda>leaf. (sno, leaf)) leaves) snos))"

definition verify_one ::
  "up_lib \<Rightarrow> 'w up_ext \<Rightarrow> string \<Rightarrow> string list \<Rightarrow> json list \<Rightarrow> (string \<times> string) list \<Rightarrow> adapter list \<Rightarrow>
   leaf_cache \<times> (string \<times> uplink) list \<Rightarrow> string \<times> peer \<Rightarrow> ('w, leaf_cache \<times> (string \<times> uplink) list) up" where
  "verify_one lb ext key names devices known_ips snos acc entry =
     (let (cache, verified) = acc; (server_port, p) = entry; leaf_vm = p_leaf_vm p in
      thenP (guard (leaf_vm \<in> set names))
     (bindP (fetch_leaf lb ext devices known_ips leaf_vm cache) (\<lambda>cache'.
      bindP (leaf_mac ext (the (map_of (lc_ips cache') leaf_vm)) key (p_leaf_interface p)) (\<lambda>mac.
      let peers = tunnel_peers snos (the (map_of (lc_adapters cache') leaf_vm)) mac in
      if length peers \<noteq> 1 then uplink_error
      else ret (cache', dict_set server_port
             \<lparr>u_guest_mac = ad_mac (fst (hd peers)), u_leaf_port = p_leaf_endpoint p, u_underlay = p_underlay p\<rparr>
             verified)))))"

definition mac_to_ports :: "(string \<times> uplink) list \<Rightarrow> (string \<times> string list) list" where
  "mac_to_ports verified = fold (\<lambda>(port, u). dict_append (u_guest_mac u) port) verified []"

definition verified_uplinks ::
  "up_lib \<Rightarrow> 'w up_ext \<Rightarrow> string \<Rightarrow> string list \<Rightarrow> string \<Rightarrow> (string \<times> string) list \<Rightarrow> ('w, (string \<times> uplink) list) up" where
  "verified_uplinks lb ext key names vm known_ips =
     bindP (api_list lb ext ''/api/v2/hw'') (\<lambda>devices.
     bindP (api_list lb ext ''/api/v2/link'') (\<lambda>raw.
     bindP (liftP (north_south_links raw vm)) (\<lambda>links.
     bindP (udp_interfaces lb ext vm) (\<lambda>snos.
     bindP (foldP (verify_one lb ext key names devices known_ips snos) (\<lparr>lc_ips = [], lc_adapters = []\<rparr>, []) links)
       (\<lambda>(cache, verified).
     thenP (guard (list_all (\<lambda>(mac, ports). length ports \<le> 1) (mac_to_ports verified)))
       (ret verified))))))"

section \<open>The ports of a VNet\<close>

definition short_suffix_rx :: "char rx" where
  "short_suffix_rx = Seqs [Lit ''('', Star (Cls (\<lambda>c. c \<noteq> CHR '')'')), Lit '')'', Assert dollar]"

definition full_name_rx :: "char rx" where
  "full_name_rx = Seqs [Grp 1 (Plus (Cls (\<lambda>c. c \<notin> set ''()@'' \<and> \<not> str_space c))),
     Opt (Seqs [Lit ''('', Star (Cls (\<lambda>c. c \<noteq> CHR '')'')), Lit '')'']),
     Lit ''@'', Grp 2 (Plus (Cls (\<lambda>c. c \<notin> set ''()'' \<and> \<not> str_space c))),
     Opt (Seqs [Plus (Cls str_space), Lit ''('', Star (Cls (\<lambda>c. c \<noteq> CHR '')'')), Lit '')''])]"

definition name_of_field :: "json \<Rightarrow> up_exn + string" where
  "name_of_field name =
     (case name of
        JStr n \<Rightarrow>
          (let s = strip n in case rx_fullmatch full_name_rx s of
             None \<Rightarrow> Inl UplinkError
           | Some m \<Rightarrow> Inr (m_group s m 1 @ ''@'' @ m_group s m 2))
      | _ \<Rightarrow> Inl UplinkError)"

definition full_port_name :: "json \<Rightarrow> up_exn + string" where
  "full_port_name port =
     (case port of
        JObj kvs \<Rightarrow>
          (let switch = obj_get kvs ''switch'';
               switch_name = d_or (obj_get kvs ''switchName'')
                 (case switch of JObj s \<Rightarrow> obj_get s ''name'' | _ \<Rightarrow> JNull)
           in case (obj_get kvs ''port'', switch_name) of
                (JStr short_name, JStr sw) \<Rightarrow>
                  (let short = rx_sub short_suffix_rx (\<lambda>_. []) short_name
                   in if short \<noteq> [] \<and> sw \<noteq> [] then Inr (short @ ''@'' @ sw)
                      else name_of_field (obj_get kvs ''name''))
              | _ \<Rightarrow> name_of_field (obj_get kvs ''name''))
      | _ \<Rightarrow> Inl (PyErr AttrErr))"

definition vnet_path :: "int \<Rightarrow> string" where
  "vnet_path i = ''/api/v2/vnet/'' @ show_int i"

definition vnet_detail :: "up_lib \<Rightarrow> 'w up_ext \<Rightarrow> int \<Rightarrow> ('w, json) up" where
  "vnet_detail lb ext i =
     bindP (api_request lb ext (vnet_path i) ''GET'' None)
       (\<lambda>d. if is_obj d then ret d else uplink_error)"

text \<open>\<open>detail.get("ports") or []\<close> and \<open>int(item["id"])\<close>.\<close>

definition ports_of :: "json \<Rightarrow> json" where
  "ports_of detail = d_or (case jget detail ''ports'' of None \<Rightarrow> JNull | Some v \<Rightarrow> v) (JArr [])"

definition item_id :: "up_lib \<Rightarrow> json \<Rightarrow> py_error + int" where
  "item_id lb item = bindE (d_key item ''id'') (d_int (l_trunc lb))"

section \<open>The command \<open>resolve\<close>\<close>

record resolve_args =
  ra_vm_name_pattern :: string
  ra_vnet_name :: string
  ra_host_key :: string
  ra_aliases_path :: string
  ra_vm_mgmt_ip :: string
  ra_underlay_server_port :: string

record resolved =
  rs_vm_name :: string
  rs_management_ip :: string
  rs_guest_mac :: string
  rs_leaf_port :: string
  rs_server_port :: string
  rs_underlay :: "(string \<times> string \<times> string) option"   \<comment> \<open>guest MAC, leaf port, server port\<close>

definition data_uplinks :: "(string \<times> uplink) list \<Rightarrow> (string \<times> uplink) list" where
  "data_uplinks uplinks = filter (\<lambda>(port, u). u_underlay u = ''disabled'') uplinks"

definition pick_underlay :: "resolve_args \<Rightarrow> string \<Rightarrow> (string \<times> uplink) list \<Rightarrow> up_exn + (string \<times> uplink) option" where
  "pick_underlay args vm uplinks =
     (let port = ra_underlay_server_port args in
      if port = [] then Inr None
      else if rx_fullmatch (Seqs [Lit ''eth'', Plus (Cls is_digit)]) port = None then Inl UplinkError
      else (let full = port @ ''@'' @ vm in
            case map_of uplinks full of
              None \<Rightarrow> Inl UplinkError
            | Some u \<Rightarrow> if u_underlay u \<noteq> ''enabled'' then Inl UplinkError else Inr (Some (full, u))))"

text \<open>The port the VNet has now, if any; a VNet with a port that is not a verified data port is refused.\<close>

definition current_port ::
  "up_lib \<Rightarrow> 'w up_ext \<Rightarrow> string \<Rightarrow> (string \<times> uplink) list \<Rightarrow> json list \<Rightarrow> ('w, string option) up" where
  "current_port lb ext vnet_name uplinks matches =
     (case matches of
        [] \<Rightarrow> ret None
      | item # _ \<Rightarrow>
          bindP (py (item_id lb item)) (\<lambda>i.
          bindP (vnet_detail lb ext i) (\<lambda>detail.
          thenP (guard (jget detail ''name'' = Some (JStr vnet_name)))
         (let ports = ports_of detail in
          bindP (py (d_len ports)) (\<lambda>n.
          thenP (guard (n \<le> 1))
         (if \<not> truthy ports then ret None
          else bindP (py (d_first ports)) (\<lambda>p.
               bindP (liftP (full_port_name p)) (\<lambda>current.
               if map_of (data_uplinks uplinks) current = None then uplink_error
               else ret (Some current)))))))))"

definition occupied_step ::
  "up_lib \<Rightarrow> 'w up_ext \<Rightarrow> json list \<Rightarrow> (string \<times> json) list \<Rightarrow> json \<Rightarrow> ('w, (string \<times> json) list) up" where
  "occupied_step lb ext matches occupied other =
     bindP (py (case matches of [] \<Rightarrow> Inr False
                | item # _ \<Rightarrow> bindE (item_id lb other) (\<lambda>i. bindE (item_id lb item) (\<lambda>j. Inr (i = j))))) (\<lambda>same.
     if same then ret occupied
     else bindP (py (item_id lb other)) (\<lambda>i.
          bindP (vnet_detail lb ext i) (\<lambda>detail.
          bindP (py (d_items (ports_of detail))) (\<lambda>ports.
          liftP (foldE (\<lambda>occ port. bindE (full_port_name port)
            (\<lambda>n. Inr (dict_set n (case jget other ''name'' of None \<Rightarrow> JNull | Some v \<Rightarrow> v) occ))) occupied ports)))))"

text \<open>\<open>(int(port.split("@", 1)[0][3:]), port)\<close>: the server ports are \<open>ethN@vm\<close>.\<close>

definition port_number :: "string \<Rightarrow> nat" where
  "port_number port = digits_val (drop 3 (hd (split_on (CHR ''@'') port)))"

fun min_port :: "string list \<Rightarrow> string option" where
  "min_port ports =
     (case min_by port_number ports of None \<Rightarrow> None
      | Some least \<Rightarrow> min_by id (filter (\<lambda>p. port_number p = port_number least) ports))"

definition choose_port :: "(string \<times> uplink) list \<Rightarrow> string option \<Rightarrow> (string \<times> json) list \<Rightarrow> up_exn + string" where
  "choose_port uplinks current occupied =
     (case current of
        Some server_port \<Rightarrow>
          if map_of occupied server_port = None then Inr server_port else Inl UplinkError
      | None \<Rightarrow>
          (case min_port (filter (\<lambda>p. map_of occupied p = None) (map fst (data_uplinks uplinks))) of
             None \<Rightarrow> Inl UplinkError
           | Some p \<Rightarrow> Inr p))"

definition management_ip :: "up_lib \<Rightarrow> resolve_args \<Rightarrow> (string \<times> string) list \<Rightarrow> string \<Rightarrow> up_exn + string" where
  "management_ip lb args known_ips vm =
     (case (if ra_vm_mgmt_ip args \<noteq> [] then Some (ra_vm_mgmt_ip args) else map_of known_ips vm) of
        None \<Rightarrow> Inl UplinkError
      | Some a \<Rightarrow> if a = [] then Inl UplinkError
          else (case l_ip lb a of None \<Rightarrow> Inl UplinkError | Some ip \<Rightarrow> Inr ip))"

definition resolve :: "up_lib \<Rightarrow> 'w up_ext \<Rightarrow> resolve_args \<Rightarrow> ('w, resolved) up" where
  "resolve lb ext args =
     bindP (vm_names lb ext (ra_vm_name_pattern args)) (\<lambda>(names, vm).
     let known_ips = aliases lb (ra_aliases_path args) in
     bindP (liftP (management_ip lb args known_ips vm)) (\<lambda>ip.
     bindP (verified_uplinks lb ext (ra_host_key args) names vm known_ips) (\<lambda>uplinks.
     thenP (guard (data_uplinks uplinks \<noteq> []))
    (bindP (liftP (pick_underlay args vm uplinks)) (\<lambda>under.
     bindP (api_list lb ext ''/api/v2/vnet'') (\<lambda>vnets.
     let matches = filter (\<lambda>v. jget v ''name'' = Some (JStr (ra_vnet_name args))) vnets in
     thenP (guard (length matches \<le> 1))
    (bindP (current_port lb ext (ra_vnet_name args) uplinks matches) (\<lambda>current.
     bindP (foldP (occupied_step lb ext matches) [] vnets) (\<lambda>occupied.
     bindP (liftP (choose_port uplinks current occupied)) (\<lambda>server_port.
     case map_of (data_uplinks uplinks) server_port of
       None \<Rightarrow> raise (PyErr KeyErr)
     | Some chosen \<Rightarrow>
         ret \<lparr>rs_vm_name = vm, rs_management_ip = ip, rs_guest_mac = u_guest_mac chosen,
              rs_leaf_port = u_leaf_port chosen, rs_server_port = server_port,
              rs_underlay = map_option (\<lambda>(p, u). (u_guest_mac u, u_leaf_port u, p)) under\<rparr>))))))))))"

section \<open>The command \<open>reconcile\<close>\<close>

definition server_port_underlay :: "json list \<Rightarrow> string \<Rightarrow> up_exn + string" where
  "server_port_underlay links server_port =
     (let statuses = concat (map (\<lambda>link. case (jget link ''local'', jget link ''remote'') of
            (Some (JObj loc), Some (JObj rem)) \<Rightarrow>
              if JStr server_port \<in> {obj_get loc ''name'', obj_get rem ''name''}
              then [case jget link ''underlay'' of None \<Rightarrow> JNull | Some u \<Rightarrow> u] else []
          | _ \<Rightarrow> []) links)
      in case statuses of
           [s] \<Rightarrow> (case d_in_texts s [''enabled'', ''disabled''] of
               Inl e \<Rightarrow> Inl (PyErr e)
             | Inr b \<Rightarrow> if b then Inr (the (as_str s)) else Inl UplinkError)
         | _ \<Rightarrow> Inl UplinkError)"

record reconcile_args =
  rc_vnet_name :: string
  rc_vpc_id :: int
  rc_server_port :: string

definition check_vnet_identity :: "up_lib \<Rightarrow> json \<Rightarrow> string \<Rightarrow> int \<Rightarrow> up_exn + unit" where
  "check_vnet_identity lb detail name vpc_id =
     (if jget detail ''name'' \<noteq> Some (JStr name) then Inl UplinkError
      else (case d_or (case jget detail ''vpc'' of None \<Rightarrow> JNull | Some v \<Rightarrow> v) (JObj []) of
              JObj kvs \<Rightarrow>
                (case d_int (l_trunc lb) (case map_of kvs ''id'' of None \<Rightarrow> JInt (-1) | Some v \<Rightarrow> v) of
                   Inl e \<Rightarrow> Inl (PyErr e)
                 | Inr i \<Rightarrow> if i \<noteq> vpc_id then Inl UplinkError else Inr ())
            | _ \<Rightarrow> Inl (PyErr AttrErr)))"

text \<open>\<open>any(full_port_name(port) == server_port for port in ports)\<close> stops at the first match.\<close>

fun any_port :: "string \<Rightarrow> json list \<Rightarrow> up_exn + bool" where
  "any_port server_port [] = Inr False"
| "any_port server_port (p # ps) =
     bindE (full_port_name p) (\<lambda>n. if n = server_port then Inr True else any_port server_port ps)"

definition refuse_other :: "up_lib \<Rightarrow> 'w up_ext \<Rightarrow> string \<Rightarrow> int \<Rightarrow> json \<Rightarrow> ('w, unit) up" where
  "refuse_other lb ext server_port vnet_id other =
     bindP (py (d_int (l_trunc lb) (case jget other ''id'' of None \<Rightarrow> JInt (-1) | Some v \<Rightarrow> v))) (\<lambda>i.
     if i = vnet_id then ret ()
     else bindP (py (item_id lb other)) (\<lambda>j.
          bindP (vnet_detail lb ext j) (\<lambda>detail.
          bindP (py (d_items (ports_of detail))) (\<lambda>ports.
          bindP (liftP (any_port server_port ports)) (\<lambda>b. guard (\<not> b))))))"

text \<open>\<open>port.get("accessMode") is True\<close> for a port record that has a full name, hence is an object.\<close>

definition access_mode :: "json \<Rightarrow> bool" where
  "access_mode p \<longleftrightarrow> jget p ''accessMode'' = Some (JBool True)"

definition put_body :: "string \<Rightarrow> json" where
  "put_body server_port =
     JObj [(''ports'', JArr [JObj [(''name'', JStr server_port), (''accessMode'', JBool True)]])]"

text \<open>The port in the VNet must be absent or be ours; is a change needed?\<close>

definition needs_change :: "string \<Rightarrow> json \<Rightarrow> ('w, bool) up" where
  "needs_change server_port ports =
     bindP (py (d_len ports)) (\<lambda>n.
     thenP (guard (n \<le> 1))
    (if \<not> truthy ports then ret True
     else bindP (py (d_first ports)) (\<lambda>p.
          bindP (liftP (full_port_name p)) (\<lambda>current.
          thenP (guard (current = server_port))
            (ret (\<not> access_mode p))))))"

definition check_retained :: "string \<Rightarrow> json \<Rightarrow> ('w, unit) up" where
  "check_retained server_port ports =
     bindP (py (d_len ports)) (\<lambda>n.
     thenP (guard (n = 1))
    (bindP (py (d_first ports)) (\<lambda>p.
     bindP (liftP (full_port_name p)) (\<lambda>current.
     guard (current = server_port \<and> access_mode p)))))"

definition reconcile_guards :: "up_lib \<Rightarrow> 'w up_ext \<Rightarrow> reconcile_args \<Rightarrow> ('w, int \<times> bool) up" where
  "reconcile_guards lb ext args =
     bindP (api_list lb ext ''/api/v2/link'') (\<lambda>links.
     bindP (liftP (server_port_underlay links (rc_server_port args))) (\<lambda>status.
     thenP (guard (status \<noteq> ''enabled''))
    (bindP (api_list lb ext ''/api/v2/vnet'') (\<lambda>vnets.
     let matches = filter (\<lambda>v. jget v ''name'' = Some (JStr (rc_vnet_name args))) vnets in
     thenP (guard (length matches = 1))
    (bindP (py (item_id lb (hd matches))) (\<lambda>vnet_id.
     bindP (vnet_detail lb ext vnet_id) (\<lambda>detail.
     thenP (liftP (check_vnet_identity lb detail (rc_vnet_name args) (rc_vpc_id args)))
    (thenP (forP (refuse_other lb ext (rc_server_port args) vnet_id) vnets)
    (bindP (needs_change (rc_server_port args) (ports_of detail)) (\<lambda>changed.
     ret (vnet_id, changed)))))))))))"

definition reconcile :: "up_lib \<Rightarrow> 'w up_ext \<Rightarrow> reconcile_args \<Rightarrow> ('w, bool \<times> int \<times> string) up" where
  "reconcile lb ext args =
     bindP (reconcile_guards lb ext args) (\<lambda>(vnet_id, changed).
     thenP (if changed
            then thenP (api_request lb ext (vnet_path vnet_id) ''PUT'' (Some (put_body (rc_server_port args)))) (ret ())
            else ret ())
    (bindP (vnet_detail lb ext vnet_id) (\<lambda>actual.
     thenP (liftP (check_vnet_identity lb actual (rc_vnet_name args) (rc_vpc_id args)))
    (thenP (check_retained (rc_server_port args) (ports_of actual))
       (ret (changed, vnet_id, rc_server_port args))))))"

section \<open>The command \<open>interfaces\<close>\<close>

record guest_args =
  ga_vm_mgmt_ip :: string
  ga_management_address :: string
  ga_host_key :: string
  ga_mac :: "string list"

definition sysfs_command :: string where
  "sysfs_command = ''for path in /sys/class/net/*; do ''
     @ ''[ -e ${path}/device ] || continue; ''
     @ ''printf '' @ [CHR 0x27] @ ''%s %s'' @ [CHR 0x5C] @ ''n'' @ [CHR 0x27] @ '' ''
     @ [CHR 0x22] @ ''$(cat ${path}/address)'' @ [CHR 0x22] @ '' ''
     @ [CHR 0x22] @ ''${path##*/}'' @ [CHR 0x22] @ ''; ''
     @ ''done''"

definition observe_line :: "(string \<times> string list) list \<Rightarrow> string \<Rightarrow> (string \<times> string list) list" where
  "observe_line observed line =
     (case words_by str_space line of
        [mac, interface] \<Rightarrow>
          (case mac_address mac of
             Inl _ \<Rightarrow> observed
           | Inr m \<Rightarrow> if rx_fullmatch IFACE_PATTERN interface = None then observed
               else dict_append m interface observed)
      | _ \<Rightarrow> observed)"

definition map_macs :: "string list \<Rightarrow> (string \<times> string list) list \<Rightarrow> up_exn + (string \<times> string) list" where
  "map_macs requested observed =
     mapE (\<lambda>mac. case map_of observed mac of Some [i] \<Rightarrow> Inr (mac, i) | _ \<Rightarrow> Inl UplinkError) requested"

text \<open>The interface of one line of \<open>ip -o -4 addr show\<close>, split into words, if it holds the address.\<close>

definition inet_interface :: "string \<Rightarrow> string list \<Rightarrow> string list" where
  "inet_interface address parts =
     (if length parts < 4 \<or> parts ! 2 \<noteq> ''inet'' then []
      else if hd (split_on (CHR ''/'') (parts ! 3)) = address
      then [hd (split_on (CHR ''@'') (parts ! 1))] else [])"

definition management_interfaces :: "string \<Rightarrow> string \<Rightarrow> string list" where
  "management_interfaces address out =
     remdups (concat (map (\<lambda>line. inet_interface address (words_by str_space line)) (lines_of out)))"

definition finish_guest :: "(string \<times> string) list \<Rightarrow> string list \<Rightarrow> ('w, (string \<times> string) list \<times> string) up" where
  "finish_guest mapping interfaces =
     (case interfaces of
        [mgmt] \<Rightarrow> if rx_fullmatch IFACE_PATTERN mgmt = None then uplink_error else ret (mapping, mgmt)
      | _ \<Rightarrow> uplink_error)"

definition guest_interfaces :: "'w up_ext \<Rightarrow> guest_args \<Rightarrow> ('w, (string \<times> string) list \<times> string) up" where
  "guest_interfaces ext args =
     bindP (liftP (mapE mac_address (ga_mac args))) (\<lambda>requested.
     thenP (guard (distinct requested))
    (bindP (ssh ext (ga_vm_mgmt_ip args) ''core'' (ga_host_key args) sysfs_command) (\<lambda>out.
     let observed = foldl observe_line [] (lines_of out) in
     bindP (liftP (map_macs requested observed)) (\<lambda>mapping.
     thenP (guard (distinct (map snd mapping)))
    (bindP (ssh ext (ga_vm_mgmt_ip args) ''core'' (ga_host_key args) ''ip -o -4 addr show'') (\<lambda>addresses.
     finish_guest mapping (management_interfaces (ga_management_address args) addresses)))))))"

section \<open>\<open>main\<close>\<close>

datatype up_operation = Resolve resolve_args | Reconcile reconcile_args | Interfaces guest_args

datatype up_result = Resolved resolved | Reconciled bool int string | Mapped "(string \<times> string) list" string

definition up_dispatch :: "up_lib \<Rightarrow> 'w up_ext \<Rightarrow> up_operation \<Rightarrow> ('w, up_result) up" where
  "up_dispatch lb ext op =
     (case op of
        Resolve a \<Rightarrow> bindP (resolve lb ext a) (\<lambda>r. ret (Resolved r))
      | Reconcile a \<Rightarrow> bindP (reconcile lb ext a) (\<lambda>(c, i, p). ret (Reconciled c i p))
      | Interfaces a \<Rightarrow> bindP (guest_interfaces ext a) (\<lambda>(m, i). ret (Mapped m i)))"

text \<open>The exit status and the printed result. An exception that \<open>main\<close> does not catch ends the
  process with status 1 as well.\<close>

definition up_main :: "up_lib \<Rightarrow> 'w up_ext \<Rightarrow> up_operation \<Rightarrow> 'w up_state \<Rightarrow> int \<times> up_result option \<times> 'w up_state" where
  "up_main lb ext op st =
     (case up_dispatch lb ext op st of
        (Inl _, st') \<Rightarrow> (1, None, st')
      | (Inr r, st') \<Rightarrow> (0, Some r, st'))"

section \<open>Lemmas: the log\<close>

lemma up_issue_app:
  "up_issue ext c st = (Inr (fst (ext (lab st) c)),
     st\<lparr>lab := snd (ext (lab st) c), up_log := up_log st @ [(c, fst (ext (lab st) c))]\<rparr>)"
  by (simp add: up_issue_def split: prod.splits)

lemma guard_Inr_iff [run_iff]: "guard b s = (Inr x, t) \<longleftrightarrow> b \<and> t = s"
  by (auto simp: guard_def uplink_error_def)

lemma py_Inr_iff [run_iff]: "py r s = (Inr x, t) \<longleftrightarrow> r = Inr x \<and> t = s"
  by (auto simp: py_def split: sum.splits)

lemma uplink_error_Inr_iff [run_iff]: "uplink_error s = (Inr x, t) \<longleftrightarrow> False"
  by (simp add: uplink_error_def)

lemma emits_up_issue [emits_rules]: "(\<And>r. A (c, r)) \<Longrightarrow> emits up_log A (up_issue ext c)"
  by (rule emitsI) (simp add: up_issue_app)

lemma emits_guard [emits_rules]: "emits up_log A (guard b)"
  unfolding guard_def uplink_error_def by (intro emits_rules)

lemma emits_py [emits_rules]: "emits up_log A (py r)"
  unfolding py_def by (cases r) (auto intro: emits_rules)

lemma emits_uplink_error [emits_rules]: "emits up_log A uplink_error"
  unfolding uplink_error_def by (intro emits_rules)

lemma emits_up_run [emits_rules]: "(\<And>r. A (RunCmd argv t, r)) \<Longrightarrow> emits up_log A (up_run ext argv t)"
  unfolding up_run_def by (intro emits_rules) (auto split: up_reply.split intro!: emits_rules)

lemma emits_api_request [emits_rules]:
  "(\<And>r. A (Http m p b, r)) \<Longrightarrow> emits up_log A (api_request lb ext p m b)"
  unfolding api_request_def
  by (intro emits_rules) (auto split: up_reply.split json.split intro!: emits_rules)

text \<open>What the read-only part may do: list and dump VMs, read an address over ssh, and \<open>GET\<close>.\<close>

definition read_only :: "up_cmd \<times> up_reply \<Rightarrow> bool" where
  "read_only e \<longleftrightarrow> (case fst e of
       Http m p b \<Rightarrow> m = ''GET'' \<and> b = None
     | RunCmd argv t \<Rightarrow> take 2 argv \<in> {[''virsh'', ''list''], [''virsh'', ''dumpxml'']} \<or>
         argv \<noteq> [] \<and> hd argv = ''ssh'' \<and> starts_with ''cat /sys/class/net/'' (last argv))"

lemma read_only_simps [simp]:
  "read_only (Http ''GET'' p None, r)" "read_only (RunCmd (''virsh'' # ''list'' # a) t, r)"
  "read_only (RunCmd (''virsh'' # ''dumpxml'' # a) t, r)"
  by (simp_all add: read_only_def)

lemma read_only_get [emits_rules]: "emits up_log read_only (api_request lb ext p ''GET'' None)"
  by (intro emits_rules) simp

lemma read_only_api_list [emits_rules]: "emits up_log read_only (api_list lb ext p)"
  unfolding api_list_def by (intro emits_rules) (auto split: json.split intro!: emits_rules)

lemma read_only_vnet_detail [emits_rules]: "emits up_log read_only (vnet_detail lb ext i)"
  unfolding vnet_detail_def by (intro emits_rules) 

lemma read_only_vm_names [emits_rules]: "emits up_log read_only (vm_names lb ext pat)"
  unfolding vm_names_def Let_def by (auto split: option.split intro!: emits_rules)

lemma read_only_udp [emits_rules]: "emits up_log read_only (udp_interfaces lb ext vm)"
  unfolding udp_interfaces_def by (auto split: option.split intro!: emits_rules)

lemma read_only_leaf_mac [emits_rules]: "emits up_log read_only (leaf_mac ext host key i)"
proof -
  have "read_only (RunCmd [''ssh'', ''-o'', ''BatchMode=yes'', ''-o'', ''PasswordAuthentication=no'',
      ''-o'', ''StrictHostKeyChecking=no'', ''-o'', ''UserKnownHostsFile=/dev/null'',
      ''-o'', ''ConnectTimeout=5'', ''-i'', key, ''cumulus'' @ ''@'' @ host,
      ''cat /sys/class/net/'' @ i @ ''/address''] 12, r)" for r
    by (simp add: read_only_def starts_with_iff)
  then have "emits up_log read_only (ssh ext host ''cumulus'' key (''cat /sys/class/net/'' @ i @ ''/address''))"
    unfolding ssh_def by (rule emits_up_run)
  then show ?thesis unfolding leaf_mac_def by (intro emits_rules)
qed

lemma read_only_verify [emits_rules]: "emits up_log read_only (verify_one lb ext key names devices ips snos acc e)"
  unfolding verify_one_def fetch_leaf_def Let_def
  by (cases acc; cases e) (auto split: option.split intro!: emits_rules)

lemma read_only_verified [emits_rules]: "emits up_log read_only (verified_uplinks lb ext key names vm ips)"
  unfolding verified_uplinks_def by (intro emits_rules) (auto intro!: emits_rules)

lemma read_only_current [emits_rules]: "emits up_log read_only (current_port lb ext n ups ms)"
  unfolding current_port_def Let_def by (auto split: list.split intro!: emits_rules)

lemma read_only_occupied [emits_rules]: "emits up_log read_only (occupied_step lb ext ms occ other)"
  unfolding occupied_step_def by (intro emits_rules)

lemma read_only_resolve: "emits up_log read_only (resolve lb ext args)"
  unfolding resolve_def Let_def
  by (intro emits_rules) (auto split: prod.split option.split intro!: emits_rules)

section \<open>Lemmas: answers of the controller\<close>

text \<open>A \<open>GET\<close> was answered with the data \<open>d\<close>.\<close>

definition answered :: "(up_cmd \<times> up_reply) list \<Rightarrow> string \<Rightarrow> json \<Rightarrow> bool" where
  "answered l path d \<longleftrightarrow>
     (\<exists>kvs. (Http ''GET'' path None, HttpDoc (JObj kvs)) \<in> set l \<and> map_of kvs ''data'' = Some d)"

lemma answered_mono: "answered l p d \<Longrightarrow> set l \<subseteq> set l' \<Longrightarrow> answered l' p d"
  unfolding answered_def by blast

lemma api_get_log:
  assumes "api_request lb ext p ''GET'' None s = (Inr d, t)"
  shows "\<exists>kvs. up_log t = up_log s @ [(Http ''GET'' p None, HttpDoc (JObj kvs))] \<and> map_of kvs ''data'' = Some d"
  using assms
  by (auto simp: api_request_def run_iff up_issue_app obj_get_def
      split: up_reply.splits json.splits if_splits option.splits)

lemma api_get_answered:
  "api_request lb ext p ''GET'' None s = (Inr d, t) \<Longrightarrow> answered (up_log t) p d \<and> set (up_log s) \<subseteq> set (up_log t)"
  using api_get_log [of lb ext p s d t] unfolding answered_def by auto

lemma api_list_answered:
  "api_list lb ext p s = (Inr items, t) \<Longrightarrow>
   answered (up_log t) p (JArr items) \<and> list_all is_obj items \<and> set (up_log s) \<subseteq> set (up_log t)"
proof -
  assume "api_list lb ext p s = (Inr items, t)"
  then obtain data u where r: "api_request lb ext p ''GET'' None s = (Inr data, u)"
      and d: "(case data of JArr items \<Rightarrow> if list_all is_obj items then ret items else uplink_error
        | _ \<Rightarrow> uplink_error) u = (Inr items, t)"
    unfolding api_list_def bindP_Inr_iff by blast
  from d have "data = JArr items \<and> list_all is_obj items \<and> u = t"
    by (cases data) (auto simp: run_iff split: if_splits)
  with api_get_answered [OF r] show ?thesis by simp
qed

lemma vnet_detail_answered:
  "vnet_detail lb ext i s = (Inr d, t) \<Longrightarrow>
   answered (up_log t) (vnet_path i) d \<and> is_obj d \<and> set (up_log s) \<subseteq> set (up_log t)"
  unfolding vnet_detail_def using api_get_answered [where lb = lb and ext = ext and p = "vnet_path i" and s = s]
  by (auto simp: run_iff split: if_splits)

lemma emits_grows: "emits tr A m \<Longrightarrow> m s = (r, t) \<Longrightarrow> set (tr s) \<subseteq> set (tr t)"
  using emitsD [of tr A m s] by fastforce

section \<open>Lemmas: what \<open>resolve\<close> has checked\<close>

lemma occupied_fold:
  assumes "foldE (\<lambda>occ port. bindE (full_port_name port) (\<lambda>n. Inr (dict_set n v occ))) occ ports = Inr occ'"
  shows "dom (map_of occ) \<subseteq> dom (map_of occ') \<and>
    (\<forall>p \<in> set ports. \<exists>n. full_port_name p = Inr n \<and> n \<in> dom (map_of occ'))"
  using assms
proof (induction ports arbitrary: occ)
  case (Cons p ports)
  from Cons.prems obtain n where n: "full_port_name p = Inr n"
      "foldE (\<lambda>occ port. bindE (full_port_name port) (\<lambda>n. Inr (dict_set n v occ))) (dict_set n v occ) ports = Inr occ'"
    by (auto simp: bindE_Inr_iff)
  have "dom (map_of (dict_set n v occ)) = insert n (dom (map_of occ))" by (simp add: map_of_dict_set)
  with Cons.IH [OF n(2)] n(1) show ?case by auto
qed simp

definition seen_free ::
  "up_lib \<Rightarrow> json list \<Rightarrow> (up_cmd \<times> up_reply) list \<Rightarrow> (string \<Rightarrow> bool) \<Rightarrow> json \<Rightarrow> bool" where
  "seen_free lb ours l occ other \<longleftrightarrow> (\<exists>i. item_id lb other = Inr i \<and>
     ((\<exists>o' \<in> set ours. item_id lb o' = Inr i) \<or>
      (\<exists>detail ports. answered l (vnet_path i) detail \<and> d_items (ports_of detail) = Inr ports \<and>
         (\<forall>p \<in> set ports. \<exists>n. full_port_name p = Inr n \<and> occ n))))"

lemma seen_free_mono:
  "seen_free lb ours l occ other \<Longrightarrow> set l \<subseteq> set l' \<Longrightarrow> (\<And>n. occ n \<Longrightarrow> occ' n) \<Longrightarrow> seen_free lb ours l' occ' other"
  unfolding seen_free_def by (meson answered_mono)

lemma occupied_step_Inr:
  assumes "occupied_step lb ext ours occ other s = (Inr occ', t)"
  shows "dom (map_of occ) \<subseteq> dom (map_of occ') \<and> set (up_log s) \<subseteq> set (up_log t) \<and>
    seen_free lb ours (up_log t) (\<lambda>n. n \<in> dom (map_of occ')) other"
proof -
  have sub: "set (up_log s) \<subseteq> set (up_log t)"
    using emits_grows [OF read_only_occupied assms] .
  show ?thesis
  proof (cases "\<exists>i. item_id lb other = Inr i \<and> (\<exists>o' \<in> set ours. item_id lb o' = Inr i) \<and> occ' = occ")
    case True
    with sub show ?thesis unfolding seen_free_def by blast
  next
    case False
    from assms obtain same where same: "(case ours of [] \<Rightarrow> Inr False
        | item # _ \<Rightarrow> bindE (item_id lb other) (\<lambda>i. bindE (item_id lb item) (\<lambda>j. Inr (i = j)))) = Inr same"
      and rest: "(if same then ret occ
        else bindP (py (item_id lb other)) (\<lambda>i. bindP (vnet_detail lb ext i) (\<lambda>detail.
          bindP (py (d_items (ports_of detail))) (\<lambda>ports.
          liftP (foldE (\<lambda>o' port. bindE (full_port_name port)
            (\<lambda>n. Inr (dict_set n (case jget other ''name'' of None \<Rightarrow> JNull | Some v \<Rightarrow> v) o'))) occ ports))))) s = (Inr occ', t)"
      by (auto simp: occupied_step_def run_iff)
    have "\<not> same"
    proof
      assume same_True: same
      from rest same_True have "occ' = occ" by (simp add: run_iff)
      moreover from same same_True have "\<exists>i. item_id lb other = Inr i \<and> (\<exists>o' \<in> set ours. item_id lb o' = Inr i)"
        by (auto simp: bindE_Inr_iff split: list.splits)
      ultimately show False using False by blast
    qed
    with rest obtain i detail ports u where
        i: "item_id lb other = Inr i" and v: "vnet_detail lb ext i s = (Inr detail, u)"
        and p: "d_items (ports_of detail) = Inr ports" "u = t"
        and f: "foldE (\<lambda>o' port. bindE (full_port_name port)
            (\<lambda>n. Inr (dict_set n (case jget other ''name'' of None \<Rightarrow> JNull | Some v \<Rightarrow> v) o'))) occ ports = Inr occ'"
      by (auto simp: run_iff)
    from occupied_fold [OF f] vnet_detail_answered [OF v] i p sub show ?thesis
      unfolding seen_free_def by blast
  qed
qed

lemma occupied_all:
  assumes "foldP (occupied_step lb ext ours) [] vnets s = (Inr occ, t)"
  shows "\<forall>other \<in> set vnets. seen_free lb ours (up_log t) (\<lambda>n. n \<in> dom (map_of occ)) other"
  using assms
proof (rule foldP_Inr_invariant [where I = "\<lambda>occ s done.
      \<forall>other \<in> done. seen_free lb ours (up_log s) (\<lambda>n. n \<in> dom (map_of occ)) other"])
  fix b x s' b' s'' "done"
  assume I: "\<forall>other \<in> done. seen_free lb ours (up_log s') (\<lambda>n. n \<in> dom (map_of b)) other"
    and step: "occupied_step lb ext ours b x s' = (Inr b', s'')"
  from occupied_step_Inr [OF step] have st: "dom (map_of b) \<subseteq> dom (map_of b')" "set (up_log s') \<subseteq> set (up_log s'')"
      "seen_free lb ours (up_log s'') (\<lambda>n. n \<in> dom (map_of b')) x" by auto
  have "seen_free lb ours (up_log s'') (\<lambda>n. n \<in> dom (map_of b')) other" if "other \<in> done" for other
  proof (rule seen_free_mono)
    show "seen_free lb ours (up_log s') (\<lambda>n. n \<in> dom (map_of b)) other" using I that by blast
  qed (use st in auto)
  with st(3) show "\<forall>other \<in> insert x done. seen_free lb ours (up_log s'') (\<lambda>n. n \<in> dom (map_of b')) other"
    by blast
qed simp

text \<open>Our own VNet: either without a port, or with exactly the port that was chosen.\<close>

definition own_vnet_fits :: "up_lib \<Rightarrow> (up_cmd \<times> up_reply) list \<Rightarrow> string \<Rightarrow> string \<Rightarrow> json \<Rightarrow> bool" where
  "own_vnet_fits lb l vnet_name server_port v \<longleftrightarrow>
     (\<exists>i detail. item_id lb v = Inr i \<and> answered l (vnet_path i) detail \<and>
        jget detail ''name'' = Some (JStr vnet_name) \<and>
        (\<not> truthy (ports_of detail) \<or> (\<exists>p. ports_of detail = JArr [p] \<and> full_port_name p = Inr server_port)))"

lemma single_port:
  assumes "d_len ports = Inr n" "n \<le> 1" "truthy ports" "d_first ports = Inr p" "full_port_name p = Inr name"
  shows "ports = JArr [p]"
  using assms
  by (cases ports) (auto simp: d_len_def d_items_def d_first_def bindE_Inr_iff full_port_name_def
      split: list.splits)

lemma current_port_Inr:
  assumes "current_port lb ext vnet_name uplinks matches s = (Inr cur, t)" and "length matches \<le> 1"
    and "v \<in> set matches"
  shows "\<exists>i detail. item_id lb v = Inr i \<and> answered (up_log t) (vnet_path i) detail \<and>
    jget detail ''name'' = Some (JStr vnet_name) \<and>
    (case cur of None \<Rightarrow> \<not> truthy (ports_of detail)
     | Some c \<Rightarrow> \<exists>p. ports_of detail = JArr [p] \<and> full_port_name p = Inr c)"
proof -
  from assms(2,3) have m: "matches = [v]" by (cases matches) auto
  from assms(1) m obtain i detail u n where i: "item_id lb v = Inr i"
      and d: "vnet_detail lb ext i s = (Inr detail, u)" "jget detail ''name'' = Some (JStr vnet_name)"
      and n: "d_len (ports_of detail) = Inr n" "n \<le> 1"
      and rest: "(if \<not> truthy (ports_of detail) then ret None
         else bindP (py (d_first (ports_of detail))) (\<lambda>p. bindP (liftP (full_port_name p)) (\<lambda>current.
           if map_of (data_uplinks uplinks) current = None then uplink_error else ret (Some current)))) u = (Inr cur, t)"
    by (auto simp: current_port_def run_iff Let_def)
  from rest have "u = t \<and> (case cur of None \<Rightarrow> \<not> truthy (ports_of detail)
     | Some c \<Rightarrow> truthy (ports_of detail) \<and> (\<exists>p. d_first (ports_of detail) = Inr p \<and> full_port_name p = Inr c))"
    by (auto simp: run_iff split: if_splits)
  with single_port [OF n] i d vnet_detail_answered [OF d(1)] show ?thesis
    by (auto split: option.splits)
qed

text \<open>The result describes one of the uplinks, a data link.\<close>

definition data_choice :: "(string \<times> uplink) list \<Rightarrow> resolved \<Rightarrow> bool" where
  "data_choice uplinks r \<longleftrightarrow> (\<exists>u. (rs_server_port r, u) \<in> set uplinks \<and> u_underlay u = ''disabled'' \<and>
     u_guest_mac u = rs_guest_mac r \<and> u_leaf_port u = rs_leaf_port r)"

section \<open>Properties of \<open>resolve\<close>\<close>

text \<open>
  \<open>resolve\<close> never changes the lab. Whatever the controller, the hypervisor and the hosts
  answer, and however it ends, it only lists and dumps VMs, reads an interface address over ssh, and
  sends \<open>GET\<close> requests without a body.
\<close>

theorem resolve_is_read_only:
  "\<exists>es. up_log (snd (resolve lb ext args st)) = up_log st @ es \<and> list_all read_only es"
  using read_only_resolve [of lb ext args] unfolding emits_def by blast

text \<open>
  The port \<open>resolve\<close> returns is a verified data port that is free or already ours. It is one
  of the verified uplinks of the VM, with underlay disabled, and the MAC and leaf port returned
  are those of that uplink; every VNet the controller lists either has the id of ours or was read
  and does not hold the port; and if our VNet exists, it was read and has no port or exactly this one.
\<close>

theorem resolve_picks_free_data_port:
  assumes "resolve lb ext args st = (Inr r, st')"
  shows "\<exists>uplinks vnets. let ours = filter (\<lambda>v. jget v ''name'' = Some (JStr (ra_vnet_name args))) vnets in
    (\<exists>names s0 s1. verified_uplinks lb ext (ra_host_key args) names (rs_vm_name r)
        (aliases lb (ra_aliases_path args)) s0 = (Inr uplinks, s1)) \<and>
    data_choice uplinks r \<and>
    answered (up_log st') ''/api/v2/vnet'' (JArr vnets) \<and>
    (\<forall>other \<in> set vnets. seen_free lb ours (up_log st') (\<lambda>n. n \<noteq> rs_server_port r) other) \<and>
    (\<forall>v \<in> set ours. own_vnet_fits lb (up_log st') (ra_vnet_name args) (rs_server_port r) v)"
proof -
  from assms obtain names vm ip uplinks under vnets cur occ chosen s0 s1 s2 s3 s4 where
      up: "verified_uplinks lb ext (ra_host_key args) names vm (aliases lb (ra_aliases_path args)) s0 = (Inr uplinks, s1)"
    and vn: "api_list lb ext ''/api/v2/vnet'' s1 = (Inr vnets, s2)"
    and len: "length (filter (\<lambda>v. jget v ''name'' = Some (JStr (ra_vnet_name args))) vnets) \<le> 1"
    and cur: "current_port lb ext (ra_vnet_name args) uplinks
        (filter (\<lambda>v. jget v ''name'' = Some (JStr (ra_vnet_name args))) vnets) s2 = (Inr cur, s3)"
    and occ: "foldP (occupied_step lb ext (filter (\<lambda>v. jget v ''name'' = Some (JStr (ra_vnet_name args))) vnets)) [] vnets s3
        = (Inr occ, st')"
    and ch: "choose_port uplinks cur occ = Inr (rs_server_port r)"
    and u: "map_of (data_uplinks uplinks) (rs_server_port r) = Some chosen"
    and r: "r = \<lparr>rs_vm_name = vm, rs_management_ip = ip, rs_guest_mac = u_guest_mac chosen,
        rs_leaf_port = u_leaf_port chosen, rs_server_port = rs_server_port r, rs_underlay = under\<rparr>"
    unfolding resolve_def Let_def
    by (auto simp: run_iff split: prod.splits option.splits)
  let ?ours = "filter (\<lambda>v. jget v ''name'' = Some (JStr (ra_vnet_name args))) vnets"
  have grow: "set (up_log s3) \<subseteq> set (up_log st')"
    by (rule emits_grows [OF emits_foldP occ]) (rule read_only_occupied)
  have free: "map_of occ (rs_server_port r) = None" and curp: "cur = Some c \<Longrightarrow> c = rs_server_port r" for c
    using ch by (auto simp: choose_port_def split: option.splits if_splits dest!: min_by_Some)
  show ?thesis
  proof (intro exI [of _ uplinks] exI [of _ vnets], unfold Let_def, intro conjI ballI)
    show "\<exists>names s0 s1. verified_uplinks lb ext (ra_host_key args) names (rs_vm_name r)
        (aliases lb (ra_aliases_path args)) s0 = (Inr uplinks, s1)" using up r by (metis resolved.select_convs(1))
    show "data_choice uplinks r"
      using map_of_SomeD [OF u] r unfolding data_uplinks_def data_choice_def
      by (intro exI [of _ chosen]) (simp, metis resolved.select_convs(3,4))
    have "set (up_log s2) \<subseteq> set (up_log s3)" by (rule emits_grows [OF read_only_current cur])
    with grow api_list_answered [OF vn] show "answered (up_log st') ''/api/v2/vnet'' (JArr vnets)"
      by (meson answered_mono order_trans)
  next
    fix other assume "other \<in> set vnets"
    with occupied_all [OF occ] have "seen_free lb ?ours (up_log st') (\<lambda>n. n \<in> dom (map_of occ)) other" by blast
    then show "seen_free lb ?ours (up_log st') (\<lambda>n. n \<noteq> rs_server_port r) other"
      by (rule seen_free_mono) (use free in auto)
  next
    fix v assume v: "v \<in> set ?ours"
    from current_port_Inr [OF cur len v] obtain i detail where i: "item_id lb v = Inr i"
        "answered (up_log s3) (vnet_path i) detail" "jget detail ''name'' = Some (JStr (ra_vnet_name args))"
      and c: "case cur of None \<Rightarrow> \<not> truthy (ports_of detail)
        | Some c \<Rightarrow> \<exists>p. ports_of detail = JArr [p] \<and> full_port_name p = Inr c" by blast
    have "answered (up_log st') (vnet_path i) detail" using i(2) grow by (rule answered_mono)
    moreover from c curp have "\<not> truthy (ports_of detail) \<or>
        (\<exists>p. ports_of detail = JArr [p] \<and> full_port_name p = Inr (rs_server_port r))"
      by (cases cur) auto
    ultimately show "own_vnet_fits lb (up_log st') (ra_vnet_name args) (rs_server_port r) v"
      unfolding own_vnet_fits_def using i(1,3) by blast
  qed
qed

text \<open>A small lab for the examples: one VM with one leaf, our VNet with id 7 and another with id 8. The
  world says whether our VNet has the port.\<close>

definition doc :: "json \<Rightarrow> up_reply" where
  "doc d = HttpDoc (JObj [(''data'', d)])"

definition sample_ports :: "bool \<Rightarrow> json" where
  "sample_ports w = JArr (if w then [JObj [(''name'', JStr ''eth1@sno''), (''accessMode'', JBool True)]] else [])"

definition sample_get :: "bool \<Rightarrow> string \<Rightarrow> json" where
  "sample_get w p =
     (if p = ''/api/v2/hw'' then JArr [JObj [(''name'', JStr ''ns-leaf-1''), (''mgmtAddress'', JStr ''10.0.0.5/24'')]]
      else if p = ''/api/v2/link'' then JArr [JObj [(''local'', JObj [(''name'', JStr ''eth1@sno'')]),
        (''remote'', JObj [(''name'', JStr ''swp1@ns-leaf-1'')]), (''underlay'', JStr ''disabled'')]]
      else if p = ''/api/v2/vnet'' then JArr [JObj [(''id'', JInt 7), (''name'', JStr ''ocp'')], JObj [(''id'', JInt 8)]]
      else if p = ''/api/v2/vnet/7'' then JObj [(''name'', JStr ''ocp''), (''vpc'', JObj [(''id'', JInt 3)]),
        (''ports'', sample_ports w)]
      else JObj [(''ports'', JArr [JObj [(''port'', JStr ''eth9(x)''), (''switchName'', JStr ''sno'')]])])"

definition sample_lab :: "bool up_ext" where
  "sample_lab w c =
     (case c of
        Http m p b \<Rightarrow> if m = ''GET'' then (doc (sample_get w p), w) else (HttpEmpty, True)
      | RunCmd argv t \<Rightarrow>
          if hd argv = ''ssh'' then (CmdDone 0 ''AA:bb:cc:dd:ee:02'' '''', w)
          else if argv ! 1 = ''list'' then (CmdDone 0 (''sno'' @ [CHR 0x0A] @ ''ns-leaf-1'' @ [CHR 0x0A]) '''', w)
          else (CmdDone 0 (last argv) '''', w))"

definition sample_tunnel :: "string \<Rightarrow> string \<Rightarrow> string \<Rightarrow> xml" where
  "sample_tunnel mac here there = Elem ''domain'' [] [] [Elem ''devices'' [] []
     [Elem ''interface'' [(''type'', ''udp'')] []
       [Elem ''mac'' [(''address'', mac)] [] [],
        Elem ''source'' [(''address'', ''127.0.0.1''), (''port'', there)] []
          [Elem ''local'' [(''address'', ''127.0.0.1''), (''port'', here)] [] []]]]]"

definition sample_lib :: up_lib where
  "sample_lib = \<lparr>l_compile = (\<lambda>p. Some (Lit p)), l_shlex = (\<lambda>s. Some [s]), l_ip = Some,
     l_xml = (\<lambda>t. Some (if t = ''sno'' then sample_tunnel ''aa:bb:cc:dd:ee:01'' ''1'' ''2''
                        else sample_tunnel ''aa:bb:cc:dd:ee:02'' ''2'' ''1'')),
     l_trunc = (\<lambda>_. None), l_read = (\<lambda>_. None), l_cookie = ''c''\<rparr>"

definition sample_resolve_args :: resolve_args where
  "sample_resolve_args = \<lparr>ra_vm_name_pattern = ''sno'', ra_vnet_name = ''ocp'', ra_host_key = ''k'',
     ra_aliases_path = ''a'', ra_vm_mgmt_ip = ''10.0.0.9'', ra_underlay_server_port = ''''\<rparr>"

definition sample_reconcile_args :: reconcile_args where
  "sample_reconcile_args = \<lparr>rc_vnet_name = ''ocp'', rc_vpc_id = 3, rc_server_port = ''eth1@sno''\<rparr>"

definition lab_start :: "bool up_state" where
  "lab_start = \<lparr>lab = False, up_log = []\<rparr>"

definition sample_resolved :: resolved where
  "sample_resolved = \<lparr>rs_vm_name = ''sno'', rs_management_ip = ''10.0.0.9'', rs_guest_mac = ''aa:bb:cc:dd:ee:01'',
     rs_leaf_port = ''swp1@ns-leaf-1'', rs_server_port = ''eth1@sno'', rs_underlay = None\<rparr>"

lemma sample_resolve:
  "resolve sample_lib sample_lab sample_resolve_args lab_start =
     (Inr sample_resolved, snd (resolve sample_lib sample_lab sample_resolve_args lab_start))"
proof -
  have "fst (resolve sample_lib sample_lab sample_resolve_args lab_start) = Inr sample_resolved"
    by code_simp
  then show ?thesis by (metis surjective_pairing)
qed

theorem resolve_picks_free_data_port_witness:
  "\<exists>uplinks. data_choice uplinks sample_resolved"
  using resolve_picks_free_data_port [OF sample_resolve] unfolding Let_def
  by (elim exE conjE, intro exI)

section \<open>Lemmas: what \<open>reconcile\<close> has checked\<close>

definition is_put :: "up_cmd \<times> up_reply \<Rightarrow> bool" where
  "is_put e \<longleftrightarrow> (case fst e of Http m p b \<Rightarrow> m = ''PUT'' | RunCmd _ _ \<Rightarrow> False)"

lemma read_only_not_put: "read_only e \<Longrightarrow> \<not> is_put e"
  by (auto simp: read_only_def is_put_def split: up_cmd.splits)

lemma read_only_refuse [emits_rules]: "emits up_log read_only (refuse_other lb ext p i other)"
  unfolding refuse_other_def by (intro emits_rules)

lemma read_only_needs [emits_rules]: "emits up_log read_only (needs_change p ports)"
  unfolding needs_change_def by (intro emits_rules)

lemma read_only_retained [emits_rules]: "emits up_log read_only (check_retained p ports)"
  unfolding check_retained_def by (intro emits_rules)

lemma read_only_guards [emits_rules]: "emits up_log read_only (reconcile_guards lb ext args)"
  unfolding reconcile_guards_def Let_def by (intro emits_rules)

text \<open>All the evidence \<open>reconcile\<close> has when it decides to write: the link is a data link, the VNet is ours
  and has no port but possibly this one, and no other VNet has the port.\<close>

definition may_attach :: "up_lib \<Rightarrow> reconcile_args \<Rightarrow> (up_cmd \<times> up_reply) list \<Rightarrow> int \<Rightarrow> bool" where
  "may_attach lb args l vnet_id \<longleftrightarrow>
     (\<exists>links vnets detail. answered l ''/api/v2/link'' (JArr links) \<and>
        server_port_underlay links (rc_server_port args) = Inr ''disabled'' \<and>
        answered l ''/api/v2/vnet'' (JArr vnets) \<and>
        answered l (vnet_path vnet_id) detail \<and>
        check_vnet_identity lb detail (rc_vnet_name args) (rc_vpc_id args) = Inr () \<and>
        (\<not> truthy (ports_of detail) \<or>
         (\<exists>p. ports_of detail = JArr [p] \<and> full_port_name p = Inr (rc_server_port args))) \<and>
        (\<forall>other \<in> set vnets. d_int (l_trunc lb) (case jget other ''id'' of None \<Rightarrow> JInt (-1) | Some v \<Rightarrow> v) = Inr vnet_id \<or>
           (\<exists>j d ports. item_id lb other = Inr j \<and> answered l (vnet_path j) d \<and> d_items (ports_of d) = Inr ports \<and>
              (\<forall>p \<in> set ports. full_port_name p \<noteq> Inr (rc_server_port args)))))"

lemma any_port_False: "any_port n ps = Inr False \<Longrightarrow> \<forall>p \<in> set ps. full_port_name p \<noteq> Inr n"
  by (induction ps) (auto simp: bindE_Inr_iff split: if_splits)

lemma server_port_underlay_cases:
  "server_port_underlay links p = Inr s \<Longrightarrow> s = ''enabled'' \<or> s = ''disabled''"
  by (auto simp: server_port_underlay_def Let_def d_in_texts_def as_str_def
      split: list.splits sum.splits json.splits if_splits)

definition checked_other :: "up_lib \<Rightarrow> reconcile_args \<Rightarrow> int \<Rightarrow> (up_cmd \<times> up_reply) list \<Rightarrow> json \<Rightarrow> bool" where
  "checked_other lb args vnet_id l other \<longleftrightarrow>
     d_int (l_trunc lb) (case jget other ''id'' of None \<Rightarrow> JInt (-1) | Some v \<Rightarrow> v) = Inr vnet_id \<or>
     (\<exists>j d ports. item_id lb other = Inr j \<and> answered l (vnet_path j) d \<and> d_items (ports_of d) = Inr ports \<and>
        (\<forall>p \<in> set ports. full_port_name p \<noteq> Inr (rc_server_port args)))"

lemma checked_other_mono: "checked_other lb args i l v \<Longrightarrow> set l \<subseteq> set l' \<Longrightarrow> checked_other lb args i l' v"
  unfolding checked_other_def by (meson answered_mono)

lemma refuse_other_Inr:
  assumes "refuse_other lb ext (rc_server_port args) i other s = (Inr x, t)"
  shows "checked_other lb args i (up_log t) other"
proof -
  from assms obtain j where j: "d_int (l_trunc lb) (case jget other ''id'' of None \<Rightarrow> JInt (-1) | Some v \<Rightarrow> v) = Inr j"
    by (auto simp: refuse_other_def run_iff)
  show ?thesis
  proof (cases "j = i")
    case True
    with j show ?thesis by (simp add: checked_other_def)
  next
    case False
    with assms j obtain k d u ports where "item_id lb other = Inr k" "vnet_detail lb ext k s = (Inr d, u)"
        "d_items (ports_of d) = Inr ports" "any_port (rc_server_port args) ports = Inr False" "u = t"
      by (auto simp: refuse_other_def run_iff)
    then show ?thesis
      using vnet_detail_answered [of lb ext k s d u] any_port_False unfolding checked_other_def by blast
  qed
qed

lemma refuse_all_Inr:
  "forP (refuse_other lb ext (rc_server_port args) i) vnets s = (Inr x, t) \<Longrightarrow>
   \<forall>v \<in> set vnets. checked_other lb args i (up_log t) v"
proof (induction vnets arbitrary: s)
  case (Cons v vs)
  then obtain u y where u: "refuse_other lb ext (rc_server_port args) i v s = (Inr y, u)"
      "forP (refuse_other lb ext (rc_server_port args) i) vs u = (Inr x, t)"
    by (auto simp: run_iff)
  have "emits up_log read_only (forP (refuse_other lb ext (rc_server_port args) i) vs)" by (intro emits_rules)
  from emits_grows [OF this u(2)] refuse_other_Inr [OF u(1)] Cons.IH [OF u(2)]
  show ?case by (auto intro: checked_other_mono)
qed simp

lemma needs_change_Inr:
  assumes "needs_change port ports s = (Inr changed, t)"
  shows "t = s \<and> (if truthy ports then \<exists>p. ports = JArr [p] \<and> full_port_name p = Inr port \<and> changed = (\<not> access_mode p)
    else changed)"
proof -
  from assms obtain n where n: "d_len ports = Inr n" "n \<le> 1"
      and rest: "(if \<not> truthy ports then ret True
     else bindP (py (d_first ports)) (\<lambda>p. bindP (liftP (full_port_name p)) (\<lambda>current.
          thenP (guard (current = port)) (ret (\<not> access_mode p))))) s = (Inr changed, t)"
    by (auto simp: needs_change_def run_iff)
  show ?thesis
  proof (cases "truthy ports")
    case True
    with rest obtain p where "d_first ports = Inr p" "full_port_name p = Inr port" "changed = (\<not> access_mode p)" "t = s"
      by (auto simp: run_iff)
    with single_port [OF n True] True show ?thesis by auto
  next
    case False
    with rest show ?thesis by (simp add: run_iff)
  qed
qed

lemma guards_Inr:
  assumes "reconcile_guards lb ext args s = (Inr (i, changed), t)"
  shows "may_attach lb args (up_log t) i"
proof -
  from assms obtain links status vnets detail s1 s2 s3 s4 where
      l: "api_list lb ext ''/api/v2/link'' s = (Inr links, s1)" "server_port_underlay links (rc_server_port args) = Inr status"
        "status \<noteq> ''enabled''"
    and v: "api_list lb ext ''/api/v2/vnet'' s1 = (Inr vnets, s2)"
    and d: "vnet_detail lb ext i s2 = (Inr detail, s3)"
      "check_vnet_identity lb detail (rc_vnet_name args) (rc_vpc_id args) = Inr ()"
    and o': "forP (refuse_other lb ext (rc_server_port args) i) vnets s3 = (Inr (), s4)"
    and n: "needs_change (rc_server_port args) (ports_of detail) s4 = (Inr changed, t)"
    by (auto simp: reconcile_guards_def run_iff Let_def)
  have t: "t = s4" using needs_change_Inr [OF n] by simp
  have "emits up_log read_only (forP (refuse_other lb ext (rc_server_port args) i) vnets)" by (intro emits_rules)
  from emits_grows [OF this o'] have g: "set (up_log s3) \<subseteq> set (up_log s4)" .
  have "answered (up_log s4) ''/api/v2/link'' (JArr links)" "answered (up_log s4) ''/api/v2/vnet'' (JArr vnets)"
      "answered (up_log s4) (vnet_path i) detail"
    using api_list_answered [OF l(1)] api_list_answered [OF v] vnet_detail_answered [OF d(1)] g
    by (meson answered_mono order_trans)+
  moreover have "server_port_underlay links (rc_server_port args) = Inr ''disabled''"
    using l server_port_underlay_cases by blast
  moreover have "\<not> truthy (ports_of detail) \<or>
      (\<exists>p. ports_of detail = JArr [p] \<and> full_port_name p = Inr (rc_server_port args))"
    using needs_change_Inr [OF n] by (auto split: if_splits)
  ultimately show ?thesis
    using d(2) refuse_all_Inr [OF o'] unfolding may_attach_def t checked_other_def by blast
qed

lemma put_log:
  "\<exists>es. up_log (snd (api_request lb ext p ''PUT'' b s)) = up_log s @ es \<and> (es = [] \<or> (\<exists>r. es = [(Http ''PUT'' p b, r)]))"
proof -
  have "emits up_log (\<lambda>e. fst e = Http ''PUT'' p b) (api_request lb ext p ''PUT'' b)" by (intro emits_rules) simp
  moreover have "length (up_log (snd (api_request lb ext p ''PUT'' b s))) \<le> Suc (length (up_log s))"
    by (cases "l_cookie lb"; cases "fst (ext (lab s) (Http ''PUT'' p b))")
      (auto simp: api_request_def thenP_def bindP_def guard_def uplink_error_def up_issue_app split: json.split)
  ultimately obtain es where es: "up_log (snd (api_request lb ext p ''PUT'' b s)) = up_log s @ es"
      "list_all (\<lambda>e. fst e = Http ''PUT'' p b) es" "length es \<le> 1"
    unfolding emits_def by (metis add_le_cancel_left length_append plus_1_eq_Suc add.commute)
  then have "es = [] \<or> (\<exists>r. es = [(Http ''PUT'' p b, r)])" by (cases es) auto
  with es(1) show ?thesis by blast
qed

text \<open>The run of \<open>reconcile\<close> after its guards: one \<open>PUT\<close> if a change is needed, then only reads.\<close>

definition after_guards :: "up_lib \<Rightarrow> 'w up_ext \<Rightarrow> reconcile_args \<Rightarrow> int \<Rightarrow> bool \<Rightarrow> ('w, bool \<times> int \<times> string) up" where
  "after_guards lb ext args vnet_id changed =
     bindP (vnet_detail lb ext vnet_id) (\<lambda>actual.
     thenP (liftP (check_vnet_identity lb actual (rc_vnet_name args) (rc_vpc_id args)))
    (thenP (check_retained (rc_server_port args) (ports_of actual))
       (ret (changed, vnet_id, rc_server_port args))))"

lemma read_only_after [emits_rules]: "emits up_log read_only (after_guards lb ext args i c)"
  unfolding after_guards_def by (intro emits_rules)

lemma reconcile_log:
  "\<exists>pre post. up_log (snd (reconcile lb ext args s)) = up_log s @ pre @ post \<and> list_all read_only pre \<and>
     (list_all read_only post \<or>
      (\<exists>i r rest t. reconcile_guards lb ext args s = (Inr (i, True), t) \<and> up_log t = up_log s @ pre \<and>
         post = (Http ''PUT'' (vnet_path i) (Some (put_body (rc_server_port args))), r) # rest \<and> list_all read_only rest))"
proof -
  obtain r t where g: "reconcile_guards lb ext args s = (r, t)" by (cases "reconcile_guards lb ext args s")
  from emitsD [OF read_only_guards, of lb ext args s] obtain pre where
      pre: "up_log t = up_log s @ pre" "list_all read_only pre" unfolding g by auto
  show ?thesis
  proof (cases r)
    case (Inl e)
    with g pre show ?thesis by - (rule exI [of _ pre], rule exI [of _ "[]"], simp add: reconcile_def bindP_def)
  next
    case (Inr ic)
    then obtain i c where ic: "r = Inr (i, c)" by (cases ic) auto
    let ?put = "api_request lb ext (vnet_path i) ''PUT'' (Some (put_body (rc_server_port args)))"
    have run: "reconcile lb ext args s = thenP (if c then thenP ?put (ret ()) else ret ()) (after_guards lb ext args i c) t"
      using g ic by (simp add: reconcile_def bindP_def after_guards_def)
    show ?thesis
    proof (cases c)
      case False
      from emitsD [OF read_only_after, of lb ext args i c t] obtain post where
        "up_log (snd (after_guards lb ext args i c t)) = up_log t @ post" "list_all read_only post" by blast
      with run False pre show ?thesis by - (rule exI [of _ pre], rule exI [of _ post], simp add: thenP_def)
    next
      case True
      obtain pr u where p: "?put t = (pr, u)" by (cases "?put t")
      from put_log [of lb ext "vnet_path i" "Some (put_body (rc_server_port args))" t] p obtain es where
        es: "up_log u = up_log t @ es" "es = [] \<or> (\<exists>r. es = [(Http ''PUT'' (vnet_path i) (Some (put_body (rc_server_port args))), r)])"
        by auto
      have "\<exists>rest. up_log (snd (reconcile lb ext args s)) = up_log u @ rest \<and> list_all read_only rest"
      proof (cases pr)
        case (Inl e)
        with run p True show ?thesis by (simp add: thenP_def bindP_def)
      next
        case (Inr x)
        from emitsD [OF read_only_after, of lb ext args i c u] obtain rest where
          "up_log (snd (after_guards lb ext args i c u)) = up_log u @ rest" "list_all read_only rest" by blast
        with run p True Inr show ?thesis by (simp add: thenP_def bindP_def)
      qed
      then obtain rest where "up_log (snd (reconcile lb ext args s)) = up_log s @ pre @ es @ rest" "list_all read_only rest"
        using pre es(1) by auto
      with es(2) g ic True pre show ?thesis
        by - (rule exI [of _ pre], rule exI [of _ "es @ rest"], auto)
    qed
  qed
qed

section \<open>Properties of \<open>reconcile\<close>\<close>

text \<open>
  Claim C8: \<open>reconcile\<close> attaches only what it has checked. If a run sends a \<open>PUT\<close>, it sends exactly one:
  to the VNet it identified, with the requested port in access mode as the only port; and the answers
  it had read before that request show that the port's one link has underlay disabled, that the VNet
  has the expected name and VPC, that it has no port or exactly this one, and that no other VNet
  of the controller holds the port. All other requests of the run only read.
\<close>

theorem reconcile_attaches_only_checked:
  assumes "up_log st = []" and "(Http ''PUT'' p b, rep) \<in> set (up_log (snd (reconcile lb ext args st)))"
  shows "\<exists>pre post i. up_log (snd (reconcile lb ext args st)) = pre @ (Http ''PUT'' p b, rep) # post \<and>
    list_all read_only (pre @ post) \<and> p = vnet_path i \<and> b = Some (put_body (rc_server_port args)) \<and>
    may_attach lb args pre i"
proof -
  let ?put = "(Http ''PUT'' p b, rep)"
  have put: "\<not> read_only ?put" by (simp add: read_only_def)
  from reconcile_log [of lb ext args st] assms(1) obtain pre post where
      log: "up_log (snd (reconcile lb ext args st)) = pre @ post" and pre: "list_all read_only pre"
    and cases: "list_all read_only post \<or>
      (\<exists>i r rest t. reconcile_guards lb ext args st = (Inr (i, True), t) \<and> up_log t = pre \<and>
         post = (Http ''PUT'' (vnet_path i) (Some (put_body (rc_server_port args))), r) # rest \<and> list_all read_only rest)"
    by auto
  have "\<not> list_all read_only post"
    using assms(2) log pre put by (auto simp: list_all_iff)
  with cases obtain i r rest t where g: "reconcile_guards lb ext args st = (Inr (i, True), t)" "up_log t = pre"
      and post: "post = (Http ''PUT'' (vnet_path i) (Some (put_body (rc_server_port args))), r) # rest" "list_all read_only rest"
    by blast
  have "?put = (Http ''PUT'' (vnet_path i) (Some (put_body (rc_server_port args))), r)"
    using assms(2) log pre post put by (auto simp: list_all_iff)
  with log pre post guards_Inr [OF g(1)] g(2) show ?thesis
    by (intro exI [of _ pre] exI [of _ rest] exI [of _ i]) simp
qed

lemma sample_reconcile:
  "(Http ''PUT'' ''/api/v2/vnet/7'' (Some (put_body ''eth1@sno'')), HttpEmpty)
     \<in> set (up_log (snd (reconcile sample_lib sample_lab sample_reconcile_args lab_start)))"
  by code_simp

theorem reconcile_attaches_only_checked_witness:
  "\<exists>pre post i. up_log (snd (reconcile sample_lib sample_lab sample_reconcile_args lab_start)) =
      pre @ (Http ''PUT'' ''/api/v2/vnet/7'' (Some (put_body ''eth1@sno'')), HttpEmpty) # post \<and>
    may_attach sample_lib sample_reconcile_args pre i"
proof -
  have "up_log lab_start = []" by (simp add: lab_start_def)
  from reconcile_attaches_only_checked [OF this sample_reconcile] show ?thesis by blast
qed

text \<open>
  When \<open>reconcile\<close> returns, the controller has just confirmed the attachment. The last
  request of the run is a \<open>GET\<close> of the VNet whose answer has the expected name and VPC and exactly one
  port: the requested one, in access mode.
\<close>

theorem reconcile_returns_confirmed:
  assumes "reconcile lb ext args st = (Inr (changed, i, p), st')"
  shows "p = rc_server_port args \<and> (\<exists>kvs detail q. last (up_log st') = (Http ''GET'' (vnet_path i) None, HttpDoc (JObj kvs)) \<and>
    map_of kvs ''data'' = Some detail \<and>
    check_vnet_identity lb detail (rc_vnet_name args) (rc_vpc_id args) = Inr () \<and>
    ports_of detail = JArr [q] \<and> full_port_name q = Inr p \<and> access_mode q)"
proof -
  from assms obtain s1 detail s2 where d: "vnet_detail lb ext i s1 = (Inr detail, s2)"
      and c: "check_vnet_identity lb detail (rc_vnet_name args) (rc_vpc_id args) = Inr ()"
      and k: "check_retained (rc_server_port args) (ports_of detail) s2 = (Inr (), st')" and p: "p = rc_server_port args"
    by (auto simp: reconcile_def run_iff)
  from k obtain q where q: "d_len (ports_of detail) = Inr 1" "d_first (ports_of detail) = Inr q"
      "full_port_name q = Inr p" "access_mode q" "s2 = st'"
    by (auto simp: check_retained_def run_iff p)
  from q(1) have "truthy (ports_of detail)"
    by (cases "ports_of detail") (auto simp: d_len_def d_items_def bindE_Inr_iff)
  from single_port [OF q(1) order_refl this q(2,3)] have "ports_of detail = JArr [q]" .
  moreover from d have "api_request lb ext (vnet_path i) ''GET'' None s1 = (Inr detail, s2)"
    by (auto simp: vnet_detail_def run_iff split: if_splits)
  from api_get_log [OF this] obtain kvs where
    "up_log s2 = up_log s1 @ [(Http ''GET'' (vnet_path i) None, HttpDoc (JObj kvs))]" "map_of kvs ''data'' = Some detail" by blast
  ultimately show ?thesis using p c q by auto
qed

theorem reconcile_returns_confirmed_witness:
  "\<exists>kvs. last (up_log (snd (reconcile sample_lib sample_lab sample_reconcile_args lab_start))) =
     (Http ''GET'' (vnet_path 7) None, HttpDoc (JObj kvs))"
proof -
  have "fst (reconcile sample_lib sample_lab sample_reconcile_args lab_start) = Inr (True, 7, ''eth1@sno'')"
    by code_simp
  then have "reconcile sample_lib sample_lab sample_reconcile_args lab_start =
      (Inr (True, 7, ''eth1@sno''), snd (reconcile sample_lib sample_lab sample_reconcile_args lab_start))"
    by (metis surjective_pairing)
  from reconcile_returns_confirmed [OF this] show ?thesis by blast
qed

section \<open>Adapters are matched one to one\<close>

lemma distinct_from_counts:
  "(\<And>m. length (filter (\<lambda>x. g x = m) v) \<le> 1) \<Longrightarrow> distinct (map g v)"
proof (induction v)
  case (Cons x v)
  have "length (filter (\<lambda>y. g y = m) v) \<le> 1" for m using Cons.prems [of m] by (auto split: if_splits)
  moreover have "filter (\<lambda>y. g y = g x) v = []" using Cons.prems [of "g x"] by simp
  ultimately show ?case using Cons.IH by (auto simp: filter_empty_conv)
qed simp

lemma mac_to_ports_lookup:
  "(case map_of (fold (\<lambda>(port, u). dict_append (u_guest_mac u) port) v d) m of None \<Rightarrow> [] | Some ps \<Rightarrow> ps) =
   (case map_of d m of None \<Rightarrow> [] | Some ps \<Rightarrow> ps) @ map fst (filter (\<lambda>(p, u). u_guest_mac u = m) v)"
  by (induction v arbitrary: d) (auto simp: map_of_dict_append split: option.splits)

lemma mac_to_ports_distinct:
  assumes "list_all (\<lambda>(mac, ports). length ports \<le> 1) (mac_to_ports v)"
  shows "distinct (map (\<lambda>(p, u). u_guest_mac u) v)"
proof (rule distinct_from_counts)
  fix m
  have "length (case map_of (mac_to_ports v) m of None \<Rightarrow> [] | Some ps \<Rightarrow> ps) \<le> 1"
    using assms by (auto simp: list_all_iff split: option.split dest!: map_of_SomeD)
  then have "length (map fst (filter (\<lambda>(p, u). u_guest_mac u = m) v)) \<le> 1"
    using mac_to_ports_lookup [of v "[]" m] by (simp add: mac_to_ports_def)
  then show "length (filter (\<lambda>x. (case x of (p, u) \<Rightarrow> u_guest_mac u) = m) v) \<le> 1"
    by (simp add: case_prod_beta')
qed

lemma verify_one_keys:
  "verify_one lb ext key names devices ips snos acc entry s = (Inr acc', s') \<Longrightarrow>
   distinct (map fst (snd acc)) \<Longrightarrow> distinct (map fst (snd acc'))"
  by (cases acc; cases entry)
    (auto simp: verify_one_def run_iff Let_def distinct_dict_set split: if_splits)

text \<open>
  The uplinks of a VM are identified one to one. When \<open>verified_uplinks\<close> returns, no server
  port appears twice and no guest MAC belongs to two server ports.
\<close>

theorem verified_uplinks_one_to_one:
  assumes "verified_uplinks lb ext key names vm ips st = (Inr ups, st')"
  shows "distinct (map fst ups) \<and> distinct (map (\<lambda>(port, u). u_guest_mac u) ups)"
proof -
  from assms obtain links devices snos s cache where
      f: "foldP (verify_one lb ext key names devices ips snos) (\<lparr>lc_ips = [], lc_adapters = []\<rparr>, []) links s = (Inr (cache, ups), st')"
    and g: "list_all (\<lambda>(mac, ports). length ports \<le> 1) (mac_to_ports ups)"
    by (auto simp: verified_uplinks_def run_iff)
  have "distinct (map fst (snd (cache, ups)))"
    by (rule foldP_Inr_invariant [where I = "\<lambda>acc _ _. distinct (map fst (snd acc))", OF f])
      (auto dest: verify_one_keys)
  with mac_to_ports_distinct [OF g] show ?thesis by simp
qed

lemma sample_verified:
  "\<exists>ups s. verified_uplinks sample_lib sample_lab ''k'' [''sno'', ''ns-leaf-1''] ''sno'' [] lab_start = (Inr ups, s) \<and>
     map fst ups = [''eth1@sno'']"
proof -
  have "map_sum id (map fst) (fst (verified_uplinks sample_lib sample_lab ''k'' [''sno'', ''ns-leaf-1''] ''sno'' [] lab_start))
      = Inr [''eth1@sno'']" by code_simp
  then show ?thesis
    by (cases "verified_uplinks sample_lib sample_lab ''k'' [''sno'', ''ns-leaf-1''] ''sno'' [] lab_start")
      (auto simp: map_sum_def split: sum.splits)
qed

theorem verified_uplinks_one_to_one_witness:
  "\<exists>ups. map fst ups = [''eth1@sno''] \<and> distinct (map (\<lambda>(port, u). u_guest_mac u) (ups :: (string \<times> uplink) list))"
  using sample_verified verified_uplinks_one_to_one by (elim exE conjE) (intro exI conjI, assumption, blast)

lemma observed_interfaces:
  assumes "\<forall>is \<in> ran (map_of obs). \<forall>i \<in> set is. rx_fullmatch IFACE_PATTERN i \<noteq> None"
  shows "\<forall>is \<in> ran (map_of (foldl observe_line obs ls)). \<forall>i \<in> set is. rx_fullmatch IFACE_PATTERN i \<noteq> None"
  using assms
proof (induction ls arbitrary: obs)
  case (Cons l ls)
  have "\<forall>is \<in> ran (map_of (observe_line obs l)). \<forall>i \<in> set is. rx_fullmatch IFACE_PATTERN i \<noteq> None"
  proof -
    have "\<forall>is \<in> ran (map_of (dict_append m x obs)). \<forall>i \<in> set is. rx_fullmatch IFACE_PATTERN i \<noteq> None"
      if "rx_fullmatch IFACE_PATTERN x \<noteq> None" for m x
    proof (intro ballI)
      fix "is" i
      assume "is \<in> ran (map_of (dict_append m x obs))" and i: "i \<in> set is"
      then obtain k where "map_of (dict_append m x obs) k = Some is" by (auto simp: ran_def)
      then have "map_of obs k = Some is \<or> is = (case map_of obs m of None \<Rightarrow> [] | Some vs \<Rightarrow> vs) @ [x]"
        unfolding map_of_dict_append by (metis option.inject)
      then show "rx_fullmatch IFACE_PATTERN i \<noteq> None"
      proof
        assume "map_of obs k = Some is"
        then have "is \<in> ran (map_of obs)" by (rule ranI)
        with Cons.prems i show ?thesis by blast
      next
        assume "is = (case map_of obs m of None \<Rightarrow> [] | Some vs \<Rightarrow> vs) @ [x]"
        with i consider "i = x" | vs where "map_of obs m = Some vs" "i \<in> set vs"
          by (cases "map_of obs m") auto
        then show ?thesis using that Cons.prems by cases (auto intro: ranI)
      qed
    qed
    then show ?thesis using Cons.prems by (auto simp: observe_line_def split: list.split sum.split)
  qed
  from Cons.IH [OF this] show ?case by simp
qed simp

lemma map_macs_Inr:
  assumes "map_macs req obs = Inr mapping"
  shows "map fst mapping = req \<and> (\<forall>(mac, i) \<in> set mapping. map_of obs mac = Some [i])"
  using assms unfolding map_macs_def
  by (induction req arbitrary: mapping) (auto simp: bindE_Inr_iff split: option.splits list.splits)

lemma finish_guest_Inr [run_iff]:
  "finish_guest mapping interfaces s = (Inr x, t) \<longleftrightarrow>
     (\<exists>mgmt. interfaces = [mgmt] \<and> rx_fullmatch IFACE_PATTERN mgmt \<noteq> None \<and> x = (mapping, mgmt) \<and> t = s)"
proof (cases interfaces)
  case (Cons m ms)
  then show ?thesis by (cases ms) (auto simp: finish_guest_def run_iff)
qed (simp add: finish_guest_def run_iff)

text \<open>
  Guest interfaces are resolved one to one. When \<open>guest_interfaces\<close> returns, its mapping has
  exactly the requested MAC addresses (normalised) as keys, in order and without repetition, maps no two
  of them to one interface, and names only well-formed interface names, the management interface included.
\<close>

theorem guest_interfaces_one_to_one:
  assumes "guest_interfaces ext args st = (Inr (mapping, mgmt), st')"
  shows "mapE mac_address (ga_mac args) = Inr (map fst mapping) \<and> distinct (map fst mapping) \<and>
    distinct (map snd mapping) \<and> (\<forall>i \<in> insert mgmt (snd ` set mapping). rx_fullmatch IFACE_PATTERN i \<noteq> None)"
proof -
  from assms obtain req out where m: "mapE mac_address (ga_mac args) = Inr req" "distinct req"
      and mm: "map_macs req (foldl observe_line [] (lines_of out)) = Inr mapping"
      and d: "distinct (map snd mapping)" and g: "rx_fullmatch IFACE_PATTERN mgmt \<noteq> None"
    by (auto simp: guest_interfaces_def run_iff Let_def)
  have "rx_fullmatch IFACE_PATTERN i \<noteq> None" if "(mac, i) \<in> set mapping" for mac i
  proof -
    have "[i] \<in> ran (map_of (foldl observe_line [] (lines_of out)))"
      using map_macs_Inr [OF mm] that by (auto simp: ran_def)
    with observed_interfaces [of "[]" "lines_of out"] show ?thesis by auto
  qed
  with map_macs_Inr [OF mm] m d g show ?thesis by auto
qed

definition sample_guest :: "unit up_ext" where
  "sample_guest w c = (case c of
       RunCmd argv t \<Rightarrow> (CmdDone 0 (if last argv = sysfs_command
         then ''aa:bb:cc:dd:ee:01 ens3'' else ''2: e inet h/24'') '''', ())
     | _ \<Rightarrow> (HttpFailed, ()))"

definition sample_guest_args :: guest_args where
  "sample_guest_args = \<lparr>ga_vm_mgmt_ip = ''10.0.0.9'', ga_management_address = ''h'',
     ga_host_key = ''k'', ga_mac = ['' AA:bb:cc:dd:ee:01'']\<rparr>"

theorem guest_interfaces_one_to_one_witness:
  "mapE mac_address (ga_mac sample_guest_args) = Inr (map fst [(''aa:bb:cc:dd:ee:01'', ''ens3'')])"
proof -
  let ?st = "\<lparr>lab = (), up_log = []\<rparr>"
  have "fst (guest_interfaces sample_guest sample_guest_args ?st) = Inr ([(''aa:bb:cc:dd:ee:01'', ''ens3'')], ''e'')"
    by code_simp
  then have "guest_interfaces sample_guest sample_guest_args ?st =
      (Inr ([(''aa:bb:cc:dd:ee:01'', ''ens3'')], ''e''), snd (guest_interfaces sample_guest sample_guest_args ?st))"
    by (metis surjective_pairing)
  from guest_interfaces_one_to_one [OF this] show ?thesis by (rule conjunct1)
qed

end
