(* ===== verification/Base64.thy ===== *)
theory Base64
  imports Json
begin

text \<open>
  The base64 alphabets and the encoder of Python's \<open>base64\<close> module, and what splitting the data at a
  multiple of three bytes does to the encoded text. The decoders differ between the components and stand
  with them.
\<close>

text \<open>The value of a base64 digit.\<close>

definition b64_val :: "char \<Rightarrow> nat option" where
  "b64_val c = (if in_range (CHR ''A'') (CHR ''Z'') c then Some (code c - 65)
     else if in_range (CHR ''a'') (CHR ''z'') c then Some (code c - 71)
     else if is_digit c then Some (code c + 4)
     else if c = CHR ''+'' then Some 62 else if c = CHR ''/'' then Some 63 else None)"

definition url_to_std :: "char \<Rightarrow> char" where
  "url_to_std c = (if c = CHR ''-'' then CHR ''+'' else if c = CHR ''_'' then CHR ''/'' else c)"

definition b64_digit :: "nat \<Rightarrow> char" where
  "b64_digit n = (if n < 26 then char_of (n + 65) else if n < 52 then char_of (n + 71)
     else if n < 62 then char_of (n - 4) else if n = 62 then CHR ''+'' else CHR ''/'')"

text \<open>The standard encoding with padding, as \<open>base64.b64encode\<close> writes it.\<close>

fun b64_encode :: "string \<Rightarrow> string" where
  "b64_encode [] = []"
| "b64_encode [a] = [b64_digit (code a div 4), b64_digit (code a mod 4 * 16), CHR ''='', CHR ''='']"
| "b64_encode [a, b] = [b64_digit (code a div 4), b64_digit (code a mod 4 * 16 + code b div 16),
     b64_digit (code b mod 16 * 4), CHR ''='']"
| "b64_encode (a # b # c # s) =
     [b64_digit (code a div 4), b64_digit (code a mod 4 * 16 + code b div 16),
      b64_digit (code b mod 16 * 4 + code c div 64), b64_digit (code c mod 64)] @ b64_encode s"

lemma b64_digit [simp]:
  assumes "n < 64"
  shows "b64_val (b64_digit n) = Some n" "b64_digit n \<noteq> CHR ''=''" "url_to_std (b64_digit n) = b64_digit n"
proof -
  have c: "code (b64_digit n) = (if n < 26 then n + 65 else if n < 52 then n + 71
     else if n < 62 then n - 4 else if n = 62 then 43 else 47)"
    using assms by (simp add: b64_digit_def code_def of_char_of)
  have inj: "(x = y) = (code x = code y)" for x y by (metis char_of_code)
  have lit: "(x = CHR ''='') = (code x = 61)" "(x = CHR ''-'') = (code x = 45)" "(x = CHR ''_'') = (code x = 95)"
     "(x = CHR ''+'') = (code x = 43)" "(x = CHR ''/'') = (code x = 47)" for x
    unfolding inj by (simp_all add: code_def)
  show "b64_val (b64_digit n) = Some n"
    using assms unfolding b64_val_def in_range_def is_digit_def lit c by (auto simp: code_def)
  show "b64_digit n \<noteq> CHR ''=''" using assms unfolding lit c by auto
  show "url_to_std (b64_digit n) = b64_digit n" using assms unfolding url_to_std_def lit c by auto
qed

lemma mult_add_div: "b < n \<Longrightarrow> (a * n + b) div n = (a :: nat)" "b < n \<Longrightarrow> (a * n + b) mod n = (b :: nat)"
  by simp_all

lemma b64_parts:
  fixes x y :: nat
  assumes "x < 256" "y < 256"
  shows "x div 4 < 64" "x mod 4 * 16 < 64" "x mod 4 * 16 + y div 16 < 64" "x mod 16 * 4 < 64" "x mod 64 < 64"
    "x mod 16 * 4 + y div 64 < 64"
    "x div 4 * 4 + (x mod 4 * 16) div 16 = x" "x div 4 * 4 + (x mod 4 * 16 + y div 16) div 16 = x"
    "(x mod 4 * 16 + y div 16) mod 16 = y div 16" "y div 16 * 16 + (y mod 16 * 4) div 4 = y"
    "(x mod 16 * 4 + y div 64) mod 4 = y div 64" "y div 64 * 64 + y mod 64 = y"
    "x div 16 * 16 + (x mod 16 * 4 + y div 64) div 4 = x"
proof -
  have y: "y div 16 < 16" "y div 64 < 4" using assms(2) by auto
  have x: "x mod 4 < 4" "x mod 16 < 16" by auto
  show "x div 4 < 64" using assms(1) by auto
  show "x mod 4 * 16 < 64" "x mod 16 * 4 < 64" "x mod 64 < 64" using x by auto
  show "x mod 4 * 16 + y div 16 < 64" "x mod 16 * 4 + y div 64 < 64" using x y by linarith+
  show "x div 4 * 4 + (x mod 4 * 16) div 16 = x" "y div 16 * 16 + (y mod 16 * 4) div 4 = y" "y div 64 * 64 + y mod 64 = y"
    by simp_all
  show "x div 4 * 4 + (x mod 4 * 16 + y div 16) div 16 = x" "(x mod 4 * 16 + y div 16) mod 16 = y div 16"
    using y(1) by (simp_all only: mult_add_div) simp
  show "(x mod 16 * 4 + y div 64) mod 4 = y div 64" "x div 16 * 16 + (x mod 16 * 4 + y div 64) div 4 = x"
    using y(2) by (simp_all only: mult_add_div) simp
qed

lemma url_encode: "map url_to_std (b64_encode bs) = b64_encode bs"
proof (induction bs rule: b64_encode.induct)
  case (2 a)
  have a: "code a < 256" by (rule code_less_256)
  show ?case
    unfolding b64_encode.simps list.map b64_digit(3) [OF b64_parts(1) [OF a a]] b64_digit(3) [OF b64_parts(2) [OF a a]]
    by (simp add: url_to_std_def)
next
  case (3 a b)
  have a: "code a < 256" and b: "code b < 256" by (rule code_less_256)+
  show ?case
    unfolding b64_encode.simps list.map b64_digit(3) [OF b64_parts(1) [OF a b]] b64_digit(3) [OF b64_parts(3) [OF a b]]
      b64_digit(3) [OF b64_parts(4) [OF b b]]
    by (simp add: url_to_std_def)
next
  case (4 a b c s)
  have a: "code a < 256" and b: "code b < 256" and c: "code c < 256" by (rule code_less_256)+
  show ?case
    unfolding b64_encode.simps map_append list.map b64_digit(3) [OF b64_parts(1) [OF a b]]
      b64_digit(3) [OF b64_parts(3) [OF a b]] b64_digit(3) [OF b64_parts(6) [OF b c]] b64_digit(3) [OF b64_parts(5) [OF c c]] 4 ..
qed simp

lemma b64_digit_ascii: "n < 64 \<Longrightarrow> code (b64_digit n) < 128"
  by (auto simp: b64_digit_def code_char_of code_def of_char_of)

lemma b64_encode_ascii: "list_all (\<lambda>c. code c < 128) (b64_encode s)"
proof (induction s rule: b64_encode.induct)
  case (2 a)
  have a: "code a < 256" by (rule code_less_256)
  show ?case using b64_parts(1,2) [OF a a] by (simp add: b64_digit_ascii) (simp add: code_def)
next
  case (3 a b)
  have a: "code a < 256" and b: "code b < 256" by (rule code_less_256)+
  show ?case using b64_parts(1,3) [OF a b] b64_parts(4) [OF b b] by (simp add: b64_digit_ascii) (simp add: code_def)
next
  case (4 a b c s)
  have a: "code a < 256" and b: "code b < 256" and c: "code c < 256" by (rule code_less_256)+
  show ?case using b64_parts(1,3) [OF a b] b64_parts(6) [OF b c] b64_parts(5) [OF c c] 4 by (simp add: b64_digit_ascii)
qed simp

text \<open>Whole groups encode on their own.\<close>

lemma b64_encode_append: "length a mod 3 = 0 \<Longrightarrow> b64_encode (a @ b) = b64_encode a @ b64_encode b"
proof (induction a rule: b64_encode.induct)
  case (4 x y z s)
  then have "length s mod 3 = 0" by (simp add: mod_Suc split: if_splits)
  then show ?case using 4 by simp
qed auto

lemma length_b64_encode3: "length a mod 3 = 0 \<Longrightarrow> length (b64_encode a) = length a div 3 * 4"
proof (induction a rule: b64_encode.induct)
  case (4 x y z s)
  then have m: "length s mod 3 = 0" by (simp add: mod_Suc split: if_splits)
  have "length (x # y # z # s) div 3 = Suc (length s div 3)" by simp
  then show ?case using 4(1) [OF m] by simp
qed auto

lemma length_b64_last: "0 < length l \<Longrightarrow> length l \<le> 3 \<Longrightarrow> length (b64_encode l) = 4"
  by (cases l rule: b64_encode.cases) auto

text \<open>\<open>urlsafe_b64encode\<close>\<close>

definition std_to_url :: "char \<Rightarrow> char" where
  "std_to_url c = (if c = CHR ''+'' then CHR ''-'' else if c = CHR ''/'' then CHR ''_'' else c)"

definition b64_urlsafe :: "string \<Rightarrow> string" where
  "b64_urlsafe s = map std_to_url (b64_encode s)"

lemma b64_urlsafe_append: "length a mod 3 = 0 \<Longrightarrow> b64_urlsafe (a @ b) = b64_urlsafe a @ b64_urlsafe b"
  by (simp add: b64_urlsafe_def b64_encode_append)

end
