(* ===== verification/Redact.thy ===== *)
theory Redact
  imports PyDyn Base64 "HOL-Library.Product_Lexorder"
begin

text \<open>
  \<^verbatim>\<open>.github/scripts/redact.py\<close>: replacing every secret that gitleaks found, in clear or inside an
  encoding, by a marker across a copy of the scanned logs.

  Bytes are \<open>char\<close> lists. The tree of files is an association list from absolute paths (their parts) to
  contents; a file that cannot be read has no content. Two things about paths come from outside: whether
  a path resolves inside the tree (symbolic links) and whether a file name matches a glob pattern.
\<close>

section \<open>Constants and patterns\<close>

definition REDACTED_MARKER :: string where "REDACTED_MARKER = ''[REDACTED]''"
definition MAX_DECODE_DEPTH :: nat where "MAX_DECODE_DEPTH = 5"
definition MIN_B64_LEN :: nat where "MIN_B64_LEN = 16"

definition b64_char :: "char \<Rightarrow> bool" where
  "b64_char c \<longleftrightarrow> is_alnum c \<or> c \<in> set ''+/_-''"

definition jwt_char :: "char \<Rightarrow> bool" where
  "jwt_char c \<longleftrightarrow> is_alnum c \<or> c = CHR ''_'' \<or> c = CHR ''-''"

definition hex_any :: "char \<Rightarrow> bool" where
  "hex_any c \<longleftrightarrow> is_digit c \<or> in_range (CHR ''a'') (CHR ''f'') c \<or> in_range (CHR ''A'') (CHR ''F'') c"

definition JWT_RE :: "char rx" where
  "JWT_RE = Seqs [Lit ''eyJ'', Plus (Cls jwt_char), Lit ''.'', Plus (Cls jwt_char), Lit ''.'', Plus (Cls jwt_char)]"

definition B64_BODY :: "char rx" where
  "B64_BODY = Seq (Rep True MIN_B64_LEN None (Cls b64_char)) (Rep True 0 (Some 2) (Lit ''=''))"

definition ESC_QUOTED_B64 :: "char rx" where
  "ESC_QUOTED_B64 = Seqs [Lit [CHR 0x5C, CHR 0x22], Grp 1 B64_BODY, Lit [CHR 0x5C, CHR 0x22]]"

definition RAW_QUOTED_B64 :: "char rx" where
  "RAW_QUOTED_B64 = Seqs [Lit [CHR 0x22], Grp 1 B64_BODY, Lit [CHR 0x22]]"

definition UNQUOTED_ASSIGNED_B64 :: "char rx" where
  "UNQUOTED_ASSIGNED_B64 = Seqs
     [Alt (Assert (\<lambda>s i. i = 0)) (Cls (\<lambda>c. byte_space c \<or> c \<in> set '';,|&'' \<or> c = CHR 0x22 \<or> c = CHR 0x27)),
      Alts [ILit ''token'', ILit ''password'', ILit ''passwd'', ILit ''secret'',
            Seqs [ILit ''api'', Opt (Cls (\<lambda>c. c \<in> set ''_-'')), ILit ''key''],
            Seqs [ILit ''access'', Opt (Cls (\<lambda>c. c \<in> set ''_-'')), ILit ''key''],
            Seq (ILit ''auth'') (Opt (ILit ''orization''))],
      Cls (\<lambda>c. c \<in> set '':=''),
      Grp 1 B64_BODY,
      Assert (\<lambda>s i. \<not> (i < length s \<and> (b64_char (s ! i) \<or> s ! i = CHR ''='')))]"

definition B64_TOKEN :: "char rx" where
  "B64_TOKEN = B64_BODY"

definition HEX_TOKEN :: "char rx" where
  "HEX_TOKEN = Rep True 32 None (Cls hex_any)"

definition PERCENT_RUN :: "char rx" where
  "PERCENT_RUN = Rep True 8 None (Seq (Lit ''%'') (Rep True 2 (Some 2) (Cls hex_any)))"

section \<open>The secrets of the findings\<close>

definition add_new :: "string \<Rightarrow> string list \<Rightarrow> string list" where
  "add_new v out = (if v \<noteq> [] \<and> v \<notin> set out then out @ [v] else out)"

text \<open>The \<open>while\<close> loop: the text with one, two, ... trailing backslashes removed.\<close>

fun strip_backslashes :: "string \<Rightarrow> string list \<Rightarrow> string list" where
  "strip_backslashes rev_secret out =
     (case rev_secret of [] \<Rightarrow> out
      | c # r \<Rightarrow> if c = CHR 0x5C then strip_backslashes r (add_new (rev r) out) else out)"

declare strip_backslashes.simps [simp del]

definition secret_variants :: "string \<Rightarrow> string list" where
  "secret_variants secret =
     (let out = strip_backslashes (rev secret) (add_new secret []) in
      if contains ''eyJ'' secret
      then (case rx_search JWT_RE secret of None \<Rightarrow> out | Some m \<Rightarrow> add_new (m_text secret m) out)
      else out)"

text \<open>\<open>finding.get(k) or ""\<close> where the code goes on to use it as a text.\<close>

definition text_field :: "json \<Rightarrow> string \<Rightarrow> py_error + string" where
  "text_field finding k =
     bindE (d_get finding k) (\<lambda>v. case d_or v (JStr []) of JStr s \<Rightarrow> Inr s | _ \<Rightarrow> Inl AttrErr)"

text \<open>The set is sorted by length, longest first; among equal lengths the order of a Python set is
  arbitrary, and the one of first occurrence is taken here.\<close>

definition collect_secrets :: "json list \<Rightarrow> py_error + string list" where
  "collect_secrets findings =
     bindE (mapE (\<lambda>f. text_field f ''Secret'') findings) (\<lambda>secrets.
       Inr (map utf8 (sort_key (\<lambda>s. - int (length s)) (remdups (concat (map secret_variants secrets))))))"

section \<open>Decoders\<close>

text \<open>
  \<open>binascii.a2b_base64\<close> without strict mode: characters outside the alphabet are skipped, a complete
  padding ends the data, an incomplete quantum at the end is an error. The arguments are the position
  in the quantum, the bits left over and the number of pads seen.
\<close>

fun a2b_base64 :: "nat \<Rightarrow> nat \<Rightarrow> nat \<Rightarrow> string \<Rightarrow> string option" where
  "a2b_base64 quad left pads [] = (if quad = 0 then Some [] else None)"
| "a2b_base64 quad left pads (c # s) =
     (if c = CHR ''='' then
        (if 2 \<le> quad \<and> 4 \<le> quad + Suc pads then Some []
         else a2b_base64 quad left (if 2 \<le> quad then Suc pads else pads) s)
      else (case b64_val c of
              None \<Rightarrow> a2b_base64 quad left pads s
            | Some v \<Rightarrow>
                if quad = 0 then a2b_base64 1 v 0 s
                else if quad = 1 then map_option ((#) (char_of (left * 4 + v div 16))) (a2b_base64 2 (v mod 16) 0 s)
                else if quad = 2 then map_option ((#) (char_of (left * 16 + v div 4))) (a2b_base64 3 (v mod 4) 0 s)
                else map_option ((#) (char_of (left * 64 + v))) (a2b_base64 0 0 0 s)))"

definition try_b64_decode :: "string \<Rightarrow> string option" where
  "try_b64_decode blob =
     (case a2b_base64 0 0 0 (map url_to_std (blob @ ''==='')) of
        Some d \<Rightarrow> Some d
      | None \<Rightarrow> a2b_base64 0 0 0 (blob @ ''===''))"

definition hex_val :: "char \<Rightarrow> nat" where
  "hex_val c = (if is_digit c then code c - 48 else if in_range (CHR ''a'') (CHR ''f'') c then code c - 87 else code c - 55)"

fun unhexlify :: "string \<Rightarrow> string" where
  "unhexlify (a # b # s) = char_of (16 * hex_val a + hex_val b) # unhexlify s"
| "unhexlify _ = []"

definition try_hex_decode :: "string \<Rightarrow> string option" where
  "try_hex_decode blob =
     (if length blob < 32 \<or> odd (length blob) then None
      else if list_all hex_any blob then Some (unhexlify blob) else None)"

text \<open>\<open>urllib.parse.unquote_to_bytes\<close>: a \<open>%\<close> with two hex digits is a byte, any other \<open>%\<close> stays.\<close>

fun unquote_bytes :: "string \<Rightarrow> string" where
  "unquote_bytes [] = []"
| "unquote_bytes (c # s) =
     (if c = CHR ''%'' then
        (case s of
           a # b # r \<Rightarrow> if hex_any a \<and> hex_any b then char_of (16 * hex_val a + hex_val b) # unquote_bytes r
             else c # unquote_bytes s
         | _ \<Rightarrow> c # unquote_bytes s)
      else c # unquote_bytes s)"

definition try_percent_decode :: "string \<Rightarrow> string option" where
  "try_percent_decode blob =
     (if \<not> contains ''%'' blob then None
      else if \<not> list_all (\<lambda>c. code c < 128) blob then None
      else if unquote_bytes blob = blob then None else Some (unquote_bytes blob))"

text \<open>The encoding and the depth of a finding's tags.\<close>

definition tag_step :: "(string \<times> int) \<Rightarrow> json \<Rightarrow> (string \<times> int)" where
  "tag_step acc tag =
     (case tag of
        JStr t \<Rightarrow>
          if starts_with ''decoded:'' t then (drop 8 t, snd acc)
          else if starts_with ''decode-depth:'' t
          then (fst acc, case int_of_str (drop 13 t) of None \<Rightarrow> 0 | Some d \<Rightarrow> d)
          else acc
      | _ \<Rightarrow> acc)"

text \<open>No encoding (\<open>None\<close>) is the empty text.\<close>

definition decode_tag_meta :: "json \<Rightarrow> py_error + (string \<times> int)" where
  "decode_tag_meta finding =
     bindE (d_get finding ''Tags'') (\<lambda>v.
       case d_or v (JArr []) of JArr tags \<Rightarrow> Inr (foldl tag_step ([], 0) tags) | _ \<Rightarrow> Inr ([], 0))"

section \<open>Peeling encodings\<close>

definition decoders :: "(string \<Rightarrow> string option) list" where
  "decoders = [try_b64_decode, try_hex_decode, try_percent_decode]"

definition holds_any :: "string list \<Rightarrow> string \<Rightarrow> bool" where
  "holds_any secrets d \<longleftrightarrow> list_ex (\<lambda>s. contains s d) secrets"

text \<open>The two inner loops over one layer: \<open>None\<close> when a secret is found, otherwise the values seen and the
  next frontier.\<close>

fun peel_step :: "string list \<Rightarrow> (string \<times> string option) list \<Rightarrow> string list \<Rightarrow> string list \<Rightarrow> (string list \<times> string list) option" where
  "peel_step secrets [] seen next = Some (seen, next)"
| "peel_step secrets ((current, decoded) # work) seen next =
     (case decoded of
        None \<Rightarrow> peel_step secrets work seen next
      | Some d \<Rightarrow>
          if d = current \<or> d \<in> set seen then peel_step secrets work seen next
          else if holds_any secrets d then None
          else peel_step secrets work (seen @ [d]) (next @ [d]))"

definition layer_work :: "string list \<Rightarrow> (string \<times> string option) list" where
  "layer_work frontier = concat (map (\<lambda>b. map (\<lambda>f. (b, f b)) decoders) frontier)"

fun peel_layers :: "nat \<Rightarrow> string list \<Rightarrow> string list \<Rightarrow> string list \<Rightarrow> bool" where
  "peel_layers 0 secrets frontier seen = False"
| "peel_layers (Suc n) secrets frontier seen =
     (case peel_step secrets (layer_work frontier) seen [] of
        None \<Rightarrow> True
      | Some (seen', next) \<Rightarrow> if next = [] then False else peel_layers n secrets next seen')"

definition blob_decodes_to_secret :: "string \<Rightarrow> string list \<Rightarrow> bool" where
  "blob_decodes_to_secret blob secrets = peel_layers MAX_DECODE_DEPTH secrets [blob] [blob]"

section \<open>Ranges\<close>

type_synonym span = "nat \<times> nat"

definition merge_step :: "span list \<Rightarrow> span \<Rightarrow> span list" where
  "merge_step merged r =
     (if fst r \<le> snd (last merged)
      then butlast merged @ [(fst (last merged), max (snd (last merged)) (snd r))]
      else merged @ [r])"

definition merge_ranges :: "span list \<Rightarrow> span list" where
  "merge_ranges ranges =
     (case sort ranges of [] \<Rightarrow> [] | r # rs \<Rightarrow> foldl merge_step [r] rs)"

fun apply_from :: "string \<Rightarrow> nat \<Rightarrow> span list \<Rightarrow> string" where
  "apply_from data cursor [] = drop cursor data"
| "apply_from data cursor ((start, stop) # rs) =
     slice data cursor start @ REDACTED_MARKER @ apply_from data stop rs"

definition apply_ranges :: "string \<Rightarrow> span list \<Rightarrow> string" where
  "apply_ranges data ranges =
     (case merge_ranges ranges of [] \<Rightarrow> data | merged \<Rightarrow> apply_from data 0 merged)"

definition ranges_overlap :: "span \<Rightarrow> span \<Rightarrow> bool" where
  "ranges_overlap a b \<longleftrightarrow> \<not> (snd a \<le> fst b \<or> snd b \<le> fst a)"

definition overlaps_any :: "span list \<Rightarrow> span \<Rightarrow> bool" where
  "overlaps_any spans s \<longleftrightarrow> list_ex (ranges_overlap s) spans"

text \<open>The group-1 spans of a pattern that peel to a secret, and that overlap none of \<open>skip\<close>.\<close>

definition peeling_fields :: "char rx \<Rightarrow> span list \<Rightarrow> string \<Rightarrow> string list \<Rightarrow> span list" where
  "peeling_fields r skip content secrets =
     concat (map (\<lambda>m. if \<not> overlaps_any skip (m_span m 1) \<and> blob_decodes_to_secret (m_group content m 1) secrets
       then [m_span m 1] else []) (rx_finditer r content))"

definition encoded_fields_containing_secrets :: "string \<Rightarrow> string list \<Rightarrow> span list" where
  "encoded_fields_containing_secrets content secrets =
     (if secrets = [] then []
      else (let esc = peeling_fields ESC_QUOTED_B64 [] content secrets;
                raw = peeling_fields RAW_QUOTED_B64 esc content secrets;
                assigned = peeling_fields UNQUOTED_ASSIGNED_B64 (esc @ raw) content secrets
            in esc @ raw @ assigned))"

definition m_bounds :: "rx_match \<Rightarrow> span" where
  "m_bounds m = (m_start m, m_end m)"

definition embedded_b64_token_ranges :: "string \<Rightarrow> string list \<Rightarrow> span list \<Rightarrow> span list" where
  "embedded_b64_token_ranges content secrets skip =
     (if secrets = [] then []
      else concat (map (\<lambda>m. if \<not> overlaps_any skip (m_bounds m) \<and> blob_decodes_to_secret (m_text content m) secrets
        then [m_bounds m] else []) (rx_finditer B64_TOKEN content)))"

text \<open>A decoded value that holds a secret or peels to one.\<close>

definition decoded_holds :: "string option \<Rightarrow> string list \<Rightarrow> bool" where
  "decoded_holds d secrets \<longleftrightarrow>
     (case d of None \<Rightarrow> False | Some x \<Rightarrow> holds_any secrets x \<or> blob_decodes_to_secret x secrets)"

definition embedded_hex_token_ranges :: "string \<Rightarrow> string list \<Rightarrow> span list \<Rightarrow> span list" where
  "embedded_hex_token_ranges content secrets skip =
     (if secrets = [] then []
      else concat (map (\<lambda>m. if \<not> overlaps_any skip (m_bounds m) \<and> decoded_holds (try_hex_decode (m_text content m)) secrets
        then [m_bounds m] else []) (rx_finditer HEX_TOKEN content)))"

definition percent_encoded_secret_ranges :: "string \<Rightarrow> string list \<Rightarrow> span list" where
  "percent_encoded_secret_ranges content secrets =
     (if secrets = [] then []
      else concat (map (\<lambda>m. if decoded_holds (try_percent_decode (m_text content m)) secrets
        then [m_bounds m] else []) (rx_finditer PERCENT_RUN content)))"

text \<open>
  The search loop for one text. The first argument bounds the number of occurrences; for a non-empty
  text, one more than the length of the content is enough. (For an empty one Python would loop for ever;
  \<open>collect_secrets\<close> yields none.)
\<close>

fun occurrences :: "nat \<Rightarrow> string \<Rightarrow> string \<Rightarrow> nat \<Rightarrow> span list" where
  "occurrences 0 p s start = []"
| "occurrences (Suc n) p s start =
     (case find_from p s start of None \<Rightarrow> []
      | Some i \<Rightarrow> (i, i + length p) # occurrences n p s (i + length p))"

definition plaintext_secret_ranges :: "string \<Rightarrow> string list \<Rightarrow> span list" where
  "plaintext_secret_ranges content secrets =
     concat (map (\<lambda>s. occurrences (Suc (length content)) s content 0) secrets)"

definition findings_need_jwt_wipe :: "json list \<Rightarrow> string list \<Rightarrow> bool" where
  "findings_need_jwt_wipe findings secrets \<longleftrightarrow>
     list_ex (\<lambda>f. case jget f ''RuleID'' of Some (JStr r) \<Rightarrow> lower r = ''jwt'' | _ \<Rightarrow> False) findings \<or>
     list_ex (\<lambda>s. rx_search JWT_RE s \<noteq> None) secrets"

definition jwt_token_ranges :: "string \<Rightarrow> span list" where
  "jwt_token_ranges content = map m_bounds (rx_finditer JWT_RE content)"

definition hexlify :: "string \<Rightarrow> string" where
  "hexlify s = concat (map (\<lambda>c. [hex_digit (code c div 16), hex_digit (code c mod 16)]) s)"

definition hex_encoded_secret_ranges :: "string \<Rightarrow> string list \<Rightarrow> span list" where
  "hex_encoded_secret_ranges content secrets =
     concat (map (\<lambda>s. if s = [] then []
       else occurrences (Suc (length content)) (hexlify s) (map byte_lower content) 0) secrets)"

section \<open>Columns\<close>

definition column_span :: "string \<Rightarrow> int \<Rightarrow> int \<Rightarrow> span option" where
  "column_span line start_col end_col =
     (if start_col < 1 \<or> end_col < start_col then None
      else if int (length line) \<le> start_col - 1 then None
      else Some (nat (start_col - 1), min (nat end_col) (length line)))"

fun offsets_from :: "nat \<Rightarrow> string \<Rightarrow> nat list" where
  "offsets_from i [] = []"
| "offsets_from i (c # s) = (if c = CHR 0x0A then Suc i # offsets_from (Suc i) s else offsets_from (Suc i) s)"

definition line_start_offsets :: "string \<Rightarrow> nat list" where
  "line_start_offsets raw = 0 # offsets_from 0 raw"

definition numbered_lines :: "string \<Rightarrow> string list" where
  "numbered_lines content =
     (let ls = split_on (CHR 0x0A) content in
      if ends_with [CHR 0x0A] content \<and> last ls = [] then butlast ls else ls)"

text \<open>The span of a column pair on a line, in the file; \<open>None\<close> if line or columns do not exist.\<close>

definition located :: "string \<Rightarrow> int \<Rightarrow> int \<Rightarrow> int \<Rightarrow> (span \<times> string) option" where
  "located content line_no start_col end_col =
     (let ls = numbered_lines content in
      if line_no < 1 \<or> int (length ls) < line_no then None
      else (let line = ls ! nat (line_no - 1); base = line_start_offsets content ! nat (line_no - 1) in
            case column_span line start_col end_col of
              None \<Rightarrow> None
            | Some (a, b) \<Rightarrow> Some ((base + a, base + b), slice line a b)))"

definition location_ranges :: "string \<Rightarrow> (int \<times> (int \<times> int) list) list \<Rightarrow> span list" where
  "location_ranges content line_cols =
     concat (map (\<lambda>(line_no, cols). concat (map (\<lambda>(a, b).
       case located content line_no a b of None \<Rightarrow> [] | Some (r, _) \<Rightarrow> [r]) cols)) line_cols)"

definition span_holds_secret :: "string \<Rightarrow> string list \<Rightarrow> bool" where
  "span_holds_secret blob secrets \<longleftrightarrow>
     holds_any secrets blob \<or> blob_decodes_to_secret blob secrets \<or>
     list_ex (\<lambda>m. blob_decodes_to_secret (m_text blob m) secrets) (rx_finditer B64_TOKEN blob) \<or>
     decoded_holds (try_hex_decode blob) secrets \<or> decoded_holds (try_percent_decode blob) secrets"

type_synonym column_hit = "int \<times> int \<times> int \<times> string list"

definition verified_decoded_column_ranges :: "string \<Rightarrow> column_hit list \<Rightarrow> span list" where
  "verified_decoded_column_ranges content hits =
     concat (map (\<lambda>(line_no, a, b, secrets).
       case located content line_no a b of
         None \<Rightarrow> []
       | Some (r, blob) \<Rightarrow> if secrets \<noteq> [] \<and> span_holds_secret blob secrets then [r] else []) hits)"

section \<open>The tree\<close>

type_synonym fpath = "string list"

text \<open>\<open>files\<close>: the files below the directory, with their contents (\<open>None\<close>: cannot be read). \<open>inside p\<close>:
  the path resolves inside the directory; \<open>glob pat n\<close>: the name matches the pattern.\<close>

record red_tree =
  rt_root :: fpath
  rt_files :: "(fpath \<times> string option) list"
  rt_inside :: "fpath \<Rightarrow> bool"
  rt_glob :: "string \<Rightarrow> string \<Rightarrow> bool"

definition path_parts :: "string \<Rightarrow> string list" where
  "path_parts p = filter (\<lambda>w. w \<noteq> [] \<and> w \<noteq> ''.'') (split_on (CHR ''/'') p)"

definition join_path :: "fpath \<Rightarrow> string \<Rightarrow> fpath" where
  "join_path root rel = (if starts_with ''/'' rel then path_parts rel else root @ path_parts rel)"

definition is_file :: "red_tree \<Rightarrow> fpath \<Rightarrow> bool" where
  "is_file t p \<longleftrightarrow> p \<in> set (map fst (rt_files t))"

text \<open>The files below the directory whose name matches: \<open>rglob\<close> with the two conditions of its callers.\<close>

definition tree_matches :: "red_tree \<Rightarrow> string \<Rightarrow> fpath list" where
  "tree_matches t pat =
     filter (\<lambda>p. p \<noteq> [] \<and> rt_glob t pat (last p) \<and> rt_inside t p) (map fst (rt_files t))"

definition strip_scan :: "string \<Rightarrow> string" where
  "strip_scan file_field =
     (let rel = lstrip_by (\<lambda>c. c = CHR ''/'') file_field
      in if starts_with ''scan/'' rel then drop 5 rel else rel)"

definition resolve_path :: "red_tree \<Rightarrow> string \<Rightarrow> fpath option" where
  "resolve_path t file_field =
     (if file_field = [] then None
      else (let rel = strip_scan file_field in
      if ''..'' \<in> set (path_parts rel) then None
      else (let candidate = join_path (rt_root t) rel in
      if is_file t candidate \<and> rt_inside t candidate then Some candidate
      else (case path_parts file_field of
              [] \<Rightarrow> None
            | parts \<Rightarrow>
                if last parts = ''..'' then None
                else (case tree_matches t (last parts) of [p] \<Rightarrow> Some p | _ \<Rightarrow> None)))))"

section \<open>The hits of the findings\<close>

record pending =
  pd_cols :: "(fpath \<times> int \<times> int \<times> int) list"
  pd_depth1 :: "(fpath \<times> column_hit) list"

text \<open>The position of a finding on one line: line and columns, if all are given.\<close>

definition finding_position :: "json \<Rightarrow> py_error + (json \<times> json \<times> json) option" where
  "finding_position f =
     bindE (d_get f ''StartLine'') (\<lambda>start_line.
     bindE (d_get f ''EndLine'') (\<lambda>el.
     bindE (d_get f ''StartColumn'') (\<lambda>start_col.
     bindE (d_get f ''EndColumn'') (\<lambda>end_col.
       if \<not> truthy start_line \<or> \<not> truthy start_col \<or> \<not> truthy end_col then Inr None
       else if d_or el start_line \<noteq> start_line then Inr None
       else Inr (Some (start_line, start_col, end_col))))))"

definition pending_step :: "(string \<Rightarrow> int option) \<Rightarrow> red_tree \<Rightarrow> pending \<Rightarrow> json \<Rightarrow> py_error + pending" where
  "pending_step trunc t pd f =
     bindE (text_field f ''File'') (\<lambda>file_field.
     case resolve_path t file_field of
       None \<Rightarrow> Inr pd
     | Some p \<Rightarrow>
         bindE (finding_position f) (\<lambda>pos.
         case pos of
           None \<Rightarrow> Inr pd
         | Some (sl, sc, ec) \<Rightarrow>
             bindE (decode_tag_meta f) (\<lambda>(kind, depth).
             if kind \<noteq> [] then
               (if depth = 1 then
                  bindE (text_field f ''Secret'') (\<lambda>secret.
                  bindE (d_int trunc sl) (\<lambda>l. bindE (d_int trunc sc) (\<lambda>a. bindE (d_int trunc ec) (\<lambda>b.
                    Inr (pd\<lparr>pd_depth1 := pd_depth1 pd @ [(p, l, a, b, map utf8 (secret_variants secret))]\<rparr>)))))
                else Inr pd)
             else bindE (d_int trunc sl) (\<lambda>l. bindE (d_int trunc sc) (\<lambda>a. bindE (d_int trunc ec) (\<lambda>b.
                    Inr (pd\<lparr>pd_cols := pd_cols pd @ [(p, l, a, b)]\<rparr>)))))))"

definition no_pending :: pending where
  "no_pending = \<lparr>pd_cols = [], pd_depth1 = []\<rparr>"

text \<open>\<open>pending_cols.get(path, {})\<close>: the column pairs of one file, by line in order of insertion.\<close>

definition line_cols_of :: "pending \<Rightarrow> fpath \<Rightarrow> (int \<times> (int \<times> int) list) list" where
  "line_cols_of pd p =
     foldl (\<lambda>d (q, l, a, b). if q = p then dict_append l (a, b) d else d) [] (pd_cols pd)"

definition depth1_of :: "pending \<Rightarrow> fpath \<Rightarrow> column_hit list" where
  "depth1_of pd p = map snd (filter (\<lambda>h. fst h = p) (pd_depth1 pd))"

section \<open>Redaction\<close>

definition secret_ranges :: "string \<Rightarrow> string list \<Rightarrow> span list" where
  "secret_ranges content secrets =
     (if secrets = [] then []
      else (let quoted = encoded_fields_containing_secrets content secrets;
                embedded = embedded_b64_token_ranges content secrets quoted
            in quoted @ embedded
               @ embedded_hex_token_ranges content secrets (quoted @ embedded)
               @ percent_encoded_secret_ranges content secrets
               @ plaintext_secret_ranges content secrets
               @ hex_encoded_secret_ranges content secrets))"

definition file_ranges :: "json list \<Rightarrow> string list \<Rightarrow> pending \<Rightarrow> fpath \<Rightarrow> string \<Rightarrow> span list" where
  "file_ranges findings secrets pd p content =
     secret_ranges content secrets
     @ (if findings_need_jwt_wipe findings secrets then jwt_token_ranges content else [])
     @ location_ranges content (line_cols_of pd p)
     @ verified_decoded_column_ranges content (depth1_of pd p)"

text \<open>The files to visit, sorted.\<close>

definition visit_paths :: "red_tree \<Rightarrow> pending \<Rightarrow> fpath list" where
  "visit_paths t pd =
     sort (remdups (filter (rt_inside t)
       (map fst (rt_files t) @ map fst (pd_cols pd) @ map fst (pd_depth1 pd))))"

text \<open>One file after the other; the flag tells that a file could not be read, which ends the run.\<close>

fun redact_files ::
  "(fpath \<Rightarrow> string \<Rightarrow> span list) \<Rightarrow> fpath list \<Rightarrow> (fpath \<times> string option) list \<Rightarrow> bool \<times> (fpath \<times> string option) list" where
  "redact_files ranges [] files = (True, files)"
| "redact_files ranges (p # ps) files =
     (case map_of files p of
        Some (Some content) \<Rightarrow>
          redact_files ranges ps
            (if ranges p content = [] then files
             else dict_set p (Some (apply_ranges content (ranges p content))) files)
      | _ \<Rightarrow> (False, files))"

text \<open>The result: an exception before any file is touched, or the exit status and the files.\<close>

definition redact_tree ::
  "(string \<Rightarrow> int option) \<Rightarrow> json list \<Rightarrow> red_tree \<Rightarrow> py_error + (int \<times> (fpath \<times> string option) list)" where
  "redact_tree trunc findings t =
     bindE (collect_secrets findings) (\<lambda>secrets.
     bindE (foldE (pending_step trunc t) no_pending findings) (\<lambda>pd.
       (case redact_files (file_ranges findings secrets pd) (visit_paths t pd) (rt_files t) of
          (ok, files) \<Rightarrow> Inr (if ok then 0 else 1, files))))"

section \<open>Lemmas: merging ranges\<close>

text \<open>The positions a list of ranges covers.\<close>

definition covered :: "span list \<Rightarrow> nat set" where
  "covered rs = (\<Union>r \<in> set rs. {fst r..<snd r})"

lemma covered_simps [simp]:
  "covered [] = {}" "covered (r # rs) = {fst r..<snd r} \<union> covered rs"
  "covered (as @ bs) = covered as \<union> covered bs"
  by (auto simp: covered_def)

text \<open>Ranges in order, none empty of order, with a gap between neighbours.\<close>

fun apart :: "span list \<Rightarrow> bool" where
  "apart [] = True"
| "apart [r] = (fst r \<le> snd r)"
| "apart (r # s # rs) = (fst r \<le> snd r \<and> snd r < fst s \<and> apart (s # rs))"

lemma apart_snoc: "apart (rs @ [r]) \<longleftrightarrow> fst r \<le> snd r \<and> (rs = [] \<or> apart rs \<and> snd (last rs) < fst r)"
proof (induction rs rule: apart.induct)
  case (3 a b rs)
  then show ?case by auto
qed auto

lemma merge_step_props:
  assumes "apart merged" "merged \<noteq> []" "fst (last merged) \<le> fst r" "fst r \<le> snd r"
  shows "apart (merge_step merged r) \<and> merge_step merged r \<noteq> [] \<and>
    covered (merge_step merged r) = covered merged \<union> {fst r..<snd r} \<and>
    fst (last (merge_step merged r)) \<le> fst r"
proof -
  obtain ms m where m: "merged = ms @ [m]" using assms(2) by (metis rev_exhaust)
  from assms(1) have a: "fst m \<le> snd m" "ms = [] \<or> apart ms \<and> snd (last ms) < fst m"
    by (simp_all add: m apart_snoc)
  show ?thesis
  proof (cases "fst r \<le> snd m")
    case True
    have "{fst m..<max (snd m) (snd r)} = {fst m..<snd m} \<union> {fst r..<snd r}"
      using True assms(3,4) a(1) m by auto
    with True a assms show ?thesis by (auto simp: merge_step_def m apart_snoc)
  next
    case False
    have "apart ((ms @ [m]) @ [r])" using False assms(4) a by (subst apart_snoc) (auto simp: apart_snoc)
    with False assms a show ?thesis by (auto simp: merge_step_def m)
  qed
qed

lemma foldl_merge:
  assumes "apart merged" "merged \<noteq> []" "sorted rs" "\<forall>r \<in> set rs. fst r \<le> snd r \<and> fst (last merged) \<le> fst r"
  shows "apart (foldl merge_step merged rs) \<and>
    covered (foldl merge_step merged rs) = covered merged \<union> covered rs"
  using assms
proof (induction rs arbitrary: merged)
  case (Cons r rs)
  from Cons.prems have r: "fst (last merged) \<le> fst r" "fst r \<le> snd r" by auto
  note p = merge_step_props [OF Cons.prems(1,2) r]
  have "sorted rs" using Cons.prems(3) by simp
  moreover have "\<forall>x \<in> set rs. fst x \<le> snd x \<and> fst (last (merge_step merged r)) \<le> fst x"
  proof
    fix x assume x: "x \<in> set rs"
    with Cons.prems(3) have "r \<le> x" by simp
    then have "fst r \<le> fst x" by (auto simp: less_eq_prod_def)
    with x p Cons.prems(4) show "fst x \<le> snd x \<and> fst (last (merge_step merged r)) \<le> fst x" by auto
  qed
  ultimately have "apart (foldl merge_step (merge_step merged r) rs) \<and>
      covered (foldl merge_step (merge_step merged r) rs) = covered (merge_step merged r) \<union> covered rs"
    using Cons.IH p by blast
  with p show ?case by auto
qed simp

lemma covered_set: "set as = set bs \<Longrightarrow> covered as = covered bs"
  by (simp add: covered_def)

text \<open>
  Merging ranges keeps exactly what they cover. For ranges whose ends are in order,
  \<open>merge_ranges\<close> covers the same positions, and its ranges are in order with a gap between neighbours
  (no overlap, no adjacency).
\<close>

theorem merge_ranges_exact:
  assumes "\<forall>r \<in> set rs. fst r \<le> snd r"
  shows "apart (merge_ranges rs) \<and> covered (merge_ranges rs) = covered rs"
proof (cases "sort rs")
  case Nil
  then have "rs = []" by (metis set_sort set_empty)
  then show ?thesis by (simp add: merge_ranges_def)
next
  case (Cons r qs)
  have set: "set (r # qs) = set rs" using Cons by (metis set_sort)
  have srt: "sorted (r # qs)" using Cons by (metis sorted_sort)
  have r: "fst r \<le> snd r" using assms set by auto
  have "\<forall>x \<in> set qs. fst x \<le> snd x \<and> fst (last [r]) \<le> fst x"
  proof
    fix x assume x: "x \<in> set qs"
    with srt have "r \<le> x" by simp
    then have "fst r \<le> fst x" by (auto simp: less_eq_prod_def)
    with x assms set show "fst x \<le> snd x \<and> fst (last [r]) \<le> fst x" by auto
  qed
  with foldl_merge [of "[r]" qs] srt r
  have "apart (foldl merge_step [r] qs) \<and> covered (foldl merge_step [r] qs) = covered (r # qs)" by simp
  with covered_set [OF set] show ?thesis by (simp add: merge_ranges_def Cons)
qed

theorem merge_ranges_exact_witness: "covered (merge_ranges [(5, 7), (1, 3), (3, 4)]) = covered [(5, 7), (1, 3), (3, 4)]"
  using merge_ranges_exact [of "[(5, 7), (1, 3), (3, 4)]"] by simp

section \<open>Lemmas: what is kept\<close>

fun kept_from :: "string \<Rightarrow> nat \<Rightarrow> span list \<Rightarrow> string list" where
  "kept_from data cursor [] = [drop cursor data]"
| "kept_from data cursor ((start, stop) # rs) = slice data cursor start # kept_from data stop rs"

definition kept :: "string \<Rightarrow> span list \<Rightarrow> string list" where
  "kept data rs = kept_from data 0 (merge_ranges rs)"

lemma kept_from_not_Nil [simp]: "kept_from data c rs \<noteq> []"
  by (cases rs) auto

lemma join_Cons: "ws \<noteq> [] \<Longrightarrow> join sep (w # ws) = w @ sep @ join sep ws"
  by (cases ws) auto

lemma apply_from_join: "apply_from data c rs = join REDACTED_MARKER (kept_from data c rs)"
  by (induction data c rs rule: kept_from.induct) (simp_all add: join_Cons)

lemma apply_ranges_join: "apply_ranges data rs = join REDACTED_MARKER (kept data rs)"
  by (cases "merge_ranges rs") (simp_all add: apply_ranges_def kept_def apply_from_join)

lemma apart_covered: "apart (r # rs) \<Longrightarrow> x \<in> covered (r # rs) \<Longrightarrow> fst r \<le> x"
proof (induction rs arbitrary: r)
  case (Cons s rs)
  from Cons.prems(1) have a: "fst r \<le> snd r" "snd r < fst s" "apart (s # rs)" by auto
  from Cons.prems(2) consider "x \<in> {fst r..<snd r}" | "x \<in> covered (s # rs)" by auto
  then show ?case
  proof cases
    case 2
    from Cons.IH [OF a(3) 2] a show ?thesis by simp
  qed simp
qed simp

lemma kept_from_disjoint:
  assumes "apart rs" "seg \<in> set (kept_from data c rs)" "rs \<noteq> [] \<longrightarrow> c \<le> fst (hd rs)"
  shows "\<exists>i j. seg = slice data i j \<and> {i..<j} \<inter> covered rs = {} \<and> c \<le> i"
  using assms
proof (induction data c rs rule: kept_from.induct)
  case (1 data c)
  then have "seg = slice data c (length data)" by (simp add: slice_def)
  then show ?case by (intro exI [of _ c] exI [of _ "length data"]) simp
next
  case (2 data c start stop rs)
  have tl: "apart rs" "rs \<noteq> [] \<longrightarrow> stop \<le> fst (hd rs)" "start \<le> stop"
    using "2.prems"(1) by (cases rs; auto)+
  from "2.prems"(2) consider "seg = slice data c start" | "seg \<in> set (kept_from data stop rs)" by auto
  then show ?case
  proof cases
    case 1
    have "start \<le> x" if "x \<in> covered ((start, stop) # rs)" for x
      using apart_covered [OF "2.prems"(1) that] by simp
    then have "{c..<start} \<inter> covered ((start, stop) # rs) = {}" by fastforce
    with 1 show ?thesis by blast
  next
    case 2
    from "2.IH" [OF tl(1) 2 tl(2)] obtain i j where ij: "seg = slice data i j" "{i..<j} \<inter> covered rs = {}" "stop \<le> i"
      by blast
    then have "{i..<j} \<inter> covered ((start, stop) # rs) = {}" "c \<le> i" using tl(3) "2.prems"(3) by auto
    with ij(1) show ?thesis by blast
  qed
qed

lemma kept_disjoint:
  assumes "\<forall>r \<in> set rs. fst r \<le> snd r" "seg \<in> set (kept data rs)"
  shows "\<exists>i j. seg = slice data i j \<and> {i..<j} \<inter> covered rs = {}"
proof -
  note m = merge_ranges_exact [OF assms(1)]
  from kept_from_disjoint [of "merge_ranges rs" seg data 0] m assms(2) show ?thesis
    unfolding kept_def by auto
qed

lemma slice_sublist: "sublist (slice data i j) data"
proof -
  have "data = take i data @ take (j - i) (drop i data) @ drop (j - i) (drop i data)"
    by (simp only: append_take_drop_id)
  then show ?thesis unfolding slice_def sublist_def by blast
qed

text \<open>An occurrence inside a slice is an occurrence in the whole.\<close>

lemma is_at_slice:
  assumes "is_at p (slice data i j) k" and "p \<noteq> []"
  shows "is_at p data (i + k) \<and> i + k < j"
proof -
  from assms(1) have len: "k + length p \<le> j - i" "k + length p \<le> length data - i"
    and tk: "take (length p) (drop k (take (j - i) (drop i data))) = p"
    by (auto simp: is_at_def slice_def)
  have "take (length p) (drop k (take (j - i) (drop i data))) = take (length p) (drop (i + k) data)"
    using len by (simp add: drop_take take_take add.commute min_def)
  with tk have "take (length p) (drop (i + k) data) = p" by simp
  moreover have l: "0 < length p" using assms(2) by simp
  have "i + k + length p \<le> length data" "i + k < j" using len l by arith+
  ultimately show ?thesis by (simp add: is_at_def)
qed

text \<open>The search loop finds, or covers the start of, every occurrence.\<close>

lemma occurrences_cover:
  assumes "p \<noteq> []" "is_at p s k" "start \<le> k" "length s < start + n"
  shows "\<exists>r \<in> set (occurrences n p s start). fst r \<le> k \<and> k < snd r"
  using assms(3,4)
proof (induction n arbitrary: start)
  case 0
  then show ?case using assms(1,2) by (auto simp: is_at_def)
next
  case (Suc n)
  from Suc.prems(1) assms(2) have "find_from p s start \<noteq> None" by (auto simp: find_from_None)
  then obtain i where i: "find_from p s start = Some i" by blast
  note f = find_from_Some [OF i]
  have ik: "i \<le> k" using f(3) [of k] assms(2) Suc.prems(1) by (meson not_le)
  show ?case
  proof (cases "k < i + length p")
    case True
    with i ik show ?thesis by auto
  next
    case False
    have "length p \<noteq> 0" using assms(1) by simp
    then have "length s < i + length p + n" using f(1) Suc.prems(2) by linarith
    moreover have "i + length p \<le> k" using False by simp
    ultimately show ?thesis using Suc.IH [of "i + length p"] i by auto
  qed
qed

lemma occurrences_ordered: "r \<in> set (occurrences n p s start) \<Longrightarrow> fst r \<le> snd r"
  by (induction n arbitrary: start) (auto split: option.splits)

lemma plaintext_covers:
  assumes "s \<in> set secrets" "s \<noteq> []" "is_at s content k"
  shows "k \<in> covered (plaintext_secret_ranges content secrets)"
proof -
  have "\<exists>r \<in> set (occurrences (Suc (length content)) s content 0). fst r \<le> k \<and> k < snd r"
    by (rule occurrences_cover [OF assms(2,3)]) simp_all
  then obtain r where r: "r \<in> set (occurrences (Suc (length content)) s content 0)" "k \<in> {fst r..<snd r}"
    unfolding atLeastLessThan_iff by blast
  from r(1) assms(1) have "r \<in> set (plaintext_secret_ranges content secrets)"
    unfolding plaintext_secret_ranges_def set_concat set_map by blast
  with r(2) show ?thesis unfolding covered_def by blast
qed

lemma hex_covers:
  assumes "s \<in> set secrets" "s \<noteq> []" "is_at (hexlify s) (map byte_lower content) k"
  shows "k \<in> covered (hex_encoded_secret_ranges content secrets)"
proof -
  have "hexlify s \<noteq> []" using assms(2) by (cases s) (auto simp: hexlify_def)
  then have "\<exists>r \<in> set (occurrences (Suc (length content)) (hexlify s) (map byte_lower content) 0). fst r \<le> k \<and> k < snd r"
    by (rule occurrences_cover [OF _ assms(3)]) simp_all
  then obtain r where r: "r \<in> set (occurrences (Suc (length content)) (hexlify s) (map byte_lower content) 0)"
      "k \<in> {fst r..<snd r}" unfolding atLeastLessThan_iff by blast
  from r(1) assms(1,2) have "r \<in> set (hex_encoded_secret_ranges content secrets)"
    unfolding hex_encoded_secret_ranges_def set_concat set_map
    by (intro UN_I [of "occurrences (Suc (length content)) (hexlify s) (map byte_lower content) 0"]) auto
  with r(2) show ?thesis unfolding covered_def by blast
qed

lemma slice_map: "slice (map f s) i j = map f (slice s i j)"
  by (simp add: slice_def take_map drop_map)

text \<open>If the ranges cover the starts of all occurrences, no kept segment has one.\<close>

lemma kept_no_secret:
  assumes "\<forall>r \<in> set rs. fst r \<le> snd r" "seg \<in> set (kept data rs)" "p \<noteq> []"
    and "\<And>k. is_at p (map f data) k \<Longrightarrow> k \<in> covered rs"
  shows "\<not> contains p (map f seg)"
proof
  assume "contains p (map f seg)"
  then obtain k where k: "is_at p (map f seg) k" by (auto simp: contains_iff)
  from kept_disjoint [OF assms(1,2)] obtain i j where ij: "seg = slice data i j" "{i..<j} \<inter> covered rs = {}" by blast
  from k have "is_at p (slice (map f data) i j) k" by (simp add: ij(1) slice_map)
  from is_at_slice [OF this assms(3)] have "is_at p (map f data) (i + k)" and "i + k \<in> {i..<j}" by auto
  with assms(4) ij(2) show False by blast
qed

section \<open>Lemmas: the ranges of a file\<close>

lemma concat_if_span: "r \<in> set (concat (map (\<lambda>m. if P m then [g m] else []) ms)) \<Longrightarrow> \<exists>m \<in> set ms. r = g m"
  by (auto split: if_splits)

lemma m_bounds_ordered: "m \<in> set (rx_finditer r s) \<Longrightarrow> fst (m_bounds m) \<le> snd (m_bounds m)"
  using rx_finditer_span by (auto simp: m_bounds_def)

lemma located_ordered: "located content l a b = Some (r, blob) \<Longrightarrow> fst r \<le> snd r"
  by (auto simp: located_def column_span_def Let_def split: if_splits option.splits)

lemma file_ranges_ordered: "r \<in> set (file_ranges findings secrets pd p content) \<Longrightarrow> fst r \<le> snd r"
proof -
  have f: "x \<in> set (peeling_fields rx skip content secrets) \<Longrightarrow> fst x \<le> snd x" for rx skip x
    unfolding peeling_fields_def using m_span_ordered by (fastforce dest!: concat_if_span)
  have b: "x \<in> set (concat (map (\<lambda>m. if P m then [m_bounds m] else []) (rx_finditer rx content))) \<Longrightarrow> fst x \<le> snd x"
    for P rx x using m_bounds_ordered by (fastforce dest!: concat_if_span)
  have s: "x \<in> set (secret_ranges content secrets) \<Longrightarrow> fst x \<le> snd x" for x
    unfolding secret_ranges_def Let_def encoded_fields_containing_secrets_def embedded_b64_token_ranges_def
      embedded_hex_token_ranges_def percent_encoded_secret_ranges_def
      plaintext_secret_ranges_def hex_encoded_secret_ranges_def
    by (auto simp: m_bounds_def rx_finditer_span split: if_splits dest: f occurrences_ordered)
  assume "r \<in> set (file_ranges findings secrets pd p content)"
  then show ?thesis
    unfolding file_ranges_def location_ranges_def verified_decoded_column_ranges_def jwt_token_ranges_def
    by (auto simp: m_bounds_def rx_finditer_span split: if_splits option.splits dest: s located_ordered [OF sym])
qed

section \<open>Lemmas: the run over the files\<close>

lemma strip_backslashes_nonempty: "[] \<notin> set out \<Longrightarrow> [] \<notin> set (strip_backslashes r out)"
proof (induction r out rule: strip_backslashes.induct)
  case (1 r out)
  show ?case
  proof (cases r)
    case (Cons c r')
    have a: "[] \<notin> set (add_new (rev r') out)" using 1(2) by (auto simp: add_new_def)
    show ?thesis
    proof (cases "c = CHR 0x5C")
      case True
      from 1(1) [OF Cons True a] show ?thesis
        unfolding Cons by (subst strip_backslashes.simps) (simp add: True)
    next
      case False
      with 1(2) show ?thesis unfolding Cons by (subst strip_backslashes.simps) simp
    qed
  qed (use 1 in \<open>simp add: strip_backslashes.simps [of "[]"]\<close>)
qed

lemma secret_variants_nonempty: "[] \<notin> set (secret_variants s)"
proof -
  have a: "[] \<notin> set out \<Longrightarrow> [] \<notin> set (add_new v out)" for v out by (auto simp: add_new_def)
  have "[] \<notin> set (strip_backslashes (rev s) (add_new s []))"
    by (intro strip_backslashes_nonempty a) simp
  then show ?thesis by (auto simp: secret_variants_def Let_def a split: option.split)
qed

lemma utf8_empty [simp]: "utf8 s = [] \<longleftrightarrow> s = []"
  by (cases s) (auto simp: utf8_def)

lemma collect_secrets_nonempty: "collect_secrets findings = Inr secrets \<Longrightarrow> [] \<notin> set secrets"
proof -
  assume "collect_secrets findings = Inr secrets"
  then obtain ss where ss: "secrets = map utf8 (sort_key (\<lambda>s. - int (length s)) (remdups (concat (map secret_variants ss))))"
    by (auto simp: collect_secrets_def bindE_Inr_iff)
  show ?thesis
  proof
    assume "[] \<in> set secrets"
    then obtain s v where "v \<in> set (secret_variants s)" "[] = utf8 v" unfolding ss by auto
    moreover from this(2) have "v = []" by (metis utf8_empty)
    ultimately show False using secret_variants_nonempty by blast
  qed
qed

lemma redact_files_spec:
  assumes "redact_files ranges ps files = (True, files')" "distinct ps"
  shows "(\<forall>p \<in> set ps. \<exists>c. map_of files p = Some (Some c) \<and>
      map_of files' p = Some (Some (apply_ranges c (ranges p c)))) \<and>
    (\<forall>p. p \<notin> set ps \<longrightarrow> map_of files' p = map_of files p)"
  using assms
proof (induction ranges ps files rule: redact_files.induct)
  case (2 ranges p ps files)
  from "2.prems"(1) obtain c where c: "map_of files p = Some (Some c)"
    by (auto split: option.splits)
  let ?new = "if ranges p c = [] then files else dict_set p (Some (apply_ranges c (ranges p c))) files"
  have run: "redact_files ranges ps ?new = (True, files')" using "2.prems"(1) c by simp
  have d: "distinct ps" "p \<notin> set ps" using "2.prems"(2) by auto
  have new: "map_of ?new q = (if q = p then Some (Some (apply_ranges c (ranges p c))) else map_of files q)" for q
    using c by (auto simp: map_of_dict_set apply_ranges_def merge_ranges_def)
  note IH = "2.IH" [OF c refl run d(1)]
  show ?case
  proof (intro conjI ballI allI impI)
    fix x assume x: "x \<in> set (p # ps)"
    show "\<exists>c. map_of files x = Some (Some c) \<and> map_of files' x = Some (Some (apply_ranges c (ranges x c)))"
    proof (cases "x = p")
      case True
      have "map_of files' p = map_of ?new p" using IH d(2) by blast
      with True c new show ?thesis by simp
    next
      case False
      with x have "x \<in> set ps" by simp
      with IH obtain b where "map_of ?new x = Some (Some b)" "map_of files' x = Some (Some (apply_ranges b (ranges x b)))"
        by blast
      with new [of x] False show ?thesis by (intro exI [of _ b]) simp
    qed
  next
    fix x assume x: "x \<notin> set (p # ps)"
    then have "map_of files' x = map_of ?new x" using IH by simp
    with new [of x] x show "map_of files' x = map_of files x" by simp
  qed
qed simp

text \<open>
  Claim C9: after a successful redaction no file below the directory shows a secret. For every file
  inside the tree, the new content is a sequence of pieces of the old content with a marker between
  neighbours, and no piece contains any secret variant in clear, nor its hexadecimal form in any
  mixture of cases.
\<close>

theorem redact_tree_leaves_no_secret:
  assumes "redact_tree trunc findings t = Inr (0, files')" and "collect_secrets findings = Inr secrets"
    and "map_of (rt_files t) p = Some (Some content)" and "rt_inside t p"
  shows "\<exists>segs. map_of files' p = Some (Some (join REDACTED_MARKER segs)) \<and>
    (\<forall>seg \<in> set segs. sublist seg content \<and>
       (\<forall>s \<in> set secrets. \<not> contains s seg \<and> \<not> contains (hexlify s) (map byte_lower seg)))"
proof -
  from assms(1) [unfolded redact_tree_def assms(2) bindE_simps bindE_Inr_iff] obtain pd where
      pd: "(case redact_files (file_ranges findings secrets pd) (visit_paths t pd) (rt_files t) of
          (ok, files) \<Rightarrow> Inr (if ok then 0 else 1, files)) = (Inr (0, files') :: py_error + int \<times> _)" by (elim exE conjE)
  obtain ok fs where r: "redact_files (file_ranges findings secrets pd) (visit_paths t pd) (rt_files t) = (ok, fs)"
    by (cases "redact_files (file_ranges findings secrets pd) (visit_paths t pd) (rt_files t)")
  from pd [unfolded r] have run: "redact_files (file_ranges findings secrets pd) (visit_paths t pd) (rt_files t) = (True, files')"
    by (simp add: r split: if_splits)
  let ?rs = "file_ranges findings secrets pd p content"
  have "p \<in> fst ` set (rt_files t)" using map_of_SomeD [OF assms(3)] by (metis fst_conv image_eqI)
  then have "p \<in> set (visit_paths t pd)" using assms(4) by (simp add: visit_paths_def)
  moreover have "distinct (visit_paths t pd)" by (simp add: visit_paths_def)
  ultimately have "\<exists>c. map_of (rt_files t) p = Some (Some c) \<and>
      map_of files' p = Some (Some (apply_ranges c (file_ranges findings secrets pd p c)))"
    using redact_files_spec [OF run] by blast
  then have new: "map_of files' p = Some (Some (apply_ranges content ?rs))" using assms(3) by simp
  have ord: "\<forall>r \<in> set ?rs. fst r \<le> snd r" using file_ranges_ordered by blast
  show ?thesis
  proof (intro exI [of _ "kept content ?rs"] conjI ballI)
    show "map_of files' p = Some (Some (join REDACTED_MARKER (kept content ?rs)))"
      using new by (simp add: apply_ranges_join)
  next
    fix seg assume "seg \<in> set (kept content ?rs)"
    from kept_disjoint [OF ord this] show "sublist seg content" using slice_sublist by auto
  next
    fix seg s assume seg: "seg \<in> set (kept content ?rs)" and s: "s \<in> set secrets"
    have ne: "s \<noteq> []" using collect_secrets_nonempty [OF assms(2)] s by auto
    have sub: "covered (plaintext_secret_ranges content secrets) \<subseteq> covered ?rs"
        "covered (hex_encoded_secret_ranges content secrets) \<subseteq> covered ?rs"
      using s by (auto simp: file_ranges_def secret_ranges_def Let_def)
    have "\<not> contains s (map id seg)"
      by (rule kept_no_secret [OF ord seg ne]) (use plaintext_covers [OF s ne] sub in auto)
    then show "\<not> contains s seg" by simp
    have "hexlify s \<noteq> []" using ne by (cases s) (auto simp: hexlify_def)
    then show "\<not> contains (hexlify s) (map byte_lower seg)"
      by (rule kept_no_secret [OF ord seg]) (use hex_covers [OF s ne] sub in auto)
  qed
qed

definition sample_findings :: "json list" where
  "sample_findings = [JObj [(''Secret'', JStr ''hunter2'')]]"

definition sample_tree :: red_tree where
  "sample_tree = \<lparr>rt_root = [''d''], rt_files = [([''d'', ''a.log''], Some ''pw hunter2.'')],
     rt_inside = (\<lambda>p. True), rt_glob = (\<lambda>pat n. pat = n)\<rparr>"

theorem redact_tree_leaves_no_secret_witness:
  "\<exists>segs. map_of [([''d'', ''a.log''], Some ''pw [REDACTED].'')] [''d'', ''a.log''] =
      Some (Some (join REDACTED_MARKER segs)) \<and> (\<nexists>seg. seg \<in> set segs \<and> contains ''hunter2'' seg)"
proof -
  have "redact_tree (\<lambda>_. None) sample_findings sample_tree = Inr (0, [([''d'', ''a.log''], Some ''pw [REDACTED].'')])"
    "collect_secrets sample_findings = Inr [''hunter2'']" by code_simp+
  moreover have "map_of (rt_files sample_tree) [''d'', ''a.log''] = Some (Some ''pw hunter2.'')"
    "rt_inside sample_tree [''d'', ''a.log'']" by (simp_all add: sample_tree_def)
  ultimately show ?thesis
    using redact_tree_leaves_no_secret [of "\<lambda>_. None" sample_findings sample_tree] by fastforce
qed

section \<open>Peeling finds exactly the reachable secrets\<close>

text \<open>\<open>peels b n d\<close>: \<open>n\<close> decodings lead from \<open>b\<close> to \<open>d\<close>.\<close>

inductive peels :: "string \<Rightarrow> nat \<Rightarrow> string \<Rightarrow> bool" where
  start: "peels b 0 b"
| layer: "peels b n x \<Longrightarrow> f \<in> set decoders \<Longrightarrow> f x = Some y \<Longrightarrow> peels b (Suc n) y"

inductive_cases peels_SucE: "peels b (Suc n) y"
inductive_simps peels_0: "peels b 0 y"

definition peel_reach :: "string \<Rightarrow> nat \<Rightarrow> string set" where
  "peel_reach b k = {d. \<exists>m \<le> k. peels b m d}"

definition peel_succ :: "string set \<Rightarrow> string set" where
  "peel_succ S = {y. \<exists>x \<in> S. \<exists>f \<in> set decoders. Some y = f x}"

lemma peel_reach_0: "peel_reach b 0 = {b}"
  by (auto simp: peel_reach_def peels_0)

lemma peel_reach_Suc: "peel_reach b (Suc k) = peel_reach b k \<union> peel_succ (peel_reach b k)"
proof
  show "peel_reach b (Suc k) \<subseteq> peel_reach b k \<union> peel_succ (peel_reach b k)"
  proof
    fix d assume "d \<in> peel_reach b (Suc k)"
    then obtain m where m: "m \<le> Suc k" "peels b m d" by (auto simp: peel_reach_def)
    show "d \<in> peel_reach b k \<union> peel_succ (peel_reach b k)"
    proof (cases m)
      case 0
      with m show ?thesis by (auto simp: peel_reach_def)
    next
      case (Suc n)
      with m(2) obtain x f where "peels b n x" "f \<in> set decoders" "Some d = f x" by (auto elim!: peels_SucE)
      with m(1) Suc show ?thesis unfolding peel_succ_def peel_reach_def by blast
    qed
  qed
  have "peel_succ (peel_reach b k) \<subseteq> peel_reach b (Suc k)"
  proof
    fix y assume "y \<in> peel_succ (peel_reach b k)"
    then obtain x f m where "m \<le> k" "peels b m x" "f \<in> set decoders" "f x = Some y"
      unfolding peel_succ_def peel_reach_def by auto
    from this(1) peels.layer [OF this(2-4)] show "y \<in> peel_reach b (Suc k)"
      unfolding peel_reach_def by (auto intro: exI [of _ "Suc m"])
  qed
  then show "peel_reach b k \<union> peel_succ (peel_reach b k) \<subseteq> peel_reach b (Suc k)"
    by (auto simp: peel_reach_def intro: le_SucI)
qed

text \<open>The new values of one layer.\<close>

definition work_values :: "(string \<times> string option) list \<Rightarrow> string set" where
  "work_values work = {d. \<exists>c. (c, Some d) \<in> set work \<and> d \<noteq> c}"

lemma work_values_Cons:
  "work_values ((c, r) # work) = (case r of None \<Rightarrow> {} | Some d \<Rightarrow> if d = c then {} else {d}) \<union> work_values work"
  by (auto simp: work_values_def split: option.splits)

lemma peel_step_spec:
  "(peel_step secrets work seen next = None \<longleftrightarrow> (\<exists>d \<in> work_values work. d \<notin> set seen \<and> holds_any secrets d)) \<and>
   (\<forall>seen' next'. peel_step secrets work seen next = Some (seen', next') \<longrightarrow>
      set seen' = set seen \<union> work_values work \<and> set next' = set next \<union> (work_values work - set seen))"
proof (induction secrets work seen "next" rule: peel_step.induct)
  case (1 secrets seen "next")
  then show ?case by (simp add: work_values_def)
next
  case (2 secrets current decoded work seen "next")
  show ?case
  proof (cases decoded)
    case None
    with 2(1) show ?thesis by (simp add: work_values_Cons)
  next
    case (Some d)
    consider (skip) "d = current \<or> d \<in> set seen" | (found) "\<not> (d = current \<or> d \<in> set seen)" "holds_any secrets d"
      | (new) "\<not> (d = current \<or> d \<in> set seen)" "\<not> holds_any secrets d" by blast
    then show ?thesis
    proof cases
      case skip
      with 2(2) [OF Some skip] Some show ?thesis by (auto simp: work_values_Cons)
    next
      case found
      with Some show ?thesis by (auto simp: work_values_Cons)
    next
      case new
      with 2(3) [OF Some new] Some show ?thesis by (auto simp: work_values_Cons)
    qed
  qed
qed

lemma work_values_layer: "work_values (layer_work frontier) \<union> set frontier = peel_succ (set frontier) \<union> set frontier"
proof (rule set_eqI)
  fix d
  have a: "d \<in> work_values (layer_work frontier) \<longleftrightarrow> (\<exists>c \<in> set frontier. \<exists>f \<in> set decoders. Some d = f c \<and> d \<noteq> c)"
    unfolding work_values_def layer_work_def by auto
  have b: "d \<in> peel_succ (set frontier) \<longleftrightarrow> (\<exists>c \<in> set frontier. \<exists>f \<in> set decoders. Some d = f c)"
    unfolding peel_succ_def by simp
  show "d \<in> work_values (layer_work frontier) \<union> set frontier \<longleftrightarrow> d \<in> peel_succ (set frontier) \<union> set frontier"
    unfolding Un_iff a b by blast
qed

lemma peel_succ_Un: "peel_succ (A \<union> B) = peel_succ A \<union> peel_succ B"
  by (auto simp: peel_succ_def)

lemma peel_succ_mono: "A \<subseteq> B \<Longrightarrow> peel_succ A \<subseteq> peel_succ B"
  by (auto simp: peel_succ_def)

lemma peel_reach_mono: "j \<le> k \<Longrightarrow> peel_reach b j \<subseteq> peel_reach b k"
  unfolding peel_reach_def by (blast intro: le_trans)

lemma peel_reach_closed: "peel_succ (peel_reach b k) \<subseteq> peel_reach b k \<Longrightarrow> peel_reach b (k + n) = peel_reach b k"
proof (induction n)
  case (Suc n)
  then have "peel_reach b (Suc (k + n)) = peel_reach b k \<union> peel_succ (peel_reach b k)"
    by (simp add: peel_reach_Suc)
  with Suc.prems show ?case by auto
qed simp

lemma peel_layers_iff:
  assumes "set seen = peel_reach b k" "set frontier \<subseteq> set seen"
    and "peel_succ (set seen - set frontier) \<subseteq> set seen"
    and "\<And>d. d \<in> set seen \<Longrightarrow> d \<noteq> b \<Longrightarrow> \<not> holds_any secrets d"
  shows "peel_layers n secrets frontier seen \<longleftrightarrow> (\<exists>d \<in> peel_reach b (k + n). d \<noteq> b \<and> holds_any secrets d)"
  using assms
proof (induction n arbitrary: k frontier seen)
  case 0
  then show ?case by auto
next
  case (Suc n)
  let ?w = "work_values (layer_work frontier)"
  have b: "b \<in> set seen" unfolding Suc.prems(1) peel_reach_def using peels.start by blast
  have "peel_succ (set seen) = peel_succ (set seen - set frontier) \<union> peel_succ (set frontier)"
    using Suc.prems(2) by (metis Un_Diff_cancel2 Un_absorb2 peel_succ_Un)
  then have next_reach: "peel_reach b (Suc k) = set seen \<union> ?w"
    using Suc.prems(1-3) work_values_layer [of frontier] by (auto simp: peel_reach_Suc)
  show ?case
  proof (cases "peel_step secrets (layer_work frontier) seen []")
    case None
    with peel_step_spec [of secrets "layer_work frontier" seen "[]"] obtain d where
      d: "d \<in> ?w" "d \<notin> set seen" "holds_any secrets d" by blast
    then have "d \<in> peel_reach b (k + Suc n)" "d \<noteq> b"
      using next_reach peel_reach_mono [of "Suc k" "k + Suc n" b] b by auto
    with None d(3) show ?thesis by auto
  next
    case (Some r)
    then obtain seen' frontier' where r: "peel_step secrets (layer_work frontier) seen [] = Some (seen', frontier')"
      by (cases r) auto
    with peel_step_spec [of secrets "layer_work frontier" seen "[]"] have
      s: "set seen' = set seen \<union> ?w" "set frontier' = ?w - set seen"
      and no: "\<And>d. d \<in> ?w \<Longrightarrow> d \<notin> set seen \<Longrightarrow> \<not> holds_any secrets d" by auto
    have clean: "\<And>d. d \<in> set seen' \<Longrightarrow> d \<noteq> b \<Longrightarrow> \<not> holds_any secrets d" using s(1) no Suc.prems(4) by blast
    show ?thesis
    proof (cases "frontier' = []")
      case True
      then have "peel_reach b (Suc k) = set seen" using next_reach s by auto
      then have "peel_succ (peel_reach b k) \<subseteq> peel_reach b k" using Suc.prems(1) by (auto simp: peel_reach_Suc)
      from peel_reach_closed [OF this, of "Suc n"] have "peel_reach b (k + Suc n) = set seen" using Suc.prems(1) by simp
      with True r Suc.prems(4) show ?thesis by auto
    next
      case False
      have "set seen' - set frontier' \<subseteq> set seen" using s by auto
      then have "peel_succ (set seen' - set frontier') \<subseteq> peel_reach b (Suc k)"
        using peel_succ_mono [of "set seen' - set frontier'" "set seen"] Suc.prems(1) by (auto simp: peel_reach_Suc)
      then have "peel_layers n secrets frontier' seen' \<longleftrightarrow>
          (\<exists>d \<in> peel_reach b (Suc k + n). d \<noteq> b \<and> holds_any secrets d)"
        using s next_reach clean by (intro Suc.IH) auto
      with False r show ?thesis by simp
    qed
  qed
qed

lemma blob_decodes_iff:
  "blob_decodes_to_secret blob secrets \<longleftrightarrow>
     (\<exists>n d. n \<le> 5 \<and> peels blob n d \<and> d \<noteq> blob \<and> (\<exists>s \<in> set secrets. contains s d))"
proof -
  have "blob_decodes_to_secret blob secrets \<longleftrightarrow> (\<exists>d \<in> peel_reach blob (0 + 5). d \<noteq> blob \<and> holds_any secrets d)"
    unfolding blob_decodes_to_secret_def MAX_DECODE_DEPTH_def
    by (rule peel_layers_iff) (auto simp: peel_reach_0 peel_succ_def)
  then show ?thesis by (auto simp: peel_reach_def holds_any_def list_ex_iff)
qed

text \<open>
  Claim C10: peeling finds a secret exactly when there is one to find. \<open>blob_decodes_to_secret\<close> holds if and
  only if some sequence of at most five decodings (base64, hexadecimal or percent, in any mixture) leads
  from the blob to another value that contains one of the secrets.
\<close>

theorem blob_decodes_iff_reachable:
  "blob_decodes_to_secret blob secrets \<longleftrightarrow>
     (\<exists>n d. n \<le> 5 \<and> peels blob n d \<and> d \<noteq> blob \<and> (\<exists>s \<in> set secrets. contains s d))"
  by (rule blob_decodes_iff)

section \<open>Base64 round trip\<close>

lemma a2b_quad:
  assumes "v < 64" "w < 64" "x < 64" "y < 64"
  shows "a2b_base64 0 0 0 (b64_digit v # b64_digit w # b64_digit x # b64_digit y # s) =
    map_option (\<lambda>r. char_of (v * 4 + w div 16) # char_of (w mod 16 * 16 + x div 4) # char_of (x mod 4 * 64 + y) # r)
      (a2b_base64 0 0 0 s)"
  using assms by (simp add: option.map_comp comp_def)

lemma a2b_last:
  "v < 64 \<Longrightarrow> w < 64 \<Longrightarrow> a2b_base64 0 0 0 (b64_digit v # b64_digit w # CHR ''='' # CHR ''='' # s) = Some [char_of (v * 4 + w div 16)]"
  "v < 64 \<Longrightarrow> w < 64 \<Longrightarrow> x < 64 \<Longrightarrow> a2b_base64 0 0 0 (b64_digit v # b64_digit w # b64_digit x # CHR ''='' # s) =
     Some [char_of (v * 4 + w div 16), char_of (w mod 16 * 16 + x div 4)]"
  by simp_all

lemma a2b_encode: "a2b_base64 0 0 0 (b64_encode bs @ ''==='') = Some bs"
proof (induction bs rule: b64_encode.induct)
  case (2 a)
  have a: "code a < 256" by (rule code_less_256)
  have "a2b_base64 0 0 0 (b64_encode [a] @ ''==='') = Some [char_of (code a div 4 * 4 + code a mod 4 * 16 div 16)]"
    unfolding b64_encode.simps append.simps by (rule a2b_last(1) [OF b64_parts(1,2) [OF a a]])
  then show ?case unfolding b64_parts(7) [OF a a] char_of_code .
next
  case (3 a b)
  have a: "code a < 256" and b: "code b < 256" by (rule code_less_256)+
  have "a2b_base64 0 0 0 (b64_encode [a, b] @ ''==='') = Some [char_of (code a div 4 * 4 + (code a mod 4 * 16 + code b div 16) div 16),
      char_of ((code a mod 4 * 16 + code b div 16) mod 16 * 16 + code b mod 16 * 4 div 4)]"
    unfolding b64_encode.simps append.simps by (rule a2b_last(2) [OF b64_parts(1,3) [OF a b] b64_parts(4) [OF b b]])
  then show ?case unfolding b64_parts(8,9,10) [OF a b] char_of_code .
next
  case (4 a b c s)
  have a: "code a < 256" and b: "code b < 256" and c: "code c < 256" by (rule code_less_256)+
  have "a2b_base64 0 0 0 (b64_encode (a # b # c # s) @ ''==='') =
      map_option (\<lambda>r. char_of (code a div 4 * 4 + (code a mod 4 * 16 + code b div 16) div 16) #
        char_of ((code a mod 4 * 16 + code b div 16) mod 16 * 16 + (code b mod 16 * 4 + code c div 64) div 4) #
        char_of ((code b mod 16 * 4 + code c div 64) mod 4 * 64 + code c mod 64) # r) (Some s)"
    unfolding b64_encode.simps append.simps append_Nil 4 [symmetric]
    by (rule a2b_quad [OF b64_parts(1,3) [OF a b] b64_parts(6) [OF b c] b64_parts(5) [OF c c]])
  then show ?case
    unfolding b64_parts(8,9) [OF a b] b64_parts(11,13) [OF b c] b64_parts(12) [OF c c] char_of_code option.map .
qed simp

lemma try_b64_decode_encode: "try_b64_decode (b64_encode bs) = Some bs"
proof -
  have "map url_to_std (b64_encode bs @ ''==='') = b64_encode bs @ ''===''"
    by (simp add: url_encode url_to_std_def)
  then show ?thesis by (simp only: try_b64_decode_def a2b_encode option.simps)
qed

lemma length_b64_encode: "bs \<noteq> [] \<Longrightarrow> length bs < length (b64_encode bs)"
  by (induction bs rule: b64_encode.induct) (auto, fastforce?)

lemma iterated_encode_longer: "d \<noteq> [] \<Longrightarrow> length d \<le> length ((b64_encode ^^ n) d) \<and> (n \<noteq> 0 \<longrightarrow> length d < length ((b64_encode ^^ n) d))"
proof (induction n)
  case (Suc n)
  then have "(b64_encode ^^ n) d \<noteq> []" by (metis le_zero_eq list.size(3) length_0_conv)
  from length_b64_encode [OF this] Suc show ?case by auto
qed simp

lemma peels_iterated: "peels ((b64_encode ^^ (n + k)) d) n ((b64_encode ^^ k) d)"
proof (induction n arbitrary: k)
  case (Suc n)
  have "peels ((b64_encode ^^ (Suc n + k)) d) n ((b64_encode ^^ Suc k) d)" using Suc.IH [of "Suc k"] by simp
  then show ?case
    by (rule peels.layer [where f = try_b64_decode]) (simp_all add: decoders_def try_b64_decode_encode)
qed (simp add: peels.start)

text \<open>
  Secrets wrapped in base64 are found. A text that contains a secret, encoded in standard base64
  between one and five times over, is recognised by \<open>blob_decodes_to_secret\<close>.
\<close>

theorem nested_base64_is_found:
  assumes "1 \<le> n" and "n \<le> 5" and "s \<in> set secrets" and "contains s d" and "d \<noteq> []"
  shows "blob_decodes_to_secret ((b64_encode ^^ n) d) secrets"
proof -
  have "peels ((b64_encode ^^ n) d) n d" using peels_iterated [of n 0 d] by simp
  moreover have "d \<noteq> (b64_encode ^^ n) d" using iterated_encode_longer [OF assms(5), of n] assms(1) by auto
  ultimately show ?thesis using assms unfolding blob_decodes_iff by blast
qed

theorem nested_base64_is_found_witness:
  "blob_decodes_to_secret ((b64_encode ^^ 2) ''pw=hunter2'') [''hunter2'']"
proof -
  have "contains ''hunter2'' ''pw=hunter2''" by code_simp
  then show ?thesis using nested_base64_is_found [of 2 "''hunter2''" "[''hunter2'']" "''pw=hunter2''"] by simp
qed

end
