(* ===== verification/Utf8.thy ===== *)
theory Utf8
  imports Json
begin

text \<open>
  Text beyond U+00FF. Where the program handles arbitrary Unicode text, the model keeps a text as the bytes
  of its UTF-8 form, so that \<open>encode\<close> and a strict \<open>decode\<close> are the identity on valid bytes; what a text
  operation needs to know about characters is read off \<open>utf8_points\<close>, which cuts the bytes into characters
  and into the malformed runs a Python decoder would report.
\<close>

section \<open>Decoding\<close>

definition cont :: "char \<Rightarrow> bool" where
  "cont c \<longleftrightarrow> 128 \<le> code c \<and> code c < 192"

text \<open>The bits of a continuation byte.\<close>

definition low6 :: "char \<Rightarrow> nat" where
  "low6 c = code c mod 64"

text \<open>
  The second byte allowed after a leading byte: it excludes overlong forms, surrogates and what lies
  beyond U+10FFFF.
\<close>

definition second_ok :: "nat \<Rightarrow> char \<Rightarrow> bool" where
  "second_ok b c \<longleftrightarrow> cont c \<and>
     (b = 224 \<longrightarrow> 160 \<le> code c) \<and> (b = 237 \<longrightarrow> code c < 160) \<and>
     (b = 240 \<longrightarrow> 144 \<le> code c) \<and> (b = 244 \<longrightarrow> code c < 144)"

text \<open>
  One step at a leading byte \<open>b\<close> followed by \<open>s\<close>: the code point, or \<open>None\<close> for a malformed run, and the
  number of bytes of \<open>s\<close> that belong to it. A malformed run is the longest start of a character.
\<close>

definition utf8_step :: "nat \<Rightarrow> string \<Rightarrow> nat option \<times> nat" where
  "utf8_step b s =
     (if b < 128 then (Some b, 0)
      else if 194 \<le> b \<and> b < 224 then
        (case s of c # _ \<Rightarrow> if cont c then (Some ((b - 192) * 64 + low6 c), 1) else (None, 0) | [] \<Rightarrow> (None, 0))
      else if 224 \<le> b \<and> b < 240 then
        (case s of [] \<Rightarrow> (None, 0)
         | c # t \<Rightarrow> if \<not> second_ok b c then (None, 0)
             else (case t of [] \<Rightarrow> (None, 1)
                   | d # _ \<Rightarrow> if cont d then (Some ((b - 224) * 4096 + low6 c * 64 + low6 d), 2) else (None, 1)))
      else if 240 \<le> b \<and> b < 245 then
        (case s of [] \<Rightarrow> (None, 0)
         | c # t \<Rightarrow> if \<not> second_ok b c then (None, 0)
             else (case t of [] \<Rightarrow> (None, 1)
                   | d # u \<Rightarrow> if \<not> cont d then (None, 1)
                       else (case u of [] \<Rightarrow> (None, 2)
                             | e # _ \<Rightarrow> if cont e
                                 then (Some ((b - 240) * 262144 + low6 c * 4096 + low6 d * 64 + low6 e), 3)
                                 else (None, 2))))
      else (None, 0))"

text \<open>A text as its characters with their bytes; \<open>None\<close> marks a malformed run.\<close>

function utf8_points :: "string \<Rightarrow> (nat option \<times> string) list" where
  "utf8_points [] = []"
| "utf8_points (b # s) =
     (case utf8_step (code b) s of (p, n) \<Rightarrow> (p, b # take n s) # utf8_points (drop n s))"
  by pat_completeness auto
termination by (relation "measure length") auto

lemma utf8_points_ascii: "code b < 128 \<Longrightarrow> utf8_points (b # s) = (Some (code b), [b]) # utf8_points s"
  by (simp add: utf8_step_def)

text \<open>The characters and malformed runs are the whole text, cut.\<close>

lemma utf8_points_bytes: "concat (map snd (utf8_points s)) = s"
  by (induction s rule: utf8_points.induct) (auto split: prod.splits)

lemma utf8_points_Nil [simp]: "utf8_points s = [] \<longleftrightarrow> s = []"
  by (cases s) (auto split: prod.splits)

section \<open>Text operations on the bytes\<close>

text \<open>\<open>data.decode()\<close> succeeds.\<close>

definition u_valid :: "string \<Rightarrow> bool" where
  "u_valid s \<longleftrightarrow> list_all (\<lambda>q. fst q \<noteq> None) (utf8_points s)"

text \<open>\<open>len(data.decode("utf-8", "surrogateescape"))\<close>: a malformed byte counts as one character.\<close>

definition u_len :: "string \<Rightarrow> nat" where
  "u_len s = sum_list (map (\<lambda>q. case fst q of Some _ \<Rightarrow> 1 | None \<Rightarrow> length (snd q)) (utf8_points s))"

lemma u_len_le: "u_len s \<le> length s"
proof (induction s rule: utf8_points.induct)
  case (2 b s)
  obtain p n where st: "utf8_step (code b) s = (p, n)" by fastforce
  have "u_len (b # s) = (case p of Some _ \<Rightarrow> 1 | None \<Rightarrow> Suc (length (take n s))) + u_len (drop n s)"
    by (simp add: u_len_def st split: option.splits)
  also have "\<dots> \<le> Suc (length (take n s)) + length (drop n s)"
    using 2 [OF st [symmetric]] by (simp split: option.splits)
  finally show ?case by simp
qed (simp add: u_len_def)

text \<open>ASCII text has one byte per character.\<close>

lemma u_ascii:
  "list_all (\<lambda>c. code c < 128) s \<Longrightarrow> u_valid s \<and> u_len s = length s"
  by (induction s) (simp_all add: utf8_points_ascii u_valid_def u_len_def del: utf8_points.simps(2))

text \<open>\<open>data.decode(errors="replace")\<close>: each malformed run becomes one U+FFFD.\<close>

definition u_repair :: "string \<Rightarrow> string" where
  "u_repair s = concat (map (\<lambda>q. if fst q = None then [CHR 0xEF, CHR 0xBF, CHR 0xBD] else snd q) (utf8_points s))"

lemma u_repair_valid: "u_valid s \<Longrightarrow> u_repair s = s"
proof -
  assume "u_valid s"
  then have "map (\<lambda>q. if fst q = None then [CHR 0xEF, CHR 0xBF, CHR 0xBD] else snd q) (utf8_points s)
      = map snd (utf8_points s)"
    by (auto simp: u_valid_def list_all_iff)
  then show ?thesis by (simp only: u_repair_def utf8_points_bytes)
qed

text \<open>\<open>str.isspace\<close> of one character.\<close>

definition u_space :: "nat \<Rightarrow> bool" where
  "u_space p \<longleftrightarrow> (9 \<le> p \<and> p \<le> 13) \<or> (28 \<le> p \<and> p \<le> 32) \<or> p = 133 \<or> p = 160 \<or> p = 5760
     \<or> (8192 \<le> p \<and> p \<le> 8202) \<or> p = 8232 \<or> p = 8233 \<or> p = 8239 \<or> p = 8287 \<or> p = 12288"

definition point_space :: "nat option \<times> string \<Rightarrow> bool" where
  "point_space q \<longleftrightarrow> (case fst q of Some p \<Rightarrow> u_space p | None \<Rightarrow> False)"

text \<open>\<open>text.split()\<close>, \<open>text.lstrip()\<close> and \<open>text.strip()\<close>.\<close>

definition u_split :: "string \<Rightarrow> string list" where
  "u_split s = map (\<lambda>w. concat (map snd w)) (words_by point_space (utf8_points s))"

definition u_lstrip :: "string \<Rightarrow> string" where
  "u_lstrip s = concat (map snd (lstrip_by point_space (utf8_points s)))"

definition u_strip :: "string \<Rightarrow> string" where
  "u_strip s = concat (map snd (strip_by point_space (utf8_points s)))"

section \<open>The quoting of text by \<open>json.dumps\<close>\<close>

definition hex4 :: "nat \<Rightarrow> string" where
  "hex4 n = [hex_digit (n div 4096 mod 16), hex_digit (n div 256 mod 16), hex_digit (n div 16 mod 16), hex_digit (n mod 16)]"

text \<open>Outside ASCII a character becomes one escape, or the two escapes of its surrogate pair.\<close>

definition escape_point :: "nat \<Rightarrow> string" where
  "escape_point p = (if p < 128 then json_escape_char (char_of p)
     else if p < 65536 then CHR 0x5C # CHR ''u'' # hex4 p
     else (CHR 0x5C # CHR ''u'' # hex4 (55296 + (p - 65536) div 1024)) @
          (CHR 0x5C # CHR ''u'' # hex4 (56320 + (p - 65536) mod 1024)))"

text \<open>The inside of the quotes of \<open>json.dumps(text)\<close> for a well-formed text.\<close>

definition json_inner :: "string \<Rightarrow> string" where
  "json_inner s = concat (map (\<lambda>q. case fst q of Some p \<Rightarrow> escape_point p | None \<Rightarrow> []) (utf8_points s))"

lemma json_escape_char_not_Nil: "json_escape_char c \<noteq> []"
  by (simp add: json_escape_char_def)

lemma escape_point_not_Nil: "escape_point p \<noteq> []"
  by (simp add: escape_point_def json_escape_char_not_Nil)

end
