(* ===== verification/GateNeedles.thy ===== *)
theory GateNeedles
  imports PyDyn Base64 Utf8 Complex_Main
begin

text \<open>
  The inventory of known values of \<^verbatim>\<open>.github/scripts/release_gate.py\<close>: which texts of a secret file, of the
  environment and of the cluster's Secrets the gate will search for.

  A text is kept as its UTF-8 bytes (theory Utf8), a label likewise; the inventory maps the bytes of a value
  to the label under which it was found first. \<open>loads\<close> is \<open>json.loads\<close>, \<open>None\<close> being its \<open>ValueError\<close>; the
  documents it returns are those whose texts have a UTF-8 form (no lone surrogate escapes).
\<close>

section \<open>Constants\<close>

definition MIN_LEN :: nat where "MIN_LEN = 16"
definition K8S_MIN_LEN :: nat where "K8S_MIN_LEN = 12"
definition MAX_NESTING :: nat where "MAX_NESTING = 4"

definition IDENTITY_KEYS :: "string list" where
  "IDENTITY_KEYS = [''email'', ''username'', ''user'']"

definition K8S_PUBLIC_KEYS :: "string list" where
  "K8S_PUBLIC_KEYS = [''ca.crt'', ''tls.crt'', ''ca-bundle.crt'', ''service-ca.crt'', ''namespace'']"

section \<open>Entropy\<close>

text \<open>The characters of a text: a malformed run contributes each of its bytes.\<close>

definition chars_of :: "string \<Rightarrow> (nat option \<times> string) list" where
  "chars_of s = concat (map (\<lambda>q. case fst q of Some _ \<Rightarrow> [q] | None \<Rightarrow> map (\<lambda>b. (None, [b])) (snd q)) (utf8_points s))"

definition char_counts :: "'a list \<Rightarrow> nat list" where
  "char_counts xs = map (count_list xs) (remdups xs)"

definition entropy :: "string \<Rightarrow> real" where
  "entropy text = - (\<Sum>n \<leftarrow> char_counts (chars_of text).
     real n / real (length (chars_of text)) * log 2 (real n / real (length (chars_of text))))"

definition K8S_MIN_ENTROPY :: real where "K8S_MIN_ENTROPY = 5 / 2"

text \<open>
  The comparison \<open>_entropy(text) >= K8S_MIN_ENTROPY\<close> in exact integer arithmetic: with \<open>N\<close> characters that
  occur \<open>n\<close> times each, it is \<open>2 ^ (5 N) * (product of n ^ (2 n)) <= N ^ (2 N)\<close>. The theorem below relates the
  two forms; the rounding of the source's floating-point sum is not modelled.
\<close>

definition rich_enough :: "string \<Rightarrow> bool" where
  "rich_enough text \<longleftrightarrow>
     2 ^ (5 * length (chars_of text)) * prod_list (map (\<lambda>n. n ^ (2 * n)) (char_counts (chars_of text)))
       \<le> length (chars_of text) ^ (2 * length (chars_of text))"

section \<open>Base64\<close>

text \<open>
  \<open>base64.b64decode(text, validate=True)\<close>: groups of four characters of the alphabet, the last one padded;
  anything else is an error. Bits left over in the last group are ignored.
\<close>

fun b64_strict :: "string \<Rightarrow> string option" where
  "b64_strict [] = Some []"
| "b64_strict (a # b # c # d # s) =
     (case (b64_val a, b64_val b) of
        (Some v, Some w) \<Rightarrow>
          (case b64_val c of
             None \<Rightarrow> if c = CHR ''='' \<and> d = CHR ''='' \<and> s = [] then Some [char_of (v * 4 + w div 16)] else None
           | Some x \<Rightarrow>
               (case b64_val d of
                  None \<Rightarrow> if d = CHR ''='' \<and> s = []
                    then Some [char_of (v * 4 + w div 16), char_of (w mod 16 * 16 + x div 4)] else None
                | Some y \<Rightarrow> map_option (\<lambda>r. char_of (v * 4 + w div 16) # char_of (w mod 16 * 16 + x div 4) #
                      char_of (x mod 4 * 64 + y) # r) (b64_strict s)))
      | _ \<Rightarrow> None)"
| "b64_strict _ = None"

definition decode_b64 :: "string \<Rightarrow> string option" where
  "decode_b64 text = b64_strict (text @ replicate ((4 - length text mod 4) mod 4) (CHR ''=''))"

section \<open>Collecting values\<close>

type_synonym needles = "(string \<times> string) list"

text \<open>\<open>out.setdefault(k, v)\<close>\<close>

definition set_default :: "'k \<Rightarrow> 'v \<Rightarrow> ('k \<times> 'v) list \<Rightarrow> ('k \<times> 'v) list" where
  "set_default k v d = (if map_of d k = None then d @ [(k, v)] else d)"

definition sub_label :: "string \<Rightarrow> string \<Rightarrow> string" where
  "sub_label label key = (if label = [] then key else label @ ''.'' @ key)"

text \<open>What follows the first colon, as \<open>partition(":")\<close> finds it.\<close>

definition after_colon :: "string \<Rightarrow> string option" where
  "after_colon s = map_option (\<lambda>i. drop (Suc i) s) (find_from '':'' s 0)"

text \<open>
  \<open>collect_needles\<close> walks a document; \<open>add\<close> is \<open>_add_string\<close> at the depth of the document, with its text, its
  label and the inventory so far. Identity fields and what is below them are skipped.
\<close>

function (sequential)
  collect_with :: "(string \<Rightarrow> string \<Rightarrow> needles \<Rightarrow> needles) \<Rightarrow> json \<Rightarrow> string \<Rightarrow> needles \<Rightarrow> needles" and
  collect_fields :: "(string \<Rightarrow> string \<Rightarrow> needles \<Rightarrow> needles) \<Rightarrow> (string \<times> json) list \<Rightarrow> string \<Rightarrow> needles \<Rightarrow> needles" and
  collect_items :: "(string \<Rightarrow> string \<Rightarrow> needles \<Rightarrow> needles) \<Rightarrow> json list \<Rightarrow> nat \<Rightarrow> string \<Rightarrow> needles \<Rightarrow> needles" where
  "collect_with add (JObj kvs) label out = collect_fields add kvs label out"
| "collect_with add (JArr js) label out = collect_items add js 0 label out"
| "collect_with add (JStr s) label out = add s label out"
| "collect_with add _ label out = out"
| "collect_fields add [] label out = out"
| "collect_fields add ((key, item) # kvs) label out =
     collect_fields add kvs label
       (if map byte_lower key \<in> set IDENTITY_KEYS then out else collect_with add item (sub_label label key) out)"
| "collect_items add [] index label out = out"
| "collect_items add (item # js) index label out =
     collect_items add js (Suc index) label (collect_with add item (label @ ''['' @ show_nat index @ '']'') out)"
  by pat_completeness auto
termination
  by (relation "measure (case_sum (\<lambda>(_, j, _, _). size j)
        (case_sum (\<lambda>(_, kvs, _, _). size_list (size_prod (\<lambda>_. 0) size) kvs) (\<lambda>(_, js, _, _, _). size_list size js)))")
    auto

text \<open>A text that is itself a JSON object or array.\<close>

definition collect_nested :: "(string \<Rightarrow> string \<Rightarrow> needles \<Rightarrow> needles) \<Rightarrow> json option \<Rightarrow> string \<Rightarrow> needles \<Rightarrow> needles" where
  "collect_nested add doc label out =
     (case doc of None \<Rightarrow> out | Some j \<Rightarrow> if is_obj j \<or> is_arr j then collect_with add j label out else out)"

text \<open>What a text decodes to: the password of a Docker \<open>user:password\<close> pair, then the whole.\<close>

definition collect_decoded :: "(string \<Rightarrow> string \<Rightarrow> needles \<Rightarrow> needles) \<Rightarrow> string option \<Rightarrow> string \<Rightarrow> needles \<Rightarrow> needles" where
  "collect_decoded add decoded label out =
     (case decoded of None \<Rightarrow> out
      | Some d \<Rightarrow>
          if d = [] \<or> \<not> u_valid d then out
          else add d (label @ ''(decoded)'')
            (case after_colon d of None \<Rightarrow> out | Some password \<Rightarrow> add password (label @ ''(decoded password)'') out))"

text \<open>\<open>_add_string\<close> at nesting \<open>depth\<close>, where \<open>left = MAX_NESTING - depth\<close>.\<close>

fun add_string :: "(string \<Rightarrow> json option) \<Rightarrow> nat \<Rightarrow> nat \<Rightarrow> string \<Rightarrow> string \<Rightarrow> needles \<Rightarrow> needles" where
  "add_string loads 0 min_len text label out = (if u_len text < min_len then out else set_default text label out)"
| "add_string loads (Suc left) min_len text label out =
     (if u_len text < min_len then out
      else collect_decoded (add_string loads left MIN_LEN) (decode_b64 text) label
        (collect_nested (add_string loads left MIN_LEN) (loads text) label (set_default text label out)))"

definition collect_needles :: "(string \<Rightarrow> json option) \<Rightarrow> json \<Rightarrow> string \<Rightarrow> needles \<Rightarrow> needles" where
  "collect_needles loads = collect_with (add_string loads MAX_NESTING MIN_LEN)"

text \<open>The values of a secret file, given its text: of the JSON document, or of each word.\<close>

definition needles_from_secret_file :: "(string \<Rightarrow> json option) \<Rightarrow> string \<Rightarrow> needles" where
  "needles_from_secret_file loads raw =
     (case loads raw of
        Some j \<Rightarrow> collect_needles loads j [] []
      | None \<Rightarrow> foldl (\<lambda>out (index, tok). add_string loads MAX_NESTING MIN_LEN tok (''token'' @ show_nat index) out)
          [] (enumerate 0 (u_split raw)))"

section \<open>The cluster's Secrets\<close>

text \<open>\<open>(value or {}).items()\<close>\<close>

definition d_fields :: "json \<Rightarrow> py_error + (string \<times> json) list" where
  "d_fields j = (if truthy j then (case j of JObj kvs \<Rightarrow> Inr kvs | _ \<Rightarrow> Inl AttrErr) else Inr [])"

text \<open>A value in an f-string; \<open>show\<close> gives the text of a number with a fraction and of a container.\<close>

fun f_text :: "(json \<Rightarrow> string) \<Rightarrow> json \<Rightarrow> string" where
  "f_text show (JStr s) = s"
| "f_text show JNull = ''None''"
| "f_text show (JBool b) = (if b then ''True'' else ''False'')"
| "f_text show (JInt i) = show_int i"
| "f_text show j = show j"

definition get_or :: "json \<Rightarrow> string \<Rightarrow> json \<Rightarrow> py_error + json" where
  "get_or j k fallback = (case j of JObj kvs \<Rightarrow> Inr (case map_of kvs k of None \<Rightarrow> fallback | Some v \<Rightarrow> v)
     | _ \<Rightarrow> Inl AttrErr)"

definition secret_prefix :: "(json \<Rightarrow> string) \<Rightarrow> json \<Rightarrow> py_error + string" where
  "secret_prefix show item =
     bindE (get_or item ''metadata'' (JObj [])) (\<lambda>meta.
     bindE (get_or meta ''namespace'' (JStr ''?'')) (\<lambda>ns.
     bindE (get_or meta ''name'' (JStr ''?'')) (\<lambda>name.
     Inr (''secret/'' @ f_text show ns @ ''/'' @ f_text show name))))"

text \<open>The decoded data of one Secret, overridden by its \<open>stringData\<close>.\<close>

definition data_entry :: "(string \<times> string) list \<Rightarrow> string \<times> json \<Rightarrow> (string \<times> string) list" where
  "data_entry values kv = (case kv of
       (key, JStr encoded) \<Rightarrow> (case decode_b64 encoded of None \<Rightarrow> values | Some d \<Rightarrow> dict_set key (u_repair d) values)
     | _ \<Rightarrow> values)"

definition string_entry :: "(string \<times> string) list \<Rightarrow> string \<times> json \<Rightarrow> (string \<times> string) list" where
  "string_entry values kv = (case kv of (key, JStr s) \<Rightarrow> dict_set key s values | _ \<Rightarrow> values)"

definition secret_values :: "json \<Rightarrow> py_error + (string \<times> string) list" where
  "secret_values item =
     bindE (d_get item ''data'') (\<lambda>d. bindE (d_fields d) (\<lambda>data.
     bindE (d_get item ''stringData'') (\<lambda>sd. bindE (d_fields sd) (\<lambda>strings.
     Inr (foldl string_entry (foldl data_entry [] data) strings)))))"

definition looks_like_json :: "string \<Rightarrow> bool" where
  "looks_like_json text \<longleftrightarrow> starts_with ''{'' (u_lstrip text) \<or> starts_with ''['' (u_lstrip text)"

text \<open>A value that is not a document is kept by length and entropy.\<close>

definition add_plain :: "(string \<Rightarrow> json option) \<Rightarrow> string \<Rightarrow> string \<Rightarrow> needles \<Rightarrow> needles" where
  "add_plain loads label text out =
     (if K8S_MIN_LEN \<le> u_len text \<and> rich_enough text then add_string loads MAX_NESTING K8S_MIN_LEN text label out else out)"

definition k8s_value :: "(string \<Rightarrow> json option) \<Rightarrow> string \<Rightarrow> needles \<Rightarrow> string \<times> string \<Rightarrow> needles" where
  "k8s_value loads pre out kv =
     (case kv of (key, text) \<Rightarrow>
        if key \<in> set K8S_PUBLIC_KEYS \<or> starts_with ''-----BEGIN CERTIFICATE-----'' text then out
        else if looks_like_json text then
          (case loads text of Some j \<Rightarrow> collect_needles loads j (pre @ ''/'' @ key) out
           | None \<Rightarrow> add_plain loads (pre @ ''/'' @ key) text out)
        else add_plain loads (pre @ ''/'' @ key) text out)"

definition k8s_item :: "(string \<Rightarrow> json option) \<Rightarrow> (json \<Rightarrow> string) \<Rightarrow> needles \<Rightarrow> json \<Rightarrow> py_error + needles" where
  "k8s_item loads show out item =
     bindE (secret_prefix show item) (\<lambda>pre. bindE (secret_values item) (\<lambda>values.
     Inr (foldl (k8s_value loads pre) out values)))"

definition needles_from_k8s_secrets :: "(string \<Rightarrow> json option) \<Rightarrow> (json \<Rightarrow> string) \<Rightarrow> string \<Rightarrow> py_error + needles" where
  "needles_from_k8s_secrets loads show raw =
     (case loads raw of
        None \<Rightarrow> Inl ValueErr
      | Some document \<Rightarrow>
          if is_obj document then
            bindE (get_or document ''items'' (JArr [document])) (\<lambda>items.
            bindE (d_items items) (foldE (k8s_item loads show) []))
          else Inr [])"

section \<open>What the inventory contains\<close>

lemma set_default_keys: "fst ` set (set_default k v d) = insert k (fst ` set d)"
  by (auto simp: set_default_def map_of_eq_None_iff)

lemma set_default_distinct: "distinct_keys d \<Longrightarrow> distinct_keys (set_default k v d)"
  by (auto simp: set_default_def distinct_keys_def map_of_eq_None_iff)

lemma set_default_keeps: "map_of d k' = Some v' \<Longrightarrow> map_of (set_default k v d) k' = Some v'"
  by (auto simp: set_default_def map_add_def)

text \<open>Any property of the inventory that adding one text keeps is kept by the walk over a document.\<close>

lemma collect_with_invariant:
  assumes "\<And>t l out. I out \<Longrightarrow> I (add t l out)"
  shows "I out \<Longrightarrow> I (collect_with add j label out)"
    and "I out \<Longrightarrow> I (collect_fields add kvs label out)"
    and "I out \<Longrightarrow> I (collect_items add js index label out)"
  using assms
  by (induction add j label out and add kvs label out and add js index label out
      rule: collect_with_collect_fields_collect_items.induct) auto

lemma collect_nested_invariant:
  "(\<And>t l out. I out \<Longrightarrow> I (add t l out)) \<Longrightarrow> I out \<Longrightarrow> I (collect_nested add doc label out)"
  by (auto simp: collect_nested_def collect_with_invariant split: option.splits)

lemma collect_decoded_invariant:
  "(\<And>t l out. I out \<Longrightarrow> I (add t l out)) \<Longrightarrow> I out \<Longrightarrow> I (collect_decoded add d label out)"
  by (auto simp: collect_decoded_def split: option.splits)

lemma add_string_invariant:
  assumes "\<And>t l out. min min_len MIN_LEN \<le> u_len t \<Longrightarrow> I out \<Longrightarrow> I (set_default t l out)" "I out"
  shows "I (add_string loads left min_len s label out)"
  using assms
proof (induction left arbitrary: min_len s label out)
  case (Suc left)
  have rec: "I (add_string loads left MIN_LEN t l o')" if "I o'" for t l o'
    using Suc.prems(1) that by (intro Suc.IH) auto
  show ?case
    using Suc.prems by (auto intro!: collect_decoded_invariant [where I = I] collect_nested_invariant [where I = I] rec)
qed auto

lemma collect_needles_invariant:
  "(\<And>t l out. MIN_LEN \<le> u_len t \<Longrightarrow> I out \<Longrightarrow> I (set_default t l out)) \<Longrightarrow> I out \<Longrightarrow> I (collect_needles loads j label out)"
  unfolding collect_needles_def by (rule collect_with_invariant, rule add_string_invariant) auto

lemma secret_file_invariant:
  assumes "\<And>t l out. MIN_LEN \<le> u_len t \<Longrightarrow> I out \<Longrightarrow> I (set_default t l out)" "I []"
  shows "I (needles_from_secret_file loads raw)"
proof -
  have "I (foldl (\<lambda>out (index, tok). add_string loads MAX_NESTING MIN_LEN tok (''token'' @ show_nat index) out) [] xs)" for xs
    using assms by (auto intro!: foldl_invariant [where I = I] add_string_invariant [where I = I])
  then show ?thesis
    using assms by (auto simp: needles_from_secret_file_def intro!: collect_needles_invariant [where I = I] split: option.splits)
qed

lemma k8s_value_invariant:
  assumes set: "\<And>t l out. K8S_MIN_LEN \<le> u_len t \<Longrightarrow> I out \<Longrightarrow> I (set_default t l out)" and I: "I out"
  shows "I (k8s_value loads pre out kv)"
proof -
  have le: "K8S_MIN_LEN \<le> MIN_LEN" by (simp add: K8S_MIN_LEN_def MIN_LEN_def)
  have a: "I (add_plain loads l t out)" for l t
    using set I le by (auto simp: add_plain_def intro!: add_string_invariant [where I = I])
  have b: "I (collect_needles loads j l out)" for j l
    by (rule collect_needles_invariant [where I = I, OF _ I]) (meson set le le_trans)
  show ?thesis
    using I by (auto simp: k8s_value_def a b split: prod.splits option.splits)
qed

lemma k8s_item_invariant:
  assumes set: "\<And>t l out. K8S_MIN_LEN \<le> u_len t \<Longrightarrow> I out \<Longrightarrow> I (set_default t l out)"
    and "I out" "k8s_item loads show out item = Inr out'"
  shows "I out'"
proof -
  have "I (foldl (k8s_value loads pre) out vs)" for pre vs
    using assms(2) by (auto intro!: foldl_invariant [where I = I] k8s_value_invariant [where I = I] set)
  with assms(2,3) show ?thesis by (auto simp: k8s_item_def bindE_Inr_iff)
qed

lemma k8s_secrets_invariant:
  assumes set: "\<And>t l out. K8S_MIN_LEN \<le> u_len t \<Longrightarrow> I out \<Longrightarrow> I (set_default t l out)"
    and "I []" "needles_from_k8s_secrets loads show raw = Inr out"
  shows "I out"
proof -
  have step: "I b'" if "I b" "k8s_item loads show b x = Inr b'" for b x b'
    by (rule k8s_item_invariant [where I = I, OF _ that]) (rule set)
  have "I b" if "foldE (k8s_item loads show) [] xs = Inr b" for xs b
    by (rule foldE_invariant [where I = I, OF that step \<open>I []\<close>])
  with assms(2,3) show ?thesis
    by (auto simp: needles_from_k8s_secrets_def bindE_Inr_iff split: option.splits if_splits)
qed

text \<open>The texts of a document that are not below an identity field.\<close>

inductive secret_leaf :: "json \<Rightarrow> string \<Rightarrow> bool" where
  leaf_text: "secret_leaf (JStr s) s"
| leaf_field: "(k, v) \<in> set kvs \<Longrightarrow> map byte_lower k \<notin> set IDENTITY_KEYS \<Longrightarrow> secret_leaf v s \<Longrightarrow> secret_leaf (JObj kvs) s"
| leaf_item: "v \<in> set js \<Longrightarrow> secret_leaf v s \<Longrightarrow> secret_leaf (JArr js) s"

text \<open>
  Once a leaf has established a property that adding texts keeps, the property holds at the end of the walk.
\<close>

lemma collect_with_leaf:
  assumes keep: "\<And>t l out. I out \<Longrightarrow> I (add t l out)"
    and "secret_leaf j s" "\<And>l out. I (add s l out)"
  shows "I (collect_with add j label out)"
  using assms(2,3)
proof (induction arbitrary: label out rule: secret_leaf.induct)
  case (leaf_field k v kvs s)
  have "I (collect_fields add kvs label out)" for label out
    using leaf_field
    by (induction kvs arbitrary: out) (auto simp: collect_with_invariant [where I = I and add = add, OF keep])
  then show ?case by auto
next
  case (leaf_item v js s)
  have "I (collect_items add js index label out)" for index label out
    using leaf_item
    by (induction js arbitrary: index out) (auto simp: collect_with_invariant [where I = I and add = add, OF keep])
  then show ?case by auto
qed auto

lemma b64_val_pad [simp]: "b64_val (CHR ''='') = None"
  by code_simp

lemma b64_strict_quad:
  assumes "v < 64" "w < 64" "x < 64" "y < 64"
  shows "b64_strict (b64_digit v # b64_digit w # b64_digit x # b64_digit y # s) =
    map_option (\<lambda>r. char_of (v * 4 + w div 16) # char_of (w mod 16 * 16 + x div 4) # char_of (x mod 4 * 64 + y) # r)
      (b64_strict s)"
  using assms by simp

lemma b64_strict_last:
  "v < 64 \<Longrightarrow> w < 64 \<Longrightarrow> b64_strict [b64_digit v, b64_digit w, CHR ''='', CHR ''=''] = Some [char_of (v * 4 + w div 16)]"
  "v < 64 \<Longrightarrow> w < 64 \<Longrightarrow> x < 64 \<Longrightarrow> b64_strict [b64_digit v, b64_digit w, b64_digit x, CHR ''=''] =
     Some [char_of (v * 4 + w div 16), char_of (w mod 16 * 16 + x div 4)]"
  by simp_all

lemma b64_strict_encode: "b64_strict (b64_encode bs) = Some bs"
proof (induction bs rule: b64_encode.induct)
  case (2 a)
  have a: "code a < 256" by (rule code_less_256)
  have "b64_strict (b64_encode [a]) = Some [char_of (code a div 4 * 4 + code a mod 4 * 16 div 16)]"
    unfolding b64_encode.simps by (rule b64_strict_last(1) [OF b64_parts(1,2) [OF a a]])
  then show ?case unfolding b64_parts(7) [OF a a] char_of_code .
next
  case (3 a b)
  have a: "code a < 256" and b: "code b < 256" by (rule code_less_256)+
  have "b64_strict (b64_encode [a, b]) = Some [char_of (code a div 4 * 4 + (code a mod 4 * 16 + code b div 16) div 16),
      char_of ((code a mod 4 * 16 + code b div 16) mod 16 * 16 + code b mod 16 * 4 div 4)]"
    unfolding b64_encode.simps by (rule b64_strict_last(2) [OF b64_parts(1,3) [OF a b] b64_parts(4) [OF b b]])
  then show ?case unfolding b64_parts(8,9,10) [OF a b] char_of_code .
next
  case (4 a b c s)
  have a: "code a < 256" and b: "code b < 256" and c: "code c < 256" by (rule code_less_256)+
  have "b64_strict (b64_encode (a # b # c # s)) =
      map_option (\<lambda>r. char_of (code a div 4 * 4 + (code a mod 4 * 16 + code b div 16) div 16) #
        char_of ((code a mod 4 * 16 + code b div 16) mod 16 * 16 + (code b mod 16 * 4 + code c div 64) div 4) #
        char_of ((code b mod 16 * 4 + code c div 64) mod 4 * 64 + code c mod 64) # r) (Some s)"
    unfolding b64_encode.simps append.simps append_Nil 4 [symmetric]
    by (rule b64_strict_quad [OF b64_parts(1,3) [OF a b] b64_parts(6) [OF b c] b64_parts(5) [OF c c]])
  then show ?case
    unfolding b64_parts(8,9) [OF a b] b64_parts(11,13) [OF b c] b64_parts(12) [OF c c] char_of_code option.map .
qed simp

lemma length_b64_encode_mod: "length (b64_encode bs) mod 4 = 0"
  by (induction bs rule: b64_encode.induct) auto

lemma decode_b64_encode: "decode_b64 (b64_encode bs) = Some bs"
  by (simp add: decode_b64_def length_b64_encode_mod b64_strict_encode)

lemma chars_of_not_Nil: "s \<noteq> [] \<Longrightarrow> chars_of s \<noteq> []"
proof (cases s)
  case (Cons b r)
  obtain p n where "utf8_step (code b) r = (p, n)" by fastforce
  then show ?thesis by (cases p) (simp_all add: Cons chars_of_def)
qed simp

lemma char_counts_sum: "(\<Sum>n \<leftarrow> char_counts xs. n) = length xs"
proof -
  have "sum_list (map (count_list xs) (remdups xs)) = (\<Sum>x \<in> set xs. count_list xs x)"
    by (simp add: sum_list_distinct_conv_sum_set)
  then show ?thesis by (simp add: char_counts_def sum_count_set)
qed

lemma char_counts_pos: "n \<in> set (char_counts xs) \<Longrightarrow> 0 < n"
  by (auto simp: char_counts_def) (metis count_list_0_iff neq0_conv)

lemma log_prod_powers:
  "(\<And>n. n \<in> set ns \<Longrightarrow> 0 < n) \<Longrightarrow>
   0 < prod_list (map (\<lambda>n :: nat. n ^ (2 * n)) ns) \<and>
   log 2 (real (prod_list (map (\<lambda>n. n ^ (2 * n)) ns))) = 2 * (\<Sum>n \<leftarrow> ns. real n * log 2 (real n))"
proof (induction ns)
  case (Cons n ns)
  then have n: "0 < real n" by simp
  have p: "0 < real (prod_list (map (\<lambda>n. n ^ (2 * n)) ns))" using Cons by simp
  show ?case
    using Cons n p by (simp add: log_mult log_nat_power algebra_simps)
qed simp

lemma entropy_sum:
  assumes "\<And>n. n \<in> set ns \<Longrightarrow> 0 < n" "0 < N"
  shows "(\<Sum>n \<leftarrow> ns. real n / real N * log 2 (real n / real N)) =
    ((\<Sum>n \<leftarrow> ns. real n * log 2 (real n)) - real (\<Sum>n \<leftarrow> ns. n) * log 2 (real N)) / real N"
  using assms
proof (induction ns)
  case (Cons n ns)
  then have n: "0 < real n" and N: "0 < real N" by auto
  have "log 2 (real n / real N) = log 2 (real n) - log 2 (real N)" using n N by (simp add: log_divide)
  then have "real n / real N * log 2 (real n / real N) = (real n * log 2 (real n) - real n * log 2 (real N)) / real N"
    by (simp add: right_diff_distrib diff_divide_distrib)
  then show ?case using Cons by (simp add: add_divide_distrib diff_divide_distrib algebra_simps)
qed simp

section \<open>The properties\<close>

text \<open>The integer test that the model uses to keep a cluster Secret value decides exactly whether
  the Shannon entropy of the value, as the program's formula defines it over the reals, reaches the
  threshold of 2.5 bits per character.\<close>

theorem rich_enough_is_entropy:
  assumes "s \<noteq> []"
  shows "rich_enough s \<longleftrightarrow> K8S_MIN_ENTROPY \<le> entropy s"
proof -
  define cs where "cs = chars_of s"
  define N where "N = length cs"
  define T where "T = (\<Sum>n \<leftarrow> char_counts cs. real n * log 2 (real n))"
  define P where "P = prod_list (map (\<lambda>n :: nat. n ^ (2 * n)) (char_counts cs))"
  have "cs \<noteq> []" using assms by (simp add: cs_def chars_of_not_Nil)
  then have N: "0 < N" by (simp add: N_def)
  have P: "0 < P" "log 2 (real P) = 2 * T"
    using log_prod_powers [of "char_counts cs"] char_counts_pos by (auto simp: P_def T_def)
  have ent: "entropy s = - ((T - real N * log 2 (real N)) / real N)"
    using entropy_sum [where ns = "char_counts cs", OF char_counts_pos N] N
    by (simp add: entropy_def char_counts_sum [simplified] T_def flip: cs_def N_def)
  have "rich_enough s \<longleftrightarrow> 2 ^ (5 * N) * P \<le> N ^ (2 * N)"
    by (simp add: rich_enough_def P_def N_def flip: cs_def)
  also have "\<dots> \<longleftrightarrow> real (2 ^ (5 * N) * P) \<le> real (N ^ (2 * N))" by (simp only: of_nat_le_iff)
  also have "\<dots> \<longleftrightarrow> log 2 (real (2 ^ (5 * N) * P)) \<le> log 2 (real (N ^ (2 * N)))"
    using P N by (subst log_le_cancel_iff) auto
  also have "\<dots> \<longleftrightarrow> 5 * real N + 2 * T \<le> 2 * real N * log 2 (real N)"
    using P N by (simp add: log_mult log_nat_power)
  also have "\<dots> \<longleftrightarrow> K8S_MIN_ENTROPY \<le> entropy s"
    using N by (simp add: ent K8S_MIN_ENTROPY_def field_simps)
  finally show ?thesis .
qed

theorem rich_enough_is_entropy_witness:
  "K8S_MIN_ENTROPY \<le> entropy ''abcdefgh'' \<and> \<not> K8S_MIN_ENTROPY \<le> entropy ''aaaaaabb''"
proof -
  have a: "char_counts (chars_of ''abcdefgh'') = [1, 1, 1, 1, 1, 1, 1, 1]" "length (chars_of ''abcdefgh'') = 8" by code_simp+
  have b: "char_counts (chars_of ''aaaaaabb'') = [6, 2]" "length (chars_of ''aaaaaabb'') = 8" by code_simp+
  have "rich_enough ''abcdefgh''" "\<not> rich_enough ''aaaaaabb''" by (simp_all only: rich_enough_def a b) simp_all
  then show ?thesis using rich_enough_is_entropy [of "''abcdefgh''"] rich_enough_is_entropy [of "''aaaaaabb''"] by simp
qed

lemma add_string_has: "MIN_LEN \<le> u_len s \<Longrightarrow> s \<in> fst ` set (add_string loads left MIN_LEN s label out)"
proof (cases left)
  case (Suc n)
  assume "MIN_LEN \<le> u_len s"
  let ?I = "\<lambda>o'. s \<in> fst ` set o'"
  have keep: "?I o' \<Longrightarrow> ?I (add_string loads n MIN_LEN t l o')" for t l o'
    by (rule add_string_invariant [where I = ?I]) (simp_all add: set_default_keys)
  have "?I (collect_nested (add_string loads n MIN_LEN) (loads s) label (set_default s label out))"
    by (rule collect_nested_invariant [where I = ?I]) (simp_all add: keep set_default_keys)
  then have "?I (collect_decoded (add_string loads n MIN_LEN) d label
      (collect_nested (add_string loads n MIN_LEN) (loads s) label (set_default s label out)))" for d
    by (rule collect_decoded_invariant [where I = ?I, rotated]) (rule keep)
  then show ?thesis using Suc \<open>MIN_LEN \<le> u_len s\<close> by simp
qed (simp add: set_default_keys)

text \<open>A Docker entry \<open>base64("user:password")\<close> also yields the password.\<close>

lemma after_colon_pair: "CHR '':'' \<notin> set user \<Longrightarrow> after_colon (user @ '':'' @ password) = Some password"
proof -
  assume user: "CHR '':'' \<notin> set user"
  let ?s = "user @ '':'' @ password"
  have at: "is_at '':'' ?s (length user)" by (simp add: is_at_def)
  then obtain j where j: "find_from '':'' ?s 0 = Some j"
    using find_from_None [of "'':''" ?s 0] by fastforce
  have "\<not> length user < j" using find_from_Some(3) [OF j, of "length user"] at by auto
  moreover have "\<not> j < length user"
  proof
    assume "j < length user"
    with is_atD_nth [OF find_from_Some(2) [OF j], of 0] have "user ! j = CHR '':''" by (simp add: nth_append)
    with \<open>j < length user\<close> user show False by (metis nth_mem)
  qed
  ultimately have "j = length user" by simp
  with j show ?thesis by (simp add: after_colon_def)
qed

lemma add_string_docker_password:
  assumes "CHR '':'' \<notin> set user" "u_valid (user @ '':'' @ password)" "MIN_LEN \<le> u_len password"
    "MIN_LEN \<le> u_len (b64_encode (user @ '':'' @ password))"
  shows "password \<in> fst ` set (add_string loads (Suc n) MIN_LEN (b64_encode (user @ '':'' @ password)) label out)"
proof -
  let ?I = "\<lambda>o'. password \<in> fst ` set o'"
  have keep: "?I o' \<Longrightarrow> ?I (add_string loads n MIN_LEN t l o')" for t l o'
    by (rule add_string_invariant [where I = ?I]) (simp_all add: set_default_keys)
  show ?thesis
    using assms add_string_has [OF assms(3)]
    by (simp add: collect_decoded_def decode_b64_encode after_colon_pair [of _ password, simplified] keep)
qed

text \<open>No secret text of a secret file is missed: every text of at least 16 characters that is not
  below an identity field is a searched value, and so is the password of every Docker entry
  \<open>base64("user:password")\<close> when it has at least 16 characters itself, because the password alone is what
  gets copied around.\<close>

theorem secret_leaves_are_searched:
  assumes "loads raw = Some document"
  shows "(\<forall>s. secret_leaf document s \<and> MIN_LEN \<le> u_len s \<longrightarrow> s \<in> fst ` set (needles_from_secret_file loads raw)) \<and>
    (\<forall>user password. secret_leaf document (b64_encode (user @ '':'' @ password)) \<and> CHR '':'' \<notin> set user \<and>
      u_valid (user @ '':'' @ password) \<and> MIN_LEN \<le> u_len (b64_encode (user @ '':'' @ password)) \<and>
      MIN_LEN \<le> u_len password \<longrightarrow> password \<in> fst ` set (needles_from_secret_file loads raw))"
proof -
  have keep: "x \<in> fst ` set o' \<Longrightarrow> x \<in> fst ` set (add_string loads MAX_NESTING MIN_LEN t l o')" for x t l o'
    by (rule add_string_invariant [where I = "\<lambda>o'. x \<in> fst ` set o'"]) (simp_all add: set_default_keys)
  have src: "needles_from_secret_file loads raw = collect_with (add_string loads MAX_NESTING MIN_LEN) document [] []"
    using assms by (simp add: needles_from_secret_file_def collect_needles_def)
  note walk = collect_with_leaf [where add = "add_string loads MAX_NESTING MIN_LEN" and j = document]
  have "s \<in> fst ` set (needles_from_secret_file loads raw)" if "secret_leaf document s" "MIN_LEN \<le> u_len s" for s
    unfolding src by (rule walk [where I = "\<lambda>o'. s \<in> fst ` set o'", OF keep that(1)]) (auto intro: add_string_has that)
  moreover have "password \<in> fst ` set (needles_from_secret_file loads raw)"
    if p: "secret_leaf document (b64_encode (user @ '':'' @ password))" "CHR '':'' \<notin> set user"
      "u_valid (user @ '':'' @ password)" "MIN_LEN \<le> u_len (b64_encode (user @ '':'' @ password))" "MIN_LEN \<le> u_len password"
    for user password
    unfolding src
  proof (rule walk [where I = "\<lambda>o'. password \<in> fst ` set o'", OF keep p(1)], assumption)
    show "password \<in> fst ` set (add_string loads MAX_NESTING MIN_LEN (b64_encode (user @ '':'' @ password)) l o')" for l o'
      using add_string_docker_password [OF p(2,3,5,4), of loads 3] by (simp add: MAX_NESTING_def eval_nat_numeral)
  qed
  ultimately show ?thesis by blast
qed

definition sample_pull_secret :: json where
  "sample_pull_secret = JObj [(''auths'', JObj [(''quay.io'', JObj
     [(''auth'', JStr (b64_encode ''robot:correct-horse-battery'')), (''email'', JStr ''someone@example.invalid'')])])]"

theorem secret_leaves_are_searched_witness:
  "''correct-horse-battery'' \<in> fst ` set (needles_from_secret_file (\<lambda>s. if s = ''file'' then Some sample_pull_secret else None) ''file'')"
proof -
  have leaf: "secret_leaf sample_pull_secret (b64_encode (''robot'' @ '':'' @ ''correct-horse-battery''))"
    unfolding sample_pull_secret_def
    by (rule leaf_field [of "''auths''"], simp only: list.set, rule insertI1, code_simp,
        rule leaf_field [of "''quay.io''"], simp only: list.set, rule insertI1, code_simp,
        rule leaf_field [of "''auth''"], simp only: list.set, rule insertI1, code_simp,
        simp only: append.simps, rule leaf_text)
  have ascii: "list_all (\<lambda>c. code c < 128) (''robot'' @ '':'' @ ''correct-horse-battery'')"
    by (simp add: code_def)
  then have valid: "u_valid (''robot'' @ '':'' @ ''correct-horse-battery'')" "MIN_LEN \<le> u_len ''correct-horse-battery''"
    using u_ascii [of "''robot'' @ '':'' @ ''correct-horse-battery''"] u_ascii [of "''correct-horse-battery''"]
    by (auto simp: MIN_LEN_def)
  have long: "MIN_LEN \<le> u_len (b64_encode (''robot'' @ '':'' @ ''correct-horse-battery''))"
    using u_ascii [OF b64_encode_ascii, of "''robot'' @ '':'' @ ''correct-horse-battery''"] by (simp add: MIN_LEN_def)
  have colon: "CHR '':'' \<notin> set ''robot''" by simp
  have loaded: "(if ''file'' = ''file'' then Some sample_pull_secret else None) = Some sample_pull_secret" by simp
  show ?thesis
    by (rule secret_leaves_are_searched [where loads = "\<lambda>s. if s = ''file'' then Some sample_pull_secret else None" and raw = "''file''",
          OF loaded, THEN conjunct2, THEN spec [of _ "''robot''"], THEN spec [of _ "''correct-horse-battery''"], THEN mp])
      (intro conjI leaf valid long colon)
qed

text \<open>The length of a value, and what the search can rely on.\<close>

definition searchable :: "nat \<Rightarrow> needles \<Rightarrow> bool" where
  "searchable n out \<longleftrightarrow> distinct_keys out \<and> (\<forall>k \<in> fst ` set out. n \<le> u_len k)"

lemma searchable_set_default: "n \<le> u_len t \<Longrightarrow> searchable n out \<Longrightarrow> searchable n (set_default t l out)"
  by (simp add: searchable_def set_default_distinct set_default_keys)

lemma searchable_Nil: "searchable n []"
  by (simp add: searchable_def distinct_keys_def)

lemma bindE_Inl_iff: "bindE r f = Inl e \<longleftrightarrow> r = Inl e \<or> (\<exists>x. r = Inr x \<and> f x = Inl e)"
  by (cases r) auto

lemma d_fields_error: "d_fields j = Inl e \<Longrightarrow> e = AttrErr"
  by (auto simp: d_fields_def split: if_splits json.splits)

lemma get_or_error: "get_or j k v = Inl e \<Longrightarrow> e = AttrErr"
  by (auto simp: get_or_def split: json.splits)

lemma d_get_error: "d_get j k = Inl e \<Longrightarrow> e = AttrErr"
  by (auto simp: d_get_def split: json.splits)

lemma d_items_error: "d_items j = Inl e \<Longrightarrow> e = TypeErr"
  by (auto simp: d_items_def split: json.splits)

lemma k8s_item_error: "k8s_item loads show out item = Inl e \<Longrightarrow> e = AttrErr"
  by (auto simp: k8s_item_def secret_prefix_def secret_values_def bindE_Inl_iff
      dest: d_fields_error get_or_error d_get_error)

lemma foldE_Inl: "foldE f b xs = Inl e \<Longrightarrow> \<exists>b' x. x \<in> set xs \<and> f b' x = Inl e"
proof (induction xs arbitrary: b)
  case (Cons a xs)
  then show ?case by (cases "f b a") (fastforce)+
qed simp

lemma k8s_secrets_errors:
  "needles_from_k8s_secrets loads show raw = Inl e \<Longrightarrow> e \<in> {ValueErr, AttrErr, TypeErr}"
  by (auto simp: needles_from_k8s_secrets_def bindE_Inl_iff split: option.splits if_splits
      dest: get_or_error d_items_error foldE_Inl k8s_item_error)

text \<open>Whatever a secret file or a list of cluster Secrets contains, the inventory built from it has
  every value once, and no value shorter than 16 characters from a file or 12 from the cluster, so that a
  short user name or placeholder is never searched for; a list of Secrets that is not shaped as expected
  ends in an error and gives no inventory at all.\<close>

theorem inventory_values_are_long:
  "searchable MIN_LEN (needles_from_secret_file loads raw) \<and>
   (case needles_from_k8s_secrets loads show raw of Inr out \<Rightarrow> searchable K8S_MIN_LEN out | Inl e \<Rightarrow> e \<in> {ValueErr, AttrErr, TypeErr})"
proof -
  have "searchable MIN_LEN (needles_from_secret_file loads raw)"
    by (rule secret_file_invariant [where I = "searchable MIN_LEN"]) (simp_all add: searchable_set_default searchable_Nil)
  moreover have "searchable K8S_MIN_LEN out" if "needles_from_k8s_secrets loads show raw = Inr out" for out
    using that by (rule k8s_secrets_invariant [where I = "searchable K8S_MIN_LEN", rotated 2])
      (simp_all add: searchable_set_default searchable_Nil)
  moreover have "e \<in> {ValueErr, AttrErr, TypeErr}" if "needles_from_k8s_secrets loads show raw = Inl e" for e
    using that by (rule k8s_secrets_errors)
  ultimately show ?thesis by (simp split: sum.splits)
qed

end
