(* ===== verification/GateCensor.thy ===== *)
theory GateCensor
  imports GateNeedles "HOL-Library.List_Lexorder" "HOL-Library.Char_ord"
begin

text \<open>
  Censoring one file in \<^verbatim>\<open>.github/scripts/release_gate.py\<close>: the forms in which a known value may show up, the
  shapes of secrets nobody registered, and the rounds in which both are replaced by markers.

  \<open>digest\<close> is the hexadecimal SHA-256 of a text. The counter of hits is an association list in the order of
  the first hits.
\<close>

section \<open>How a value appears in a file\<close>

definition is_b64_byte :: "char \<Rightarrow> bool" where
  "is_b64_byte c \<longleftrightarrow> is_alnum c \<or> c \<in> set ''+/-_''"

text \<open>\<open>data[4:-4]\<close>\<close>

definition inner_groups :: "string \<Rightarrow> string" where
  "inner_groups e = take (length e - 8) (drop 4 e)"

definition b64_forms :: "(string \<times> (string \<Rightarrow> string)) list" where
  "b64_forms = [(''base64'', b64_encode), (''base64url'', b64_urlsafe)]"

definition b64_middle :: "(string \<Rightarrow> string) \<Rightarrow> nat \<Rightarrow> string \<Rightarrow> string" where
  "b64_middle encode pad needle = inner_groups (encode (replicate pad (CHR 0x00) @ needle))"

text \<open>The base64 forms with their names, and those among them not seen before.\<close>

definition all_forms :: "string \<Rightarrow> (string \<times> string) list" where
  "all_forms needle = concat (map (\<lambda>pad. map (\<lambda>(form, encode). (form @ ''+'' @ show_nat pad, b64_middle encode pad needle))
     b64_forms) [0, 1, 2])"

fun new_forms :: "string list \<Rightarrow> (string \<times> string) list \<Rightarrow> (string \<times> string \<times> bool) list" where
  "new_forms seen [] = []"
| "new_forms seen ((form, middle) # forms) =
     (if middle \<in> set seen then new_forms seen forms
      else (form, middle, True) # new_forms (middle # seen) forms)"

definition plain_forms :: "string \<Rightarrow> (string \<times> string \<times> bool) list" where
  "plain_forms needle = (''plain'', needle, False) #
     (if json_inner (u_repair needle) = needle then [] else [(''json-escaped'', json_inner (u_repair needle), False)])"

definition variants :: "string \<Rightarrow> (string \<times> string \<times> bool) list" where
  "variants needle = plain_forms needle @ new_forms [] (all_forms needle)"

section \<open>Markers\<close>

definition fingerprint :: "(string \<Rightarrow> string) \<Rightarrow> string \<Rightarrow> string" where
  "fingerprint digest v = take 10 (digest v)"

definition marker_char :: "char \<Rightarrow> char" where
  "marker_char c = (if is_alnum c \<or> c \<in> set ''._:/()[]-'' then c else CHR ''_'')"

text \<open>Names and tags are ASCII at every call.\<close>

definition marker :: "string \<Rightarrow> string \<Rightarrow> string" where
  "marker name tag =
     ''[REDACTED:'' @ map marker_char name @ (if tag = [] then [] else '':'' @ tag) @ '']''"

definition known_marker :: "(string \<Rightarrow> string) \<Rightarrow> string \<Rightarrow> string \<Rightarrow> string" where
  "known_marker digest label tag = marker (''known-value:'' @ fingerprint digest label) tag"

section \<open>Shape rules\<close>

definition backslash :: char where "backslash = CHR 0x5C"

text \<open>\<open>\\*"\<close>, a class repeated at least \<open>n\<close> times, and \<open>\s*\<close>\<close>

definition esc_quote :: "char rx" where
  "esc_quote = Seq (Star (Cls (\<lambda>c. c = backslash))) (Lit [CHR 0x22])"

definition at_least :: "nat \<Rightarrow> (char \<Rightarrow> bool) \<Rightarrow> char rx" where
  "at_least n p = Rep True n None (Cls p)"

definition spaces :: "char rx" where
  "spaces = Star (Cls byte_space)"

definition token_byte :: "char \<Rightarrow> bool" where
  "token_byte c \<longleftrightarrow> is_alnum c \<or> c \<in> set ''_-''"

definition upper_digit :: "char \<Rightarrow> bool" where
  "upper_digit c \<longleftrightarrow> in_range (CHR ''A'') (CHR ''Z'') c \<or> is_digit c"

definition key_kind :: "char rx" where
  "key_kind = Star (Seq (Plus (Cls upper_digit)) (Lit '' ''))"

definition private_key_rx :: "char rx" where
  "private_key_rx = Seqs [Lit ''-----BEGIN '', Grp 1 key_kind, Lit ''PRIVATE KEY-----'', AnyLazy,
     Lit ''-----END '', Backref 1, Lit ''PRIVATE KEY-----'']"

definition truncated_key_rx :: "char rx" where
  "truncated_key_rx = Seqs [Lit ''-----BEGIN '', key_kind, Lit ''PRIVATE KEY-----'',
     at_least 40 (\<lambda>c. is_alnum c \<or> c \<in> set ''+/='' \<or> byte_space c \<or> c = backslash)]"

text \<open>Groups: 1 before the value, 2 the field, 3 the value, 4 after it.\<close>

definition docker_auth_rx :: "char rx" where
  "docker_auth_rx = Seqs
     [Grp 1 (Seqs [esc_quote, Grp 2 (Alts [ILit ''auth'', ILit ''identitytoken'', ILit ''registrytoken'']), esc_quote,
        spaces, Lit '':'', spaces, esc_quote]),
      Grp 3 (at_least 20 (\<lambda>c. is_alnum c \<or> c \<in> set ''+/=_.-'')), Grp 4 esc_quote]"

definition jwt_rx :: "char rx" where
  "jwt_rx = Seqs [Lit ''eyJ'', at_least 8 token_byte, Lit ''.eyJ'', at_least 8 token_byte, Lit ''.'', at_least 8 token_byte]"

definition authorization_rx :: "char rx" where
  "authorization_rx = Seqs
     [Grp 1 (Seqs [ILit ''authorization'', Star (Cls (\<lambda>c. c = backslash)), Opt (Lit [CHR 0x22]), spaces,
        Cls (\<lambda>c. c \<in> set '':=''), spaces, Star (Cls (\<lambda>c. c = backslash)), Opt (Lit [CHR 0x22]), spaces,
        Alts [ILit ''bearer'', ILit ''basic'', ILit ''token''], Plus (Cls byte_space)]),
      at_least 16 (\<lambda>c. is_alnum c \<or> c \<in> set ''._~+/=-'')]"

definition provider_token_rx :: "char rx" where
  "provider_token_rx = Alts
     [Seqs [Assert word_boundary, Lit ''AKIA'', Rep True 16 (Some 16) (Cls upper_digit), Assert word_boundary],
      Seqs [Assert word_boundary, Lit ''gh'', Cls (\<lambda>c. c \<in> set ''pousr''), Lit ''_'', at_least 30 is_alnum],
      Seqs [Assert word_boundary, Lit ''github_pat_'', at_least 30 (\<lambda>c. is_alnum c \<or> c = CHR ''_'')],
      Seqs [Assert word_boundary, Lit ''xox'', Cls (\<lambda>c. c \<in> set ''abprs''), Lit ''-'',
        at_least 10 (\<lambda>c. is_alnum c \<or> c = CHR ''-'')],
      Seqs [Assert word_boundary, Lit ''glpat-'', at_least 20 token_byte]]"

definition password_rx :: "char rx" where
  "password_rx = Seqs
     [Grp 1 (Seqs [esc_quote,
        Alts [ILit ''password'', ILit ''passwd'', Seqs [ILit ''api'', Opt (Lit ''_''), ILit ''key''],
          Seqs [ILit ''client'', Opt (Lit ''_''), ILit ''secret''], Seqs [ILit ''access'', Opt (Lit ''_''), ILit ''token''],
          Seqs [ILit ''auth'', Opt (Lit ''_''), ILit ''token''], Seqs [ILit ''bearer'', Opt (Lit ''_''), ILit ''token''],
          Seqs [ILit ''private'', Opt (Lit ''_''), ILit ''key'']],
        esc_quote, spaces, Lit '':'', spaces, esc_quote]),
      Grp 3 (at_least 8 (\<lambda>c. c \<noteq> CHR 0x22 \<and> c \<noteq> backslash)), Grp 4 esc_quote]"

definition docker_auth :: "string \<Rightarrow> rx_match \<Rightarrow> string option" where
  "docker_auth data m =
     (if map byte_lower (m_group data m 2) = ''auth'' \<and>
         (case decode_b64 (m_group data m 3) of None \<Rightarrow> True | Some d \<Rightarrow> \<not> contains '':'' d) then None
      else Some (m_group data m 1 @ marker (''docker-'' @ map byte_lower (m_group data m 2)) [] @ m_group data m 4))"

definition keep_prefix :: "nat \<Rightarrow> string \<Rightarrow> string \<Rightarrow> rx_match \<Rightarrow> string option" where
  "keep_prefix g name data m = Some (m_group data m g @ marker name [])"

definition byte_upper :: "char \<Rightarrow> char" where
  "byte_upper c = (if in_range (CHR ''a'') (CHR ''z'') c then char_of (code c - 32) else c)"

definition password_field :: "string \<Rightarrow> rx_match \<Rightarrow> string option" where
  "password_field data m =
     (if starts_with ''[REDACTED'' (m_group data m 3) \<or> starts_with ''<'' (m_group data m 3) \<or>
         starts_with ''*'' (m_group data m 3) \<or> starts_with ''REDACTED'' (map byte_upper (m_group data m 3)) then None
      else Some (m_group data m 1 @ marker ''password-field'' [] @ m_group data m 4))"

definition whole_match :: "string \<Rightarrow> string \<Rightarrow> rx_match \<Rightarrow> string option" where
  "whole_match name data m = Some (marker name [])"

definition SHAPE_RULES :: "(string \<times> char rx \<times> (string \<Rightarrow> rx_match \<Rightarrow> string option)) list" where
  "SHAPE_RULES =
     [(''private-key'', private_key_rx, whole_match ''private-key''),
      (''private-key-truncated'', truncated_key_rx, whole_match ''private-key''),
      (''docker-auth'', docker_auth_rx, docker_auth),
      (''jwt'', jwt_rx, whole_match ''jwt''),
      (''authorization-header'', authorization_rx, keep_prefix 1 ''authorization-header''),
      (''provider-token'', provider_token_rx, whole_match ''provider-token''),
      (''password-field'', password_rx, password_field)]"

section \<open>Search patterns\<close>

record patterns =
  shown :: "(string \<times> string) list"
  items :: "(string \<times> string \<times> string \<times> bool) list"

text \<open>A label with every inventory value hidden, the longest first.\<close>

definition shown_label :: "string list \<Rightarrow> string \<Rightarrow> string" where
  "shown_label inventory_values label = foldl (\<lambda>s v. py_replace v ''<value>'' s) label inventory_values"

definition longest_first :: "needles \<Rightarrow> string list" where
  "longest_first inventory = sort_key (\<lambda>v. - int (u_len v)) (map fst inventory)"

definition mk_patterns :: "needles \<Rightarrow> patterns" where
  "mk_patterns inventory =
     \<lparr>shown = map (\<lambda>label. (label, shown_label (longest_first inventory) label)) (remdups (map snd inventory)),
      items = concat (map (\<lambda>(needle, label). map (\<lambda>(form, p, is_b64). (label, form, p, is_b64)) (variants needle))
        (sort_key (\<lambda>kv. - int (length (fst kv))) inventory))\<rparr>"

definition shown_of :: "patterns \<Rightarrow> string \<Rightarrow> string" where
  "shown_of ps label = (case map_of (shown ps) label of None \<Rightarrow> label | Some s \<Rightarrow> s)"

definition present :: "patterns \<Rightarrow> string \<Rightarrow> string list" where
  "present ps data = sort (remdups (map (\<lambda>(label, _, _, _). shown_of ps label)
     (filter (\<lambda>(_, _, p, _). contains p data) (items ps))))"

section \<open>Censoring\<close>

type_synonym hits = "(string \<times> nat) list"

text \<open>\<open>hits[rule] += n\<close>\<close>

definition hit :: "string \<Rightarrow> nat \<Rightarrow> hits \<Rightarrow> hits" where
  "hit rule n hs = dict_set rule ((case map_of hs rule of None \<Rightarrow> 0 | Some k \<Rightarrow> k) + n) hs"

text \<open>Widening a base64 hit to the enclosing token, to the left down to \<open>lo\<close> and to the right.\<close>

fun widen_left :: "string \<Rightarrow> nat \<Rightarrow> nat \<Rightarrow> nat" where
  "widen_left data lo 0 = 0"
| "widen_left data lo (Suc i) = (if lo < Suc i \<and> is_b64_byte (data ! i) then widen_left data lo i else Suc i)"

definition widen_right :: "string \<Rightarrow> nat \<Rightarrow> nat" where
  "widen_right data j = j + length (takeWhile (\<lambda>c. is_b64_byte c \<or> c = CHR ''='') (drop j data))"

text \<open>The loop over the base64 hits of a non-empty pattern: the censored rest of the data from \<open>pos\<close>, and
  how many hits there were.\<close>

function censor_b64 :: "string \<Rightarrow> string \<Rightarrow> string \<Rightarrow> nat \<Rightarrow> string \<times> nat" where
  "censor_b64 p mark data pos =
     (if p = [] \<or> length data < pos then (drop pos data, 0)
      else
        (case find_from p data pos of
           None \<Rightarrow> (drop pos data, 0)
         | Some i \<Rightarrow>
             (case censor_b64 p mark data (widen_right data (i + length p)) of (rest, n) \<Rightarrow>
                (slice data pos (widen_left data pos i) @ mark @ rest, Suc n))))"
  by pat_completeness auto
termination
proof (relation "measure (\<lambda>(p, mark, data, pos). Suc (length data) - pos)", simp, goal_cases)
  case (1 p mark data pos i)
  then have "pos \<le> i" using find_from_Some(1) [OF 1(2)] by simp
  moreover have "i + length p \<le> widen_right data (i + length p)" by (simp add: widen_right_def)
  moreover have "0 < length p" using 1 by simp
  ultimately have "pos < widen_right data (i + length p)" by linarith
  then show ?case using 1(1) by (simp add: less_Suc_eq_le diff_less_mono2)
qed

declare censor_b64.simps [simp del]

definition known_step ::
  "(string \<Rightarrow> string) \<Rightarrow> patterns \<Rightarrow> string \<times> hits \<Rightarrow> string \<times> string \<times> string \<times> bool \<Rightarrow> string \<times> hits" where
  "known_step digest ps state item =
     (case (state, item) of ((data, hs), (label, _, p, is_b64)) \<Rightarrow>
        if \<not> contains p data then (data, hs)
        else if \<not> is_b64 then
          (py_replace p (known_marker digest label []) data,
           hit (''known-value:'' @ shown_of ps label) (py_count p data) hs)
        else
          (case censor_b64 p (known_marker digest label ''b64'') data 0 of (data', n) \<Rightarrow>
             (data', hit (''known-value:'' @ shown_of ps label) n hs)))"

definition censor_known :: "(string \<Rightarrow> string) \<Rightarrow> patterns \<Rightarrow> string \<times> hits \<Rightarrow> string \<times> hits" where
  "censor_known digest ps state = foldl (known_step digest ps) state (items ps)"

definition or_match :: "(string \<Rightarrow> rx_match \<Rightarrow> string option) \<Rightarrow> string \<Rightarrow> rx_match \<Rightarrow> string" where
  "or_match f data m = (case f data m of None \<Rightarrow> m_text data m | Some r \<Rightarrow> r)"

definition shape_step ::
  "string \<times> hits \<Rightarrow> string \<times> char rx \<times> (string \<Rightarrow> rx_match \<Rightarrow> string option) \<Rightarrow> string \<times> hits" where
  "shape_step state rule =
     (case (state, rule) of ((data, hs), (name, rx, f)) \<Rightarrow>
        (rx_sub rx (or_match f data) data,
         (case length (filter (\<lambda>m. f data m \<noteq> None) (rx_finditer rx data)) of
            0 \<Rightarrow> hs | Suc n \<Rightarrow> hit (''shape:'' @ name) (Suc n) hs)))"

definition censor_shapes :: "string \<times> hits \<Rightarrow> string \<times> hits" where
  "censor_shapes state = foldl shape_step state SHAPE_RULES"

text \<open>At most three rounds, until nothing changes.\<close>

fun censor_rounds :: "(string \<Rightarrow> string) \<Rightarrow> patterns \<Rightarrow> nat \<Rightarrow> string \<times> hits \<Rightarrow> string \<times> hits" where
  "censor_rounds digest ps 0 state = state"
| "censor_rounds digest ps (Suc n) state =
     (case censor_shapes (censor_known digest ps state) of after \<Rightarrow>
        if fst after = fst state then after else censor_rounds digest ps n after)"

definition censor_bytes :: "(string \<Rightarrow> string) \<Rightarrow> patterns \<Rightarrow> string \<Rightarrow> string \<times> hits" where
  "censor_bytes digest ps data = censor_rounds digest ps 3 (data, [])"

section \<open>Every alignment of a value is among its variants\<close>

lemma new_forms_has:
  "(form, m) \<in> set forms \<Longrightarrow> m \<in> set seen \<or> (\<exists>form. (form, m, True) \<in> set (new_forms seen forms))"
  by (induction seen forms rule: new_forms.induct) auto

lemma variants_b64:
  assumes "pad < 3" "encode = b64_encode \<or> encode = b64_urlsafe"
  shows "\<exists>form. (form, b64_middle encode pad needle, True) \<in> set (variants needle)"
proof -
  consider "pad = 0" | "pad = 1" | "pad = 2" using assms(1) by linarith
  then have "b64_middle encode pad needle \<in> snd ` set (all_forms needle)"
    using assms(2) by cases (auto simp: all_forms_def b64_forms_def)
  then obtain form where "(form, b64_middle encode pad needle) \<in> set (all_forms needle)" by auto
  from new_forms_has [OF this, of "[]"] show ?thesis by (auto simp: variants_def)
qed

lemma variants_plain: "(''plain'', needle, False) \<in> set (variants needle)"
  by (simp add: variants_def plain_forms_def)

text \<open>An encoder that works in groups of three bytes, such as both alphabets of base64.\<close>

definition grouping :: "(string \<Rightarrow> string) \<Rightarrow> bool" where
  "grouping encode \<longleftrightarrow>
     (\<forall>a b. length a mod 3 = 0 \<longrightarrow> encode (a @ b) = encode a @ encode b) \<and>
     (\<forall>a. length a = 3 \<longrightarrow> length (encode a) = 4) \<and>
     (\<forall>l. 0 < length l \<and> length l \<le> 3 \<longrightarrow> length (encode l) = 4)"

lemma grouping_b64: "grouping b64_encode" "grouping b64_urlsafe"
  by (auto simp: grouping_def b64_encode_append b64_urlsafe_append b64_urlsafe_def length_b64_last length_b64_encode3)

text \<open>The inner groups of an encoded text are the encoding of its inner bytes.\<close>

lemma inner_groups_encode:
  assumes g: "grouping encode" and a: "length a = 3" and m: "length m mod 3 = 0" and l: "0 < length l" "length l \<le> 3"
  shows "inner_groups (encode (a @ m @ l)) = encode m"
proof -
  have "encode (a @ m @ l) = encode a @ encode m @ encode l"
    using g a m by (simp add: grouping_def)
  moreover have "length (encode a) = 4" "length (encode l) = 4"
    using g a l by (simp_all add: grouping_def)
  ultimately show ?thesis by (simp add: inner_groups_def)
qed

lemma split_groups:
  assumes "3 < length w"
  obtains a m l where "w = a @ m @ l" "length a = 3" "length m mod 3 = 0" "0 < length l" "length l \<le> 3"
proof -
  define n where "n = (length w - 4) div 3 * 3"
  have n: "n \<le> length w - 4" "length w - 4 < n + 3" "n mod 3 = 0"
    using div_mult_mod_eq [of "length w - 4" 3] mod_less_divisor [of 3 "length w - 4"] by (auto simp: n_def)
  show thesis
  proof (rule that [of "take 3 w" "take n (drop 3 w)" "drop n (drop 3 w)"])
    show "length (take n (drop 3 w)) mod 3 = 0" using n assms by (simp add: min_def)
    show "w = take 3 w @ take n (drop 3 w) @ drop n (drop 3 w)" by (simp only: append_take_drop_id)
  qed (use n assms in auto)
qed

lemma encoded_contains_variant:
  assumes g: "grouping encode" and needle: "3 < length needle"
  shows "contains (b64_middle encode (length before mod 3) needle) (encode (before @ needle @ after))"
proof -
  define k where "k = length before mod 3"
  define pre where "pre = take (length before - k) before"
  define tl where "tl = drop (length before - k) before"
  have before: "before = pre @ tl" "length tl = k" "length pre mod 3 = 0"
  proof -
    have "length before - k = length before div 3 * 3" by (simp add: k_def minus_mod_eq_div_mult)
    then have "length pre = length before div 3 * 3" unfolding pre_def length_take by (metis diff_le_self min.absorb2)
    then show "length pre mod 3 = 0" by simp
  qed (auto simp: pre_def tl_def k_def)
  obtain a m l where w: "replicate k (CHR 0x00) @ needle = a @ m @ l" "length a = 3" "length m mod 3 = 0" "0 < length l" "length l \<le> 3"
    using split_groups [of "replicate k (CHR 0x00) @ needle"] needle by auto
  have k: "k < 3" by (simp add: k_def)
  have tail: "drop (3 - k) needle = m @ l"
  proof -
    have "drop 3 (replicate k (CHR 0x00) @ needle) = m @ l" by (simp add: w)
    then show ?thesis using k by simp
  qed
  define a' where "a' = tl @ take (3 - k) needle"
  have a': "length a' = 3" using before k needle by (simp add: a'_def)
  have "needle = take (3 - k) needle @ m @ l" by (metis append_take_drop_id tail)
  then have whole: "before @ needle @ after = pre @ a' @ m @ l @ after" by (simp add: before(1) a'_def)
  have cut: "length x mod 3 = 0 \<Longrightarrow> encode (x @ y) = encode x @ encode y" for x y using g by (simp add: grouping_def)
  have "encode (before @ needle @ after) = encode pre @ encode a' @ encode m @ encode (l @ after)"
    unfolding whole using before(3) a' w(3) by (simp only: cut) (simp add: cut)
  moreover have "b64_middle encode k needle = encode m"
    unfolding b64_middle_def w(1) by (rule inner_groups_encode [OF g w(2-5)])
  ultimately show ?thesis by (simp add: contains_sublist k_def) (metis sublist_appendI sublist_append_rightI append.assoc)
qed

section \<open>What an empty counter means\<close>

lemma hit_not_Nil [simp]: "hit rule n hs \<noteq> []"
  by (cases hs) (auto simp: hit_def)

lemma known_step_hits: "snd st \<noteq> [] \<Longrightarrow> snd (known_step digest ps st it) \<noteq> []"
  by (cases st; cases it) (auto simp: known_step_def split: prod.splits)

lemma known_step_miss: "snd (known_step digest ps (data, []) (label, form, p, b)) = [] \<Longrightarrow>
   known_step digest ps (data, []) (label, form, p, b) = (data, []) \<and> \<not> contains p data"
  by (auto simp: known_step_def split: prod.splits if_splits)

lemma known_fold_hits: "snd st \<noteq> [] \<Longrightarrow> snd (foldl (known_step digest ps) st its) \<noteq> []"
  by (rule foldl_invariant [where I = "\<lambda>s. snd s \<noteq> []"]) (rule known_step_hits)

lemma known_fold_miss:
  "snd (foldl (known_step digest ps) (data, []) its) = [] \<Longrightarrow>
   foldl (known_step digest ps) (data, []) its = (data, []) \<and> (\<forall>(label, form, p, b) \<in> set its. \<not> contains p data)"
proof (induction its)
  case (Cons it its)
  obtain label form p b where it: "it = (label, form, p, b)" by (cases it)
  have "snd (known_step digest ps (data, []) it) = []"
    using Cons.prems known_fold_hits [of "known_step digest ps (data, []) it"] by auto
  then have "known_step digest ps (data, []) it = (data, [])" "\<not> contains p data"
    using known_step_miss it by blast+
  then show ?case using Cons it by auto
qed simp

lemma shape_step_hits: "snd st \<noteq> [] \<Longrightarrow> snd (shape_step st r) \<noteq> []"
  by (cases st; cases r) (auto simp: shape_step_def split: nat.splits)

lemma slice_drop: "a \<le> b \<Longrightarrow> slice s a b @ drop b s = drop a s"
  using append_take_drop_id [of "b - a" "drop a s"] by (simp add: slice_def)

lemma slice_join: "pos \<le> a \<Longrightarrow> a \<le> b \<Longrightarrow> slice s pos a @ slice s a b @ drop b s = drop pos s"
  by (simp add: slice_drop)

lemma sub_pieces_same:
  "spans_from (length s) pos ms \<Longrightarrow> pos \<le> length s \<Longrightarrow> (\<And>m. m \<in> set ms \<Longrightarrow> f m = m_text s m) \<Longrightarrow> sub_pieces s f pos ms = drop pos s"
proof (induction ms arbitrary: pos)
  case (Cons m ms)
  then have "pos \<le> m_start m" "m_start m \<le> m_end m" "m_end m \<le> length s" "spans_from (length s) (m_end m) ms"
    by auto
  moreover from this Cons have "sub_pieces s f (m_end m) ms = drop (m_end m) s" by simp
  ultimately show ?case
    using Cons.prems(3) [of m] by (simp add: m_text_def slice_join)
qed simp

lemma rx_sub_same: "(\<And>m. m \<in> set (rx_finditer r s) \<Longrightarrow> f m = m_text s m) \<Longrightarrow> rx_sub r f s = s"
  unfolding rx_sub_def by (subst sub_pieces_same [OF spans_from_finditer]) simp_all

lemma shape_step_miss: "snd (shape_step (data, []) r) = [] \<Longrightarrow> shape_step (data, []) r = (data, [])"
proof -
  obtain name rx f where r: "r = (name, rx, f)" by (cases r)
  assume "snd (shape_step (data, []) r) = []"
  then have "filter (\<lambda>m. f data m \<noteq> None) (rx_finditer rx data) = []"
    by (auto simp: shape_step_def r split: nat.splits)
  then have "rx_sub rx (or_match f data) data = data"
    by (intro rx_sub_same) (auto simp: or_match_def filter_empty_conv)
  with \<open>filter _ _ = []\<close> show ?thesis by (simp add: shape_step_def r)
qed

lemma shape_fold_hits: "snd st \<noteq> [] \<Longrightarrow> snd (foldl shape_step st rs) \<noteq> []"
  by (rule foldl_invariant [where I = "\<lambda>s. snd s \<noteq> []"]) (rule shape_step_hits)

lemma shape_fold_miss: "snd (foldl shape_step (data, []) rs) = [] \<Longrightarrow> foldl shape_step (data, []) rs = (data, [])"
proof (induction rs)
  case (Cons r rs)
  then have "snd (shape_step (data, []) r) = []"
    using shape_fold_hits [of "shape_step (data, []) r"] by auto
  from shape_step_miss [OF this] show ?case using Cons by simp
qed simp

lemma round_hits: "snd st \<noteq> [] \<Longrightarrow> snd (censor_shapes (censor_known digest ps st)) \<noteq> []"
  unfolding censor_shapes_def censor_known_def by (rule shape_fold_hits, rule known_fold_hits)

lemma rounds_hits: "snd st \<noteq> [] \<Longrightarrow> snd (censor_rounds digest ps n st) \<noteq> []"
  by (induction n arbitrary: st) (simp_all add: round_hits)

lemma round_miss:
  assumes "snd (censor_shapes (censor_known digest ps (data, []))) = []"
  shows "censor_shapes (censor_known digest ps (data, [])) = (data, []) \<and> (\<forall>(label, form, p, b) \<in> set (items ps). \<not> contains p data)"
proof -
  have "snd (censor_known digest ps (data, [])) = []"
    using assms shape_fold_hits unfolding censor_shapes_def by blast
  then have "censor_known digest ps (data, []) = (data, [])" "\<forall>(label, form, p, b) \<in> set (items ps). \<not> contains p data"
    unfolding censor_known_def using known_fold_miss by blast+
  then show ?thesis using assms shape_fold_miss unfolding censor_shapes_def by simp
qed

lemma sort_Nil: "sort xs = [] \<longleftrightarrow> xs = []"
  by (metis length_0_conv length_sort)

lemma present_Nil: "present ps data = [] \<longleftrightarrow> (\<forall>(label, form, p, b) \<in> set (items ps). \<not> contains p data)"
  by (simp add: present_def sort_Nil filter_empty_conv split_beta)

lemma censor_bytes_miss:
  assumes "snd (censor_bytes digest ps data) = []"
  shows "fst (censor_bytes digest ps data) = data \<and> present ps data = []"
proof -
  let ?st = "censor_shapes (censor_known digest ps (data, []))"
  have "censor_bytes digest ps data = (if fst ?st = data then ?st else censor_rounds digest ps 2 ?st)"
    by (simp add: censor_bytes_def eval_nat_numeral)
  then have "snd ?st = []" using assms rounds_hits [of ?st] by (auto split: if_splits)
  from round_miss [OF this] show ?thesis
    using assms by (simp add: censor_bytes_def eval_nat_numeral present_Nil)
qed

section \<open>The properties\<close>

text \<open>The forms in which the gate promises that a value does not leave: as it is, JSON-escaped, or inside
  the base64 of any bytes that contain it.\<close>

definition leaks :: "string \<Rightarrow> string \<Rightarrow> bool" where
  "leaks needle data \<longleftrightarrow> contains needle data \<or> contains (json_inner (u_repair needle)) data \<or>
     (\<exists>before after. contains (b64_encode (before @ needle @ after)) data \<or>
                     contains (b64_urlsafe (before @ needle @ after)) data)"

lemma items_mk_patterns:
  "(label, form, p, b) \<in> set (items (mk_patterns inventory)) \<longleftrightarrow>
   (\<exists>needle. (needle, label) \<in> set inventory \<and> (form, p, b) \<in> set (variants needle))"
  by (fastforce simp: mk_patterns_def)

lemma leaks_variant:
  assumes "leaks needle data" "3 < length needle"
  shows "\<exists>(form, p, b) \<in> set (variants needle). contains p data"
proof -
  have enc: "\<exists>(form, p, b) \<in> set (variants needle). contains p data"
    if c: "contains (encode (before @ needle @ after)) data" and g: "grouping encode" and e: "encode = b64_encode \<or> encode = b64_urlsafe"
    for encode before after
  proof -
    obtain form where "(form, b64_middle encode (length before mod 3) needle, True) \<in> set (variants needle)"
      using variants_b64 [of "length before mod 3" encode needle] e by auto
    moreover have "contains (b64_middle encode (length before mod 3) needle) data"
      using encoded_contains_variant [OF g assms(2)] c by (rule contains_trans)
    ultimately show ?thesis by fastforce
  qed
  have esc: "\<exists>(form, p, b) \<in> set (variants needle). p = json_inner (u_repair needle)"
  proof (cases "json_inner (u_repair needle) = needle")
    case True
    then show ?thesis using variants_plain [of needle] by fastforce
  next
    case False
    have "(''json-escaped'', json_inner (u_repair needle), False) \<in> set (variants needle)"
      by (simp add: variants_def plain_forms_def False)
    then show ?thesis by fastforce
  qed
  from assms(1) consider "contains needle data" | "contains (json_inner (u_repair needle)) data"
    | before after where "contains (b64_encode (before @ needle @ after)) data"
    | before after where "contains (b64_urlsafe (before @ needle @ after)) data"
    unfolding leaks_def by blast
  then show ?thesis
  proof cases
    case 1
    then show ?thesis using variants_plain [of needle] by fastforce
  next
    case 2
    then show ?thesis using esc by fastforce
  qed (use enc grouping_b64 in auto)
qed

text \<open>Claim C12: when the gate's final search reports no survivor, the file contains no known value in any
  of the promised forms: not in clear, not JSON-escaped, and not inside the base64 text (either alphabet) of
  any bytes around it, at whatever byte offset the value starts there.\<close>

theorem no_survivor_no_leak:
  assumes "present (mk_patterns inventory) data = []" "(needle, label) \<in> set inventory" "3 < length needle"
  shows "\<not> leaks needle data"
proof
  assume "leaks needle data"
  then obtain form p b where "(form, p, b) \<in> set (variants needle)" "contains p data"
    using leaks_variant assms(3) by fastforce
  then have "(label, form, p, b) \<in> set (items (mk_patterns inventory))"
    using assms(2) items_mk_patterns by fastforce
  with \<open>contains p data\<close> assms(1) show False by (fastforce simp: present_Nil)
qed

lemma widen_left_le: "widen_left data lo i \<le> i"
  by (induction data lo i rule: widen_left.induct) auto

lemma piece_clean:
  assumes "find_from p data pos = Some i" "p \<noteq> []"
  shows "\<not> contains p (slice data pos (widen_left data pos i)) \<and> contains (slice data pos (widen_left data pos i)) data"
proof -
  let ?l = "widen_left data pos i"
  have "contains (slice data pos ?l) data"
    unfolding contains_sublist slice_def
    by (meson sublist_drop sublist_take sublist_order.order_trans)
  moreover have "\<not> contains p (slice data pos ?l)"
  proof
    assume "contains p (slice data pos ?l)"
    then obtain k where k: "is_at p (slice data pos ?l) k" by (auto simp: contains_iff)
    have len: "0 < length p" using assms(2) by simp
    have "k + length p \<le> length (slice data pos ?l)" "take (length p) (drop k (slice data pos ?l)) = p"
      using k by (simp_all add: is_at_def)
    then have le: "k + length p \<le> ?l - pos" "k + length p \<le> length data - pos" and part: "take (length p) (drop k (drop pos data)) = p"
      by (auto simp: slice_def drop_take min_def split: if_splits)
    have "k + length p + pos \<le> length data" using le len by linarith
    with part have "is_at p data (pos + k)" by (simp add: is_at_def add.commute)
    moreover have "pos + k < i" using le len widen_left_le [of data pos i] by linarith
    ultimately show False using find_from_Some(3) [OF assms(1), of "pos + k"] by simp
  qed
  ultimately show ?thesis by simp
qed

text \<open>The loop over base64 hits ends, and what it keeps is clean: its result consists of pieces of
  the file joined by one marker per counted hit, and no piece contains the pattern.\<close>

theorem censor_b64_pieces:
  assumes "p \<noteq> []"
  shows "\<exists>pieces. fst (censor_b64 p mark data pos) = join mark pieces \<and>
    length pieces = Suc (snd (censor_b64 p mark data pos)) \<and> list_all (\<lambda>w. \<not> contains p w \<and> contains w data) pieces"
  using assms
proof (induction p mark data pos rule: censor_b64.induct)
  case (1 p mark data pos)
  have tail: "contains (drop pos data) data"
    by (metis append_take_drop_id contains_sublist sublist_append_rightI append_Nil2 sublist_appendI)
  show ?case
  proof (cases "find_from p data pos")
    case None
    have "\<not> contains p (drop pos data)"
    proof
      assume "contains p (drop pos data)"
      then obtain i where "is_at p (drop pos data) i" by (auto simp: contains_iff)
      then have "is_at p data (pos + i)"
        using 1(2) by (cases "pos \<le> length data") (auto simp: is_at_def add.commute)
      then show False using None by (auto simp: find_from_None)
    qed
    moreover have "censor_b64 p mark data pos = (drop pos data, 0)"
      by (subst censor_b64.simps) (simp add: None)
    ultimately show ?thesis using tail by (intro exI [of _ "[drop pos data]"]) simp
  next
    case (Some i)
    show ?thesis
    proof (cases "length data < pos")
      case True
      then have "censor_b64 p mark data pos = ([], 0)"
        by (subst censor_b64.simps) simp
      then show ?thesis using 1(2) tail True by (intro exI [of _ "[[]]"]) (simp add: contains_iff is_at_def)
    next
      case False
      let ?j = "widen_right data (i + length p)" and ?l = "widen_left data pos i"
      obtain pieces where IH: "fst (censor_b64 p mark data ?j) = join mark pieces"
        "length pieces = Suc (snd (censor_b64 p mark data ?j))" "list_all (\<lambda>w. \<not> contains p w \<and> contains w data) pieces"
        using 1(1) [OF _ Some 1(2)] 1(2) False by auto
      have step: "censor_b64 p mark data pos = (slice data pos ?l @ mark @ fst (censor_b64 p mark data ?j), Suc (snd (censor_b64 p mark data ?j)))"
        using 1(2) False by (subst censor_b64.simps) (simp add: Some split: prod.split)
      have "\<not> contains p (slice data pos ?l) \<and> contains (slice data pos ?l) data"
        by (rule piece_clean [OF Some 1(2)])
      then show ?thesis
        using IH by (intro exI [of _ "slice data pos ?l # pieces"]) (cases pieces; simp add: step)
    qed
  qed
qed

theorem no_survivor_no_leak_witness:
  "\<not> leaks ''s3cr3t-x'' ''hello''"
proof -
  have "list_all (\<lambda>(form, p, b). \<not> contains p ''hello'') (variants ''s3cr3t-x'')" by code_simp
  then have "present (mk_patterns [(''s3cr3t-x'', ''env:TOKEN'')]) ''hello'' = []"
    by (auto simp: present_Nil items_mk_patterns list_all_iff)
  then show ?thesis by (rule no_survivor_no_leak) simp_all
qed

theorem censor_b64_pieces_witness:
  "censor_b64 ''c2Vj'' ''#'' ''k=Ac2VjZXQ= c2Vj'' 0 = (''k=# #'', 2) \<and>
   (\<exists>pieces. fst (censor_b64 ''c2Vj'' ''#'' ''k=Ac2VjZXQ= c2Vj'' 0) = join ''#'' pieces \<and>
    length pieces = Suc (snd (censor_b64 ''c2Vj'' ''#'' ''k=Ac2VjZXQ= c2Vj'' 0)) \<and>
    list_all (\<lambda>w. \<not> contains ''c2Vj'' w \<and> contains w ''k=Ac2VjZXQ= c2Vj'') pieces)"
proof (rule conjI)
  show "censor_b64 ''c2Vj'' ''#'' ''k=Ac2VjZXQ= c2Vj'' 0 = (''k=# #'', 2)" by code_simp
qed (rule censor_b64_pieces, simp)

end
