(* ===== verification/ReleaseGate.thy ===== *)
theory ReleaseGate
  imports GateCensor
begin

text \<open>
  The run of \<^verbatim>\<open>.github/scripts/release_gate.py\<close> over a directory: archives, the files one by one, the
  inventory of the job, the report and the exit status.

  The directory is an association list from relative paths (their parts) to what is there; real directories
  are not listed. Reading, unlinking and writing can fail, as the environment says. The decompressors and
  the readers of zip and tar files are parameters: each gives the chunks it would deliver. An exception that
  \<open>process_directory\<close> handles is its text, "class: message".
\<close>

section \<open>Archives\<close>

text \<open>The chunks of a stream and whether reading ends in an exception.\<close>

type_synonym stream = "string list \<times> bool"

text \<open>A zip file is its entries with their compression method (0 stored, 8 deflated), a tar file the first
  eight bytes of each member that is a regular file; \<open>None\<close> is an exception.\<close>

record codecs =
  gz_stream :: "string \<Rightarrow> stream"
  bz_stream :: "string \<Rightarrow> stream"
  xz_stream :: "string \<Rightarrow> stream"
  zip_entries :: "string \<Rightarrow> (nat \<times> stream) list option"
  tar_heads :: "string \<Rightarrow> string option list option"

definition GZIP :: string where "GZIP = [CHR 0x1F, CHR 0x8B]"
definition BZIP :: string where "BZIP = ''BZh''"
definition XZ :: string where "XZ = [CHR 0xFD, CHR ''7'', CHR ''z'', CHR ''X'', CHR ''Z'', CHR 0x00]"
definition ZIP :: string where "ZIP = [CHR ''P'', CHR ''K'', CHR 0x03, CHR 0x04]"
definition ZSTD :: string where "ZSTD = [CHR 0x28, CHR 0xB5, CHR 0x2F, CHR 0xFD]"
definition SEVENZIP :: string where "SEVENZIP = [CHR ''7'', CHR ''z'', CHR 0xBC, CHR 0xAF]"
definition RAR :: string where "RAR = ''Rar!''"

definition ARCHIVE_MAGICS :: "string list" where
  "ARCHIVE_MAGICS = [GZIP, BZIP, XZ, ZIP, ZSTD, SEVENZIP, RAR]"

definition is_archive :: "string \<Rightarrow> bool" where
  "is_archive data \<longleftrightarrow> list_ex (\<lambda>magic. starts_with magic data) ARCHIVE_MAGICS"

text \<open>\<open>None\<close>: the tar file could not be read.\<close>

definition tar_holds_archive :: "codecs \<Rightarrow> string \<Rightarrow> bool option" where
  "tar_holds_archive cx payload =
     (if take 5 (drop 257 payload) \<noteq> ''ustar'' then Some False
      else map_option (list_ex (\<lambda>head. case head of None \<Rightarrow> False | Some h \<Rightarrow> is_archive (take 8 h))) (tar_heads cx payload))"

text \<open>Reading stops at the first empty chunk, and fails when more than \<open>budget\<close> bytes have come.\<close>

fun read_bounded :: "int \<Rightarrow> int \<Rightarrow> string list \<Rightarrow> bool \<Rightarrow> string option" where
  "read_bounded budget got [] broken = (if broken then None else Some [])"
| "read_bounded budget got (chunk # chunks) broken =
     (if chunk = [] then Some []
      else if budget < got + int (length chunk) then None
      else map_option ((@) chunk) (read_bounded budget (got + int (length chunk)) chunks broken))"

definition read_stream :: "int \<Rightarrow> stream \<Rightarrow> string option" where
  "read_stream budget st = read_bounded budget 0 (fst st) (snd st)"

text \<open>The entries of a zip file share one budget; only stored and deflated entries are read.\<close>

fun zip_members :: "int \<Rightarrow> (nat \<times> stream) list \<Rightarrow> string list option" where
  "zip_members budget [] = Some []"
| "zip_members budget ((compression, st) # entries) =
     (if compression \<noteq> 0 \<and> compression \<noteq> 8 then None
      else (case read_stream budget st of
              None \<Rightarrow> None
            | Some content \<Rightarrow> map_option ((#) content) (zip_members (budget - int (length content)) entries)))"

datatype payload = NotArchive | Unreadable | Payload string

definition from_stream :: "string option \<Rightarrow> payload" where
  "from_stream r = (case r of None \<Rightarrow> Unreadable | Some p \<Rightarrow> Payload p)"

definition unpack :: "codecs \<Rightarrow> int \<Rightarrow> string \<Rightarrow> payload" where
  "unpack cx limit data =
     (if take 2 data = GZIP then from_stream (read_stream limit (gz_stream cx data))
      else if take 3 data = BZIP then from_stream (read_stream limit (bz_stream cx data))
      else if take 6 data = XZ then from_stream (read_stream limit (xz_stream cx data))
      else if take 4 data = ZIP then
        (case zip_entries cx data of None \<Rightarrow> Unreadable
         | Some entries \<Rightarrow>
             (case zip_members limit entries of None \<Rightarrow> Unreadable
              | Some members \<Rightarrow> if list_ex is_archive members then Unreadable else Payload (join [CHR 0x0A] members)))
      else if take 4 data \<in> {ZSTD, SEVENZIP, RAR} then Unreadable
      else NotArchive)"

definition archive_payload :: "codecs \<Rightarrow> int \<Rightarrow> string \<Rightarrow> payload" where
  "archive_payload cx limit data =
     (case unpack cx limit data of
        Payload p \<Rightarrow>
          if is_archive p then Unreadable
          else (case tar_holds_archive cx p of Some False \<Rightarrow> Payload p | _ \<Rightarrow> Unreadable)
      | r \<Rightarrow> r)"

section \<open>The directory\<close>

type_synonym fpath = "string list"

text \<open>A file has a size and what reading it gives: an exception or its bytes.\<close>

datatype node = Link | Special | File int "string + string"

text \<open>Writing a file can fail before the file is touched, or after some bytes.\<close>

datatype write_outcome = Written | Denied string | Cut nat string

record gate_env =
  digest :: "string \<Rightarrow> string"
  codecs_of :: codecs
  limit :: int
  unlink_error :: "fpath \<Rightarrow> string option"
  write_outcome :: "fpath \<Rightarrow> write_outcome"

record report =
  censored :: "(string \<times> string \<times> nat) list"
  withheld :: "(string \<times> string) list"

record dir_state =
  tree :: "(fpath \<times> node) list"
  report_of :: report

type_synonym 'a gate = "(dir_state, string, 'a) prog"

definition found :: "report \<Rightarrow> bool" where
  "found r \<longleftrightarrow> censored r \<noteq> [] \<or> withheld r \<noteq> []"

definition relative :: "fpath \<Rightarrow> string" where
  "relative path = join ''/'' path"

definition withhold :: "fpath \<Rightarrow> string \<Rightarrow> unit gate" where
  "withhold path reason = modP (\<lambda>s. s\<lparr>report_of := (report_of s)\<lparr>withheld := withheld (report_of s) @ [(relative path, reason)]\<rparr>\<rparr>)"

definition note_hits :: "fpath \<Rightarrow> hits \<Rightarrow> unit gate" where
  "note_hits path hs = modP (\<lambda>s. s\<lparr>report_of := (report_of s)\<lparr>censored := censored (report_of s) @
     map (\<lambda>(rule, n). (relative path, rule, n)) (sort_key fst hs)\<rparr>\<rparr>)"

definition remove_path :: "fpath \<Rightarrow> (fpath \<times> node) list \<Rightarrow> (fpath \<times> node) list" where
  "remove_path path t = filter (\<lambda>pn. fst pn \<noteq> path) t"

definition unlink :: "gate_env \<Rightarrow> fpath \<Rightarrow> unit gate" where
  "unlink env path =
     (case unlink_error env path of
        Some e \<Rightarrow> raise e
      | None \<Rightarrow> modP (\<lambda>s. s\<lparr>tree := remove_path path (tree s)\<rparr>))"

definition put_file :: "fpath \<Rightarrow> string \<Rightarrow> unit gate" where
  "put_file path content =
     modP (\<lambda>s. s\<lparr>tree := map (\<lambda>pn. if fst pn = path then (path, File (int (length content)) (Inr content)) else pn) (tree s)\<rparr>)"

definition write_file :: "gate_env \<Rightarrow> fpath \<Rightarrow> string \<Rightarrow> unit gate" where
  "write_file env path content =
     (case write_outcome env path of
        Written \<Rightarrow> put_file path content
      | Denied e \<Rightarrow> raise e
      | Cut n e \<Rightarrow> thenP (put_file path (take n content)) (raise e))"

text \<open>Files and links, in the order of their paths.\<close>

definition entries :: "(fpath \<times> node) list \<Rightarrow> fpath list" where
  "entries t = sort (map fst t)"

section \<open>One file\<close>

definition removed_unless :: "bool \<Rightarrow> unit gate \<Rightarrow> unit gate" where
  "removed_unless check m = (if check then ret () else m)"

definition archive_result :: "gate_env \<Rightarrow> patterns \<Rightarrow> bool \<Rightarrow> fpath \<Rightarrow> string \<Rightarrow> unit gate" where
  "archive_result env ps check path payload =
     (if limit env < int (length payload) then raise ''ValueError: archive larger than the inspection limit''
      else (case snd (censor_bytes (digest env) ps payload) of
              [] \<Rightarrow> ret ()
            | h # hs \<Rightarrow> thenP (withhold path (''secret inside archive: '' @ join '', '' (sort (map fst (h # hs)))))
                (removed_unless check (unlink env path))))"

definition rewrite_result :: "gate_env \<Rightarrow> patterns \<Rightarrow> fpath \<Rightarrow> string \<Rightarrow> unit gate" where
  "rewrite_result env ps path cleaned =
     (case present ps cleaned of
        [] \<Rightarrow> write_file env path cleaned
      | l # ls \<Rightarrow> thenP (unlink env path)
          (withhold path (''known value survived censoring: '' @ join '', '' (l # ls))))"

definition file_result :: "gate_env \<Rightarrow> patterns \<Rightarrow> bool \<Rightarrow> fpath \<Rightarrow> string \<Rightarrow> unit gate" where
  "file_result env ps check path data =
     (case censor_bytes (digest env) ps data of (cleaned, hs) \<Rightarrow>
        if hs = [] then ret ()
        else thenP (note_hits path hs) (removed_unless check (rewrite_result env ps path cleaned)))"

definition inspect :: "gate_env \<Rightarrow> patterns \<Rightarrow> bool \<Rightarrow> fpath \<Rightarrow> int \<Rightarrow> string + string \<Rightarrow> unit gate" where
  "inspect env ps check path bytes reading =
     (if limit env < bytes then raise ''ValueError: larger than the inspection limit''
      else bindP (liftP reading) (\<lambda>data.
        (case archive_payload (codecs_of env) (limit env) data of
           Unreadable \<Rightarrow> raise ''ValueError: archive that could not be inspected''
         | Payload payload \<Rightarrow> archive_result env ps check path payload
         | NotArchive \<Rightarrow> file_result env ps check path data)))"

text \<open>What the source does with a handled exception: report, and remove unless that fails too.\<close>

definition give_up :: "gate_env \<Rightarrow> bool \<Rightarrow> fpath \<Rightarrow> string \<Rightarrow> unit gate" where
  "give_up env check path e =
     thenP (withhold path e) (removed_unless check (catchP (unlink env path) (\<lambda>_. ret ())))"

definition process_path :: "gate_env \<Rightarrow> patterns \<Rightarrow> bool \<Rightarrow> fpath \<Rightarrow> unit gate" where
  "process_path env ps check path =
     bindP (getP (\<lambda>s. map_of (tree s) path)) (\<lambda>n.
       (case n of
          None \<Rightarrow> ret ()
        | Some Link \<Rightarrow> thenP (withhold path ''symbolic link'') (removed_unless check (unlink env path))
        | Some Special \<Rightarrow> ret ()
        | Some (File bytes reading) \<Rightarrow> catchP (inspect env ps check path bytes reading) (give_up env check path)))"

definition process_directory :: "gate_env \<Rightarrow> needles \<Rightarrow> bool \<Rightarrow> unit gate" where
  "process_directory env inventory check =
     bindP (getP (\<lambda>s. entries (tree s))) (forP (process_path env (mk_patterns inventory) check))"

section \<open>The inventory of a job\<close>

text \<open>A named file: absent, unreadable (also as UTF-8), or its text.\<close>

datatype source_file = Absent | Unreadable_file | Text string

record gate_args =
  arg_secret_files :: "string list"
  arg_env :: "string list"
  arg_k8s :: "string list"
  arg_report :: "string option"
  arg_check :: bool
  arg_fail_on_find :: bool
  arg_max_mbytes :: int

record job =
  loads :: "string \<Rightarrow> json option"
  show_json :: "json \<Rightarrow> string"
  source_of :: "string \<Rightarrow> source_file"
  environ :: "string \<Rightarrow> string option"
  root_is_dir :: bool
  summary_opens :: bool
  report_writes :: bool

text \<open>The inventory with its sources (name and number of values), or what ends the run: an exit status or
  an exception that only \<open>run_cli\<close> catches.\<close>

datatype stop = Status int | Uncaught

type_synonym sources = "(string \<times> nat) list"

definition base_name :: "string \<Rightarrow> string" where
  "base_name path = last (split_on (CHR ''/'') path)"

definition update_all :: "needles \<Rightarrow> needles \<Rightarrow> needles" where
  "update_all inventory new_values = foldl (\<lambda>d (k, v). dict_set k v d) inventory new_values"

definition secret_file_step :: "job \<Rightarrow> needles \<times> sources \<Rightarrow> string \<Rightarrow> stop + needles \<times> sources" where
  "secret_file_step job acc name =
     (case source_of job name of
        Absent \<Rightarrow> Inr acc
      | Unreadable_file \<Rightarrow> Inl (Status 2)
      | Text raw \<Rightarrow>
          (case needles_from_secret_file (loads job) raw of
             [] \<Rightarrow> Inl (Status 2)
           | n # ns \<Rightarrow> Inr (update_all (fst acc) (n # ns), snd acc @ [(base_name name, Suc (length ns))])))"

definition env_step :: "job \<Rightarrow> needles \<times> sources \<Rightarrow> string \<Rightarrow> needles \<times> sources" where
  "env_step job acc name =
     (case environ job name of
        None \<Rightarrow> acc
      | Some v \<Rightarrow>
          if MIN_LEN \<le> u_len v
          then (add_string (loads job) MAX_NESTING MIN_LEN v (''env:'' @ name) (fst acc), snd acc @ [(''env:'' @ name, 1)])
          else acc)"

text \<open>Of the exceptions of a cluster document, \<open>build_inventory\<close> handles \<open>ValueError\<close> alone.\<close>

definition k8s_step :: "job \<Rightarrow> needles \<times> sources \<Rightarrow> string \<Rightarrow> stop + needles \<times> sources" where
  "k8s_step job acc name =
     (case source_of job name of
        Absent \<Rightarrow> Inr acc
      | Unreadable_file \<Rightarrow> Inl (Status 2)
      | Text raw \<Rightarrow>
          (case needles_from_k8s_secrets (loads job) (show_json job) raw of
             Inl ValueErr \<Rightarrow> Inl (Status 2)
           | Inl _ \<Rightarrow> Inl Uncaught
           | Inr ns \<Rightarrow> Inr (update_all (fst acc) ns, snd acc @ [(base_name name, length ns)])))"

definition build_inventory :: "job \<Rightarrow> gate_args \<Rightarrow> stop + needles \<times> sources" where
  "build_inventory job args =
     bindE (foldE (secret_file_step job) ([], []) (arg_secret_files args)) (\<lambda>acc.
     foldE (k8s_step job) (foldl (env_step job) acc (arg_env args)) (arg_k8s args))"

section \<open>The run\<close>

record run_result =
  after :: dir_state
  report_file :: "(string \<times> json) option"   \<comment> \<open>path relative to the directory or as given, and content\<close>
  summary_lines :: "string list"
  status :: "stop"

definition REPORT_NAME :: string where "REPORT_NAME = ''redaction-report.json''"

definition report_json :: "report \<Rightarrow> sources \<Rightarrow> json" where
  "report_json r sources = JObj
     [(''censored'', JArr (map (\<lambda>(file, rule, n). JObj [(''file'', JStr file), (''rule'', JStr rule), (''count'', JInt (int n))]) (censored r))),
      (''withheld'', JArr (map (\<lambda>(file, reason). JObj [(''file'', JStr file), (''reason'', JStr reason)]) (withheld r))),
      (''inventory'', JArr (map (\<lambda>(name, n). JObj [(''source'', JStr name), (''values'', JInt (int n))]) sources))]"

text \<open>\<open>_write_summary\<close>: the lines it appends.\<close>

definition summary_text :: "report \<Rightarrow> bool \<Rightarrow> string list" where
  "summary_text r check =
     [''### Release gate: secrets '' @ (if check then ''found'' else ''censored before upload''), [],
      ''| File | Rule | Count |'', ''|---|---|---|''] @
     map (\<lambda>(file, rule, n). ''| `'' @ file @ ''` | `'' @ rule @ ''` | '' @ show_nat n @ '' |'') (censored r) @
     map (\<lambda>(file, reason). ''| `'' @ file @ ''` | withheld | '' @ reason @ '' |'') (withheld r)"

definition write_summary :: "job \<Rightarrow> report \<Rightarrow> bool \<Rightarrow> string list" where
  "write_summary job r check =
     (case environ job ''GITHUB_STEP_SUMMARY'' of
        None \<Rightarrow> []
      | Some f \<Rightarrow> if f = [] \<or> \<not> found r \<or> \<not> summary_opens job then [] else summary_text r check)"

definition empty_report :: report where "empty_report = \<lparr>censored = [], withheld = []\<rparr>"

definition exit_status :: "gate_args \<Rightarrow> report \<Rightarrow> int" where
  "exit_status args r = (if found r \<and> (arg_check args \<or> arg_fail_on_find args) then 1 else 0)"

definition stopped :: "dir_state \<Rightarrow> stop \<Rightarrow> run_result" where
  "stopped s st = \<lparr>after = s, report_file = None, summary_lines = [], status = st\<rparr>"

text \<open>After the directory: summary, report file (unless checking), exit status.\<close>

definition finish_run :: "job \<Rightarrow> gate_args \<Rightarrow> sources \<Rightarrow> dir_state \<Rightarrow> run_result" where
  "finish_run job args sources s =
     \<lparr>after = s,
      report_file = (if arg_check args \<or> \<not> report_writes job then None
        else Some (case arg_report args of Some p \<Rightarrow> (if p = [] then REPORT_NAME else p) | None \<Rightarrow> REPORT_NAME,
                   report_json (report_of s) sources)),
      summary_lines = write_summary job (report_of s) (arg_check args),
      status = (if \<not> arg_check args \<and> \<not> report_writes job then Uncaught else Status (exit_status args (report_of s)))\<rparr>"

definition gate_main :: "gate_env \<Rightarrow> job \<Rightarrow> gate_args \<Rightarrow> (fpath \<times> node) list \<Rightarrow> run_result" where
  "gate_main env job args t =
     (case \<lparr>tree = t, report_of = empty_report\<rparr> of s \<Rightarrow>
       if \<not> root_is_dir job then stopped s (Status 2)
       else (case build_inventory job args of
               Inl st \<Rightarrow> stopped s st
             | Inr (inventory, sources) \<Rightarrow>
                 (case process_directory (env\<lparr>limit := arg_max_mbytes args * 1024 * 1024\<rparr>) inventory (arg_check args) s of
                    (Inl _, s') \<Rightarrow> stopped s' Uncaught
                  | (Inr _, s') \<Rightarrow> finish_run job args sources s')))"

text \<open>\<open>run_cli\<close>: arguments that argparse rejects (\<open>None\<close>) and every exception give 2.\<close>

definition run_cli :: "gate_env \<Rightarrow> job \<Rightarrow> gate_args option \<Rightarrow> (fpath \<times> node) list \<Rightarrow> int" where
  "run_cli env job args t =
     (case args of
        None \<Rightarrow> 2
      | Some a \<Rightarrow> (case status (gate_main env job a t) of Status n \<Rightarrow> n | Uncaught \<Rightarrow> 2))"

section \<open>Frames and triples of the operations\<close>

lemma map_of_remove: "map_of (remove_path path t) q = (if q = path then None else map_of t q)"
  by (induction t) (auto simp: remove_path_def)

lemma map_of_put: "map_of (map (\<lambda>pn. if fst pn = path then (path, x) else pn) t) q =
    (if q = path \<and> map_of t path \<noteq> None then Some x else map_of t q)"
  by (induction t) auto

text \<open>Every operation on a path leaves the other paths alone.\<close>

definition other :: "fpath \<Rightarrow> node option \<Rightarrow> dir_state \<Rightarrow> bool" where
  "other q v s \<longleftrightarrow> map_of (tree s) q = v"

lemma other_withhold [keeps_rules]: "keeps (other q v) (withhold path r)"
  by (rule keepsI) (simp add: withhold_def other_def)

lemma other_note_hits [keeps_rules]: "keeps (other q v) (note_hits path hs)"
  by (rule keepsI) (simp add: note_hits_def other_def)

lemma other_unlink: "q \<noteq> path \<Longrightarrow> keeps (other q v) (unlink env path)"
  by (rule keepsI) (simp add: unlink_def other_def map_of_remove split: option.splits)

lemma other_put_file: "q \<noteq> path \<Longrightarrow> keeps (other q v) (put_file path c)"
  by (rule keepsI) (simp add: put_file_def other_def map_of_put)

lemma other_write: "q \<noteq> path \<Longrightarrow> keeps (other q v) (write_file env path c)"
  by (cases "write_outcome env path") (auto simp: write_file_def intro!: keeps_rules other_put_file)

lemma other_process:
  assumes "q \<noteq> path"
  shows "keeps (other q v) (process_path env ps check path)"
proof -
  note ops = other_unlink [OF assms] other_write [OF assms]
  have gone: "keeps (other q v) (removed_unless check m)" if "keeps (other q v) m" for m
    using that by (auto simp: removed_unless_def intro: keeps_rules)
  have a: "keeps (other q v) (archive_result env ps check path p)" for p
    by (auto simp: archive_result_def intro!: keeps_rules gone ops split: list.splits)
  have r: "keeps (other q v) (rewrite_result env ps path c)" for c
    by (auto simp: rewrite_result_def intro!: keeps_rules ops split: list.splits)
  have f: "keeps (other q v) (file_result env ps check path d)" for d
    by (auto simp: file_result_def intro!: keeps_rules gone r split: prod.splits)
  have i: "keeps (other q v) (inspect env ps check path b rd)" for b rd
    by (auto simp: inspect_def intro!: keeps_rules a f split: payload.splits)
  have g: "keeps (other q v) (give_up env check path e)" for e
    by (auto simp: give_up_def intro!: keeps_rules gone ops)
  show ?thesis
    by (auto simp: process_path_def intro!: keeps_rules gone ops i g split: option.splits node.splits)
qed

text \<open>What may stay: a file in which the final search found nothing, in it or in the archive that it is; and
  whatever the operating system refuses to remove.\<close>

definition searched_clean :: "gate_env \<Rightarrow> patterns \<Rightarrow> string \<Rightarrow> bool" where
  "searched_clean env ps data \<longleftrightarrow> present ps data = [] \<or>
     (\<exists>p. archive_payload (codecs_of env) (limit env) data = Payload p \<and> present ps p = [])"

definition node_ok :: "gate_env \<Rightarrow> patterns \<Rightarrow> node \<Rightarrow> bool" where
  "node_ok env ps n \<longleftrightarrow> (case n of Link \<Rightarrow> False | Special \<Rightarrow> True
     | File _ reading \<Rightarrow> (case reading of Inl _ \<Rightarrow> False | Inr data \<Rightarrow> searched_clean env ps data))"

definition path_ok :: "gate_env \<Rightarrow> patterns \<Rightarrow> fpath \<Rightarrow> dir_state \<Rightarrow> bool" where
  "path_ok env ps path s \<longleftrightarrow> (\<forall>n. map_of (tree s) path = Some n \<longrightarrow> node_ok env ps n)"

lemma hoare_true: "hoare P m (\<lambda>_ _. True) (\<lambda>_ _. True)"
  by (simp add: hoare_def split: prod.split sum.split)

lemma hoare_raise_true: "hoare P (raise e) Q (\<lambda>_ _. True)"
  by (simp add: hoare_def)

lemma ok_withhold [keeps_rules]: "keeps (path_ok env ps path) (withhold p r)"
  by (rule keepsI) (simp add: withhold_def path_ok_def)

lemma unlink_ok:
  assumes "unlink_error env path = None"
  shows "hoare P (unlink env path) (\<lambda>_. path_ok env ps path) E"
  using assms by (auto simp: unlink_def hoare_def path_ok_def map_of_remove)

lemma give_up_ok:
  assumes "unlink_error env path = None"
  shows "hoare P (give_up env False path e) (\<lambda>_. path_ok env ps path) E"
  using assms by (auto simp: give_up_def removed_unless_def unlink_def hoare_def path_ok_def map_of_remove withhold_def
      thenP_def bindP_def catchP_def)

lemma write_ok:
  assumes "present ps c = []"
  shows "hoare P (write_file env path c) (\<lambda>_. path_ok env ps path) (\<lambda>_ _. True)"
proof (cases "write_outcome env path")
  case Written
  have "hoare P (put_file path c) (\<lambda>_. path_ok env ps path) (\<lambda>_ _. True)"
    using assms by (auto simp: hoare_def put_file_def path_ok_def map_of_put node_ok_def searched_clean_def)
  then show ?thesis by (simp add: write_file_def Written)
qed (auto simp: write_file_def hoare_def thenP_def bindP_def put_file_def)

lemma inspect_ok:
  assumes u: "unlink_error env path = None"
  shows "hoare (other path (Some (File b rd))) (inspect env ps False path b rd) (\<lambda>_. path_ok env ps path) (\<lambda>_ _. True)"
proof (cases rd)
  case (Inr data)
  have keep: "hoare (other path (Some (File b rd))) (ret ()) (\<lambda>_. path_ok env ps path) (\<lambda>_ _. True)"
    if "searched_clean env ps data"
    using that by (simp add: hoare_def other_def path_ok_def node_ok_def Inr)
  have "hoare (other path (Some (File b rd))) (archive_result env ps False path p) (\<lambda>_. path_ok env ps path) (\<lambda>_ _. True)"
    if "archive_payload (codecs_of env) (limit env) data = Payload p" for p
  proof (cases "snd (censor_bytes (digest env) ps p)")
    case Nil
    have "searched_clean env ps data"
      using censor_bytes_miss [OF Nil] that by (auto simp: searched_clean_def)
    with keep Nil show ?thesis by (auto simp: archive_result_def hoare_raise_true)
  next
    case (Cons h hs)
    then show ?thesis
      by (auto simp: archive_result_def removed_unless_def hoare_raise_true intro: hoare_then [OF hoare_true] unlink_ok [OF u])
  qed
  moreover have "hoare (other path (Some (File b rd))) (file_result env ps False path data) (\<lambda>_. path_ok env ps path) (\<lambda>_ _. True)"
  proof (cases "snd (censor_bytes (digest env) ps data)")
    case Nil
    then have "searched_clean env ps data"
      using censor_bytes_miss [OF Nil] by (simp add: searched_clean_def)
    with keep Nil show ?thesis by (simp add: file_result_def split_beta)
  next
    case (Cons h hs)
    have "hoare P (rewrite_result env ps path c) (\<lambda>_. path_ok env ps path) (\<lambda>_ _. True)" for P c
    proof (cases "present ps c")
      case Nil
      then show ?thesis by (simp add: rewrite_result_def write_ok)
    next
      case (Cons l ls)
      have "hoare (path_ok env ps path) (withhold path x) (\<lambda>_. path_ok env ps path) (\<lambda>_ _. True)" for x
        by (simp add: hoare_def withhold_def path_ok_def)
      then show ?thesis by (simp add: rewrite_result_def Cons) (rule hoare_then [OF unlink_ok [OF u]])
    qed
    then show ?thesis
      by (simp add: file_result_def split_beta Cons removed_unless_def) (rule hoare_then [OF hoare_true])
  qed
  ultimately show ?thesis
    by (auto simp: inspect_def Inr liftP_def bindP_def hoare_def split: payload.splits)
qed (auto simp: inspect_def hoare_def bindP_def)

lemma process_path_ok:
  assumes u: "unlink_error env path = None"
  shows "hoare P (process_path env ps False path) (\<lambda>_. path_ok env ps path) (\<lambda>_ _. True)"
proof -
  have plain: "hoare (other path (Some (File b rd))) (catchP (inspect env ps False path b rd) (give_up env False path))
      (\<lambda>_. path_ok env ps path) (\<lambda>_ _. True)" for b rd
    by (rule hoare_catch [OF inspect_ok [OF u] give_up_ok [OF u]])
  have link: "hoare P (thenP (withhold path x) (removed_unless False (unlink env path))) (\<lambda>_. path_ok env ps path) (\<lambda>_ _. True)" for P x
    by (simp add: removed_unless_def) (rule hoare_then [OF hoare_true unlink_ok [OF u]])
  let ?m = "\<lambda>n. case n of None \<Rightarrow> ret () | Some Link \<Rightarrow> thenP (withhold path ''symbolic link'') (removed_unless False (unlink env path))
     | Some Special \<Rightarrow> ret () | Some (File b rd) \<Rightarrow> catchP (inspect env ps False path b rd) (give_up env False path)"
  have "hoare (other path n) (?m n) (\<lambda>_. path_ok env ps path) (\<lambda>_ _. True)" for n
    using plain link by (auto simp: hoare_def other_def path_ok_def node_ok_def split: option.splits node.splits)
  then show ?thesis
    unfolding process_path_def by (intro hoare_bind [where R = "\<lambda>n. other path n"]) (simp_all add: hoare_def other_def)
qed

text \<open>The loop over the entries.\<close>

lemma path_ok_kept:
  assumes "q \<noteq> path"
  shows "keeps (path_ok env ps q) (process_path env' ps' check path)"
proof (rule keepsI)
  fix s
  assume ok: "path_ok env ps q s"
  have "other q (map_of (tree s) q) (snd (process_path env' ps' check path s))"
    by (rule keepsD [OF other_process [OF assms]]) (simp add: other_def)
  with ok show "path_ok env ps q (snd (process_path env' ps' check path s))"
    by (simp add: path_ok_def other_def)
qed

lemma forP_each:
  assumes "path \<in> set xs" "forP f xs s = (Inr (), t)"
    and "\<And>s t. f path s = (Inr (), t) \<Longrightarrow> Q t"
    and "\<And>x. x \<noteq> path \<Longrightarrow> keeps Q (f x)"
  shows "Q t"
  using assms(1,2)
proof (induction xs arbitrary: s)
  case (Cons x xs)
  then obtain s' where s': "f x s = (Inr (), s')" "forP f xs s' = (Inr (), t)" by (auto simp: thenP_Inr_iff)
  show ?case
  proof (cases "path \<in> set xs")
    case False
    then have "x = path" using Cons.prems by simp
    then have "Q s'" using assms(3) s' by simp
    moreover have "keeps Q (forP f xs)" using False by (intro keeps_forP assms(4)) auto
    ultimately show ?thesis using keepsD [of Q "forP f xs" s'] s'(2) by simp
  qed (use Cons.IH s' in blast)
qed simp

lemma process_directory_run:
  "process_directory env inventory check s = forP (process_path env (mk_patterns inventory) check) (entries (tree s)) s"
  by (simp add: process_directory_def bindP_def)

lemma other_paths: "map_of (tree s) path = None \<Longrightarrow> map_of (tree (snd (process_directory env inventory check s))) path = None"
proof -
  assume none: "map_of (tree s) path = None"
  then have "path \<notin> set (entries (tree s))" by (simp add: entries_def map_of_eq_None_iff)
  then have "keeps (other path None) (forP (process_path env (mk_patterns inventory) check) (entries (tree s)))"
    by (intro keeps_forP other_process) auto
  from keepsD [OF this, of s] show ?thesis
    using none by (simp add: other_def process_directory_run)
qed

lemma directory_paths_ok:
  assumes run: "process_directory env inventory False s = (Inr (), t)" and u: "unlink_error env path = None"
  shows "path_ok env (mk_patterns inventory) path t"
proof (cases "path \<in> set (entries (tree s))")
  case True
  show ?thesis
  proof (rule forP_each [OF True, of "process_path env (mk_patterns inventory) False" s t])
    show "path_ok env (mk_patterns inventory) path t'" if "process_path env (mk_patterns inventory) False path s' = (Inr (), t')" for s' t'
      using hoareD_ret [OF process_path_ok [OF u, of "\<lambda>_. True"] TrueI that] .
  qed (use run path_ok_kept in \<open>auto simp: process_directory_run\<close>)
next
  case False
  then have "map_of (tree s) path = None" by (simp add: entries_def map_of_eq_None_iff)
  from other_paths [OF this, of env inventory False] show ?thesis by (simp add: run path_ok_def)
qed

section \<open>Check mode and reporting\<close>

lemma tree_withhold: "keeps (\<lambda>s. tree s = T) (withhold path r)"
  by (rule keepsI) (simp add: withhold_def)

lemma tree_note_hits: "keeps (\<lambda>s. tree s = T) (note_hits path hs)"
  by (rule keepsI) (simp add: note_hits_def)

lemma check_keeps_tree: "keeps (\<lambda>s. tree s = T) (process_path env ps True path)"
proof -
  note ops = tree_withhold tree_note_hits
  have gone: "keeps (\<lambda>s. tree s = T) (removed_unless True m)" for m
    by (auto simp: removed_unless_def intro: keeps_rules)
  have i: "keeps (\<lambda>s. tree s = T) (inspect env ps True path b rd)" for b rd
    by (auto simp: inspect_def archive_result_def file_result_def intro!: keeps_rules gone ops
        split: payload.splits list.splits prod.splits)
  have g: "keeps (\<lambda>s. tree s = T) (give_up env True path e)" for e
    by (auto simp: give_up_def intro!: keeps_rules gone ops)
  show ?thesis
    by (auto simp: process_path_def intro!: keeps_rules gone ops i g split: option.splits node.splits)
qed

text \<open>The files a report names.\<close>

definition reported :: "report \<Rightarrow> string set" where
  "reported r = fst ` set (censored r) \<union> fst ` set (withheld r)"

definition accounted :: "(fpath \<times> node) list \<Rightarrow> dir_state \<Rightarrow> bool" where
  "accounted T s \<longleftrightarrow> (\<forall>path. map_of (tree s) path = map_of T path \<or> relative path \<in> reported (report_of s))"

definition named :: "(fpath \<times> node) list \<Rightarrow> fpath \<Rightarrow> dir_state \<Rightarrow> bool" where
  "named T path s \<longleftrightarrow> accounted T s \<and> relative path \<in> reported (report_of s)"

lemma withhold_names: "hoare (accounted T) (withhold path r) (\<lambda>_. named T path) E"
  by (auto simp: hoare_def withhold_def accounted_def named_def reported_def)

lemma note_hits_names: "hs \<noteq> [] \<Longrightarrow> hoare (accounted T) (note_hits path hs) (\<lambda>_. named T path) E"
proof -
  assume "hs \<noteq> []"
  then have files: "fst ` Pair (relative path) ` set hs = {relative path}"
    by (simp add: image_image image_constant_conv)
  have "reported (report_of (snd (note_hits path hs s))) = insert (relative path) (reported (report_of s))" for s
    by (simp add: note_hits_def reported_def image_Un files)
  moreover have "tree (snd (note_hits path hs s)) = tree s" for s by (simp add: note_hits_def)
  ultimately have "accounted T s \<Longrightarrow> named T path (snd (note_hits path hs s))" for s
    by (auto simp: accounted_def named_def)
  then show ?thesis by (simp add: hoare_def note_hits_def)
qed

lemma named_withhold: "keeps (named T path) (withhold path r)"
  by (rule keepsI) (auto simp: withhold_def accounted_def named_def reported_def)

lemma named_unlink: "keeps (named T path) (unlink env path)"
  by (rule keepsI) (auto simp: unlink_def accounted_def named_def map_of_remove split: option.splits)

lemma named_put: "keeps (named T path) (put_file path c)"
  by (rule keepsI) (auto simp: put_file_def accounted_def named_def map_of_put)

lemma named_write: "keeps (named T path) (write_file env path c)"
  by (cases "write_outcome env path") (auto simp: write_file_def intro!: keeps_rules named_put)

lemma accounted_process: "keeps (accounted T) (process_path env ps check path)"
proof -
  let ?A = "accounted T" and ?N = "named T path"
  have weak: "hoare P m (\<lambda>_. ?A) (\<lambda>_. ?A)" if "hoare P m (\<lambda>_. ?N) (\<lambda>_. ?N)" for P and m :: "'x gate"
    by (rule hoare_conseq [OF that]) (simp_all add: named_def)
  have step: "hoare ?A (thenP m k) (\<lambda>_. ?A) (\<lambda>_. ?A)" if "hoare ?A m (\<lambda>_. ?N) (\<lambda>_. ?A)" "keeps ?N k" for m :: "unit gate" and k :: "unit gate"
    by (rule hoare_then [OF that(1)], rule weak) (use that(2) in \<open>simp add: keeps_hoare\<close>)
  have gone: "keeps ?N (removed_unless check m)" if "keeps ?N m" for m
    using that by (auto simp: removed_unless_def intro: keeps_rules)
  have rewrite: "keeps ?N (rewrite_result env ps path c)" for c
    by (auto simp: rewrite_result_def intro!: keeps_rules named_write named_unlink named_withhold split: list.splits)
  have kstep: "keeps ?A (thenP m k)" if "hoare ?A m (\<lambda>_. ?N) (\<lambda>_. ?A)" "keeps ?N k" for m :: "unit gate" and k :: "unit gate"
    unfolding keeps_hoare by (rule step [OF that])
  have a: "keeps ?A (archive_result env ps check path p)" for p
    by (cases "snd (censor_bytes (digest env) ps p)")
      (auto simp: archive_result_def intro: keeps_raise keeps_ret kstep withhold_names gone named_unlink)
  have f: "keeps ?A (file_result env ps check path d)" for d
    by (cases "snd (censor_bytes (digest env) ps d)")
      (auto simp: file_result_def split_beta intro: keeps_ret kstep note_hits_names gone rewrite)
  have i: "keeps ?A (inspect env ps check path b rd)" for b rd
    unfolding inspect_def by (auto intro!: keeps_rules a f split: payload.splits)
  have g: "keeps ?A (give_up env check path e)" for e
    unfolding give_up_def keeps_hoare
    by (intro step withhold_names gone keeps_catch named_unlink keeps_ret)
  have l: "keeps ?A (thenP (withhold path r) (removed_unless check (unlink env path)))" for r
    unfolding keeps_hoare by (intro step withhold_names gone named_unlink)
  show ?thesis
    by (auto simp: process_path_def intro!: keeps_rules i g l split: option.splits node.splits)
qed

section \<open>The inventory of a job\<close>

lemma update_all_keys: "fst ` set (update_all d ns) = fst ` set d \<union> fst ` set ns"
proof (induction ns arbitrary: d)
  case (Cons kv ns)
  have "fst ` set (dict_set k v d) = insert k (fst ` set d)" for k v using keys_dict_set [of k v d] by simp
  then show ?case using Cons [of "dict_set (fst kv) (snd kv) d"] by (simp add: update_all_def split_beta)
qed (simp add: update_all_def)

definition long_keys :: "needles \<Rightarrow> bool" where
  "long_keys out \<longleftrightarrow> (\<forall>k \<in> fst ` set out. K8S_MIN_LEN \<le> u_len k)"

lemma long_set_default: "K8S_MIN_LEN \<le> u_len t \<Longrightarrow> long_keys out \<Longrightarrow> long_keys (set_default t l out)"
  by (simp add: long_keys_def set_default_keys)

lemma long_set_default_16: "MIN_LEN \<le> u_len t \<Longrightarrow> long_keys out \<Longrightarrow> long_keys (set_default t l out)"
  by (rule long_set_default) (simp_all add: MIN_LEN_def K8S_MIN_LEN_def)

lemma update_long: "long_keys d \<Longrightarrow> long_keys ns \<Longrightarrow> long_keys (update_all d ns)"
  by (auto simp: long_keys_def update_all_keys)

lemma build_inventory_long:
  assumes "build_inventory job args = Inr (inventory, sources)"
  shows "long_keys inventory"
proof -
  have nil: "long_keys []" by (simp add: long_keys_def)
  have a: "long_keys (fst acc')" if "long_keys (fst acc)" "secret_file_step job acc name = Inr acc'" for acc acc' name
  proof -
    have raw: "long_keys (needles_from_secret_file (loads job) raw)" for raw
      by (rule secret_file_invariant [where I = long_keys, OF long_set_default_16 nil])
    show ?thesis
      using that update_long [OF that(1) raw]
      by (auto simp: secret_file_step_def split: source_file.splits list.splits) metis
  qed
  have b: "long_keys (fst (env_step job acc name))" if "long_keys (fst acc)" for acc name
    using that by (auto simp: env_step_def split: option.splits
        intro!: add_string_invariant [where I = long_keys] long_set_default_16)
  have c: "long_keys (fst acc')" if "long_keys (fst acc)" "k8s_step job acc name = Inr acc'" for acc acc' name
  proof -
    have raw: "needles_from_k8s_secrets (loads job) (show_json job) raw = Inr ns \<Longrightarrow> long_keys ns" for raw ns
      by (rule k8s_secrets_invariant [where I = long_keys, OF long_set_default nil])
    show ?thesis
      using that update_long [OF that(1) raw]
      by (auto simp: k8s_step_def split: source_file.splits sum.splits py_error.splits)
  qed
  obtain acc where acc: "foldE (secret_file_step job) ([], []) (arg_secret_files args) = Inr acc"
      "foldE (k8s_step job) (foldl (env_step job) acc (arg_env args)) (arg_k8s args) = Inr (inventory, sources)"
    using assms by (auto simp: build_inventory_def bindE_Inr_iff)
  have "long_keys (fst acc)"
    by (rule foldE_invariant [where I = "\<lambda>x. long_keys (fst x)", OF acc(1) a]) (simp_all add: nil)
  then have "long_keys (fst (foldl (env_step job) acc (arg_env args)))"
    by (intro foldl_invariant [where I = "\<lambda>x. long_keys (fst x)"]) (simp_all add: b)
  then have "long_keys (fst (inventory, sources))"
    by (intro foldE_invariant [where I = "\<lambda>x. long_keys (fst x)", OF acc(2) c]) simp_all
  then show ?thesis by simp
qed

lemma build_inventory_status: "build_inventory job args = Inl st \<Longrightarrow> st = Status 2 \<or> st = Uncaught"
proof -
  have "secret_file_step job acc name = Inl st \<Longrightarrow> st = Status 2" for acc name
    by (auto simp: secret_file_step_def split: source_file.splits list.splits)
  moreover have "k8s_step job acc name = Inl st \<Longrightarrow> st = Status 2 \<or> st = Uncaught" for acc name
    by (auto simp: k8s_step_def split: source_file.splits sum.splits py_error.splits)
  ultimately show "build_inventory job args = Inl st \<Longrightarrow> ?thesis"
    by (auto simp: build_inventory_def bindE_Inl_iff dest!: foldE_Inl)
qed

section \<open>The properties\<close>

definition with_limit :: "gate_args \<Rightarrow> gate_env \<Rightarrow> gate_env" where
  "with_limit args env = env\<lparr>limit := arg_max_mbytes args * 1024 * 1024\<rparr>"

text \<open>A run that gets through: its inventory, its sources and the directory it leaves.\<close>

definition completes ::
  "gate_env \<Rightarrow> job \<Rightarrow> gate_args \<Rightarrow> (fpath \<times> node) list \<Rightarrow> needles \<Rightarrow> sources \<Rightarrow> dir_state \<Rightarrow> bool" where
  "completes env job args t inventory sources s \<longleftrightarrow>
     root_is_dir job \<and> build_inventory job args = Inr (inventory, sources) \<and>
     process_directory (with_limit args env) inventory (arg_check args) \<lparr>tree = t, report_of = empty_report\<rparr> = (Inr (), s) \<and>
     (arg_check args \<or> report_writes job)"

lemma gate_main_status:
  "(status (gate_main env job args t) = Status n \<and> n \<noteq> 2) \<longleftrightarrow>
   (\<exists>inventory sources s. completes env job args t inventory sources s \<and> n = exit_status args (report_of s))"
proof (cases "root_is_dir job")
  case True
  show ?thesis
  proof (cases "build_inventory job args")
    case (Inl st)
    then show ?thesis
      using True build_inventory_status [OF Inl] by (auto simp: gate_main_def completes_def stopped_def)
  next
    case (Inr iv)
    obtain inventory sources where iv: "iv = (inventory, sources)" by fastforce
    obtain r s where run: "process_directory (with_limit args env) inventory (arg_check args) \<lparr>tree = t, report_of = empty_report\<rparr> = (r, s)"
      by fastforce
    show ?thesis
      using True Inr iv run
      by (cases r) (auto simp: gate_main_def completes_def stopped_def finish_run_def exit_status_def with_limit_def)
  qed
qed (auto simp: gate_main_def completes_def stopped_def)

lemma gate_main_after:
  "completes env job args t inventory sources s \<Longrightarrow> after (gate_main env job args t) = s"
  by (simp add: gate_main_def completes_def finish_run_def with_limit_def)

text \<open>The exit status of the gate means what its header says. It is 1 exactly when a complete run
  found something and was asked to fail on it, 0 exactly when a complete run found nothing or was not asked
  to fail, and 2 in every other case: bad usage, no directory, an inventory source that is unreadable or
  yields nothing, and every unexpected exception. A crash is never mistaken for a pass.\<close>

theorem exit_status_meaning:
  "(run_cli env job args t = 1 \<longleftrightarrow> (\<exists>a inventory sources s. args = Some a \<and> completes env job a t inventory sources s \<and>
      found (report_of s) \<and> (arg_check a \<or> arg_fail_on_find a))) \<and>
   (run_cli env job args t = 0 \<longleftrightarrow> (\<exists>a inventory sources s. args = Some a \<and> completes env job a t inventory sources s \<and>
      \<not> (found (report_of s) \<and> (arg_check a \<or> arg_fail_on_find a)))) \<and>
   run_cli env job args t \<in> {0, 1, 2}"
proof (cases args)
  case (Some a)
  have st: "run_cli env job args t = n \<and> n \<noteq> 2 \<longleftrightarrow> status (gate_main env job a t) = Status n \<and> n \<noteq> 2" for n
    by (auto simp: run_cli_def Some split: stop.splits)
  have "run_cli env job args t = n \<and> n \<noteq> 2 \<longleftrightarrow>
      (\<exists>inventory sources s. completes env job a t inventory sources s \<and> n = exit_status a (report_of s))" for n
    unfolding st gate_main_status ..
  note iff = this
  have one: "exit_status a r = 1 \<longleftrightarrow> found r \<and> (arg_check a \<or> arg_fail_on_find a)"
    and zero: "exit_status a r = 0 \<longleftrightarrow> \<not> (found r \<and> (arg_check a \<or> arg_fail_on_find a))" for r
    by (simp_all add: exit_status_def)
  show ?thesis
  proof (intro conjI)
    show "run_cli env job args t \<in> {0, 1, 2}"
    proof (cases "run_cli env job args t = 2")
      case False
      then obtain r where "run_cli env job args t = exit_status a r"
        using iff [of "run_cli env job args t"] by blast
      then show ?thesis by (simp add: exit_status_def)
    qed simp
    show "run_cli env job args t = 1 \<longleftrightarrow> (\<exists>a inventory sources s. args = Some a \<and> completes env job a t inventory sources s \<and>
      found (report_of s) \<and> (arg_check a \<or> arg_fail_on_find a))"
      using iff [of 1] by (simp add: Some one eq_commute [of 1])
    show "run_cli env job args t = 0 \<longleftrightarrow> (\<exists>a inventory sources s. args = Some a \<and> completes env job a t inventory sources s \<and>
      \<not> (found (report_of s) \<and> (arg_check a \<or> arg_fail_on_find a)))"
      using iff [of 0] by (simp add: Some zero eq_commute [of 0])
  qed
qed (simp add: run_cli_def)

text \<open>With --check the gate changes nothing below the directory, whatever it finds and however it
  ends.\<close>

theorem check_changes_nothing:
  "tree (snd (process_directory env inventory True s)) = tree s"
proof -
  have "keeps (\<lambda>s'. tree s' = tree s) (forP (process_path env (mk_patterns inventory) True) (entries (tree s)))"
    by (rule keeps_forP) (rule check_keeps_tree)
  from keepsD [OF this, of s] show ?thesis by (simp add: process_directory_run)
qed

text \<open>Nothing is rewritten or removed silently: whatever path has changed after a run, complete or
  interrupted by an exception, the report names it.\<close>

theorem changes_are_reported:
  assumes "map_of (tree (snd (process_directory env inventory check s))) path \<noteq> map_of (tree s) path"
  shows "relative path \<in> reported (report_of (snd (process_directory env inventory check s)))"
proof -
  have "keeps (accounted (tree s)) (forP (process_path env (mk_patterns inventory) check) (entries (tree s)))"
    by (rule keeps_forP) (rule accounted_process)
  from keepsD [OF this, of s] show ?thesis
    using assms by (auto simp: process_directory_run accounted_def)
qed


section \<open>Bounds on archives\<close>

lemma read_bounded_length:
  "read_bounded budget got chunks broken = Some r \<Longrightarrow> got \<le> budget \<Longrightarrow> got + int (length r) \<le> budget"
proof (induction budget got chunks broken arbitrary: r rule: read_bounded.induct)
  case (2 budget got chunk chunks broken)
  then show ?case by (auto split: if_splits)
qed (auto split: if_splits)

lemma read_stream_length: "read_stream budget st = Some r \<Longrightarrow> 0 \<le> budget \<Longrightarrow> int (length r) \<le> budget"
  using read_bounded_length by (fastforce simp: read_stream_def)

lemma zip_members_length: "zip_members budget es = Some ms \<Longrightarrow> 0 \<le> budget \<Longrightarrow> int (length (concat ms)) \<le> budget"
proof (induction budget es arbitrary: ms rule: zip_members.induct)
  case (2 budget compression st entries)
  then obtain c ms' where c: "read_stream budget st = Some c" "zip_members (budget - int (length c)) entries = Some ms'" "ms = c # ms'"
    by (auto split: if_splits option.splits)
  have "int (length c) \<le> budget" using read_stream_length [OF c(1)] 2 by simp
  moreover have "int (length (concat ms')) \<le> budget - int (length c)"
    using 2 c calculation by (auto split: if_splits option.splits)
  ultimately show ?case by (simp add: c(3))
qed simp

lemma unpack_cases:
  assumes "unpack cx budget data = Payload p"
  shows "(\<exists>st. from_stream (read_stream budget st) = Payload p) \<or>
    (\<exists>es ms. zip_entries cx data = Some es \<and> zip_members budget es = Some ms \<and> p = join [CHR 0x0A] ms)"
proof (cases "take 2 data = GZIP \<or> take 3 data = BZIP \<or> take 6 data = XZ")
  case True
  then show ?thesis using assms by (auto simp: unpack_def split: if_split_asm) (metis prod.collapse)+
next
  case False
  then show ?thesis
    using assms unfolding unpack_def
    by (cases "zip_entries cx data"; cases "zip_members budget (the (zip_entries cx data))") (auto split: if_split_asm)
qed

lemma length_join1: "length (join [c] ms) \<le> length (concat ms) + (length ms - 1)"
  by (induction "[c]" ms rule: join.induct) auto

lemma zip_members_count: "zip_members budget es = Some ms \<Longrightarrow> length ms = length es"
  by (induction budget es arbitrary: ms rule: zip_members.induct) (auto split: if_splits option.splits)

text \<open>Claim C13: an archive bomb cannot exhaust the memory: whatever a compressed file would expand to, the
  unpacked content that the gate keeps has at most as many bytes as the limit, plus one separator between
  the members of a zip file, and it is not itself an archive.\<close>

theorem unpacked_is_bounded:
  assumes "archive_payload cx budget data = Payload p" "0 \<le> budget"
  shows "int (length p) \<le> budget + (case zip_entries cx data of None \<Rightarrow> 0 | Some es \<Rightarrow> int (length es)) \<and> \<not> is_archive p"
proof -
  have u: "unpack cx budget data = Payload p" and na: "\<not> is_archive p"
    using assms(1) by (auto simp: archive_payload_def split: payload.splits if_splits option.splits bool.splits)
  have stream: "int (length p) \<le> budget" if "from_stream (read_stream budget st) = Payload p" for st
    using that read_stream_length [of budget st p] assms(2) by (auto simp: from_stream_def split: option.splits)
  have pos: "0 \<le> (case zip_entries cx data of None \<Rightarrow> 0 | Some es \<Rightarrow> int (length es))" by (simp split: option.split)
  consider st where "from_stream (read_stream budget st) = Payload p"
    | es ms where "zip_entries cx data = Some es" "zip_members budget es = Some ms" "p = join [CHR 0x0A] ms"
    using unpack_cases [OF u] by blast
  then have "int (length p) \<le> budget + (case zip_entries cx data of None \<Rightarrow> 0 | Some es \<Rightarrow> int (length es))"
  proof cases
    case 1
    then show ?thesis using stream pos by fastforce
  next
    case 2
    then show ?thesis
      using zip_members_length [OF 2(2) assms(2)] zip_members_count [OF 2(2)] length_join1 [of "CHR 0x0A" ms] by simp
  qed
  with na show ?thesis by simp
qed

section \<open>A concrete run\<close>

definition sample_codecs :: codecs where
  "sample_codecs = \<lparr>gz_stream = (\<lambda>_. ([''pay'', ''load''], False)), bz_stream = (\<lambda>_. ([], True)), xz_stream = (\<lambda>_. ([], True)),
     zip_entries = (\<lambda>_. None), tar_heads = (\<lambda>_. None)\<rparr>"

definition sample_env :: gate_env where
  "sample_env = \<lparr>digest = (\<lambda>_. ''0123456789abcdef''), codecs_of = sample_codecs, limit = 1000,
     unlink_error = (\<lambda>path. if path = [''pinned''] then Some ''PermissionError: pinned'' else None), write_outcome = (\<lambda>_. Written)\<rparr>"

definition sample_job :: job where
  "sample_job = \<lparr>loads = (\<lambda>_. None), show_json = (\<lambda>_. []), source_of = (\<lambda>_. Absent),
     environ = (\<lambda>name. if name = ''TOKEN'' then Some ''correct horse/16'' else None),
     root_is_dir = True, summary_opens = True, report_writes = True\<rparr>"

definition sample_args :: gate_args where
  "sample_args = \<lparr>arg_secret_files = [], arg_env = [''TOKEN''], arg_k8s = [], arg_report = None, arg_check = False,
     arg_fail_on_find = False, arg_max_mbytes = 1\<rparr>"

theorem unpacked_is_bounded_witness:
  "archive_payload sample_codecs 100 (GZIP @ ''..'') = Payload ''payload'' \<and>
   int (length ''payload'') \<le> 100 + (case zip_entries sample_codecs (GZIP @ ''..'') of None \<Rightarrow> 0 | Some es \<Rightarrow> int (length es)) \<and>
   \<not> is_archive ''payload''"
proof -
  have "archive_payload sample_codecs 100 (GZIP @ ''..'') = Payload ''payload''" by code_simp
  with unpacked_is_bounded [OF this] show ?thesis by simp
qed

theorem changes_are_reported_witness:
  "relative [''link''] \<in> reported (report_of (snd (process_directory sample_env [] False
     \<lparr>tree = [([''link''], Link), ([''log''], File 5 (Inr ''hello''))], report_of = empty_report\<rparr>)))"
proof (rule changes_are_reported)
  have "map_of (tree (snd (process_directory sample_env [] False
     \<lparr>tree = [([''link''], Link), ([''log''], File 5 (Inr ''hello''))], report_of = empty_report\<rparr>))) [''link''] = None"
    by code_simp
  then show "map_of (tree (snd (process_directory sample_env [] False
     \<lparr>tree = [([''link''], Link), ([''log''], File 5 (Inr ''hello''))], report_of = empty_report\<rparr>))) [''link''] \<noteq>
     map_of (tree \<lparr>tree = [([''link''], Link), ([''log''], File 5 (Inr ''hello''))], report_of = empty_report\<rparr>) [''link'']"
    by simp
qed

definition sample_tree :: "(fpath \<times> node) list" where
  "sample_tree = [([''link''], Link), ([''log''], File 2 (Inr ''ok''))]"

lemma contains_length: "contains p s \<Longrightarrow> length p \<le> length s"
  by (auto simp: contains_iff is_at_def)

lemma new_forms_from: "(form, p, b) \<in> set (new_forms seen forms) \<Longrightarrow> (form, p) \<in> set forms"
  by (induction seen forms rule: new_forms.induct) (auto split: if_splits)

lemma all_forms_from: "(form, p) \<in> set (all_forms needle) \<Longrightarrow>
   \<exists>encode pad. (encode = b64_encode \<or> encode = b64_urlsafe) \<and> pad \<in> {0, 1, 2} \<and> p = b64_middle encode pad needle"
  unfolding all_forms_def b64_forms_def by auto

text \<open>No form of a value of 16 bytes fits into two bytes.\<close>

lemma variants_long: "(form, p, b) \<in> set (variants ''correct horse/16'') \<Longrightarrow> 2 < length p"
proof -
  have esc: "json_inner (u_repair ''correct horse/16'') = ''correct horse/16''" by code_simp
  have mid: "2 < length (b64_middle encode pad ''correct horse/16'')"
    if "encode = b64_encode \<or> encode = b64_urlsafe" "pad \<in> {0, 1, 2}" for encode pad
    using that by (auto simp: b64_middle_def inner_groups_def b64_urlsafe_def numeral_2_eq_2)
  assume "(form, p, b) \<in> set (variants ''correct horse/16'')"
  then consider "(form, p, b) \<in> set (plain_forms ''correct horse/16'')" | "(form, p) \<in> set (all_forms ''correct horse/16'')"
    unfolding variants_def using new_forms_from by fastforce
  then show "2 < length p"
  proof cases
    case 1
    then show ?thesis by (auto simp: plain_forms_def esc)
  next
    case 2
    then show ?thesis using all_forms_from mid by metis
  qed
qed

lemma known_fold_absent:
  "(\<And>label form p b. (label, form, p, b) \<in> set its \<Longrightarrow> \<not> contains p data) \<Longrightarrow>
   foldl (known_step d ps) (data, hs) its = (data, hs)"
  by (induction its) (auto simp: known_step_def split: prod.splits)

lemma sample_censored: "censor_bytes d (mk_patterns [(''correct horse/16'', ''env:TOKEN'')]) ''ok'' = (''ok'', [])"
proof -
  have "censor_known d (mk_patterns [(''correct horse/16'', ''env:TOKEN'')]) (''ok'', []) = (''ok'', [])"
    unfolding censor_known_def
    by (rule known_fold_absent) (auto simp: items_mk_patterns dest!: variants_long contains_length)
  moreover have "censor_shapes (''ok'', []) = (''ok'', [])" by code_simp
  ultimately show ?thesis by (simp add: censor_bytes_def eval_nat_numeral)
qed


text \<open>
  The header of the program promises that a file that cannot be read is removed rather than published. When
  removing it fails as well, the failure is swallowed: the file stays and the status is 0. Only a link that
  cannot be removed ends the run with status 2.
\<close>

lemma unremovable_file_stays:
  "run_cli sample_env sample_job (Some (sample_args\<lparr>arg_env := []\<rparr>)) [([''pinned''], File 2 (Inl ''PermissionError: pinned''))] = 0 \<and>
   tree (after (gate_main sample_env sample_job (sample_args\<lparr>arg_env := []\<rparr>) [([''pinned''], File 2 (Inl ''PermissionError: pinned''))]))
     = [([''pinned''], File 2 (Inl ''PermissionError: pinned''))] \<and>
   run_cli sample_env sample_job (Some (sample_args\<lparr>arg_env := []\<rparr>)) [([''pinned''], Link)] = 2"
  by (intro conjI) code_simp+

end
