(* ===== verification/UText.thy ===== *)
theory UText
  imports Prelude PyStr PyRegex Utf8
begin

text \<open>
  Python's \<open>str\<close> as the list of its code points, so that lengths, slices and white space are Python's.
  \<open>U\<close> turns an ASCII literal into one. What the Unicode tables say of decimal digits is a parameter
  \<open>digit\<close>; letters are lowered and folded as far as the patterns of the programs can see.
\<close>

section \<open>Texts\<close>

type_synonym ustr = "nat list"

definition U :: "string \<Rightarrow> ustr" where
  "U s = map code s"

definition u_words :: "ustr \<Rightarrow> ustr list" where
  "u_words s = words_by u_space s"

text \<open>\<open>str.lower\<close> on the characters that the patterns below can match: ASCII letters, the Kelvin sign and the
  dotted capital I change.\<close>

definition lower_point :: "nat \<Rightarrow> nat list" where
  "lower_point p = (if 65 \<le> p \<and> p \<le> 90 then [p + 32] else if p = 8490 then [107] else if p = 304 then [105, 775] else [p])"

definition u_lower :: "ustr \<Rightarrow> ustr" where
  "u_lower s = concat (map lower_point s)"

text \<open>The case folding of \<open>re.IGNORECASE\<close>, as far as ASCII letters are concerned.\<close>

definition fold_point :: "nat \<Rightarrow> nat" where
  "fold_point p = (if 65 \<le> p \<and> p \<le> 90 then p + 32 else if p = 304 \<or> p = 305 then 105
     else if p = 383 then 115 else if p = 8490 then 107 else p)"

definition UI :: "string \<Rightarrow> nat rx" where
  "UI w = Seqs (map (\<lambda>c. Cls (\<lambda>p. fold_point p = fold_point (code c))) w)"

definition u_rstrip :: "ustr \<Rightarrow> ustr" where
  "u_rstrip s = rstrip_by u_space s"

definition u_strip_points :: "ustr \<Rightarrow> ustr" where
  "u_strip_points s = strip_by u_space s"

definition show_u :: "int \<Rightarrow> ustr" where
  "show_u n = U (show_int n)"

text \<open>\<open>digit\<close> is the value of a decimal digit of Unicode.\<close>

definition digits_number :: "(nat \<Rightarrow> nat option) \<Rightarrow> ustr \<Rightarrow> nat" where
  "digits_number digit s = foldl (\<lambda>n p. 10 * n + (case digit p of None \<Rightarrow> 0 | Some d \<Rightarrow> d)) 0 s"

text \<open>\<open>int(text)\<close>: blanks around, a sign, and decimal digits with single underscores between them. CPython's
  limit of 4300 digits is not modelled.\<close>

fun int_digits :: "(nat \<Rightarrow> nat option) \<Rightarrow> bool \<Rightarrow> nat \<Rightarrow> ustr \<Rightarrow> nat option" where
  "int_digits digit after n [] = (if after then Some n else None)"
| "int_digits digit after n (p # s) =
     (if p = 95 then (if after then int_digits digit False n s else None)
      else (case digit p of None \<Rightarrow> None | Some d \<Rightarrow> int_digits digit True (10 * n + d) s))"

definition u_int :: "(nat \<Rightarrow> nat option) \<Rightarrow> ustr \<Rightarrow> int option" where
  "u_int digit s =
     (case u_strip_points s of
        [] \<Rightarrow> None
      | p # ps \<Rightarrow>
          if p = 45 then map_option (\<lambda>n. - int n) (int_digits digit False 0 ps)
          else if p = 43 then map_option int (int_digits digit False 0 ps)
          else map_option int (int_digits digit False 0 (p # ps)))"

text \<open>What Unicode says of the ASCII range.\<close>

definition ascii_digits :: "(nat \<Rightarrow> nat option) \<Rightarrow> bool" where
  "ascii_digits digit \<longleftrightarrow> (\<forall>p < 128. digit p = (if 48 \<le> p \<and> p \<le> 57 then Some (p - 48) else None))"

definition only_ascii_digits :: "nat \<Rightarrow> nat option" where
  "only_ascii_digits p = (if 48 \<le> p \<and> p \<le> 57 then Some (p - 48) else None)"

lemma only_ascii_digits [simp]: "ascii_digits only_ascii_digits"
  by (simp add: ascii_digits_def only_ascii_digits_def)

lemma U_append [simp]: "U (s @ t) = U s @ U t"
  by (simp add: U_def)

lemma length_U [simp]: "length (U s) = length s"
  by (simp add: U_def)

lemma int_digits_all:
  "\<forall>p \<in> set s. p \<noteq> 95 \<and> digit p = Some (p - 48) \<Longrightarrow> s \<noteq> [] \<or> after \<Longrightarrow>
   int_digits digit after n s = Some (foldl (\<lambda>n p. 10 * n + (p - 48)) n s)"
  by (induction s arbitrary: n after) auto

lemma strip_by_none: "\<forall>p \<in> set s. \<not> sp p \<Longrightarrow> strip_by sp s = s"
proof -
  have keep: "dropWhile sp t = t" if "\<forall>p \<in> set t. \<not> sp p" for t
    using that by (cases t) auto
  assume "\<forall>p \<in> set s. \<not> sp p"
  then have "dropWhile sp s = s" "dropWhile sp (rev s) = rev s" by (simp_all add: keep)
  then show ?thesis by (simp add: strip_by_def lstrip_by_def rstrip_by_def)
qed

lemma strip_by_Nil: "strip_by sp s = [] \<longleftrightarrow> list_all sp s"
proof -
  have "strip_by sp s = [] \<longleftrightarrow> dropWhile sp s = [] \<or> list_all sp (dropWhile sp s)"
    by (auto simp: strip_by_def rstrip_by_def lstrip_by_def list_all_iff dest: set_dropWhileD)
  moreover have "dropWhile sp s = [] \<longleftrightarrow> list_all sp s" by (auto simp: dropWhile_eq_Nil_conv list_all_iff)
  moreover have "list_all sp (dropWhile sp s) \<Longrightarrow> dropWhile sp s = []"
    using hd_dropWhile [of sp s] by (cases "dropWhile sp s") auto
  ultimately show ?thesis by blast
qed


lemma rstrip_by_snoc: "list_all sp t \<Longrightarrow> \<not> sp x \<Longrightarrow> rstrip_by sp (a @ x # t) = a @ [x]"
proof -
  assume h: "list_all sp t" "\<not> sp x"
  have "list_all sp u \<Longrightarrow> dropWhile sp (u @ x # rev a) = x # rev a" for u
    using h(2) by (induction u) auto
  from this [of "rev t"] h(1) have "dropWhile sp (rev t @ x # rev a) = x # rev a" by simp
  then show ?thesis by (simp add: rstrip_by_def)
qed

lemma show_nat_points: "p \<in> set (U (show_nat n)) \<Longrightarrow> 48 \<le> p \<and> p \<le> 57"
  using show_nat_digits [of n] by (auto simp: U_def list_all_iff is_digit_def in_range_def code_def)

lemma u_int_show_nat:
  assumes "ascii_digits digit"
  shows "u_int digit (U (show_nat n)) = Some (int n)"
proof -
  let ?s = "U (show_nat n)"
  have r: "\<forall>p \<in> set ?s. 48 \<le> p \<and> p \<le> 57" using show_nat_points by blast
  then have "u_strip_points ?s = ?s" unfolding u_strip_points_def by (intro strip_by_none) (auto simp: u_space_def)
  moreover obtain p ps where s: "?s = p # ps" using show_nat_not_Nil [of n] by (cases ?s) (auto simp: U_def)
  moreover have "p \<noteq> 45" "p \<noteq> 43" using r s by auto
  moreover have "int_digits digit False 0 ?s = Some (foldl (\<lambda>n p. 10 * n + (p - 48)) 0 ?s)"
    using r assms s by (intro int_digits_all) (auto simp: ascii_digits_def)
  moreover have "foldl (\<lambda>n p. 10 * n + (p - 48)) 0 ?s = digits_val (show_nat n)"
    by (simp add: digits_val_def U_def foldl_map code_def)
  ultimately show ?thesis by (simp add: u_int_def digits_val_show_nat)
qed

end
