(* ===== verification/ObserveRuns.thy ===== *)
theory ObserveRuns
  imports PyDyn
begin

text \<open>
  \<^verbatim>\<open>monitoring/scripts/ci_observe_runs.py\<close>: the list of end-to-end runs with a verdict per run on whether its
  telemetry capture arrived. The verdict that blames CI, "not collected", is the one that must be proven.

  Texts are up to U+00FF. A point in time is a wall-clock reading in microseconds with its offset from UTC.
  From outside come \<open>datetime.fromisoformat\<close>, the rendering of a point in time, \<open>repr\<close> of a text, the pages
  of stored runs and the capture registry.
\<close>

section \<open>Settings\<close>

definition name_start :: "char \<Rightarrow> bool" where
  "name_start c \<longleftrightarrow> is_alnum c"

definition REPO_NAME_RE :: "char rx" where
  "REPO_NAME_RE = Seqs [Cls name_start, Rep True 0 (Some 99) (Cls (\<lambda>c. is_alnum c \<or> c \<in> set ''._-'')), Assert dollar]"

definition FAILED_STEP_RE :: "char rx" where
  "FAILED_STEP_RE = Seqs [Cls name_start, Rep True 0 (Some 79) (Cls (\<lambda>c. is_alnum c \<or> c \<in> set '' ._()/-'')), Assert dollar]"

definition RUN_SUITES :: "string list" where
  "RUN_SUITES = [''vmaas'', ''caas'', ''bmaas'', ''netris'', ''stretched'']"

definition RESULTS :: "string list" where
  "RESULTS = [''success'', ''failure'', ''cancelled'', ''skipped'']"

definition seconds :: "int \<Rightarrow> int" where
  "seconds n = n * 1000000"

definition JUST_ENDED_SECONDS :: int where "JUST_ENDED_SECONDS = 15 * 60"

definition FINISHED_STATUSES :: "string list" where
  "FINISHED_STATUSES = [''completed'', ''success'', ''failure'', ''cancelled'', ''skipped'', ''timed_out'',
     ''action_required'', ''neutral'', ''stale'']"

definition NO_ANSWER :: string where
  "NO_ANSWER = ''the capture registry has no complete answer yet''"

definition DEFAULT_DAYS :: int where "DEFAULT_DAYS = 30"
definition MAX_DAYS :: int where "MAX_DAYS = 30"
definition DEFAULT_LIMIT :: int where "DEFAULT_LIMIT = 200"
definition MAX_LIMIT :: int where "MAX_LIMIT = 2000"

section \<open>Points in time\<close>

text \<open>Wall clock and offset; a text without an offset is read as UTC.\<close>

type_synonym dtime = "int \<times> int"

definition instant :: "dtime \<Rightarrow> int" where
  "instant d = fst d - snd d"

record clock =
  fromiso :: "string \<Rightarrow> (int \<times> int option) option"
  strftime :: "int \<Rightarrow> string"
  repr :: "string \<Rightarrow> string"

definition parse_time :: "clock \<Rightarrow> string option \<Rightarrow> dtime option" where
  "parse_time ck v =
     (case v of
        None \<Rightarrow> None
      | Some s \<Rightarrow>
          if s = [] then None
          else (case fromiso ck (py_replace ''Z'' ''+00:00'' s) of
                  None \<Rightarrow> None
                | Some (wall, offset) \<Rightarrow> Some (wall, case offset of None \<Rightarrow> 0 | Some k \<Rightarrow> k)))"

definition iso :: "clock \<Rightarrow> dtime option \<Rightarrow> string" where
  "iso ck v = (case v of None \<Rightarrow> [] | Some d \<Rightarrow> strftime ck (fst d))"

text \<open>Truncation towards zero, as \<open>int\<close> does.\<close>

definition millis :: "dtime \<Rightarrow> int" where
  "millis d = (if 0 \<le> instant d then instant d div 1000 else - ((- instant d) div 1000))"

definition epoch_ms :: "dtime option \<Rightarrow> int option" where
  "epoch_ms v = map_option millis v"

section \<open>Stored runs and the capture registry\<close>

record run =
  run_id :: int
  capture_ids :: "string list"
  created_at :: "string option"
  updated_at :: "string option"
  conclusion :: "string option"
  run_status :: "string option"
  pr :: "string option"
  url :: "string option"

record source_row =
  source_name :: string
  last_error :: "string option"

record source_summary =
  source_state :: string
  last_ok_at :: string
  coverage_from :: string
  sources :: "source_row list"

record registry =
  summary :: "int \<Rightarrow> source_summary"
  stale_attr :: "int option"
  ids_by_run :: "int \<Rightarrow> (int \<times> string list) list"
  parse_id :: "string \<Rightarrow> (string \<times> int \<times> int) option"

definition source_of :: "registry option \<Rightarrow> int \<Rightarrow> source_summary" where
  "source_of reg now = (case reg of
     None \<Rightarrow> \<lparr>source_state = ''unknown'', last_ok_at = [], coverage_from = [], sources = []\<rparr>
   | Some r \<Rightarrow> summary r now)"

definition stale_seconds :: "registry option \<Rightarrow> int" where
  "stale_seconds reg = (case reg of None \<Rightarrow> 900 | Some r \<Rightarrow> (case stale_attr r of None \<Rightarrow> 900 | Some n \<Rightarrow> n))"

definition capture_ids_by_run :: "registry option \<Rightarrow> int \<Rightarrow> (int \<times> string list) list" where
  "capture_ids_by_run reg days = (case reg of None \<Rightarrow> [] | Some r \<Rightarrow> ids_by_run r days)"

definition parse_capture_id :: "registry option \<Rightarrow> string \<Rightarrow> (string \<times> int \<times> int) option" where
  "parse_capture_id reg c = (case reg of None \<Rightarrow> None | Some r \<Rightarrow> parse_id r c)"

section \<open>The verdict\<close>

definition or_empty :: "string option \<Rightarrow> string" where
  "or_empty s = (case s of None \<Rightarrow> [] | Some t \<Rightarrow> t)"

definition ended :: "run \<Rightarrow> bool" where
  "ended r \<longleftrightarrow> strip (or_empty (conclusion r)) \<noteq> [] \<or> lower (strip (or_empty (run_status r))) \<in> set FINISHED_STATUSES"

definition finished :: "clock \<Rightarrow> run \<Rightarrow> dtime option" where
  "finished ck r = parse_time ck (updated_at r)"

definition finish_of :: "clock \<Rightarrow> run \<Rightarrow> dtime option" where
  "finish_of ck r = (if ended r then finished ck r else None)"

datatype verdict = Capture | Not_collected | Unknown

definition judge_covered :: "clock \<Rightarrow> run \<Rightarrow> dtime \<Rightarrow> verdict \<times> string" where
  "judge_covered ck r coverage =
     (case parse_time ck (created_at r) of
        None \<Rightarrow> (Unknown, ''the run has no created_at, so its capture window cannot be judged'')
      | Some c \<Rightarrow>
          if instant c < instant coverage then (Unknown, ''the run predates capture coverage'')
          else (Not_collected, []))"

definition judge_answered :: "clock \<Rightarrow> int \<Rightarrow> run \<Rightarrow> dtime \<Rightarrow> source_summary \<Rightarrow> dtime \<Rightarrow> int \<Rightarrow> verdict \<times> string" where
  "judge_answered ck stale r fin src last_ok now =
     (if instant last_ok < instant fin then
        (Unknown, ''no complete discovery since '' @ last_ok_at src @ ''; the run finished after it'')
      else (case parse_time ck (Some (coverage_from src)) of
              None \<Rightarrow> (Unknown, ''the capture registry has no coverage window yet'')
            | Some coverage \<Rightarrow>
                if seconds stale < now - instant last_ok then
                  (Unknown, ''the capture registry'' @ [CHR 0x27] @ ''s last complete answer is '' @ last_ok_at src @ ''; it is stale'')
                else judge_covered ck r coverage))"

definition state_of :: "clock \<Rightarrow> int \<Rightarrow> run \<Rightarrow> bool \<Rightarrow> dtime option \<Rightarrow> source_summary \<Rightarrow> int \<Rightarrow> verdict \<times> string" where
  "state_of ck stale r has_ended fin src now =
     (if capture_ids r \<noteq> [] then (Capture, [])
      else if \<not> has_ended then (Unknown, ''the run has not finished'')
      else (case fin of
              None \<Rightarrow> (Unknown, ''the run has no finish time, so its capture window cannot be judged'')
            | Some f \<Rightarrow>
                if now - instant f < seconds JUST_ENDED_SECONDS then
                  (Unknown, ''the run just ended; telemetry may still be arriving'')
                else (case parse_time ck (Some (last_ok_at src)) of
                        None \<Rightarrow> (Unknown, NO_ANSWER)
                      | Some last_ok \<Rightarrow> judge_answered ck stale r f src last_ok now)))"

text \<open>The verdict on a stored run, as the table, the cards and the pull request page all use it.\<close>

definition judge :: "clock \<Rightarrow> registry option \<Rightarrow> source_summary \<Rightarrow> int \<Rightarrow> run \<Rightarrow> verdict \<times> string" where
  "judge ck reg src now r = state_of ck (stale_seconds reg) r (ended r) (finish_of ck r) src now"

definition verdict_of :: "clock \<Rightarrow> registry option \<Rightarrow> int \<Rightarrow> run \<Rightarrow> verdict \<times> string" where
  "verdict_of ck reg now r = judge ck reg (source_of reg now) now r"

record counts =
  n_capture :: nat
  n_not_collected :: nat
  n_unknown :: nat

definition count_one :: "counts \<Rightarrow> verdict \<Rightarrow> counts" where
  "count_one n v = (case v of
     Capture \<Rightarrow> n\<lparr>n_capture := Suc (n_capture n)\<rparr>
   | Not_collected \<Rightarrow> n\<lparr>n_not_collected := Suc (n_not_collected n)\<rparr>
   | Unknown \<Rightarrow> n\<lparr>n_unknown := Suc (n_unknown n)\<rparr>)"

definition verdict_counts :: "clock \<Rightarrow> registry option \<Rightarrow> source_summary \<Rightarrow> int \<Rightarrow> run list \<Rightarrow> counts" where
  "verdict_counts ck reg src now rows =
     foldl (\<lambda>n r. count_one n (fst (judge ck reg src now r))) \<lparr>n_capture = 0, n_not_collected = 0, n_unknown = 0\<rparr> rows"

definition source_note :: "source_summary \<Rightarrow> string" where
  "source_note src =
     (if source_state src = ''unknown'' then
        ''the capture registry has no complete answer from any source; every run without a capture is reported as unknown, never as not collected''
      else (case filter (\<lambda>row. or_empty (last_error row) \<noteq> []) (sources src) of
              [] \<Rightarrow> ''the capture registry'' @ [CHR 0x27] @ ''s last answer is partial or stale; a missing capture is reported as unknown, not as not collected''
            | f # fs \<Rightarrow> ''the capture registry'' @ [CHR 0x27] @ ''s last answer is partial ('' @
                join ''; '' (map (\<lambda>row. source_name row @ '': '' @ or_empty (last_error row)) (f # fs)) @
                ''); a missing capture is reported as unknown, not as not collected''))"

section \<open>The document\<close>

text \<open>\<open>urllib.parse.quote(s, safe="")\<close>\<close>

definition upper_hex :: "nat \<Rightarrow> char" where
  "upper_hex n = (if n < 10 then char_of (48 + n) else char_of (55 + n))"

definition quote_char :: "char \<Rightarrow> string" where
  "quote_char c = (if is_alnum c \<or> c \<in> set ''_.-~'' then [c] else [CHR ''%'', upper_hex (code c div 16), upper_hex (code c mod 16)])"

definition quote_all :: "string \<Rightarrow> string" where
  "quote_all s = concat (map quote_char (utf8 s))"

definition set_ms :: "int option \<Rightarrow> bool" where
  "set_ms ms \<longleftrightarrow> ms \<noteq> None \<and> ms \<noteq> Some 0"

definition details_url :: "run \<Rightarrow> string \<Rightarrow> int option \<Rightarrow> int \<Rightarrow> string" where
  "details_url r capture_id started done_ms =
     (if capture_id = [] then or_empty (url r)
      else ''/d/ci-observe-runs/ci-observe-e28094-e2e-run'' @ ''?orgId=1&var-capture_id='' @ quote_all capture_id @
        (if set_ms started \<and> done_ms \<noteq> 0 then ''&from='' @ show_int (the started) @ ''&to='' @ show_int done_ms else []))"

record run_row =
  row_run :: run
  row_started_at :: string
  row_started_at_ms :: "int option"
  row_done_at_ms :: int
  row_finished :: bool
  row_finished_at :: string
  row_state :: verdict
  row_capture_id :: string
  row_reason :: string
  row_pr_number :: string
  row_details_url :: string

definition first_capture :: "run \<Rightarrow> string" where
  "first_capture r = (case capture_ids r of [] \<Rightarrow> [] | c # _ \<Rightarrow> c)"

definition done_ms_of :: "clock \<Rightarrow> int \<Rightarrow> run \<Rightarrow> int" where
  "done_ms_of ck now r = (case epoch_ms (finish_of ck r) of Some k \<Rightarrow> if k \<noteq> 0 then k else millis (now, 0) | None \<Rightarrow> millis (now, 0))"

definition mk_row :: "clock \<Rightarrow> registry option \<Rightarrow> source_summary \<Rightarrow> int \<Rightarrow> run \<Rightarrow> run_row" where
  "mk_row ck reg src now r =
     \<lparr>row_run = r,
      row_started_at = or_empty (created_at r),
      row_started_at_ms = epoch_ms (parse_time ck (created_at r)),
      row_done_at_ms = done_ms_of ck now r,
      row_finished = ended r,
      row_finished_at = iso ck (finish_of ck r),
      row_state = fst (judge ck reg src now r),
      row_capture_id = first_capture r,
      row_reason = snd (judge ck reg src now r),
      row_pr_number = lstrip_by (\<lambda>c. c = CHR ''#'') (or_empty (pr r)),
      row_details_url = details_url r (first_capture r) (epoch_ms (parse_time ck (created_at r))) (done_ms_of ck now r)\<rparr>"

text \<open>The query: the first value of each parameter.\<close>

type_synonym params = "(string \<times> string) list"

definition param :: "params \<Rightarrow> string \<Rightarrow> string" where
  "param ps name = strip (case map_of ps name of None \<Rightarrow> [] | Some v \<Rightarrow> v)"

definition int_param :: "params \<Rightarrow> string \<Rightarrow> int \<Rightarrow> int \<Rightarrow> int \<Rightarrow> int" where
  "int_param ps name fallback low high =
     (case map_of ps name of
        None \<Rightarrow> max low (min fallback high)
      | Some v \<Rightarrow> (if v = [] then max low (min fallback high)
          else (case int_of_str v of None \<Rightarrow> max low (min fallback high) | Some n \<Rightarrow> max low (min n high))))"

text \<open>\<open>str.isdigit\<close> up to U+00FF includes the three superscripts.\<close>

definition py_isdigit :: "string \<Rightarrow> bool" where
  "py_isdigit s \<longleftrightarrow> s \<noteq> [] \<and> list_all (\<lambda>c. is_digit c \<or> code c \<in> {178, 179, 185}) s"

record filters =
  f_repo :: string
  f_suite :: string
  f_result :: string
  f_failed_step :: string
  f_before :: string

text \<open>One filter value: "all" means none; a value that is not acceptable is dropped with a note.\<close>

definition drop_all :: "string \<Rightarrow> string" where
  "drop_all v = (if lower v = ''all'' then [] else v)"

definition checked :: "(string \<Rightarrow> bool) \<Rightarrow> string \<Rightarrow> string \<Rightarrow> string \<times> string list" where
  "checked ok message v = (if v \<noteq> [] \<and> \<not> ok v then ([], [message]) else (v, []))"

definition read_filters :: "clock \<Rightarrow> params \<Rightarrow> filters \<times> string list" where
  "read_filters ck ps =
     (let repo = drop_all (param ps ''repo'');
          suite = drop_all (lower (param ps ''suite''));
          result = drop_all (lower (param ps ''result''));
          step = drop_all (param ps ''failed_step'');
          before = param ps ''before'';
          (repo', n1) = checked (\<lambda>v. rx_match_at REPO_NAME_RE v 0 \<noteq> None)
            (''repository '' @ repr ck repo @ '' is not a repository name; the filter was ignored'') repo;
          (suite', n2) = checked (\<lambda>v. v \<in> set RUN_SUITES) (''suite '' @ repr ck suite @ '' is not a known suite; the filter was ignored'') suite;
          (result', n3) = checked (\<lambda>v. v \<in> set RESULTS)
            (''result '' @ repr ck result @ '' is not a stored conclusion; the filter was ignored'') result;
          (step', n4) = checked (\<lambda>v. rx_match_at FAILED_STEP_RE v 0 \<noteq> None)
            (''failed step '' @ repr ck step @ '' is not a short plain search text; the filter was ignored'') step;
          (before', n5) = checked py_isdigit
            (''before='' @ repr ck before @ '' is not a run id; the page starts from the newest run'') before
      in (\<lparr>f_repo = repo', f_suite = suite', f_result = result', f_failed_step = step', f_before = before'\<rparr>, n1 @ n2 @ n3 @ n4 @ n5))"

record page =
  rows :: "run list"
  matched :: nat
  truncated :: bool
  window_from :: string
  window_to :: string

record store =
  run_page :: "int \<Rightarrow> int \<Rightarrow> string \<Rightarrow> filters \<Rightarrow> page"
  run_window :: "int \<Rightarrow> filters \<Rightarrow> run list"

record runs_doc =
  doc_days :: int
  doc_from :: string
  doc_to :: string
  doc_source :: source_summary
  doc_runs :: "run_row list"
  doc_truncated :: bool
  doc_shown :: nat
  doc_total :: nat
  doc_counts :: counts
  doc_next_before :: "int option"
  doc_notes :: "string list"

definition blank_lookup :: "params \<Rightarrow> bool" where
  "blank_lookup ps \<longleftrightarrow> map_of ps ''run'' \<noteq> None \<and> param ps ''run'' = []"

definition the_page :: "clock \<Rightarrow> store \<Rightarrow> params \<Rightarrow> filters \<Rightarrow> int \<Rightarrow> int \<Rightarrow> int \<Rightarrow> page" where
  "the_page ck st ps fs days limit now =
     (if blank_lookup ps then
        \<lparr>rows = [], matched = 0, truncated = False, window_from = strftime ck (now - seconds (days * 86400)), window_to = strftime ck now\<rparr>
      else run_page st days limit (param ps ''run'') fs)"

definition paging_notes :: "params \<Rightarrow> page \<Rightarrow> int \<Rightarrow> string list" where
  "paging_notes ps pg limit =
     (if truncated pg \<and> rows pg \<noteq> [] then
        [''this page is capped at '' @ show_int limit @ '' runs; '' @ show_nat (matched pg) @
         '' match the window. Pass before=<next_before> for the next page.''] else []) @
     (if blank_lookup ps then [''the Find box is empty; enter a run id, or clear it to see the window'']
      else if rows pg = [] \<and> param ps ''run'' \<noteq> [] then [''the job history has no run with id '' @ param ps ''run'']
      else if rows pg = [] then [''the job history has no E2E runs on or after '' @ window_from pg] else [])"

definition get_json :: "clock \<Rightarrow> store \<Rightarrow> registry option \<Rightarrow> int \<Rightarrow> params \<Rightarrow> runs_doc" where
  "get_json ck st reg now ps =
     (let days = int_param ps ''days'' DEFAULT_DAYS 1 MAX_DAYS;
          limit = int_param ps ''limit'' DEFAULT_LIMIT 1 MAX_LIMIT;
          (fs, notes) = read_filters ck ps;
          pg = the_page ck st ps fs days limit now;
          src = source_of reg now;
          counted = (if param ps ''run'' = [] then run_window st days fs else rows pg)
      in \<lparr>doc_days = days, doc_from = window_from pg, doc_to = window_to pg, doc_source = src,
          doc_runs = map (mk_row ck reg src now) (rows pg), doc_truncated = truncated pg,
          doc_shown = length (rows pg), doc_total = matched pg,
          doc_counts = verdict_counts ck reg src now counted,
          doc_next_before = (if truncated pg \<and> rows pg \<noteq> [] then Some (run_id (last (rows pg))) else None),
          doc_notes = notes @ paging_notes ps pg limit @ (if source_state src \<noteq> ''ok'' then [source_note src] else [])\<rparr>)"

section \<open>The properties\<close>

text \<open>Claim C15: the verdict "not collected" is never a guess. A run gets it exactly when it has no capture,
  it finished, at least 15 minutes ago, the registry has a complete answer that is not older than the run's
  end and not stale, and the run began inside the registry's coverage.\<close>

theorem not_collected_is_proven:
  "fst (judge ck reg src now r) = Not_collected \<longleftrightarrow>
     capture_ids r = [] \<and> ended r \<and>
     (\<exists>fin last_ok coverage created. parse_time ck (updated_at r) = Some fin \<and>
        parse_time ck (Some (last_ok_at src)) = Some last_ok \<and> parse_time ck (Some (coverage_from src)) = Some coverage \<and>
        parse_time ck (created_at r) = Some created \<and> instant fin + 900 * 1000000 \<le> now \<and> instant fin \<le> instant last_ok \<and>
        now - instant last_ok \<le> stale_seconds reg * 1000000 \<and> instant coverage \<le> instant created)"
  by (auto simp: judge_def state_of_def judge_answered_def judge_covered_def finish_of_def finished_def seconds_def
      JUST_ENDED_SECONDS_def not_less split: option.splits if_splits)

lemma count_fold:
  "foldl (\<lambda>n r. count_one n (f r)) n rs =
     \<lparr>n_capture = n_capture n + length (filter (\<lambda>r. f r = Capture) rs),
      n_not_collected = n_not_collected n + length (filter (\<lambda>r. f r = Not_collected) rs),
      n_unknown = n_unknown n + length (filter (\<lambda>r. f r = Unknown) rs)\<rparr>"
  by (induction rs arbitrary: n) (auto simp: count_one_def split: verdict.splits)

text \<open>The cards and the table cannot disagree. When a single run is looked up, each counter is the
  number of table rows that show its verdict, and for every list of runs the three counters add up to its
  length.\<close>

theorem counts_are_the_rows:
  "verdict_counts ck reg src now rs =
     \<lparr>n_capture = length (filter (\<lambda>row. row_state row = Capture) (map (mk_row ck reg src now) rs)),
      n_not_collected = length (filter (\<lambda>row. row_state row = Not_collected) (map (mk_row ck reg src now) rs)),
      n_unknown = length (filter (\<lambda>row. row_state row = Unknown) (map (mk_row ck reg src now) rs))\<rparr> \<and>
   n_capture (verdict_counts ck reg src now rs) + n_not_collected (verdict_counts ck reg src now rs) +
     n_unknown (verdict_counts ck reg src now rs) = length rs"
proof -
  have split: "length (filter (\<lambda>r. f r = Capture) rs) + length (filter (\<lambda>r. f r = Not_collected) rs) +
      length (filter (\<lambda>r. f r = Unknown) rs) = length rs" for f :: "run \<Rightarrow> verdict"
    by (induction rs) (auto intro: verdict.exhaust)
  show ?thesis
    by (simp add: verdict_counts_def count_fold filter_map comp_def mk_row_def split)
qed

end
