(* ===== verification/RegexFacts.thy ===== *)
theory RegexFacts
  imports PyRegex
begin

text \<open>
  What the matcher returns, in order, for the building blocks of the programs' patterns: literals, runs of
  a character class, and lazy gaps. A run that is followed by something that cannot start inside it is
  deterministic, which turns such a pattern into a left-to-right reading of the text.
\<close>

section \<open>Runs of a class\<close>

definition run_end :: "('c \<Rightarrow> bool) \<Rightarrow> 'c list \<Rightarrow> nat \<Rightarrow> nat" where
  "run_end p s i = i + length (takeWhile p (drop i s))"

lemma run_end_ge [simp]: "i \<le> run_end p s i"
  by (simp add: run_end_def)

lemma run_end_Suc [simp]: "i < run_end p s (Suc i)"
  by (simp add: run_end_def)

lemma run_end_le: "i \<le> length s \<Longrightarrow> run_end p s i \<le> length s"
  using length_takeWhile_le [of p "drop i s"] by (simp add: run_end_def)

lemma run_end_step:
  "run_end p s i = (if i < length s \<and> p (s ! i) then run_end p s (Suc i) else i)"
proof (cases "i < length s")
  case True
  then have "drop i s = s ! i # drop (Suc i) s" by (rule Cons_nth_drop_Suc [symmetric])
  then show ?thesis using True by (simp add: run_end_def)
qed (simp add: run_end_def)

lemma run_end_in: "i \<le> j \<Longrightarrow> j < run_end p s i \<Longrightarrow> j < length s \<and> p (s ! j)"
proof -
  assume h: "i \<le> j" "j < run_end p s i"
  then have k: "j - i < length (takeWhile p (drop i s))" by (simp add: run_end_def)
  with length_takeWhile_le [of p "drop i s"] have l: "j < length s" by simp
  have "takeWhile p (drop i s) ! (j - i) = drop i s ! (j - i)" by (rule takeWhile_nth [OF k])
  with set_takeWhileD [OF nth_mem [OF k]] h(1) l show ?thesis by simp
qed

lemma run_end_stops: "run_end p s i < length s \<Longrightarrow> \<not> p (s ! run_end p s i)"
proof -
  assume h: "run_end p s i < length s"
  then have "length (takeWhile p (drop i s)) < length (drop i s)" by (simp add: run_end_def)
  from nth_length_takeWhile [OF this] show ?thesis using h by (simp add: run_end_def)
qed

lemma run_end_eqI:
  assumes "i \<le> e" "e \<le> length s" "\<And>j. i \<le> j \<Longrightarrow> j < e \<Longrightarrow> p (s ! j)" "e < length s \<Longrightarrow> \<not> p (s ! e)"
  shows "run_end p s i = e"
proof (rule antisym)
  show "run_end p s i \<le> e"
    using run_end_in [of i e p s] run_end_le [of i s p] assms by (meson le_less_trans not_le order_refl)
  show "e \<le> run_end p s i"
  proof (rule ccontr)
    assume "\<not> e \<le> run_end p s i"
    then have l: "run_end p s i < e" by simp
    with assms(2) have "run_end p s i < length s" by simp
    from run_end_stops [OF this] assms(3) [OF run_end_ge l] show False by simp
  qed
qed

section \<open>The results of a repetition\<close>

lemma rep_opt_Cls_greedy:
  "length s \<le> i + n \<Longrightarrow> rep_opt (rx_run (Cls p) s) True n i cs = map (\<lambda>j. (j, cs)) (rev [i..<Suc (run_end p s i)])"
proof (induction n arbitrary: i)
  case 0
  then show ?case by (simp add: run_end_def)
next
  case (Suc n)
  show ?case
  proof (cases "i < length s \<and> p (s ! i)")
    case True
    have "[i..<Suc (run_end p s (Suc i))] = i # [Suc i..<Suc (run_end p s (Suc i))]"
      by (rule upt_conv_Cons) (use run_end_ge [of "Suc i" p s] in linarith)
    with True Suc show ?thesis by (simp add: run_end_step [of p s i] del: upt_Suc)
  next
    case False
    then show ?thesis by (auto simp: run_end_step [of p s i])
  qed
qed

lemma rep_opt_Cls_lazy:
  "length s \<le> i + n \<Longrightarrow> rep_opt (rx_run (Cls p) s) False n i cs = map (\<lambda>j. (j, cs)) [i..<Suc (run_end p s i)]"
proof (induction n arbitrary: i)
  case 0
  then show ?case by (simp add: run_end_def)
next
  case (Suc n)
  show ?case
  proof (cases "i < length s \<and> p (s ! i)")
    case True
    have "[i..<Suc (run_end p s (Suc i))] = i # [Suc i..<Suc (run_end p s (Suc i))]"
      by (rule upt_conv_Cons) (use run_end_ge [of "Suc i" p s] in linarith)
    with True Suc show ?thesis by (simp add: run_end_step [of p s i] del: upt_Suc)
  next
    case False
    then show ?thesis by (auto simp: run_end_step [of p s i])
  qed
qed

lemma rx_run_Star:
  "rx_run (Star (Cls p)) s i cs = map (\<lambda>j. (j, cs)) (rev [i..<Suc (run_end p s i)])"
  using rep_opt_Cls_greedy [of s i "length s - i" p cs] by simp

lemma rx_run_Plus:
  "rx_run (Plus (Cls p)) s i cs =
     (if i < length s \<and> p (s ! i) then map (\<lambda>j. (j, cs)) (rev [Suc i..<Suc (run_end p s i)]) else [])"
  using rep_opt_Cls_greedy [of s "Suc i" "length s - i" p cs] by (simp add: run_end_step [of p s i])

lemma rx_run_AnyLazy:
  "i \<le> length s \<Longrightarrow> rx_run AnyLazy s i cs = map (\<lambda>j. (j, cs)) [i..<Suc (length s)]"
  using rep_opt_Cls_lazy [of s i "length s - i" "\<lambda>_. True" cs] run_end_eqI [of i "length s" s "\<lambda>_. True"] by simp

section \<open>Literals\<close>

lemma is_at_Nil [simp]: "is_at [] s i \<longleftrightarrow> i \<le> length s"
  by (simp add: is_at_def)

lemma is_at_Cons: "is_at (c # w) s i \<longleftrightarrow> i < length s \<and> s ! i = c \<and> is_at w s (Suc i)"
proof (cases "i < length s")
  case True
  then show ?thesis by (auto simp: is_at_def Cons_nth_drop_Suc [symmetric])
qed (auto simp: is_at_def)

lemma is_at_append: "is_at (v @ w) s i \<longleftrightarrow> is_at v s i \<and> is_at w s (i + length v)"
proof (induction v arbitrary: i)
  case Nil
  show ?case by (auto simp: is_at_def)
next
  case (Cons c v)
  then show ?case by (auto simp: is_at_Cons)
qed

lemma is_at_le: "is_at w s i \<Longrightarrow> i + length w \<le> length s"
  by (simp add: is_at_def)

lemma is_at_split: "is_at w s i \<longleftrightarrow> (\<exists>a b. s = a @ w @ b \<and> length a = i)"
proof
  assume h: "is_at w s i"
  have "s = take i s @ take (length w) (drop i s) @ drop (length w) (drop i s)" unfolding append_take_drop_id ..
  then have "s = take i s @ w @ drop (length w) (drop i s)" "length (take i s) = i"
    using h by (simp_all add: is_at_def)
  then show "\<exists>a b. s = a @ w @ b \<and> length a = i" by blast
qed (auto simp: is_at_def)

lemma rx_run_Lit: "i \<le> length s \<Longrightarrow> rx_run (Lit w) s i cs = (if is_at w s i then [(i + length w, cs)] else [])"
proof (induction w arbitrary: i)
  case (Cons c w)
  then show ?case by (cases "i < length s") (simp_all add: is_at_Cons)
qed simp

lemma rx_run_Seq_Lit:
  "i \<le> length s \<Longrightarrow> rx_run (Seq (Lit w) r) s i cs = (if is_at w s i then rx_run r s (i + length w) cs else [])"
  by (simp add: rx_run_Lit)

section \<open>Runs with a definite end\<close>

text \<open>\<open>off p s r\<close>: no match of \<open>r\<close> starts at a character of class \<open>p\<close>.\<close>

definition off :: "('c \<Rightarrow> bool) \<Rightarrow> 'c list \<Rightarrow> 'c rx \<Rightarrow> bool" where
  "off p s r \<longleftrightarrow> (\<forall>j cs. j < length s \<and> p (s ! j) \<longrightarrow> rx_run r s j cs = [])"

lemma off_Lit: "w \<noteq> [] \<Longrightarrow> \<not> p (hd w) \<Longrightarrow> off p s (Seq (Lit w) r)"
  by (cases w) (auto simp: off_def)

lemma off_at_end: "off p s (Assert at_end)"
  by (auto simp: off_def at_end_def)

lemma off_run: "off p s r \<Longrightarrow> i \<le> j \<Longrightarrow> j < run_end p s i \<Longrightarrow> rx_run r s j cs = []"
  using run_end_in [of i j p s] by (auto simp: off_def)

lemma concat_map_Nil: "(\<And>x. x \<in> set xs \<Longrightarrow> f x = []) \<Longrightarrow> concat (map f xs) = []"
  by (induction xs) auto

lemma rx_run_Star_off:
  "off p s r \<Longrightarrow> rx_run (Seq (Star (Cls p)) r) s i cs = rx_run r s (run_end p s i) cs"
proof -
  assume o: "off p s r"
  have "concat (map (\<lambda>j. rx_run r s j cs) (rev [i..<run_end p s i])) = []"
    by (rule concat_map_Nil) (auto intro: off_run [OF o])
  then show ?thesis unfolding rx_run.simps(4) rx_run_Star by (simp add: comp_def)
qed

lemma rx_run_Grp_Plus_off:
  "off p s r \<Longrightarrow> rx_run (Seq (Grp g (Plus (Cls p))) r) s i cs =
     (if i < run_end p s i then rx_run r s (run_end p s i) ((g, i, run_end p s i) # cs) else [])"
proof -
  assume o: "off p s r"
  show ?thesis
  proof (cases "i < run_end p s i")
    case True
    then have now: "i < length s \<and> p (s ! i)" using run_end_in [of i i p s] by simp
    have "concat (map (\<lambda>j. rx_run r s j ((g, i, j) # cs)) (rev [Suc i..<run_end p s i])) = []"
      by (rule concat_map_Nil) (simp add: off_run [OF o, of i])
    then show ?thesis unfolding rx_run.simps(4,7) rx_run_Plus using True now by (simp add: comp_def)
  next
    case False
    then have "\<not> (i < length s \<and> p (s ! i))" by (auto simp: run_end_step [of p s i] split: if_splits)
    with False show ?thesis unfolding rx_run.simps(4,7) rx_run_Plus by simp
  qed
qed

lemma rx_run_rest: "i \<le> length s \<Longrightarrow> rx_run (Seq (Star (Cls (\<lambda>_. True))) (Assert at_end)) s i cs = [(length s, cs)]"
  using run_end_eqI [of i "length s" s "\<lambda>_. True"] by (simp add: rx_run_Star_off off_at_end at_end_def del: rx_run.simps(4,6))

section \<open>Text between two literals\<close>

text \<open>\<open>re.escape(a) + ".*?" + re.escape(b)\<close> under \<open>re.DOTALL\<close>.\<close>

definition Between :: "'c list \<Rightarrow> 'c list \<Rightarrow> 'c rx" where
  "Between a b = Seqs [Lit a, AnyLazy, Lit b]"

lemma rx_run_lazy_Lit:
  "i \<le> length s \<Longrightarrow>
   rx_run (Seq AnyLazy (Lit b)) s i cs = map (\<lambda>j. (j + length b, cs)) (filter (is_at b s) [i..<Suc (length s)])"
proof -
  assume i: "i \<le> length s"
  have "concat (map (\<lambda>j. rx_run (Lit b) s j cs) js) = map (\<lambda>j. (j + length b, cs)) (filter (is_at b s) js)"
    if "\<forall>j \<in> set js. j \<le> length s" for js
    using that by (induction js) (auto simp: rx_run_Lit)
  then show ?thesis unfolding rx_run.simps(4) rx_run_AnyLazy [OF i] by (simp add: comp_def del: upt_Suc)
qed

lemma find_filter: "List.find P xs = (case filter P xs of [] \<Rightarrow> None | x # _ \<Rightarrow> Some x)"
  by (induction xs) auto

lemma rx_match_Between:
  "i \<le> length s \<Longrightarrow> rx_match_at (Between a b) s i =
     (if is_at a s i
      then (case find_from b s (i + length a) of None \<Rightarrow> None
        | Some j \<Rightarrow> Some \<lparr>m_start = i, m_end = j + length b, m_caps = []\<rparr>)
      else None)"
proof -
  assume i: "i \<le> length s"
  show ?thesis
  proof (cases "is_at a s i")
    case True
    then have j: "i + length a \<le> length s" by (rule is_at_le)
    have "rx_run (Between a b) s i [] = map (\<lambda>j. (j + length b, [])) (filter (is_at b s) [i + length a..<Suc (length s)])"
      unfolding Between_def Seqs.simps rx_run_Seq_Lit [OF i] using True rx_run_lazy_Lit [OF j] by simp
    then show ?thesis using True
      by (simp add: rx_match_at_def find_from_def find_filter split: list.split)
  next
    case False
    then show ?thesis using i by (simp add: Between_def rx_match_at_def rx_run_Seq_Lit del: rx_run.simps(4))
  qed
qed

text \<open>\<open>pattern.sub(f, s, count=1)\<close>\<close>

definition rx_sub1 :: "'c rx \<Rightarrow> (rx_match \<Rightarrow> 'c list) \<Rightarrow> 'c list \<Rightarrow> 'c list" where
  "rx_sub1 r f s = (case rx_search r s of None \<Rightarrow> s
     | Some m \<Rightarrow> take (m_start m) s @ f m @ drop (m_end m) s)"

lemma rx_search_SomeI:
  assumes "rx_match_at r s i = Some m" "i \<le> length s" "\<And>k. k < i \<Longrightarrow> rx_match_at r s k = None"
  shows "rx_search r s = Some m"
proof (cases "rx_search r s")
  case None
  with assms show ?thesis by (simp add: rx_search_None)
next
  case (Some m')
  note f = rx_search_from_Some [OF Some [unfolded rx_search_def]]
  have s: "m_start m = i" using rx_match_at_bounds [OF assms(1,2)] by simp
  have "m_start m' = i"
    using f(4,5) assms(1,3) by (metis le0 linorder_neqE_nat option.distinct(1))
  with f(4) assms(1) Some show ?thesis by simp
qed

end
