(* ===== verification/PrComment.thy ===== *)
theory PrComment
  imports Prelude PyDyn UText RegexFacts
begin

text \<open>
  \<^verbatim>\<open>.github/scripts/upsert-pr-comment.py\<close>: one comment per pull request, with a section per test suite
  between HTML comment markers and a running total of the cost at the end. The text of a section can quote
  logs that the pull request controls.

  The body is a text, exactly as the program transforms it. Amounts of money are binary floating-point
  numbers, of which the program only parses, prints and adds: these operations are a parameter. So are
  Unicode's decimal digits and the outcome of opening a file.
\<close>

section \<open>Markers\<close>

definition COMMENT_MARKER :: ustr where
  "COMMENT_MARKER = U ''<!-- osac-ai-diagnostic-comment -->''"

definition MARKER_RE :: "nat rx" where
  "MARKER_RE = Seqs
     [Lit (U ''<!--''), Star (Cls u_space),
      Alt (Seq (Opt (Lit (U ''/''))) (Lit (U ''section:''))) (Lit (U ''osac-ai-total-cost:'')),
      AnyLazy, Lit (U ''-->'')]"

definition TOTAL_HEAD :: ustr where
  "TOTAL_HEAD = U ''<!-- osac-ai-total-cost:''"

definition cost_char :: "nat \<Rightarrow> bool" where
  "cost_char p \<longleftrightarrow> (48 \<le> p \<and> p \<le> 57) \<or> p \<in> set (U ''.eE+-'')"

definition is_decimal :: "(nat \<Rightarrow> nat option) \<Rightarrow> nat \<Rightarrow> bool" where
  "is_decimal digit p \<longleftrightarrow> digit p \<noteq> None"

definition TOTAL_MARKER_RE :: "(nat \<Rightarrow> nat option) \<Rightarrow> nat rx" where
  "TOTAL_MARKER_RE digit = Seqs
     [Star (Cls (\<lambda>p. p = 10)), Lit TOTAL_HEAD, Grp 1 (Plus (Cls cost_char)), Lit (U '':''),
      Grp 2 (Plus (Cls (is_decimal digit))), Lit (U '':''), Grp 3 (Plus (Cls (is_decimal digit))), Lit (U '':''),
      Grp 4 (Plus (Cls (is_decimal digit))), Lit (U '' -->''), Star (Cls (\<lambda>_. True)), Assert at_end]"

section \<open>The running total\<close>

record 'c floats =
  float_of :: "ustr \<Rightarrow> 'c option"    \<comment> \<open>\<open>float(text)\<close>; \<open>None\<close> is a \<open>ValueError\<close>\<close>
  float_repr :: "'c \<Rightarrow> ustr"
  float_4 :: "'c \<Rightarrow> ustr"            \<comment> \<open>format \<open>.4f\<close>\<close>
  float_add :: "'c \<Rightarrow> 'c \<Rightarrow> 'c"

record 'c spent =
  cost :: 'c
  input_tokens :: int
  output_tokens :: int
  diagnoses :: int

datatype prc_error = Missing_variable string | Bad_number ustr | Cannot_read ustr | Cannot_write ustr

definition the_float :: "'c floats \<Rightarrow> ustr \<Rightarrow> prc_error + 'c" where
  "the_float F s = (case float_of F s of None \<Rightarrow> Inl (Bad_number s) | Some c \<Rightarrow> Inr c)"

definition the_int :: "(nat \<Rightarrow> nat option) \<Rightarrow> ustr \<Rightarrow> prc_error + int" where
  "the_int digit s = (case u_int digit s of None \<Rightarrow> Inl (Bad_number s) | Some n \<Rightarrow> Inr n)"

definition read_spent :: "'c floats \<Rightarrow> (nat \<Rightarrow> nat option) \<Rightarrow> ustr \<Rightarrow> ustr \<Rightarrow> ustr \<Rightarrow> ustr \<Rightarrow> prc_error + 'c spent" where
  "read_spent F digit c i ot n =
     bindE (the_float F c) (\<lambda>c'. bindE (the_int digit i) (\<lambda>i'. bindE (the_int digit ot) (\<lambda>ot'.
     bindE (the_int digit n) (\<lambda>n'. Inr \<lparr>cost = c', input_tokens = i', output_tokens = ot', diagnoses = n'\<rparr>))))"

definition strip_total_block :: "'c floats \<Rightarrow> (nat \<Rightarrow> nat option) \<Rightarrow> ustr \<Rightarrow> prc_error + ustr \<times> 'c spent option" where
  "strip_total_block F digit body =
     (case rx_search (TOTAL_MARKER_RE digit) body of
        None \<Rightarrow> Inr (body, None)
      | Some m \<Rightarrow>
          bindE (read_spent F digit (m_group body m 1) (m_group body m 2) (m_group body m 3) (m_group body m 4))
            (\<lambda>t. Inr (take (m_start m) body, Some t)))"

definition total_marker :: "'c floats \<Rightarrow> 'c spent \<Rightarrow> ustr" where
  "total_marker F t = TOTAL_HEAD @ float_repr F (cost t) @ U '':'' @ show_u (input_tokens t) @ U '':'' @
     show_u (output_tokens t) @ U '':'' @ show_u (diagnoses t) @ U '' -->''"

definition total_line :: "'c floats \<Rightarrow> 'c spent \<Rightarrow> ustr" where
  "total_line F t = U ''<sub>*Total AI diagnostic cost for this PR:* $'' @ float_4 F (cost t) @ U '' ('' @
     show_u (input_tokens t) @ U '' input + '' @ show_u (output_tokens t) @ U '' output tokens across '' @
     show_u (diagnoses t) @ U '' diagnos'' @ U (if diagnoses t = 1 then ''is'' else ''es'') @ U '')</sub>''"

definition render_total_block :: "'c floats \<Rightarrow> 'c spent \<Rightarrow> ustr" where
  "render_total_block F t = [10, 10] @ total_marker F t @ [10] @ total_line F t @ [10]"

section \<open>Sections\<close>

definition start_of :: "ustr \<Rightarrow> ustr" where
  "start_of key = U ''<!-- section:'' @ key @ U '' -->''"

definition end_of :: "ustr \<Rightarrow> ustr" where
  "end_of key = U ''<!-- /section:'' @ key @ U '' -->''"

definition neutralize :: "ustr \<Rightarrow> ustr" where
  "neutralize s = rx_sub MARKER_RE (\<lambda>m. py_replace (U ''<!--'') (U ''&lt;!--'') (m_text s m)) s"

definition section_block :: "ustr \<Rightarrow> ustr \<Rightarrow> ustr" where
  "section_block key safe_content = start_of key @ [10] @ safe_content @ [10] @ end_of key"

definition upsert_section :: "ustr \<Rightarrow> ustr \<Rightarrow> ustr \<Rightarrow> ustr" where
  "upsert_section body key content =
     (let block = section_block key (neutralize (u_strip_points content));
          pattern = Between (start_of key) (end_of key)
      in if rx_search pattern body \<noteq> None then rx_sub1 pattern (\<lambda>_. block) body
         else u_rstrip body @ (if u_strip_points body \<noteq> [] then [10, 10] else [10]) @ block @ [10])"

section \<open>The program\<close>

datatype text_file = No_file | Unreadable | Text ustr

record 'c prc_env =
  environ :: "string \<Rightarrow> ustr option"
  file_at :: "ustr \<Rightarrow> text_file"
  writable :: "ustr \<Rightarrow> bool"
  floats :: "'c floats"
  decimal :: "nat \<Rightarrow> nat option"

definition variable :: "'c prc_env \<Rightarrow> string \<Rightarrow> prc_error + ustr" where
  "variable env x = (case environ env x of None \<Rightarrow> Inl (Missing_variable x) | Some v \<Rightarrow> Inr v)"

definition optional :: "'c prc_env \<Rightarrow> string \<Rightarrow> ustr" where
  "optional env x = u_strip_points (case environ env x of None \<Rightarrow> [] | Some v \<Rightarrow> v)"

definition open_text :: "'c prc_env \<Rightarrow> ustr \<Rightarrow> prc_error + ustr" where
  "open_text env path = (case file_at env path of Text s \<Rightarrow> Inr s | _ \<Rightarrow> Inl (Cannot_read path))"

text \<open>The body to start from: never without the marker of the comment.\<close>

definition with_marker :: "ustr \<Rightarrow> ustr" where
  "with_marker body =
     (if u_strip_points body = [] then COMMENT_MARKER @ [10]
      else if \<not> contains COMMENT_MARKER body then COMMENT_MARKER @ [10] @ body
      else body)"

definition add_run :: "'c floats \<Rightarrow> 'c spent option \<Rightarrow> 'c \<Rightarrow> int \<Rightarrow> int \<Rightarrow> 'c spent" where
  "add_run F totals c i ot = (case totals of
       Some t \<Rightarrow> \<lparr>cost = float_add F (cost t) c, input_tokens = input_tokens t + i,
         output_tokens = output_tokens t + ot, diagnoses = diagnoses t + 1\<rparr>
     | None \<Rightarrow> \<lparr>cost = c, input_tokens = i, output_tokens = ot, diagnoses = 1\<rparr>)"

text \<open>The last part of \<open>main\<close>: the block of the total, if there is one.\<close>

definition put_total :: "'c prc_env \<Rightarrow> 'c spent option \<Rightarrow> ustr \<Rightarrow> prc_error + ustr" where
  "put_total env totals new_body =
     (let F = floats env in
      if optional env ''RUN_COST_USD'' \<noteq> [] then
        bindE (the_float F (optional env ''RUN_COST_USD'')) (\<lambda>c.
        bindE (the_int (decimal env) (optional env ''RUN_INPUT_TOKENS'')) (\<lambda>i.
        bindE (the_int (decimal env) (optional env ''RUN_OUTPUT_TOKENS'')) (\<lambda>ot.
        Inr (u_rstrip new_body @ render_total_block F (add_run F totals c i ot)))))
      else (case totals of
          Some t \<Rightarrow> Inr (u_rstrip new_body @ render_total_block F t)
        | None \<Rightarrow> Inr new_body))"

text \<open>The result is the path and the text written.\<close>

definition prc_main :: "'c prc_env \<Rightarrow> prc_error + ustr \<times> ustr" where
  "prc_main env =
     bindE (variable env ''CURRENT_BODY_FILE'') (\<lambda>body_path.
     bindE (variable env ''SECTION_KEY'') (\<lambda>key.
     bindE (variable env ''SECTION_CONTENT_FILE'') (\<lambda>content_path.
     bindE (variable env ''OUTPUT_BODY_FILE'') (\<lambda>output_path.
     bindE (if file_at env body_path = No_file then Inr [] else open_text env body_path) (\<lambda>body.
     bindE (strip_total_block (floats env) (decimal env) (with_marker body)) (\<lambda>(current, totals).
     bindE (open_text env content_path) (\<lambda>content.
     bindE (put_total env totals (upsert_section current key content)) (\<lambda>new_body.
     if writable env output_path then Inr (output_path, new_body) else Inl (Cannot_write output_path)))))))))"

section \<open>Reading the total\<close>

text \<open>The pattern of the total, read from left to right: the results of the matcher at a position.\<close>

lemma off_colon: "ascii_digits digit \<Longrightarrow> off (is_decimal digit) s (Seq (Lit (U '':'')) r)"
  "off cost_char s (Seq (Lit (U '':'')) r)"
  "ascii_digits digit \<Longrightarrow> off (is_decimal digit) s (Seq (Lit (U '' -->'')) r)"
  by (simp_all add: off_Lit U_def code_def ascii_digits_def cost_char_def is_decimal_def del: Lit.simps)

lemma off_total_head: "off (\<lambda>p. p = 10) s (Seq (Lit TOTAL_HEAD) r)"
  by (rule off_Lit) (simp_all add: TOTAL_HEAD_def U_def code_def)

definition after :: "ustr \<Rightarrow> ustr \<Rightarrow> nat \<Rightarrow> nat option" where
  "after w s i = (if is_at w s i then Some (i + length w) else None)"

definition field_end :: "(nat \<Rightarrow> bool) \<Rightarrow> ustr \<Rightarrow> ustr \<Rightarrow> nat \<Rightarrow> nat option" where
  "field_end p w s i = (if i < run_end p s i then after w s (run_end p s i) else None)"

lemma after_le: "after w s i = Some j \<Longrightarrow> j \<le> length s"
  by (auto simp: after_def dest: is_at_le split: if_splits)

lemma field_end_le: "field_end p w s i = Some j \<Longrightarrow> j \<le> length s"
  by (auto simp: field_end_def dest: after_le split: if_splits)

lemma run_after:
  assumes "i \<le> length s" "\<And>j. j \<le> length s \<Longrightarrow> rx_run r s j cs = Y j"
  shows "rx_run (Seq (Lit w) r) s i cs = (case after w s i of None \<Rightarrow> [] | Some j \<Rightarrow> Y j)"
  unfolding rx_run_Seq_Lit [OF assms(1)] after_def using assms(2) is_at_le [of w s i] by auto

lemma run_field:
  assumes "i \<le> length s" "off p s (Seq (Lit w) r)"
    "\<And>j. j \<le> length s \<Longrightarrow> rx_run r s j ((g, i, run_end p s i) # cs) = Y j"
  shows "rx_run (Seq (Grp g (Plus (Cls p))) (Seq (Lit w) r)) s i cs =
    (case field_end p w s i of None \<Rightarrow> [] | Some j \<Rightarrow> Y j)"
  unfolding rx_run_Grp_Plus_off [OF assms(2)] field_end_def
  by (simp del: rx_run.simps(4) add: run_after [OF run_end_le [OF assms(1)] assms(3)])

lemma run_total:
  assumes "ascii_digits digit" and "i \<le> length s"
  shows "rx_run (TOTAL_MARKER_RE digit) s i cs =
    (case after TOTAL_HEAD s (run_end (\<lambda>p. p = 10) s i) of None \<Rightarrow> [] | Some a \<Rightarrow>
     (case field_end cost_char (U '':'') s a of None \<Rightarrow> [] | Some b \<Rightarrow>
     (case field_end (is_decimal digit) (U '':'') s b of None \<Rightarrow> [] | Some c \<Rightarrow>
     (case field_end (is_decimal digit) (U '':'') s c of None \<Rightarrow> [] | Some d \<Rightarrow>
     (case field_end (is_decimal digit) (U '' -->'') s d of None \<Rightarrow> [] | Some e \<Rightarrow>
        [(length s, (4, d, run_end (is_decimal digit) s d) # (3, c, run_end (is_decimal digit) s c) #
           (2, b, run_end (is_decimal digit) s b) # (1, a, run_end cost_char s a) # cs)])))))"
  unfolding TOTAL_MARKER_RE_def Seqs.simps rx_run_Star_off [OF off_total_head]
  by (rule run_after run_field rx_run_rest run_end_le assms(2) off_colon(1) [OF assms(1)] off_colon(2)
      off_colon(3) [OF assms(1)] | assumption)+

section \<open>Marked text\<close>

text \<open>An opener of a marker, and a text that contains a whole marker.\<close>

definition OPEN_WORDS :: "ustr list" where
  "OPEN_WORDS = [U ''/section:'', U ''section:'', U ''osac-ai-total-cost:'']"

definition opener :: "ustr \<Rightarrow> bool" where
  "opener o' \<longleftrightarrow> (\<exists>ws w. o' = U ''<!--'' @ ws @ w \<and> list_all u_space ws \<and> w \<in> set OPEN_WORDS)"

definition marked :: "ustr \<Rightarrow> bool" where
  "marked s \<longleftrightarrow> (\<exists>a o' g b. s = a @ o' @ g @ U ''-->'' @ b \<and> opener o')"

lemma markedI: "s = a @ o' @ g @ U ''-->'' @ b \<Longrightarrow> opener o' \<Longrightarrow> marked s"
  unfolding marked_def by blast

lemma opener_chars: "opener o' \<Longrightarrow> 38 \<notin> set o' \<and> (\<exists>r. o' = U ''<!--'' @ r)"
proof -
  assume "opener o'"
  then obtain ws w where o': "o' = U ''<!--'' @ ws @ w" "list_all u_space ws" "w \<in> set OPEN_WORDS"
    unfolding opener_def by blast
  have "38 \<notin> set ws" using o'(2) by (auto simp: list_all_iff u_space_def)
  moreover have "38 \<notin> set w" using o'(3) by (auto simp: OPEN_WORDS_def U_def code_def)
  moreover have "38 \<notin> set (U ''<!--'')" by (simp add: U_def code_def)
  ultimately show ?thesis using o'(1) by simp
qed

lemma marked_append: "marked s \<Longrightarrow> marked (x @ s @ y)"
  unfolding marked_def by (metis append.assoc)

lemma run_word:
  assumes "i \<le> length s"
  shows "(j, ds) \<in> set (rx_run (Alt (Seq (Opt (Lit (U ''/''))) (Lit (U ''section:''))) (Lit (U ''osac-ai-total-cost:''))) s i cs)
    \<longleftrightarrow> ds = cs \<and> (\<exists>w \<in> set OPEN_WORDS. is_at w s i \<and> j = i + length w)"
proof -
  have slash: "U ''/section:'' = U ''/'' @ U ''section:''" by (simp add: U_def)
  have opt: "rx_run (Opt (Lit (U ''/''))) s i cs = (if is_at (U ''/'') s i then [(Suc i, cs), (i, cs)] else [(i, cs)])"
  proof (cases "i < length s")
    case True
    then have "min 1 (length s - i) = Suc 0" by simp
    then show ?thesis using assms by (simp add: rx_run_Lit)
  next
    case False
    then have "\<not> is_at (U ''/'') s i" using is_at_le [of "U ''/''" s i] by auto
    then show ?thesis using False assms by simp
  qed
  have next': "Suc i \<le> length s" if "is_at (U ''/'') s i" using is_at_le [OF that] by simp
  have word: "(\<exists>w \<in> set OPEN_WORDS. is_at w s i \<and> j = i + length w) \<longleftrightarrow>
      (is_at (U ''/'') s i \<and> is_at (U ''section:'') s (Suc i) \<and> j = i + 9) \<or>
      (is_at (U ''section:'') s i \<and> j = i + 8) \<or> (is_at (U ''osac-ai-total-cost:'') s i \<and> j = i + 19)"
    by (simp add: OPEN_WORDS_def slash is_at_append eval_nat_numeral)
  show ?thesis unfolding word rx_run.simps(4,5) opt
    using assms next' by (auto simp: rx_run_Lit simp del: rx_run.simps(4))
qed

text \<open>The pattern matches from an opener to a close marker behind it.\<close>

lemma run_Seq_mem:
  "(j, ds) \<in> set (rx_run (Seq a b) s i cs) \<longleftrightarrow>
   (\<exists>k es. (k, es) \<in> set (rx_run a s i cs) \<and> (j, ds) \<in> set (rx_run b s k es))"
  by force

lemma run_star_then:
  "(j, ds) \<in> set (rx_run (Seq (Star (Cls p)) r) s i cs) \<longleftrightarrow>
   (\<exists>b. i \<le> b \<and> b \<le> run_end p s i \<and> (j, ds) \<in> set (rx_run r s b cs))"
proof -
  have "(k, es) \<in> set (map (\<lambda>j. (j, cs)) (rev [i..<Suc (run_end p s i)])) \<longleftrightarrow> es = cs \<and> i \<le> k \<and> k \<le> run_end p s i" for k es
    by (auto simp del: upt_Suc simp add: less_Suc_eq_le)
  then show ?thesis unfolding run_Seq_mem rx_run_Star by auto
qed

lemma run_tail:
  "e \<le> length s \<Longrightarrow> (j, ds) \<in> set (rx_run (Seq AnyLazy (Lit w)) s e cs) \<longleftrightarrow>
   ds = cs \<and> (\<exists>k. e \<le> k \<and> is_at w s k \<and> j = k + length w)"
proof -
  assume e: "e \<le> length s"
  have "k < Suc (length s)" if "is_at w s k" for k using is_at_le [OF that] by simp
  then show ?thesis unfolding rx_run_lazy_Lit [OF e] by (auto simp del: upt_Suc)
qed

text \<open>The positions in a match of the pattern: the opener, its blanks, its word, and the close.\<close>

definition marker_at :: "ustr \<Rightarrow> nat \<Rightarrow> nat \<Rightarrow> bool" where
  "marker_at s i j \<longleftrightarrow> (\<exists>b w k. is_at (U ''<!--'') s i \<and> i + 4 \<le> b \<and> b \<le> run_end u_space s (i + 4) \<and>
      w \<in> set OPEN_WORDS \<and> is_at w s b \<and> b + length w \<le> k \<and> is_at (U ''-->'') s k \<and> j = k + 3)"

lemma run_marker_at:
  assumes i: "i \<le> length s"
  shows "(j, ds) \<in> set (rx_run MARKER_RE s i cs) \<longleftrightarrow> ds = cs \<and> marker_at s i j"
proof (cases "is_at (U ''<!--'') s i")
  case True
  then have i4: "i + 4 \<le> length s" using is_at_le [OF True] by simp
  have len4: "length (U ''<!--'') = 4" by (simp add: eval_nat_numeral)
  let ?word = "Alt (Seq (Opt (Lit (U ''/''))) (Lit (U ''section:''))) (Lit (U ''osac-ai-total-cost:''))"
  have word: "(j, ds) \<in> set (rx_run (Seq ?word (Seq AnyLazy (Lit (U ''-->'')))) s b es) \<longleftrightarrow>
      ds = es \<and> (\<exists>w k. w \<in> set OPEN_WORDS \<and> is_at w s b \<and> b + length w \<le> k \<and> is_at (U ''-->'') s k \<and> j = k + 3)"
    if b: "b \<le> length s" for b es
  proof -
    have "(j, ds) \<in> set (rx_run (Seq ?word (Seq AnyLazy (Lit (U ''-->'')))) s b es) \<longleftrightarrow>
        (\<exists>w \<in> set OPEN_WORDS. is_at w s b \<and> (j, ds) \<in> set (rx_run (Seq AnyLazy (Lit (U ''-->''))) s (b + length w) es))"
      unfolding run_Seq_mem [of j ds ?word] run_word [OF b] by blast
    also have "\<dots> \<longleftrightarrow> (\<exists>w \<in> set OPEN_WORDS. is_at w s b \<and> ds = es \<and>
        (\<exists>k. b + length w \<le> k \<and> is_at (U ''-->'') s k \<and> j = k + length (U ''-->'')))"
      using run_tail is_at_le by (intro bex_cong refl conj_cong) blast+
    finally show ?thesis by (auto simp: eval_nat_numeral)
  qed
  have "(j, ds) \<in> set (rx_run MARKER_RE s i cs) \<longleftrightarrow> (\<exists>b. i + 4 \<le> b \<and> b \<le> run_end u_space s (i + 4) \<and>
      (j, ds) \<in> set (rx_run (Seq ?word (Seq AnyLazy (Lit (U ''-->'')))) s b cs))"
    unfolding MARKER_RE_def Seqs.simps rx_run_Seq_Lit [OF i] if_P [OF True] run_star_then len4 ..
  also have "\<dots> \<longleftrightarrow> (\<exists>b. i + 4 \<le> b \<and> b \<le> run_end u_space s (i + 4) \<and> ds = cs \<and>
      (\<exists>w k. w \<in> set OPEN_WORDS \<and> is_at w s b \<and> b + length w \<le> k \<and> is_at (U ''-->'') s k \<and> j = k + 3))"
    by (intro ex_cong1 conj_cong refl word order_trans [OF _ run_end_le [OF i4]])
  also have "\<dots> \<longleftrightarrow> ds = cs \<and> marker_at s i j"
    using True unfolding marker_at_def by blast
  finally show ?thesis .
next
  case False
  then show ?thesis unfolding MARKER_RE_def Seqs.simps rx_run_Seq_Lit [OF i] marker_at_def by simp
qed

lemma drop_is_at: "is_at v s i \<Longrightarrow> drop i s = v @ drop (i + length v) s"
  unfolding is_at_def by (metis append_take_drop_id add.commute drop_drop)

lemma drop_slice: "i \<le> j \<Longrightarrow> drop i s = slice s i j @ drop j s"
  unfolding slice_def by (metis append_take_drop_id drop_drop le_add_diff_inverse2)

lemma run_end_slice: "j \<le> run_end p s i \<Longrightarrow> list_all p (slice s i j)"
proof -
  assume "j \<le> run_end p s i"
  then have "p (slice s i j ! n)" if "n < length (slice s i j)" for n
    using that run_end_in [of i "i + n" p s] by (auto simp: slice_def)
  then show ?thesis by (auto simp: list_all_length)
qed

lemma marker_at_text:
  "marker_at s i j \<longleftrightarrow>
   (\<exists>a o' g b. s = a @ o' @ g @ U ''-->'' @ b \<and> opener o' \<and> length a = i \<and> j = i + length o' + length g + 3)"
proof
  assume "marker_at s i j"
  then obtain b w k where p: "is_at (U ''<!--'') s i" "i + 4 \<le> b" "b \<le> run_end u_space s (i + 4)" "w \<in> set OPEN_WORDS"
    "is_at w s b" "b + length w \<le> k" "is_at (U ''-->'') s k" "j = k + 3" unfolding marker_at_def by blast
  let ?ws = "slice s (i + 4) b" and ?g = "slice s (b + length w) k"
  have k: "k + 3 \<le> length s" using is_at_le [OF p(7)] by simp
  have "s = take i s @ drop i s" by simp
  also have "drop i s = U ''<!--'' @ ?ws @ w @ ?g @ U ''-->'' @ drop (k + 3) s"
    using drop_is_at [OF p(1)] drop_slice [OF p(2), of s] drop_is_at [OF p(5)] drop_slice [OF p(6), of s]
      drop_is_at [OF p(7)] by (simp add: eval_nat_numeral)
  finally have "s = take i s @ (U ''<!--'' @ ?ws @ w) @ ?g @ U ''-->'' @ drop (k + 3) s" by simp
  moreover have "opener (U ''<!--'' @ ?ws @ w)" using run_end_slice [OF p(3)] p(4) unfolding opener_def by blast
  moreover have "length (take i s) = i" using p(2,6) k by simp
  moreover have "j = i + length (U ''<!--'' @ ?ws @ w) + length ?g + 3"
    using p(2,6,8) k by (simp add: slice_def)
  ultimately show "\<exists>a o' g b. s = a @ o' @ g @ U ''-->'' @ b \<and> opener o' \<and> length a = i \<and> j = i + length o' + length g + 3"
    by blast
next
  assume "\<exists>a o' g b. s = a @ o' @ g @ U ''-->'' @ b \<and> opener o' \<and> length a = i \<and> j = i + length o' + length g + 3"
  then obtain a ws w g b where t: "s = a @ U ''<!--'' @ ws @ w @ g @ U ''-->'' @ b" "length a = i"
    "list_all u_space ws" "w \<in> set OPEN_WORDS" "j = i + 4 + length ws + length w + length g + 3"
    unfolding opener_def by auto
  have "i + 4 + length ws \<le> run_end u_space s (i + 4)"
    using t(1,2,3) by (simp add: run_end_def takeWhile_append2 list_all_iff)
  moreover have "is_at (U ''<!--'') s i" "is_at w s (i + 4 + length ws)"
    "is_at (U ''-->'') s (i + 4 + length ws + length w + length g)"
    unfolding is_at_split using t(1,2)
    by (auto intro: exI [of _ a] exI [of _ "a @ U ''<!--'' @ ws"] exI [of _ "a @ U ''<!--'' @ ws @ w @ g"])
  ultimately show "marker_at s i j" using t(4,5) unfolding marker_at_def
    by (intro exI [of _ "i + 4 + length ws"] exI [of _ w] exI [of _ "i + 4 + length ws + length w + length g"]) simp
qed

lemma marker_at_iff: "(\<exists>j. marker_at s i j) \<longleftrightarrow>
   (\<exists>a o' g b. s = a @ o' @ g @ U ''-->'' @ b \<and> opener o' \<and> length a = i)"
  unfolding marker_at_text by blast

lemma marked_iff: "marked s \<longleftrightarrow> (\<exists>i j. marker_at s i j)"
  unfolding marker_at_iff marked_def by blast

lemma match_marker_None:
  "i \<le> length s \<Longrightarrow> rx_match_at MARKER_RE s i = None \<longleftrightarrow> \<not> (\<exists>j. marker_at s i j)"
proof -
  assume i: "i \<le> length s"
  have "rx_match_at MARKER_RE s i = None \<longleftrightarrow> (\<forall>j ds. (j, ds) \<notin> set (rx_run MARKER_RE s i []))"
    unfolding rx_match_at_def by (cases "rx_run MARKER_RE s i []") (auto split: prod.split)
  then show ?thesis using run_marker_at [OF i] by blast
qed

lemma match_marker_Some:
  "rx_match_at MARKER_RE s i = Some m \<Longrightarrow> i \<le> length s \<Longrightarrow> m_start m = i \<and> marker_at s i (m_end m)"
proof -
  assume m: "rx_match_at MARKER_RE s i = Some m" and i: "i \<le> length s"
  then obtain j cs where "(j, cs) \<in> set (rx_run MARKER_RE s i [])" "m = \<lparr>m_start = i, m_end = j, m_caps = cs\<rparr>"
    unfolding rx_match_at_def by (cases "rx_run MARKER_RE s i []") auto
  with run_marker_at [OF i] show ?thesis by auto
qed

section \<open>Replacing the opening of a marker\<close>

abbreviation hide :: "ustr \<Rightarrow> ustr" where
  "hide \<equiv> py_replace [60, 33, 45, 45] [38, 108, 116, 59, 33, 45, 45]"

lemma hidden_open: "U ''&lt;!--'' = [38, 108, 116, 59, 33, 45, 45]" "U ''<!--'' = [60, 33, 45, 45]"
  by (simp_all add: U_def code_def)

lemma starts_open: "starts_with [60, 33, 45, 45] (c # s) \<longleftrightarrow> c = (60 :: nat) \<and> take 3 s = [33, 45, 45]"
  by (auto simp: starts_with_def numeral_3_eq_3)

lemma hide_step:
  "hide (c # s) = (if c = 60 \<and> take 3 s = [33, 45, 45] then [38, 108, 116, 59, 33, 45, 45] @ hide (drop 3 s) else c # hide s)"
  by (subst py_replace.simps) (simp add: starts_open, simp add: numeral_3_eq_3)

lemma hide_head: "hide s = c # x \<Longrightarrow> c \<noteq> 38 \<Longrightarrow> \<exists>s'. s = c # s' \<and> x = hide s'"
  by (cases s) (simp_all add: hide_step split: if_splits)

lemma hide_head3: "hide s = [33, 45, 45] @ x \<Longrightarrow> take 3 s = [33, 45, 45]"
proof -
  assume "hide s = [33, 45, 45] @ x"
  then obtain s1 where s1: "s = 33 # s1" "hide s1 = 45 # 45 # x" using hide_head [of s 33] by fastforce
  from hide_head [OF s1(2)] obtain s2 where s2: "s1 = 45 # s2" "hide s2 = 45 # x" by fastforce
  from hide_head [OF s2(2)] obtain s3 where "s2 = 45 # s3" by fastforce
  with s1 s2 show ?thesis by simp
qed

lemma hide_no_open: "\<not> sublist [60, 33, 45, 45] (hide s)"
proof (induction s rule: length_induct)
  case (1 s)
  show ?case
  proof (cases s)
    case (Cons c s')
    have IH: "\<not> sublist [60, 33, 45, 45] (hide (drop 3 s'))" "\<not> sublist [60, 33, 45, 45] (hide s')"
      using 1 Cons by simp_all
    show ?thesis
    proof (cases "c = 60 \<and> take 3 s' = [33, 45, 45]")
      case True
      then show ?thesis using IH(1) Cons by (simp add: hide_step sublist_Cons_right)
    next
      case False
      have "\<not> prefix [60, 33, 45, 45] (c # hide s')"
      proof
        assume "prefix [60, 33, 45, 45] (c # hide s')"
        then obtain x where "c = 60" "hide s' = [33, 45, 45] @ x" by (auto simp: prefix_def)
        with hide_head3 False show False by blast
      qed
      then show ?thesis using IH(2) Cons False by (auto simp: hide_step sublist_Cons_right)
    qed
  qed simp
qed

lemma hide_plain: "60 \<notin> set s \<Longrightarrow> hide s = s"
  by (induction s) (auto simp: hide_step)

lemma hide_keeps_end: "60 \<notin> set e \<Longrightarrow> \<exists>z. hide (y @ e) = z @ e"
proof (induction y rule: length_induct)
  case (1 y)
  show ?case
  proof (cases y)
    case Nil
    then show ?thesis using 1 hide_plain [of e] by auto
  next
    case (Cons c y')
    show ?thesis
    proof (cases "c = 60 \<and> take 3 (y' @ e) = [33, 45, 45]")
      case False
      moreover obtain z where "hide (y' @ e) = z @ e" using 1 Cons by force
      ultimately have "hide (y @ e) = (c # z) @ e" using Cons by (simp add: hide_step del: take_append)
      then show ?thesis by blast
    next
      case True
      then have h: "hide (y @ e) = [38, 108, 116, 59, 33, 45, 45] @ hide (drop 3 (y' @ e))"
        using Cons by (simp add: hide_step del: take_append drop_append)
      show ?thesis
      proof (cases "3 \<le> length y'")
        case True
        moreover obtain z where "hide (drop 3 y' @ e) = z @ e" using 1 Cons by force
        ultimately have "hide (y @ e) = ([38, 108, 116, 59, 33, 45, 45] @ z) @ e" using h by simp
        then show ?thesis by blast
      next
        case False
        have e': "hide (drop 3 (y' @ e)) = drop 3 (y' @ e)"
          using False 1(2) by (intro hide_plain) (auto dest: in_set_dropD)
        have "y' @ e = take 3 (y' @ e) @ drop 3 (y' @ e)" unfolding append_take_drop_id ..
        then have "y' @ e = [33, 45, 45] @ drop 3 (y' @ e)" using True by metis
        then have "hide (y @ e) = ([38, 108, 116, 59] @ y') @ e" unfolding h e' by simp
        then show ?thesis by blast
      qed
    qed
  qed
qed

text \<open>What is left after neutralising has no marker: a piece without opener, a hidden marker and the rest.\<close>

lemma opener_open: "opener o' \<Longrightarrow> \<exists>r. o' = [60, 33, 45, 45] @ r"
  using opener_chars by (auto simp: hidden_open)

lemma append_split:
  assumes "a @ b = c @ d"
  obtains v where "a = c @ v" "d = v @ b" | v where "v \<noteq> []" "c = a @ v" "b = v @ d"
proof -
  from assms obtain us where "a = c @ us \<and> us @ b = d \<or> a @ us = c \<and> b = us @ d"
    unfolding append_eq_append_conv2 by blast
  then show thesis using that by (cases "us = []") auto
qed

lemma unmarked_glue:
  assumes rest: "\<not> marked out" and t: "t = 38 # t'" "last t = 62" "\<not> sublist [60, 33, 45, 45] t"
    and u: "\<And>a o' b. u = a @ o' @ b \<Longrightarrow> \<not> opener o'"
  shows "\<not> marked (u @ t @ out)"
proof
  assume "marked (u @ t @ out)"
  then obtain a o' g b where eq: "u @ t @ out = a @ o' @ g @ U ''-->'' @ b" and o': "opener o'"
    unfolding marked_def by blast
  from opener_open [OF o'] obtain r where r: "o' = [60, 33, 45, 45] @ r" by blast
  from eq show False
  proof (cases rule: append_split)
    case (1 us)
    then have "us @ t @ out = o' @ g @ U ''-->'' @ b" by simp
    then show False
    proof (cases rule: append_split)
      case v: (1 v)
      then show False using u [of a o' v] o' 1 by simp
    next
      case (2 v)
      then have "38 \<in> set o'" using t(1) by (cases v) auto
      then show False using opener_chars [OF o'] by simp
    qed
  next
    case (2 us)
    from 2(3) show False
    proof (cases rule: append_split)
      case v: (1 v)
      have "v \<noteq> []" using v(2) rest markedI [OF _ o', of out "[]" g b] by auto
      then have last: "last v = 62" using t(2) v(1) by simp
      have "v @ out = [60, 33, 45, 45] @ r @ g @ U ''-->'' @ b" using v(2) r by simp
      then show False
      proof (cases rule: append_split)
        case (1 w)
        then have "t = us @ [60, 33, 45, 45] @ w" using v(1) by simp
        then show False using t(3) unfolding sublist_def by blast
      next
        case (2 w)
        then have "set v \<subseteq> set [60, 33, 45, 45]" by (metis Un_upper1 set_append)
        then show False using last last_in_set [OF \<open>v \<noteq> []\<close>] by auto
      qed
    next
      case (2 v)
      then show False using rest markedI [OF _ o', of out v g b] by simp
    qed
  qed
qed

lemma marker_hidden:
  assumes "marker_at s i j"
  shows "i < j \<and> j \<le> length s \<and> (\<exists>t'. hide (slice s i j) = 38 # t') \<and> last (hide (slice s i j)) = 62"
proof -
  from assms obtain a o' g b where t: "s = a @ o' @ g @ U ''-->'' @ b" "opener o'" "length a = i"
    "j = i + length o' + length g + 3" unfolding marker_at_text by blast
  have gt: "U ''-->'' = [45, 45, 62]" by (simp add: U_def code_def)
  have sl: "slice s i j = o' @ g @ [45, 45, 62]" unfolding slice_def t(1,4) using t(3) by (simp add: gt)
  from opener_open [OF t(2)] obtain r where r: "o' = [60, 33, 45, 45] @ r" by blast
  have "\<exists>t'. hide (slice s i j) = 38 # t'" unfolding sl r by (simp add: hide_step numeral_3_eq_3)
  moreover obtain z where "hide (slice s i j) = z @ [45, 45, 62]"
    using hide_keeps_end [of "[45, 45, 62]" "o' @ g"] unfolding sl by auto
  ultimately show ?thesis using t(1,3,4) r by (simp add: gt)
qed

lemma neutral_from:
  "length s - pos < n \<Longrightarrow> pos \<le> length s \<Longrightarrow>
   \<not> marked (sub_pieces s (\<lambda>m. hide (m_text s m)) pos (rx_iter MARKER_RE s n pos))"
proof (induction n arbitrary: pos)
  case (Suc n)
  show ?case
  proof (cases "rx_search_from MARKER_RE s pos")
    case None
    have "\<not> marked (drop pos s)"
    proof
      assume "marked (drop pos s)"
      then obtain a o' g b where t: "drop pos s = a @ o' @ g @ U ''-->'' @ b" "opener o'" unfolding marked_def by blast
      have "s = take pos s @ drop pos s" by simp
      then have "s = (take pos s @ a) @ o' @ g @ U ''-->'' @ b" unfolding t(1) by simp
      moreover have len: "length (take pos s @ a) = pos + length a" using Suc.prems(2) by simp
      ultimately have "\<exists>j. marker_at s (pos + length a) j" unfolding marker_at_iff using t(2) len by blast
      moreover have "pos + length a \<le> length s" using arg_cong [OF t(1), of length] Suc.prems(2) by simp
      ultimately show False using None unfolding rx_search_from_None by (simp add: match_marker_None)
    qed
    with None show ?thesis by simp
  next
    case (Some m)
    note f = rx_search_from_Some [OF Some]
    have st: "m_start m \<le> length s" using f(2,3) by simp
    have mk: "marker_at s (m_start m) (m_end m)" using match_marker_Some [OF f(4) st] by simp
    note h = marker_hidden [OF mk]
    let ?out = "sub_pieces s (\<lambda>m. hide (m_text s m)) (m_end m) (rx_iter MARKER_RE s n (m_end m))"
    have "\<not> marked ?out" using Suc h f(1) by (intro Suc.IH) auto
    moreover have "\<not> opener o'" if u: "slice s pos (m_start m) = a @ o' @ b" for a o' b
    proof
      assume o': "opener o'"
      from mk obtain x y z w where t: "s = x @ y @ z @ U ''-->'' @ w" "length x = m_start m" unfolding marker_at_text by blast
      have "x = take pos s @ slice s pos (m_start m)"
        using t f(1) by (simp add: slice_def)
      then have s: "s = (take pos s @ a) @ o' @ (b @ y @ z) @ U ''-->'' @ w" using t(1) u by simp
      have len: "length (take pos s @ a) = pos + length a" using Suc.prems(2) by simp
      have "\<exists>j. marker_at s (pos + length a) j" unfolding marker_at_iff using s o' len by blast
      moreover have "pos + length a < m_start m"
        using arg_cong [OF u, of length] opener_open [OF o'] st f(1) by (auto simp: slice_def)
      ultimately show False using f(5) [of "pos + length a"] st by (simp add: match_marker_None)
    qed
    ultimately have "\<not> marked (slice s pos (m_start m) @ hide (m_text s m) @ ?out)"
      using h hide_no_open unfolding m_text_def by (elim conjE exE) (rule unmarked_glue)
    with Some h show ?thesis by simp
  qed
qed simp

lemma neutralize_unmarked: "\<not> marked (neutralize s)"
  unfolding neutralize_def rx_sub_def rx_finditer_def hidden_open by (rule neutral_from) simp_all

end
