(* ===== verification/PrCommentSpec.thy ===== *)
theory PrCommentSpec
  imports PrComment
begin

text \<open>
  What the comment of a pull request is, and that \<open>PrComment\<close> implements it: an ordered dictionary from
  section names to texts, and a running total. A run of the program replaces the text of one section, or
  adds the section at the end, and adds its own cost to the total; everything else stays as it was.
\<close>

section \<open>The comment\<close>

record 'c comment =
  sections :: "(ustr \<times> ustr) list"
  total :: "'c spent option"

definition sections_text :: "(ustr \<times> ustr) list \<Rightarrow> ustr" where
  "sections_text secs = concat (map (\<lambda>(k, c). [10, 10] @ section_block k c) secs)"

definition render_comment :: "'c floats \<Rightarrow> 'c comment \<Rightarrow> ustr" where
  "render_comment F cm = COMMENT_MARKER @ sections_text (sections cm) @
     (case total cm of None \<Rightarrow> [10] | Some t \<Rightarrow> render_total_block F t)"

text \<open>A name without angle brackets and line feeds, such as the name of a workflow; an amount whose \<open>repr\<close>
  is the usual decimal one, from which \<open>float\<close> reads it back.\<close>

definition key_ok :: "ustr \<Rightarrow> bool" where
  "key_ok k \<longleftrightarrow> 10 \<notin> set k \<and> 60 \<notin> set k \<and> 62 \<notin> set k"

definition amount_ok :: "'c floats \<Rightarrow> 'c \<Rightarrow> bool" where
  "amount_ok F c \<longleftrightarrow> float_of F (float_repr F c) = Some c \<and> float_repr F c \<noteq> [] \<and> list_all cost_char (float_repr F c)"

definition spent_ok :: "'c floats \<Rightarrow> 'c spent \<Rightarrow> bool" where
  "spent_ok F t \<longleftrightarrow> amount_ok F (cost t) \<and> 0 \<le> input_tokens t \<and> 0 \<le> output_tokens t \<and> 0 \<le> diagnoses t"

definition sections_ok :: "(ustr \<times> ustr) list \<Rightarrow> bool" where
  "sections_ok secs \<longleftrightarrow> distinct (map fst secs) \<and> (\<forall>(k, c) \<in> set secs. key_ok k \<and> \<not> marked c)"

definition put_section :: "ustr \<Rightarrow> ustr \<Rightarrow> (ustr \<times> ustr) list \<Rightarrow> (ustr \<times> ustr) list" where
  "put_section key content secs = dict_set key (neutralize (u_strip_points content)) secs"

lemma sections_ok_put: "sections_ok secs \<Longrightarrow> key_ok key \<Longrightarrow> sections_ok (put_section key content secs)"
proof -
  assume ok: "sections_ok secs" "key_ok key"
  have "x \<in> set (dict_set k v d) \<Longrightarrow> x = (k, v) \<or> x \<in> set d" for x k and v :: ustr and d
    by (induction k v d rule: dict_set.induct) (auto split: if_splits)
  then show ?thesis using ok distinct_dict_set neutralize_unmarked
    unfolding sections_ok_def put_section_def by fast
qed

section \<open>Where a line occurs\<close>

lemma is_at_line:
  assumes "c \<notin> set w" "w \<noteq> []" "is_at w (a @ c # b) i"
  shows "is_at w a i \<or> (\<exists>k. i = Suc (length a) + k \<and> is_at w b k)"
proof -
  from assms(3) obtain x y where x: "a @ c # b = x @ w @ y" "length x = i" by (auto simp: is_at_split)
  from x(1) show ?thesis
  proof (cases rule: append_split)
    case (1 v)
    from 1(2) [symmetric] show ?thesis
    proof (cases rule: append_split)
      case (1 u)
      then show ?thesis using \<open>a = x @ v\<close> x(2) by (auto simp: is_at_split)
    next
      case (2 u)
      then show ?thesis using assms(1) by (cases u) auto
    qed
  next
    case (2 v)
    then obtain v' where "v = c # v'" "b = v' @ w @ y" by (cases v) auto
    then have "is_at w b (length v')" by (auto simp: is_at_split)
    moreover have "i = Suc (length a) + length v'" using 2 x(2) \<open>v = c # v'\<close> by simp
    ultimately show ?thesis by blast
  qed
qed

text \<open>An occurrence of one line in a rendered comment lies before the sections, in a start marker, in a text,
  in an end marker, or in what follows.\<close>

lemma where_line:
  assumes w: "10 \<notin> set w" "w \<noteq> []"
  shows "is_at w (X @ sections_text secs @ tail) i \<Longrightarrow> tail = [] \<or> (\<exists>t. tail = 10 # t) \<Longrightarrow>
    is_at w X i \<or>
    (\<exists>pre k c post n. secs = pre @ (k, c) # post \<and>
       ((is_at w (start_of k) n \<and> i = length (X @ sections_text pre) + 2 + n) \<or> is_at w c n \<or> is_at w (end_of k) n)) \<or>
    (\<exists>t n. tail = 10 # t \<and> is_at w t n \<and> i = length (X @ sections_text secs) + 1 + n)"
proof (induction secs arbitrary: X i)
  case Nil
  then show ?case using is_at_line [OF w, of X _ i] by (auto simp: sections_text_def)
next
  case (Cons kc rest)
  obtain k c where kc: "kc = (k, c)" by force
  let ?rest = "end_of k @ sections_text rest @ tail"
  have "X @ sections_text (kc # rest) @ tail = X @ 10 # [] @ 10 # start_of k @ 10 # c @ 10 # ?rest"
    by (simp add: kc sections_text_def section_block_def)
  with Cons.prems(1) have at: "is_at w (X @ 10 # [] @ 10 # start_of k @ 10 # c @ 10 # ?rest) i" by simp
  have here: "kc # rest = [] @ (k, c) # rest" using kc by simp
  note line = is_at_line [OF w]
  from line [OF at] show ?case
  proof (elim disjE exE conjE)
    fix n1 assume n1: "i = Suc (length X) + n1" "is_at w ([] @ 10 # start_of k @ 10 # c @ 10 # ?rest) n1"
    from line [OF n1(2)] have "\<exists>n2. n1 = Suc n2 \<and> is_at w (start_of k @ 10 # c @ 10 # ?rest) n2"
      using w(2) by (auto simp: is_at_def)
    then obtain n2 where n2: "n1 = Suc n2" "is_at w (start_of k @ 10 # c @ 10 # ?rest) n2" by blast
    from line [OF n2(2)] show ?thesis
    proof (elim disjE exE conjE)
      assume "is_at w (start_of k) n2"
      moreover have "i = length (X @ sections_text []) + 2 + n2" using n1(1) n2(1) by (simp add: sections_text_def)
      ultimately show ?thesis using here by blast
    next
      fix n3 assume n3: "n2 = Suc (length (start_of k)) + n3" "is_at w (c @ 10 # ?rest) n3"
      from line [OF n3(2)] show ?thesis
      proof (elim disjE exE conjE)
        assume "is_at w c n3"
        then show ?thesis using here by blast
      next
        fix n4 assume n4: "n3 = Suc (length c) + n4" "is_at w ?rest n4"
        have i: "i = length (X @ [10, 10] @ start_of k @ [10] @ c @ [10]) + n4"
          using n1(1) n2(1) n3(1) n4(1) by simp
        have len: "length (X @ sections_text ((k, c) # secs)) = length (X @ [10, 10] @ start_of k @ [10] @ c @ [10]) +
            length (end_of k @ sections_text secs)" for secs
          by (simp add: sections_text_def section_block_def)
        from Cons.IH [OF n4(2) Cons.prems(2)] show ?thesis
        proof (elim disjE exE conjE)
          assume "is_at w (end_of k) n4"
          then show ?thesis using here by blast
        next
          fix pre k' c' post n
          assume r: "rest = pre @ (k', c') # post" "is_at w (start_of k') n" "n4 = length (end_of k @ sections_text pre) + 2 + n"
          have "kc # rest = (kc # pre) @ (k', c') # post" using r(1) by simp
          moreover have "i = length (X @ sections_text (kc # pre)) + 2 + n" using i r(3) len [of pre] kc by simp
          ultimately show ?thesis using r(2) by blast
        next
          fix pre k' c' post n assume r: "rest = pre @ (k', c') # post" "is_at w c' n"
          have "kc # rest = (kc # pre) @ (k', c') # post" using r(1) by simp
          then show ?thesis using r(2) by blast
        next
          fix pre k' c' post n assume r: "rest = pre @ (k', c') # post" "is_at w (end_of k') n"
          have "kc # rest = (kc # pre) @ (k', c') # post" using r(1) by simp
          then show ?thesis using r(2) by blast
        next
          fix t n assume r: "tail = 10 # t" "is_at w t n" "n4 = length (end_of k @ sections_text rest) + 1 + n"
          have "i = length (X @ sections_text (kc # rest)) + 1 + n" using i r(3) len [of rest] kc by simp
          then show ?thesis using r(1,2) by blast
        qed
      qed
    qed
  qed simp
qed

section \<open>Markers in a rendered comment\<close>

lemma tag_texts:
  "start_of k = [60, 33, 45, 45, 32] @ U ''section:'' @ k @ [32, 45, 45, 62]"
  "end_of k = [60, 33, 45, 45, 32] @ U ''/section:'' @ k @ [32, 45, 45, 62]"
  "TOTAL_HEAD = [60, 33, 45, 45, 32] @ U ''osac-ai-total-cost:''"
  "COMMENT_MARKER = [60, 33, 45, 45, 32] @ U ''osac-ai-diagnostic-comment'' @ [32, 45, 45, 62]"
  by (simp_all add: start_of_def end_of_def TOTAL_HEAD_def COMMENT_MARKER_def U_def code_def)

lemma tag_chars:
  "key_ok k \<Longrightarrow> 10 \<notin> set (start_of k)" "key_ok k \<Longrightarrow> 10 \<notin> set (end_of k)"
  "key_ok k \<Longrightarrow> 60 \<notin> set (tl (start_of k))" "key_ok k \<Longrightarrow> 60 \<notin> set (tl (end_of k))"
  "60 \<notin> set (tl COMMENT_MARKER)" "10 \<notin> set COMMENT_MARKER"
  by (simp_all add: tag_texts key_ok_def U_def code_def)

lemma is_at_tag:
  assumes "is_at (60 # w) t i" "60 \<notin> set (tl t)"
  shows "i = 0"
proof (cases i)
  case (Suc n)
  then have "tl t ! n = 60" "n < length (tl t)" using assms(1) by (cases t; simp add: is_at_Cons)+
  then show ?thesis using assms(2) nth_mem by metis
qed simp

lemma is_at_0: "is_at w t 0 \<longleftrightarrow> (\<exists>b. t = w @ b)"
  by (auto simp: is_at_split)

lemma takeWhile_62: "62 \<notin> set x \<Longrightarrow> takeWhile (\<lambda>p. p \<noteq> 62) (x @ 62 # y) = x"
  by (induction x) auto

text \<open>Which markers occur in which.\<close>

lemma start_in_start: "is_at (start_of k) (start_of k') i \<Longrightarrow> key_ok k \<Longrightarrow> key_ok k' \<Longrightarrow> i = 0 \<and> k = k'"
proof -
  assume a: "is_at (start_of k) (start_of k') i" "key_ok k" "key_ok k'"
  then have i: "i = 0" using is_at_tag [of _ "start_of k'" i] tag_chars(3) by (simp add: tag_texts(1))
  with a(1) obtain b where "start_of k' = start_of k @ b" by (auto simp: is_at_0)
  then have "k' @ [32, 45, 45, 62] = k @ [32, 45, 45, 62] @ b" by (simp add: tag_texts)
  then have "takeWhile (\<lambda>p. p \<noteq> 62) ((k' @ [32, 45, 45]) @ 62 # []) = takeWhile (\<lambda>p. p \<noteq> 62) ((k @ [32, 45, 45]) @ 62 # b)"
    by simp
  then have "k' @ [32, 45, 45] = k @ [32, 45, 45]" using a(2,3) unfolding key_ok_def by (subst (asm) (1 2) takeWhile_62) auto
  with i show ?thesis by simp
qed

lemma not_in_tag:
  "key_ok k' \<Longrightarrow> \<not> is_at (start_of k) (end_of k') i"
  "\<not> is_at (start_of k) COMMENT_MARKER i"
  "\<not> is_at TOTAL_HEAD COMMENT_MARKER i"
  "key_ok k' \<Longrightarrow> \<not> is_at TOTAL_HEAD (start_of k') i"
  "key_ok k' \<Longrightarrow> \<not> is_at TOTAL_HEAD (end_of k') i"
proof -
  have no: "\<not> is_at w t i" if "60 \<notin> set (tl t)" "\<exists>w'. w = 60 # w'" "\<And>b. t \<noteq> w @ b" for w t
  proof
    assume a: "is_at w t i"
    then have "i = 0" using that(1,2) is_at_tag by blast
    with a that(3) show False by (auto simp: is_at_0)
  qed
  show "key_ok k' \<Longrightarrow> \<not> is_at (start_of k) (end_of k') i"
    by (rule no [OF tag_chars(4)]) (simp_all add: tag_texts U_def code_def)
  show "key_ok k' \<Longrightarrow> \<not> is_at TOTAL_HEAD (start_of k') i"
    by (rule no [OF tag_chars(3)]) (simp_all add: tag_texts U_def code_def)
  show "key_ok k' \<Longrightarrow> \<not> is_at TOTAL_HEAD (end_of k') i"
    by (rule no [OF tag_chars(4)]) (simp_all add: tag_texts U_def code_def)
  show "\<not> is_at (start_of k) COMMENT_MARKER i" "\<not> is_at TOTAL_HEAD COMMENT_MARKER i"
    by (rule no [OF tag_chars(5)]; simp add: tag_texts U_def code_def)+
qed

lemma opener_tags:
  "opener ([60, 33, 45, 45, 32] @ U ''section:'')" "opener ([60, 33, 45, 45, 32] @ U ''/section:'')" "opener TOTAL_HEAD"
proof -
  have "opener (U ''<!--'' @ [32] @ w)" if "w \<in> set OPEN_WORDS" for w
    using that unfolding opener_def by (intro exI [of _ "[32]"] exI [of _ w]) (simp add: u_space_def)
  from this [of "U ''section:''"] this [of "U ''/section:''"] this [of "U ''osac-ai-total-cost:''"]
  show "opener ([60, 33, 45, 45, 32] @ U ''section:'')" "opener ([60, 33, 45, 45, 32] @ U ''/section:'')" "opener TOTAL_HEAD"
    by (simp_all add: OPEN_WORDS_def hidden_open tag_texts)
qed

lemma marked_is_at: "is_at (o' @ g @ U ''-->'') c i \<Longrightarrow> opener o' \<Longrightarrow> marked c"
  by (auto simp: is_at_split intro: markedI)

lemma tags_mark:
  "is_at (start_of k) c i \<Longrightarrow> marked c" "is_at (end_of k) c i \<Longrightarrow> marked c"
  using marked_is_at [OF _ opener_tags(1), of "k @ [32]" c i] marked_is_at [OF _ opener_tags(2), of "k @ [32]" c i]
  by (simp_all add: tag_texts U_def code_def)

text \<open>The start marker of a section occurs exactly where the section begins.\<close>

lemma start_found:
  assumes "is_at (start_of k) (COMMENT_MARKER @ sections_text secs @ tail) i" "sections_ok secs" "key_ok k"
    and "tail = [] \<or> tail = [10]"
  shows "\<exists>pre c post. secs = pre @ (k, c) # post \<and> i = length (COMMENT_MARKER @ sections_text pre) + 2"
proof -
  have ne: "start_of k \<noteq> []" by (simp add: tag_texts)
  have nil: "\<not> is_at (start_of k) [] n" for n using ne by (simp add: is_at_def)
  have "tail = [] \<or> (\<exists>t. tail = 10 # t)" using assms(4) by auto
  from where_line [OF tag_chars(1) [OF assms(3)] ne assms(1) this] not_in_tag(2) [of k i] nil assms(4)
  obtain pre k' c post n where s: "secs = pre @ (k', c) # post"
    and n: "(is_at (start_of k) (start_of k') n \<and> i = length (COMMENT_MARKER @ sections_text pre) + 2 + n)
      \<or> is_at (start_of k) c n \<or> is_at (start_of k) (end_of k') n"
    by (metis list.inject neq_Nil_conv)
  have ok: "key_ok k'" "\<not> marked c" using assms(2) s by (auto simp: sections_ok_def)
  with n tags_mark(1) not_in_tag(1) start_in_start assms(3) s show ?thesis by (metis add.right_neutral)
qed

section \<open>Updating a section\<close>

lemma dict_set_present: "k \<notin> fst ` set pre \<Longrightarrow> dict_set k v (pre @ (k, c) # post) = pre @ (k, v) # post"
  by (induction pre) auto

lemma dict_set_absent: "k \<notin> fst ` set d \<Longrightarrow> dict_set k v d = d @ [(k, v)]"
  by (induction d) auto

lemma is_at_shift: "is_at w (a @ b) (length a + n) \<longleftrightarrow> is_at w b n"
  by (simp add: is_at_def)

lemma is_at_mid: "is_at w (x @ w @ z) (length x)"
  by (simp add: is_at_def)

lemma find_fromI:
  "is_at p s j \<Longrightarrow> i \<le> j \<Longrightarrow> (\<And>k. i \<le> k \<Longrightarrow> k < j \<Longrightarrow> \<not> is_at p s k) \<Longrightarrow> find_from p s i = Some j"
  using find_from_Some [of p s i] find_from_None [of p s i] by (cases "find_from p s i") (auto, metis linorder_neqE_nat)

lemma section_split:
  "sections_text (pre @ (k, c) # post) = sections_text pre @ [10, 10] @ start_of k @ [10] @ c @ [10] @ end_of k @ sections_text post"
  by (simp add: sections_text_def section_block_def)

lemma end_found:
  assumes "key_ok k" "\<not> marked c"
  shows "find_from (end_of k) (a @ [10] @ c @ [10] @ end_of k @ z) (length a) = Some (length a + length c + 2)"
proof (rule find_fromI)
  show "is_at (end_of k) (a @ [10] @ c @ [10] @ end_of k @ z) (length a + length c + 2)"
    using is_at_mid [of "end_of k" "a @ [10] @ c @ [10]" z] by simp
next
  fix i assume i: "length a \<le> i" "i < length a + length c + 2"
  then obtain n where n: "i = length a + n" "n < length c + 2" using le_Suc_ex by fastforce
  have ne: "end_of k \<noteq> []" by (simp add: tag_texts)
  show "\<not> is_at (end_of k) (a @ [10] @ c @ [10] @ end_of k @ z) i"
  proof
    assume "is_at (end_of k) (a @ [10] @ c @ [10] @ end_of k @ z) i"
    then have "is_at (end_of k) ([] @ 10 # c @ 10 # end_of k @ z) n" unfolding n(1) is_at_shift by simp
    from is_at_line [OF tag_chars(2) [OF assms(1)] ne this] ne obtain m where
      m: "n = Suc m" "is_at (end_of k) (c @ 10 # end_of k @ z) m" by (auto simp: is_at_def)
    from is_at_line [OF tag_chars(2) [OF assms(1)] ne m(2)] tags_mark(2) [of k c m] assms(2) m(1) n(2)
    show False by auto
  qed
qed simp

lemma sections_key_unique:
  "k \<notin> fst ` set pre \<Longrightarrow> k \<notin> fst ` set pre' \<Longrightarrow> pre @ (k, c) # post = pre' @ (k, c') # post' \<Longrightarrow> pre = pre'"
proof (induction pre arbitrary: pre')
  case Nil
  then show ?case by (cases pre') auto
next
  case (Cons x pre)
  then show ?case by (cases pre') auto
qed

text \<open>The search for a section's delimiters finds that section and nothing else.\<close>

lemma section_found:
  assumes ok: "sections_ok (pre @ (k, c) # post)" and tail: "tail = [] \<or> tail = [10]"
  defines "body \<equiv> COMMENT_MARKER @ sections_text (pre @ (k, c) # post) @ tail"
    and "a \<equiv> COMMENT_MARKER @ sections_text pre @ [10, 10]"
  shows "rx_search (Between (start_of k) (end_of k)) body =
    Some \<lparr>m_start = length a, m_end = length a + length (section_block k c), m_caps = []\<rparr>"
proof (rule rx_search_SomeI)
  have k: "key_ok k" "\<not> marked c" using ok by (auto simp: sections_ok_def)
  have body: "body = a @ start_of k @ [10] @ c @ [10] @ end_of k @ sections_text post @ tail"
    by (simp add: body_def a_def section_split)
  have "is_at (start_of k) body (length a)" unfolding body by (rule is_at_mid)
  moreover have "find_from (end_of k) body (length a + length (start_of k)) = Some (length a + length (start_of k) + length c + 2)"
    using end_found [OF k, of "a @ start_of k" "sections_text post @ tail"] by (simp add: body)
  ultimately show "rx_match_at (Between (start_of k) (end_of k)) body (length a) =
      Some \<lparr>m_start = length a, m_end = length a + length (section_block k c), m_caps = []\<rparr>"
    by (subst rx_match_Between) (simp_all add: body section_block_def)
  show "length a \<le> length body" by (simp add: body)
  fix i assume i: "i < length a"
  show "rx_match_at (Between (start_of k) (end_of k)) body i = None"
  proof (rule ccontr)
    assume "rx_match_at (Between (start_of k) (end_of k)) body i \<noteq> None"
    then have "is_at (start_of k) body i" using i by (subst (asm) rx_match_Between) (auto simp: body split: if_splits)
    then obtain pre' c' post' where "pre @ (k, c) # post = pre' @ (k, c') # post'"
      "i = length (COMMENT_MARKER @ sections_text pre') + 2"
      unfolding body_def using start_found [OF _ ok k(1) tail] by blast
    moreover have "k \<notin> fst ` set pre" "k \<notin> fst ` set pre'"
      using ok ok [unfolded calculation(1)] by (auto simp: sections_ok_def)
    moreover have "pre = pre'" using sections_key_unique [OF calculation(3,4,1)] .
    ultimately show False using i by (simp add: a_def)
  qed
qed

lemma body_ends: "\<exists>z. COMMENT_MARKER @ sections_text secs = z @ [62]"
proof (cases secs rule: rev_cases)
  case Nil
  then show ?thesis by (simp add: sections_text_def tag_texts)
next
  case (snoc _ kc)
  then show ?thesis by (cases kc) (simp add: sections_text_def section_block_def tag_texts)
qed

lemma body_rstrip: "tail = [] \<or> tail = [10] \<Longrightarrow>
    u_rstrip (COMMENT_MARKER @ sections_text secs @ tail) = COMMENT_MARKER @ sections_text secs"
proof -
  assume tail: "tail = [] \<or> tail = [10]"
  obtain z where z: "COMMENT_MARKER @ sections_text secs = z @ [62]" using body_ends by blast
  have e: "COMMENT_MARKER @ sections_text secs @ tail = z @ 62 # tail"
    using arg_cong [OF z, of "\<lambda>x. x @ tail"] by simp
  have "rstrip_by u_space (z @ 62 # tail) = z @ [62]"
    using tail by (intro rstrip_by_snoc) (auto simp: u_space_def)
  then show ?thesis unfolding u_rstrip_def e z .
qed

lemma sections_text_snoc: "sections_text (secs @ [(k, c)]) = sections_text secs @ [10, 10] @ section_block k c"
  by (simp add: sections_text_def)

lemma upsert_render:
  assumes "sections_ok secs" "key_ok k" "tail = [] \<or> tail = [10]"
  shows "\<exists>tail'. (tail' = [] \<or> tail' = [10]) \<and> (tail = [10] \<longrightarrow> tail' = [10]) \<and>
    upsert_section (COMMENT_MARKER @ sections_text secs @ tail) k content =
      COMMENT_MARKER @ sections_text (put_section k content secs) @ tail'"
proof (cases "k \<in> fst ` set secs")
  case True
  then obtain pre c post where s: "secs = pre @ (k, c) # post" by (auto dest!: split_list)
  have "k \<notin> fst ` set pre" using assms(1) s by (auto simp: sections_ok_def)
  then have put: "put_section k content secs = pre @ (k, neutralize (u_strip_points content)) # post"
    by (simp add: put_section_def s dict_set_present)
  define a where "a = COMMENT_MARKER @ sections_text pre @ [10, 10]"
  have whole: "COMMENT_MARKER @ sections_text (pre @ (k, x) # post) @ tail = a @ section_block k x @ sections_text post @ tail" for x
    by (simp add: a_def section_split section_block_def)
  have "upsert_section (COMMENT_MARKER @ sections_text secs @ tail) k content =
      a @ section_block k (neutralize (u_strip_points content)) @ sections_text post @ tail"
    using section_found [OF assms(1) [unfolded s] assms(3)] unfolding s whole a_def [symmetric]
    by (simp add: upsert_section_def rx_sub1_def)
  then show ?thesis using assms(3) unfolding put whole [symmetric] by blast
next
  case False
  then have put: "put_section k content secs = secs @ [(k, neutralize (u_strip_points content))]"
    by (simp add: put_section_def dict_set_absent)
  let ?body = "COMMENT_MARKER @ sections_text secs @ tail"
  have "rx_search (Between (start_of k) (end_of k)) ?body = None"
  proof (subst rx_search_None, intro allI impI, rule ccontr)
    fix i assume i: "i \<le> length ?body" and "rx_match_at (Between (start_of k) (end_of k)) ?body i \<noteq> None"
    then have "is_at (start_of k) ?body i" by (subst (asm) rx_match_Between) (auto split: if_splits)
    from start_found [OF this assms(1,2,3)] False show False by force
  qed
  moreover have "u_strip_points ?body \<noteq> []"
    by (simp add: u_strip_points_def strip_by_Nil tag_texts u_space_def)
  ultimately show ?thesis unfolding put
    by (intro exI [of _ "[10]"]) (simp add: upsert_section_def body_rstrip [OF assms(3)] sections_text_snoc)
qed

section \<open>The running total\<close>

text \<open>A match of the pattern contains, behind its line feeds, a line that no text of a section can contain.\<close>

lemma after_text: "after w s i = Some j \<Longrightarrow> is_at w s i \<and> j = i + length w"
  by (auto simp: after_def split: if_splits)

lemma field_text:
  assumes "field_end p w s i = Some j"
  shows "\<exists>x. is_at (x @ w) s i \<and> list_all p x \<and> j = i + length (x @ w)"
proof -
  let ?e = "run_end p s i"
  have e: "is_at w s ?e" "j = ?e + length w" using assms by (auto simp: field_end_def dest: after_text split: if_splits)
  have le: "?e \<le> length s" using is_at_le [OF e(1)] by simp
  have x: "length (slice s i ?e) = ?e - i" using le by (simp add: slice_def)
  have "is_at (slice s i ?e) s i" using le run_end_ge [of i p s] unfolding is_at_def x by (simp add: slice_def)
  then have "is_at (slice s i ?e @ w) s i" using e(1) x by (simp add: is_at_append)
  moreover have "list_all p (slice s i ?e)" by (rule run_end_slice) simp
  moreover have "i + length (slice s i ?e) = ?e" by (simp add: x)
  then have "j = i + length (slice s i ?e @ w)" unfolding e(2) length_append by linarith
  ultimately show ?thesis by blast
qed

lemma total_match_line:
  assumes dg: "ascii_digits digit" and i: "i \<le> length s" and m: "rx_match_at (TOTAL_MARKER_RE digit) s i \<noteq> None"
  shows "\<exists>x. 10 \<notin> set x \<and> is_at (TOTAL_HEAD @ x @ U ''-->'') s (run_end (\<lambda>p. p = 10) s i)"
proof -
  let ?b = "run_end (\<lambda>p. p = 10) s i" and ?D = "is_decimal digit"
  have "rx_run (TOTAL_MARKER_RE digit) s i [] \<noteq> []" using m by (auto simp: rx_match_at_def)
  then obtain a b c d e where f: "after TOTAL_HEAD s ?b = Some a" "field_end cost_char (U '':'') s a = Some b"
    "field_end ?D (U '':'') s b = Some c" "field_end ?D (U '':'') s c = Some d" "field_end ?D (U '' -->'') s d = Some e"
    unfolding run_total [OF dg i] by (auto split: option.splits)
  from field_text [OF f(2)] obtain x1 where x1: "is_at (x1 @ U '':'') s a" "list_all cost_char x1" "b = a + length (x1 @ U '':'')" by blast
  from field_text [OF f(3)] obtain x2 where x2: "is_at (x2 @ U '':'') s b" "list_all ?D x2" "c = b + length (x2 @ U '':'')" by blast
  from field_text [OF f(4)] obtain x3 where x3: "is_at (x3 @ U '':'') s c" "list_all ?D x3" "d = c + length (x3 @ U '':'')" by blast
  from field_text [OF f(5)] obtain x4 where x4: "is_at (x4 @ U '' -->'') s d" "list_all ?D x4" by blast
  let ?x = "(x1 @ U '':'') @ (x2 @ U '':'') @ (x3 @ U '':'') @ x4 @ [32]"
  have arrow: "U '' -->'' = [32] @ U ''-->''" by (simp add: U_def code_def)
  have "is_at (TOTAL_HEAD @ (x1 @ U '':'') @ (x2 @ U '':'') @ (x3 @ U '':'') @ x4 @ [32] @ U ''-->'') s ?b"
    using after_text [OF f(1)] x1(1,3) x2(1,3) x3(1,3) x4(1) unfolding arrow
    by (simp add: is_at_append add.assoc)
  then have "is_at (TOTAL_HEAD @ ?x @ U ''-->'') s ?b" by simp
  moreover have "\<not> cost_char 10" "\<not> ?D 10" using dg by (simp_all add: cost_char_def is_decimal_def ascii_digits_def U_def code_def)
  then have "10 \<notin> set ?x" using x1(2) x2(2) x3(2) x4(2) by (auto simp: list_all_iff U_def code_def)
  ultimately show ?thesis by blast
qed

text \<open>In a rendered comment no such line begins before the block of the total.\<close>

lemma no_total_before:
  assumes ok: "sections_ok secs" and dg: "ascii_digits digit"
    and i: "i < length (COMMENT_MARKER @ sections_text secs)" and tail: "tail = [] \<or> (\<exists>t. tail = 10 # t)"
  shows "rx_match_at (TOTAL_MARKER_RE digit) (COMMENT_MARKER @ sections_text secs @ tail) i = None"
proof (rule ccontr)
  let ?s = "COMMENT_MARKER @ sections_text secs @ tail" and ?n = "length (COMMENT_MARKER @ sections_text secs)"
  let ?b = "run_end (\<lambda>p. p = 10) ?s i"
  assume "rx_match_at (TOTAL_MARKER_RE digit) ?s i \<noteq> None"
  moreover have "i \<le> length ?s" using i by simp
  ultimately obtain x where x: "10 \<notin> set x" "is_at (TOTAL_HEAD @ x @ U ''-->'') ?s ?b"
    using total_match_line [OF dg] by blast
  let ?w = "TOTAL_HEAD @ x @ U ''-->''"
  have w: "10 \<notin> set ?w" "?w \<noteq> []" using x(1) by (simp_all add: tag_texts U_def code_def)
  have before: "?b < ?n"
  proof (rule ccontr)
    assume "\<not> ?b < ?n"
    then have "?n - 1 < ?b" using i by simp
    then have "?s ! (?n - 1) = 10" using run_end_in [of i "?n - 1" "\<lambda>p. p = 10" ?s] i by simp
    moreover obtain z where z: "COMMENT_MARKER @ sections_text secs = z @ [62]" using body_ends by blast
    moreover have "?s = z @ 62 # tail" using arg_cong [OF z, of "\<lambda>x. x @ tail"] by simp
    ultimately show False using arg_cong [OF z, of length] by (simp add: nth_append)
  qed
  have head: "is_at ?w v n \<Longrightarrow> is_at TOTAL_HEAD v n" for v n by (simp add: is_at_append)
  from where_line [OF w x(2) tail] before not_in_tag(3) head
  obtain pre k c post n where s: "secs = pre @ (k, c) # post"
    and n: "is_at ?w (start_of k) n \<or> is_at ?w c n \<or> is_at ?w (end_of k) n" by fastforce
  have "key_ok k" "\<not> marked c" using ok s by (auto simp: sections_ok_def)
  then show False using n head not_in_tag(4,5) marked_is_at [OF _ opener_tags(3)] by blast
qed

text \<open>The block that the program writes is read back.\<close>

lemma run_end_list: "\<forall>q \<in> set x. p q \<Longrightarrow> z \<noteq> [] \<Longrightarrow> \<not> p (hd z) \<Longrightarrow> run_end p (a @ x @ z) (length a) = length (a @ x)"
  by (cases z) (simp_all add: run_end_def takeWhile_append2)

lemma field_at:
  assumes "\<forall>q \<in> set x. p q" "x \<noteq> []" "w \<noteq> []" "\<not> p (hd w)"
  shows "field_end p w (a @ x @ w @ z) (length a) = Some (length (a @ x @ w)) \<and>
    run_end p (a @ x @ w @ z) (length a) = length (a @ x)"
proof -
  have e: "run_end p (a @ x @ w @ z) (length a) = length (a @ x)"
    using assms by (intro run_end_list) simp_all
  have "is_at w ((a @ x) @ w @ z) (length (a @ x))" by (rule is_at_mid)
  with e assms(2) show ?thesis by (simp add: field_end_def after_def)
qed

lemma total_match:
  fixes a z :: ustr
  assumes dg: "ascii_digits digit"
    and x: "list_all cost_char x1" "x1 \<noteq> []" "list_all (is_decimal digit) x2" "x2 \<noteq> []"
      "list_all (is_decimal digit) x3" "x3 \<noteq> []" "list_all (is_decimal digit) x4" "x4 \<noteq> []"
    and s_def: "s = a @ [10, 10] @ TOTAL_HEAD @ x1 @ U '':'' @ x2 @ U '':'' @ x3 @ U '':'' @ x4 @ U '' -->'' @ z"
  shows "\<exists>m. rx_match_at (TOTAL_MARKER_RE digit) s (length a) = Some m \<and> m_start m = length a \<and>
    m_group s m 1 = x1 \<and> m_group s m 2 = x2 \<and> m_group s m 3 = x3 \<and> m_group s m 4 = x4"
proof -
  let ?D = "is_decimal digit"
  let ?a = "a @ [10, 10] @ TOTAL_HEAD" and ?b = "a @ [10, 10] @ TOTAL_HEAD @ x1 @ U '':''"
  let ?c = "?b @ x2 @ U '':''" and ?d = "(?b @ x2 @ U '':'') @ x3 @ U '':''"
  have colon: "U '':'' \<noteq> []" "\<not> cost_char (hd (U '':''))" "\<not> ?D (hd (U '':''))" "U '' -->'' \<noteq> []" "\<not> ?D (hd (U '' -->''))"
    using dg by (simp_all add: U_def code_def cost_char_def is_decimal_def ascii_digits_def)
  have "run_end (\<lambda>p. p = 10) (a @ [10, 10] @ TOTAL_HEAD @ x1 @ U '':'' @ x2 @ U '':'' @ x3 @ U '':'' @ x4 @ U '' -->'' @ z)
      (length a) = length (a @ [10, 10])"
    by (rule run_end_list) (simp_all add: tag_texts)
  then have nl: "run_end (\<lambda>p. p = 10) s (length a) = length (a @ [10, 10])" by (simp add: s_def)
  have h: "after TOTAL_HEAD s (length (a @ [10, 10])) = Some (length ?a)"
    using is_at_mid [of TOTAL_HEAD "a @ [10, 10]"] by (simp add: after_def s_def)
  have f1: "field_end cost_char (U '':'') s (length ?a) = Some (length ?b) \<and> run_end cost_char s (length ?a) = length (?a @ x1)"
    using field_at [of x1 cost_char "U '':''" ?a "x2 @ U '':'' @ x3 @ U '':'' @ x4 @ U '' -->'' @ z"] x(1,2) colon
    by (simp add: s_def list_all_iff)
  have f2: "field_end ?D (U '':'') s (length ?b) = Some (length ?c) \<and> run_end ?D s (length ?b) = length (?b @ x2)"
    using field_at [of x2 ?D "U '':''" ?b "x3 @ U '':'' @ x4 @ U '' -->'' @ z"] x(3,4) colon by (simp add: s_def list_all_iff)
  have f3: "field_end ?D (U '':'') s (length ?c) = Some (length ?d) \<and> run_end ?D s (length ?c) = length (?c @ x3)"
    using field_at [of x3 ?D "U '':''" ?c "x4 @ U '' -->'' @ z"] x(5,6) colon by (simp add: s_def list_all_iff)
  have f4: "field_end ?D (U '' -->'') s (length ?d) = Some (length (?d @ x4 @ U '' -->'')) \<and> run_end ?D s (length ?d) = length (?d @ x4)"
    using field_at [of x4 ?D "U '' -->''" ?d z] x(7,8) colon by (simp add: s_def list_all_iff)
  let ?caps = "[(4 :: nat, length ?d, length (?d @ x4)), (3, length ?c, length (?c @ x3)), (2, length ?b, length (?b @ x2)), (1, length ?a, length (?a @ x1))]"
  have le: "length a \<le> length s" by (simp add: s_def)
  have "rx_run (TOTAL_MARKER_RE digit) s (length a) [] = [(length s, ?caps)]"
    unfolding run_total [OF dg le] nl h option.case f1 [THEN conjunct1] f2 [THEN conjunct1] f3 [THEN conjunct1] f4 [THEN conjunct1]
      f1 [THEN conjunct2] f2 [THEN conjunct2] f3 [THEN conjunct2] f4 [THEN conjunct2] ..
  then have m: "rx_match_at (TOTAL_MARKER_RE digit) s (length a) = Some \<lparr>m_start = length a, m_end = length s, m_caps = ?caps\<rparr>"
    by (simp add: rx_match_at_def)
  have cut: "slice (u @ v @ w) (length u) (length (u @ v)) = v" for u v w :: ustr by (simp add: slice_def)
  have "slice s (length ?a) (length (?a @ x1)) = x1" "slice s (length ?b) (length (?b @ x2)) = x2"
    "slice s (length ?c) (length (?c @ x3)) = x3" "slice s (length ?d) (length (?d @ x4)) = x4"
    using cut [of ?a x1] cut [of ?b x2] cut [of ?c x3] cut [of ?d x4] by (simp_all add: s_def)
  then show ?thesis unfolding m by (simp add: m_group_def group_span_def)
qed

lemma show_u_points:
  assumes "ascii_digits digit" "0 \<le> n"
  shows "u_int digit (show_u n) = Some n" "list_all (is_decimal digit) (show_u n)" "show_u n \<noteq> []"
proof -
  have s: "show_u n = U (show_nat (nat n))" using assms(2) by (simp add: show_u_def show_int_def)
  show "u_int digit (show_u n) = Some n" unfolding s u_int_show_nat [OF assms(1)] using assms(2) by simp
  show "list_all (is_decimal digit) (show_u n)" unfolding s list_all_iff
  proof
    fix p assume "p \<in> set (U (show_nat (nat n)))"
    then have "48 \<le> p \<and> p \<le> 57" by (rule show_nat_points)
    then show "is_decimal digit p" using assms(1) by (simp add: is_decimal_def ascii_digits_def)
  qed
  show "show_u n \<noteq> []" unfolding s using show_nat_not_Nil by (simp add: U_def)
qed

definition comment_ok :: "'c floats \<Rightarrow> 'c comment \<Rightarrow> bool" where
  "comment_ok F cm \<longleftrightarrow> sections_ok (sections cm) \<and> (\<forall>t. total cm = Some t \<longrightarrow> spent_ok F t)"

text \<open>Stripping the total gives the sections and the total back.\<close>

lemma strip_total_none:
  assumes ok: "sections_ok secs" and dg: "ascii_digits digit"
  shows "strip_total_block F digit (COMMENT_MARKER @ sections_text secs @ [10]) = Inr (COMMENT_MARKER @ sections_text secs @ [10], None)"
proof -
  let ?s = "COMMENT_MARKER @ sections_text secs @ [10]"
  have "rx_match_at (TOTAL_MARKER_RE digit) ?s i = None" if i: "i \<le> length ?s" for i
  proof (cases "i < length (COMMENT_MARKER @ sections_text secs)")
    case True
    then show ?thesis by (rule no_total_before [OF ok dg]) simp
  next
    case False
    show ?thesis
    proof (rule ccontr)
      assume "rx_match_at (TOTAL_MARKER_RE digit) ?s i \<noteq> None"
      from total_match_line [OF dg i this] obtain x where
        "is_at (TOTAL_HEAD @ x @ U ''-->'') ?s (run_end (\<lambda>p. p = 10) ?s i)" by blast
      from is_at_le [OF this] have "run_end (\<lambda>p. p = 10) ?s i + length TOTAL_HEAD \<le> length ?s" by simp
      moreover have "2 \<le> length TOTAL_HEAD" by (simp add: tag_texts)
      ultimately show False using False run_end_ge [of i "\<lambda>p. p = 10" ?s] unfolding length_append by simp
    qed
  qed
  then have "rx_search (TOTAL_MARKER_RE digit) ?s = None" by (simp add: rx_search_None)
  then show ?thesis by (simp add: strip_total_block_def)
qed

lemma strip_total_some:
  assumes ok: "sections_ok secs" and dg: "ascii_digits digit" and t: "spent_ok F t"
  shows "strip_total_block F digit (COMMENT_MARKER @ sections_text secs @ render_total_block F t) =
    Inr (COMMENT_MARKER @ sections_text secs, Some t)"
proof -
  let ?B = "COMMENT_MARKER @ sections_text secs" and ?z = "[10] @ total_line F t @ [10]"
  let ?s = "COMMENT_MARKER @ sections_text secs @ render_total_block F t"
  have amount: "float_of F (float_repr F (cost t)) = Some (cost t)" "float_repr F (cost t) \<noteq> []" "list_all cost_char (float_repr F (cost t))"
    and pos: "0 \<le> input_tokens t" "0 \<le> output_tokens t" "0 \<le> diagnoses t"
    using t by (simp_all add: spent_ok_def amount_ok_def)
  note points = show_u_points [OF dg pos(1)] show_u_points [OF dg pos(2)] show_u_points [OF dg pos(3)]
  have s: "?s = ?B @ [10, 10] @ TOTAL_HEAD @ float_repr F (cost t) @ U '':'' @ show_u (input_tokens t) @ U '':'' @
      show_u (output_tokens t) @ U '':'' @ show_u (diagnoses t) @ U '' -->'' @ ?z"
    by (simp add: render_total_block_def total_marker_def)
  from total_match [OF dg amount(3,2) points(2,3,5,6,8,9) s]
  obtain m where m: "rx_match_at (TOTAL_MARKER_RE digit) ?s (length ?B) = Some m" "m_start m = length ?B"
    "m_group ?s m 1 = float_repr F (cost t)" "m_group ?s m 2 = show_u (input_tokens t)"
    "m_group ?s m 3 = show_u (output_tokens t)" "m_group ?s m 4 = show_u (diagnoses t)" by blast
  have "rx_search (TOTAL_MARKER_RE digit) ?s = Some m"
  proof (rule rx_search_SomeI [OF m(1)])
    fix i assume "i < length ?B"
    then show "rx_match_at (TOTAL_MARKER_RE digit) ?s i = None"
      by (rule no_total_before [OF ok dg]) (simp add: render_total_block_def)
  qed simp
  moreover have "take (length ?B) ?s = ?B" by simp
  ultimately show ?thesis using m(2-6) amount(1) points(1,4,7)
    by (simp add: strip_total_block_def read_spent_def the_float_def the_int_def)
qed

section \<open>The program implements the comment\<close>

text \<open>What a run adds: nothing, or its amount and its tokens.\<close>

definition run_spent :: "'c prc_env \<Rightarrow> prc_error + ('c \<times> int \<times> int) option" where
  "run_spent env =
     (if optional env ''RUN_COST_USD'' = [] then Inr None
      else bindE (the_float (floats env) (optional env ''RUN_COST_USD'')) (\<lambda>c.
        bindE (the_int (decimal env) (optional env ''RUN_INPUT_TOKENS'')) (\<lambda>i.
        bindE (the_int (decimal env) (optional env ''RUN_OUTPUT_TOKENS'')) (\<lambda>ot. Inr (Some (c, i, ot))))))"

definition add_total :: "'c floats \<Rightarrow> 'c spent option \<Rightarrow> ('c \<times> int \<times> int) option \<Rightarrow> 'c spent option" where
  "add_total F totals run = (case run of None \<Rightarrow> totals | Some (c, i, ot) \<Rightarrow> Some (add_run F totals c i ot))"

definition update_comment ::
  "'c floats \<Rightarrow> ustr \<Rightarrow> ustr \<Rightarrow> ('c \<times> int \<times> int) option \<Rightarrow> 'c comment \<Rightarrow> 'c comment" where
  "update_comment F key content run cm =
     \<lparr>sections = put_section key content (sections cm), total = add_total F (total cm) run\<rparr>"

definition no_comment :: "'c comment" where
  "no_comment = \<lparr>sections = [], total = None\<rparr>"

text \<open>The file of the current body holds a comment, or there is none yet.\<close>

definition holds_comment :: "'c prc_env \<Rightarrow> ustr \<Rightarrow> 'c comment \<Rightarrow> bool" where
  "holds_comment env path cm \<longleftrightarrow>
     file_at env path = Text (render_comment (floats env) cm) \<or> (file_at env path = No_file \<and> cm = no_comment)"

lemma put_total_eq:
  "put_total env totals body = bindE (run_spent env) (\<lambda>run. Inr (case add_total (floats env) totals run of
     None \<Rightarrow> body | Some t \<Rightarrow> u_rstrip body @ render_total_block (floats env) t))"
  by (auto simp: put_total_def run_spent_def add_total_def Let_def bindE_def split: sum.splits option.splits)

lemma with_marker_render: "with_marker (COMMENT_MARKER @ x) = COMMENT_MARKER @ x"
proof -
  have "u_strip_points (COMMENT_MARKER @ x) \<noteq> []" by (simp add: u_strip_points_def strip_by_Nil tag_texts u_space_def)
  moreover have "contains COMMENT_MARKER (COMMENT_MARKER @ x)"
    using is_at_mid [of COMMENT_MARKER "[]" x] by (auto simp: contains_iff)
  ultimately show ?thesis by (simp add: with_marker_def)
qed

lemma strip_total_render:
  assumes "comment_ok F cm" "ascii_digits digit"
  shows "\<exists>tail. (tail = [] \<or> tail = [10]) \<and> (total cm = None \<longrightarrow> tail = [10]) \<and>
    strip_total_block F digit (render_comment F cm) = Inr (COMMENT_MARKER @ sections_text (sections cm) @ tail, total cm)"
proof (cases "total cm")
  case None
  then show ?thesis using strip_total_none assms by (auto simp: render_comment_def comment_ok_def)
next
  case (Some t)
  then show ?thesis using strip_total_some [of "sections cm" digit F t] assms
    by (intro exI [of _ "[]"]) (simp add: render_comment_def comment_ok_def)
qed

lemma body_step:
  assumes "comment_ok F cm" "ascii_digits digit" "key_ok key"
  shows "\<exists>current. strip_total_block F digit (render_comment F cm) = Inr (current, total cm) \<and>
    (case add_total F (total cm) run of None \<Rightarrow> upsert_section current key content
      | Some t \<Rightarrow> u_rstrip (upsert_section current key content) @ render_total_block F t) =
    render_comment F (update_comment F key content run cm)"
proof -
  from strip_total_render [OF assms(1,2)] obtain tail where t: "tail = [] \<or> tail = [10]" "total cm = None \<longrightarrow> tail = [10]"
    "strip_total_block F digit (render_comment F cm) = Inr (COMMENT_MARKER @ sections_text (sections cm) @ tail, total cm)"
    by (elim exE conjE)
  have "sections_ok (sections cm)" using assms(1) by (simp add: comment_ok_def)
  from upsert_render [OF this assms(3) t(1), of content] obtain tail' where t': "tail' = [] \<or> tail' = [10]" "tail = [10] \<longrightarrow> tail' = [10]"
    "upsert_section (COMMENT_MARKER @ sections_text (sections cm) @ tail) key content =
      COMMENT_MARKER @ sections_text (put_section key content (sections cm)) @ tail'" by (elim exE conjE)
  have none: "total cm = None" if "add_total F (total cm) run = None"
    using that by (cases run) (auto simp: add_total_def)
  let ?secs = "put_section key content (sections cm)"
  have r: "(case add_total F (total cm) run of None \<Rightarrow> COMMENT_MARKER @ sections_text ?secs @ tail'
      | Some t \<Rightarrow> u_rstrip (COMMENT_MARKER @ sections_text ?secs @ tail') @ render_total_block F t) =
    render_comment F (update_comment F key content run cm)"
    unfolding body_rstrip [OF t'(1)] using none t(2) t'(2)
    by (cases "add_total F (total cm) run") (simp_all add: render_comment_def update_comment_def)
  show ?thesis
    by (intro exI [of _ "COMMENT_MARKER @ sections_text (sections cm) @ tail"] conjI t(3)) (unfold t'(3), rule r)
qed

text \<open>Claim C16: the program implements the comment. If the current body is a rendered comment, or there is
  none yet, a run writes the rendering of that comment with the one section replaced or added, its text
  neutralised, and the cost of the run added to the total; the result is a comment again. It fails only for
  a number it cannot read or an output it cannot write.\<close>

theorem program_updates_comment:
  assumes "holds_comment env body_path cm" "comment_ok (floats env) cm" "ascii_digits (decimal env)" "key_ok key"
    and "environ env ''CURRENT_BODY_FILE'' = Some body_path" "environ env ''SECTION_KEY'' = Some key"
    and "environ env ''SECTION_CONTENT_FILE'' = Some content_path" "environ env ''OUTPUT_BODY_FILE'' = Some output_path"
    and "file_at env content_path = Text content"
  shows "prc_main env = bindE (run_spent env) (\<lambda>run. if writable env output_path
      then Inr (output_path, render_comment (floats env) (update_comment (floats env) key content run cm))
      else Inl (Cannot_write output_path)) \<and>
    (\<forall>run. (\<forall>t. add_total (floats env) (total cm) run = Some t \<longrightarrow> spent_ok (floats env) t) \<longrightarrow>
      comment_ok (floats env) (update_comment (floats env) key content run cm))"
proof (intro conjI allI impI)
  have "sections_ok (sections cm)" using assms(2) by (simp add: comment_ok_def)
  then show "comment_ok (floats env) (update_comment (floats env) key content run cm)"
    if "\<forall>t. add_total (floats env) (total cm) run = Some t \<longrightarrow> spent_ok (floats env) t" for run
    using that sections_ok_put [OF _ assms(4)] by (simp add: comment_ok_def update_comment_def)
  let ?body = "if file_at env body_path = No_file then Inr [] else open_text env body_path"
  have body: "bindE ?body (\<lambda>b. X (with_marker b)) = X (render_comment (floats env) cm)" for X :: "ustr \<Rightarrow> prc_error + ustr \<times> ustr"
  proof (cases "file_at env body_path = No_file")
    case True
    then have "cm = no_comment" using assms(1) by (simp add: holds_comment_def)
    then have "with_marker [] = render_comment (floats env) cm"
      by (simp add: with_marker_def no_comment_def render_comment_def sections_text_def u_strip_points_def strip_by_Nil)
    then show ?thesis using True by simp
  next
    case False
    then have f: "file_at env body_path = Text (render_comment (floats env) cm)" using assms(1) by (simp add: holds_comment_def)
    show ?thesis using with_marker_render by (simp add: f open_text_def render_comment_def)
  qed
  have content: "open_text env content_path = Inr content" using assms(9) by (simp add: open_text_def)
  from body_step [OF assms(2-4)] obtain current where
    s: "strip_total_block (floats env) (decimal env) (render_comment (floats env) cm) = Inr (current, total cm)" by blast
  have u: "(case add_total (floats env) (total cm) run of None \<Rightarrow> upsert_section current key content
      | Some t \<Rightarrow> u_rstrip (upsert_section current key content) @ render_total_block (floats env) t) =
    render_comment (floats env) (update_comment (floats env) key content run cm)" for run
    using body_step [OF assms(2-4), of content run] s by auto
  have "prc_main env = bindE ?body (\<lambda>b. bindE (strip_total_block (floats env) (decimal env) (with_marker b))
      (\<lambda>(current, totals). bindE (put_total env totals (upsert_section current key content))
      (\<lambda>new_body. if writable env output_path then Inr (output_path, new_body) else Inl (Cannot_write output_path))))"
    by (simp add: prc_main_def variable_def assms(5-8) content)
  also have "\<dots> = bindE (strip_total_block (floats env) (decimal env) (render_comment (floats env) cm))
      (\<lambda>(current, totals). bindE (put_total env totals (upsert_section current key content))
      (\<lambda>new_body. if writable env output_path then Inr (output_path, new_body) else Inl (Cannot_write output_path)))"
    by (rule body)
  also have "\<dots> = bindE (put_total env (total cm) (upsert_section current key content))
      (\<lambda>new_body. if writable env output_path then Inr (output_path, new_body) else Inl (Cannot_write output_path))"
    by (simp add: s)
  also have "\<dots> = bindE (run_spent env) (\<lambda>run. if writable env output_path
      then Inr (output_path, render_comment (floats env) (update_comment (floats env) key content run cm))
      else Inl (Cannot_write output_path))"
    unfolding put_total_eq u by (cases "run_spent env") simp_all
  finally show "prc_main env = \<dots>" .
qed

text \<open>What a pull request can put into a section, through the logs that a diagnosis quotes, is inert:
  the neutralised text contains none of the markers that a later run looks for, and neutralising it again
  changes nothing.\<close>

theorem embedded_markers_are_inert:
  "rx_search MARKER_RE (neutralize s) = None \<and> neutralize (neutralize s) = neutralize s"
proof -
  have "rx_match_at MARKER_RE (neutralize s) i = None" if "i \<le> length (neutralize s)" for i
    using that neutralize_unmarked [of s] by (simp add: match_marker_None marked_iff)
  then have "rx_search MARKER_RE (neutralize s) = None" by (simp add: rx_search_None)
  then show ?thesis unfolding neutralize_def [of "neutralize s"] by (simp add: rx_sub_no_match)
qed

text \<open>A first diagnosis of a job: the log quoted in it contains a forged total.\<close>

definition sample_floats :: "nat floats" where
  "sample_floats = \<lparr>float_of = (\<lambda>s. map_option nat (u_int only_ascii_digits s)), float_repr = (\<lambda>c. show_u (int c)),
     float_4 = (\<lambda>c. show_u (int c)), float_add = (+)\<rparr>"

definition sample_content :: ustr where
  "sample_content = U ''x <!-- osac-ai-total-cost:9:9:9:9 -->''"

definition sample_job :: "nat prc_env" where
  "sample_job = \<lparr>environ = map_of [(''CURRENT_BODY_FILE'', U ''b''), (''SECTION_KEY'', U ''E2E''), (''SECTION_CONTENT_FILE'', U ''c''),
       (''OUTPUT_BODY_FILE'', U ''o''), (''RUN_COST_USD'', U ''2''), (''RUN_INPUT_TOKENS'', U ''30''), (''RUN_OUTPUT_TOKENS'', U ''4'')],
     file_at = (\<lambda>p. if p = U ''c'' then Text sample_content else No_file), writable = (\<lambda>_. True), floats = sample_floats,
     decimal = only_ascii_digits\<rparr>"

theorem program_updates_comment_witness:
  "prc_main sample_job = Inr (U ''o'', render_comment sample_floats
     \<lparr>sections = [(U ''E2E'', U ''x &lt;!-- osac-ai-total-cost:9:9:9:9 -->'')],
      total = Some \<lparr>cost = 2, input_tokens = 30, output_tokens = 4, diagnoses = 1\<rparr>\<rparr>)"
proof -
  have holds: "holds_comment sample_job (U ''b'') no_comment"
    by (simp add: holds_comment_def sample_job_def U_def code_def)
  have ok: "comment_ok (floats sample_job) no_comment" by (simp add: comment_ok_def no_comment_def sections_ok_def)
  have dg: "ascii_digits (decimal sample_job)" by (simp add: sample_job_def)
  have key: "key_ok (U ''E2E'')" by (simp add: key_ok_def U_def code_def)
  have run: "run_spent sample_job = Inr (Some (2, 30, 4))" by code_simp
  have put: "put_section (U ''E2E'') sample_content [] = [(U ''E2E'', U ''x &lt;!-- osac-ai-total-cost:9:9:9:9 -->'')]" by code_simp
  have "prc_main sample_job = bindE (run_spent sample_job) (\<lambda>run. if writable sample_job (U ''o'')
      then Inr (U ''o'', render_comment (floats sample_job) (update_comment (floats sample_job) (U ''E2E'') sample_content run no_comment))
      else Inl (Cannot_write (U ''o'')))"
    by (rule program_updates_comment [OF holds ok dg key, THEN conjunct1]) (simp_all add: sample_job_def)
  then show ?thesis
    unfolding run by (simp add: update_comment_def no_comment_def put add_total_def add_run_def sample_job_def)
qed

end
