(* ===== verification/NetrisCleanup.thy ===== *)
theory NetrisCleanup
  imports Prelude PyDyn PyStr
begin

text \<open>
  \<^verbatim>\<open>infra/netris/roles/force-destroy-caas/files/netris_orphan_cleanup.py\<close>: deleting what a destroyed test
  cluster left behind in the Netris controller: NAT rules, server clusters, V-Nets and VPCs of named
  orders.

  The controller behind \<open>curl\<close> and the cluster behind \<open>oc\<close> are the parameter \<open>ext\<close>, which answers in a
  world of any type \<open>'w\<close>; \<open>None\<close> is a command that fails. The state keeps the world and the log of calls
  with their answers. \<open>nc_loads\<close> is \<open>json.loads\<close>, \<open>nc_repr\<close> is \<open>str\<close> of a value that is no text, integer,
  truth value or \<open>None\<close>. Python's sets are lists in the order of insertion.
\<close>

section \<open>Calls and state\<close>

datatype nc_call =
    Login json
  | Get string            \<comment> \<open>\<open>GET\<close> of a path\<close>
  | Delete string
  | OcGet string          \<comment> \<open>\<open>oc get <resource> -A -o json\<close>\<close>

datatype nc_exn =
    Refused               \<comment> \<open>\<open>SystemExit\<close> with a message\<close>
  | Crash                 \<comment> \<open>any other exception\<close>

record 'w nc_state =
  nc_world :: 'w
  nc_log :: "(nc_call \<times> string option) list"

record nc_lib =
  nc_loads :: "string \<Rightarrow> json option"
  nc_repr :: "json \<Rightarrow> string"

type_synonym ('w, 'a) nc = "('w nc_state, nc_exn, 'a) prog"
type_synonym 'w nc_ext = "'w \<Rightarrow> nc_call \<Rightarrow> string option \<times> 'w"

definition nc_issue :: "'w nc_ext \<Rightarrow> nc_call \<Rightarrow> ('w, string option) nc" where
  "nc_issue ext c st =
     (case ext (nc_world st) c of (r, w) \<Rightarrow> (Inr r, st\<lparr>nc_world := w, nc_log := nc_log st @ [(c, r)]\<rparr>))"

definition check_output :: "'w nc_ext \<Rightarrow> nc_call \<Rightarrow> ('w, string) nc" where
  "check_output ext c = bindP (nc_issue ext c) (\<lambda>r. case r of None \<Rightarrow> raise Crash | Some out \<Rightarrow> ret out)"

definition ncpy :: "py_error + 'a \<Rightarrow> ('w, 'a) nc" where
  "ncpy r = (case r of Inl e \<Rightarrow> raise Crash | Inr x \<Rightarrow> ret x)"

section \<open>The API\<close>

text \<open>\<open>s.rpartition(p)\<close>: the parts before and after the last occurrence.\<close>

definition rpart :: "string \<Rightarrow> string \<Rightarrow> string \<times> string" where
  "rpart p s = (case List.find (is_at p s) (rev [0..<Suc (length s)]) of
       None \<Rightarrow> ([], s)
     | Some i \<Rightarrow> (take i s, drop (i + length p) s))"

definition code_and_body :: "string \<Rightarrow> string \<times> string" where
  "code_and_body out = (strip (snd (rpart ''HTTP:'' out)), fst (rpart ''HTTP:'' out))"

definition curl :: "'w nc_ext \<Rightarrow> nc_call \<Rightarrow> ('w, string \<times> string) nc" where
  "curl ext c = bindP (check_output ext c) (\<lambda>out. ret (code_and_body out))"

text \<open>What \<open>get_list\<close> makes of an answer.\<close>

definition listed :: "nc_lib \<Rightarrow> string \<Rightarrow> nc_exn + json list" where
  "listed lib out = (case code_and_body out of (status, body) \<Rightarrow>
     if status \<noteq> ''200'' then Inl Refused
     else (case nc_loads lib body of
         None \<Rightarrow> Inl Crash
       | Some (JObj kvs) \<Rightarrow>
           if \<not> truthy (obj_get kvs ''isSuccess'') then Inl Refused
           else (case obj_get kvs ''data'' of JArr items \<Rightarrow> Inr items | _ \<Rightarrow> Inl Refused)
       | Some _ \<Rightarrow> Inl Crash))"

definition get_list :: "nc_lib \<Rightarrow> 'w nc_ext \<Rightarrow> string \<Rightarrow> ('w, json list) nc" where
  "get_list lib ext path = bindP (check_output ext (Get path)) (\<lambda>out. liftP (listed lib out))"

text \<open>The text of a value in a path.\<close>

definition fmt :: "nc_lib \<Rightarrow> json \<Rightarrow> string" where
  "fmt lib = d_text (nc_repr lib)"

section \<open>Targets\<close>

definition should_delete :: "string list \<Rightarrow> json \<Rightarrow> bool" where
  "should_delete force name = (case name of JStr s \<Rightarrow> starts_with ''order-'' s \<and> s \<in> set force | _ \<Rightarrow> False)"

definition target_cluster :: "string list \<Rightarrow> json \<Rightarrow> py_error + bool" where
  "target_cluster force c = bindE (d_get c ''name'') (\<lambda>n. Inr (should_delete force n))"

definition kept_name :: "json \<Rightarrow> bool" where
  "kept_name n \<longleftrightarrow> n = JStr ''Default'' \<or> n = JStr ''ocp-sno''"

definition target_vpc :: "string list \<Rightarrow> json \<Rightarrow> py_error + bool" where
  "target_vpc force v = bindE (d_get v ''name'') (\<lambda>n.
     if \<not> should_delete force n then Inr False
     else bindE (d_get v ''isSystem'') (\<lambda>sys. bindE (d_get v ''isDefault'') (\<lambda>def.
       Inr (\<not> truthy sys \<and> \<not> truthy def \<and> \<not> kept_name n))))"

fun filterE :: "('a \<Rightarrow> 'e + bool) \<Rightarrow> 'a list \<Rightarrow> 'e + 'a list" where
  "filterE f [] = Inr []"
| "filterE f (x # xs) = bindE (f x) (\<lambda>b. bindE (filterE f xs) (\<lambda>ys. Inr (if b then x # ys else ys)))"

record nc_scope =
  orphan_names :: "json list"
  orphan_vpc_ids :: "json list"
  nat_orders :: "string list"

definition add_vpc_id :: "json list \<Rightarrow> json \<Rightarrow> py_error + json list" where
  "add_vpc_id ids v = bindE (d_get v ''id'') (\<lambda>i. if i = JNull then Inr ids else bindE (hashable i) (\<lambda>i. Inr (ids @ [i])))"

definition add_cluster :: "json list \<times> json list \<Rightarrow> json \<Rightarrow> py_error + json list \<times> json list" where
  "add_cluster acc c =
     bindE (d_get c ''vpc'') (\<lambda>v. let vpc = d_or v (JObj []) in
     bindE (add_vpc_id (snd acc) vpc) (\<lambda>ids.
     bindE (d_get vpc ''name'') (\<lambda>n.
       if truthy n then bindE (hashable n) (\<lambda>n. Inr (fst acc @ [n], ids)) else Inr (fst acc, ids))))"

definition orders_of :: "string list \<Rightarrow> string \<Rightarrow> string list" where
  "orders_of force orphan = force @ (if orphan = [] then [] else [orphan])"

definition the_scope :: "string list \<Rightarrow> string \<Rightarrow> json list \<Rightarrow> json list \<Rightarrow> py_error + nc_scope" where
  "the_scope force orphan targets_sc targets_vpc =
     bindE (mapE (\<lambda>c. d_get c ''name'') (targets_sc @ targets_vpc)) (\<lambda>names.
     bindE (foldE add_vpc_id [] targets_vpc) (\<lambda>ids.
     bindE (foldE add_cluster (names @ map JStr force, ids) targets_sc) (\<lambda>(names, ids).
       Inr \<lparr>orphan_names = names, orphan_vpc_ids = ids,
            nat_orders = orders_of force orphan\<rparr>)))"

definition in_orders :: "string list \<Rightarrow> string \<Rightarrow> bool" where
  "in_orders orders name \<longleftrightarrow> list_ex (\<lambda>ord. starts_with (ord @ ''-'') name) orders"

definition vpc_hit :: "nc_scope \<Rightarrow> json \<Rightarrow> py_error + bool" where
  "vpc_hit sc item = bindE (d_get item ''vpc'') (\<lambda>v. let vpc = d_or v (JObj []) in
     bindE (d_get vpc ''id'') (\<lambda>i. bindE (hashable i) (\<lambda>i.
       if member i (orphan_vpc_ids sc) then Inr True
       else bindE (d_get vpc ''name'') (\<lambda>n. bindE (hashable n) (\<lambda>n. Inr (member n (orphan_names sc)))))))"

definition nat_hit :: "nc_scope \<Rightarrow> json \<Rightarrow> py_error + bool" where
  "nat_hit sc n = bindE (d_get n ''name'') (\<lambda>nm.
     if nat_orders sc = [] then vpc_hit sc n
     else (case d_or nm (JStr []) of
         JStr s \<Rightarrow> if in_orders (nat_orders sc) s then Inr True else vpc_hit sc n
       | _ \<Rightarrow> Inl AttrErr))"

text \<open>\<open>any(o and o in name for o in orphan_names)\<close>\<close>

definition py_in :: "json \<Rightarrow> json \<Rightarrow> py_error + bool" where
  "py_in x name = (case name of
       JStr s \<Rightarrow> (case x of JStr t \<Rightarrow> Inr (contains t s) | _ \<Rightarrow> Inl TypeErr)
     | JArr js \<Rightarrow> Inr (member x js)
     | JObj kvs \<Rightarrow> Inr (x \<in> JStr ` fst ` set kvs)
     | _ \<Rightarrow> Inl TypeErr)"

fun any_in :: "json list \<Rightarrow> json \<Rightarrow> py_error + bool" where
  "any_in [] name = Inr False"
| "any_in (x # xs) name =
     (if \<not> truthy x then any_in xs name
      else bindE (py_in x name) (\<lambda>b. if b then Inr True else any_in xs name))"

definition vnet_hit :: "nc_scope \<Rightarrow> json \<Rightarrow> py_error + bool" where
  "vnet_hit sc vn = bindE (d_get vn ''name'') (\<lambda>nm.
     bindE (any_in (orphan_names sc) (d_or nm (JStr []))) (\<lambda>b. if b then Inr True else vpc_hit sc vn))"

section \<open>Deleting\<close>

text \<open>One loop: delete the items that \<open>hit\<close> selects; an answer other than 2xx, or 404 where that is accepted,
  ends the program.\<close>

definition delete_one :: "nc_lib \<Rightarrow> 'w nc_ext \<Rightarrow> string \<Rightarrow> bool \<Rightarrow> (json \<Rightarrow> py_error + bool) \<Rightarrow> nat \<Rightarrow> json \<Rightarrow> ('w, nat) nc" where
  "delete_one lib ext path gone_ok hit deleted item =
     bindP (ncpy (hit item)) (\<lambda>h.
     if \<not> h then ret deleted
     else bindP (ncpy (d_get item ''id'')) (\<lambda>i.
       bindP (curl ext (Delete (path @ ''/'' @ fmt lib i))) (\<lambda>(status, body).
       if starts_with ''2'' status \<or> (gone_ok \<and> status = ''404'') then ret (Suc deleted) else raise Refused)))"

definition delete_items ::
  "nc_lib \<Rightarrow> 'w nc_ext \<Rightarrow> string \<Rightarrow> bool \<Rightarrow> (json \<Rightarrow> py_error + bool) \<Rightarrow> json list \<Rightarrow> nat \<Rightarrow> ('w, nat) nc" where
  "delete_items lib ext path gone_ok hit items deleted = foldP (delete_one lib ext path gone_ok hit) deleted items"

text \<open>The names of the orders that are still in use; a name that is not hashable is an error.\<close>

definition order_names :: "nc_lib \<Rightarrow> string \<Rightarrow> nc_exn + json list" where
  "order_names lib out = (case nc_loads lib out of
       None \<Rightarrow> Inl Crash
     | Some doc \<Rightarrow> (case bindE (bindE (d_key doc ''items'') d_items)
           (mapE (\<lambda>item. bindE (bindE (d_key item ''metadata'') (\<lambda>m. d_key m ''name'')) hashable)) of
         Inl e \<Rightarrow> Inl Crash
       | Inr names \<Rightarrow> Inr names))"

definition active_orders :: "nc_lib \<Rightarrow> 'w nc_ext \<Rightarrow> ('w, json list) nc" where
  "active_orders lib ext =
     bindP (check_output ext (OcGet ''clusterorders'')) (\<lambda>a. bindP (liftP (order_names lib a)) (\<lambda>xs.
     bindP (check_output ext (OcGet ''hostedclusters'')) (\<lambda>b. bindP (liftP (order_names lib b)) (\<lambda>ys. ret (xs @ ys)))))"

definition refuse_active :: "nc_lib \<Rightarrow> 'w nc_ext \<Rightarrow> string \<Rightarrow> ('w, unit) nc" where
  "refuse_active lib ext orphan =
     (if orphan = [] then ret ()
      else bindP (active_orders lib ext) (\<lambda>names. if JStr orphan \<in> set names then raise Refused else ret ()))"

text \<open>The NAT rules of the orders that are left: \<open>n.get("name", "")\<close> of each must be a text.\<close>

definition still_there :: "string list \<Rightarrow> json \<Rightarrow> py_error + bool" where
  "still_there orders n = (case n of
       JObj kvs \<Rightarrow> (case map_of kvs ''name'' of
           None \<Rightarrow> Inr (in_orders orders [])
         | Some (JStr s) \<Rightarrow> Inr (in_orders orders s)
         | Some _ \<Rightarrow> if orders = [] then Inr False else Inl AttrErr)
     | _ \<Rightarrow> if orders = [] then Inr False else Inl AttrErr)"

definition SC :: string where "SC = ''/api/v2/server-cluster''"
definition VPC :: string where "VPC = ''/api/v2/vpc''"
definition NAT :: string where "NAT = ''/api/v2/nat''"
definition VNET :: string where "VNET = ''/api/v2/vnet''"

definition vpc_again :: "string list \<Rightarrow> json \<Rightarrow> py_error + bool" where
  "vpc_again force v = bindE (d_get v ''name'') (\<lambda>nm. let name = d_or nm (JStr []) in
     if \<not> should_delete force name then Inr False
     else bindE (d_get v ''isSystem'') (\<lambda>sys. bindE (d_get v ''isDefault'') (\<lambda>def.
       Inr (\<not> truthy sys \<and> \<not> truthy def \<and> \<not> kept_name name))))"

definition check_done :: "nc_lib \<Rightarrow> 'w nc_ext \<Rightarrow> string list \<Rightarrow> ('w, unit) nc" where
  "check_done lib ext orders =
     bindP (get_list lib ext NAT) (\<lambda>nats. bindP (ncpy (filterE (still_there orders) nats)) (\<lambda>remaining.
     if remaining \<noteq> [] then raise Refused else ret ()))"

definition remove_orders :: "nc_lib \<Rightarrow> 'w nc_ext \<Rightarrow> string list \<Rightarrow> string \<Rightarrow> ('w, nat) nc" where
  "remove_orders lib ext force orphan =
     bindP (get_list lib ext SC) (\<lambda>scs.
     bindP (get_list lib ext VPC) (\<lambda>vpcs.
     bindP (get_list lib ext NAT) (\<lambda>nats.
     thenP (refuse_active lib ext orphan)
    (bindP (ncpy (filterE (target_cluster force) scs)) (\<lambda>targets_sc.
     bindP (ncpy (filterE (target_vpc force) vpcs)) (\<lambda>targets_vpc.
     bindP (ncpy (the_scope force orphan targets_sc targets_vpc)) (\<lambda>sc.
     bindP (delete_items lib ext NAT True (nat_hit sc) nats 0) (\<lambda>n1.
     bindP (delete_items lib ext SC False (\<lambda>_. Inr True) targets_sc n1) (\<lambda>n2.
     bindP (get_list lib ext VNET) (\<lambda>vnets.
     bindP (delete_items lib ext VNET True (vnet_hit sc) vnets n2) (\<lambda>n3.
     bindP (get_list lib ext VPC) (\<lambda>vpcs'.
     bindP (delete_items lib ext VPC False (vpc_again force) vpcs' n3) (\<lambda>n4.
     thenP (check_done lib ext (nat_orders sc)) (ret n4))))))))))))))"

section \<open>The program\<close>

definition order_name :: "string \<Rightarrow> bool" where
  "order_name s \<longleftrightarrow> starts_with ''order-'' s \<and> 6 < length s \<and>
     list_all (\<lambda>c. in_range (CHR ''a'') (CHR ''z'') c \<or> in_range (CHR ''0'') (CHR ''9'') c) (drop 6 s)"

definition login_body :: "string \<Rightarrow> string \<Rightarrow> json" where
  "login_body user password = JObj [(''user'', JStr user), (''password'', JStr password), (''auth_scheme_id'', JInt 1)]"

text \<open>The targeted orders and the orphan of the arguments after the first four.\<close>

definition forced :: "string list \<Rightarrow> string list" where
  "forced arguments = filter (\<lambda>x. x \<noteq> []) (take (length arguments - 2) arguments)"

text \<open>\<open>argv\<close> without the name of the program; the result is the number of deletions.\<close>

definition cleanup_main :: "nc_lib \<Rightarrow> 'w nc_ext \<Rightarrow> string list \<Rightarrow> ('w, nat) nc" where
  "cleanup_main lib ext argv =
     (if length argv < 4 then raise Crash
      else let arguments = drop 4 argv in
        if length arguments < 2 \<or> arguments ! (length arguments - 2) \<noteq> ''--orphan-nat-order'' then raise Refused
        else let force = forced arguments; orphan = last arguments in
          if orphan \<noteq> [] \<and> \<not> order_name orphan then raise Refused
          else if force = [] \<and> orphan = [] then raise Refused
          else bindP (check_output ext (Login (login_body (argv ! 2) (argv ! 3)))) (\<lambda>_. remove_orders lib ext force orphan))"

section \<open>What may be deleted\<close>

text \<open>Said without the program's own sets: the targeted clusters and VPCs are those that a listing showed, a
  resource is tied to a target by the id or the name of its VPC, and a deletion is justified by an item of
  an earlier listing that is in the scope of the orders.\<close>

type_synonym nc_events = "(nc_call \<times> string option) set"

definition shown :: "nc_lib \<Rightarrow> nc_events \<Rightarrow> string \<Rightarrow> json \<Rightarrow> bool" where
  "shown lib es path item \<longleftrightarrow> (\<exists>q items. (Get path, Some q) \<in> es \<and> listed lib q = Inr items \<and> item \<in> set items)"

definition field :: "string \<Rightarrow> json \<Rightarrow> json" where
  "field k item = (case jget item k of None \<Rightarrow> JNull | Some v \<Rightarrow> v)"

definition owned_ids :: "nc_lib \<Rightarrow> string list \<Rightarrow> nc_events \<Rightarrow> json set" where
  "owned_ids lib force es =
     ({field ''id'' v | v. shown lib es VPC v \<and> target_vpc force v = Inr True} \<union>
      {field ''id'' (field ''vpc'' c) | c. shown lib es SC c \<and> target_cluster force c = Inr True}) - {JNull}"

definition owned_names :: "nc_lib \<Rightarrow> string list \<Rightarrow> nc_events \<Rightarrow> json set" where
  "owned_names lib force es = JStr ` set force \<union>
     {field ''name'' (field ''vpc'' c) | c. shown lib es SC c \<and> target_cluster force c = Inr True} - {JNull}"

definition tied :: "nc_lib \<Rightarrow> string list \<Rightarrow> nc_events \<Rightarrow> json \<Rightarrow> bool" where
  "tied lib force es item \<longleftrightarrow>
     py_key (field ''id'' (field ''vpc'' item)) \<in> py_key ` owned_ids lib force es \<or>
     py_key (field ''name'' (field ''vpc'' item)) \<in> py_key ` owned_names lib force es"

definition in_scope :: "nc_lib \<Rightarrow> string list \<Rightarrow> string \<Rightarrow> nc_events \<Rightarrow> string \<Rightarrow> json \<Rightarrow> bool" where
  "in_scope lib force orphan es path item \<longleftrightarrow>
     (path = VPC \<and> target_vpc force item = Inr True) \<or>
     (path = SC \<and> target_cluster force item = Inr True) \<or>
     (path = NAT \<and> ((\<exists>s. field ''name'' item = JStr s \<and> in_orders (orders_of force orphan) s) \<or> tied lib force es item)) \<or>
     (path = VNET \<and> ((\<exists>x \<in> owned_names lib force es. truthy x \<and> py_in x (d_or (field ''name'' item) (JStr [])) = Inr True)
        \<or> tied lib force es item))"

definition deletion_ok :: "nc_lib \<Rightarrow> string list \<Rightarrow> string \<Rightarrow> nc_events \<Rightarrow> nc_call \<Rightarrow> bool" where
  "deletion_ok lib force orphan es c \<longleftrightarrow> (\<forall>p. c = Delete p \<longrightarrow>
     (\<exists>path item. shown lib es path item \<and> p = path @ ''/'' @ fmt lib (field ''id'' item) \<and>
        in_scope lib force orphan es path item))"

text \<open>Every call of a log is right after the calls before it.\<close>

definition each_call :: "(nc_events \<Rightarrow> nc_call \<Rightarrow> bool) \<Rightarrow> (nc_call \<times> string option) list \<Rightarrow> bool" where
  "each_call A log \<longleftrightarrow> (\<forall>i < length log. A (set (take i log)) (fst (log ! i)))"

lemma each_call_Nil [simp]: "each_call A []"
  by (simp add: each_call_def)

lemma each_call_snoc: "each_call A (log @ [e]) \<longleftrightarrow> each_call A log \<and> A (set log) (fst e)"
  by (auto simp: each_call_def All_less_Suc nth_append)

abbreviation justified :: "nc_lib \<Rightarrow> string list \<Rightarrow> string \<Rightarrow> (nc_call \<times> string option) list \<Rightarrow> bool" where
  "justified lib force orphan \<equiv> each_call (deletion_ok lib force orphan)"

lemma shown_mono: "shown lib es path item \<Longrightarrow> es \<subseteq> fs \<Longrightarrow> shown lib fs path item"
  unfolding shown_def by blast

lemma owned_mono:
  assumes "es \<subseteq> fs"
  shows "owned_ids lib force es \<subseteq> owned_ids lib force fs" "owned_names lib force es \<subseteq> owned_names lib force fs"
  using shown_mono [OF _ assms] unfolding owned_ids_def owned_names_def by blast+

lemma tied_mono: "tied lib force es item \<Longrightarrow> es \<subseteq> fs \<Longrightarrow> tied lib force fs item"
  using owned_mono [of es fs lib force] unfolding tied_def by blast

lemma in_scope_mono: "in_scope lib force orphan es path item \<Longrightarrow> es \<subseteq> fs \<Longrightarrow> in_scope lib force orphan fs path item"
  using tied_mono [of lib force es item fs] owned_mono(2) [of es fs lib force] unfolding in_scope_def by blast

section \<open>The deletions of a run\<close>

text \<open>The log is justified so far, and the events \<open>ks\<close> have happened.\<close>

definition nc_known :: "nc_lib \<Rightarrow> string list \<Rightarrow> string \<Rightarrow> nc_events \<Rightarrow> 'w nc_state \<Rightarrow> bool" where
  "nc_known lib force orphan ks s \<longleftrightarrow> justified lib force orphan (nc_log s) \<and> ks \<subseteq> set (nc_log s)"

lemma hoare_output:
  assumes "\<And>p. c \<noteq> Delete p"
  shows "hoare (nc_known lib force orphan ks) (check_output ext c)
    (\<lambda>out. nc_known lib force orphan (insert (c, Some out) ks)) (\<lambda>_. nc_known lib force orphan ks)"
  unfolding check_output_def
proof (rule hoare_bind)
  show "hoare (nc_known lib force orphan ks) (nc_issue ext c) (\<lambda>r. nc_known lib force orphan (insert (c, r) ks))
      (\<lambda>_. nc_known lib force orphan ks)"
    using assms by (auto simp: hoare_def nc_issue_def nc_known_def each_call_snoc deletion_ok_def split: prod.split)
  show "hoare (nc_known lib force orphan (insert (c, r) ks)) (case r of None \<Rightarrow> raise Crash | Some out \<Rightarrow> ret out)
      (\<lambda>out. nc_known lib force orphan (insert (c, Some out) ks)) (\<lambda>_. nc_known lib force orphan ks)" for r
    by (cases r) (auto simp: hoare_def nc_known_def)
qed

lemma nc_known_weaken: "nc_known lib force orphan ks s \<Longrightarrow> ks' \<subseteq> ks \<Longrightarrow> nc_known lib force orphan ks' s"
  by (auto simp: nc_known_def)

lemma hoare_ncpy: "hoare P (ncpy r) (\<lambda>x s. r = Inr x \<and> P s) (\<lambda>_. P)"
  by (auto simp: hoare_def ncpy_def split: sum.splits)

lemma hoare_liftP_eq: "hoare P (liftP r) (\<lambda>x s. r = Inr x \<and> P s) (\<lambda>_. P)"
  by (auto simp: hoare_def split: sum.splits)

lemma hoare_get_list:
  "hoare (nc_known lib force orphan ks) (get_list lib ext path)
    (\<lambda>items s. \<exists>q. listed lib q = Inr items \<and> nc_known lib force orphan (insert (Get path, Some q) ks) s)
    (\<lambda>_. nc_known lib force orphan ks)"
  unfolding get_list_def
proof (rule hoare_bind [OF hoare_output])
  show "hoare (nc_known lib force orphan (insert (Get path, Some out) ks)) (liftP (listed lib out))
      (\<lambda>items s. \<exists>q. listed lib q = Inr items \<and> nc_known lib force orphan (insert (Get path, Some q) ks) s)
      (\<lambda>_. nc_known lib force orphan ks)" for out
    by (rule hoare_conseq [OF hoare_liftP_eq [where P = "nc_known lib force orphan (insert (Get path, Some out) ks)"]])
        (auto elim: nc_known_weaken)
qed simp

text \<open>A loop whose hits are in scope keeps the log justified.\<close>

lemma hoare_delete_one:
  assumes "hit item = Inr True \<Longrightarrow> shown lib ks path item \<and> in_scope lib force orphan ks path item"
  shows "hoare (nc_known lib force orphan ks) (delete_one lib ext path ok hit n item)
    (\<lambda>_. nc_known lib force orphan ks) (\<lambda>_. nc_known lib force orphan ks)"
  unfolding delete_one_def
proof (rule hoare_bind [OF hoare_ncpy], rule hoare_pure, rule hoare_if)
  fix h assume h: "hit item = Inr h" "\<not> \<not> h"
  let ?K = "nc_known lib force orphan ks"
  show "hoare ?K (bindP (ncpy (d_get item ''id'')) (\<lambda>i. bindP (curl ext (Delete (path @ ''/'' @ fmt lib i)))
      (\<lambda>(status, body). if starts_with ''2'' status \<or> (ok \<and> status = ''404'') then ret (Suc n) else raise Refused)))
      (\<lambda>_. ?K) (\<lambda>_. ?K)"
  proof (rule hoare_bind [OF hoare_ncpy], rule hoare_pure, rule hoare_bind)
    fix i assume "d_get item ''id'' = Inr i"
    then have i: "i = field ''id'' item" by (auto simp: d_get_Inr_iff field_def obj_get_def)
    show "hoare ?K (curl ext (Delete (path @ ''/'' @ fmt lib i))) (\<lambda>_. ?K) (\<lambda>_. ?K)"
      unfolding curl_def check_output_def
    proof (rule hoare_bind [OF hoare_bind])
      show "hoare ?K (nc_issue ext (Delete (path @ ''/'' @ fmt lib i))) (\<lambda>_. ?K) (\<lambda>_. ?K)"
      proof (rule hoareI)
        fix s x t assume s: "?K s" and run: "nc_issue ext (Delete (path @ ''/'' @ fmt lib i)) s = (Inr x, t)"
        have "hit item = Inr True" using h by simp
        note sc = assms [OF this]
        have ks: "ks \<subseteq> set (nc_log s)" "justified lib force orphan (nc_log s)" using s by (simp_all add: nc_known_def)
        have "shown lib (set (nc_log s)) path item" by (rule shown_mono [OF sc [THEN conjunct1] ks(1)])
        moreover have "in_scope lib force orphan (set (nc_log s)) path item" by (rule in_scope_mono [OF sc [THEN conjunct2] ks(1)])
        ultimately have "deletion_ok lib force orphan (set (nc_log s)) (Delete (path @ ''/'' @ fmt lib i))"
          unfolding deletion_ok_def i by blast
        with ks(2) have "justified lib force orphan (nc_log s @ [(Delete (path @ ''/'' @ fmt lib i), x)])"
          by (simp add: each_call_snoc)
        moreover have "nc_log t = nc_log s @ [(Delete (path @ ''/'' @ fmt lib i), x)]"
          using run by (auto simp: nc_issue_def split: prod.splits)
        ultimately show "?K t" using s by (auto simp: nc_known_def)
      qed (simp add: nc_issue_def split: prod.splits)
    qed (auto simp: hoare_def split: option.splits)
  qed (auto simp: hoare_def split: prod.splits)
qed (simp add: hoare_def)

lemma hoare_delete_items:
  assumes "\<And>item. item \<in> set items \<Longrightarrow> hit item = Inr True \<Longrightarrow> shown lib ks path item \<and> in_scope lib force orphan ks path item"
  shows "hoare (nc_known lib force orphan ks) (delete_items lib ext path ok hit items n)
    (\<lambda>_. nc_known lib force orphan ks) (\<lambda>_. nc_known lib force orphan ks)"
  unfolding delete_items_def by (rule hoare_foldP [where I = "\<lambda>_. nc_known lib force orphan ks"]) (intro hoare_delete_one assms)

section \<open>The program's sets\<close>

lemma filterE_filter: "filterE f xs = Inr ys \<Longrightarrow> ys = filter (\<lambda>x. f x = Inr True) xs"
proof (induction xs arbitrary: ys)
  case (Cons x xs)
  then obtain b zs where "f x = Inr b" "filterE f xs = Inr zs" "ys = (if b then x # zs else zs)"
    unfolding filterE.simps bindE_Inr_iff by auto
  with Cons.IH [of zs] show ?case by simp
qed simp

lemma filterE_Inr: "filterE f xs = Inr ys \<Longrightarrow> set ys = {x \<in> set xs. f x = Inr True}"
  by (drule filterE_filter) simp

lemma d_get_field: "d_get j k = Inr v \<Longrightarrow> v = field k j"
  by (auto simp: d_get_Inr_iff field_def obj_get_def)

lemma target_names:
  "target_cluster force c = Inr True \<Longrightarrow> should_delete force (field ''name'' c)"
  "target_vpc force v = Inr True \<Longrightarrow> should_delete force (field ''name'' v)"
proof -
  assume "target_cluster force c = Inr True"
  then show "should_delete force (field ''name'' c)" by (auto simp: target_cluster_def bindE_Inr_iff dest: d_get_field)
next
  assume "target_vpc force v = Inr True"
  then obtain n where n: "d_get v ''name'' = Inr n"
    and hit: "(if \<not> should_delete force n then Inr False
      else bindE (d_get v ''isSystem'') (\<lambda>sys. bindE (d_get v ''isDefault'') (\<lambda>def.
        Inr (\<not> truthy sys \<and> \<not> truthy def \<and> \<not> kept_name n)))) = Inr True"
    unfolding target_vpc_def bindE_Inr_iff by (elim exE conjE) (rule that)
  have "should_delete force n"
  proof (rule ccontr)
    assume "\<not> should_delete force n"
    with hit show False by simp
  qed
  with d_get_field [OF n] show "should_delete force (field ''name'' v)" by simp
qed

lemma field_or: "field k (d_or v (JObj [])) = (if truthy v then field k v else JNull)"
  by (simp add: d_or_def field_def)

lemma add_vpc_id_set: "add_vpc_id ids v = Inr ids' \<Longrightarrow> set ids' \<subseteq> {field ''id'' v} - {JNull} \<union> set ids"
  by (auto simp: add_vpc_id_def bindE_Inr_iff dest!: d_get_field hashable_Inr split: if_splits)

lemma add_cluster_set:
  assumes "add_cluster acc c = Inr acc'"
  shows "set (fst acc') \<subseteq> {field ''name'' (field ''vpc'' c)} - {JNull} \<union> set (fst acc) \<and>
    set (snd acc') \<subseteq> {field ''id'' (field ''vpc'' c)} - {JNull} \<union> set (snd acc)"
proof -
  from assms obtain v ids n where s: "d_get c ''vpc'' = Inr v" "add_vpc_id (snd acc) (d_or v (JObj [])) = Inr ids"
    "d_get (d_or v (JObj [])) ''name'' = Inr n"
    "(if truthy n then bindE (hashable n) (\<lambda>n. Inr (fst acc @ [n], ids)) else Inr (fst acc, ids)) = Inr acc'"
    by (auto simp: add_cluster_def bindE_Inr_iff Let_def)
  have v: "v = field ''vpc'' c" and n: "n = field ''name'' (d_or v (JObj []))" using s(1,3) by (auto dest: d_get_field)
  have "set ids \<subseteq> {field ''id'' v} - {JNull} \<union> set (snd acc)"
    using add_vpc_id_set [OF s(2)] by (auto simp: field_or split: if_splits)
  moreover have "set (fst acc') \<subseteq> {field ''name'' v} - {JNull} \<union> set (fst acc) \<and> snd acc' = ids"
    using s(4) n by (auto simp: bindE_Inr_iff field_or dest!: hashable_Inr split: if_splits)
  ultimately show ?thesis using v by simp
qed

text \<open>The sets that the program builds contain nothing that is not owned.\<close>

lemma the_scope_owned:
  assumes sc: "the_scope force orphan tsc tvpc = Inr sc"
    and c: "\<And>c. c \<in> set tsc \<Longrightarrow> shown lib es SC c \<and> target_cluster force c = Inr True"
    and v: "\<And>v. v \<in> set tvpc \<Longrightarrow> shown lib es VPC v \<and> target_vpc force v = Inr True"
  shows "set (orphan_names sc) \<subseteq> owned_names lib force es" "set (orphan_vpc_ids sc) \<subseteq> owned_ids lib force es"
    "nat_orders sc = orders_of force orphan"
proof -
  from sc obtain names ids acc where s: "mapE (\<lambda>c. d_get c ''name'') (tsc @ tvpc) = Inr names" "foldE add_vpc_id [] tvpc = Inr ids"
    "foldE add_cluster (names @ map JStr force, ids) tsc = Inr acc"
    "sc = \<lparr>orphan_names = fst acc, orphan_vpc_ids = snd acc, nat_orders = orders_of force orphan\<rparr>"
    by (auto simp: the_scope_def bindE_Inr_iff split: prod.splits)
  have target_name: "field ''name'' x \<in> JStr ` set force" if "x \<in> set (tsc @ tvpc)" for x
  proof -
    have "should_delete force (field ''name'' x)"
      using that c v target_names by auto
    then show ?thesis by (auto simp: should_delete_def split: json.splits)
  qed
  have "set names \<subseteq> JStr ` set force"
  proof
    fix n assume "n \<in> set names"
    then obtain i where i: "i < length names" "n = names ! i" by (auto simp: in_set_conv_nth)
    then have "i < length (tsc @ tvpc)" using mapE_Inr_length [OF s(1)] by simp
    then have "n = field ''name'' ((tsc @ tvpc) ! i)" "(tsc @ tvpc) ! i \<in> set (tsc @ tvpc)"
      using d_get_field [OF mapE_Inr_nth [OF s(1)]] i(2) nth_mem by blast+
    then show "n \<in> JStr ` set force" using target_name by simp
  qed
  moreover have ids: "set ids \<subseteq> owned_ids lib force es"
  proof (rule foldE_mem_invariant [where I = "\<lambda>ids. set ids \<subseteq> owned_ids lib force es", OF s(2)])
    fix b x b' assume "x \<in> set tvpc" "set b \<subseteq> owned_ids lib force es" "add_vpc_id b x = Inr b'"
    moreover have "{field ''id'' x} - {JNull} \<subseteq> owned_ids lib force es" using v [OF \<open>x \<in> set tvpc\<close>] by (auto simp: owned_ids_def)
    ultimately show "set b' \<subseteq> owned_ids lib force es" using add_vpc_id_set by blast
  qed simp
  ultimately have start: "set (names @ map JStr force) \<subseteq> owned_names lib force es" by (auto simp: owned_names_def)
  have "set (fst acc) \<subseteq> owned_names lib force es \<and> set (snd acc) \<subseteq> owned_ids lib force es"
  proof (rule foldE_mem_invariant [where I = "\<lambda>a. set (fst a) \<subseteq> owned_names lib force es \<and> set (snd a) \<subseteq> owned_ids lib force es", OF s(3)])
    fix b x b' assume x: "x \<in> set tsc"
      and b: "set (fst b) \<subseteq> owned_names lib force es \<and> set (snd b) \<subseteq> owned_ids lib force es" "add_cluster b x = Inr b'"
    have "{field ''name'' (field ''vpc'' x)} - {JNull} \<subseteq> owned_names lib force es"
      "{field ''id'' (field ''vpc'' x)} - {JNull} \<subseteq> owned_ids lib force es"
      using c [OF x] by (auto simp: owned_names_def owned_ids_def)
    then show "set (fst b') \<subseteq> owned_names lib force es \<and> set (snd b') \<subseteq> owned_ids lib force es"
      using add_cluster_set [OF b(2)] b(1) by blast
  qed (use start ids in simp)
  then show "set (orphan_names sc) \<subseteq> owned_names lib force es" "set (orphan_vpc_ids sc) \<subseteq> owned_ids lib force es"
    "nat_orders sc = orders_of force orphan" using s(4) by simp_all
qed

lemma vpc_hit_tied:
  assumes "vpc_hit sc item = Inr True" "set (orphan_names sc) \<subseteq> owned_names lib force es"
    "set (orphan_vpc_ids sc) \<subseteq> owned_ids lib force es"
  shows "tied lib force es item"
proof -
  let ?v = "field ''vpc'' item"
  have "member (field ''id'' (d_or ?v (JObj []))) (orphan_vpc_ids sc) \<or> member (field ''name'' (d_or ?v (JObj []))) (orphan_names sc)"
    using assms(1) by (auto simp: vpc_hit_def bindE_Inr_iff Let_def dest!: d_get_field hashable_Inr split: if_splits)
  moreover have "\<not> member JNull xs" if "JNull \<notin> set xs" for xs
    using that by (auto simp: member_def py_key_def split: json.splits)
  moreover have null: "JNull \<notin> set (orphan_vpc_ids sc)" "JNull \<notin> set (orphan_names sc)"
    using assms(2,3) by (auto simp: owned_ids_def owned_names_def)
  ultimately have "member (field ''id'' ?v) (orphan_vpc_ids sc) \<or> member (field ''name'' ?v) (orphan_names sc)"
    using null unfolding field_or by (auto split: if_splits)
  then show ?thesis using assms(2,3) unfolding tied_def member_def by blast
qed

lemma hit_in_scope:
  assumes sc: "the_scope force orphan tsc tvpc = Inr sc"
    and c: "\<And>c. c \<in> set tsc \<Longrightarrow> shown lib es SC c \<and> target_cluster force c = Inr True"
    and v: "\<And>v. v \<in> set tvpc \<Longrightarrow> shown lib es VPC v \<and> target_vpc force v = Inr True"
  shows "nat_hit sc item = Inr True \<Longrightarrow> in_scope lib force orphan es NAT item"
    and "vnet_hit sc item = Inr True \<Longrightarrow> in_scope lib force orphan es VNET item"
proof -
  note o = the_scope_owned [OF sc c v]
  have tie: "vpc_hit sc item = Inr True \<Longrightarrow> tied lib force es item" using vpc_hit_tied o(1,2) by blast
  show "in_scope lib force orphan es NAT item" if h: "nat_hit sc item = Inr True"
  proof -
    from h obtain nm where nm: "d_get item ''name'' = Inr nm"
      "vpc_hit sc item = Inr True \<or> (\<exists>s. d_or nm (JStr []) = JStr s \<and> in_orders (nat_orders sc) s)"
      by (auto simp: nat_hit_def bindE_Inr_iff split: if_splits json.splits)
    have "s \<noteq> []" if "in_orders (nat_orders sc) s" for s
      using that by (auto simp: in_orders_def list_ex_iff starts_with_def)
    then have "vpc_hit sc item = Inr True \<or> (\<exists>s. nm = JStr s \<and> in_orders (nat_orders sc) s)"
      using nm(2) by (auto simp: d_or_def split: if_splits)
    with tie d_get_field [OF nm(1)] o(3) show ?thesis by (auto simp: in_scope_def)
  qed
  have any: "\<exists>x \<in> set xs. truthy x \<and> py_in x n = Inr True" if "any_in xs n = Inr True" for xs n
    using that by (induction xs n rule: any_in.induct) (auto simp: bindE_Inr_iff split: if_splits)
  show "in_scope lib force orphan es VNET item" if h: "vnet_hit sc item = Inr True"
  proof -
    from h obtain nm where nm: "d_get item ''name'' = Inr nm"
      "vpc_hit sc item = Inr True \<or> any_in (orphan_names sc) (d_or nm (JStr [])) = Inr True"
      by (auto simp: vnet_hit_def bindE_Inr_iff split: if_splits)
    with tie any o(1) d_get_field [OF nm(1)] show ?thesis unfolding in_scope_def by blast
  qed
qed

lemma vpc_again_target: "vpc_again force v = Inr True \<Longrightarrow> target_vpc force v = Inr True"
  by (auto simp: vpc_again_def target_vpc_def bindE_Inr_iff Let_def d_or_def should_delete_def starts_with_def split: if_splits)

text \<open>The parts of the program that delete nothing keep every such fact.\<close>

lemma keeps_output:
  "(\<And>p. c \<noteq> Delete p) \<Longrightarrow> keeps (nc_known lib force orphan ks) (check_output ext c)"
  unfolding keeps_hoare by (rule hoare_conseq [OF hoare_output]) (auto simp: nc_known_def)

lemma keeps_ncpy [keeps_rules]: "keeps I (ncpy r)"
  by (simp add: ncpy_def keeps_def split: sum.split)

lemma keeps_refuse: "keeps (nc_known lib force orphan ks) (refuse_active lib ext o')"
  unfolding refuse_active_def active_orders_def by (intro keeps_rules keeps_output) simp_all

lemma keeps_done: "keeps (nc_known lib force orphan ks) (check_done lib ext orders)"
  unfolding check_done_def get_list_def by (intro keeps_rules keeps_output) simp_all

lemma keeps_to:
  "keeps (nc_known lib force orphan ks) m \<Longrightarrow>
   hoare (nc_known lib force orphan ks) m (\<lambda>_. nc_known lib force orphan ks) (\<lambda>_. nc_known lib force orphan {})"
  unfolding keeps_hoare by (erule hoare_conseq) (auto simp: nc_known_def)

lemma get_list_to:
  assumes "\<And>q. listed lib q = Inr items \<Longrightarrow> hoare (nc_known lib force orphan (insert (Get path, Some q) ks)) (f items) Q E"
  shows "hoare (\<lambda>s. \<exists>q. listed lib q = Inr items \<and> nc_known lib force orphan (insert (Get path, Some q) ks) s) (f items) Q E"
  by (intro hoare_ex hoare_pure assms)

lemma get_list_bind:
  assumes "\<And>q items. listed lib q = Inr items \<Longrightarrow>
      hoare (nc_known lib force orphan (insert (Get path, Some q) ks)) (f items) Q (\<lambda>_. nc_known lib force orphan {})"
  shows "hoare (nc_known lib force orphan ks) (bindP (get_list lib ext path) f) Q (\<lambda>_. nc_known lib force orphan {})"
proof (rule hoare_bind)
  show "hoare (nc_known lib force orphan ks) (get_list lib ext path)
      (\<lambda>items s. \<exists>q. listed lib q = Inr items \<and> nc_known lib force orphan (insert (Get path, Some q) ks) s)
      (\<lambda>_. nc_known lib force orphan {})"
    by (rule hoare_conseq [OF hoare_get_list [where ks = ks]]) (auto elim: nc_known_weaken)
  show "hoare (\<lambda>s. \<exists>q. listed lib q = Inr items \<and> nc_known lib force orphan (insert (Get path, Some q) ks) s)
      (f items) Q (\<lambda>_. nc_known lib force orphan {})" for items
    by (rule get_list_to) (rule assms)
qed

lemma ncpy_bind:
  assumes "\<And>x. r = Inr x \<Longrightarrow> hoare (nc_known lib force orphan ks) (f x) Q (\<lambda>_. nc_known lib force orphan {})"
  shows "hoare (nc_known lib force orphan ks) (bindP (ncpy r) f) Q (\<lambda>_. nc_known lib force orphan {})"
proof (rule hoare_bind)
  show "hoare (nc_known lib force orphan ks) (ncpy r) (\<lambda>x s. r = Inr x \<and> nc_known lib force orphan ks s)
      (\<lambda>_. nc_known lib force orphan {})"
    by (rule hoare_conseq [OF hoare_ncpy [where P = "nc_known lib force orphan ks"]]) (auto elim: nc_known_weaken)
  show "hoare (\<lambda>s. r = Inr x \<and> nc_known lib force orphan ks s) (f x) Q (\<lambda>_. nc_known lib force orphan {})" for x
    by (rule hoare_pure) (rule assms)
qed

lemma delete_bind:
  assumes "\<And>item. item \<in> set items \<Longrightarrow> hit item = Inr True \<Longrightarrow> shown lib ks path item \<and> in_scope lib force orphan ks path item"
    and "\<And>n. hoare (nc_known lib force orphan ks) (f n) Q (\<lambda>_. nc_known lib force orphan {})"
  shows "hoare (nc_known lib force orphan ks) (bindP (delete_items lib ext path ok hit items n) f) Q (\<lambda>_. nc_known lib force orphan {})"
proof (rule hoare_bind)
  show "hoare (nc_known lib force orphan ks) (delete_items lib ext path ok hit items n)
      (\<lambda>_. nc_known lib force orphan ks) (\<lambda>_. nc_known lib force orphan {})"
    by (rule hoare_conseq [OF hoare_delete_items [where ks = ks, OF assms(1)]]) (auto elim: nc_known_weaken)
qed (rule assms(2))

lemma remove_orders_justified:
  "hoare (nc_known lib force orphan {}) (remove_orders lib ext force orphan)
    (\<lambda>_. nc_known lib force orphan {}) (\<lambda>_. nc_known lib force orphan {})"
  unfolding remove_orders_def
proof (rule get_list_bind, rule get_list_bind, rule get_list_bind, rule hoare_then [OF keeps_to [OF keeps_refuse]],
    rule ncpy_bind, rule ncpy_bind, rule ncpy_bind)
  fix q1 q2 q3 :: string and scs vpcs nats tsc tvpc :: "json list" and sc :: nc_scope
  let ?ks = "{(Get NAT, Some q3), (Get VPC, Some q2), (Get SC, Some q1)}"
  assume l: "listed lib q1 = Inr scs" "listed lib q2 = Inr vpcs" "listed lib q3 = Inr nats"
    and t: "filterE (target_cluster force) scs = Inr tsc" "filterE (target_vpc force) vpcs = Inr tvpc"
    and sc: "the_scope force orphan tsc tvpc = Inr sc"
  have c: "c \<in> set tsc \<Longrightarrow> shown lib ks SC c \<and> target_cluster force c = Inr True" if "?ks \<subseteq> ks" for ks c
    using filterE_Inr [OF t(1)] l(1) that by (auto simp: shown_def)
  have v: "v \<in> set tvpc \<Longrightarrow> shown lib ks VPC v \<and> target_vpc force v = Inr True" if "?ks \<subseteq> ks" for ks v
    using filterE_Inr [OF t(2)] l(2) that by (auto simp: shown_def)
  note hits = hit_in_scope [OF sc c v]
  show "hoare (nc_known lib force orphan ?ks)
      (bindP (delete_items lib ext NAT True (nat_hit sc) nats 0) (\<lambda>n1.
       bindP (delete_items lib ext SC False (\<lambda>_. Inr True) tsc n1) (\<lambda>n2.
       bindP (get_list lib ext VNET) (\<lambda>vnets.
       bindP (delete_items lib ext VNET True (vnet_hit sc) vnets n2) (\<lambda>n3.
       bindP (get_list lib ext VPC) (\<lambda>vpcs'.
       bindP (delete_items lib ext VPC False (vpc_again force) vpcs' n3) (\<lambda>n4.
       thenP (check_done lib ext (nat_orders sc)) (ret n4))))))))
      (\<lambda>_. nc_known lib force orphan {}) (\<lambda>_. nc_known lib force orphan {})"
  proof (rule delete_bind)
    show "item \<in> set nats \<Longrightarrow> nat_hit sc item = Inr True \<Longrightarrow> shown lib ?ks NAT item \<and> in_scope lib force orphan ?ks NAT item" for item
      using l(3) hits(1) by (auto simp: shown_def)
  next
    fix n :: nat
    show "hoare (nc_known lib force orphan ?ks)
      (bindP (delete_items lib ext SC False (\<lambda>_. Inr True) tsc n) (\<lambda>n2.
       bindP (get_list lib ext VNET) (\<lambda>vnets.
       bindP (delete_items lib ext VNET True (vnet_hit sc) vnets n2) (\<lambda>n3.
       bindP (get_list lib ext VPC) (\<lambda>vpcs'.
       bindP (delete_items lib ext VPC False (vpc_again force) vpcs' n3) (\<lambda>n4.
       thenP (check_done lib ext (nat_orders sc)) (ret n4)))))))
      (\<lambda>_. nc_known lib force orphan {}) (\<lambda>_. nc_known lib force orphan {})"
    proof (rule delete_bind)
      show "item \<in> set tsc \<Longrightarrow> shown lib ?ks SC item \<and> in_scope lib force orphan ?ks SC item" for item
        using c [of ?ks item] by (simp add: in_scope_def)
    next
      fix n2 :: nat
      show "hoare (nc_known lib force orphan ?ks)
        (bindP (get_list lib ext VNET) (\<lambda>vnets.
         bindP (delete_items lib ext VNET True (vnet_hit sc) vnets n2) (\<lambda>n3.
         bindP (get_list lib ext VPC) (\<lambda>vpcs'.
         bindP (delete_items lib ext VPC False (vpc_again force) vpcs' n3) (\<lambda>n4.
         thenP (check_done lib ext (nat_orders sc)) (ret n4))))))
        (\<lambda>_. nc_known lib force orphan {}) (\<lambda>_. nc_known lib force orphan {})"
      proof (rule get_list_bind, rule delete_bind)
        fix q4 :: string and vnets :: "json list" and item :: json assume "listed lib q4 = Inr vnets" "item \<in> set vnets" "vnet_hit sc item = Inr True"
        then show "shown lib (insert (Get VNET, Some q4) ?ks) VNET item \<and> in_scope lib force orphan (insert (Get VNET, Some q4) ?ks) VNET item"
          using hits(2) by (auto simp: shown_def)
      next
        fix q4 :: string and vnets :: "json list" and n3 :: nat
        show "hoare (nc_known lib force orphan (insert (Get VNET, Some q4) ?ks))
          (bindP (get_list lib ext VPC) (\<lambda>vpcs'.
           bindP (delete_items lib ext VPC False (vpc_again force) vpcs' n3) (\<lambda>n4.
           thenP (check_done lib ext (nat_orders sc)) (ret n4))))
          (\<lambda>_. nc_known lib force orphan {}) (\<lambda>_. nc_known lib force orphan {})"
        proof (rule get_list_bind, rule delete_bind)
          fix q5 :: string and vpcs' :: "json list" and item :: json assume "listed lib q5 = Inr vpcs'" "item \<in> set vpcs'" "vpc_again force item = Inr True"
          then show "shown lib (insert (Get VPC, Some q5) (insert (Get VNET, Some q4) ?ks)) VPC item \<and>
              in_scope lib force orphan (insert (Get VPC, Some q5) (insert (Get VNET, Some q4) ?ks)) VPC item"
            using vpc_again_target by (auto simp: shown_def in_scope_def)
        next
          fix q5 :: string and n4 :: nat
          show "hoare (nc_known lib force orphan (insert (Get VPC, Some q5) (insert (Get VNET, Some q4) ?ks)))
            (thenP (check_done lib ext (nat_orders sc)) (ret n4))
            (\<lambda>_. nc_known lib force orphan {}) (\<lambda>_. nc_known lib force orphan {})"
            by (rule hoare_then [OF keeps_to [OF keeps_done]]) (auto simp: hoare_def nc_known_def)
        qed
      qed
    qed
  qed
qed

text \<open>Checking the arguments calls nothing, and signing in deletes nothing.\<close>

lemma login_not_delete: "Login b \<noteq> Delete p"
  by simp

lemma hoare_cleanup_main:
  assumes "\<And>e. E e = I" and "keeps I (check_output ext (Login (login_body (argv ! 2) (argv ! 3))))"
    and "hoare I (remove_orders lib ext (forced (drop 4 argv)) (last (drop 4 argv))) Q E"
  shows "hoare I (cleanup_main lib ext argv) Q E"
proof -
  have "hoare I (raise e :: ('a, nat) nc) Q E" for e by (simp add: hoare_def assms(1))
  moreover have "hoare I (check_output ext (Login (login_body (argv ! 2) (argv ! 3)))) (\<lambda>_. I) E"
    using assms(2) unfolding keeps_hoare by (rule hoare_conseq) (simp_all add: assms(1))
  ultimately show ?thesis
    unfolding cleanup_main_def Let_def by (intro hoare_if hoare_bind [where R = "\<lambda>_. I"] assms(3))
qed

text \<open>Claim C17: whatever the controller and the cluster answer, and however the run ends, every deletion is
  of an item that an earlier listing of the same kind showed, and that item is in the scope of the
  orders of the arguments: a server cluster or VPC whose name is a targeted order (never a system, default
  or shared VPC), a NAT rule or V-Net that carries the name of such an order or lies in a VPC that a
  targeted cluster or VPC owns.\<close>

theorem cleanup_deletes_only_scoped:
  "justified lib (forced (drop 4 argv)) (last (drop 4 argv))
     (nc_log (snd (cleanup_main lib ext argv \<lparr>nc_world = w, nc_log = []\<rparr>)))"
proof -
  let ?I = "nc_known lib (forced (drop 4 argv)) (last (drop 4 argv)) {}"
  have "hoare ?I (cleanup_main lib ext argv) (\<lambda>_. ?I) (\<lambda>_. ?I)"
    by (rule hoare_cleanup_main [OF _ keeps_output remove_orders_justified]) simp_all
  from hoareD_any [OF this, of "\<lparr>nc_world = w, nc_log = []\<rparr>"] show ?thesis by (simp add: nc_known_def)
qed

section \<open>The order that is still in use\<close>

text \<open>Both listings of the cluster were read and neither names the orphan order.\<close>

definition vetted :: "nc_lib \<Rightarrow> string \<Rightarrow> nc_events \<Rightarrow> bool" where
  "vetted lib orphan es \<longleftrightarrow> orphan = [] \<or> list_all (\<lambda>resource.
     \<exists>q names. (OcGet resource, Some q) \<in> es \<and> order_names lib q = Inr names \<and> JStr orphan \<notin> set names)
     [''clusterorders'', ''hostedclusters'']"

definition vetted_ok :: "nc_lib \<Rightarrow> string \<Rightarrow> nc_events \<Rightarrow> nc_call \<Rightarrow> bool" where
  "vetted_ok lib orphan es c \<longleftrightarrow> (\<exists>p. c = Delete p) \<longrightarrow> vetted lib orphan es"

definition nc_vet :: "nc_lib \<Rightarrow> string \<Rightarrow> 'w nc_state \<Rightarrow> bool" where
  "nc_vet lib orphan s \<longleftrightarrow> each_call (vetted_ok lib orphan) (nc_log s)"

definition nc_vetted :: "nc_lib \<Rightarrow> string \<Rightarrow> 'w nc_state \<Rightarrow> bool" where
  "nc_vetted lib orphan s \<longleftrightarrow> nc_vet lib orphan s \<and> vetted lib orphan (set (nc_log s))"

lemma vetted_mono: "vetted lib orphan es \<Longrightarrow> es \<subseteq> fs \<Longrightarrow> vetted lib orphan fs"
  unfolding vetted_def by auto

lemma nc_log_issue: "nc_issue ext c s = (r, t) \<Longrightarrow> \<exists>a. r = Inr a \<and> nc_log t = nc_log s @ [(c, a)]"
  by (auto simp: nc_issue_def split: prod.splits)

lemma keeps_by_log:
  assumes "\<And>s t a. I s \<Longrightarrow> nc_log t = nc_log s @ [(c, a)] \<Longrightarrow> I t"
  shows "keeps I (check_output ext c)"
  unfolding check_output_def
proof (rule keeps_bind)
  show "keeps I (nc_issue ext c)"
  proof (rule keepsI)
    fix s assume "I s"
    obtain r t where run: "nc_issue ext c s = (r, t)" by (cases "nc_issue ext c s")
    from nc_log_issue [OF run] assms [OF \<open>I s\<close>] show "I (snd (nc_issue ext c s))" by (auto simp: run)
  qed
  show "keeps I (case r of None \<Rightarrow> raise Crash | Some out \<Rightarrow> ret out)" for r
    by (cases r) (simp_all add: keeps_ret keeps_raise)
qed

lemma keeps_vet: "(\<And>p. c \<noteq> Delete p) \<Longrightarrow> keeps (nc_vet lib orphan) (check_output ext c)"
  by (rule keeps_by_log) (simp add: nc_vet_def each_call_snoc vetted_ok_def)

lemma keeps_vetted: "keeps (nc_vetted lib orphan) (check_output ext c)"
proof (rule keeps_by_log)
  fix s t :: "'a nc_state" and a
  assume s: "nc_vetted lib orphan s" and t: "nc_log t = nc_log s @ [(c, a)]"
  then have "vetted lib orphan (set (nc_log s))" by (simp add: nc_vetted_def)
  moreover from this t have "vetted lib orphan (set (nc_log t))" by (elim vetted_mono) auto
  ultimately show "nc_vetted lib orphan t"
    using s t by (simp add: nc_vetted_def nc_vet_def each_call_snoc vetted_ok_def)
qed

text \<open>The names of one resource, with the answer they come from.\<close>

lemma hoare_order_names:
  assumes "\<And>s t q. I s \<Longrightarrow> nc_log t = nc_log s @ [(OcGet res, q)] \<Longrightarrow> I t"
    and "\<And>out names. order_names lib out = Inr names \<Longrightarrow>
      hoare (\<lambda>s. I s \<and> (OcGet res, Some out) \<in> set (nc_log s)) (f names) Q (\<lambda>_. E)"
    and "\<And>s. I s \<Longrightarrow> E s"
  shows "hoare I (bindP (check_output ext (OcGet res)) (\<lambda>a. bindP (liftP (order_names lib a)) f)) Q (\<lambda>_. E)"
proof (rule hoare_bind)
  show "hoare I (check_output ext (OcGet res)) (\<lambda>out s. I s \<and> (OcGet res, Some out) \<in> set (nc_log s)) (\<lambda>_. E)"
  proof (rule hoareI)
    fix s t :: "'a nc_state" and out
    assume "I s" "check_output ext (OcGet res) s = (Inr out, t)"
    then have "nc_log t = nc_log s @ [(OcGet res, Some out)]"
      by (auto simp: check_output_def bindP_def nc_issue_def split: prod.splits option.splits)
    then show "I t \<and> (OcGet res, Some out) \<in> set (nc_log t)" using assms(1) [OF \<open>I s\<close>] by auto
  next
    fix s t :: "'a nc_state" and e
    assume "I s" "check_output ext (OcGet res) s = (Inl e, t)"
    moreover have "keeps I (check_output ext (OcGet res))" by (rule keeps_by_log) (rule assms(1))
    ultimately show "E t" using keepsD [of I "check_output ext (OcGet res)" s] assms(3) by simp
  qed
  show "hoare (\<lambda>s. I s \<and> (OcGet res, Some out) \<in> set (nc_log s)) (bindP (liftP (order_names lib out)) f) Q (\<lambda>_. E)" for out
  proof (cases "order_names lib out")
    case (Inl e)
    then show ?thesis using assms(3) by (auto simp: hoare_def bindP_def)
  next
    case (Inr names)
    then have "bindP (liftP (order_names lib out)) f = f names" by (simp add: bindP_def fun_eq_iff)
    then show ?thesis using assms(2) [OF Inr] by simp
  qed
qed

lemma hoare_refuse:
  "hoare (nc_vet lib orphan) (refuse_active lib ext orphan) (\<lambda>_. nc_vetted lib orphan) (\<lambda>_. nc_vet lib orphan)"
proof (cases "orphan = []")
  case True
  then show ?thesis by (auto simp: refuse_active_def hoare_def nc_vetted_def vetted_def)
next
  case False
  let ?P = "\<lambda>res names. \<lambda>s. \<exists>q. (OcGet res, Some q) \<in> set (nc_log s) \<and> order_names lib q = Inr names"
  let ?V = "nc_vet lib orphan"
  have snoc: "?V s \<Longrightarrow> nc_log t = nc_log s @ [(OcGet res, q)] \<Longrightarrow> ?V t" for s t :: "'a nc_state" and res q
    by (simp add: nc_vet_def each_call_snoc vetted_ok_def)
  have "hoare ?V (active_orders lib ext)
      (\<lambda>names s. \<exists>xs ys. names = xs @ ys \<and> ?V s \<and> ?P ''clusterorders'' xs s \<and> ?P ''hostedclusters'' ys s) (\<lambda>_. ?V)"
    unfolding active_orders_def
  proof (rule hoare_order_names [OF snoc], assumption+)
    fix a xs assume a: "order_names lib a = Inr xs"
    let ?I = "\<lambda>s. ?V s \<and> (OcGet ''clusterorders'', Some a) \<in> set (nc_log s)"
    show "hoare ?I (bindP (check_output ext (OcGet ''hostedclusters''))
        (\<lambda>b. bindP (liftP (order_names lib b)) (\<lambda>ys. ret (xs @ ys))))
        (\<lambda>names s. \<exists>xs ys. names = xs @ ys \<and> ?V s \<and> ?P ''clusterorders'' xs s \<and> ?P ''hostedclusters'' ys s) (\<lambda>_. ?V)"
    proof (rule hoare_order_names [where I = ?I])
      show "?I s \<Longrightarrow> nc_log t = nc_log s @ [(OcGet ''hostedclusters'', q)] \<Longrightarrow> ?I t" for s t :: "'a nc_state" and q
        using snoc by auto
      fix b ys assume "order_names lib b = Inr ys"
      with a show "hoare (\<lambda>s. ?I s \<and> (OcGet ''hostedclusters'', Some b) \<in> set (nc_log s)) (ret (xs @ ys))
          (\<lambda>names s. \<exists>xs ys. names = xs @ ys \<and> ?V s \<and> ?P ''clusterorders'' xs s \<and> ?P ''hostedclusters'' ys s) (\<lambda>_. ?V)"
        unfolding hoare_def by auto
    qed simp
  qed simp
  then show ?thesis
    unfolding refuse_active_def if_not_P [OF False]
  proof (rule hoare_bind)
    fix names
    show "hoare (\<lambda>s. \<exists>xs ys. names = xs @ ys \<and> ?V s \<and> ?P ''clusterorders'' xs s \<and> ?P ''hostedclusters'' ys s)
        (if JStr orphan \<in> set names then raise Refused else ret ()) (\<lambda>_. nc_vetted lib orphan) (\<lambda>_. ?V)"
      unfolding hoare_def by (auto simp: nc_vetted_def vetted_def)
  qed
qed

lemma keeps_get_list:
  "(\<And>c. keeps I (check_output ext c)) \<Longrightarrow> keeps I (get_list lib ext path)"
  unfolding get_list_def by (intro keeps_rules) blast

lemma keeps_delete_items:
  assumes "\<And>c. keeps I (check_output ext c)"
  shows "keeps I (delete_items lib ext path ok hit items n)"
proof -
  have "keeps I (case q of (status, body) \<Rightarrow>
      if starts_with ''2'' status \<or> (ok \<and> status = ''404'') then ret (Suc m) else raise Refused)" for q m
    by (cases q) (simp add: keeps_ret keeps_raise)
  with assms show ?thesis unfolding delete_items_def delete_one_def curl_def by (intro keeps_rules keeps_ncpy)
qed

text \<open>Claim C18: an order that the cluster still runs loses nothing: every deletion of a run that is given an
  orphan order comes after both listings of the cluster were read and neither named it.\<close>

theorem cleanup_spares_active_orders:
  "each_call (vetted_ok lib (last (drop 4 argv)))
     (nc_log (snd (cleanup_main lib ext argv \<lparr>nc_world = w, nc_log = []\<rparr>)))"
proof -
  let ?orphan = "last (drop 4 argv)"
  have listing: "hoare (nc_vet lib ?orphan) (get_list lib ext path) (\<lambda>_. nc_vet lib ?orphan) (\<lambda>_. nc_vet lib ?orphan)" for path
    using keeps_vet [of "Get path"] unfolding get_list_def by (fold keeps_hoare) (auto intro!: keeps_rules)
  note all = keeps_vetted [of lib ?orphan ext]
  have rest: "keeps (nc_vetted lib ?orphan) m \<Longrightarrow> hoare (nc_vetted lib ?orphan) m (\<lambda>_. nc_vet lib ?orphan) (\<lambda>_. nc_vet lib ?orphan)"
    for m :: "('a, nat) nc" unfolding keeps_hoare by (erule hoare_conseq) (simp_all add: nc_vetted_def)
  have "hoare (nc_vet lib ?orphan) (remove_orders lib ext (forced (drop 4 argv)) ?orphan)
      (\<lambda>_. nc_vet lib ?orphan) (\<lambda>_. nc_vet lib ?orphan)"
    unfolding remove_orders_def check_done_def
    by (intro hoare_bind [OF listing] hoare_then [OF hoare_refuse] rest keeps_bind keeps_then keeps_if
        keeps_ncpy keeps_delete_items keeps_get_list all keeps_ret keeps_raise)
  then have "hoare (nc_vet lib ?orphan) (cleanup_main lib ext argv) (\<lambda>_. nc_vet lib ?orphan) (\<lambda>_. nc_vet lib ?orphan)"
    by (rule hoare_cleanup_main [rotated 2]) (simp_all add: keeps_vet)
  from hoareD_any [OF this, of "\<lparr>nc_world = w, nc_log = []\<rparr>"] show ?thesis by (simp add: nc_vet_def)
qed

section \<open>A run that returns\<close>

definition is_delete :: "nc_call \<Rightarrow> bool" where
  "is_delete c \<longleftrightarrow> (case c of Delete p \<Rightarrow> True | _ \<Rightarrow> False)"

text \<open>A deletion that the controller accepted, or a resource that was gone already.\<close>

definition accepted :: "nc_call \<times> string option \<Rightarrow> bool" where
  "accepted e \<longleftrightarrow> (case snd e of None \<Rightarrow> False
     | Some out \<Rightarrow> starts_with ''2'' (fst (code_and_body out)) \<or> fst (code_and_body out) = ''404'')"

definition deletions :: "(nc_call \<times> string option) list \<Rightarrow> (nc_call \<times> string option) list" where
  "deletions log = filter (\<lambda>e. is_delete (fst e)) log"

definition nc_count :: "nat \<Rightarrow> 'w nc_state \<Rightarrow> bool" where
  "nc_count n s \<longleftrightarrow> length (deletions (nc_log s)) = n \<and> list_all accepted (deletions (nc_log s))"

lemma keeps_count: "(\<And>p. c \<noteq> Delete p) \<Longrightarrow> keeps (nc_count n) (check_output ext c)"
  by (rule keeps_by_log) (auto simp: nc_count_def deletions_def is_delete_def split: nc_call.splits)

lemma to_any: "hoare P m Q E \<Longrightarrow> hoare P m Q (\<lambda>_ _. True)"
  by (erule hoare_conseq) simp_all

lemma count_weaken: "keeps (nc_count n) m \<Longrightarrow> hoare (nc_count n) m (\<lambda>_. nc_count n) (\<lambda>_ _. True)"
  unfolding keeps_hoare by (erule to_any)

lemma hoare_delete_one_count: "hoare (nc_count n) (delete_one lib ext path ok hit n item) nc_count (\<lambda>_ _. True)"
proof -
  have accept: "hoare (nc_count n) (bindP (curl ext (Delete p)) (\<lambda>(status, body).
      if starts_with ''2'' status \<or> (ok \<and> status = ''404'') then ret (Suc n) else raise Refused)) nc_count (\<lambda>_ _. True)" for p
  proof (rule hoareI)
    fix s x t
    assume n: "nc_count n s" and run: "bindP (curl ext (Delete p)) (\<lambda>(status, body).
      if starts_with ''2'' status \<or> (ok \<and> status = ''404'') then ret (Suc n) else raise Refused) s = (Inr x, t)"
    then obtain out where "nc_log t = nc_log s @ [(Delete p, Some out)]" "x = Suc n"
      "starts_with ''2'' (fst (code_and_body out)) \<or> fst (code_and_body out) = ''404''"
      by (auto simp: curl_def check_output_def nc_issue_def run_iff split: prod.splits option.splits if_splits)
    with n show "nc_count x t" by (simp add: nc_count_def deletions_def is_delete_def accepted_def)
  qed simp
  show ?thesis unfolding delete_one_def
  proof (rule hoare_bind [OF count_weaken [OF keeps_ncpy]], rule hoare_if)
    show "hoare (nc_count n) (ret n) nc_count (\<lambda>_ _. True)" by (rule hoare_ret)
    show "hoare (nc_count n) (bindP (ncpy (d_get item ''id'')) (\<lambda>i. bindP (curl ext (Delete (path @ ''/'' @ fmt lib i)))
      (\<lambda>(status, body). if starts_with ''2'' status \<or> (ok \<and> status = ''404'') then ret (Suc n) else raise Refused)))
      nc_count (\<lambda>_ _. True)"
      by (rule hoare_bind [OF count_weaken [OF keeps_ncpy] accept])
  qed
qed

lemma hoare_delete_items_count: "hoare (nc_count n) (delete_items lib ext path ok hit items n) nc_count (\<lambda>_ _. True)"
  unfolding delete_items_def by (rule hoare_foldP [where I = nc_count, OF hoare_delete_one_count])

text \<open>The last listing shows no NAT rule of the orders.\<close>

definition clean_end :: "nc_lib \<Rightarrow> string list \<Rightarrow> (nc_call \<times> string option) list \<Rightarrow> bool" where
  "clean_end lib orders log \<longleftrightarrow> log \<noteq> [] \<and> (case last log of
     (Get path, Some q) \<Rightarrow> path = NAT \<and> (case listed lib q of
         Inr nats \<Rightarrow> filterE (still_there orders) nats = Inr []
       | Inl _ \<Rightarrow> False)
   | _ \<Rightarrow> False)"

lemma hoare_done:
  "hoare (nc_count n) (thenP (check_done lib ext orders) (ret n))
     (\<lambda>m s. nc_count m s \<and> clean_end lib orders (nc_log s)) (\<lambda>_ _. True)"
proof (rule hoareI)
  fix s m t
  assume n: "nc_count n s" and run: "thenP (check_done lib ext orders) (ret n) s = (Inr m, t)"
  then obtain q nats where "nc_log t = nc_log s @ [(Get NAT, Some q)]" "m = n" "listed lib q = Inr nats"
    "filterE (still_there orders) nats = Inr []"
    by (auto simp: check_done_def get_list_def check_output_def nc_issue_def ncpy_def run_iff
        split: prod.splits option.splits if_splits sum.splits)
  with n show "nc_count m t \<and> clean_end lib orders (nc_log t)"
    by (simp add: clean_end_def nc_count_def deletions_def is_delete_def)
qed simp

definition cleaned :: "nc_lib \<Rightarrow> string list \<Rightarrow> nat \<Rightarrow> (nc_call \<times> string option) list \<Rightarrow> bool" where
  "cleaned lib orders n log \<longleftrightarrow>
     n = length (deletions log) \<and> list_all accepted (deletions log) \<and> clean_end lib orders log"

lemma hoare_remove_orders_count:
  "hoare (nc_count 0) (remove_orders lib ext force orphan)
     (\<lambda>n s. cleaned lib (orders_of force orphan) n (nc_log s)) (\<lambda>_ _. True)"
proof -
  have asks: "(\<And>p. c \<noteq> Delete p) \<Longrightarrow> hoare (nc_count n) (check_output ext c) (\<lambda>_. nc_count n) (\<lambda>_ _. True)" for c n
    by (rule count_weaken [OF keeps_count])
  have listing: "hoare (nc_count n) (get_list lib ext path) (\<lambda>_. nc_count n) (\<lambda>_ _. True)" for path n
    unfolding get_list_def by (rule hoare_bind [OF asks count_weaken [OF keeps_liftP]]) simp
  have refuse: "hoare (nc_count 0) (refuse_active lib ext orphan) (\<lambda>_. nc_count 0) (\<lambda>_ _. True)"
    unfolding refuse_active_def active_orders_def
    by (rule count_weaken) (intro keeps_rules keeps_count, simp_all)
  have orders: "hoare (nc_count 0) (ncpy (the_scope force orphan tsc tvpc))
      (\<lambda>sc s. nat_orders sc = orders_of force orphan \<and> nc_count 0 s) (\<lambda>_ _. True)" for tsc tvpc
    by (rule hoare_conseq [OF hoare_ncpy [where P = "nc_count 0"]]) (auto simp: the_scope_def bindE_Inr_iff split: prod.splits)
  have last: "hoare (nc_count n) (thenP (check_done lib ext orders) (ret n))
      (\<lambda>m s. cleaned lib orders m (nc_log s)) (\<lambda>_ _. True)" for n orders
    by (rule hoare_conseq [OF hoare_done]) (auto simp: cleaned_def nc_count_def)
  have deletes: "hoare (nc_count 0) (bindP (delete_items lib ext NAT True (nat_hit sc) nats 0) (\<lambda>n1.
     bindP (delete_items lib ext SC False (\<lambda>_. Inr True) tsc n1) (\<lambda>n2.
     bindP (get_list lib ext VNET) (\<lambda>vnets.
     bindP (delete_items lib ext VNET True (vnet_hit sc) vnets n2) (\<lambda>n3.
     bindP (get_list lib ext VPC) (\<lambda>vpcs'.
     bindP (delete_items lib ext VPC False (vpc_again force) vpcs' n3) (\<lambda>n4.
     thenP (check_done lib ext orders) (ret n4))))))))
     (\<lambda>n s. cleaned lib orders n (nc_log s)) (\<lambda>_ _. True)" for sc nats tsc orders
    by (rule hoare_bind [OF hoare_delete_items_count], rule hoare_bind [OF hoare_delete_items_count],
        rule hoare_bind [OF listing], rule hoare_bind [OF hoare_delete_items_count], rule hoare_bind [OF listing],
        rule hoare_bind [OF hoare_delete_items_count last])
  show ?thesis unfolding remove_orders_def
  proof (rule hoare_bind [OF listing], rule hoare_bind [OF listing], rule hoare_bind [OF listing], rule hoare_then [OF refuse],
      rule hoare_bind [OF count_weaken [OF keeps_ncpy]], rule hoare_bind [OF count_weaken [OF keeps_ncpy]], rule hoare_bind [OF orders],
      rule hoare_pure)
    fix nats targets_sc and sc :: nc_scope assume "nat_orders sc = orders_of force orphan"
    then show "hoare (nc_count 0) (bindP (delete_items lib ext NAT True (nat_hit sc) nats 0) (\<lambda>n1.
     bindP (delete_items lib ext SC False (\<lambda>_. Inr True) targets_sc n1) (\<lambda>n2.
     bindP (get_list lib ext VNET) (\<lambda>vnets.
     bindP (delete_items lib ext VNET True (vnet_hit sc) vnets n2) (\<lambda>n3.
     bindP (get_list lib ext VPC) (\<lambda>vpcs'.
     bindP (delete_items lib ext VPC False (vpc_again force) vpcs' n3) (\<lambda>n4.
     thenP (check_done lib ext (nat_orders sc)) (ret n4))))))))
     (\<lambda>n s. cleaned lib (orders_of force orphan) n (nc_log s)) (\<lambda>_ _. True)"
      using deletes by simp
  qed
qed

text \<open>A run that returns has deleted exactly as many resources as it reports, every one of its
  deletions was accepted, and its last call is a listing of the NAT rules in which no rule carries the name
  of one of the orders.\<close>

theorem cleanup_returns_when_clean:
  assumes "cleanup_main lib ext argv \<lparr>nc_world = w, nc_log = []\<rparr> = (Inr n, t)"
  shows "cleaned lib (orders_of (forced (drop 4 argv)) (last (drop 4 argv))) n (nc_log t)"
proof -
  have "hoare (nc_count 0) (cleanup_main lib ext argv)
      (\<lambda>n s. cleaned lib (orders_of (forced (drop 4 argv)) (last (drop 4 argv))) n (nc_log s)) (\<lambda>_ _. True)"
  proof -
    have "hoare (nc_count 0) (check_output ext (Login b)) (\<lambda>_. nc_count 0) (\<lambda>_ _. True)" for b
      by (rule count_weaken [OF keeps_count]) simp
    moreover have "hoare (nc_count 0) (raise e :: ('a, nat) nc) Q (\<lambda>_ _. True)" for e Q by (simp add: hoare_def)
    ultimately show ?thesis unfolding cleanup_main_def Let_def by (intro hoare_if hoare_bind [where R = "\<lambda>_. nc_count 0"] hoare_remove_orders_count)
  qed
  from hoareD_ret [OF this _ assms] show ?thesis by (simp add: nc_count_def deletions_def)
qed

section \<open>A run\<close>

text \<open>A controller with one NAT rule of the targeted order, which is gone after its deletion.\<close>

definition nc_demo_ext :: "bool nc_ext" where
  "nc_demo_ext gone c = (case c of
       Login b \<Rightarrow> (Some [], gone)
     | Get p \<Rightarrow> (Some ((if p = NAT \<and> \<not> gone then ''N'' else ''E'') @ ''HTTP:200''), gone)
     | Delete p \<Rightarrow> (Some ''HTTP:204'', True)
     | OcGet r \<Rightarrow> (Some ''O'', gone))"

definition nc_demo_lib :: nc_lib where
  "nc_demo_lib = \<lparr>nc_loads = (\<lambda>s.
       if s = ''N'' then Some (JObj [(''isSuccess'', JBool True),
         (''data'', JArr [JObj [(''id'', JInt 7), (''name'', JStr ''order-a-snat'')], JObj [(''id'', JInt 8), (''name'', JStr ''order-c-snat'')]])])
       else if s = ''E'' then Some (JObj [(''isSuccess'', JBool True), (''data'', JArr [])])
       else if s = ''O'' then Some (JObj [(''items'', JArr [])]) else None), nc_repr = (\<lambda>j. [])\<rparr>"

definition nc_demo_argv :: "string list" where
  "nc_demo_argv = [''https://netris'', ''/tmp/jar'', ''user'', ''pw'', ''order-a'', ''--orphan-nat-order'', ''order-b'']"

lemma nc_demo_run:
  "cleanup_main nc_demo_lib nc_demo_ext nc_demo_argv \<lparr>nc_world = False, nc_log = []\<rparr> =
   (Inr 1, \<lparr>nc_world = True, nc_log = [(Login (login_body ''user'' ''pw''), Some []),
     (Get SC, Some ''EHTTP:200''), (Get VPC, Some ''EHTTP:200''), (Get NAT, Some ''NHTTP:200''),
     (OcGet ''clusterorders'', Some ''O''), (OcGet ''hostedclusters'', Some ''O''), (Delete (NAT @ ''/7''), Some ''HTTP:204''),
     (Get VNET, Some ''EHTTP:200''), (Get VPC, Some ''EHTTP:200''), (Get NAT, Some ''EHTTP:200'')]\<rparr>)"
  by code_simp

theorem cleanup_returns_when_clean_witness:
  "cleaned nc_demo_lib [''order-a'', ''order-b''] 1 (nc_log (snd (cleanup_main nc_demo_lib nc_demo_ext nc_demo_argv \<lparr>nc_world = False, nc_log = []\<rparr>)))"
proof -
  have "forced (drop 4 nc_demo_argv) = [''order-a'']" "last (drop 4 nc_demo_argv) = ''order-b''" by code_simp+
  then show ?thesis using cleanup_returns_when_clean [OF nc_demo_run] by (simp add: nc_demo_run orders_of_def)
qed

text \<open>The V-Net of a longer order name is taken for one of the targeted order.\<close>

lemma vnet_of_another_order_hit:
  "vnet_hit \<lparr>orphan_names = [JStr ''order-1''], orphan_vpc_ids = [], nat_orders = [''order-1'']\<rparr>
     (JObj [(''id'', JInt 3), (''name'', JStr ''order-12-net''), (''vpc'', JObj [(''name'', JStr ''order-12'')])]) = Inr True"
  by code_simp

end
