(* ===== verification/ExportAllowlist.thy ===== *)
theory ExportAllowlist
  imports PyDyn "HOL-Library.Sublist"
begin

text \<open>
  \<^verbatim>\<open>infra/netris/roles/gather-vmaas/files/export_vm_allowlist.py\<close>: reducing the objects of virtual machines
  to an allow-list before they are published.

  \<open>json.load\<close> is the parameter \<open>loads\<close>; the result is the exit status with the document that is written.
  The claims speak of paths of keys: what is at a path of the output.
\<close>

section \<open>The program\<close>

definition METADATA :: "string list" where
  "METADATA = [''name'', ''namespace'', ''uid'', ''creationTimestamp'', ''labels'']"

definition VM_STATUS :: "string list" where
  "VM_STATUS = [''printableStatus'', ''ready'', ''created'', ''conditions'', ''observedGeneration'', ''desiredGeneration'', ''startFailure'']"

definition VMI_STATUS :: "string list" where
  "VMI_STATUS = [''phase'', ''phaseTransitionTimestamps'', ''reason'', ''nodeName'', ''conditions'', ''interfaces'', ''guestOSInfo'',
     ''migrationState'', ''volumeStatus'']"

type_synonym obj = "(string \<times> json) list"

text \<open>\<open>x if isinstance(x, dict) else {}\<close>\<close>

definition obj_of :: "json \<Rightarrow> obj" where
  "obj_of j = (case j of JObj kvs \<Rightarrow> kvs | _ \<Rightarrow> [])"

definition pick :: "json \<Rightarrow> string list \<Rightarrow> obj" where
  "pick source keys = List.map_filter (\<lambda>key. map_option (Pair key) (map_of (obj_of source) key)) keys"

definition update :: "obj \<Rightarrow> obj \<Rightarrow> obj" where
  "update kvs new = fold (\<lambda>kv. dict_set (fst kv) (snd kv)) new kvs"

definition machine :: "json \<Rightarrow> obj" where
  "machine spec = (let
       out = pick spec [''networks''];
       domain = obj_get (obj_of spec) ''domain'';
       devices = obj_get (obj_of domain) ''devices'';
       interfaces = pick devices [''interfaces'']
     in if interfaces \<noteq> [] then dict_set ''domain'' (JObj [(''devices'', JObj interfaces)]) out else out)"

text \<open>A VirtualMachine has a template, a VirtualMachineInstance has none.\<close>

definition is_vm :: "obj \<Rightarrow> bool" where
  "is_vm spec = is_obj (obj_get spec ''template'')"

definition export_spec :: "obj \<Rightarrow> obj" where
  "export_spec spec = (let out = pick (JObj spec) [''runStrategy''] in
     if is_vm spec then
       (let template = machine (obj_get (obj_of (obj_get spec ''template'')) ''spec'') in
        if template \<noteq> [] then dict_set ''template'' (JObj [(''spec'', JObj template)]) out else out)
     else update out (machine (JObj spec)))"

definition export_item :: "obj \<Rightarrow> obj" where
  "export_item item = (let
       spec = obj_of (obj_get item ''spec'');
       out = [(''metadata'', JObj (pick (obj_get item ''metadata'') METADATA)), (''spec'', JObj (export_spec spec))];
       status = obj_get item ''status''
     in if is_obj status then dict_set ''status'' (JObj (pick status (if is_vm spec then VM_STATUS else VMI_STATUS))) out
        else out)"

definition export_items :: "json list \<Rightarrow> json list" where
  "export_items items = List.map_filter (\<lambda>i. case i of JObj item \<Rightarrow> Some (JObj (export_item item)) | _ \<Rightarrow> None) items"

definition export_main :: "(string \<Rightarrow> json option) \<Rightarrow> string \<Rightarrow> nat \<times> json option" where
  "export_main loads text = (case loads text of
       Some (JObj document) \<Rightarrow> (0, Some (JObj (case obj_get document ''items'' of
           JArr items \<Rightarrow> [(''items'', JArr (export_items items))]
         | _ \<Rightarrow> export_item document)))
     | _ \<Rightarrow> (1, None))"

section \<open>What is at a path\<close>

fun at :: "string list \<Rightarrow> json \<Rightarrow> json option" where
  "at [] j = Some j"
| "at (k # p) j = (case jget j k of None \<Rightarrow> None | Some v \<Rightarrow> at p v)"

text \<open>The paths whose values are exported, written down from the documentation of the program.\<close>

definition machine_paths :: "string list list" where
  "machine_paths = [[''networks''], [''domain'', ''devices'', ''interfaces'']]"

definition allowed :: "bool \<Rightarrow> string list list" where
  "allowed vm = map (\<lambda>k. [''metadata'', k]) METADATA @ [[''spec'', ''runStrategy'']] @
     map (\<lambda>p. (if vm then [''spec'', ''template'', ''spec''] else [''spec'']) @ p) machine_paths @
     map (\<lambda>k. [''status'', k]) (if vm then VM_STATUS else VMI_STATUS)"

text \<open>\<open>out\<close> holds of \<open>j\<close> what is at the paths \<open>ps\<close>, all of it, and beyond that only the objects that lead there.\<close>

definition exposes :: "string list list \<Rightarrow> json \<Rightarrow> json \<Rightarrow> bool" where
  "exposes ps j out \<longleftrightarrow> (\<forall>p v. at p out = Some v \<longrightarrow>
     p = [] \<or> (\<exists>q \<in> set ps. prefix q p \<and> at p j = Some v) \<or> (\<exists>q \<in> set ps. strict_prefix p q))"

definition restricts :: "string list list \<Rightarrow> json \<Rightarrow> json \<Rightarrow> bool" where
  "restricts ps j out \<longleftrightarrow> exposes ps j out \<and> (\<forall>p \<in> set ps. at p out = at p j)"

lemma map_of_pick: "map_of (pick source keys) k = (if k \<in> set keys then map_of (obj_of source) k else None)"
  by (induction keys) (auto simp: pick_def map_filter_simps split: option.splits)

lemma jget_obj_of: "map_of (obj_of j) k = jget j k"
  by (cases j) (simp_all add: obj_of_def)

lemma jget_JObj_obj_of [simp]: "jget (JObj (obj_of j)) k = jget j k"
  by (simp add: jget_obj_of)

lemma at_obj_get: "p \<noteq> [] \<Longrightarrow> at p (obj_get kvs k) = at (k # p) (JObj kvs)"
  by (cases p) (simp_all add: obj_get_def split: option.split)

text \<open>An object exposes what its values expose.\<close>

lemma exposes_obj:
  assumes "\<And>k v. map_of out k = Some v \<Longrightarrow>
      (\<exists>ps. ps \<noteq> [] \<and> [] \<notin> set ps \<and> (#) k ` set ps \<subseteq> set qs \<and> exposes ps (obj_get (obj_of j) k) v) \<or>
      ([k] \<in> set qs \<and> jget j k = Some v)"
  shows "exposes qs j (JObj out)"
  unfolding exposes_def
proof (intro allI impI)
  fix p v assume p: "at p (JObj out) = Some v"
  show "p = [] \<or> (\<exists>q \<in> set qs. prefix q p \<and> at p j = Some v) \<or> (\<exists>q \<in> set qs. strict_prefix p q)"
  proof (cases p)
    case (Cons k r)
    with p obtain w where w: "map_of out k = Some w" "at r w = Some v" by (auto split: option.splits)
    from assms [OF w(1)] show ?thesis
    proof (elim disjE exE conjE)
      assume "[k] \<in> set qs" "jget j k = Some w"
      with w Cons show ?thesis by (intro disjI2 disjI1 bexI [of _ "[k]"]) simp_all
    next
      fix ps assume ps: "ps \<noteq> []" "[] \<notin> set ps" "(#) k ` set ps \<subseteq> set qs" and e: "exposes ps (obj_get (obj_of j) k) w"
      from e w(2) consider "r = []" | q where "q \<in> set ps" "prefix q r" "r \<noteq> []" "at r (obj_get (obj_of j) k) = Some v"
        | q where "q \<in> set ps" "strict_prefix r q" unfolding exposes_def by blast
      then show ?thesis
      proof cases
        case 1
        obtain q where "q \<in> set ps" "q \<noteq> []" using ps(1,2) by (cases ps) auto
        with ps(3) 1 Cons show ?thesis by (intro disjI2 bexI [of _ "k # q"]) (auto simp: strict_prefix_def)
      next
        case 2
        then have "at p j = Some v" using at_obj_get [of r "obj_of j" k] Cons by (cases j) (simp_all add: obj_of_def)
        with 2 ps(3) Cons show ?thesis by (intro disjI2 disjI1 bexI [of _ "k # q"]) auto
      next
        case 3
        with ps(3) Cons show ?thesis by (intro disjI2 bexI [of _ "k # q"]) auto
      qed
    qed
  qed simp
qed

lemma exposes_leaf: "jget j k = Some v \<Longrightarrow> exposes [[k]] j (JObj [(k, v)])"
  by (rule exposes_obj) (simp split: if_splits)

lemma exposes_wrap:
  assumes "ps \<noteq> []" "[] \<notin> set ps" "exposes ps (obj_get (obj_of j) k) v"
  shows "exposes (map ((#) k) ps) j (JObj [(k, v)])"
  by (rule exposes_obj) (use assms in \<open>auto split: if_splits\<close>)

text \<open>A value that is no object shows as little as the empty object.\<close>

lemma at_obj_of: "p \<noteq> [] \<Longrightarrow> at p (JObj (obj_of j)) = at p j"
  by (cases p) (simp_all add: jget_obj_of)

lemma exposes_obj_of: "exposes ps (JObj (obj_of j)) out \<longleftrightarrow> exposes ps j out"
proof -
  have "(p = [] \<or> (\<exists>q \<in> set ps. prefix q p \<and> at p (JObj (obj_of j)) = Some v) \<or> R) =
      (p = [] \<or> (\<exists>q \<in> set ps. prefix q p \<and> at p j = Some v) \<or> R)" for p v R
    by (cases "p = []") (simp_all add: at_obj_of)
  then show ?thesis unfolding exposes_def by simp
qed

lemma exposes_merge:
  assumes "\<And>k v. map_of out k = Some v \<Longrightarrow> \<exists>ps out'. set ps \<subseteq> set qs \<and> exposes ps j (JObj out') \<and> map_of out' k = Some v"
  shows "exposes qs j (JObj out)"
  unfolding exposes_def
proof (intro allI impI)
  fix p v assume p: "at p (JObj out) = Some v"
  show "p = [] \<or> (\<exists>q \<in> set qs. prefix q p \<and> at p j = Some v) \<or> (\<exists>q \<in> set qs. strict_prefix p q)"
  proof (cases p)
    case (Cons k r)
    with p obtain w where w: "map_of out k = Some w" "at r w = Some v" by (auto split: option.splits)
    with assms obtain ps out' where ps: "set ps \<subseteq> set qs" "exposes ps j (JObj out')" "map_of out' k = Some w" by blast
    then have "at p (JObj out') = Some v" using w Cons by simp
    with ps show ?thesis unfolding exposes_def by blast
  qed simp
qed

lemma exposes_pick: "exposes (map (\<lambda>k. [k]) ks) j (JObj (pick j ks))"
  by (rule exposes_obj) (auto simp: map_of_pick jget_obj_of split: if_splits)

lemma map_of_machine:
  "map_of (machine spec) k =
     (if k = ''networks'' then jget spec k
      else if k = ''domain'' then (case at [''domain'', ''devices'', ''interfaces''] spec of None \<Rightarrow> None
        | Some v \<Rightarrow> Some (JObj [(''devices'', JObj [(''interfaces'', v)])]))
      else None)"
proof -
  have "jget (obj_get (obj_of (obj_get (obj_of spec) ''domain'')) ''devices'') ''interfaces'' = at [''domain'', ''devices'', ''interfaces''] spec"
    by (auto simp: obj_get_def jget_obj_of split: option.split)
  then have "pick (obj_get (obj_of (obj_get (obj_of spec) ''domain'')) ''devices'') [''interfaces''] =
      (case at [''domain'', ''devices'', ''interfaces''] spec of None \<Rightarrow> [] | Some v \<Rightarrow> [(''interfaces'', v)])"
    by (simp add: pick_def map_filter_simps jget_obj_of split: option.split)
  then show ?thesis
    by (auto simp: machine_def map_of_dict_set map_of_pick jget_obj_of split: option.split)
qed

lemma exposes_machine: "exposes machine_paths spec (JObj (machine spec))"
proof (rule exposes_obj)
  fix k v assume m: "map_of (machine spec) k = Some v"
  show "(\<exists>ps. ps \<noteq> [] \<and> [] \<notin> set ps \<and> (#) k ` set ps \<subseteq> set machine_paths \<and> exposes ps (obj_get (obj_of spec) k) v) \<or>
      ([k] \<in> set machine_paths \<and> jget spec k = Some v)"
  proof (cases "k = ''networks''")
    case True
    with m show ?thesis by (simp add: map_of_machine machine_paths_def)
  next
    case False
    with m obtain w where w: "k = ''domain''" "at [''domain'', ''devices'', ''interfaces''] spec = Some w"
      "v = JObj [(''devices'', JObj [(''interfaces'', w)])]"
      by (auto simp: map_of_machine split: if_splits option.splits)
    then have "jget (obj_get (obj_of (obj_get (obj_of spec) k)) ''devices'') ''interfaces'' = Some w"
      by (auto simp: obj_get_def jget_obj_of split: option.splits)
    then have "exposes (map ((#) ''devices'') [[''interfaces'']]) (obj_get (obj_of spec) k) v"
      unfolding w(3) by (intro exposes_wrap exposes_leaf) simp_all
    then have "exposes [[''devices'', ''interfaces'']] (obj_get (obj_of spec) k) v" by simp
    with w(1) show ?thesis by (intro disjI1 exI [of _ "[[''devices'', ''interfaces'']]"]) (simp add: machine_paths_def)
  qed
qed

lemma update_disjoint:
  "distinct (map fst new) \<Longrightarrow> map_of (update kvs new) k = (case map_of new k of None \<Rightarrow> map_of kvs k | Some v \<Rightarrow> Some v)"
  unfolding update_def
proof (induction new arbitrary: kvs)
  case (Cons kv new)
  have "map_of new (fst kv) = None" using Cons.prems by (simp add: map_of_eq_None_iff)
  with Cons show ?case by (cases kv) (simp add: map_of_dict_set split: option.split)
qed simp

lemma distinct_pick: "distinct keys \<Longrightarrow> distinct (map fst (pick source keys))"
proof (induction keys)
  case (Cons key keys)
  have "fst ` set (pick source keys) \<subseteq> set keys" by (auto simp: pick_def map_filter_def)
  with Cons show ?case by (auto simp: pick_def map_filter_simps split: option.split)
qed (simp add: pick_def map_filter_simps)

lemma distinct_machine: "distinct (map fst (machine spec))"
  by (simp add: machine_def Let_def distinct_pick distinct_dict_set)

definition spec_paths :: "bool \<Rightarrow> string list list" where
  "spec_paths vm = [''runStrategy''] # map ((@) (if vm then [''template'', ''spec''] else [])) machine_paths"

lemma allowed_parts:
  "allowed vm = map ((#) ''metadata'') (map (\<lambda>k. [k]) METADATA) @ map ((#) ''spec'') (spec_paths vm) @
     map ((#) ''status'') (map (\<lambda>k. [k]) (if vm then VM_STATUS else VMI_STATUS))"
  by (simp add: allowed_def spec_paths_def)

text \<open>The part of a template.\<close>

definition template_part :: "obj \<Rightarrow> obj" where
  "template_part spec = machine (obj_get (obj_of (obj_get spec ''template'')) ''spec'')"

lemma pick_strategy: "map_of (pick (JObj spec) [''runStrategy'']) k = Some v \<Longrightarrow> k = ''runStrategy'' \<and> map_of spec k = Some v"
  by (simp add: map_of_pick obj_of_def split: if_splits)

lemma export_spec_vm:
  "is_vm spec \<Longrightarrow> map_of (export_spec spec) = (if template_part spec \<noteq> []
     then (map_of (pick (JObj spec) [''runStrategy'']))(''template'' \<mapsto> JObj [(''spec'', JObj (template_part spec))])
     else map_of (pick (JObj spec) [''runStrategy'']))"
  by (simp add: export_spec_def Let_def template_part_def map_of_dict_set)

lemma export_spec_vmi:
  "\<not> is_vm spec \<Longrightarrow> map_of (export_spec spec) k = (case map_of (machine (JObj spec)) k of
     None \<Rightarrow> map_of (pick (JObj spec) [''runStrategy'']) k | Some v \<Rightarrow> Some v)"
  by (simp add: export_spec_def Let_def update_disjoint distinct_machine)

lemma exposes_template:
  assumes "is_vm spec"
  shows "exposes (map (\<lambda>p. [''template'', ''spec''] @ p) machine_paths) (JObj spec)
    (JObj [(''template'', JObj [(''spec'', JObj (template_part spec))])])"
proof -
  have ne: "machine_paths \<noteq> []" "[] \<notin> set machine_paths" by (simp_all add: machine_paths_def)
  have "exposes (map ((#) ''spec'') machine_paths) (obj_get (obj_of (JObj spec)) ''template'')
      (JObj [(''spec'', JObj (template_part spec))])"
    unfolding template_part_def
    by (rule exposes_wrap [OF ne]) (simp add: obj_of_def exposes_machine)
  from exposes_wrap [OF _ _ this] ne(1) show ?thesis by (simp add: comp_def image_iff)
qed

lemma exposes_spec: "exposes (spec_paths (is_vm spec)) (JObj spec) (JObj (export_spec spec))"
proof (rule exposes_merge)
  fix k v assume m: "map_of (export_spec spec) k = Some v"
  show "\<exists>ps out'. set ps \<subseteq> set (spec_paths (is_vm spec)) \<and> exposes ps (JObj spec) (JObj out') \<and> map_of out' k = Some v"
  proof (cases "map_of (pick (JObj spec) [''runStrategy'']) k = Some v")
    case True
    note s = pick_strategy [OF True]
    have "exposes [[k]] (JObj spec) (JObj [(k, v)])" by (rule exposes_leaf) (unfold jget.simps, rule s [THEN conjunct2])
    moreover have "k = ''runStrategy''" using s by (rule conjunct1)
    ultimately show ?thesis by (intro exI [of _ "[[k]]"] exI [of _ "[(k, v)]"]) (simp add: spec_paths_def)
  next
    case other: False
    show ?thesis
    proof (cases "is_vm spec")
      case True
      with m other have "map_of [(''template'', JObj [(''spec'', JObj (template_part spec))])] k = Some v"
        by (simp add: export_spec_vm split: if_splits)
      moreover have "set (map (\<lambda>p. [''template'', ''spec''] @ p) machine_paths) \<subseteq> set (spec_paths (is_vm spec))"
        using True by (auto simp: spec_paths_def)
      ultimately show ?thesis using exposes_template [OF True] by blast
    next
      case False
      with m other have "map_of (machine (JObj spec)) k = Some v"
        by (simp add: export_spec_vmi split: option.splits)
      moreover have "set machine_paths \<subseteq> set (spec_paths (is_vm spec))" using False by (auto simp: spec_paths_def)
      ultimately show ?thesis using exposes_machine by blast
    qed
  qed
qed

lemma at_machine: "p \<in> set machine_paths \<Longrightarrow> at p (JObj (machine spec)) = at p spec"
  unfolding machine_paths_def by (auto simp: map_of_machine split: option.splits)

lemma at_template:
  "is_vm spec \<Longrightarrow> p \<noteq> [] \<Longrightarrow> at ([''template'', ''spec''] @ p) (JObj spec) = at p (obj_get (obj_of (obj_get spec ''template'')) ''spec'')"
  by (cases p) (auto simp: is_vm_def is_obj_def obj_get_def obj_of_def split: option.splits json.splits)

lemma at_spec:
  assumes "p \<in> set (spec_paths (is_vm spec))"
  shows "at p (JObj (export_spec spec)) = at p (JObj spec)"
proof (cases "is_vm spec")
  case True
  from assms consider "p = [''runStrategy'']" | q where "q \<in> set machine_paths" "p = [''template'', ''spec''] @ q"
    using True by (auto simp: spec_paths_def)
  then show ?thesis
  proof cases
    case 1
    with True show ?thesis by (simp add: export_spec_vm map_of_pick obj_of_def)
  next
    case 2
    then have q: "q \<noteq> []" by (auto simp: machine_paths_def)
    have "at p (JObj (export_spec spec)) = at q (JObj (template_part spec))"
    proof (cases "template_part spec = []")
      case True
      with \<open>is_vm spec\<close> 2(2) q show ?thesis by (cases q) (simp_all add: export_spec_vm map_of_pick)
    next
      case False
      with \<open>is_vm spec\<close> 2(2) show ?thesis by (simp add: export_spec_vm)
    qed
    also have "\<dots> = at p (JObj spec)"
      using at_template [OF True q] at_machine [OF 2(1)] 2(2) by (simp add: template_part_def)
    finally show ?thesis .
  qed
next
  case False
  from assms consider "p = [''runStrategy'']" | "p \<in> set machine_paths"
    using False by (auto simp: spec_paths_def)
  then show ?thesis
  proof cases
    case 1
    with False show ?thesis by (simp add: export_spec_vmi map_of_machine map_of_pick obj_of_def)
  next
    case 2
    then obtain k r where p: "p = k # r" "k \<noteq> ''runStrategy''" by (auto simp: machine_paths_def)
    have "at p (JObj (export_spec spec)) = at p (JObj (machine (JObj spec)))"
      using False p by (simp add: export_spec_vmi map_of_pick split: option.split)
    with at_machine [OF 2] show ?thesis by simp
  qed
qed

text \<open>An item: its three parts.\<close>

lemma exposes_item:
  "exposes (allowed (is_vm (obj_of (obj_get item ''spec'')))) (JObj item) (JObj (export_item item))"
proof (rule exposes_merge)
  let ?spec = "obj_of (obj_get item ''spec'')"
  let ?keys = "if is_vm ?spec then VM_STATUS else VMI_STATUS"
  fix k v assume "map_of (export_item item) k = Some v"
  then consider (meta) "k = ''metadata''" "v = JObj (pick (obj_get item k) METADATA)"
    | (spec) "k = ''spec''" "v = JObj (export_spec ?spec)"
    | (status) "k = ''status''" "v = JObj (pick (obj_get item k) ?keys)"
    by (auto simp: export_item_def Let_def map_of_dict_set split: if_splits)
  then obtain ps where "ps \<noteq> []" "[] \<notin> set ps" "(#) k ` set ps \<subseteq> set (allowed (is_vm ?spec))" "exposes ps (obj_get item k) v"
  proof cases
    case meta
    have "METADATA \<noteq> []" by (simp add: METADATA_def)
    then show ?thesis
      by (intro that [of "map (\<lambda>k. [k]) METADATA"]) (use meta exposes_pick in \<open>auto simp: allowed_parts\<close>)
  next
    case spec
    have ne: "[] \<notin> set (spec_paths (is_vm ?spec))" by (auto simp: spec_paths_def machine_paths_def)
    have "exposes (spec_paths (is_vm ?spec)) (obj_get item k) v"
      using exposes_spec [of ?spec] spec exposes_obj_of by simp
    moreover note ne
    ultimately show ?thesis
      by (intro that [of "spec_paths (is_vm ?spec)"]) (use spec in \<open>auto simp: allowed_parts spec_paths_def\<close>)
  next
    case status
    have "?keys \<noteq> []" by (simp add: VM_STATUS_def VMI_STATUS_def)
    then show ?thesis
      by (intro that [of "map (\<lambda>k. [k]) ?keys"]) (use status exposes_pick [of ?keys] in \<open>auto simp: allowed_parts\<close>)
  qed
  then show "\<exists>ps out'. set ps \<subseteq> set (allowed (is_vm ?spec)) \<and> exposes ps (JObj item) (JObj out') \<and> map_of out' k = Some v"
    by (intro exI [of _ "map ((#) k) ps"] exI [of _ "[(k, v)]"]) (simp add: exposes_wrap obj_of_def)
qed

lemma at_item:
  assumes "p \<in> set (allowed (is_vm (obj_of (obj_get item ''spec''))))"
  shows "at p (JObj (export_item item)) = at p (JObj item)"
proof -
  let ?spec = "obj_of (obj_get item ''spec'')"
  let ?keys = "if is_vm ?spec then VM_STATUS else VMI_STATUS"
  have picked: "k \<in> set ks \<Longrightarrow> at [k] (JObj (pick j ks)) = at [k] j" for k ks j
    by (simp add: map_of_pick jget_obj_of split: option.split)
  have up: "p \<noteq> [] \<Longrightarrow> map_of (export_item item) k = Some (JObj o') \<Longrightarrow> at p (JObj o') = at p (obj_get item k) \<Longrightarrow>
      at (k # p) (JObj (export_item item)) = at (k # p) (JObj item)" for p k o'
    by (simp add: at_obj_get)
  have m: "map_of (export_item item) ''metadata'' = Some (JObj (pick (obj_get item ''metadata'') METADATA))"
    "map_of (export_item item) ''spec'' = Some (JObj (export_spec ?spec))"
    "is_obj (obj_get item ''status'') \<Longrightarrow> map_of (export_item item) ''status'' = Some (JObj (pick (obj_get item ''status'') ?keys))"
    by (simp_all add: export_item_def Let_def)
  from assms consider (meta) k where "k \<in> set METADATA" "p = [''metadata'', k]"
    | (spec) q where "q \<in> set (spec_paths (is_vm ?spec))" "p = ''spec'' # q"
    | (status) k where "k \<in> set ?keys" "p = [''status'', k]"
    unfolding allowed_parts by auto
  then show ?thesis
  proof cases
    case meta
    show ?thesis unfolding meta(2) by (rule up [OF _ m(1) picked [OF meta(1)]]) simp
  next
    case spec
    then have "q \<noteq> []" by (auto simp: spec_paths_def machine_paths_def)
    moreover from this have "at q (JObj (export_spec ?spec)) = at q (obj_get item ''spec'')"
      using at_spec [OF spec(1)] at_obj_of [of q "obj_get item ''spec''"] by simp
    ultimately show ?thesis unfolding spec(2) by (rule up [OF _ m(2)])
  next
    case status
    show ?thesis
    proof (cases "is_obj (obj_get item ''status'')")
      case True
      show ?thesis unfolding status(2) by (rule up [OF _ m(3) [OF True] picked [OF status(1)]]) simp
    next
      case False
      then have "map_of (export_item item) ''status'' = None" "at [k] (obj_get item ''status'') = None"
        by (simp_all add: export_item_def Let_def is_obj_def split: json.splits)
      with at_obj_get [of "[k]" item "''status''"] show ?thesis unfolding status(2) by simp
    qed
  qed
qed

text \<open>The exported object of a machine holds every value at an allow-listed path, unchanged, and
  nothing else: whatever it has at a path lies at or below an allow-listed path, where it is what the
  machine has there, or is an object that only leads to such a path.\<close>

theorem export_restricts_to_allowed:
  "restricts (allowed (is_vm (obj_of (obj_get item ''spec'')))) (JObj item) (JObj (export_item item))"
  unfolding restricts_def using exposes_item at_item by blast

text \<open>The program writes a document exactly when the input is a JSON object, and then exits with 0.
  The items of a list are exported one by one in order, and what is no object among them is left out.\<close>

theorem export_main_outcome:
  "export_main loads text = (case loads text of
     Some (JObj document) \<Rightarrow> (0, Some (JObj (if is_arr (obj_get document ''items'')
       then [(''items'', JArr (map (\<lambda>i. JObj (export_item (obj_of i))) (filter is_obj (case obj_get document ''items'' of JArr items \<Rightarrow> items))))]
       else export_item document)))
   | _ \<Rightarrow> (1, None))"
proof -
  have "export_items items = map (\<lambda>i. JObj (export_item (obj_of i))) (filter is_obj items)" for items
    by (induction items) (auto simp: export_items_def map_filter_simps is_obj_def obj_of_def split: json.splits)
  then show ?thesis
    by (auto simp: export_main_def is_arr_def split: option.splits json.splits)
qed

text \<open>User data in a template is not on the list.\<close>

lemma cloud_init_is_dropped:
  "export_main (\<lambda>_. Some (JObj [(''metadata'', JObj [(''name'', JStr ''vm-1''), (''annotations'', JObj [])]),
     (''spec'', JObj [(''template'', JObj [(''spec'', JObj [(''networks'', JArr []), (''volumes'', JArr [JStr ''password''])])])])])) [] =
   (0, Some (JObj [(''metadata'', JObj [(''name'', JStr ''vm-1'')]),
     (''spec'', JObj [(''template'', JObj [(''spec'', JObj [(''networks'', JArr [])])])])]))"
  by code_simp

end
