(* ===== verification/WorkerBmis.thy ===== *)
theory WorkerBmis
  imports Prelude PyDyn PyStr "HOL-Library.Char_ord" "HOL-Library.List_Lexorder"
begin

text \<open>
  \<^verbatim>\<open>infra/netris/roles/force-destroy-caas/files/delete_worker_bmis.py\<close>: deleting the bare metal instances
  of the worker hosts and waiting until they are gone from the API and from the hub.

  The commands, the clock and the pause are the parameter \<open>sys\<close>, over a world of any type \<open>'w\<close>; the state
  keeps the world and the log of what was asked and answered. Times are integers, in nanoseconds.
  \<open>wb_loads\<close> is \<open>json.loads\<close>. Keys of a \<open>dict\<close> and members of a \<open>set\<close> are kept up to equality of
  Python (\<open>py_key\<close>). The result is the exception that ends the program, or a unit for exit status 0. Progress
  lines are not modelled, except that sorting what they print may fail.
\<close>

section \<open>Commands and state\<close>

datatype wb_list = Hub | Api | Clusters

datatype wb_event =
    Listed wb_list "string option"   \<comment> \<open>\<open>None\<close>: the command failed or timed out\<close>
  | Removal string "int option"      \<comment> \<open>\<open>osac delete\<close> and its return code\<close>
  | Clock int
  | Paused

datatype wb_exn =
    Stop                             \<comment> \<open>\<open>SystemExit\<close> with a message\<close>
  | Fault                            \<comment> \<open>any other exception\<close>

record 'w wb_sys =
  sys_list :: "'w \<Rightarrow> wb_list \<Rightarrow> string option \<times> 'w"
  sys_delete :: "'w \<Rightarrow> string \<Rightarrow> int option \<times> 'w"
  sys_clock :: "'w \<Rightarrow> int \<times> 'w"
  sys_sleep :: "'w \<Rightarrow> 'w"

record 'w wb_state =
  wb_world :: 'w
  wb_log :: "wb_event list"

record wb_env =
  wb_loads :: "string \<Rightarrow> json option"
  wb_repr :: "json \<Rightarrow> string"       \<comment> \<open>the text of a value that is no text, integer, truth value or \<open>None\<close>\<close>
  bmh_namespace :: string
  workers :: string                  \<comment> \<open>a JSON text\<close>
  cluster_name :: string

type_synonym ('w, 'a) wb = "('w wb_state, wb_exn, 'a) prog"

definition wb_step :: "('w \<Rightarrow> 'a \<times> 'w) \<Rightarrow> ('a \<Rightarrow> wb_event) \<Rightarrow> ('w, 'a) wb" where
  "wb_step act event st =
     (case act (wb_world st) of (x, w) \<Rightarrow> (Inr x, st\<lparr>wb_world := w, wb_log := wb_log st @ [event x]\<rparr>))"

definition wpy :: "py_error + 'a \<Rightarrow> ('w, 'a) wb" where
  "wpy r = (case r of Inl e \<Rightarrow> raise Fault | Inr x \<Rightarrow> ret x)"

definition now :: "'w wb_sys \<Rightarrow> ('w, int) wb" where
  "now sys = wb_step (sys_clock sys) Clock"

definition pause :: "'w wb_sys \<Rightarrow> ('w, unit) wb" where
  "pause sys = wb_step (\<lambda>w. ((), sys_sleep sys w)) (\<lambda>_. Paused)"

section \<open>Reading the listings\<close>

text \<open>What \<open>load\<close> makes of the text of a command.\<close>

definition loaded :: "wb_env \<Rightarrow> string \<Rightarrow> wb_exn + json list" where
  "loaded env text = (case wb_loads env text of
       None \<Rightarrow> Inl Fault
     | Some (JArr items) \<Rightarrow> Inr items
     | Some (JObj kvs) \<Rightarrow> (case map_of kvs ''items'' of
           Some (JArr items) \<Rightarrow> Inr items
         | Some _ \<Rightarrow> Inl Stop
         | None \<Rightarrow> Inr (if kvs = [] then [] else [JObj kvs]))
     | Some _ \<Rightarrow> Inl Stop)"

definition load :: "wb_env \<Rightarrow> 'w wb_sys \<Rightarrow> wb_list \<Rightarrow> ('w, json list) wb" where
  "load env sys q = bindP (wb_step (\<lambda>w. sys_list sys w q) (Listed q)) (\<lambda>r.
     case r of None \<Rightarrow> raise Fault | Some text \<Rightarrow> liftP (loaded env text))"

text \<open>A key of a \<open>dict\<close>, a member of a \<open>set\<close>.\<close>

definition hash_key :: "json \<Rightarrow> py_error + json" where
  "hash_key j = bindE (hashable j) (\<lambda>j. Inr (py_key j))"

definition api_of :: "json list \<Rightarrow> py_error + (json \<times> json) list" where
  "api_of items = foldE (\<lambda>api item. bindE (d_key item ''id'') (\<lambda>i. bindE (hash_key i) (\<lambda>k. Inr (dict_set k item api)))) [] items"

definition api_bmis :: "wb_env \<Rightarrow> 'w wb_sys \<Rightarrow> ('w, (json \<times> json) list) wb" where
  "api_bmis env sys = bindP (load env sys Api) (\<lambda>items. wpy (api_of items))"

definition UUID_LABEL :: string where
  "UUID_LABEL = ''osac.openshift.io/baremetalinstance-uuid''"

definition sub_obj :: "json \<Rightarrow> string \<Rightarrow> py_error + json" where
  "sub_obj j k = bindE (d_get j k) (\<lambda>v. Inr (d_or v (JObj [])))"

definition bmi_id :: "json \<Rightarrow> py_error + json" where
  "bmi_id item = bindE (sub_obj item ''metadata'') (\<lambda>meta. bindE (sub_obj meta ''labels'') (\<lambda>labels.
     case labels of JObj kvs \<Rightarrow> Inr (case map_of kvs UUID_LABEL of None \<Rightarrow> JStr [] | Some v \<Rightarrow> v) | _ \<Rightarrow> Inl AttrErr))"

definition upper_ascii :: "char \<Rightarrow> char" where
  "upper_ascii c = (if in_range (CHR ''a'') (CHR ''z'') c then char_of (code c - 32) else c)"

text \<open>No upper case form of another character up to U+00FF is a letter of \<open>DELETING\<close>.\<close>

definition deleting :: "json \<Rightarrow> py_error + bool" where
  "deleting item = bindE (sub_obj item ''metadata'') (\<lambda>meta.
     bindE (sub_obj item ''status'') (\<lambda>status. bindE (d_get status ''state'') (\<lambda>state.
     case d_or state (JStr []) of
       JStr s \<Rightarrow> bindE (d_get meta ''deletion_timestamp'') (\<lambda>a. bindE (d_get meta ''deletionTimestamp'') (\<lambda>b.
         Inr (truthy a \<or> truthy b \<or> ends_with ''_DELETING'' (map upper_ascii s))))
     | _ \<Rightarrow> Inl AttrErr)))"

section \<open>Which instances to delete\<close>

definition worker_refs :: "wb_env \<Rightarrow> wb_exn + string list" where
  "worker_refs env = (case wb_loads env (workers env) of
       None \<Rightarrow> Inl Fault
     | Some doc \<Rightarrow> (case d_items doc of
           Inl e \<Rightarrow> Inl Fault
         | Inr names \<Rightarrow> Inr (map (\<lambda>n. bmh_namespace env @ ''/'' @ d_text (wb_repr env) n) names)))"

definition worker_item :: "string list \<Rightarrow> json \<Rightarrow> py_error + bool" where
  "worker_item refs item = bindE (sub_obj item ''spec'') (\<lambda>spec. bindE (d_get spec ''externalHostID'') (\<lambda>h.
     d_in_texts h refs))"

definition item_name :: "json \<Rightarrow> py_error + json" where
  "item_name item = bindE (d_key item ''metadata'') (\<lambda>m. d_key m ''name'')"

fun add_targets :: "string list \<Rightarrow> json list \<Rightarrow> json list \<Rightarrow> wb_exn + json list" where
  "add_targets refs targets [] = Inr targets"
| "add_targets refs targets (item # items) = (case worker_item refs item of
       Inl e \<Rightarrow> Inl Fault
     | Inr False \<Rightarrow> add_targets refs targets items
     | Inr True \<Rightarrow> (case bmi_id item of
           Inl e \<Rightarrow> Inl Fault
         | Inr i \<Rightarrow> if \<not> truthy i then (case item_name item of Inl e \<Rightarrow> Inl Fault | Inr n \<Rightarrow> Inl Stop)
             else (case hash_key i of Inl e \<Rightarrow> Inl Fault | Inr k \<Rightarrow> add_targets refs (List.insert k targets) items)))"

definition pending_of :: "(json \<times> json) list \<Rightarrow> py_error + json list" where
  "pending_of api = bindE (mapE (\<lambda>(k, item). bindE (deleting item) (\<lambda>d. Inr (k, d))) api) (\<lambda>kds.
     Inr (map fst (filter snd kds)))"

fun any_other :: "wb_env \<Rightarrow> json list \<Rightarrow> py_error + bool" where
  "any_other env [] = Inr False"
| "any_other env (item # items) = bindE (sub_obj item ''metadata'') (\<lambda>m. bindE (d_get m ''name'') (\<lambda>n.
     if n \<noteq> JStr (cluster_name env) then Inr True else any_other env items))"

definition minus :: "json list \<Rightarrow> json list \<Rightarrow> json list" where
  "minus xs ys = filter (\<lambda>x. x \<notin> set ys) xs"

definition ambiguous :: "bool \<Rightarrow> json list \<Rightarrow> json list \<Rightarrow> json list \<Rightarrow> json list" where
  "ambiguous other_clusters pending ids targets = minus (if other_clusters then pending else minus ids pending) targets"

text \<open>\<open>sorted\<close> of keys, and the arguments of a command, are texts.\<close>

definition all_texts :: "json list \<Rightarrow> py_error + string list" where
  "all_texts xs = mapE (\<lambda>x. case x of JStr s \<Rightarrow> Inr s | _ \<Rightarrow> Inl TypeErr) xs"

definition choose_targets :: "wb_env \<Rightarrow> json list \<Rightarrow> json list \<Rightarrow> json list \<Rightarrow> json list \<Rightarrow> wb_exn + json list" where
  "choose_targets env targets ids pending clusters = (case any_other env clusters of
       Inl e \<Rightarrow> Inl Fault
     | Inr other_clusters \<Rightarrow>
         let amb = ambiguous other_clusters pending ids targets
         in if amb \<noteq> [] then (case all_texts amb of Inl e \<Rightarrow> Inl Fault | Inr ts \<Rightarrow> Inl Stop)
            else Inr (if other_clusters then targets else remdups (targets @ pending)))"

section \<open>Deleting and waiting\<close>

definition remove_one :: "wb_env \<Rightarrow> 'w wb_sys \<Rightarrow> string \<Rightarrow> ('w, unit) wb" where
  "remove_one env sys key = bindP (wb_step (\<lambda>w. sys_delete sys w key) (Removal key)) (\<lambda>r. case r of
       None \<Rightarrow> raise Fault
     | Some status \<Rightarrow> if status = 0 then ret ()
         else bindP (api_bmis env sys) (\<lambda>api. if JStr key \<in> set (map fst api) then raise Stop else ret ()))"

definition common :: "json list \<Rightarrow> json list \<Rightarrow> json list" where
  "common xs ys = filter (\<lambda>x. x \<in> set ys) xs"

text \<open>Up to the last deletion; \<open>None\<close> when there is nothing to delete.\<close>

definition prepare :: "wb_env \<Rightarrow> 'w wb_sys \<Rightarrow> ('w, json list option) wb" where
  "prepare env sys =
     bindP (liftP (worker_refs env)) (\<lambda>refs.
     bindP (load env sys Hub) (\<lambda>hub. bindP (liftP (add_targets refs [] hub)) (\<lambda>workers.
     bindP (api_bmis env sys) (\<lambda>api. bindP (wpy (pending_of api)) (\<lambda>pending.
     bindP (load env sys Clusters) (\<lambda>clusters. bindP (liftP (choose_targets env workers (map fst api) pending clusters)) (\<lambda>targets.
     if targets = [] then ret None
     else bindP (wpy (all_texts (common targets (map fst api)))) (\<lambda>keys.
       thenP (forP (remove_one env sys) (sort keys)) (ret (Some targets))))))))))"

definition SECOND :: int where "SECOND = 1000000000"

definition sortable :: "json list \<Rightarrow> bool" where
  "sortable xs \<longleftrightarrow> length xs \<le> 1 \<or> list_all is_str xs \<or> list_all (\<lambda>x. case x of JInt i \<Rightarrow> True | JFloat f \<Rightarrow> True | _ \<Rightarrow> False) xs"

definition sorts :: "json list \<Rightarrow> py_error + unit" where
  "sorts xs = (if sortable xs then Inr () else Inl TypeErr)"

definition states_of :: "(json \<times> json) list \<Rightarrow> json list \<Rightarrow> py_error + json list" where
  "states_of api keys = mapE (\<lambda>k. case map_of api k of
     None \<Rightarrow> Inl KeyErr | Some item \<Rightarrow> bindE (sub_obj item ''status'') (\<lambda>s. d_get s ''state'')) keys"

definition poll :: "wb_env \<Rightarrow> 'w wb_sys \<Rightarrow> json list \<Rightarrow> int \<Rightarrow> int \<Rightarrow> ('w, int option) wb" where
  "poll env sys targets deadline next_report =
     bindP (api_bmis env sys) (\<lambda>api. bindP (load env sys Hub) (\<lambda>hub.
     bindP (wpy (mapE (\<lambda>item. bindE (bmi_id item) hash_key) hub)) (\<lambda>ids.
     let remaining_api = common targets (map fst api); remaining_hub = common targets ids in
     if remaining_api = [] \<and> remaining_hub = [] then ret None
     else bindP (now sys) (\<lambda>t.
       if deadline \<le> t then
         bindP (wpy (bindE (sorts remaining_api) (\<lambda>_. bindE (states_of api remaining_api) (\<lambda>_. sorts remaining_hub)))) (\<lambda>_. raise Stop)
       else
         bindP (if next_report \<le> t
                then bindP (wpy (bindE (sorts remaining_api) (\<lambda>_. sorts remaining_hub))) (\<lambda>_. ret (t + 60 * SECOND))
                else ret next_report) (\<lambda>next_report.
         thenP (pause sys) (ret (Some next_report)))))))"

partial_function (option) wait_gone ::
  "wb_env \<Rightarrow> 'w wb_sys \<Rightarrow> json list \<Rightarrow> int \<Rightarrow> int \<Rightarrow> 'w wb_state \<Rightarrow> ((wb_exn + unit) \<times> 'w wb_state) option" where
  "wait_gone env sys targets deadline next_report s = (case poll env sys targets deadline next_report s of
       (Inl e, t) \<Rightarrow> Some (Inl e, t)
     | (Inr None, t) \<Rightarrow> Some (Inr (), t)
     | (Inr (Some next_report'), t) \<Rightarrow> wait_gone env sys targets deadline next_report' t)"

text \<open>The whole program; \<open>None\<close> is a run that never ends.\<close>

definition worker_main :: "wb_env \<Rightarrow> 'w wb_sys \<Rightarrow> 'w \<Rightarrow> ((wb_exn + unit) \<times> 'w wb_state) option" where
  "worker_main env sys w = (case prepare env sys \<lparr>wb_world = w, wb_log = []\<rparr> of
       (Inl e, t) \<Rightarrow> Some (Inl e, t)
     | (Inr None, t) \<Rightarrow> Some (Inr (), t)
     | (Inr (Some targets), t) \<Rightarrow> (case now sys t of
           (Inl e, u) \<Rightarrow> Some (Inl e, u)
         | (Inr start, u) \<Rightarrow> wait_gone env sys targets (start + 600 * SECOND) 0 u))"

section \<open>What a listing shows\<close>

definition hub_has :: "wb_env \<Rightarrow> string \<Rightarrow> json \<Rightarrow> bool" where
  "hub_has env h k \<longleftrightarrow> (\<exists>items item. loaded env h = Inr items \<and> item \<in> set items \<and> bindE (bmi_id item) hash_key = Inr k)"

definition api_has :: "wb_env \<Rightarrow> string \<Rightarrow> json \<Rightarrow> json \<Rightarrow> bool" where
  "api_has env a k item \<longleftrightarrow> (\<exists>items api. loaded env a = Inr items \<and> api_of items = Inr api \<and> map_of api k = Some item)"

text \<open>The instance of a worker host, known by its label.\<close>

definition worker_key :: "wb_env \<Rightarrow> string \<Rightarrow> json \<Rightarrow> bool" where
  "worker_key env h k \<longleftrightarrow> (\<exists>refs items item i. worker_refs env = Inr refs \<and> loaded env h = Inr items \<and> item \<in> set items \<and>
     worker_item refs item = Inr True \<and> bmi_id item = Inr i \<and> truthy i \<and> hash_key i = Inr k)"

definition own_cluster :: "wb_env \<Rightarrow> json \<Rightarrow> bool" where
  "own_cluster env item \<longleftrightarrow> (\<exists>m. sub_obj item ''metadata'' = Inr m \<and> d_get m ''name'' = Inr (JStr (cluster_name env)))"

definition alone :: "wb_env \<Rightarrow> string \<Rightarrow> bool" where
  "alone env c \<longleftrightarrow> (\<exists>items. loaded env c = Inr items \<and> list_all (own_cluster env) items)"

definition being_deleted :: "wb_env \<Rightarrow> string \<Rightarrow> json \<Rightarrow> bool" where
  "being_deleted env a k \<longleftrightarrow> (\<exists>item. api_has env a k item \<and> deleting item = Inr True)"

text \<open>What the program is to delete, and when it must not delete anything.\<close>

definition wanted :: "wb_env \<Rightarrow> string \<Rightarrow> string \<Rightarrow> string \<Rightarrow> json \<Rightarrow> bool" where
  "wanted env h a c k \<longleftrightarrow> worker_key env h k \<or> (alone env c \<and> being_deleted env a k)"

definition doubtful :: "wb_env \<Rightarrow> string \<Rightarrow> string \<Rightarrow> string \<Rightarrow> json \<Rightarrow> bool" where
  "doubtful env h a c k \<longleftrightarrow> (\<exists>item. api_has env a k item) \<and> \<not> worker_key env h k \<and> (alone env c \<longleftrightarrow> \<not> being_deleted env a k)"

section \<open>The parts of the decision\<close>

lemma bindE_hash: "bindE (bmi_id item) hash_key = Inr k \<longleftrightarrow> (\<exists>i. bmi_id item = Inr i \<and> hash_key i = Inr k)"
  by (simp add: bindE_Inr_iff)

lemma add_targets_set:
  "add_targets refs ts items = Inr us \<Longrightarrow> set us = set ts \<union> {k. \<exists>item \<in> set items. worker_item refs item = Inr True \<and>
     (\<exists>i. bmi_id item = Inr i \<and> truthy i \<and> hash_key i = Inr k)}"
proof (induction refs ts items rule: add_targets.induct)
  case (2 refs ts item items)
  show ?case
  proof (cases "worker_item refs item")
    case (Inl e)
    with "2.prems" show ?thesis by simp
  next
    case (Inr b)
    show ?thesis
    proof (cases b)
      case False
      with Inr "2.prems" have "add_targets refs ts items = Inr us" by simp
      from "2.IH"(2) [OF _ _ this] Inr False show ?thesis by auto
    next
      case True
      with Inr "2.prems" obtain i k where i: "bmi_id item = Inr i" "truthy i" "hash_key i = Inr k"
        "add_targets refs (List.insert k ts) items = Inr us"
        by (auto split: sum.splits if_splits)
      have "{k'. \<exists>x \<in> set (item # items). worker_item refs x = Inr True \<and> (\<exists>i. bmi_id x = Inr i \<and> truthy i \<and> hash_key i = Inr k')} =
          insert k {k'. \<exists>x \<in> set items. worker_item refs x = Inr True \<and> (\<exists>i. bmi_id x = Inr i \<and> truthy i \<and> hash_key i = Inr k')}"
        using i(1,2,3) Inr True by auto
      with "2.IH"(1) [OF _ _ i(1) _ i(3,4)] i(2) Inr True show ?thesis by auto
    qed
  qed
qed simp

lemma api_of_distinct: "api_of items = Inr api \<Longrightarrow> distinct (map fst api)"
  unfolding api_of_def
  by (rule foldE_mem_invariant [where I = "\<lambda>api. distinct (map fst api)"])
    (auto simp: bindE_Inr_iff intro: distinct_dict_set)

lemma pending_set:
  assumes "pending_of api = Inr pending" "distinct (map fst api)"
  shows "k \<in> set pending \<longleftrightarrow> (\<exists>item. map_of api k = Some item \<and> deleting item = Inr True)"
proof -
  from assms(1) obtain kds where kds: "mapE (\<lambda>(k, item). bindE (deleting item) (\<lambda>d. Inr (k, d))) api = Inr kds"
    "pending = map fst (filter snd kds)" by (auto simp: pending_of_def bindE_Inr_iff)
  have "(k, True) \<in> set kds \<longleftrightarrow> (\<exists>item. (k, item) \<in> set api \<and> deleting item = Inr True)"
    using kds(1)
  proof (induction api arbitrary: kds)
    case (Cons x api)
    then obtain d rest where "deleting (snd x) = Inr d" "kds = (fst x, d) # rest"
      "mapE (\<lambda>(k, item). bindE (deleting item) (\<lambda>d. Inr (k, d))) api = Inr rest"
      by (auto simp: bindE_Inr_iff split: prod.splits)
    with Cons.IH [of rest] show ?case by (cases x) auto
  qed simp
  then show ?thesis using kds(2) assms(2) by (force simp: image_iff)
qed

lemma any_other_Inr: "any_other env items = Inr b \<Longrightarrow> b \<longleftrightarrow> \<not> list_all (own_cluster env) items"
  by (induction env items rule: any_other.induct) (auto simp: bindE_Inr_iff own_cluster_def split: if_splits)

text \<open>The decision on the three listings.\<close>

lemma choose_wanted:
  assumes "worker_refs env = Inr refs" "loaded env h = Inr hub" "add_targets refs [] hub = Inr ws"
    and "loaded env a = Inr items" "api_of items = Inr api" "pending_of api = Inr pending"
    and "loaded env c = Inr clusters" "choose_targets env ws (map fst api) pending clusters = Inr targets"
  shows "set targets = {k. wanted env h a c k}" and "\<not> doubtful env h a c k"
proof -
  have ws: "k \<in> set ws \<longleftrightarrow> worker_key env h k" for k
    using add_targets_set [OF assms(3)] assms(1,2) by (auto simp: worker_key_def)
  have has: "api_has env a k item \<longleftrightarrow> map_of api k = Some item" for k item
    using assms(4,5) by (auto simp: api_has_def)
  have pending: "k \<in> set pending \<longleftrightarrow> being_deleted env a k" for k
    using pending_set [OF assms(6) api_of_distinct [OF assms(5)]] by (simp add: being_deleted_def has)
  from assms(8) obtain other where other: "any_other env clusters = Inr other" "ambiguous other pending (map fst api) ws = []"
    "targets = (if other then ws else remdups (ws @ pending))"
    by (auto simp: choose_targets_def Let_def split: sum.splits if_splits)
  have alone: "alone env c \<longleftrightarrow> \<not> other" using any_other_Inr [OF other(1)] assms(7) by (simp add: alone_def)
  show "set targets = {k. wanted env h a c k}" using other(3) alone by (auto simp: wanted_def ws pending)
  have ids: "k \<in> set (map fst api) \<longleftrightarrow> (\<exists>item. api_has env a k item)" for k
    by (simp only: has map_of_eq_Some_iff [OF api_of_distinct [OF assms(5)]]) force
  have "k \<in> set pending \<Longrightarrow> k \<in> set (map fst api)" for k
    unfolding ids pending being_deleted_def by blast
  then show "\<not> doubtful env h a c k"
    using other(2) unfolding doubtful_def ids [symmetric] ambiguous_def minus_def alone
    by (auto simp: filter_empty_conv ws pending split: if_splits)
qed

section \<open>The log of a run\<close>

definition quiet_event :: "wb_event \<Rightarrow> bool" where
  "quiet_event e \<longleftrightarrow> (case e of Removal k r \<Rightarrow> False | _ \<Rightarrow> True)"

text \<open>The log starts with the three listings, and removes only instances that are wanted and that the API lists.\<close>

definition removing :: "wb_env \<Rightarrow> string \<Rightarrow> string \<Rightarrow> string \<Rightarrow> wb_event list \<Rightarrow> bool" where
  "removing env h a c log \<longleftrightarrow> (\<exists>rest. log = Listed Hub (Some h) # Listed Api (Some a) # Listed Clusters (Some c) # rest \<and>
     list_all (\<lambda>e. case e of Removal key r \<Rightarrow> wanted env h a c (JStr key) \<and> (\<exists>item. api_has env a (JStr key) item)
          | _ \<Rightarrow> True) rest)"

lemma removing_snoc:
  assumes "removing env h a c log" and "case e of Removal key r \<Rightarrow> wanted env h a c (JStr key) \<and> (\<exists>item. api_has env a (JStr key) item)
          | _ \<Rightarrow> True"
  shows "removing env h a c (log @ [e])"
proof -
  from assms(1) obtain rest where "log = Listed Hub (Some h) # Listed Api (Some a) # Listed Clusters (Some c) # rest"
    "list_all (\<lambda>e. case e of Removal key r \<Rightarrow> wanted env h a c (JStr key) \<and> (\<exists>item. api_has env a (JStr key) item)
          | _ \<Rightarrow> True) rest" by (auto simp: removing_def)
  with assms(2) show ?thesis unfolding removing_def by (intro exI [of _ "rest @ [e]"]) simp
qed

text \<open>A log that removes nothing, or removes so after listings that leave no doubt.\<close>

definition scoped_log :: "wb_env \<Rightarrow> wb_event list \<Rightarrow> bool" where
  "scoped_log env log \<longleftrightarrow> list_all quiet_event log \<or> (\<exists>h a c. removing env h a c log \<and> (\<forall>k. \<not> doubtful env h a c k))"

lemma scoped_snoc: "scoped_log env log \<Longrightarrow> quiet_event e \<Longrightarrow> scoped_log env (log @ [e])"
  unfolding scoped_log_def
proof (elim disjE exE conjE)
  fix h a c assume "removing env h a c log" "\<forall>k. \<not> doubtful env h a c k" "quiet_event e"
  moreover from this have "removing env h a c (log @ [e])"
    by (intro removing_snoc) (auto simp: quiet_event_def split: wb_event.splits)
  ultimately show "list_all quiet_event (log @ [e]) \<or> (\<exists>h a c. removing env h a c (log @ [e]) \<and> (\<forall>k. \<not> doubtful env h a c k))"
    by blast
qed simp

text \<open>Rules for the single steps.\<close>

lemma hoare_step:
  assumes "\<And>s x. P s \<Longrightarrow> Q x (wb_log s @ [event x])"
  shows "hoare P (wb_step act event) (\<lambda>x s. Q x (wb_log s)) E"
  using assms by (auto simp: hoare_def wb_step_def split: prod.split)

lemma hoare_wpy: "hoare P (wpy r) (\<lambda>x s. r = Inr x \<and> P s) (\<lambda>_. P)"
  by (auto simp: hoare_def wpy_def split: sum.splits)

lemma hoare_load:
  assumes "\<And>s r. P s \<Longrightarrow> R r (wb_log s @ [Listed q r])" and "\<And>r s. R r (wb_log s) \<Longrightarrow> E s"
  shows "hoare P (load env sys q) (\<lambda>items s. \<exists>text. loaded env text = Inr items \<and> R (Some text) (wb_log s)) (\<lambda>_. E)"
  unfolding load_def
proof (rule hoare_bind [OF hoare_step [where Q = R, OF assms(1)]])
  show "hoare (\<lambda>s. R r (wb_log s)) (case r of None \<Rightarrow> raise Fault | Some text \<Rightarrow> liftP (loaded env text))
      (\<lambda>items s. \<exists>text. loaded env text = Inr items \<and> R (Some text) (wb_log s)) (\<lambda>_. E)" for r
    using assms(2) by (cases r) (auto simp: hoare_def split: sum.splits)
qed

lemma keeps_step:
  "(\<And>s t x. I s \<Longrightarrow> wb_log t = wb_log s @ [event x] \<Longrightarrow> I t) \<Longrightarrow> keeps I (wb_step act event)"
  by (rule keepsI) (simp add: wb_step_def split: prod.split)

lemma keeps_wpy: "keeps I (wpy r)"
  by (cases r) (simp_all add: wpy_def keeps_ret keeps_raise)

lemma keeps_load:
  assumes "\<And>s t r. I s \<Longrightarrow> wb_log t = wb_log s @ [Listed q r] \<Longrightarrow> I t"
  shows "keeps I (load env sys q)"
proof -
  have "keeps I (case r of None \<Rightarrow> raise Fault | Some text \<Rightarrow> liftP (loaded env text))" for r
    by (cases r) (simp_all add: keeps_raise keeps_liftP)
  moreover have "keeps I (wb_step (\<lambda>w. sys_list sys w q) (Listed q))" by (rule keeps_step) (rule assms)
  ultimately show ?thesis unfolding load_def by (intro keeps_bind)
qed

lemma keeps_api:
  assumes "\<And>s t r. I s \<Longrightarrow> wb_log t = wb_log s @ [Listed Api r] \<Longrightarrow> I t"
  shows "keeps I (api_bmis env sys)"
  unfolding api_bmis_def by (rule keeps_bind [OF keeps_load keeps_wpy]) (rule assms)

lemma keeps_remove_one:
  assumes "\<And>s t r. I s \<Longrightarrow> wb_log t = wb_log s @ [Listed Api r] \<Longrightarrow> I t"
    and "\<And>s t r. I s \<Longrightarrow> wb_log t = wb_log s @ [Removal key r] \<Longrightarrow> I t"
  shows "keeps I (remove_one env sys key)"
proof -
  have "keeps I (case r of None \<Rightarrow> raise Fault | Some status \<Rightarrow> if status = 0 then ret ()
      else bindP (api_bmis env sys) (\<lambda>api. if JStr key \<in> set (map fst api) then raise Stop else ret ()))" for r
  proof (cases r)
    case (Some status)
    have "keeps I (api_bmis env sys)" by (rule keeps_api) (rule assms(1))
    then show ?thesis unfolding Some option.case by (intro keeps_if keeps_bind keeps_ret keeps_raise)
  qed (simp add: keeps_raise)
  moreover have "keeps I (wb_step (\<lambda>w. sys_delete sys w key) (Removal key))" by (rule keeps_step) (rule assms(2))
  ultimately show ?thesis unfolding remove_one_def by (intro keeps_bind)
qed

text \<open>A poll only lists, reads the clock and pauses.\<close>

lemma keeps_poll:
  assumes "\<And>s t e. I s \<Longrightarrow> quiet_event e \<Longrightarrow> wb_log t = wb_log s @ [e] \<Longrightarrow> I t"
  shows "keeps I (poll env sys targets deadline next_report)"
proof -
  have listing: "I s \<Longrightarrow> wb_log t = wb_log s @ [Listed q r] \<Longrightarrow> I t" for s t q r
    by (erule assms [where e = "Listed q r"]) (simp_all add: quiet_event_def)
  have "keeps I (load env sys Hub)" by (rule keeps_load) (rule listing)
  moreover have "keeps I (api_bmis env sys)" by (rule keeps_api) (rule listing)
  moreover have "keeps I (now sys)" unfolding now_def
    by (rule keeps_step, erule assms [where e = "Clock _"]) (simp_all add: quiet_event_def)
  moreover have "keeps I (pause sys)" unfolding pause_def
    by (rule keeps_step, erule assms [where e = Paused]) (simp_all add: quiet_event_def)
  ultimately show ?thesis unfolding poll_def Let_def by (intro keeps_bind keeps_then keeps_if keeps_ret keeps_raise keeps_wpy)
qed

lemma wait_gone_keeps:
  assumes "\<And>s t e. I s \<Longrightarrow> quiet_event e \<Longrightarrow> wb_log t = wb_log s @ [e] \<Longrightarrow> I t"
    and "wait_gone env sys targets deadline next_report s = Some (r, t)" "I s"
  shows "I t"
proof -
  have poll: "keeps I (poll env sys targets deadline n)" for env and sys :: "'a wb_sys" and targets deadline n by (rule keeps_poll) (rule assms(1))
  have "I s \<longrightarrow> I (snd (r, t))"
  proof (rule wait_gone.raw_induct [where P = "\<lambda>env sys targets deadline n s y. I s \<longrightarrow> I (snd y)", OF _ assms(2)], intro impI)
    fix rec and env and sys :: "'a wb_sys" and targets deadline n s y
    assume IH: "\<And>env sys targets deadline n s y. rec env sys targets deadline n s = Some y \<Longrightarrow> I s \<longrightarrow> I (snd y)"
      and step: "(case poll env sys targets deadline n s of (Inl e, t) \<Rightarrow> Some (Inl e, t) | (Inr None, t) \<Rightarrow> Some (Inr (), t)
        | (Inr (Some n'), t) \<Rightarrow> rec env sys targets deadline n' t) = Some y" and "I s"
    obtain r' u where run: "poll env sys targets deadline n s = (r', u)" by (cases "poll env sys targets deadline n s")
    with keepsD [OF poll \<open>I s\<close>, of env sys targets deadline n] have "I u" by simp
    with step IH run show "I (snd y)" by (auto split: sum.splits option.splits)
  qed
  with assms(3) show ?thesis by simp
qed

text \<open>Preparing: the log, and the targets.\<close>

definition ready :: "wb_env \<Rightarrow> json list option \<Rightarrow> wb_event list \<Rightarrow> bool" where
  "ready env r log \<longleftrightarrow> (\<exists>h a c. case r of
       None \<Rightarrow> log = [Listed Hub (Some h), Listed Api (Some a), Listed Clusters (Some c)] \<and> (\<forall>k. \<not> wanted env h a c k)
     | Some targets \<Rightarrow> targets \<noteq> [] \<and> removing env h a c log \<and> set targets = {k. wanted env h a c k})"

lemma all_texts_Inr: "all_texts xs = Inr ts \<Longrightarrow> JStr ` set ts = set xs"
  unfolding all_texts_def
proof (induction xs arbitrary: ts)
  case (Cons x xs)
  then obtain s rest where "x = JStr s" "ts = s # rest" "mapE (\<lambda>x. case x of JStr s \<Rightarrow> Inr s | _ \<Rightarrow> Inl TypeErr) xs = Inr rest"
    by (auto simp: bindE_Inr_iff split: json.splits)
  with Cons.IH [of rest] show ?case by auto
qed simp

lemma hoare_removals:
  assumes "\<And>key. key \<in> set keys \<Longrightarrow> wanted env h a c (JStr key) \<and> (\<exists>item. api_has env a (JStr key) item)"
  shows "keeps (\<lambda>s. removing env h a c (wb_log s)) (forP (remove_one env sys) keys)"
proof (rule keeps_forP, rule keeps_remove_one)
  fix key and s t :: "'a wb_state" and r
  assume "key \<in> set keys" "removing env h a c (wb_log s)" "wb_log t = wb_log s @ [Removal key r]"
  then show "removing env h a c (wb_log t)" using assms by (simp add: removing_snoc)
qed (simp add: removing_snoc)

text \<open>Single steps after a known log; an exception leaves a log that removes nothing.\<close>

abbreviation after_log :: "wb_event list \<Rightarrow> 'w wb_state \<Rightarrow> bool" where
  "after_log log \<equiv> \<lambda>s. wb_log s = log"

lemma quiet_scoped: "list_all quiet_event log \<Longrightarrow> scoped_log env log"
  by (simp add: scoped_log_def)

lemma lift_bind:
  assumes "list_all quiet_event log" "\<And>x. r = Inr x \<Longrightarrow> hoare (after_log log) (f x) Q (\<lambda>_ s. scoped_log env (wb_log s))"
  shows "hoare (after_log log) (bindP (liftP r) f) Q (\<lambda>_ s. scoped_log env (wb_log s))"
proof (cases r)
  case (Inl e)
  then show ?thesis using quiet_scoped [OF assms(1)] by (auto simp: hoare_def bindP_def)
next
  case (Inr x)
  with assms(2) [OF Inr] show ?thesis by (simp add: hoare_def bindP_def)
qed

lemma wpy_lift: "wpy r = liftP (case r of Inl e \<Rightarrow> Inl Fault | Inr x \<Rightarrow> Inr x)"
  by (cases r) (simp_all add: wpy_def fun_eq_iff)

lemma wpy_bind:
  assumes "list_all quiet_event log" "\<And>x. r = Inr x \<Longrightarrow> hoare (after_log log) (f x) Q (\<lambda>_ s. scoped_log env (wb_log s))"
  shows "hoare (after_log log) (bindP (wpy r) f) Q (\<lambda>_ s. scoped_log env (wb_log s))"
  unfolding wpy_lift by (rule lift_bind [OF assms(1)]) (rule assms(2), simp split: sum.splits)

lemma load_bind:
  assumes "\<And>r. list_all quiet_event (log @ [Listed q r])"
    and "\<And>text items. loaded env text = Inr items \<Longrightarrow>
      hoare (after_log (log @ [Listed q (Some text)])) (f items) Q (\<lambda>_ s. scoped_log env (wb_log s))"
  shows "hoare (after_log log) (bindP (load env sys q) f) Q (\<lambda>_ s. scoped_log env (wb_log s))"
proof (rule hoare_bind)
  show "hoare (after_log log) (load env sys q)
      (\<lambda>items s. \<exists>text. loaded env text = Inr items \<and> wb_log s = log @ [Listed q (Some text)]) (\<lambda>_ s. scoped_log env (wb_log s))"
    by (rule hoare_load [where R = "\<lambda>r l. l = log @ [Listed q r]"]) (use assms(1) in \<open>auto intro: quiet_scoped\<close>)
  show "hoare (\<lambda>s. \<exists>text. loaded env text = Inr items \<and> wb_log s = log @ [Listed q (Some text)]) (f items) Q
      (\<lambda>_ s. scoped_log env (wb_log s))" for items
    by (intro hoare_ex hoare_pure assms(2))
qed

lemma bindP_assoc: "bindP (bindP m f) g = bindP m (\<lambda>x. bindP (f x) g)"
  by (rule ext) (auto simp: bindP_def split: prod.split sum.split)

lemma hoare_prepare:
  "hoare (after_log []) (prepare env sys)
     (\<lambda>r s. scoped_log env (wb_log s) \<and> ready env r (wb_log s)) (\<lambda>_ s. scoped_log env (wb_log s))"
  (is "hoare _ _ ?Q (\<lambda>_. ?E)")
proof -
  have quiet: "list_all quiet_event [Listed Hub r]" "list_all quiet_event [Listed Hub r, Listed Api q]"
    "list_all quiet_event [Listed Hub r, Listed Api q, Listed Clusters p]" for r q p
    by (simp_all add: quiet_event_def)
  have decided: "hoare (\<lambda>s. wb_log s = [Listed Hub (Some h), Listed Api (Some a), Listed Clusters (Some c)])
      (if targets = [] then ret None
       else bindP (wpy (all_texts (common targets (map fst api)))) (\<lambda>keys.
         thenP (forP (remove_one env sys) (sort keys)) (ret (Some targets)))) ?Q (\<lambda>_. ?E)"
    if targets: "set targets = {k. wanted env h a c k}" and clear: "\<And>k. \<not> doubtful env h a c k"
      and api: "loaded env a = Inr items" "api_of items = Inr api" for h a c targets items api
  proof (rule hoare_if)
    assume "targets = []"
    with targets show "hoare (\<lambda>s. wb_log s = [Listed Hub (Some h), Listed Api (Some a), Listed Clusters (Some c)]) (ret None) ?Q (\<lambda>_. ?E)"
      using quiet(3) by (auto simp: hoare_def ready_def scoped_log_def)
  next
    assume some: "targets \<noteq> []"
    let ?start = "\<lambda>s. wb_log s = [Listed Hub (Some h), Listed Api (Some a), Listed Clusters (Some c)]"
    show "hoare ?start
        (bindP (wpy (all_texts (common targets (map fst api)))) (\<lambda>keys.
         thenP (forP (remove_one env sys) (sort keys)) (ret (Some targets)))) ?Q (\<lambda>_. ?E)"
    proof (rule hoare_bind [OF hoare_conseq [OF hoare_wpy [where P = ?start]] hoare_pure])
      fix keys assume keys: "all_texts (common targets (map fst api)) = Inr keys"
      have scoped: "removing env h a c l \<Longrightarrow> scoped_log env l" for l using clear by (auto simp: scoped_log_def)
      let ?R = "\<lambda>s. removing env h a c (wb_log s)"
      have "wanted env h a c (JStr key) \<and> (\<exists>item. api_has env a (JStr key) item)" if "key \<in> set (sort keys)" for key
      proof -
        have key: "JStr key \<in> set targets" "JStr key \<in> set (map fst api)"
          using that all_texts_Inr [OF keys] by (auto simp: common_def)
        then have "\<exists>item. map_of api (JStr key) = Some item" by (metis map_of_eq_None_iff not_None_eq set_map)
        with key(1) targets api show ?thesis by (auto simp: api_has_def)
      qed
      then have "keeps ?R (forP (remove_one env sys) (sort keys))" by (rule hoare_removals)
      then have "hoare ?R (thenP (forP (remove_one env sys) (sort keys)) (ret (Some targets))) (\<lambda>r s. r = Some targets \<and> ?R s) (\<lambda>_. ?R)"
        unfolding keeps_hoare by (rule hoare_then) (simp add: hoare_def)
      then show "hoare ?start (thenP (forP (remove_one env sys) (sort keys)) (ret (Some targets))) ?Q (\<lambda>_. ?E)"
        by (rule hoare_conseq) (use some targets scoped in \<open>auto simp: removing_def [of _ _ _ _ "[_, _, _]"] ready_def\<close>)
    qed (use quiet(3) in \<open>auto simp: scoped_log_def\<close>)
  qed
  show ?thesis unfolding prepare_def api_bmis_def bindP_assoc
  proof (rule lift_bind, simp, rule load_bind, simp add: quiet_event_def, rule lift_bind, simp add: quiet_event_def, rule load_bind, simp add: quiet_event_def,
      rule wpy_bind, simp add: quiet_event_def, rule wpy_bind, simp add: quiet_event_def, rule load_bind, simp add: quiet_event_def, rule lift_bind, simp add: quiet_event_def,
      unfold append_Nil append_Cons)
    fix refs h hub ws a items api pending c clusters targets
    assume "worker_refs env = Inr refs" "loaded env h = Inr hub" "add_targets refs [] hub = Inr ws" "loaded env a = Inr items"
      "api_of items = Inr api" "pending_of api = Inr pending" "loaded env c = Inr clusters"
      "choose_targets env ws (map fst api) pending clusters = Inr targets"
    note w = choose_wanted [OF this]
    show "hoare (after_log [Listed Hub (Some h), Listed Api (Some a), Listed Clusters (Some c)])
      (if targets = [] then ret None
       else bindP (wpy (all_texts (common targets (map fst api)))) (\<lambda>keys.
         thenP (forP (remove_one env sys) (sort keys)) (ret (Some targets)))) ?Q (\<lambda>_. ?E)"
      by (rule decided [OF w]) fact+
  qed
qed

text \<open>Claim C19: however a run ends, it deletes only instances that the API listed and that belong to a worker
  host or are already being deleted in a tenant without another cluster, and it deletes nothing when the
  listings leave an instance in doubt.\<close>

theorem removals_are_scoped:
  assumes "worker_main env sys w = Some (r, t)"
  shows "scoped_log env (wb_log t)"
proof -
  obtain p s where prep: "prepare env sys \<lparr>wb_world = w, wb_log = []\<rparr> = (p, s)" by fastforce
  have s: "scoped_log env (wb_log s)"
  proof (cases p)
    case (Inl e)
    with prep show ?thesis using hoareD_exn [OF hoare_prepare, of "\<lparr>wb_world = w, wb_log = []\<rparr>" env sys] by simp
  next
    case (Inr x)
    with prep show ?thesis using hoareD_ret [OF hoare_prepare, of "\<lparr>wb_world = w, wb_log = []\<rparr>" env sys] by simp
  qed
  have keep: "scoped_log env (wb_log u)" if "wait_gone env sys targets deadline n s' = Some (q, u)" "scoped_log env (wb_log s')" for targets deadline n s' q u
    by (rule wait_gone_keeps [where I = "\<lambda>s. scoped_log env (wb_log s)", OF _ that]) (simp add: scoped_snoc)
  show ?thesis
  proof (cases p)
    case (Inl e)
    with assms prep s show ?thesis by (simp add: worker_main_def)
  next
    case (Inr x)
    obtain i u where clock: "now sys s = (Inr i, u)" "wb_log u = wb_log s @ [Clock i]"
      by (cases "sys_clock sys (wb_world s)") (auto simp: now_def wb_step_def)
    have u: "scoped_log env (wb_log u)" unfolding clock(2) by (rule scoped_snoc [OF s]) (simp add: quiet_event_def)
    from assms prep Inr clock(1) s keep [OF _ u] show ?thesis by (auto simp: worker_main_def split: option.splits)
  qed
qed

section \<open>Exit status 0\<close>

text \<open>The last two events are listings that can be read and show none of the instances.\<close>

definition gone :: "wb_env \<Rightarrow> json set \<Rightarrow> wb_event list \<Rightarrow> bool" where
  "gone env ks log \<longleftrightarrow> (\<exists>before a h items api hub. log = before @ [Listed Api (Some a), Listed Hub (Some h)] \<and>
     loaded env a = Inr items \<and> api_of items = Inr api \<and> loaded env h = Inr hub \<and>
     (\<forall>k \<in> ks. (\<nexists>item. api_has env a k item) \<and> \<not> hub_has env h k))"

lemma mapE_Inr_set: "mapE f xs = Inr ys \<Longrightarrow> y \<in> set ys \<longleftrightarrow> (\<exists>x \<in> set xs. f x = Inr y)"
  by (induction xs arbitrary: ys) (auto simp: bindE_Inr_iff)

lemma load_returns:
  "load env sys q s = (Inr items, t) \<Longrightarrow> \<exists>text. loaded env text = Inr items \<and> wb_log t = wb_log s @ [Listed q (Some text)]"
  by (auto simp: load_def wb_step_def bindP_def split: prod.splits option.splits sum.splits)

lemma wpy_returns: "wpy r s = (Inr x, t) \<Longrightarrow> r = Inr x \<and> t = s"
  by (auto simp: wpy_def split: sum.splits)

lemma poll_none_gone:
  assumes "poll env sys targets deadline n s = (Inr None, t)"
  shows "gone env (set targets) (wb_log t)"
proof -
  from assms obtain items u1 api u2 hub u3 ids u4 where run: "load env sys Api s = (Inr items, u1)" "wpy (api_of items) u1 = (Inr api, u2)"
    "load env sys Hub u2 = (Inr hub, u3)" "wpy (mapE (\<lambda>item. bindE (bmi_id item) hash_key) hub) u3 = (Inr ids, u4)"
    and rest: "(if common targets (map fst api) = [] \<and> common targets ids = [] then ret None
      else bindP (now sys) (\<lambda>t.
       if deadline \<le> t then
         bindP (wpy (bindE (sorts (common targets (map fst api))) (\<lambda>_. bindE (states_of api (common targets (map fst api)))
           (\<lambda>_. sorts (common targets ids))))) (\<lambda>_. raise Stop)
       else
         bindP (if n \<le> t
                then bindP (wpy (bindE (sorts (common targets (map fst api))) (\<lambda>_. sorts (common targets ids)))) (\<lambda>_. ret (t + 60 * SECOND))
                else ret n) (\<lambda>next_report.
         thenP (pause sys) (ret (Some next_report))))) u4 = (Inr None, t)"
    unfolding poll_def api_bmis_def bindP_assoc Let_def bindP_Inr_iff by (elim exE conjE) (rule that)
  from load_returns [OF run(1)] load_returns [OF run(3)] obtain a h where
    a: "loaded env a = Inr items" "wb_log u1 = wb_log s @ [Listed Api (Some a)]" and
    h: "loaded env h = Inr hub" "wb_log u3 = wb_log u2 @ [Listed Hub (Some h)]" by blast
  have api: "loaded env a = Inr items" "api_of items = Inr api" "u2 = u1" using a(1) wpy_returns [OF run(2)] by simp_all
  have hub: "loaded env h = Inr hub" "mapE (\<lambda>item. bindE (bmi_id item) hash_key) hub = Inr ids" "u4 = u3"
    using h(1) wpy_returns [OF run(4)] by simp_all
  have none: "common targets (map fst api) = []" "common targets ids = []" and "t = u4"
    using rest by (auto simp: run_iff split: if_splits)
  have log: "wb_log t = wb_log s @ [Listed Api (Some a), Listed Hub (Some h)]"
    using a(2) h(2) api(3) hub(3) \<open>t = u4\<close> by simp
  have "\<not> (\<exists>item. api_has env a k item)" if "k \<in> set targets" for k
  proof -
    have "k \<notin> set (map fst api)" using none(1) that by (auto simp: common_def filter_empty_conv)
    then have "map_of api k = None" by (simp add: map_of_eq_None_iff)
    then show ?thesis using api by (auto simp: api_has_def)
  qed
  moreover have "\<not> hub_has env h k" if "k \<in> set targets" for k
    using none(2) that hub mapE_Inr_set [OF hub(2)] by (auto simp: hub_has_def common_def filter_empty_conv)
  ultimately show ?thesis using log api hub(1) unfolding gone_def by blast
qed

lemma wait_gone_gone:
  assumes "wait_gone env sys targets deadline n s = Some (Inr (), t)"
  shows "gone env (set targets) (wb_log t)"
proof -
  have "fst (Inr () :: wb_exn + unit, t) = Inr () \<longrightarrow> gone env (set targets) (wb_log (snd (Inr () :: wb_exn + unit, t)))"
  proof (rule wait_gone.raw_induct [where P = "\<lambda>env sys targets deadline n s y. fst y = Inr () \<longrightarrow> gone env (set targets) (wb_log (snd y))", OF _ assms], intro impI)
    fix rec and env and sys :: "'a wb_sys" and targets deadline n s y
    assume IH: "\<And>env sys targets deadline n s y. rec env sys targets deadline n s = Some y \<Longrightarrow>
        fst y = Inr () \<longrightarrow> gone env (set targets) (wb_log (snd y))"
      and step: "(case poll env sys targets deadline n s of (Inl e, t) \<Rightarrow> Some (Inl e, t) | (Inr None, t) \<Rightarrow> Some (Inr (), t)
        | (Inr (Some n'), t) \<Rightarrow> rec env sys targets deadline n' t) = Some y" and "fst y = Inr ()"
    then show "gone env (set targets) (wb_log (snd y))"
      using poll_none_gone [of env sys targets deadline n s] by (auto split: sum.splits option.splits prod.splits)
  qed
  then show ?thesis by simp
qed

text \<open>Exit status 0 means that there was nothing to delete, or that the last two listings, of the API
  and then of the hub, show none of the instances that were to be deleted.\<close>

theorem exit_zero_means_gone:
  assumes "worker_main env sys w = Some (Inr (), t)"
  shows "\<exists>h a c rest. wb_log t = Listed Hub (Some h) # Listed Api (Some a) # Listed Clusters (Some c) # rest \<and>
    (if {k. wanted env h a c k} = {} then rest = [] else gone env {k. wanted env h a c k} (wb_log t))"
proof -
  obtain p s where prep: "prepare env sys \<lparr>wb_world = w, wb_log = []\<rparr> = (Inr p, s)"
    using assms by (cases "prepare env sys \<lparr>wb_world = w, wb_log = []\<rparr>") (auto simp: worker_main_def split: sum.splits)
  then have r: "ready env p (wb_log s)"
    using hoareD_ret [OF hoare_prepare, of "\<lparr>wb_world = w, wb_log = []\<rparr>" env sys] by simp
  show ?thesis
  proof (cases p)
    case None
    with assms prep have "t = s" by (simp add: worker_main_def)
    from r None obtain h a c where "wb_log s = [Listed Hub (Some h), Listed Api (Some a), Listed Clusters (Some c)]"
      "\<forall>k. \<not> wanted env h a c k" by (auto simp: ready_def)
    with \<open>t = s\<close> show ?thesis by (intro exI [of _ h] exI [of _ a] exI [of _ c] exI [of _ "[]"]) simp
  next
    case (Some targets)
    with r obtain h a c where rem: "removing env h a c (wb_log s)" "targets \<noteq> []" and targets: "set targets = {k. wanted env h a c k}"
      by (auto simp: ready_def)
    let ?starts = "\<lambda>log. \<exists>rest. log = Listed Hub (Some h) # Listed Api (Some a) # Listed Clusters (Some c) # rest"
    obtain i u where clock: "now sys s = (Inr i, u)" "wb_log u = wb_log s @ [Clock i]"
      by (cases "sys_clock sys (wb_world s)") (auto simp: now_def wb_step_def)
    with assms prep Some have wait: "wait_gone env sys targets (i + 600 * SECOND) 0 u = Some (Inr (), t)"
      by (simp add: worker_main_def)
    have "?starts (wb_log u)" using rem(1) clock(2) by (auto simp: removing_def)
    then have "?starts (wb_log t)"
      by (rule wait_gone_keeps [where I = "\<lambda>s. ?starts (wb_log s)", OF _ wait, rotated]) auto
    moreover have "gone env {k. wanted env h a c k} (wb_log t)" using wait_gone_gone [OF wait] targets by simp
    moreover have "{k. wanted env h a c k} \<noteq> {}" using rem(2) targets by (metis set_empty)
    ultimately show ?thesis by (metis (no_types))
  qed
qed

section \<open>The wait ends\<close>

text \<open>A clock that never runs backwards: no command moves it back, a reading lies between the times before
  and after it, and a pause takes at least its five seconds.\<close>

definition passes_time :: "'w wb_sys \<Rightarrow> ('w \<Rightarrow> int) \<Rightarrow> bool" where
  "passes_time sys time \<longleftrightarrow> (\<forall>w. (\<forall>q. time w \<le> time (snd (sys_list sys w q))) \<and> (\<forall>k. time w \<le> time (snd (sys_delete sys w k))) \<and>
     time w \<le> fst (sys_clock sys w) \<and> fst (sys_clock sys w) \<le> time (snd (sys_clock sys w)) \<and>
     time w + 5 * SECOND \<le> time (sys_sleep sys w))"

definition pauses :: "wb_event list \<Rightarrow> nat" where
  "pauses log = length (filter (\<lambda>e. e = Paused) log)"

definition since :: "('w \<Rightarrow> int) \<Rightarrow> int \<Rightarrow> nat \<Rightarrow> 'w wb_state \<Rightarrow> bool" where
  "since time start p s \<longleftrightarrow> start \<le> time (wb_world s) \<and> pauses (wb_log s) = p"

lemma since_list: "passes_time sys time \<Longrightarrow> keeps (since time start p) (load env sys q)"
proof -
  assume "passes_time sys time"
  then have step: "time w \<le> time (snd (sys_list sys w q))" for w by (simp add: passes_time_def)
  have "keeps (since time start p) (wb_step (\<lambda>w. sys_list sys w q) (Listed q))"
  proof (rule keepsI)
    fix s assume "since time start p s"
    with step [of "wb_world s"] show "since time start p (snd (wb_step (\<lambda>w. sys_list sys w q) (Listed q) s))"
      by (cases "sys_list sys (wb_world s) q") (simp add: since_def wb_step_def pauses_def)
  qed
  moreover have "keeps (since time start p) (case r of None \<Rightarrow> raise Fault | Some text \<Rightarrow> liftP (loaded env text))" for r
    by (cases r) (simp_all add: keeps_raise keeps_liftP)
  ultimately show ?thesis unfolding load_def by (intro keeps_bind)
qed

lemma since_now:
  assumes "passes_time sys time"
  shows "hoare (since time start p) (now sys) (\<lambda>c s. start \<le> c \<and> since time c p s) (\<lambda>_. since time start p)"
proof -
  have step: "time w \<le> fst (sys_clock sys w)" "fst (sys_clock sys w) \<le> time (snd (sys_clock sys w))" for w
    using assms by (simp_all add: passes_time_def)
  show ?thesis
  proof (rule hoareI)
    fix s c t assume "since time start p s" "now sys s = (Inr c, t)"
    with step [of "wb_world s"] show "start \<le> c \<and> since time c p t"
      by (cases "sys_clock sys (wb_world s)") (auto simp: since_def now_def wb_step_def pauses_def)
  qed (simp add: now_def wb_step_def split: prod.splits)
qed

lemma since_pause:
  assumes "passes_time sys time"
  shows "hoare (since time start p) (pause sys) (\<lambda>_. since time (start + 5 * SECOND) (Suc p)) E"
proof -
  have step: "time w + 5 * SECOND \<le> time (sys_sleep sys w)" for w using assms by (simp add: passes_time_def)
  show ?thesis
  proof (rule hoareI)
    fix s x t assume "since time start p s" "pause sys s = (Inr x, t)"
    with step [of "wb_world s"] show "since time (start + 5 * SECOND) (Suc p) t"
      by (auto simp: since_def pause_def wb_step_def pauses_def)
  qed (simp add: pause_def wb_step_def)
qed

text \<open>A poll that goes on has paused once, before the deadline.\<close>

lemma since_poll:
  assumes "passes_time sys time"
  shows "hoare (since time start p) (poll env sys targets deadline n)
    (\<lambda>r s. case r of None \<Rightarrow> pauses (wb_log s) = p | Some n' \<Rightarrow> start < deadline \<and> since time (start + 5 * SECOND) (Suc p) s)
    (\<lambda>_ s. pauses (wb_log s) = p)" (is "hoare ?I _ ?Q ?E")
proof -
  have weak: "keeps ?I m \<Longrightarrow> hoare ?I m (\<lambda>_. ?I) ?E" for m :: "('a, 'b) wb"
    unfolding keeps_hoare by (erule hoare_conseq) (simp_all add: since_def)
  have api: "keeps ?I (api_bmis env sys)" unfolding api_bmis_def by (intro keeps_bind since_list assms keeps_wpy)
  have body: "hoare (\<lambda>s. start \<le> t \<and> since time t p s) (if deadline \<le> t then bindP (wpy a) (\<lambda>_. raise Stop)
      else bindP (if n \<le> t then bindP (wpy b) (\<lambda>_. ret (t + 60 * SECOND)) else ret n) (\<lambda>n. thenP (pause sys) (ret (Some n)))) ?Q ?E"
    for t and a :: "py_error + 'c" and b :: "py_error + 'd"
  proof (rule hoare_if)
    show "hoare (\<lambda>s. start \<le> t \<and> since time t p s) (bindP (wpy a) (\<lambda>_. raise Stop)) ?Q ?E"
      by (cases a) (auto simp: hoare_def wpy_def since_def bindP_def)
  next
    assume dl: "\<not> deadline \<le> t"
    let ?P = "\<lambda>s. start \<le> t \<and> since time t p s"
    have "hoare ?P (if n \<le> t then bindP (wpy b) (\<lambda>_. ret (t + 60 * SECOND)) else ret n) (\<lambda>_. ?P) ?E"
      by (cases b) (auto simp: hoare_def wpy_def since_def bindP_def)
    moreover have "hoare ?P (thenP (pause sys) (ret (Some n))) ?Q ?E" for n
    proof (rule hoare_pure, rule hoare_then)
      assume "start \<le> t"
      have "hoare (since time t p) (pause sys) (\<lambda>_. since time (t + 5 * SECOND) (Suc p)) ?E" by (rule since_pause [OF assms])
      then show "hoare (since time t p) (pause sys) (\<lambda>_ s. start < deadline \<and> since time (start + 5 * SECOND) (Suc p) s) ?E"
        by (rule hoare_conseq) (use dl \<open>start \<le> t\<close> in \<open>auto simp: since_def\<close>)
    qed (simp add: hoare_def)
    ultimately show "hoare ?P (bindP (if n \<le> t then bindP (wpy b) (\<lambda>_. ret (t + 60 * SECOND)) else ret n)
        (\<lambda>n. thenP (pause sys) (ret (Some n)))) ?Q ?E" by (rule hoare_bind)
  qed
  have clock: "hoare ?I (now sys) (\<lambda>t s. start \<le> t \<and> since time t p s) ?E"
    by (rule hoare_conseq [OF since_now [OF assms, where start = start and p = p]]) (simp_all add: since_def)
  have stop: "hoare ?I (ret None) ?Q ?E" by (simp add: hoare_def since_def)
  show ?thesis unfolding poll_def Let_def
    by (intro hoare_bind [OF weak [OF api]] hoare_bind [OF weak [OF since_list [OF assms]]] hoare_bind [OF weak [OF keeps_wpy]]
        hoare_if stop hoare_bind [OF clock body])
qed

lemma wait_gone_ends:
  assumes "passes_time sys time"
  shows "deadline \<le> time (wb_world s) + 5 * SECOND * int m \<Longrightarrow>
    \<exists>r t. wait_gone env sys targets deadline n s = Some (r, t) \<and> pauses (wb_log t) \<le> pauses (wb_log s) + m"
proof (induction m arbitrary: n s)
  case (0 n s)
  obtain r t where run: "poll env sys targets deadline n s = (r, t)" by fastforce
  have I: "since time (time (wb_world s)) (pauses (wb_log s)) s" by (simp add: since_def)
  note h = since_poll [OF assms, of "time (wb_world s)" "pauses (wb_log s)" env targets deadline n]
  show ?case
  proof (cases r)
    case (Inl e)
    with hoareD_exn [OF h I, of e t] run show ?thesis by (simp add: wait_gone.simps)
  next
    case (Inr x)
    with hoareD_ret [OF h I, of x t] run 0 show ?thesis by (simp add: wait_gone.simps split: option.splits)
  qed
next
  case (Suc m n s)
  obtain r t where run: "poll env sys targets deadline n s = (r, t)" by fastforce
  have I: "since time (time (wb_world s)) (pauses (wb_log s)) s" by (simp add: since_def)
  note h = since_poll [OF assms, of "time (wb_world s)" "pauses (wb_log s)" env targets deadline n]
  show ?case
  proof (cases r)
    case (Inl e)
    with hoareD_exn [OF h I, of e t] run show ?thesis by (simp add: wait_gone.simps)
  next
    case (Inr x)
    show ?thesis
    proof (cases x)
      case None
      with hoareD_ret [OF h I, of x t] run Inr show ?thesis by (simp add: wait_gone.simps)
    next
      case (Some n')
      with hoareD_ret [OF h I, of x t] run Inr have s: "since time (time (wb_world s) + 5 * SECOND) (Suc (pauses (wb_log s))) t" by simp
      then have "deadline \<le> time (wb_world t) + 5 * SECOND * int m" using Suc.prems by (simp add: since_def algebra_simps)
      from Suc.IH [OF this, of n'] obtain q u where "wait_gone env sys targets deadline n' t = Some (q, u)"
        "pauses (wb_log u) \<le> pauses (wb_log t) + m" by blast
      with s run Inr Some show ?thesis by (simp add: wait_gone.simps since_def)
    qed
  qed
qed

lemma keeps_prepare_pauses: "keeps (\<lambda>s. pauses (wb_log s) = 0) (prepare env sys)"
proof -
  have "keeps (\<lambda>s. pauses (wb_log s) = 0) (load env sys q)" for q by (rule keeps_load) (simp add: pauses_def)
  moreover have "keeps (\<lambda>s. pauses (wb_log s) = 0) (api_bmis env sys)" by (rule keeps_api) (simp add: pauses_def)
  moreover have "keeps (\<lambda>s. pauses (wb_log s) = 0) (remove_one env sys key)" for key
    by (rule keeps_remove_one) (simp_all add: pauses_def)
  ultimately show ?thesis unfolding prepare_def
    by (intro keeps_bind keeps_then keeps_if keeps_ret keeps_liftP keeps_wpy keeps_forP)
qed

text \<open>Claim C20: the program always ends. On a clock that does not run backwards it pauses at most 120 times
  before it has seen the instances disappear or gives up.\<close>

theorem worker_run_ends:
  assumes "passes_time sys time"
  shows "\<exists>r t. worker_main env sys w = Some (r, t) \<and> pauses (wb_log t) \<le> 120"
proof -
  obtain p s where prep: "prepare env sys \<lparr>wb_world = w, wb_log = []\<rparr> = (p, s)" by fastforce
  have s: "pauses (wb_log s) = 0"
    using keepsD [OF keeps_prepare_pauses, of "\<lparr>wb_world = w, wb_log = []\<rparr>" env sys] prep by (simp add: pauses_def)
  obtain i v where clock: "sys_clock sys (wb_world s) = (i, v)" by fastforce
  let ?u = "s\<lparr>wb_world := v, wb_log := wb_log s @ [Clock i]\<rparr>"
  have "i \<le> time v" using assms clock unfolding passes_time_def by (metis fst_conv snd_conv)
  show ?thesis
  proof (cases p)
    case (Inl e)
    with prep s show ?thesis by (simp add: worker_main_def)
  next
    case (Inr x)
    show ?thesis
    proof (cases x)
      case None
      with prep s Inr show ?thesis by (simp add: worker_main_def)
    next
      case (Some targets)
      from wait_gone_ends [OF assms, of "i + 600 * SECOND" ?u 120 env targets 0] \<open>i \<le> time v\<close>
      obtain r t where "wait_gone env sys targets (i + 600 * SECOND) 0 ?u = Some (r, t)" "pauses (wb_log t) \<le> pauses (wb_log ?u) + 120"
        by auto
      with prep s Inr Some clock show ?thesis by (simp add: worker_main_def now_def wb_step_def pauses_def)
    qed
  qed
qed

section \<open>A run\<close>

text \<open>One worker, whose instance is gone from both listings once it is deleted.\<close>

definition wb_demo_sys :: "(int \<times> bool) wb_sys" where
  "wb_demo_sys = \<lparr>sys_list = (\<lambda>(t, deleted) q. (Some (case q of Hub \<Rightarrow> if deleted then ''E'' else ''H'' | Api \<Rightarrow> if deleted then ''E'' else ''A''
       | Clusters \<Rightarrow> ''E''), (t, deleted))),
     sys_delete = (\<lambda>(t, deleted) key. (Some 0, (t, True))),
     sys_clock = (\<lambda>(t, deleted). (t, (t, deleted))),
     sys_sleep = (\<lambda>(t, deleted). (t + 5 * SECOND, deleted))\<rparr>"

definition wb_demo_env :: wb_env where
  "wb_demo_env = \<lparr>wb_loads = (\<lambda>s.
       if s = ''W'' then Some (JArr [JStr ''w1''])
       else if s = ''H'' then Some (JObj [(''items'', JArr [JObj [
         (''metadata'', JObj [(''name'', JStr ''bmi-1''), (''labels'', JObj [(UUID_LABEL, JStr ''u1'')])]),
         (''spec'', JObj [(''externalHostID'', JStr ''hosts/w1'')])]])])
       else if s = ''A'' then Some (JArr [JObj [(''id'', JStr ''u1'')]])
       else if s = ''E'' then Some (JArr []) else None),
     wb_repr = (\<lambda>j. []), bmh_namespace = ''hosts'', workers = ''W'', cluster_name = ''c1''\<rparr>"

definition wb_demo_end :: "(int \<times> bool) wb_state" where
  "wb_demo_end = \<lparr>wb_world = (0, True), wb_log = [Listed Hub (Some ''H''), Listed Api (Some ''A''), Listed Clusters (Some ''E''),
     Removal ''u1'' (Some 0), Clock 0, Listed Api (Some ''E''), Listed Hub (Some ''E'')]\<rparr>"

declare wait_gone.simps [code]

lemma wb_demo_run: "worker_main wb_demo_env wb_demo_sys (0, False) = Some (Inr (), wb_demo_end)"
  by code_simp

lemma wb_demo_passes_time: "passes_time wb_demo_sys fst"
  by (simp add: passes_time_def wb_demo_sys_def split_beta)

theorem removals_are_scoped_witness: "scoped_log wb_demo_env (wb_log wb_demo_end)"
  by (rule removals_are_scoped [OF wb_demo_run])

theorem exit_zero_means_gone_witness:
  "\<exists>h a c rest. wb_log wb_demo_end = Listed Hub (Some h) # Listed Api (Some a) # Listed Clusters (Some c) # rest \<and>
    (if {k. wanted wb_demo_env h a c k} = {} then rest = [] else gone wb_demo_env {k. wanted wb_demo_env h a c k} (wb_log wb_demo_end))"
  by (rule exit_zero_means_gone [OF wb_demo_run])

theorem worker_run_ends_witness:
  "\<exists>r t. worker_main wb_demo_env wb_demo_sys (0, False) = Some (r, t) \<and> pauses (wb_log t) \<le> 120"
  by (rule worker_run_ends [OF wb_demo_passes_time])

end
