(* ===== verification/JUnitArtifacts.thy ===== *)
theory JUnitArtifacts
  imports Prelude PyDyn PyRegex Xml
begin

text \<open>
  The JUnit half of \<^verbatim>\<open>monitoring/scripts/ci_observe_run_evidence.py\<close> and of
  \<^verbatim>\<open>monitoring/scripts/ci_observe_trends.py\<close>: which artifacts belong to a run, the bounded download, the test
  reports inside an archive, and the outcome of every test case.

  A file is its bytes, as a list of characters. The parameter \<open>lib\<close> has what GitHub answers in one pass, the
  reading of archives (with a bound on what is read of an entry) and of XML, and the numbers: durations have
  any linearly ordered type \<open>'d\<close> (the finite floats), \<open>lb_float\<close> is \<open>float\<close> of a text where it is finite. An exception that ends the
  pass is \<open>Inl ()\<close>; why a run has no readable outcome is a value of \<open>unread\<close>.
\<close>

section \<open>Answers of the outside\<close>

datatype reply =
    No_reply                            \<comment> \<open>a \<open>RequestException\<close>\<close>
  | Bad_status nat
  | Body "json option"                  \<comment> \<open>\<open>None\<close>: not JSON\<close>

datatype stream =
    No_stream
  | Stream_status nat
  | Stream "string list" bool           \<comment> \<open>the chunks, and whether the connection breaks after them\<close>

record archive =
  entry_names :: "string list"
  read_entry :: "string \<Rightarrow> nat \<Rightarrow> string option"

record 'd artifact_lib =
  lb_listing :: "string \<Rightarrow> nat \<Rightarrow> reply"
  lb_open :: "json \<Rightarrow> stream"
  lb_zip :: "string \<Rightarrow> archive option"
  lb_xml :: "string \<Rightarrow> xml option"
  lb_float :: "string \<Rightarrow> 'd option"
  lb_zero :: 'd
  lb_round :: "'d \<Rightarrow> 'd"
  lb_over :: "string \<Rightarrow> bool"          \<comment> \<open>whether a number with a fraction exceeds the download bound\<close>

datatype unread =
    Listing_failed
  | No_artifact
  | Expired string
  | Too_large string
  | Download_failed string
  | No_zip string
  | No_junit string
  | Entry_unreadable string string
  | Entry_too_large string string
  | Not_xml string
  | No_testsuite string
  | No_testcase
  | Nothing_read "unread list"

type_synonym 'a or_crash = "unit + 'a"

definition crash :: "py_error + 'a \<Rightarrow> 'a or_crash" where
  "crash r = (case r of Inl e \<Rightarrow> Inl () | Inr x \<Rightarrow> Inr x)"

definition MAX_DOWNLOAD_BYTES :: nat where "MAX_DOWNLOAD_BYTES = 64 * 1024 * 1024"
definition MAX_JUNIT_FILES :: nat where "MAX_JUNIT_FILES = 16"
definition MAX_JUNIT_FILE_BYTES :: nat where "MAX_JUNIT_FILE_BYTES = 32 * 1024 * 1024"
definition MAX_ARTIFACTS_PER_RUN :: nat where "MAX_ARTIFACTS_PER_RUN = 4"

section \<open>The artifacts of a run\<close>

definition suite_char :: "char \<Rightarrow> bool" where
  "suite_char c \<longleftrightarrow> in_range (CHR ''a'') (CHR ''z'') c \<or> is_digit c \<or> c = CHR ''-''"

definition NATIVE_ARTIFACT_RE :: "char rx" where
  "NATIVE_ARTIFACT_RE = Seqs [Lit ''osac-logs-'',
     Rep True 0 (Some 1) (Seq (Rep True 1 None (Cls suite_char)) (Lit ''-'')),
     Lit ''full-install-'', Grp 1 (Rep True 1 None (Cls is_digit)), Assert dollar]"

definition is_native_artifact :: "string \<Rightarrow> nat \<Rightarrow> bool" where
  "is_native_artifact name run_id = (case rx_match_at NATIVE_ARTIFACT_RE name 0 of
       None \<Rightarrow> False
     | Some m \<Rightarrow> digits_val (m_group name m 1) = run_id)"

text \<open>\<open>artifact.get("name") or ""\<close>, as a text.\<close>

definition artifact_name :: "json \<Rightarrow> py_error + string" where
  "artifact_name a = bindE (d_get a ''name'') (\<lambda>n. case d_or n (JStr []) of JStr s \<Rightarrow> Inr s | _ \<Rightarrow> Inl TypeErr)"

definition own_artifacts :: "nat \<Rightarrow> json \<Rightarrow> py_error + json list" where
  "own_artifacts run_id doc = bindE (d_get doc ''artifacts'') (\<lambda>as. bindE (d_items (d_or as (JArr []))) (\<lambda>artifacts.
     bindE (mapE (\<lambda>a. bindE (artifact_name a) (\<lambda>n. Inr (a, is_native_artifact n run_id))) artifacts) (\<lambda>marked.
       Inr (map fst (filter snd marked)))))"

definition expired :: "json \<Rightarrow> bool" where
  "expired a \<longleftrightarrow> (case jget a ''expired'' of None \<Rightarrow> False | Some v \<Rightarrow> truthy v)"

definition artifacts_of :: "'d artifact_lib \<Rightarrow> string \<Rightarrow> nat \<Rightarrow> (unread + json list) or_crash" where
  "artifacts_of lib repo run_id = (case lb_listing lib repo run_id of
       No_reply \<Rightarrow> Inr (Inl Listing_failed)
     | Bad_status n \<Rightarrow> Inr (Inl Listing_failed)
     | Body None \<Rightarrow> Inl ()
     | Body (Some doc) \<Rightarrow> bindE (crash (own_artifacts run_id doc)) (\<lambda>artifacts.
         if artifacts = [] then Inr (Inl No_artifact)
         else Inr (Inr (filter (\<lambda>a. \<not> expired a) artifacts @ filter expired artifacts))))"

section \<open>Download and archive\<close>

fun read_chunks :: "nat \<Rightarrow> string list \<Rightarrow> bool \<Rightarrow> string option or_crash" where
  "read_chunks got [] broken = (if broken then Inl () else Inr (Some []))"
| "read_chunks got (chunk # chunks) broken =
     (if MAX_DOWNLOAD_BYTES < got + length chunk then Inr None
      else bindE (read_chunks (got + length chunk) chunks broken) (\<lambda>rest. Inr (map_option ((@) chunk) rest)))"

definition download_artifact :: "'d artifact_lib \<Rightarrow> json \<Rightarrow> string option or_crash" where
  "download_artifact lib url = (case lb_open lib url of
       No_stream \<Rightarrow> Inr None
     | Stream_status n \<Rightarrow> Inr None
     | Stream chunks broken \<Rightarrow> read_chunks 0 chunks broken)"

definition is_junit_name :: "string \<Rightarrow> bool" where
  "is_junit_name name \<longleftrightarrow> (let base = last (split_on (CHR ''/'') name) in
     base = ''junit.xml'' \<or> (starts_with ''junit-'' base \<and> ends_with ''.xml'' base))"

fun read_entries :: "archive \<Rightarrow> string \<Rightarrow> string list \<Rightarrow> unread + (string \<times> string) list" where
  "read_entries z artifact [] = Inr []"
| "read_entries z artifact (name # names) = (case read_entry z name (MAX_JUNIT_FILE_BYTES + 1) of
       None \<Rightarrow> Inl (Entry_unreadable artifact name)
     | Some content \<Rightarrow> if MAX_JUNIT_FILE_BYTES < length content then Inl (Entry_too_large artifact name)
         else bindE (read_entries z artifact names) (\<lambda>files. Inr ((name, content) # files)))"

definition extract_junit_files :: "'d artifact_lib \<Rightarrow> string \<Rightarrow> string \<Rightarrow> unread + (string \<times> string) list" where
  "extract_junit_files lib artifact data = (case lb_zip lib data of
       None \<Rightarrow> Inl (No_zip artifact)
     | Some z \<Rightarrow>
         let names = take MAX_JUNIT_FILES (filter is_junit_name (entry_names z))
         in if names = [] then Inl (No_junit artifact) else read_entries z artifact names)"

section \<open>The outcome of the test cases\<close>

record 'd outcome =
  c_suite :: string
  c_test :: string
  c_passed :: bool
  c_duration :: "'d option"

text \<open>An absent or empty \<open>time\<close> is read as 0.\<close>

definition junit_time :: "'d artifact_lib \<Rightarrow> xml \<Rightarrow> 'd option" where
  "junit_time lib e = (case xattr ''time'' e of
       None \<Rightarrow> Some (lb_round lib (lb_zero lib))
     | Some t \<Rightarrow> if t = [] then Some (lb_round lib (lb_zero lib)) else map_option (lb_round lib) (lb_float lib t))"

definition illegal_byte :: "char \<Rightarrow> bool" where
  "illegal_byte c \<longleftrightarrow> code c < 32 \<and> code c \<notin> {9, 10, 13}"

definition cleaned_bytes :: "string \<Rightarrow> string" where
  "cleaned_bytes content = (if take 2 content \<in> {[CHR 0xFF, CHR 0xFE], [CHR 0xFE, CHR 0xFF]} then content
     else filter (\<lambda>c. \<not> illegal_byte c) content)"

definition suites_of :: "xml \<Rightarrow> xml list" where
  "suites_of root = filter (\<lambda>e. xtag e = ''testsuite'') (root # descendants root)"

definition has_kid :: "string \<Rightarrow> xml \<Rightarrow> bool" where
  "has_kid t e \<longleftrightarrow> find_kid t e \<noteq> None"

text \<open>\<open>s or d\<close> for an attribute.\<close>

definition attr_or :: "string \<Rightarrow> xml \<Rightarrow> string \<Rightarrow> string" where
  "attr_or a e d = (case xattr a e of None \<Rightarrow> d | Some s \<Rightarrow> if s = [] then d else s)"

definition case_of :: "'d artifact_lib \<Rightarrow> string \<Rightarrow> xml \<Rightarrow> 'd outcome option" where
  "case_of lib suite e = (let test_name = attr_or ''name'' e [] in
     if test_name = [] \<or> has_kid ''skipped'' e then None
     else Some \<lparr>c_suite = suite, c_test = attr_or ''classname'' e [] @ ''::'' @ test_name,
       c_passed = (\<not> has_kid ''failure'' e \<and> \<not> has_kid ''error'' e), c_duration = junit_time lib e\<rparr>)"

definition cases_of_file :: "'d artifact_lib \<Rightarrow> string \<Rightarrow> xml \<Rightarrow> 'd outcome list" where
  "cases_of_file lib name root = concat (map (\<lambda>suite.
     List.map_filter (case_of lib (strip (attr_or ''name'' suite name))) (kids_named ''testcase'' suite)) (suites_of root))"

text \<open>A later report of the same test: a failure wins, and the longer duration.\<close>

definition longer :: "'d::linorder option \<Rightarrow> 'd option \<Rightarrow> 'd option" where
  "longer old new = (case new of None \<Rightarrow> old | Some d \<Rightarrow> (case old of None \<Rightarrow> Some d | Some e \<Rightarrow> if d > e then Some d else Some e))"

definition merge_case :: "'d::linorder outcome \<Rightarrow> 'd outcome \<Rightarrow> 'd outcome" where
  "merge_case old new = old\<lparr>c_passed := c_passed old \<and> c_passed new, c_duration := longer (c_duration old) (c_duration new)\<rparr>"

definition case_key :: "'d outcome \<Rightarrow> string \<times> string" where
  "case_key c = (c_suite c, c_test c)"

fun add_case :: "'d::linorder outcome list \<Rightarrow> 'd outcome \<Rightarrow> 'd outcome list" where
  "add_case [] new = [new]"
| "add_case (c # cs) new = (if case_key c = case_key new then merge_case c new # cs else c # add_case cs new)"

fun read_files :: "'d artifact_lib \<Rightarrow> (string \<times> string) list \<Rightarrow> unread + 'd outcome list" where
  "read_files lib [] = Inr []"
| "read_files lib ((name, content) # files) = (case lb_xml lib (cleaned_bytes content) of
       None \<Rightarrow> Inl (Not_xml name)
     | Some root \<Rightarrow> if suites_of root = [] then Inl (No_testsuite name)
         else bindE (read_files lib files) (\<lambda>cs. Inr (cases_of_file lib name root @ cs)))"

definition parse_junit_outcomes :: "'d::linorder artifact_lib \<Rightarrow> (string \<times> string) list \<Rightarrow> unread + 'd outcome list" where
  "parse_junit_outcomes lib files = bindE (read_files lib files) (\<lambda>cs. Inr (foldl add_case [] cs))"

section \<open>The outcomes of a run\<close>

definition over_bound :: "'d artifact_lib \<Rightarrow> json \<Rightarrow> bool or_crash" where
  "over_bound lib a = (let size = d_or (case jget a ''size_in_bytes'' of None \<Rightarrow> JNull | Some v \<Rightarrow> v) (JInt 0) in
     case size of
       JInt i \<Rightarrow> Inr (int MAX_DOWNLOAD_BYTES < i)
     | JBool b \<Rightarrow> Inr False
     | JFloat f \<Rightarrow> Inr (lb_over lib f)
     | _ \<Rightarrow> Inl ())"

definition read_artifact :: "'d artifact_lib \<Rightarrow> json \<Rightarrow> (unread + (string \<times> string) list) or_crash" where
  "read_artifact lib a = bindE (crash (artifact_name a)) (\<lambda>name.
     if expired a then Inr (Inl (Expired name))
     else bindE (over_bound lib a) (\<lambda>over. if over then Inr (Inl (Too_large name))
     else bindE (crash (d_get a ''archive_download_url'')) (\<lambda>url.
       bindE (download_artifact lib (d_or url (JStr []))) (\<lambda>data. case data of
           None \<Rightarrow> Inr (Inl (Download_failed name))
         | Some bytes \<Rightarrow> Inr (extract_junit_files lib name bytes)))))"

fun gather :: "'d artifact_lib \<Rightarrow> json list \<Rightarrow> ((string \<times> string) list \<times> unread list) or_crash" where
  "gather lib [] = Inr ([], [])"
| "gather lib (a # as) = bindE (read_artifact lib a) (\<lambda>r. bindE (gather lib as) (\<lambda>(files, unfinished).
     Inr (case r of Inl u \<Rightarrow> (files, u # unfinished) | Inr fs \<Rightarrow> (fs @ files, unfinished))))"

definition fetch :: "'d::linorder artifact_lib \<Rightarrow> string \<Rightarrow> nat \<Rightarrow> (unread + 'd outcome list) or_crash" where
  "fetch lib repo run_id = bindE (artifacts_of lib repo run_id) (\<lambda>r. case r of
       Inl u \<Rightarrow> Inr (Inl u)
     | Inr artifacts \<Rightarrow> bindE (gather lib (take MAX_ARTIFACTS_PER_RUN artifacts)) (\<lambda>(files, unfinished).
         if files = [] then Inr (Inl (Nothing_read unfinished))
         else (case parse_junit_outcomes lib (take MAX_JUNIT_FILES files) of
             Inl u \<Rightarrow> Inr (Inl u)
           | Inr cases \<Rightarrow> if cases = [] then Inr (Inl No_testcase) else Inr (Inr cases))))"

section \<open>One outcome per test\<close>

text \<open>Said without the merging: a test of the files is there once, it passed if every report of it passed, and
  its duration is the longest that was reported.\<close>

definition reports :: "'d outcome list \<Rightarrow> string \<times> string \<Rightarrow> 'd outcome list" where
  "reports cs k = filter (\<lambda>c. case_key c = k) cs"

definition longest :: "'d::linorder option list \<Rightarrow> 'd option" where
  "longest ds = foldl longer None ds"

lemma case_key_merge [simp]: "case_key (merge_case a b) = case_key a"
  by (simp add: merge_case_def case_key_def)

lemma keys_add_case: "map case_key (add_case cs new) =
    (if case_key new \<in> case_key ` set cs then map case_key cs else map case_key cs @ [case_key new])"
  by (induction cs new rule: add_case.induct) auto

lemma distinct_add_case: "distinct (map case_key cs) \<Longrightarrow> distinct (map case_key (add_case cs new))"
  by (auto simp: keys_add_case)

text \<open>A merged list stands for the reports \<open>cs\<close>.\<close>

definition summarizes :: "'d::linorder outcome list \<Rightarrow> 'd outcome list \<Rightarrow> bool" where
  "summarizes ms cs \<longleftrightarrow> distinct (map case_key ms) \<and> case_key ` set ms = case_key ` set cs \<and>
     (\<forall>m \<in> set ms. c_passed m = list_all c_passed (reports cs (case_key m)) \<and>
        c_duration m = longest (map c_duration (reports cs (case_key m))))"

lemma add_case_new: "case_key new \<notin> case_key ` set ms \<Longrightarrow> add_case ms new = ms @ [new]"
  by (induction ms new rule: add_case.induct) auto

lemma add_case_old:
  "distinct (map case_key ms) \<Longrightarrow> case_key new \<in> case_key ` set ms \<Longrightarrow>
   add_case ms new = map (\<lambda>m. if case_key m = case_key new then merge_case m new else m) ms"
proof (induction ms)
  case (Cons m ms)
  show ?case
  proof (cases "case_key m = case_key new")
    case True
    then have "map (\<lambda>m. if case_key m = case_key new then merge_case m new else m) ms = ms"
      using Cons.prems(1) by (intro map_idI) (auto simp: image_iff)
    with True show ?thesis by simp
  qed (use Cons in auto)
qed simp

lemma summarizes_add:
  assumes "summarizes ms cs"
  shows "summarizes (add_case ms new) (cs @ [new])"
proof -
  have d: "distinct (map case_key ms)" and k: "case_key ` set ms = case_key ` set cs"
    and v: "\<And>m. m \<in> set ms \<Longrightarrow> c_passed m = list_all c_passed (reports cs (case_key m)) \<and>
        c_duration m = longest (map c_duration (reports cs (case_key m)))"
    using assms by (auto simp: summarizes_def)
  have snoc: "reports (cs @ [new]) q = (if case_key new = q then reports cs q @ [new] else reports cs q)" for q
    by (simp add: reports_def)
  have keys: "case_key ` set (add_case ms new) = case_key ` set (cs @ [new])"
    using arg_cong [OF keys_add_case [of ms new], of set] k by (auto split: if_splits)
  show ?thesis
  proof (cases "case_key new \<in> case_key ` set ms")
    case True
    have "c_passed m = list_all c_passed (reports (cs @ [new]) (case_key m)) \<and>
        c_duration m = longest (map c_duration (reports (cs @ [new]) (case_key m)))" if m: "m \<in> set (add_case ms new)" for m
    proof -
      from m obtain o' where "o' \<in> set ms" "m = (if case_key o' = case_key new then merge_case o' new else o')"
        by (auto simp: add_case_old [OF d True])
      with v [of o'] show ?thesis by (auto simp: snoc merge_case_def longest_def case_key_def)
    qed
    with keys distinct_add_case [OF d] show ?thesis unfolding summarizes_def by blast
  next
    case False
    then have none: "reports cs (case_key new) = []" using k by (simp add: reports_def filter_empty_conv) (metis image_eqI)
    have "c_passed m = list_all c_passed (reports (cs @ [new]) (case_key m)) \<and>
        c_duration m = longest (map c_duration (reports (cs @ [new]) (case_key m)))" if m: "m \<in> set (add_case ms new)" for m
    proof (cases "m = new")
      case True
      then show ?thesis by (auto simp: snoc none longest_def longer_def split: option.split)
    next
      case other: False
      with m have "m \<in> set ms" by (simp add: add_case_new [OF False])
      moreover from this False have "case_key m \<noteq> case_key new" by (metis image_eqI)
      ultimately show ?thesis using v by (simp add: snoc)
    qed
    with keys distinct_add_case [OF d] show ?thesis unfolding summarizes_def by blast
  qed
qed

lemma summarizes_foldl: "summarizes (foldl add_case [] cs) cs"
proof (induction cs rule: rev_induct)
  case Nil
  show ?case by (simp add: summarizes_def)
qed (simp add: summarizes_add)

text \<open>The outcomes of a run summarise the reports of its files: one per test, passed exactly when no
  report of the test failed, with the longest duration that was reported.\<close>

theorem outcomes_summarize_reports:
  assumes "parse_junit_outcomes lib files = Inr cases"
  shows "\<exists>cs. read_files lib files = Inr cs \<and> summarizes cases cs"
  using assms summarizes_foldl by (auto simp: parse_junit_outcomes_def bindE_Inr_iff)

text \<open>The parameters of a small run: one live artifact with one report.\<close>

definition demo_xml :: xml where
  "demo_xml = Elem ''testsuites'' [] [] [Elem ''testsuite'' [(''name'', ''vmaas'')] []
     [Elem ''testcase'' [(''classname'', ''tests.a''), (''name'', ''test_x''), (''time'', ''2'')] [] [],
      Elem ''testcase'' [(''classname'', ''tests.a''), (''name'', ''test_x''), (''time'', ''1'')] [] [Elem ''failure'' [] [] []],
      Elem ''testcase'' [(''classname'', ''tests.a''), (''name'', ''test_y'')] [] [],
      Elem ''testcase'' [(''name'', ''test_z'')] [] [Elem ''skipped'' [] [] []]]]"

definition demo_artifacts :: "nat artifact_lib" where
  "demo_artifacts = \<lparr>lb_listing = (\<lambda>repo run. Body (Some (JObj [(''artifacts'', JArr [
        JObj [(''name'', JStr (''osac-logs-full-install-'' @ show_nat run)), (''archive_download_url'', JStr ''u'')]])]))),
     lb_open = (\<lambda>url. Stream [''z''] False),
     lb_zip = (\<lambda>data. Some \<lparr>entry_names = [''readme.txt'', ''logs/junit.xml''], read_entry = (\<lambda>name n. Some ''x'')\<rparr>),
     lb_xml = (\<lambda>content. Some demo_xml), lb_float = (\<lambda>s. if s = ''2'' then Some 2000 else if s = ''1'' then Some 1000 else None),
     lb_zero = 0, lb_round = id, lb_over = (\<lambda>s. False)\<rparr>"

lemma demo_fetch: "fetch demo_artifacts ''osac'' 7 = Inr (Inr
    [\<lparr>c_suite = ''vmaas'', c_test = ''tests.a::test_x'', c_passed = False, c_duration = Some 2000\<rparr>,
     \<lparr>c_suite = ''vmaas'', c_test = ''tests.a::test_y'', c_passed = True, c_duration = Some 0\<rparr>])"
  by code_simp

lemma demo_parse: "parse_junit_outcomes demo_artifacts [(''junit.xml'', ''x'')] = Inr
    [\<lparr>c_suite = ''vmaas'', c_test = ''tests.a::test_x'', c_passed = False, c_duration = Some 2000\<rparr>,
     \<lparr>c_suite = ''vmaas'', c_test = ''tests.a::test_y'', c_passed = True, c_duration = Some 0\<rparr>]"
  by code_simp

theorem outcomes_summarize_reports_witness:
  "\<exists>cs. read_files demo_artifacts [(''junit.xml'', ''x'')] = Inr cs \<and> summarizes
    [\<lparr>c_suite = ''vmaas'', c_test = ''tests.a::test_x'', c_passed = False, c_duration = Some 2000\<rparr>,
     \<lparr>c_suite = ''vmaas'', c_test = ''tests.a::test_y'', c_passed = True, c_duration = Some 0\<rparr>] cs"
  by (rule outcomes_summarize_reports [OF demo_parse])

end
