(* ===== verification/TestTrends.thy ===== *)
theory TestTrends
  imports JUnitArtifacts "HOL-Library.Char_ord" "HOL-Library.List_Lexorder" "HOL-Library.Product_Lexorder"
begin

text \<open>
  \<^verbatim>\<open>monitoring/scripts/ci_observe_trends.py\<close>: the daily rollup of test outcomes, its store \<^verbatim>\<open>trends.db\<close>, and
  the comparison of two source revisions.

  A table is the list of its rows in the order of insertion. \<open>st_sum\<close>, \<open>st_div\<close>, \<open>st_sub\<close> and \<open>st_round\<close> are the
  operations of Python on floats (\<open>round\<close> to three digits). \<open>math.ceil(0.95 * n)\<close> is the exact ceiling: the float product
  never crosses an integer for the sizes at hand. Texts of \<open>parsed_run_ids\<close> are the lists they stand for.
\<close>

section \<open>The runs to roll up\<close>

record job_row =
  jr_id :: int
  jr_repo :: "string option"
  jr_workflow :: "string option"
  jr_category :: "string option"
  jr_url :: "string option"
  jr_created :: "string option"
  jr_sha :: "string option"

definition or_empty :: "string option \<Rightarrow> string" where
  "or_empty x = (case x of None \<Rightarrow> [] | Some s \<Rightarrow> s)"

definition first_text :: "string \<Rightarrow> string \<Rightarrow> string" where
  "first_text a b = (if a \<noteq> [] then a else b)"

definition stored_rows :: "job_row list \<Rightarrow> string \<Rightarrow> job_row list" where
  "stored_rows jobs since_day = sort_key (\<lambda>r. or_empty (jr_created r))
     (filter (\<lambda>r. case jr_created r of None \<Rightarrow> False | Some c \<Rightarrow> since_day \<le> c) jobs)"

definition RUN_ID_RE :: "char rx" where
  "RUN_ID_RE = Seqs [Lit ''/actions/runs/'', Grp 1 (Plus (Cls is_digit))]"

definition run_id_of :: "job_row \<Rightarrow> nat option" where
  "run_id_of row = (let url = or_empty (jr_url row) in
     case rx_search RUN_ID_RE url of None \<Rightarrow> None | Some m \<Rightarrow> Some (digits_val (m_group url m 1)))"

definition sha_of :: "job_row \<Rightarrow> string" where
  "sha_of row = strip (or_empty (jr_sha row))"

definition run_row_score :: "job_row \<Rightarrow> nat \<Rightarrow> nat \<times> nat" where
  "run_row_score row run_id = (if jr_id row = int run_id then 1 else 0, if sha_of row \<noteq> [] then 1 else 0)"

text \<open>The best run-level row and the first source SHA that is stored for each run.\<close>

record run_notes =
  run_shas :: "nat \<rightharpoonup> string"
  run_rows :: "nat \<rightharpoonup> job_row"

definition note_sha :: "nat \<Rightarrow> string \<Rightarrow> (nat \<rightharpoonup> string) \<Rightarrow> (nat \<rightharpoonup> string)" where
  "note_sha i sha shas = (if sha \<noteq> [] \<and> or_empty (shas i) = [] then shas(i \<mapsto> sha) else shas)"

definition note_run_row :: "nat \<Rightarrow> job_row \<Rightarrow> (nat \<rightharpoonup> job_row) \<Rightarrow> (nat \<rightharpoonup> job_row)" where
  "note_run_row i row rows = (case rows i of
       None \<Rightarrow> rows(i \<mapsto> row)
     | Some current \<Rightarrow> if run_row_score row i > run_row_score current i then rows(i \<mapsto> row) else rows)"

definition note_row :: "run_notes \<Rightarrow> job_row \<Rightarrow> run_notes" where
  "note_row notes row = (case run_id_of row of
       None \<Rightarrow> notes
     | Some i \<Rightarrow> let notes = notes\<lparr>run_shas := note_sha i (sha_of row) (run_shas notes)\<rparr> in
         if contains ''/job/'' (or_empty (jr_url row)) then notes
         else notes\<lparr>run_rows := note_run_row i row (run_rows notes)\<rparr>)"

record run_entry =
  en_repo :: string
  en_workflows :: "string list"
  en_created :: string
  en_sha :: string

definition add_to_entry :: "run_entry \<Rightarrow> job_row \<Rightarrow> run_entry" where
  "add_to_entry e row = (let created = or_empty (jr_created row) in
     \<lparr>en_repo = first_text (en_repo e) (or_empty (jr_repo row)),
      en_workflows = (if or_empty (jr_workflow row) \<noteq> [] then en_workflows e @ [or_empty (jr_workflow row)] else en_workflows e),
      en_created = (if created \<noteq> [] \<and> (en_created e = [] \<or> created < en_created e) then created else en_created e),
      en_sha = first_text (en_sha e) (sha_of row)\<rparr>)"

definition group_row :: "(nat \<times> run_entry) list \<Rightarrow> job_row \<Rightarrow> (nat \<times> run_entry) list" where
  "group_row grouped row =
     (if or_empty (jr_category row) \<noteq> ''e2e'' then grouped
      else (case run_id_of row of
          None \<Rightarrow> grouped
        | Some i \<Rightarrow> dict_set i (add_to_entry (case map_of grouped i of
              None \<Rightarrow> \<lparr>en_repo = [], en_workflows = [], en_created = [], en_sha = []\<rparr> | Some e \<Rightarrow> e) row) grouped))"

record run =
  r_id :: nat
  r_repo :: string
  r_workflow :: string
  r_day :: string
  r_created :: string
  r_sha :: string

definition finish_entry :: "run_notes \<Rightarrow> nat \<times> run_entry \<Rightarrow> run" where
  "finish_entry notes ie = (case ie of (i, e) \<Rightarrow>
     let of_parent = (\<lambda>f. case run_rows notes i of None \<Rightarrow> [] | Some row \<Rightarrow> f row);
         workflows = sort (remdups (en_workflows e))
     in \<lparr>r_id = i, r_repo = first_text (en_repo e) (of_parent (\<lambda>r. or_empty (jr_repo r))),
         r_workflow = (if of_parent (\<lambda>r. or_empty (jr_workflow r)) \<noteq> [] then of_parent (\<lambda>r. or_empty (jr_workflow r))
           else join '' + '' workflows),
         r_day = take 10 (en_created e), r_created = en_created e,
         r_sha = first_text (of_parent sha_of) (first_text (en_sha e) (or_empty (run_shas notes i)))\<rparr>)"

definition candidate_runs :: "job_row list \<Rightarrow> run list" where
  "candidate_runs rows = (let notes = foldl note_row \<lparr>run_shas = Map.empty, run_rows = Map.empty\<rparr> rows in
     sort_key (\<lambda>r. (r_created r, r_id r)) (map (finish_entry notes) (foldl group_row [] rows)))"

section \<open>The rows of a day\<close>

record 'd stats =
  st_sum :: "'d list \<Rightarrow> 'd"
  st_div :: "'d \<Rightarrow> nat \<Rightarrow> 'd"
  st_sub :: "'d \<Rightarrow> 'd \<Rightarrow> 'd"
  st_round :: "'d \<Rightarrow> 'd"

text \<open>The nearest rank of a fraction given in hundredths.\<close>

definition percentile :: "'d::linorder stats \<Rightarrow> nat \<Rightarrow> 'd list \<Rightarrow> 'd option" where
  "percentile st hundredths vals = (if vals = [] then None
     else let ordered = sort vals; rank = (hundredths * length vals + 99) div 100;
              index = min (max rank 1) (length ordered) - 1
          in Some (st_round st (ordered ! index)))"

definition mean_value :: "'d stats \<Rightarrow> 'd list \<Rightarrow> 'd option" where
  "mean_value st vals = (if vals = [] then None else Some (st_round st (st_div st (st_sum st vals) (length vals))))"

type_synonym test_key = "string \<times> string \<times> string \<times> string \<times> string \<times> string"

record 'd rollup =
  ro_key :: test_key                 \<comment> \<open>day, repo, workflow, suite, test id, source SHA\<close>
  ro_runs :: nat
  ro_passes :: nat
  ro_failures :: nat
  ro_p50 :: "'d option"
  ro_p95 :: "'d option"
  ro_p99 :: "'d option"
  ro_mean :: "'d option"

definition ro_day :: "'d rollup \<Rightarrow> string" where
  "ro_day r = fst (ro_key r)"

record 'd group =
  g_runs :: nat
  g_passes :: nat
  g_failures :: nat
  g_durations :: "'d list"

definition outcome_key :: "run \<Rightarrow> 'd outcome \<Rightarrow> test_key" where
  "outcome_key r c = (r_day r, r_repo r, r_workflow r, c_suite c, c_test c, r_sha r)"

definition count_outcome :: "'d outcome \<Rightarrow> 'd group \<Rightarrow> 'd group" where
  "count_outcome c g = g\<lparr>g_runs := g_runs g + 1,
     g_passes := (if c_passed c then g_passes g + 1 else g_passes g),
     g_failures := (if c_passed c then g_failures g else g_failures g + 1),
     g_durations := (case c_duration c of None \<Rightarrow> g_durations g | Some d \<Rightarrow> g_durations g @ [d])\<rparr>"

definition no_group :: "'d group" where
  "no_group = \<lparr>g_runs = 0, g_passes = 0, g_failures = 0, g_durations = []\<rparr>"

definition add_outcome :: "(test_key \<times> 'd group) list \<Rightarrow> run \<times> 'd outcome \<Rightarrow> (test_key \<times> 'd group) list" where
  "add_outcome groups rc = (let key = outcome_key (fst rc) (snd rc) in
     dict_set key (count_outcome (snd rc) (case map_of groups key of None \<Rightarrow> no_group | Some g \<Rightarrow> g)) groups)"

definition all_outcomes :: "(run \<times> 'd outcome list) list \<Rightarrow> (run \<times> 'd outcome) list" where
  "all_outcomes runs = concat (map (\<lambda>(r, cs). map (Pair r) cs) runs)"

definition rollup_of :: "'d::linorder stats \<Rightarrow> test_key \<Rightarrow> 'd group \<Rightarrow> 'd rollup" where
  "rollup_of st key g = \<lparr>ro_key = key, ro_runs = g_runs g, ro_passes = g_passes g, ro_failures = g_failures g,
     ro_p50 = percentile st 50 (g_durations g), ro_p95 = percentile st 95 (g_durations g),
     ro_p99 = percentile st 99 (g_durations g), ro_mean = mean_value st (g_durations g)\<rparr>"

definition rollup_rows :: "'d::linorder stats \<Rightarrow> (run \<times> 'd outcome list) list \<Rightarrow> 'd rollup list" where
  "rollup_rows st runs = (let groups = foldl add_outcome [] (all_outcomes runs) in
     map (\<lambda>key. rollup_of st key (the (map_of groups key))) (sort (map fst groups)))"

record 'd test_run =
  tr_key :: test_key
  tr_run :: nat
  tr_created :: string
  tr_duration :: "'d option"
  tr_passed :: bool

definition tr_day :: "'d test_run \<Rightarrow> string" where
  "tr_day t = fst (tr_key t)"

definition test_run_rows :: "(run \<times> 'd outcome list) list \<Rightarrow> 'd test_run list" where
  "test_run_rows runs = map (\<lambda>(r, c). \<lparr>tr_key = outcome_key r c, tr_run = r_id r, tr_created = r_created r,
     tr_duration = c_duration c, tr_passed = c_passed c\<rparr>) (all_outcomes runs)"

section \<open>The store\<close>

record day_row =
  d_day :: string
  d_listed :: nat
  d_parsed :: nat
  d_unavailable :: nat
  d_generated :: string
  d_ids :: "nat list"

record 'd trends_db =
  test_rollup :: "'d rollup list"
  test_runs :: "'d test_run list"
  rollup_days :: "day_row list"

text \<open>One transaction: \<open>None\<close> is the violation of a primary key, after which the tables are as before.\<close>

definition write_day :: "string \<Rightarrow> 'd rollup list \<Rightarrow> day_row \<Rightarrow> 'd test_run list \<Rightarrow> 'd trends_db \<Rightarrow> 'd trends_db option" where
  "write_day day rows coverage runs db =
     (let rollup = filter (\<lambda>r. ro_day r \<noteq> day) (test_rollup db) @ rows;
          days = filter (\<lambda>d. d_day d \<noteq> day) (rollup_days db) @ [coverage]
      in if distinct (map ro_key rollup) \<and> distinct (map d_day days)
         then Some \<lparr>test_rollup = rollup, test_runs = filter (\<lambda>t. tr_day t \<noteq> day) (test_runs db) @ runs, rollup_days = days\<rparr>
         else None)"

definition prune_old_days :: "string \<Rightarrow> 'd trends_db \<Rightarrow> 'd trends_db" where
  "prune_old_days cutoff db =
     \<lparr>test_rollup = filter (\<lambda>r. \<not> ro_day r < cutoff) (test_rollup db),
      test_runs = filter (\<lambda>t. \<not> tr_day t < cutoff) (test_runs db),
      rollup_days = filter (\<lambda>d. \<not> d_day d < cutoff) (rollup_days db)\<rparr>"

definition day_is_superset :: "nat list \<Rightarrow> nat list \<Rightarrow> bool" where
  "day_is_superset previous_ids current_ids \<longleftrightarrow> set previous_ids \<subseteq> set current_ids"

section \<open>One pass\<close>

text \<open>The runs of one day among those of the pass, and what the pass has read of them.\<close>

definition day_runs :: "string \<Rightarrow> (run \<times> 'd outcome list) list \<Rightarrow> (run \<times> 'd outcome list) list" where
  "day_runs day runs = filter (\<lambda>rc. r_day (fst rc) = day) runs"

definition parsed_runs :: "string \<Rightarrow> (run \<times> 'd outcome list) list \<Rightarrow> (run \<times> 'd outcome list) list" where
  "parsed_runs day runs = filter (\<lambda>rc. snd rc \<noteq> []) (day_runs day runs)"

definition parsed_ids :: "string \<Rightarrow> (run \<times> 'd outcome list) list \<Rightarrow> nat list" where
  "parsed_ids day runs = sort (map (\<lambda>rc. r_id (fst rc)) (parsed_runs day runs))"

definition coverage_of :: "string \<Rightarrow> string \<Rightarrow> (run \<times> 'd outcome list) list \<Rightarrow> day_row" where
  "coverage_of generated_at day runs =
     \<lparr>d_day = day, d_listed = length (day_runs day runs), d_parsed = length (parsed_runs day runs),
      d_unavailable = length (day_runs day runs) - length (parsed_runs day runs), d_generated = generated_at,
      d_ids = parsed_ids day runs\<rparr>"

definition keeps_stored :: "bool \<Rightarrow> 'd trends_db \<Rightarrow> string \<Rightarrow> (run \<times> 'd outcome list) list \<Rightarrow> bool" where
  "keeps_stored force db day runs \<longleftrightarrow> \<not> force \<and> (case find (\<lambda>d. d_day d = day) (rollup_days db) of
       None \<Rightarrow> False
     | Some previous \<Rightarrow> \<not> day_is_superset (d_ids previous) (parsed_ids day runs) \<or> length (parsed_runs day runs) < d_parsed previous)"

definition roll_day ::
  "'d::linorder stats \<Rightarrow> bool \<Rightarrow> string \<Rightarrow> (run \<times> 'd outcome list) list \<Rightarrow> 'd trends_db \<Rightarrow> string \<Rightarrow> (unit + 'd trends_db)" where
  "roll_day st force generated_at runs db day =
     (if keeps_stored force db day runs then Inr db
      else (case write_day day (rollup_rows st (day_runs day runs)) (coverage_of generated_at day runs)
                (test_run_rows (day_runs day runs)) db of
          None \<Rightarrow> Inl ()
        | Some db' \<Rightarrow> Inr db'))"

definition fetch_run :: "'d::linorder artifact_lib \<Rightarrow> run \<Rightarrow> (run \<times> 'd outcome list) or_crash" where
  "fetch_run lib r = bindE (fetch lib (r_repo r) (r_id r)) (\<lambda>x. Inr (r, case x of Inl u \<Rightarrow> [] | Inr cs \<Rightarrow> cs))"

text \<open>Rolling up day by day; an exception keeps the days that are written.\<close>

fun roll_days ::
  "'d::linorder stats \<Rightarrow> bool \<Rightarrow> string \<Rightarrow> (run \<times> 'd outcome list) list \<Rightarrow> string list \<Rightarrow> 'd trends_db \<Rightarrow> (unit + nat) \<times> 'd trends_db" where
  "roll_days st force generated_at runs [] db = (Inr 0, db)"
| "roll_days st force generated_at runs (day # days) db = (case roll_day st force generated_at runs db day of
       Inl e \<Rightarrow> (Inl e, db)
     | Inr db' \<Rightarrow> roll_days st force generated_at runs days db')"

record trends_args =
  a_day :: "string option"
  a_days :: "int option"
  a_force :: bool

text \<open>The calendar: \<open>tm_iso\<close> is the date of a day number, \<open>tm_parse\<close> is \<open>strptime\<close>.\<close>

record trends_time =
  tm_today :: int
  tm_iso :: "int \<Rightarrow> string"
  tm_parse :: "string \<Rightarrow> int option"
  tm_generated :: string

definition RETENTION_DAYS :: int where "RETENTION_DAYS = 30"

definition start_day :: "trends_time \<Rightarrow> trends_args \<Rightarrow> int option" where
  "start_day tm args =
     (if or_empty (a_day args) = []
      then Some (tm_today tm - max (min (case a_days args of None \<Rightarrow> RETENTION_DAYS | Some n \<Rightarrow> n) RETENTION_DAYS) 1)
      else (case tm_parse tm (or_empty (a_day args)) of
          None \<Rightarrow> None
        | Some start \<Rightarrow> if start < tm_today tm - RETENTION_DAYS then None else Some start))"

definition wanted_runs :: "trends_args \<Rightarrow> run list \<Rightarrow> run list" where
  "wanted_runs args runs = (if or_empty (a_day args) = [] then runs else filter (\<lambda>r. r_day r = or_empty (a_day args)) runs)"

text \<open>The exit status or an exception, and the store; \<open>jobs\<close> is the table of the exporter, \<open>None\<close> without its file.\<close>

definition trends_main ::
  "'d::linorder artifact_lib \<Rightarrow> 'd stats \<Rightarrow> trends_time \<Rightarrow> trends_args \<Rightarrow> bool \<Rightarrow> job_row list option \<Rightarrow> 'd trends_db \<Rightarrow> (unit + nat) \<times> 'd trends_db" where
  "trends_main lib st tm args has_token jobs db =
     (if \<not> has_token then (Inr 2, db)
      else (case jobs of
        None \<Rightarrow> (Inr 2, db)
      | Some rows \<Rightarrow> (case start_day tm args of
          None \<Rightarrow> (Inr 2, db)
        | Some start \<Rightarrow>
            let runs = wanted_runs args (candidate_runs (stored_rows rows (tm_iso tm start)));
                db = prune_old_days (tm_iso tm (tm_today tm - RETENTION_DAYS)) db
            in if runs = [] then (Inr 0, db)
               else (case mapE (fetch_run lib) runs of
                   Inl e \<Rightarrow> (Inl e, db)
                 | Inr runs \<Rightarrow> roll_days st (a_force args) (tm_generated tm) runs (sort (remdups (map (\<lambda>rc. r_day (fst rc)) runs))) db))))"
section \<open>Comparing two revisions\<close>

type_synonym test_ident = "string \<times> string \<times> string \<times> string"

definition ident_of :: "test_key \<Rightarrow> test_ident" where
  "ident_of key = (case key of (day, repo, workflow, suite, test, sha) \<Rightarrow> (repo, workflow, suite, test))"

definition key_sha :: "test_key \<Rightarrow> string" where
  "key_sha key = (case key of (day, repo, workflow, suite, test, sha) \<Rightarrow> sha)"

record 'd side =
  s_runs :: nat
  s_failures :: nat
  s_p50 :: "'d option"

definition add_total :: "(test_ident \<times> nat \<times> nat \<times> 'd list) list \<Rightarrow> 'd rollup \<Rightarrow> (test_ident \<times> nat \<times> nat \<times> 'd list) list" where
  "add_total totals r = (let ident = ident_of (ro_key r) in
     case (case map_of totals ident of None \<Rightarrow> (0, 0, []) | Some x \<Rightarrow> x) of (runs, failures, p50s) \<Rightarrow>
       dict_set ident (runs + ro_runs r, failures + ro_failures r, (case ro_p50 r of None \<Rightarrow> p50s | Some d \<Rightarrow> p50s @ [d])) totals)"

definition sha_totals :: "'d::linorder stats \<Rightarrow> 'd trends_db \<Rightarrow> string \<Rightarrow> string \<Rightarrow> (test_ident \<times> 'd side) list" where
  "sha_totals st db sha window_from =
     map (\<lambda>(ident, runs, failures, p50s). (ident, \<lparr>s_runs = runs, s_failures = failures, s_p50 = percentile st 50 p50s\<rparr>))
       (foldl add_total [] (filter (\<lambda>r. key_sha (ro_key r) = sha \<and> window_from \<le> ro_day r) (test_rollup db)))"

record 'd compared =
  cm_ident :: test_ident
  cm_base :: "'d side"
  cm_head :: "'d side"
  cm_failures :: int
  cm_p50 :: "'d option"

definition both_row :: "'d stats \<Rightarrow> test_ident \<Rightarrow> 'd side \<Rightarrow> 'd side \<Rightarrow> 'd compared" where
  "both_row st ident base head = \<lparr>cm_ident = ident, cm_base = base, cm_head = head,
     cm_failures = int (s_failures head) - int (s_failures base),
     cm_p50 = (case (s_p50 base, s_p50 head) of (Some b, Some h) \<Rightarrow> Some (st_round st (st_sub st h b)) | _ \<Rightarrow> None)\<rparr>"

type_synonym 'd tables = "'d compared list \<times> (test_ident \<times> 'd side) list \<times> (test_ident \<times> 'd side) list"

definition compare_one :: "'d stats \<Rightarrow> (test_ident \<times> 'd side) list \<Rightarrow> (test_ident \<times> 'd side) list \<Rightarrow> 'd tables \<Rightarrow> test_ident \<Rightarrow> 'd tables" where
  "compare_one st base head tables ident = (case tables of (both, only_base, only_head) \<Rightarrow>
     (case (map_of base ident, map_of head ident) of
        (None, None) \<Rightarrow> tables
      | (None, Some h) \<Rightarrow> (both, only_base, only_head @ [(ident, h)])
      | (Some b, None) \<Rightarrow> (both, only_base @ [(ident, b)], only_head)
      | (Some b, Some h) \<Rightarrow> (both @ [both_row st ident b h], only_base, only_head)))"

definition compare_rows :: "'d stats \<Rightarrow> (test_ident \<times> 'd side) list \<Rightarrow> (test_ident \<times> 'd side) list \<Rightarrow> 'd tables" where
  "compare_rows st base head = foldl (compare_one st base head) ([], [], []) (sort (remdups (map fst base @ map fst head)))"

datatype compare_note =
    Params_required
  | No_store
  | Store_unreadable
  | No_base_rows
  | No_head_rows
  | Capped nat nat                   \<comment> \<open>the table, and its length\<close>
  | None_in_both

definition COMPARE_MAX_DAYS :: int where "COMPARE_MAX_DAYS = 30"
definition COMPARE_MAX_ROWS :: nat where "COMPARE_MAX_ROWS = 2000"

definition capped :: "nat \<Rightarrow> 'a list \<Rightarrow> compare_note list" where
  "capped table rows = (if COMPARE_MAX_ROWS < length rows then [Capped table (length rows)] else [])"

text \<open>\<open>None\<close> is a store without a file, \<open>Some None\<close> one that cannot be read.\<close>

definition compare_document ::
  "'d::linorder stats \<Rightarrow> trends_time \<Rightarrow> 'd trends_db option option \<Rightarrow> string \<Rightarrow> string \<Rightarrow> int \<Rightarrow> 'd tables \<times> compare_note list" where
  "compare_document st tm store base_sha head_sha days =
     (if base_sha = [] \<or> head_sha = [] then (([], [], []), [Params_required])
      else (case store of
        None \<Rightarrow> (([], [], []), [No_store])
      | Some None \<Rightarrow> (([], [], []), [Store_unreadable])
      | Some (Some db) \<Rightarrow>
          let window_from = tm_iso tm (tm_today tm - max 1 (min days COMPARE_MAX_DAYS));
              base = sha_totals st db base_sha window_from;
              head = sha_totals st db head_sha window_from
          in (case compare_rows st base head of (both, only_base, only_head) \<Rightarrow>
               ((take COMPARE_MAX_ROWS both, take COMPARE_MAX_ROWS only_base, take COMPARE_MAX_ROWS only_head),
                (if base = [] then [No_base_rows] else []) @ (if head = [] then [No_head_rows] else []) @
                capped 0 both @ capped 1 only_base @ capped 2 only_head @ (if both = [] then [None_in_both] else [])))))"

section \<open>The rollup counts\<close>

text \<open>The row of a test said at once: over the outcomes of the test on its day, workflow and source SHA.\<close>

definition reference_row :: "'d::linorder stats \<Rightarrow> test_key \<Rightarrow> 'd outcome list \<Rightarrow> 'd rollup" where
  "reference_row st key cs = (let durations = List.map_filter c_duration cs in
     \<lparr>ro_key = key, ro_runs = length cs, ro_passes = length (filter c_passed cs), ro_failures = length (filter (\<lambda>c. \<not> c_passed c) cs),
      ro_p50 = percentile st 50 durations, ro_p95 = percentile st 95 durations, ro_p99 = percentile st 99 durations,
      ro_mean = mean_value st durations\<rparr>)"

definition the_key :: "run \<times> 'd outcome \<Rightarrow> test_key" where
  "the_key rc = outcome_key (fst rc) (snd rc)"

definition outcomes_for :: "test_key \<Rightarrow> (run \<times> 'd outcome) list \<Rightarrow> 'd outcome list" where
  "outcomes_for key rcs = map snd (filter (\<lambda>rc. the_key rc = key) rcs)"

lemma map_filter_append: "List.map_filter f (xs @ ys) = List.map_filter f xs @ List.map_filter f ys"
  by (simp add: map_filter_def)

lemma count_outcomes:
  "foldl (\<lambda>g c. count_outcome c g) no_group cs =
   \<lparr>g_runs = length cs, g_passes = length (filter c_passed cs), g_failures = length (filter (\<lambda>c. \<not> c_passed c) cs),
    g_durations = List.map_filter c_duration cs\<rparr>"
  by (induction cs rule: rev_induct)
    (simp_all add: no_group_def count_outcome_def map_filter_append map_filter_simps split: option.split)

lemma outcomes_for_snoc: "outcomes_for key (rcs @ [rc]) = outcomes_for key rcs @ (if the_key rc = key then [snd rc] else [])"
  by (simp add: outcomes_for_def)

lemma map_of_groups:
  "map_of (foldl add_outcome [] rcs) key =
   (if outcomes_for key rcs = [] then None else Some (foldl (\<lambda>g c. count_outcome c g) no_group (outcomes_for key rcs)))"
proof (induction rcs arbitrary: key rule: rev_induct)
  case Nil
  show ?case by (simp add: outcomes_for_def)
next
  case (snoc rc rcs)
  have group: "(case map_of (foldl add_outcome [] rcs) k of None \<Rightarrow> no_group | Some g \<Rightarrow> g) =
      foldl (\<lambda>g c. count_outcome c g) no_group (outcomes_for k rcs)" for k
    by (simp add: snoc.IH)
  have step: "foldl add_outcome [] (rcs @ [rc]) = dict_set (the_key rc) (count_outcome (snd rc)
      (foldl (\<lambda>g c. count_outcome c g) no_group (outcomes_for (the_key rc) rcs))) (foldl add_outcome [] rcs)"
    unfolding foldl_append foldl.simps add_outcome_def Let_def the_key_def [symmetric] group ..
  show ?case unfolding step map_of_dict_set by (auto simp: outcomes_for_snoc snoc.IH)
qed

lemma groups_keys:
  "distinct (map fst (foldl add_outcome [] rcs)) \<and> set (map fst (foldl add_outcome [] rcs)) = the_key ` set rcs"
proof (induction rcs rule: rev_induct)
  case (snoc rc rcs)
  then show ?case
    by (simp add: add_outcome_def Let_def distinct_dict_set keys_dict_set [unfolded set_map] the_key_def)
qed simp

lemma group_row_reference:
  assumes "key \<in> the_key ` set rcs"
  shows "rollup_of st key (the (map_of (foldl add_outcome [] rcs) key)) = reference_row st key (outcomes_for key rcs)"
proof -
  have "outcomes_for key rcs \<noteq> []" using assms by (auto simp: outcomes_for_def filter_empty_conv)
  then have group: "the (map_of (foldl add_outcome [] rcs) key) = foldl (\<lambda>g c. count_outcome c g) no_group (outcomes_for key rcs)"
    by (simp add: map_of_groups)
  show ?thesis unfolding group count_outcomes by (simp add: rollup_of_def reference_row_def Let_def)
qed

lemma rollup_keys: "map ro_key (rollup_rows st runs) = sort (remdups (map the_key (all_outcomes runs)))"
proof -
  let ?groups = "foldl add_outcome [] (all_outcomes runs)"
  have "sort (map fst ?groups) = sort (remdups (map the_key (all_outcomes runs)))"
    using groups_keys [of "all_outcomes runs"] by (intro sorted_distinct_set_unique) auto
  then show ?thesis by (simp add: rollup_rows_def Let_def rollup_of_def comp_def)
qed

text \<open>Claim C23: the rollup has exactly one row per test, day, workflow and source SHA with an outcome, in order, and
  its counts, percentiles and mean are those of these outcomes.\<close>

theorem rollup_counts_outcomes:
  "rollup_rows st runs = map (\<lambda>key. reference_row st key (outcomes_for key (all_outcomes runs)))
     (sort (remdups (map the_key (all_outcomes runs))))"
proof -
  let ?groups = "foldl add_outcome [] (all_outcomes runs)"
  have keys: "sort (map fst ?groups) = sort (remdups (map the_key (all_outcomes runs)))"
    using groups_keys [of "all_outcomes runs"] by (intro sorted_distinct_set_unique) auto
  show ?thesis unfolding rollup_rows_def Let_def keys
    by (rule map_cong [OF refl]) (simp add: group_row_reference)
qed

section \<open>Nearest rank\<close>

lemma sorted_count_le:
  assumes "sorted xs" "k < length xs"
  shows "k < length (filter (\<lambda>x. x \<le> xs ! k) xs)" "length (filter (\<lambda>x. x < xs ! k) xs) \<le> k"
proof -
  have "set (take (Suc k) xs) \<subseteq> {x. x \<le> xs ! k}"
    using assms by (auto simp: in_set_conv_nth sorted_iff_nth_mono)
  then have "length (filter (\<lambda>x. x \<le> xs ! k) (take (Suc k) xs)) = Suc k"
    using assms(2) by (subst filter_True) auto
  moreover have "filter (\<lambda>x. x \<le> xs ! k) xs = filter (\<lambda>x. x \<le> xs ! k) (take (Suc k) xs) @ filter (\<lambda>x. x \<le> xs ! k) (drop (Suc k) xs)"
    by (metis append_take_drop_id filter_append)
  ultimately show "k < length (filter (\<lambda>x. x \<le> xs ! k) xs)" by simp
  have "filter (\<lambda>x. x < xs ! k) (drop k xs) = []"
    using assms by (auto simp: filter_empty_conv in_set_conv_nth sorted_iff_nth_mono not_less)
  then have "filter (\<lambda>x. x < xs ! k) xs = filter (\<lambda>x. x < xs ! k) (take k xs)"
    by (metis append_Nil2 append_take_drop_id filter_append)
  then show "length (filter (\<lambda>x. x < xs ! k) xs) \<le> k"
    using length_filter_le [of "\<lambda>x. x < xs ! k" "take k xs"] by (simp del: length_filter_le)
qed

lemma ceil100:
  fixes m n :: nat
  shows "m \<le> 100 * ((m + 99) div 100)" "0 < m \<Longrightarrow> 100 * ((m + 99) div 100 - 1) < m" "0 < m \<Longrightarrow> 1 \<le> (m + 99) div 100"
    "m \<le> 100 * n \<Longrightarrow> (m + 99) div 100 \<le> n"
proof -
  define q where "q = (m + 99) div 100"
  have q: "m + 99 = 100 * q + (m + 99) mod 100" "(m + 99) mod 100 < 100" by (simp_all add: q_def)
  then show "m \<le> 100 * ((m + 99) div 100)" unfolding q_def [symmetric] by linarith
  show pos: "1 \<le> (m + 99) div 100" if "0 < m" using q that unfolding q_def [symmetric] by linarith
  show "100 * ((m + 99) div 100 - 1) < m" if "0 < m"
    using q pos [OF that] unfolding q_def [symmetric] by (simp add: diff_mult_distrib2)
  show "(m + 99) div 100 \<le> n" if "m \<le> 100 * n" using q that unfolding q_def [symmetric] by linarith
qed

lemma count_sort: "length (filter P (sort xs)) = length (filter P xs)"
  by (simp add: filter_sort)

text \<open>A percentile is the rounding of a value that was measured: at least the fraction of the values
  lies at or below it, and less than the fraction lies strictly below.\<close>

theorem percentile_is_nearest_rank:
  assumes "vals \<noteq> []" "0 < h" "h \<le> 100"
  shows "\<exists>v \<in> set vals. percentile st h vals = Some (st_round st v) \<and>
    h * length vals \<le> 100 * length (filter (\<lambda>x. x \<le> v) vals) \<and> 100 * length (filter (\<lambda>x. x < v) vals) < h * length vals"
proof -
  let ?n = "length vals"
  let ?rank = "(h * ?n + 99) div 100"
  have n: "0 < ?n" using assms(1) by simp
  have hn: "h * ?n \<le> 100 * ?n" "0 < h * ?n" using assms n by simp_all
  have rank: "1 \<le> ?rank" "?rank \<le> ?n" "h * ?n \<le> 100 * ?rank" "100 * (?rank - 1) < h * ?n"
    using ceil100(1-3) [of "h * ?n"] ceil100(4) [of "h * ?n" ?n] hn by simp_all
  let ?k = "?rank - 1"
  have k: "min (max ?rank 1) (length (sort vals)) - 1 = ?k" "?k < length (sort vals)" using rank(1,2) n by auto
  let ?v = "sort vals ! ?k"
  have c: "?k < length (filter (\<lambda>x. x \<le> ?v) vals)" "length (filter (\<lambda>x. x < ?v) vals) \<le> ?k"
    using sorted_count_le [OF sorted_sort k(2)] by (simp_all add: count_sort)
  have "?v \<in> set vals" using nth_mem [OF k(2)] by simp
  moreover have "percentile st h vals = Some (st_round st ?v)" using assms(1) k(1) by (simp add: percentile_def Let_def)
  moreover have "h * ?n \<le> 100 * length (filter (\<lambda>x. x \<le> ?v) vals)" using c(1) rank by linarith
  moreover have "100 * length (filter (\<lambda>x. x < ?v) vals) < h * ?n" using c(2) rank(4) by linarith
  ultimately show ?thesis by blast
qed

section \<open>The store keeps what it has read\<close>

text \<open>The primary keys hold, every row lies on a day with coverage, and every run that a day claims to have read
  has its outcomes among the raw rows.\<close>

definition store_ok :: "'d trends_db \<Rightarrow> bool" where
  "store_ok db \<longleftrightarrow> distinct (map ro_key (test_rollup db)) \<and> distinct (map d_day (rollup_days db)) \<and>
     (\<forall>r \<in> set (test_rollup db). ro_day r \<in> d_day ` set (rollup_days db)) \<and>
     (\<forall>t \<in> set (test_runs db). tr_day t \<in> d_day ` set (rollup_days db)) \<and>
     (\<forall>d \<in> set (rollup_days db). \<forall>i \<in> set (d_ids d). \<exists>t \<in> set (test_runs db). tr_day t = d_day d \<and> tr_run t = i)"

definition stored_ids :: "'d trends_db \<Rightarrow> string \<Rightarrow> nat set" where
  "stored_ids db day = (case find (\<lambda>d. d_day d = day) (rollup_days db) of None \<Rightarrow> {} | Some d \<Rightarrow> set (d_ids d))"

lemma find_filter_other: "(\<And>x. P x \<Longrightarrow> Q x) \<Longrightarrow> find P (filter Q xs) = find P xs"
  by (induction xs) auto

lemma find_append: "find P (xs @ ys) = (case find P xs of None \<Rightarrow> find P ys | Some x \<Rightarrow> Some x)"
  by (induction xs) auto

lemma find_filter_none: "find P (filter (\<lambda>x. \<not> P x) xs) = None"
  by (induction xs) auto

lemma prune_ok: "store_ok db \<Longrightarrow> store_ok (prune_old_days cutoff db)"
proof -
  assume ok: "store_ok db"
  have day: "x \<in> d_day ` set (filter (\<lambda>d. \<not> d_day d < cutoff) (rollup_days db))"
    if "x \<in> d_day ` set (rollup_days db)" "\<not> x < cutoff" for x using that by auto
  have "distinct (map ro_key (filter P (test_rollup db)))" "distinct (map d_day (filter Q (rollup_days db)))" for P Q
    using ok by (simp_all add: store_ok_def distinct_map_filter)
  moreover have "\<exists>t \<in> set (filter (\<lambda>t. \<not> tr_day t < cutoff) (test_runs db)). tr_day t = d_day d \<and> tr_run t = i"
    if "d \<in> set (filter (\<lambda>d. \<not> d_day d < cutoff) (rollup_days db))" "i \<in> set (d_ids d)" for d i
  proof -
    have d: "d \<in> set (rollup_days db)" "\<not> d_day d < cutoff" using that(1) by simp_all
    with ok that(2) obtain t where "t \<in> set (test_runs db)" "tr_day t = d_day d" "tr_run t = i" unfolding store_ok_def by blast
    with d(2) show ?thesis by (intro bexI [of _ t]) simp_all
  qed
  ultimately show ?thesis
    using ok day unfolding store_ok_def prune_old_days_def by simp
qed

lemma prune_keeps_ids: "\<not> day < cutoff \<Longrightarrow> stored_ids (prune_old_days cutoff db) day = stored_ids db day"
  unfolding stored_ids_def prune_old_days_def by (simp add: find_filter_other)

text \<open>The rows that one day writes.\<close>

lemma outcomes_of_day: "rc \<in> set (all_outcomes (day_runs day runs)) \<Longrightarrow> r_day (fst rc) = day"
  by (auto simp: all_outcomes_def day_runs_def)

lemma rollup_day: "r \<in> set (rollup_rows st (day_runs day runs)) \<Longrightarrow> ro_day r = day"
proof -
  assume "r \<in> set (rollup_rows st (day_runs day runs))"
  then have "ro_key r \<in> set (map ro_key (rollup_rows st (day_runs day runs)))" unfolding set_map by (rule imageI)
  then have "ro_key r \<in> the_key ` set (all_outcomes (day_runs day runs))" unfolding rollup_keys by simp
  then obtain rc where rc: "rc \<in> set (all_outcomes (day_runs day runs))" "ro_key r = the_key rc" by (elim imageE)
  have "ro_day r = r_day (fst rc)" unfolding ro_day_def rc(2) by (simp add: the_key_def outcome_key_def)
  with outcomes_of_day [OF rc(1)] show ?thesis by simp
qed

lemma test_run_day:
  assumes "t \<in> set (test_run_rows (day_runs day runs))"
  shows "tr_day t = day"
proof -
  from assms obtain r c where rc: "(r, c) \<in> set (all_outcomes (day_runs day runs))" "tr_key t = outcome_key r c"
    by (auto simp: test_run_rows_def)
  with outcomes_of_day [OF rc(1)] show ?thesis by (simp add: tr_day_def outcome_key_def)
qed

lemma parsed_has_rows:
  assumes "i \<in> set (parsed_ids day runs)"
  shows "\<exists>t \<in> set (test_run_rows (day_runs day runs)). tr_day t = day \<and> tr_run t = i"
proof -
  from assms obtain r cs where r: "(r, cs) \<in> set (day_runs day runs)" "cs \<noteq> []" "r_id r = i"
    by (auto simp: parsed_ids_def parsed_runs_def)
  from r(2) obtain c cs' where c: "cs = c # cs'" by (cases cs) auto
  let ?t = "\<lparr>tr_key = outcome_key r c, tr_run = r_id r, tr_created = r_created r, tr_duration = c_duration c, tr_passed = c_passed c\<rparr>"
  have "(r, c) \<in> set (all_outcomes (day_runs day runs))" using r(1) c by (force simp: all_outcomes_def)
  then have t: "?t \<in> set (test_run_rows (day_runs day runs))" by (force simp: test_run_rows_def)
  with test_run_day [OF t] r(3) show ?thesis by (intro bexI [OF _ t]) simp
qed

text \<open>A day never runs into a primary key.\<close>

lemma write_day_total:
  assumes "store_ok db"
  shows "\<exists>db'. write_day day (rollup_rows st (day_runs day runs)) (coverage_of g day runs) (test_run_rows (day_runs day runs)) db = Some db' \<and> store_ok db'"
proof -
  let ?rows = "rollup_rows st (day_runs day runs)"
  let ?rollup = "filter (\<lambda>r. ro_day r \<noteq> day) (test_rollup db) @ ?rows"
  let ?days = "filter (\<lambda>d. d_day d \<noteq> day) (rollup_days db) @ [coverage_of g day runs]"
  let ?runs = "filter (\<lambda>t. tr_day t \<noteq> day) (test_runs db) @ test_run_rows (day_runs day runs)"
  have "distinct (map ro_key ?rows)" unfolding rollup_keys by simp
  moreover have "ro_key a \<noteq> ro_key b" if "a \<in> set (filter (\<lambda>r. ro_day r \<noteq> day) (test_rollup db))" "b \<in> set ?rows" for a b
    using that rollup_day [OF that(2)] by (auto simp: ro_day_def)
  then have "ro_key ` set (filter (\<lambda>r. ro_day r \<noteq> day) (test_rollup db)) \<inter> ro_key ` set ?rows = {}" by blast
  ultimately have keys: "distinct (map ro_key ?rollup)"
    using assms by (simp add: store_ok_def distinct_map_filter)
  have days: "distinct (map d_day ?days)"
    using assms by (auto simp: store_ok_def distinct_map_filter coverage_of_def)
  have covered: "x \<in> d_day ` set ?days" if "x \<in> d_day ` set (rollup_days db) \<or> x = day" for x
    using that by (auto simp: coverage_of_def)
  have "ro_day r \<in> d_day ` set ?days" if "r \<in> set ?rollup" for r
    using that assms rollup_day [of r st day runs] by (intro covered) (auto simp: store_ok_def)
  moreover have "tr_day t \<in> d_day ` set ?days" if "t \<in> set ?runs" for t
    using that assms test_run_day [of t day runs] by (intro covered) (auto simp: store_ok_def)
  moreover have "\<exists>t \<in> set ?runs. tr_day t = d_day d \<and> tr_run t = i" if d: "d \<in> set ?days" and i: "i \<in> set (d_ids d)" for d i
  proof (cases "d \<in> set (rollup_days db) \<and> d_day d \<noteq> day")
    case True
    with assms i obtain t where "t \<in> set (test_runs db)" "tr_day t = d_day d" "tr_run t = i" unfolding store_ok_def by blast
    with True show ?thesis by (intro bexI [of _ t]) auto
  next
    case False
    with d have "d = coverage_of g day runs" by auto
    with i parsed_has_rows [of i day runs] show ?thesis by (auto simp: coverage_of_def)
  qed
  ultimately have "store_ok \<lparr>test_rollup = ?rollup, test_runs = ?runs, rollup_days = ?days\<rparr>"
    using keys days by (simp add: store_ok_def)
  with keys days show ?thesis by (simp add: write_day_def Let_def)
qed

lemma roll_day_ok:
  assumes "store_ok db"
  shows "\<exists>db'. roll_day st force g runs db day = Inr db' \<and> store_ok db'"
  using write_day_total [OF assms, of day st runs g] assms by (auto simp: roll_day_def)

lemma roll_days_ok:
  assumes "store_ok db"
  shows "\<exists>db'. roll_days st force g runs days db = (Inr 0, db') \<and> store_ok db'"
  using assms
proof (induction days arbitrary: db)
  case (Cons day days)
  from roll_day_ok [OF Cons.prems] obtain db' where "roll_day st force g runs db day = Inr db'" "store_ok db'" by blast
  with Cons.IH [of db'] show ?case by simp
qed simp

lemma mapE_Inl: "mapE f xs = Inl e \<Longrightarrow> \<exists>x \<in> set xs. f x = Inl e"
proof (induction xs)
  case (Cons x xs)
  then show ?case by (cases "f x"; cases "mapE f xs") auto
qed simp

lemma pass_store_ok:
  assumes "store_ok db"
  shows "store_ok (snd (trends_main lib st tm args has_token jobs db))"
proof -
  have "store_ok (snd (roll_days st f g runs days (prune_old_days c db)))" for f g runs days c
    using roll_days_ok [OF prune_ok [OF assms], of st f g runs days c] by auto
  with assms prune_ok [OF assms] show ?thesis
    by (auto simp: trends_main_def Let_def split: option.split sum.split)
qed

text \<open>Claim C22: a pass keeps the invariant of the store, and an exception ends it only while it reads from
  GitHub: writing never violates a primary key.\<close>

theorem pass_keeps_store:
  assumes "store_ok db"
  shows "store_ok (snd (trends_main lib st tm args has_token jobs db)) \<and>
    (case fst (trends_main lib st tm args has_token jobs db) of Inl u \<Rightarrow> \<exists>repo i. fetch lib repo i = Inl () | Inr status \<Rightarrow> True)"
proof -
  let ?cutoff = "tm_iso tm (tm_today tm - RETENTION_DAYS)"
  have rolled: "fst (roll_days st f g runs days (prune_old_days ?cutoff db)) = Inr 0" for f g runs days
    using roll_days_ok [OF prune_ok [OF assms], of st f g runs days ?cutoff] by auto
  have failed: "\<exists>repo i. fetch lib repo i = Inl ()" if "mapE (fetch_run lib) runs = Inl e" for runs e
  proof -
    from mapE_Inl [OF that] obtain r where r: "fetch_run lib r = Inl e" by blast
    show ?thesis
    proof (cases "fetch lib (r_repo r) (r_id r)")
      case (Inl u)
      then show ?thesis by (cases u) blast
    next
      case (Inr x)
      with r show ?thesis by (simp add: fetch_run_def)
    qed
  qed
  show ?thesis
    using pass_store_ok [OF assms] rolled failed
    by (auto simp: trends_main_def Let_def split: option.split sum.split)
qed

text \<open>Without \<open>--force\<close>, a day loses no run.\<close>

lemma roll_day_keeps_ids:
  assumes "roll_day st False g runs db day = Inr db'"
  shows "stored_ids db x \<subseteq> stored_ids db' x"
proof (cases "keeps_stored False db day runs")
  case True
  with assms show ?thesis by (simp add: roll_day_def)
next
  case False
  with assms have db': "rollup_days db' = filter (\<lambda>d. d_day d \<noteq> day) (rollup_days db) @ [coverage_of g day runs]"
    by (auto simp: roll_day_def write_day_def Let_def split: option.splits if_splits)
  show ?thesis
  proof (cases "x = day")
    case True
    have "stored_ids db' day = set (parsed_ids day runs)"
      unfolding stored_ids_def db' by (simp add: find_append find_filter_none coverage_of_def)
    with False True show ?thesis
      by (auto simp: keeps_stored_def stored_ids_def day_is_superset_def split: option.splits)
  next
    case other: False
    have "stored_ids db' x = stored_ids db x"
      unfolding stored_ids_def db' using other
      by (simp add: find_append find_filter_other coverage_of_def split: option.split)
    then show ?thesis by simp
  qed
qed

lemma roll_days_keep_ids: "stored_ids db x \<subseteq> stored_ids (snd (roll_days st False g runs days db)) x"
proof (induction days arbitrary: db)
  case (Cons day days)
  show ?case
  proof (cases "roll_day st False g runs db day")
    case (Inr db')
    with roll_day_keeps_ids [OF this, of x] Cons.IH [of db'] show ?thesis by auto
  qed simp
qed simp

text \<open>Claim C21: without \<open>--force\<close> no stored outcome is lost before its time: a run that a day within the
  retention window has read is still claimed by the day after the pass, and its outcomes are still among the
  raw rows, whatever GitHub answers.\<close>

theorem stored_runs_survive:
  assumes "store_ok db" "\<not> a_force args" "\<not> day < tm_iso tm (tm_today tm - RETENTION_DAYS)" "i \<in> stored_ids db day"
  shows "i \<in> stored_ids (snd (trends_main lib st tm args has_token jobs db)) day \<and>
    (\<exists>t \<in> set (test_runs (snd (trends_main lib st tm args has_token jobs db))). tr_day t = day \<and> tr_run t = i)"
proof -
  let ?cutoff = "tm_iso tm (tm_today tm - RETENTION_DAYS)"
  let ?db = "snd (trends_main lib st tm args has_token jobs db)"
  have pruned: "i \<in> stored_ids (prune_old_days ?cutoff db) day" using assms(3,4) by (simp add: prune_keeps_ids)
  have rolled: "i \<in> stored_ids (snd (roll_days st (a_force args) g runs days (prune_old_days ?cutoff db))) day" for g runs days
    using roll_days_keep_ids [of "prune_old_days ?cutoff db" day st g runs days] pruned assms(2) by auto
  have i: "i \<in> stored_ids ?db day"
    using assms(4) pruned rolled by (auto simp: trends_main_def Let_def split: option.split sum.split)
  then obtain d where d: "find (\<lambda>d. d_day d = day) (rollup_days ?db) = Some d" "i \<in> set (d_ids d)"
    by (auto simp: stored_ids_def split: option.splits)
  then have "d \<in> set (rollup_days ?db)" "d_day d = day" by (auto simp: find_Some_iff)
  with pass_store_ok [OF assms(1)] d(2) i show ?thesis unfolding store_ok_def by blast
qed

section \<open>The source SHA of a run\<close>

definition rows_of :: "nat \<Rightarrow> job_row list \<Rightarrow> job_row list" where
  "rows_of i rows = filter (\<lambda>row. run_id_of row = Some i) rows"

text \<open>What the first pass over the rows knows of a run.\<close>

definition sha_known :: "job_row list \<Rightarrow> nat \<Rightarrow> string \<Rightarrow> bool" where
  "sha_known rows i s \<longleftrightarrow> s \<noteq> [] \<and> (\<exists>row \<in> set rows. run_id_of row = Some i \<and> sha_of row = s)"

lemma note_row_shas:
  "run_shas (note_row notes row) = (case run_id_of row of None \<Rightarrow> run_shas notes | Some i \<Rightarrow> note_sha i (sha_of row) (run_shas notes))"
  by (simp add: note_row_def Let_def split: option.split)

lemma note_row_rows:
  "run_rows (note_row notes row) i = Some r \<Longrightarrow> run_rows notes i = Some r \<or> (r = row \<and> run_id_of row = Some i)"
  by (auto simp: note_row_def Let_def note_run_row_def split: option.splits if_splits)

lemma run_rows_from:
  "run_rows (foldl note_row \<lparr>run_shas = Map.empty, run_rows = Map.empty\<rparr> rows) i = Some r \<Longrightarrow> r \<in> set rows \<and> run_id_of r = Some i"
proof (induction rows rule: rev_induct)
  case (snoc row rows)
  then have "run_rows (note_row (foldl note_row \<lparr>run_shas = Map.empty, run_rows = Map.empty\<rparr> rows) row) i = Some r" by simp
  from note_row_rows [OF this] snoc.IH show ?case by auto
qed simp

fun first_nonempty :: "string list \<Rightarrow> string" where
  "first_nonempty [] = []"
| "first_nonempty (s # ss) = (if s \<noteq> [] then s else first_nonempty ss)"

lemma first_nonempty_snoc: "first_nonempty (ss @ [s]) = (if first_nonempty ss \<noteq> [] then first_nonempty ss else s)"
  by (induction ss) simp_all

lemma first_nonempty_in: "first_nonempty ss \<in> set ss \<and> first_nonempty ss \<noteq> [] \<or> (first_nonempty ss = [] \<and> (\<forall>s \<in> set ss. s = []))"
  by (induction ss) auto

lemma or_empty_note_sha:
  "or_empty (note_sha j sha m i) = (if j = i \<and> or_empty (m i) = [] then sha else or_empty (m i))"
  by (auto simp: note_sha_def or_empty_def split: option.split)

lemma run_shas_first:
  "or_empty (run_shas (foldl note_row \<lparr>run_shas = Map.empty, run_rows = Map.empty\<rparr> rows) i) =
   first_nonempty (map sha_of (rows_of i rows))"
proof (induction rows rule: rev_induct)
  case Nil
  show ?case by (simp add: rows_of_def or_empty_def)
next
  case (snoc row rows)
  show ?case
  proof (cases "run_id_of row")
    case None
    with snoc show ?thesis by (simp add: note_row_shas rows_of_def)
  next
    case (Some j)
    then have "or_empty (run_shas (note_row (foldl note_row \<lparr>run_shas = Map.empty, run_rows = Map.empty\<rparr> rows) row) i) =
        (if j = i \<and> first_nonempty (map sha_of (rows_of i rows)) = [] then sha_of row else first_nonempty (map sha_of (rows_of i rows)))"
      by (simp add: note_row_shas or_empty_note_sha snoc)
    with Some show ?thesis by (simp add: rows_of_def first_nonempty_snoc)
  qed
qed

lemma first_sha_known:
  "sha_known rows i (first_nonempty (map sha_of (rows_of i rows))) \<or>
   (first_nonempty (map sha_of (rows_of i rows)) = [] \<and> (\<nexists>s. sha_known rows i s))"
  using first_nonempty_in [of "map sha_of (rows_of i rows)"]
  by (elim disjE conjE) (auto simp: rows_of_def sha_known_def)

lemma group_row_shas:
  assumes "(i, e) \<in> set (group_row grouped row)"
  shows "(\<exists>e'. (i, e') \<in> set grouped \<and> en_sha e = en_sha e') \<or>
    (run_id_of row = Some i \<and> (en_sha e = sha_of row \<or> (\<exists>e'. (i, e') \<in> set grouped \<and> en_sha e = en_sha e')))"
proof (cases "or_empty (jr_category row) \<noteq> ''e2e'' \<or> run_id_of row = None")
  case True
  with assms show ?thesis by (auto simp: group_row_def split: option.splits if_splits)
next
  case False
  then obtain j where j: "or_empty (jr_category row) = ''e2e''" "run_id_of row = Some j" by auto
  let ?e = "case map_of grouped j of None \<Rightarrow> \<lparr>en_repo = [], en_workflows = [], en_created = [], en_sha = []\<rparr> | Some e \<Rightarrow> e"
  have "(i, e) \<in> set (dict_set j (add_to_entry ?e row) grouped)" using assms j by (simp add: group_row_def)
  then have "(i, e) \<in> set grouped \<or> (i = j \<and> e = add_to_entry ?e row)"
    by (induction j "add_to_entry ?e row" grouped rule: dict_set.induct) (auto split: if_splits)
  then show ?thesis
    using j(2) by (auto simp: add_to_entry_def Let_def first_text_def dest: map_of_SomeD split: option.splits if_splits)
qed

lemma entry_shas:
  "(i, e) \<in> set (foldl group_row [] rows) \<Longrightarrow> en_sha e = [] \<or> sha_known rows i (en_sha e)"
proof (induction rows arbitrary: e rule: rev_induct)
  case (snoc row rows)
  have mono: "sha_known rows i s \<Longrightarrow> sha_known (rows @ [row]) i s" for s by (auto simp: sha_known_def)
  from snoc.prems have "(i, e) \<in> set (group_row (foldl group_row [] rows) row)" by simp
  from group_row_shas [OF this] snoc.IH mono show ?case by (fastforce simp: sha_known_def)
qed simp

text \<open>A run is rolled up under a source SHA that is stored for it, and under the empty SHA only when no
  stored row of the run has one; the order of the rows does not matter for that.\<close>

theorem run_sha_is_stored:
  assumes "r \<in> set (candidate_runs rows)"
  shows "if \<exists>s. sha_known rows (r_id r) s then sha_known rows (r_id r) (r_sha r) else r_sha r = []"
proof -
  let ?notes = "foldl note_row \<lparr>run_shas = Map.empty, run_rows = Map.empty\<rparr> rows"
  from assms obtain i e where e: "(i, e) \<in> set (foldl group_row [] rows)" "r = finish_entry ?notes (i, e)"
    by (auto simp: candidate_runs_def Let_def)
  let ?parent = "case run_rows ?notes i of None \<Rightarrow> [] | Some row \<Rightarrow> sha_of row"
  let ?first = "or_empty (run_shas ?notes i)"
  have id: "r_id r = i" and sha: "r_sha r = first_text ?parent (first_text (en_sha e) ?first)"
    using e(2) by (simp_all add: finish_entry_def Let_def)
  have "?parent = [] \<or> sha_known rows i ?parent"
    using run_rows_from [of rows i] by (auto simp: sha_known_def split: option.splits)
  moreover have "en_sha e = [] \<or> sha_known rows i (en_sha e)" by (rule entry_shas [OF e(1)])
  moreover have "sha_known rows i ?first \<or> (?first = [] \<and> (\<nexists>s. sha_known rows i s))"
    unfolding run_shas_first by (rule first_sha_known)
  ultimately show ?thesis unfolding id sha first_text_def by auto
qed

section \<open>The comparison\<close>

text \<open>Every test of either revision is in exactly one of the three tables, in order: in the first with both
  sides when both revisions ran it, and otherwise in the table of the revision that ran it.\<close>

theorem compare_partitions_tests:
  "compare_rows st base head =
    (let idents = sort (remdups (map fst base @ map fst head));
         in_base = (\<lambda>i. map_of base i \<noteq> None); in_head = (\<lambda>i. map_of head i \<noteq> None) in
     (map (\<lambda>i. both_row st i (the (map_of base i)) (the (map_of head i))) (filter (\<lambda>i. in_base i \<and> in_head i) idents),
      map (\<lambda>i. (i, the (map_of base i))) (filter (\<lambda>i. in_base i \<and> \<not> in_head i) idents),
      map (\<lambda>i. (i, the (map_of head i))) (filter (\<lambda>i. \<not> in_base i \<and> in_head i) idents)))"
proof -
  have "foldl (compare_one st base head) (a, b, c) idents =
     (a @ map (\<lambda>i. both_row st i (the (map_of base i)) (the (map_of head i))) (filter (\<lambda>i. map_of base i \<noteq> None \<and> map_of head i \<noteq> None) idents),
      b @ map (\<lambda>i. (i, the (map_of base i))) (filter (\<lambda>i. map_of base i \<noteq> None \<and> \<not> map_of head i \<noteq> None) idents),
      c @ map (\<lambda>i. (i, the (map_of head i))) (filter (\<lambda>i. \<not> map_of base i \<noteq> None \<and> map_of head i \<noteq> None) idents))" for idents a b c
    by (induction idents arbitrary: a b c) (auto simp: compare_one_def split: option.split)
  from this [of "[]" "[]" "[]"] show ?thesis by (simp add: compare_rows_def Let_def)
qed

section \<open>A store and a pass\<close>

definition demo_stats :: "nat stats" where
  "demo_stats = \<lparr>st_sum = sum_list, st_div = (div), st_sub = (-), st_round = id\<rparr>"

definition demo_time :: trends_time where
  "demo_time = \<lparr>tm_today = 100, tm_iso = (\<lambda>n. if n < 100 then ''2026-01-01'' else ''2026-01-31''), tm_parse = (\<lambda>s. None),
     tm_generated = ''2026-01-31T04:15:00Z''\<rparr>"

definition demo_args :: trends_args where
  "demo_args = \<lparr>a_day = None, a_days = None, a_force = False\<rparr>"

definition demo_job :: job_row where
  "demo_job = \<lparr>jr_id = 7, jr_repo = Some ''osac'', jr_workflow = Some ''E2E'', jr_category = Some ''e2e'',
     jr_url = Some ''https://github.com/o/osac/actions/runs/7'', jr_created = Some ''2026-01-20T10:00:00Z'', jr_sha = Some ''abc''\<rparr>"

definition demo_trend_run :: run where
  "demo_trend_run = \<lparr>r_id = 7, r_repo = ''osac'', r_workflow = ''E2E'', r_day = ''2026-01-20'', r_created = ''2026-01-20T10:00:00Z'', r_sha = ''abc''\<rparr>"

lemma demo_candidates: "candidate_runs [demo_job] = [demo_trend_run]"
  by code_simp

text \<open>A store that has read run 5 on the day of run 7.\<close>

definition demo_store :: "nat trends_db" where
  "demo_store = \<lparr>test_rollup = [], test_runs = [\<lparr>tr_key = (''2026-01-20'', ''osac'', ''E2E'', ''vmaas'', ''a::t'', ''abc''), tr_run = 5,
       tr_created = ''2026-01-20T09:00:00Z'', tr_duration = Some 1000, tr_passed = True\<rparr>],
     rollup_days = [\<lparr>d_day = ''2026-01-20'', d_listed = 1, d_parsed = 1, d_unavailable = 0, d_generated = ''2026-01-21'', d_ids = [5]\<rparr>]\<rparr>"

lemma demo_store_ok: "store_ok demo_store"
  by (simp add: store_ok_def demo_store_def tr_day_def)

theorem pass_keeps_store_witness:
  "store_ok (snd (trends_main demo_artifacts demo_stats demo_time demo_args True (Some [demo_job]) demo_store)) \<and>
    (case fst (trends_main demo_artifacts demo_stats demo_time demo_args True (Some [demo_job]) demo_store) of
       Inl u \<Rightarrow> \<exists>repo i. fetch demo_artifacts repo i = Inl () | Inr status \<Rightarrow> True)"
  by (rule pass_keeps_store [OF demo_store_ok])

theorem stored_runs_survive_witness:
  "5 \<in> stored_ids (snd (trends_main demo_artifacts demo_stats demo_time demo_args True (Some [demo_job]) demo_store)) ''2026-01-20'' \<and>
    (\<exists>t \<in> set (test_runs (snd (trends_main demo_artifacts demo_stats demo_time demo_args True (Some [demo_job]) demo_store))).
       tr_day t = ''2026-01-20'' \<and> tr_run t = 5)"
proof (rule stored_runs_survive [OF demo_store_ok])
  show "\<not> a_force demo_args" by (simp add: demo_args_def)
  show "\<not> ''2026-01-20'' < tm_iso demo_time (tm_today demo_time - RETENTION_DAYS)" by code_simp
  show "5 \<in> stored_ids demo_store ''2026-01-20''" by (simp add: stored_ids_def demo_store_def)
qed

theorem percentile_is_nearest_rank_witness:
  "\<exists>v \<in> set [30, 10, 20]. percentile demo_stats 95 [30, 10, 20] = Some (st_round demo_stats v) \<and>
    95 * length [30, 10, 20 :: nat] \<le> 100 * length (filter (\<lambda>x. x \<le> v) [30, 10, 20]) \<and>
    100 * length (filter (\<lambda>x. x < v) [30, 10, 20]) < 95 * length [30, 10, 20 :: nat]"
  by (rule percentile_is_nearest_rank) simp_all

theorem run_sha_is_stored_witness:
  "if \<exists>s. sha_known [demo_job] (r_id demo_trend_run) s then sha_known [demo_job] (r_id demo_trend_run) (r_sha demo_trend_run) else r_sha demo_trend_run = []"
  by (rule run_sha_is_stored) (simp add: demo_candidates)

text \<open>What survives is the run, not each of its outcomes: when an artifact of a run has expired and another is
  left, the pass counts the run as read, and the outcomes of the expired artifact are gone.\<close>

definition partial_store :: "nat trends_db" where
  "partial_store = \<lparr>test_rollup = [], test_runs = [\<lparr>tr_key = (''2026-01-20'', ''osac'', ''E2E'', ''caas'', ''b::t'', ''abc''), tr_run = 7,
       tr_created = ''2026-01-20T10:00:00Z'', tr_duration = Some 1000, tr_passed = False\<rparr>],
     rollup_days = [\<lparr>d_day = ''2026-01-20'', d_listed = 1, d_parsed = 1, d_unavailable = 0, d_generated = ''2026-01-21'', d_ids = [7]\<rparr>]\<rparr>"

lemma partial_read_drops_outcomes:
  "map (\<lambda>t. (tr_key t, tr_run t)) (test_runs (snd (trends_main demo_artifacts demo_stats demo_time demo_args True (Some [demo_job]) partial_store))) =
   [((''2026-01-20'', ''osac'', ''E2E'', ''vmaas'', ''tests.a::test_x'', ''abc''), 7),
    ((''2026-01-20'', ''osac'', ''E2E'', ''vmaas'', ''tests.a::test_y'', ''abc''), 7)]"
  by code_simp

end
