(* ===== verification/RecurringFailure.thy ===== *)
theory RecurringFailure
  imports Prelude PyDyn RegexFacts Xml
begin

text \<open>
  \<^verbatim>\<open>.github/scripts/track-recurring-failure.py\<close>: the review queue of recurring test failures, kept as GitHub
  issues that the program opens and bumps, and never confirms.

  The \<open>gh\<close> tool is the parameter \<open>gh\<close> over a world of any type \<open>'w\<close>: a call answers with its standard output, or \<open>None\<close> for
  a return code other than 0. \<open>rf_loads\<close> is \<open>json.loads\<close>, \<open>rf_xml\<close> is \<open>ET.parse\<close>. Texts go up to U+00FF. Printing and labels
  that fail to be created are not modelled further.
\<close>

section \<open>Calls and state\<close>

datatype rf_call =
    Current_user
  | Api string string "json option"           \<comment> \<open>method, path and payload\<close>
  | Create_label string
  | Add_label string string                   \<comment> \<open>issue number and label\<close>

datatype rf_exn = Runtime | Crash

record 'w rf_state =
  rf_world :: 'w
  rf_log :: "(rf_call \<times> string option) list"

type_synonym ('w, 'a) rf = "('w rf_state, rf_exn, 'a) prog"
type_synonym 'w gh_tool = "'w \<Rightarrow> rf_call \<Rightarrow> string option \<times> 'w"

record rf_lib =
  rf_loads :: "string \<Rightarrow> json option"
  rf_repr :: "json \<Rightarrow> string"
  rf_xml :: "string \<Rightarrow> xml option"

text \<open>The environment; a file is its content, or \<open>None\<close> when there is none at the path.\<close>

record rf_env =
  junit_file :: "string option"
  diagnosis_file :: "string option"
  source_repo :: string
  pr_number :: string
  run_url :: string
  workflow_name :: string

definition rf_issue :: "'w gh_tool \<Rightarrow> rf_call \<Rightarrow> ('w, string option) rf" where
  "rf_issue gh c st = (case gh (rf_world st) c of (r, w) \<Rightarrow> (Inr r, st\<lparr>rf_world := w, rf_log := rf_log st @ [(c, r)]\<rparr>))"

definition rpy :: "py_error + 'a \<Rightarrow> ('w, 'a) rf" where
  "rpy r = (case r of Inl e \<Rightarrow> raise Crash | Inr x \<Rightarrow> ret x)"

definition TRACKING_REPO :: string where "TRACKING_REPO = ''osac-project/osac-test-infra''"
definition CANDIDATE_LABEL :: string where "CANDIDATE_LABEL = ''ai-candidate-known-issue''"
definition REVIEW_LABEL :: string where "REVIEW_LABEL = ''needs-review''"
definition CONFIRMED_LABEL :: string where "CONFIRMED_LABEL = ''confirmed-known-issue''"
definition PROMOTION_THRESHOLD :: nat where "PROMOTION_THRESHOLD = 3"
definition TITLE_PREFIX :: string where "TITLE_PREFIX = ''[AI Diagnostic]''"
definition MAX_EXCERPT_CHARS :: nat where "MAX_EXCERPT_CHARS = 500"
definition MAX_TEST_NAME_LEN :: nat where "MAX_TEST_NAME_LEN = 200"

definition gh_api :: "'w gh_tool \<Rightarrow> string \<Rightarrow> string \<Rightarrow> json option \<Rightarrow> ('w, string) rf" where
  "gh_api gh method path payload = bindP (rf_issue gh (Api method path payload)) (\<lambda>r.
     case r of None \<Rightarrow> raise Runtime | Some out \<Rightarrow> ret out)"

definition current_login :: "'w gh_tool \<Rightarrow> ('w, string) rf" where
  "current_login gh = bindP (rf_issue gh Current_user) (\<lambda>r. case r of None \<Rightarrow> raise Runtime | Some out \<Rightarrow> ret (strip out))"

definition ensure_label :: "'w gh_tool \<Rightarrow> string \<Rightarrow> ('w, unit) rf" where
  "ensure_label gh name = bindP (rf_issue gh (Create_label name)) (\<lambda>_. ret ())"

section \<open>The failing test\<close>

definition failing :: "xml \<Rightarrow> bool" where
  "failing e \<longleftrightarrow> find_kid ''failure'' e \<noteq> None \<or> find_kid ''error'' e \<noteq> None"

definition first_failing_test_name :: "rf_lib \<Rightarrow> string option \<Rightarrow> string option" where
  "first_failing_test_name lib content = (case content of
       None \<Rightarrow> None
     | Some text \<Rightarrow> (case rf_xml lib text of
         None \<Rightarrow> None
       | Some root \<Rightarrow> (case find failing (filter (\<lambda>e. xtag e = ''testcase'') (root # descendants root)) of
           None \<Rightarrow> None
         | Some e \<Rightarrow> Some (take MAX_TEST_NAME_LEN (case xattr ''name'' e of None \<Rightarrow> [] | Some n \<Rightarrow> n)))))"

section \<open>The issue of a signature\<close>

definition list_path :: "string \<Rightarrow> string" where
  "list_path bot_login = ''repos/'' @ TRACKING_REPO @ ''/issues?labels='' @ CANDIDATE_LABEL @ ''&creator='' @ bot_login @ ''&state=open&per_page=100''"

definition label_names :: "json \<Rightarrow> py_error + json list" where
  "label_names issue = (case issue of
       JObj kvs \<Rightarrow> bindE (d_items (case map_of kvs ''labels'' of None \<Rightarrow> JArr [] | Some v \<Rightarrow> v)) (mapE (\<lambda>l. d_get l ''name''))
     | _ \<Rightarrow> Inl AttrErr)"

text \<open>\<open>Some\<close> issue, or \<open>None\<close> to go on with the next one.\<close>

definition matches_issue :: "string \<Rightarrow> json \<Rightarrow> py_error + bool" where
  "matches_issue title issue = bindE (d_get issue ''title'') (\<lambda>t.
     if t \<noteq> JStr title then Inr False
     else bindE (label_names issue) (\<lambda>names. Inr (JStr CONFIRMED_LABEL \<notin> set names)))"

fun first_match :: "string \<Rightarrow> json list \<Rightarrow> py_error + json option" where
  "first_match title [] = Inr None"
| "first_match title (issue # issues) = bindE (matches_issue title issue) (\<lambda>m.
     if m then Inr (Some issue) else first_match title issues)"

fun first_in_pages :: "string \<Rightarrow> json list \<Rightarrow> py_error + json option" where
  "first_in_pages title [] = Inr None"
| "first_in_pages title (page # pages) = bindE (d_items page) (\<lambda>issues. bindE (first_match title issues) (\<lambda>r.
     case r of Some issue \<Rightarrow> Inr (Some issue) | None \<Rightarrow> first_in_pages title pages))"

definition found_in :: "rf_lib \<Rightarrow> string \<Rightarrow> string \<Rightarrow> py_error + json option" where
  "found_in lib title raw = (case rf_loads lib raw of
       None \<Rightarrow> Inr None
     | Some doc \<Rightarrow> bindE (d_items doc) (first_in_pages title))"

definition find_existing :: "rf_lib \<Rightarrow> 'w gh_tool \<Rightarrow> string \<Rightarrow> string \<Rightarrow> ('w, json option) rf" where
  "find_existing lib gh title bot_login =
     bindP (gh_api gh ''GET'' (list_path bot_login) None) (\<lambda>raw. rpy (found_in lib title raw))"

section \<open>Counting\<close>

definition OCC :: string where "OCC = ''**Occurrences:**''"

definition OCCURRENCES_PATTERN :: "char rx" where
  "OCCURRENCES_PATTERN = Seqs [Lit OCC, Star (Cls str_space), Grp 1 (Plus (Cls is_digit))]"

definition occurrences :: "string \<Rightarrow> nat" where
  "occurrences body = (case rx_search OCCURRENCES_PATTERN body of None \<Rightarrow> 1 | Some m \<Rightarrow> digits_val (m_group body m 1))"

definition bumped :: "string \<Rightarrow> string" where
  "bumped body = (let note = OCC @ '' '' @ show_nat (occurrences body + 1) in
     case rx_search OCCURRENCES_PATTERN body of
       None \<Rightarrow> body @ [CHR 0x0A, CHR 0x0A] @ note
     | Some m \<Rightarrow> rx_sub1 OCCURRENCES_PATTERN (\<lambda>_. note) body)"

section \<open>The program\<close>

definition nl :: string where "nl = [CHR 0x0A]"

definition body_intro :: string where
  "body_intro = ''Automatically tracked by the AI diagnostic pipeline -- opened when this test failed with no existing tracking issue found. Nothing here is auto-promoted: if this is a real recurring issue, edit this description into a proper symptom/root-cause writeup and add the `'' @
     CONFIRMED_LABEL @ ''` label -- every issue with that label is fed into future AI diagnoses. Leave unlabeled (or close) to ignore.'' @ nl @ nl @
     ''**Signature:** `''"

definition new_body :: "string \<Rightarrow> string" where
  "new_body signature = body_intro @ signature @ ''`'' @ nl @ nl @ ''**Occurrences:** 1''"

definition excerpt_of :: "rf_env \<Rightarrow> string" where
  "excerpt_of env = (case diagnosis_file env of None \<Rightarrow> ''(no diagnosis text)'' | Some text \<Rightarrow> take MAX_EXCERPT_CHARS (strip text))"

definition occurrence_note :: "rf_env \<Rightarrow> string" where
  "occurrence_note env = ''New occurrence:'' @ nl @ ''- Repo/PR: '' @ source_repo env @ ''#'' @ pr_number env @ nl @
     ''- Run: '' @ run_url env @ nl @ nl @ ''> '' @ excerpt_of env"

definition issues_path :: string where
  "issues_path = ''repos/'' @ TRACKING_REPO @ ''/issues''"

definition note_payload :: "rf_env \<Rightarrow> json" where
  "note_payload env = JObj [(''body'', JStr (occurrence_note env))]"

definition open_issue :: "rf_lib \<Rightarrow> 'w gh_tool \<Rightarrow> rf_env \<Rightarrow> string \<Rightarrow> string \<Rightarrow> ('w, unit) rf" where
  "open_issue lib gh env title signature =
     bindP (gh_api gh ''POST'' issues_path (Some (JObj [(''title'', JStr title), (''body'', JStr (new_body signature)),
       (''labels'', JArr [JStr CANDIDATE_LABEL])]))) (\<lambda>raw.
     bindP (case rf_loads lib raw of None \<Rightarrow> raise Crash | Some created \<Rightarrow> rpy (d_key created ''number'')) (\<lambda>number.
     bindP (gh_api gh ''POST'' (issues_path @ ''/'' @ d_text (rf_repr lib) number @ ''/comments'') (Some (note_payload env))) (\<lambda>_. ret ())))"

definition bump_issue :: "rf_lib \<Rightarrow> 'w gh_tool \<Rightarrow> rf_env \<Rightarrow> json \<Rightarrow> ('w, unit) rf" where
  "bump_issue lib gh env existing =
     bindP (rpy (d_key existing ''number'')) (\<lambda>n. let number = d_text (rf_repr lib) n in
     bindP (rpy (bindE (d_get existing ''body'') (\<lambda>b. case d_or b (JStr []) of JStr s \<Rightarrow> Inr s | _ \<Rightarrow> Inl TypeErr))) (\<lambda>body.
     thenP (gh_api gh ''PATCH'' (issues_path @ ''/'' @ number) (Some (JObj [(''body'', JStr (bumped body))])))
    (thenP (gh_api gh ''POST'' (issues_path @ ''/'' @ number @ ''/comments'') (Some (note_payload env)))
    (if PROMOTION_THRESHOLD \<le> occurrences body + 1
     then thenP (ensure_label gh REVIEW_LABEL) (bindP (rf_issue gh (Add_label number REVIEW_LABEL)) (\<lambda>_. ret ()))
     else ret ()))))"

text \<open>\<open>except RuntimeError\<close>: the program ends normally.\<close>

definition or_skip :: "('w, unit) rf \<Rightarrow> ('w, unit) rf" where
  "or_skip m = catchP m (\<lambda>e. if e = Runtime then ret () else raise e)"

definition rf_main :: "rf_lib \<Rightarrow> 'w gh_tool \<Rightarrow> rf_env \<Rightarrow> ('w, unit) rf" where
  "rf_main lib gh env = (case first_failing_test_name lib (junit_file env) of
       None \<Rightarrow> ret ()
     | Some test_name \<Rightarrow> if test_name = [] then ret ()
       else let signature = workflow_name env @ '': '' @ test_name; title = TITLE_PREFIX @ '' '' @ signature in
         thenP (ensure_label gh CANDIDATE_LABEL) (thenP (ensure_label gh CONFIRMED_LABEL)
        (bindP (catchP (bindP (bindP (current_login gh) (find_existing lib gh title)) (\<lambda>r. ret (Some r)))
            (\<lambda>e. if e = Runtime then ret None else raise e)) (\<lambda>r.
         case r of
           None \<Rightarrow> ret ()
         | Some None \<Rightarrow> or_skip (open_issue lib gh env title signature)
         | Some (Some existing) \<Rightarrow> or_skip (bump_issue lib gh env existing)))))"

section \<open>Where the count is found\<close>

text \<open>A match at \<open>i\<close>, said of the text: the marker, white space, a digit.\<close>

definition counted_at :: "string \<Rightarrow> nat \<Rightarrow> nat \<Rightarrow> bool" where
  "counted_at s i d \<longleftrightarrow> is_at OCC s i \<and> i + length OCC \<le> d \<and> d < length s \<and> is_digit (s ! d) \<and>
     (\<forall>q. i + length OCC \<le> q \<and> q < d \<longrightarrow> str_space (s ! q))"

lemma space_not_digit: "str_space c \<Longrightarrow> \<not> is_digit c"
  by (auto simp: str_space_def is_digit_def in_range_def code_def)

lemma off_digits: "off str_space s (Grp g (Plus (Cls is_digit)))"
  unfolding off_def rx_run.simps(7) rx_run_Plus using space_not_digit by auto

lemma run_digits:
  "rx_run (Grp g (Plus (Cls is_digit))) s b cs =
   (if b < length s \<and> is_digit (s ! b) then map (\<lambda>j. (j, (g, b, j) # cs)) (rev [Suc b..<Suc (run_end is_digit s b)]) else [])"
  unfolding rx_run.simps(7) rx_run_Plus by simp

lemma match_count:
  assumes "i \<le> length s"
  shows "rx_match_at OCCURRENCES_PATTERN s i =
    (let b = run_end str_space s (i + length OCC); e = run_end is_digit s b in
     if is_at OCC s i \<and> b < length s \<and> is_digit (s ! b) then Some \<lparr>m_start = i, m_end = e, m_caps = [(1, b, e)]\<rparr> else None)"
proof (cases "is_at OCC s i")
  case False
  then show ?thesis using assms
    by (simp add: OCCURRENCES_PATTERN_def rx_match_at_def rx_run_Seq_Lit del: rx_run.simps(4))
next
  case True
  let ?b = "run_end str_space s (i + length OCC)"
  have run: "rx_run OCCURRENCES_PATTERN s i [] = rx_run (Grp 1 (Plus (Cls is_digit))) s ?b []"
    unfolding OCCURRENCES_PATTERN_def Seqs.simps rx_run_Seq_Lit [OF assms] if_P [OF True] rx_run_Star_off [OF off_digits] ..
  show ?thesis
  proof (cases "?b < length s \<and> is_digit (s ! ?b)")
    case True
    then have "?b < run_end is_digit s ?b" by (simp add: run_end_step [of is_digit s ?b])
    then have "rev [Suc ?b..<Suc (run_end is_digit s ?b)] = run_end is_digit s ?b # rev [Suc ?b..<run_end is_digit s ?b]" by simp
    with True \<open>is_at OCC s i\<close> show ?thesis
      unfolding rx_match_at_def run run_digits by (simp add: Let_def del: upt_Suc)
  next
    case False
    then show ?thesis unfolding rx_match_at_def run run_digits by (auto simp: Let_def)
  qed
qed

lemma match_counted:
  assumes "i \<le> length s"
  shows "rx_match_at OCCURRENCES_PATTERN s i \<noteq> None \<longleftrightarrow> (\<exists>d. counted_at s i d)"
proof
  assume "rx_match_at OCCURRENCES_PATTERN s i \<noteq> None"
  then have "is_at OCC s i" "run_end str_space s (i + length OCC) < length s" "is_digit (s ! run_end str_space s (i + length OCC))"
    by (auto simp: match_count [OF assms] Let_def split: if_splits)
  then show "\<exists>d. counted_at s i d"
    by (intro exI [of _ "run_end str_space s (i + length OCC)"]) (auto simp: counted_at_def dest: run_end_in)
next
  assume "\<exists>d. counted_at s i d"
  then obtain d where d: "counted_at s i d" by blast
  then have "run_end str_space s (i + length OCC) = d"
    by (intro run_end_eqI) (auto simp: counted_at_def dest: space_not_digit)
  with d show "rx_match_at OCCURRENCES_PATTERN s i \<noteq> None" by (simp add: match_count [OF assms] counted_at_def Let_def)
qed

section \<open>The count after a bump\<close>

lemma length_OCC: "length OCC = 16"
  by (simp add: OCC_def)

lemma OCC_overlap: "list_all (\<lambda>e. drop e OCC \<noteq> take (16 - e) OCC \<or> (OCC ! (16 - e) \<in> {CHR ''O'', CHR ''*''})) [1..<16]"
  by code_simp

lemma marker_chars: "\<not> str_space (CHR ''O'')" "\<not> str_space (CHR ''*'')" "\<not> is_digit (CHR ''O'')" "\<not> is_digit (CHR ''*'')"
  by code_simp+

text \<open>A count that starts before a marker ends before it.\<close>

lemma counted_before:
  assumes c: "counted_at (p @ OCC @ x) k d" and k: "k < length p"
  shows "d < length p"
proof (rule ccontr)
  assume "\<not> d < length p"
  then have d: "length p \<le> d" by simp
  let ?s = "p @ OCC @ x"
  have at: "is_at OCC ?s k" and dk: "k + 16 \<le> d" and dig: "is_digit (?s ! d)"
    and sp: "\<And>q. k + 16 \<le> q \<Longrightarrow> q < d \<Longrightarrow> str_space (?s ! q)"
    using c by (auto simp: counted_at_def length_OCC)
  have occ: "?s ! (length p + m) = OCC ! m" if "m < 16" for m
    using that by (simp add: nth_append length_OCC)
  have bad: False if "length p \<le> q" "k + 16 \<le> q" "q \<le> d" "?s ! q \<in> {CHR ''O'', CHR ''*''}" for q
    using that dig sp [of q] marker_chars by (cases "q = d") auto
  show False
  proof (cases "k + 16 \<le> length p")
    case True
    have "?s ! length p = CHR ''*''" using occ [of 0] by (simp add: OCC_def)
    with True d show False by (intro bad [of "length p"]) simp_all
  next
    case False
    define e where "e = length p - k"
    have e: "1 \<le> e" "e < 16" "length p = k + e" using k False by (auto simp: e_def)
    have "drop e OCC = take (16 - e) OCC"
    proof (rule nth_equalityI)
      fix m assume m: "m < length (drop e OCC)"
      then have me: "e + m < 16" by (simp add: length_OCC)
      have "?s ! (k + (e + m)) = OCC ! (e + m)"
        using at me unfolding is_at_def by (metis length_OCC take_drop_nth_eq add_lessD1 le_eq_less_or_eq nat_add_left_cancel_less less_le_trans)
      then show "drop e OCC ! m = take (16 - e) OCC ! m"
        using occ [of m] e me by (simp add: length_OCC add.assoc)
    qed (simp add: length_OCC)
    then have "OCC ! (16 - e) \<in> {CHR ''O'', CHR ''*''}" using OCC_overlap e(1,2) by (auto simp: list_all_iff)
    moreover have "?s ! (k + 16) = OCC ! (16 - e)" using occ [of "16 - e"] e by simp
    ultimately show False using e dk by (intro bad [of "k + 16"]) simp_all
  qed
qed

lemma counted_prefix: "d < length p \<Longrightarrow> counted_at (p @ y) k d \<longleftrightarrow> counted_at p k d"
  by (auto simp: counted_at_def is_at_def nth_append)

lemma found_iff: "rx_search OCCURRENCES_PATTERN s = None \<longleftrightarrow> (\<forall>k \<le> length s. \<forall>d. \<not> counted_at s k d)"
  unfolding rx_search_None using match_counted [of _ s] by blast

text \<open>The first count of a text, when nothing before the marker counts.\<close>

lemma occurrences_at:
  assumes first: "\<And>k d. k < length p \<Longrightarrow> d < length p \<Longrightarrow> \<not> counted_at p k d"
    and rest: "rest = [] \<or> \<not> is_digit (hd rest)"
  shows "occurrences (p @ OCC @ '' '' @ show_nat n @ rest) = n"
proof -
  let ?s = "p @ OCC @ '' '' @ show_nat n @ rest" and ?i = "length p"
  let ?b = "?i + 17" and ?e = "?i + 17 + length (show_nat n)"
  have digits: "\<forall>c \<in> set (show_nat n). is_digit c" using show_nat_digits [of n] by (simp add: list_all_iff)
  obtain c cs where sn: "show_nat n = c # cs" using show_nat_not_Nil [of n] by (cases "show_nat n") auto
  with digits have c: "is_digit c" by simp
  have at: "is_at OCC ?s ?i" by (auto simp: is_at_def)
  have drop16: "drop (?i + 16) ?s = CHR '' '' # show_nat n @ rest" by (simp add: OCC_def)
  have drop17: "drop ?b ?s = show_nat n @ rest" by (simp add: OCC_def)
  have "\<not> str_space c" using c space_not_digit by blast
  moreover have "str_space (CHR '' '')" by code_simp
  ultimately have b: "run_end str_space ?s (?i + length OCC) = ?b"
    unfolding run_end_def length_OCC drop16 by (simp add: sn)
  have "takeWhile is_digit (show_nat n @ rest) = show_nat n"
    using digits rest by (cases rest) (auto simp: takeWhile_append takeWhile_eq_all_conv)
  then have e: "run_end is_digit ?s ?b = ?e" unfolding run_end_def drop17 by simp
  have "?s ! ?b = c" "?b < length ?s" by (simp_all add: nth_append OCC_def sn)
  with c at have ok: "is_at OCC ?s ?i \<and> ?b < length ?s \<and> is_digit (?s ! ?b)" by simp
  have "?i \<le> length ?s" by simp
  from match_count [OF this, unfolded Let_def b e if_P [OF ok]]
  have m: "rx_match_at OCCURRENCES_PATTERN ?s ?i = Some \<lparr>m_start = ?i, m_end = ?e, m_caps = [(1, ?b, ?e)]\<rparr>" .
  have "rx_match_at OCCURRENCES_PATTERN ?s k = None" if k: "k < ?i" for k
  proof (rule ccontr)
    assume "rx_match_at OCCURRENCES_PATTERN ?s k \<noteq> None"
    then obtain d where d: "counted_at ?s k d" using match_counted [of k ?s] k by auto
    with counted_before [of p _ k d] k have "d < length p" by blast
    with d first [OF k] counted_prefix [of d p] show False by blast
  qed
  from rx_search_SomeI [OF m _ this] have "rx_search OCCURRENCES_PATTERN ?s = Some \<lparr>m_start = ?i, m_end = ?e, m_caps = [(1, ?b, ?e)]\<rparr>"
    by simp
  moreover have "slice ?s ?b ?e = show_nat n" unfolding slice_def drop17 by (simp add: take_append)
  ultimately show ?thesis by (simp add: occurrences_def m_group_def group_span_def digits_val_show_nat)
qed


lemma found_body: "rx_search OCCURRENCES_PATTERN s = Some m \<Longrightarrow> k < m_start m \<Longrightarrow> \<not> counted_at s k d"
  using rx_search_from_Some [of OCCURRENCES_PATTERN s 0 m] match_counted [of k s]
  by (auto simp: rx_search_def)

text \<open>
  Claim C25: a bump adds one to the count that the next run reads, whatever the body says: the first marker with a number is replaced, or a
  marker is appended that no earlier text can hide.
\<close>

theorem bump_adds_one: "occurrences (bumped body) = occurrences body + 1"
proof (cases "rx_search OCCURRENCES_PATTERN body")
  case None
  let ?p = "body @ [CHR 0x0A, CHR 0x0A]"
  have no: "\<not> counted_at ?p k d" if "d < length ?p" for k d
  proof
    assume c: "counted_at ?p k d"
    have "\<not> is_digit (CHR 0x0A)" by code_simp
    moreover have "?p ! d = CHR 0x0A" if "\<not> d < length body"
      using that \<open>d < length ?p\<close> by (auto simp: nth_append nth_Cons' split: if_splits)
    moreover have "is_digit (?p ! d)" using c unfolding counted_at_def by blast
    ultimately have d: "d < length body" by metis
    then have "counted_at body k d" using c counted_prefix by blast
    moreover from this d have "k \<le> length body" by (simp add: counted_at_def)
    ultimately show False using None found_iff by blast
  qed
  have "bumped body = ?p @ OCC @ '' '' @ show_nat (occurrences body + 1) @ []"
    using None by (simp add: bumped_def Let_def)
  then show ?thesis using occurrences_at [of ?p "[]"] no by metis
next
  case (Some m)
  let ?p = "take (m_start m) body"
  note f = rx_search_from_Some [OF Some [unfolded rx_search_def]]
  have i: "m_start m \<le> length body" using f by simp
  have no: "\<not> counted_at ?p k d" if "k < length ?p" "d < length ?p" for k d
  proof
    assume "counted_at ?p k d"
    then have "counted_at body k d" using counted_prefix [OF that(2), of "drop (m_start m) body" k] by simp
    with found_body [OF Some] that(1) i show False by simp
  qed
  obtain b where "m_end m = run_end is_digit body b"
    using f(4) unfolding match_count [OF i] Let_def by (metis option.discI option.inject rx_match.select_convs(2))
  then have rest: "drop (m_end m) body = [] \<or> \<not> is_digit (hd (drop (m_end m) body))"
    using run_end_stops [of is_digit body b] by (cases "m_end m < length body") (simp_all add: hd_drop_conv_nth)
  have "bumped body = ?p @ OCC @ '' '' @ show_nat (occurrences body + 1) @ drop (m_end m) body"
    using Some by (simp add: bumped_def rx_sub1_def Let_def)
  then show ?thesis using occurrences_at [of ?p "drop (m_end m) body"] no rest by metis
qed


section \<open>What a run asks of GitHub\<close>

text \<open>
  \<open>tracked\<close>: the issue was in an answer to the listing, under this title, and not labelled as confirmed there. \<open>body_of\<close> is the body the
  program reads.
\<close>

definition tracked :: "rf_lib \<Rightarrow> string \<Rightarrow> (rf_call \<times> string option) list \<Rightarrow> json \<Rightarrow> bool" where
  "tracked lib title log issue \<longleftrightarrow> (\<exists>login raw doc pages page issues names.
     (Api ''GET'' (list_path login) None, Some raw) \<in> set log \<and> rf_loads lib raw = Some doc \<and>
     d_items doc = Inr pages \<and> page \<in> set pages \<and> d_items page = Inr issues \<and> issue \<in> set issues \<and>
     d_get issue ''title'' = Inr (JStr title) \<and> label_names issue = Inr names \<and> JStr CONFIRMED_LABEL \<notin> set names)"

definition has_number :: "rf_lib \<Rightarrow> json \<Rightarrow> string \<Rightarrow> bool" where
  "has_number lib issue number \<longleftrightarrow> (\<exists>n. d_key issue ''number'' = Inr n \<and> number = d_text (rf_repr lib) n)"

definition has_body :: "json \<Rightarrow> string \<Rightarrow> bool" where
  "has_body issue body \<longleftrightarrow> (\<exists>b. d_get issue ''body'' = Inr b \<and> d_or b (JStr []) = JStr body)"

fun allowed_call :: "rf_lib \<Rightarrow> rf_env \<Rightarrow> string \<Rightarrow> (rf_call \<times> string option) list \<Rightarrow> rf_call \<Rightarrow> bool" where
  "allowed_call lib env title log Current_user = True"
| "allowed_call lib env title log (Create_label l) = (l \<in> {CANDIDATE_LABEL, CONFIRMED_LABEL, REVIEW_LABEL})"
| "allowed_call lib env title log (Add_label number l) = (l = REVIEW_LABEL \<and>
     (\<exists>issue body. tracked lib title log issue \<and> has_number lib issue number \<and> has_body issue body \<and> 3 \<le> occurrences body + 1 \<and>
       (\<exists>out. (Api ''PATCH'' (issues_path @ ''/'' @ number) (Some (JObj [(''body'', JStr (bumped body))])), Some out) \<in> set log)))"
| "allowed_call lib env title log (Api method path payload) =
     ((method = ''GET'' \<and> payload = None \<and> (\<exists>login. path = list_path login)) \<or>
      (method = ''POST'' \<and> path = issues_path \<and>
        (\<exists>body. payload = Some (JObj [(''title'', JStr title), (''body'', JStr body), (''labels'', JArr [JStr CANDIDATE_LABEL])]))) \<or>
      (method = ''POST'' \<and> payload = Some (note_payload env) \<and> (\<exists>number. path = issues_path @ ''/'' @ number @ ''/comments'')) \<or>
      (method = ''PATCH'' \<and> (\<exists>issue number body. tracked lib title log issue \<and> has_number lib issue number \<and> has_body issue body \<and>
        path = issues_path @ ''/'' @ number \<and> payload = Some (JObj [(''body'', JStr (bumped body))]))))"

definition title_of :: "rf_env \<Rightarrow> string \<Rightarrow> string" where
  "title_of env test = TITLE_PREFIX @ '' '' @ workflow_name env @ '': '' @ test"

definition allowed_log :: "rf_lib \<Rightarrow> rf_env \<Rightarrow> string \<Rightarrow> (rf_call \<times> string option) list \<Rightarrow> bool" where
  "allowed_log lib env title log \<longleftrightarrow> (\<forall>i < length log. allowed_call lib env title (take i log) (fst (log ! i)))"

lemma allowed_Nil [simp]: "allowed_log lib env title []"
  by (simp add: allowed_log_def)

lemma allowed_snoc: "allowed_log lib env title (log @ [x]) \<longleftrightarrow> allowed_log lib env title log \<and> allowed_call lib env title log (fst x)"
  by (auto simp: allowed_log_def less_Suc_eq nth_append)

abbreviation within :: "rf_lib \<Rightarrow> rf_env \<Rightarrow> string \<Rightarrow> 'w rf_state \<Rightarrow> bool" where
  "within lib env title st \<equiv> allowed_log lib env title (rf_log st)"

lemma hoare_rf_issue:
  assumes "\<And>log. P log \<Longrightarrow> allowed_call lib env title log c"
  shows "hoare (\<lambda>st. within lib env title st \<and> P (rf_log st)) (rf_issue gh c)
    (\<lambda>r st. within lib env title st \<and> (\<exists>log. P log \<and> rf_log st = log @ [(c, r)])) E"
  using assms by (auto simp: hoare_def rf_issue_def allowed_snoc split: prod.split)

lemma hoare_gh_api:
  assumes "\<And>log. P log \<Longrightarrow> allowed_call lib env title log (Api method path payload)"
  shows "hoare (\<lambda>st. within lib env title st \<and> P (rf_log st)) (gh_api gh method path payload)
    (\<lambda>out st. within lib env title st \<and> (\<exists>log. P log \<and> rf_log st = log @ [(Api method path payload, Some out)])) (\<lambda>_. within lib env title)"
  unfolding gh_api_def
  by (rule hoare_bind [OF hoare_rf_issue [OF assms]]) (auto simp: hoare_def raise_def ret_def split: option.split)

lemma hoare_rpy: "hoare P (rpy r) (\<lambda>x st. r = Inr x \<and> P st) (\<lambda>_. P)"
  by (auto simp: hoare_def rpy_def raise_def ret_def split: sum.splits)

lemma keeps_issue: "(\<And>log. allowed_call lib env title log c) \<Longrightarrow> keeps (within lib env title) (rf_issue gh c)"
  by (auto simp: keeps_def rf_issue_def allowed_snoc split: prod.split)

lemma keeps_gh_api:
  "(\<And>log. allowed_call lib env title log (Api method path payload)) \<Longrightarrow> keeps (within lib env title) (gh_api gh method path payload)"
  unfolding gh_api_def by (intro keeps_bind keeps_issue) (auto simp: keeps_def raise_def ret_def split: option.split)

lemma keeps_rpy: "keeps I (rpy r)"
  by (auto simp: keeps_def rpy_def raise_def ret_def split: sum.split)

lemma keeps_ensure_label: "l \<in> {CANDIDATE_LABEL, CONFIRMED_LABEL, REVIEW_LABEL} \<Longrightarrow> keeps (within lib env title) (ensure_label gh l)"
  unfolding ensure_label_def by (intro keeps_bind keeps_issue keeps_ret) simp

lemma keeps_open_issue: "keeps (within lib env title) (open_issue lib gh env title signature)"
  unfolding open_issue_def
  by (intro keeps_bind keeps_gh_api keeps_ret) (auto simp: keeps_rpy keeps_raise split: option.split)


text \<open>The listing: what it returns is \<open>tracked\<close>, and stays so.\<close>

lemma tracked_mono: "tracked lib title log issue \<Longrightarrow> set log \<subseteq> set log' \<Longrightarrow> tracked lib title log' issue"
  unfolding tracked_def by blast

lemma first_match_in:
  "first_match title issues = Inr (Some issue) \<Longrightarrow> issue \<in> set issues \<and> matches_issue title issue = Inr True"
  by (induction issues) (auto simp: bindE_def split: sum.splits if_splits)

lemma first_in_pages_in:
  "first_in_pages title pages = Inr (Some issue) \<Longrightarrow>
   \<exists>page issues. page \<in> set pages \<and> d_items page = Inr issues \<and> issue \<in> set issues \<and> matches_issue title issue = Inr True"
proof (induction pages)
  case (Cons page pages)
  then obtain issues r where r: "d_items page = Inr issues" "first_match title issues = Inr r"
    by (auto simp: bindE_def split: sum.splits)
  with Cons show ?case by (cases r) (fastforce simp: bindE_def dest: first_match_in)+
qed simp

lemma matches_issueD:
  "matches_issue title issue = Inr True \<Longrightarrow>
   d_get issue ''title'' = Inr (JStr title) \<and> (\<exists>names. label_names issue = Inr names \<and> JStr CONFIRMED_LABEL \<notin> set names)"
  by (auto simp: matches_issue_def bindE_def split: sum.splits if_splits)

lemma found_tracked:
  assumes "(Api ''GET'' (list_path login) None, Some raw) \<in> set log" "found_in lib title raw = Inr (Some issue)"
  shows "tracked lib title log issue"
proof -
  obtain doc pages where d: "rf_loads lib raw = Some doc" "d_items doc = Inr pages" "first_in_pages title pages = Inr (Some issue)"
    using assms(2) by (auto simp: found_in_def bindE_def split: option.splits sum.splits)
  from first_in_pages_in [OF d(3)] obtain page issues where
    p: "page \<in> set pages" "d_items page = Inr issues" "issue \<in> set issues" "matches_issue title issue = Inr True" by blast
  with matches_issueD [OF p(4)] d assms(1) show ?thesis unfolding tracked_def by blast
qed

lemma hoare_find_existing:
  "hoare (within lib env title) (find_existing lib gh title login)
     (\<lambda>r st. within lib env title st \<and> (\<forall>issue. r = Some issue \<longrightarrow> tracked lib title (rf_log st) issue)) (\<lambda>_. within lib env title)"
  unfolding find_existing_def
proof (rule hoare_bind)
  show "hoare (within lib env title) (gh_api gh ''GET'' (list_path login) None)
      (\<lambda>raw st. within lib env title st \<and> (Api ''GET'' (list_path login) None, Some raw) \<in> set (rf_log st)) (\<lambda>_. within lib env title)"
    by (rule hoare_conseq [OF hoare_gh_api [where P = "\<lambda>_. True"]]) auto
  show "hoare (\<lambda>st. within lib env title st \<and> (Api ''GET'' (list_path login) None, Some raw) \<in> set (rf_log st)) (rpy (found_in lib title raw))
      (\<lambda>r st. within lib env title st \<and> (\<forall>issue. r = Some issue \<longrightarrow> tracked lib title (rf_log st) issue)) (\<lambda>_. within lib env title)" for raw
    by (rule hoare_conseq [OF hoare_rpy [where P = "\<lambda>st. within lib env title st \<and> (Api ''GET'' (list_path login) None, Some raw) \<in> set (rf_log st)"]])
      (auto intro: found_tracked)
qed

text \<open>The bump: the update and the note go to the issue found, and the review label follows a count of three.\<close>

lemma hoare_gh_api_mono:
  assumes "\<And>log. P log \<Longrightarrow> allowed_call lib env title log (Api method path payload)" "\<And>log x. P log \<Longrightarrow> P (log @ [x])"
  shows "hoare (\<lambda>st. within lib env title st \<and> P (rf_log st)) (gh_api gh method path payload)
    (\<lambda>_ st. within lib env title st \<and> P (rf_log st) \<and> (\<exists>out. (Api method path payload, Some out) \<in> set (rf_log st)))
    (\<lambda>_. within lib env title)"
  by (rule hoare_conseq [OF hoare_gh_api [where P = P, OF assms(1)]]) (use assms(2) in auto)

lemma hoare_ensure_label:
  assumes "l \<in> {CANDIDATE_LABEL, CONFIRMED_LABEL, REVIEW_LABEL}" "\<And>log x. P log \<Longrightarrow> P (log @ [x])"
  shows "hoare (\<lambda>st. within lib env title st \<and> P (rf_log st)) (ensure_label gh l) (\<lambda>_ st. within lib env title st \<and> P (rf_log st)) E"
  unfolding ensure_label_def
  by (rule hoare_bind [OF hoare_rf_issue [where P = P]]) (use assms in \<open>auto simp: hoare_def\<close>)

definition patched :: "rf_lib \<Rightarrow> string \<Rightarrow> json \<Rightarrow> string \<Rightarrow> string \<Rightarrow> (rf_call \<times> string option) list \<Rightarrow> bool" where
  "patched lib title issue number body log \<longleftrightarrow> tracked lib title log issue \<and>
     (\<exists>out. (Api ''PATCH'' (issues_path @ ''/'' @ number) (Some (JObj [(''body'', JStr (bumped body))])), Some out) \<in> set log)"

lemma tracked_snoc: "tracked lib title log issue \<Longrightarrow> tracked lib title (log @ [x]) issue"
  by (rule tracked_mono) auto

lemma patched_snoc: "patched lib title issue number body log \<Longrightarrow> patched lib title issue number body (log @ [x])"
  unfolding patched_def by (auto intro: tracked_snoc)

lemma hoare_bump_calls:
  assumes "has_number lib issue number" "has_body issue body"
  shows "hoare (\<lambda>st. within lib env title st \<and> tracked lib title (rf_log st) issue)
    (thenP (gh_api gh ''PATCH'' (issues_path @ ''/'' @ number) (Some (JObj [(''body'', JStr (bumped body))])))
    (thenP (gh_api gh ''POST'' (issues_path @ ''/'' @ number @ ''/comments'') (Some (note_payload env)))
    (if PROMOTION_THRESHOLD \<le> occurrences body + 1
     then thenP (ensure_label gh REVIEW_LABEL) (bindP (rf_issue gh (Add_label number REVIEW_LABEL)) (\<lambda>_. ret ()))
     else ret ())))
    (\<lambda>_. within lib env title) (\<lambda>_. within lib env title)"
    (is "hoare ?T (thenP ?patch (thenP ?note ?rest)) ?Q ?E")
proof -
  let ?K = "\<lambda>st. within lib env title st \<and> patched lib title issue number body (rf_log st)"
  have patch: "hoare ?T ?patch (\<lambda>_. ?K) ?E"
    by (rule hoare_conseq [OF hoare_gh_api_mono [where P = "\<lambda>log. tracked lib title log issue"]])
      (use assms in \<open>auto intro: tracked_snoc simp: patched_def\<close>)
  have noted: "hoare ?K ?note (\<lambda>_. ?K) ?E"
    by (rule hoare_conseq [OF hoare_gh_api_mono [where P = "patched lib title issue number body"]]) (auto intro: patched_snoc)
  have rest: "hoare ?K ?rest ?Q ?E"
  proof (rule hoare_if)
    assume three: "PROMOTION_THRESHOLD \<le> occurrences body + 1"
    have add: "hoare ?K (bindP (rf_issue gh (Add_label number REVIEW_LABEL)) (\<lambda>_. ret ())) ?Q ?E"
      by (rule hoare_bind [OF hoare_rf_issue [where P = "patched lib title issue number body"]])
        (use assms three in \<open>auto simp: hoare_def patched_def PROMOTION_THRESHOLD_def\<close>)
    show "hoare ?K (thenP (ensure_label gh REVIEW_LABEL) (bindP (rf_issue gh (Add_label number REVIEW_LABEL)) (\<lambda>_. ret ()))) ?Q ?E"
      by (rule hoare_then [OF hoare_ensure_label add]) (auto intro: patched_snoc)
  qed (simp add: hoare_def)
  show ?thesis by (intro hoare_then [OF patch] hoare_then [OF noted] rest)
qed

lemma hoare_bump_issue:
  "hoare (\<lambda>st. within lib env title st \<and> tracked lib title (rf_log st) issue) (bump_issue lib gh env issue)
     (\<lambda>_. within lib env title) (\<lambda>_. within lib env title)"
  (is "hoare ?T _ _ _")
proof -
  have read: "hoare ?T (rpy r) (\<lambda>x st. r = Inr x \<and> ?T st) (\<lambda>_. within lib env title)" for r :: "py_error + 'b"
    by (rule hoare_conseq [OF hoare_rpy [where P = ?T]]) auto
  have body: "has_body issue b" if "bindE (d_get issue ''body'') (\<lambda>b. case d_or b (JStr []) of JStr s \<Rightarrow> Inr s | _ \<Rightarrow> Inl TypeErr) = Inr b" for b
    using that by (auto simp: has_body_def bindE_def split: sum.splits json.splits)
  show ?thesis
    unfolding bump_issue_def Let_def
    by (intro hoare_bind [OF read] hoare_pure hoare_bump_calls body) (auto simp: has_number_def)
qed

lemma keeps_current_login: "keeps (within lib env title) (current_login gh)"
  unfolding current_login_def
  by (intro keeps_bind keeps_issue) (auto simp: keeps_def split: option.split)

text \<open>
  Claim C24: what a run asks of GitHub. Without a failing test it asks nothing. Otherwise it creates no label but the three, lists the bot's own
  candidates, opens issues labelled as candidates only, and comments; it rewrites the body of an issue only when that issue was in the
  listing under the same title and not confirmed, to the bumped body; and the only label it adds to an issue is the review label, to an
  issue whose rewritten body counts at least three. So no run confirms an issue, or touches one that a maintainer confirmed.
\<close>

theorem tracker_run_is_scoped:
  "case rf_main lib (gh :: 'w gh_tool) env \<lparr>rf_world = w, rf_log = []\<rparr> of (_, st) \<Rightarrow>
     (case first_failing_test_name lib (junit_file env) of
        None \<Rightarrow> rf_log st = []
      | Some test \<Rightarrow> if test = [] then rf_log st = [] else allowed_log lib env (title_of env test) (rf_log st))"
proof (cases "first_failing_test_name lib (junit_file env)")
  case None
  then show ?thesis by (simp add: rf_main_def)
next
  case (Some test)
  let ?title = "title_of env test" and ?sig = "workflow_name env @ '': '' @ test"
  let ?L = "within lib env ?title :: 'w rf_state \<Rightarrow> bool"
  let ?F = "\<lambda>r st. ?L st \<and> (\<forall>issue. r = Some (Some issue) \<longrightarrow> tracked lib ?title (rf_log st) issue)"
  have skip: "hoare P (or_skip m) (\<lambda>_. ?L) (\<lambda>_. ?L)" if "hoare P m (\<lambda>_. ?L) (\<lambda>_. ?L)" for P and m :: "('w, unit) rf"
    unfolding or_skip_def by (rule hoare_catch [OF that]) (auto simp: hoare_def)
  have find: "hoare ?L (bindP (bindP (current_login gh) (find_existing lib gh ?title)) (\<lambda>r. ret (Some r))) ?F (\<lambda>_. ?L)"
  proof (rule hoare_bind)
    show "hoare ?L (bindP (current_login gh) (find_existing lib gh ?title))
        (\<lambda>r st. ?L st \<and> (\<forall>issue. r = Some issue \<longrightarrow> tracked lib ?title (rf_log st) issue)) (\<lambda>_. ?L)"
      by (rule hoare_bind [OF keeps_current_login [unfolded keeps_hoare] hoare_find_existing])
  qed (simp add: hoare_def)
  have listed: "hoare ?L (catchP (bindP (bindP (current_login gh) (find_existing lib gh ?title)) (\<lambda>r. ret (Some r)))
      (\<lambda>e. if e = Runtime then ret None else raise e)) ?F (\<lambda>_. ?L)"
    by (rule hoare_catch [OF find]) (auto simp: hoare_def)
  have act: "hoare (?F r) (case r of None \<Rightarrow> ret () | Some None \<Rightarrow> or_skip (open_issue lib gh env ?title ?sig)
      | Some (Some existing) \<Rightarrow> or_skip (bump_issue lib gh env existing)) (\<lambda>_. ?L) (\<lambda>_. ?L)" for r
  proof (cases r)
    case (Some q)
    then show ?thesis
    proof (cases q)
      case None
      have "hoare ?L (or_skip (open_issue lib gh env ?title ?sig)) (\<lambda>_. ?L) (\<lambda>_. ?L)"
        by (rule skip [OF keeps_open_issue [unfolded keeps_hoare]])
      with Some None show ?thesis by simp
    next
      case (Some issue)
      have "hoare (\<lambda>st. ?L st \<and> tracked lib ?title (rf_log st) issue) (or_skip (bump_issue lib gh env issue)) (\<lambda>_. ?L) (\<lambda>_. ?L)"
        by (rule skip [OF hoare_bump_issue])
      with \<open>r = Some q\<close> Some show ?thesis by simp
    qed
  qed (simp add: hoare_def)
  have "hoare ?L (thenP (ensure_label gh CANDIDATE_LABEL) (thenP (ensure_label gh CONFIRMED_LABEL)
     (bindP (catchP (bindP (bindP (current_login gh) (find_existing lib gh ?title)) (\<lambda>r. ret (Some r)))
       (\<lambda>e. if e = Runtime then ret None else raise e)) (\<lambda>r. case r of None \<Rightarrow> ret ()
          | Some None \<Rightarrow> or_skip (open_issue lib gh env ?title ?sig)
          | Some (Some existing) \<Rightarrow> or_skip (bump_issue lib gh env existing))))) (\<lambda>_. ?L) (\<lambda>_. ?L)"
    by (intro hoare_then [OF keeps_ensure_label [unfolded keeps_hoare]] hoare_bind [OF listed] act) simp_all
  from hoareD_any [OF this, of "\<lparr>rf_world = w, rf_log = []\<rparr>"]
  show ?thesis using Some by (simp add: rf_main_def Let_def title_of_def split_beta)
qed

text \<open>The test name is part of the body, in front of the count: a name with a marker in it sets the count.\<close>

lemma no_O_no_count: "CHR ''O'' \<notin> set p \<Longrightarrow> \<not> counted_at p k d"
  by (auto simp: counted_at_def is_at_split OCC_def)

lemma body_intro_no_O: "CHR ''O'' \<notin> set body_intro"
  by (simp add: body_intro_def CONFIRMED_LABEL_def nl_def)

lemma new_body_split: "new_body signature = body_intro @ signature @ ''`'' @ nl @ nl @ OCC @ '' '' @ show_nat 1"
proof -
  have "show_nat 1 = ''1''" by code_simp
  then show ?thesis by (simp add: new_body_def OCC_def)
qed

lemma name_sets_count:
  assumes "CHR ''O'' \<notin> set before" "\<not> is_digit (hd (after @ ''`''))"
  shows "occurrences (new_body (before @ OCC @ '' '' @ show_nat n @ after)) = n"
proof -
  have "new_body (before @ OCC @ '' '' @ show_nat n @ after) =
      (body_intro @ before) @ OCC @ '' '' @ show_nat n @ (after @ ''`'' @ nl @ nl @ OCC @ '' '' @ show_nat 1)"
    unfolding new_body_split by simp
  moreover have "\<not> is_digit (hd (after @ ''`'' @ nl @ nl @ OCC @ '' '' @ show_nat 1))" using assms(2) by (cases after) simp_all
  ultimately show ?thesis
    using occurrences_at [of "body_intro @ before"] no_O_no_count [of "body_intro @ before"] body_intro_no_O assms(1) by auto
qed

lemma fresh_count: "CHR ''O'' \<notin> set signature \<Longrightarrow> occurrences (new_body signature) = 1"
  using occurrences_at [of "body_intro @ signature @ ''`'' @ nl @ nl" "[]" 1] no_O_no_count [of "body_intro @ signature @ ''`'' @ nl @ nl"] body_intro_no_O
  unfolding new_body_split by (simp add: nl_def)

end
