(* ===== verification/LabelAgents.thy ===== *)
theory LabelAgents
  imports Prelude PyDyn
begin

text \<open>
  \<^verbatim>\<open>infra/netris/roles/prepare-caas-bmaas/files/label-netris-agents.py\<close>: the service that keeps the agents of a lab labelled with
  the server they run on.

  The \<open>oc\<close> tool is a parameter over a world of any type: the listing answers with its text, or \<open>None\<close> for an error or a timeout, and a
  patch succeeds or fails. Between two calls the world may change in any way. \<open>ag_loads\<close> is \<open>json.loads\<close>.
  The configuration is the map from agent names to servers, both texts.
\<close>

section \<open>One pass\<close>

datatype ag_event =
    Agents_listed "string option"
  | Agent_patched string json string bool        \<comment> \<open>name, resource version, server, success\<close>
  | Slept

record 'w ag_state =
  ag_world :: 'w
  ag_log :: "ag_event list"

record 'w ag_sys =
  ag_get :: "'w \<Rightarrow> string option \<times> 'w"
  ag_patch :: "'w \<Rightarrow> string \<Rightarrow> json \<Rightarrow> string \<Rightarrow> bool \<times> 'w"
  ag_sleep :: "'w \<Rightarrow> 'w"
  ag_loads :: "string \<Rightarrow> json option"

type_synonym ('w, 'a) ag = "('w ag_state, unit, 'a) prog"

text \<open>Any exception ends the service.\<close>

definition ag_py :: "py_error + 'a \<Rightarrow> ('w, 'a) ag" where
  "ag_py r = (case r of Inl e \<Rightarrow> raise () | Inr x \<Rightarrow> ret x)"

definition list_agents :: "'w ag_sys \<Rightarrow> ('w, json) ag" where
  "list_agents sys st = (case ag_get sys (ag_world st) of (r, w) \<Rightarrow>
     (case r of None \<Rightarrow> Inl () | Some text \<Rightarrow> (case ag_loads sys text of None \<Rightarrow> Inl () | Some doc \<Rightarrow> Inr doc),
      st\<lparr>ag_world := w, ag_log := ag_log st @ [Agents_listed r]\<rparr>))"

definition patch_agent :: "'w ag_sys \<Rightarrow> string \<Rightarrow> json \<Rightarrow> string \<Rightarrow> ('w, unit) ag" where
  "patch_agent sys name version server st = (case ag_patch sys (ag_world st) name version server of (ok, w) \<Rightarrow>
     (if ok then Inr () else Inl (), st\<lparr>ag_world := w, ag_log := ag_log st @ [Agent_patched name version server ok]\<rparr>))"

definition LABEL :: string where "LABEL = ''netris.server/name''"

text \<open>\<open>config['servers'].get(meta['name'])\<close>, the empty text for \<open>None\<close>: a key that is not a text is not among the keys.\<close>

definition server_of :: "(string \<times> string) list \<Rightarrow> json \<Rightarrow> py_error + string" where
  "server_of servers name = bindE (hashable name) (\<lambda>n. Inr (case n of
       JStr s \<Rightarrow> (case map_of servers s of None \<Rightarrow> [] | Some server \<Rightarrow> server) | _ \<Rightarrow> []))"

text \<open>What one agent needs: nothing, or its name, version and server.\<close>

definition wanted_patch :: "(string \<times> string) list \<Rightarrow> json \<Rightarrow> py_error + (json \<times> json \<times> string) option" where
  "wanted_patch servers agent = bindE (d_key agent ''metadata'') (\<lambda>meta. bindE (d_key meta ''name'') (\<lambda>name.
     bindE (server_of servers name) (\<lambda>server. if server = [] then Inr None
     else bindE (d_get meta ''deletionTimestamp'') (\<lambda>deletion. if truthy deletion then Inr None
     else bindE (case meta of JObj kvs \<Rightarrow> (case map_of kvs ''labels'' of None \<Rightarrow> Inr (JObj []) | Some l \<Rightarrow> Inr l) | _ \<Rightarrow> Inl AttrErr) (\<lambda>labels.
       bindE (d_get labels LABEL) (\<lambda>label. if label = JStr server then Inr None
     else bindE (d_key meta ''resourceVersion'') (\<lambda>version. Inr (Some (name, version, server)))))))))"

definition label_agent :: "'w ag_sys \<Rightarrow> (string \<times> string) list \<Rightarrow> json \<Rightarrow> ('w, unit) ag" where
  "label_agent sys servers agent = bindP (ag_py (wanted_patch servers agent)) (\<lambda>p. case p of
       None \<Rightarrow> ret ()
     | Some (JStr name, version, server) \<Rightarrow> patch_agent sys name version server
     | Some _ \<Rightarrow> raise ())"

definition reconcile_agents :: "'w ag_sys \<Rightarrow> (string \<times> string) list \<Rightarrow> ('w, unit) ag" where
  "reconcile_agents sys servers = bindP (list_agents sys) (\<lambda>doc.
     bindP (ag_py (bindE (d_key doc ''items'') d_items)) (forP (label_agent sys servers)))"

text \<open>The service: \<open>None\<close> is running for ever.\<close>

partial_function (option) serve :: "'w ag_sys \<Rightarrow> (string \<times> string) list \<Rightarrow> bool \<Rightarrow> 'w ag_state \<Rightarrow> ((unit + unit) \<times> 'w ag_state) option" where
  "serve sys servers once st = (case reconcile_agents sys servers st of
       (Inl e, t) \<Rightarrow> Some (Inl e, t)
     | (Inr u, t) \<Rightarrow> if once then Some (Inr (), t)
         else serve sys servers once (t\<lparr>ag_world := ag_sleep sys (ag_world t), ag_log := ag_log t @ [Slept]\<rparr>))"

section \<open>What is patched\<close>

text \<open>
  The passes of the service, also of one that never returns: \<open>served st\<close> is a state from which a pass begins.
\<close>

inductive served :: "'w ag_sys \<Rightarrow> (string \<times> string) list \<Rightarrow> 'w ag_state \<Rightarrow> 'w ag_state \<Rightarrow> bool"
  for sys servers start where
  begins: "served sys servers start start"
| sleeps: "served sys servers start st \<Longrightarrow> reconcile_agents sys servers st = (Inr u, t) \<Longrightarrow>
    served sys servers start (t\<lparr>ag_world := ag_sleep sys (ag_world t), ag_log := ag_log t @ [Slept]\<rparr>)"

definition listed_agents :: "(string \<Rightarrow> json option) \<Rightarrow> ag_event list \<Rightarrow> json list" where
  "listed_agents loads log = (case filter (\<lambda>e. case e of Agents_listed r \<Rightarrow> True | _ \<Rightarrow> False) log of
       [] \<Rightarrow> []
     | l # ls \<Rightarrow> (case last (l # ls) of
         Agents_listed (Some text) \<Rightarrow> (case loads text of
             None \<Rightarrow> []
           | Some doc \<Rightarrow> (case bindE (d_key doc ''items'') d_items of Inl e \<Rightarrow> [] | Inr agents \<Rightarrow> agents))
       | _ \<Rightarrow> []))"

text \<open>The agent as the listing shows it: not being deleted, not yet labelled with its server.\<close>

definition unlabelled :: "(string \<times> string) list \<Rightarrow> json \<Rightarrow> string \<Rightarrow> json \<Rightarrow> string \<Rightarrow> bool" where
  "unlabelled servers agent name version server \<longleftrightarrow> (\<exists>agent_kvs kvs. agent = JObj agent_kvs \<and> map_of agent_kvs ''metadata'' = Some (JObj kvs) \<and>
     map_of kvs ''name'' = Some (JStr name) \<and> map_of kvs ''resourceVersion'' = Some version \<and>
     map_of servers name = Some server \<and> server \<noteq> [] \<and> \<not> truthy (obj_get kvs ''deletionTimestamp'') \<and>
     (case map_of kvs ''labels'' of None \<Rightarrow> True | Some (JObj labels) \<Rightarrow> map_of labels LABEL \<noteq> Some (JStr server) | Some _ \<Rightarrow> False))"

fun patch_ok :: "'w ag_sys \<Rightarrow> (string \<times> string) list \<Rightarrow> ag_event list \<Rightarrow> ag_event \<Rightarrow> bool" where
  "patch_ok sys servers log (Agent_patched name version server ok) =
     (\<exists>agent \<in> set (listed_agents (ag_loads sys) log). unlabelled servers agent name version server)"
| "patch_ok sys servers log e = True"

abbreviation patches_ok :: "'w ag_sys \<Rightarrow> (string \<times> string) list \<Rightarrow> ag_event list \<Rightarrow> bool" where
  "patches_ok sys servers \<equiv> every_event (patch_ok sys servers)"

lemma wanted_patchD:
  assumes "wanted_patch servers agent = Inr (Some (JStr name, version, server))"
  shows "unlabelled servers agent name version server"
proof -
  obtain akvs where a: "agent = JObj akvs" and "map_of akvs ''metadata'' \<noteq> None"
    using assms by (auto simp: wanted_patch_def d_key_def bindE_def split: json.splits option.splits sum.splits)
  then obtain meta where m: "map_of akvs ''metadata'' = Some meta" by blast
  obtain kvs where k: "meta = JObj kvs" and n: "map_of kvs ''name'' \<noteq> None"
    using assms by (auto simp: wanted_patch_def a m d_key_def bindE_def split: json.splits option.splits sum.splits)
  then obtain nm where nm: "map_of kvs ''name'' = Some nm" by blast
  have key: "d_key agent ''metadata'' = Inr (JObj kvs)" "d_key (JObj kvs) ''name'' = Inr nm"
    by (simp_all add: d_key_def a m k nm)
  note w = assms [unfolded wanted_patch_def key bindE_simps]
  obtain srv where s: "server_of servers nm = Inr srv" "srv \<noteq> []" using w by (auto simp: bindE_def split: sum.splits if_splits)
  note w = w [unfolded s(1) bindE_simps if_not_P [OF s(2)] d_get_def json.case bindE_simps]
  have del: "\<not> truthy (obj_get kvs ''deletionTimestamp'')" using w by (auto split: if_splits)
  note w = w [unfolded if_not_P [OF del]]
  define labels where "labels = (case map_of kvs ''labels'' of None \<Rightarrow> JObj [] | Some l \<Rightarrow> l)"
  have "(case map_of kvs ''labels'' of None \<Rightarrow> Inr (JObj []) | Some l \<Rightarrow> Inr l) = (Inr labels :: py_error + json)"
    by (simp add: labels_def split: option.split)
  note w = w [unfolded this bindE_simps]
  obtain lkvs where l: "labels = JObj lkvs" using w by (auto simp: bindE_def split: json.splits)
  have lab: "obj_get lkvs LABEL \<noteq> JStr srv" using w by (auto simp: l split: if_splits)
  have ver: "map_of kvs ''resourceVersion'' = Some version" "nm = JStr name" "srv = server"
    using w lab by (auto simp: l d_key_def bindE_def split: option.splits)
  have "map_of servers name = Some server"
    using s ver by (auto simp: server_of_def hashable_def bindE_def split: option.splits)
  moreover have "case map_of kvs ''labels'' of None \<Rightarrow> True | Some (JObj labels) \<Rightarrow> map_of labels LABEL \<noteq> Some (JStr server) | Some _ \<Rightarrow> False"
    using l lab ver by (auto simp: labels_def obj_get_def split: option.splits json.splits)
  ultimately show ?thesis unfolding unlabelled_def using a m k nm ver s(2) del by blast
qed

lemma listed_agents_patch [simp]: "listed_agents loads (log @ [Agent_patched n v s ok]) = listed_agents loads log"
  by (simp add: listed_agents_def)

lemma listed_agents_list:
  "listed_agents loads (log @ [Agents_listed r]) = (case r of None \<Rightarrow> [] | Some text \<Rightarrow> (case loads text of None \<Rightarrow> []
     | Some doc \<Rightarrow> (case bindE (d_key doc ''items'') d_items of Inl e \<Rightarrow> [] | Inr agents \<Rightarrow> agents)))"
  by (cases "filter (\<lambda>e. case e of Agents_listed r \<Rightarrow> True | _ \<Rightarrow> False) log")
    (auto simp: listed_agents_def filter_append split: list.split option.split)

abbreviation pass_ok :: "'w ag_sys \<Rightarrow> (string \<times> string) list \<Rightarrow> json list \<Rightarrow> 'w ag_state \<Rightarrow> bool" where
  "pass_ok sys servers agents st \<equiv> patches_ok sys servers (ag_log st) \<and> set agents \<subseteq> set (listed_agents (ag_loads sys) (ag_log st))"

lemma keeps_label_agent:
  assumes "agent \<in> set agents"
  shows "keeps (pass_ok sys servers agents) (label_agent sys servers agent)"
proof (rule keepsI)
  fix st :: "'a ag_state" assume ok: "pass_ok sys servers agents st"
  show "pass_ok sys servers agents (snd (label_agent sys servers agent st))"
  proof (cases "\<exists>name version server. wanted_patch servers agent = Inr (Some (JStr name, version, server))")
    case True
    then obtain name version server where w: "wanted_patch servers agent = Inr (Some (JStr name, version, server))" by blast
    from wanted_patchD [OF this] assms ok show ?thesis
      by (auto simp: label_agent_def w ag_py_def patch_agent_def split: prod.split)
  next
    case False
    then have "snd (label_agent sys servers agent st) = st"
      by (auto simp: label_agent_def ag_py_def bindP_def split: sum.split option.split json.split)
    with ok show ?thesis by simp
  qed
qed

lemma keeps_reconcile: "keeps (\<lambda>st. patches_ok sys servers (ag_log st)) (reconcile_agents sys servers)"
proof (rule keepsI)
  fix st :: "'a ag_state" assume ok: "patches_ok sys servers (ag_log st)"
  obtain r w where get: "ag_get sys (ag_world st) = (r, w)" by fastforce
  let ?t = "st\<lparr>ag_world := w, ag_log := ag_log st @ [Agents_listed r]\<rparr>"
  have t: "patches_ok sys servers (ag_log ?t)" using ok by simp
  show "patches_ok sys servers (ag_log (snd (reconcile_agents sys servers st)))"
  proof (cases "\<exists>text doc agents. r = Some text \<and> ag_loads sys text = Some doc \<and> bindE (d_key doc ''items'') d_items = Inr agents")
    case True
    then obtain raw doc agents where d: "r = Some raw" "ag_loads sys raw = Some doc" "bindE (d_key doc ''items'') d_items = Inr agents"
      by blast
    then have "pass_ok sys servers agents ?t" using t by (simp add: listed_agents_list)
    then have "pass_ok sys servers agents (snd (forP (label_agent sys servers) agents ?t))"
      by (rule keepsD [OF keeps_forP [OF keeps_label_agent], rotated])
    moreover have "reconcile_agents sys servers st = forP (label_agent sys servers) agents ?t"
      using get d by (simp add: reconcile_agents_def bindP_def list_agents_def ag_py_def)
    ultimately show ?thesis by simp
  next
    case False
    then have "snd (reconcile_agents sys servers st) = ?t"
      using get by (auto simp: reconcile_agents_def bindP_def list_agents_def ag_py_def split: option.splits sum.splits)
    with t show ?thesis by simp
  qed
qed

lemma served_ok: "served sys servers start st \<Longrightarrow> ag_log start = [] \<Longrightarrow> patches_ok sys servers (ag_log st)"
proof (induction rule: served.induct)
  case begins
  then show ?case by simp
next
  case (sleeps st u t)
  with keepsD [OF keeps_reconcile, of sys servers st] show ?case by simp
qed

text \<open>
  Claim C31: on every pass of the service, however many passes it makes and however the cluster answers and changes in between, an agent
  is patched only when the latest listing shows it with that name and resource version, not being deleted and without the label, and the
  label is the server that the configuration has for it. The resource version makes the cluster refuse the patch when the agent was
  replaced since.
\<close>

theorem agents_patched_as_listed:
  assumes "served sys servers \<lparr>ag_world = w, ag_log = []\<rparr> st"
  shows "patches_ok sys servers (ag_log (snd (reconcile_agents sys servers st)))"
  using keepsD [OF keeps_reconcile served_ok [OF assms]] by simp

text \<open>What \<open>serve\<close> returns is the end of one of these passes.\<close>

lemma serve_served:
  assumes "serve sys servers once st = Some (r, t)" "served sys servers start st"
  shows "\<exists>s. served sys servers start s \<and> t = snd (reconcile_agents sys servers s)"
proof -
  have "served sys servers start st \<longrightarrow> (\<exists>s. served sys servers start s \<and> snd (r, t) = snd (reconcile_agents sys servers s))"
  proof (rule serve.raw_induct [where P = "\<lambda>sys servers once st y. served sys servers start st \<longrightarrow>
      (\<exists>s. served sys servers start s \<and> snd y = snd (reconcile_agents sys servers s))", OF _ assms(1)], intro impI)
    fix rec and sys :: "'a ag_sys" and servers once st y
    assume IH: "\<And>sys servers once st y. rec sys servers once st = Some y \<Longrightarrow> served sys servers start st \<longrightarrow>
        (\<exists>s. served sys servers start s \<and> snd y = snd (reconcile_agents sys servers s))"
      and step: "(case reconcile_agents sys servers st of (Inl e, t) \<Rightarrow> Some (Inl e, t)
        | (Inr u, t) \<Rightarrow> if once then Some (Inr (), t)
          else rec sys servers once (t\<lparr>ag_world := ag_sleep sys (ag_world t), ag_log := ag_log t @ [Slept]\<rparr>)) = Some y"
      and st: "served sys servers start st"
    show "\<exists>s. served sys servers start s \<and> snd y = snd (reconcile_agents sys servers s)"
    proof (cases "reconcile_agents sys servers st")
      case (Pair q t)
      then show ?thesis using step st IH served.sleeps [OF st, of _ t] by (cases q) (auto split: if_splits)
    qed
  qed
  with assms(2) show ?thesis by simp
qed

text \<open>Agents that carry their label, have no server or are being deleted are left alone.\<close>

lemma labelled_agents_are_left_alone:
  "(\<And>a. a \<in> set agents \<Longrightarrow> wanted_patch servers a = Inr None) \<Longrightarrow> forP (label_agent sys servers) agents st = (Inr (), st)"
  by (induction agents) (simp_all add: label_agent_def ag_py_def thenP_def bindP_def)

section \<open>An example\<close>

definition lab_servers :: "(string \<times> string) list" where
  "lab_servers = [(''agent-1'', ''srv-a''), (''agent-2'', ''srv-b'')]"

definition lab_agent :: "string \<Rightarrow> (string \<times> json) list \<Rightarrow> json" where
  "lab_agent name rest = JObj [(''metadata'', JObj ([(''name'', JStr name), (''resourceVersion'', JStr ''41'')] @ rest))]"

definition lab_sys :: "nat ag_sys" where
  "lab_sys = \<lparr>ag_get = \<lambda>w. (Some ''[]'', w), ag_patch = \<lambda>w name version server. (True, w + 1), ag_sleep = id,
     ag_loads = \<lambda>_. Some (JObj [(''items'', JArr [lab_agent ''agent-1'' [], lab_agent ''agent-3'' [],
       lab_agent ''agent-2'' [(''labels'', JObj [(''netris.server/name'', JStr ''srv-b'')])]])])\<rparr>"

theorem agents_patched_as_listed_witness:
  "patches_ok lab_sys lab_servers (ag_log (snd (reconcile_agents lab_sys lab_servers \<lparr>ag_world = 0, ag_log = []\<rparr>)))"
  by (rule agents_patched_as_listed [OF served.begins])

lemma lab_run: "ag_log (snd (reconcile_agents lab_sys lab_servers \<lparr>ag_world = 0, ag_log = []\<rparr>)) =
    [Agents_listed (Some ''[]''), Agent_patched ''agent-1'' (JStr ''41'') ''srv-a'' True]"
  by code_simp

end
