(* ===== verification/CaptureFiles.thy ===== *)
theory CaptureFiles
  imports Prelude PyDyn "HOL-Library.Char_ord" "HOL-Library.List_Lexorder"
begin

text \<open>
  The files of a capture in \<^verbatim>\<open>monitoring/scripts/ci-observe.py\<close>: the validation of a capture directory against its metadata, and the
  extraction of an artifact archive. Both read untrusted data.

  The content of a file is its bytes, as a list of characters; a text goes up to U+00FF. The parameters of \<open>cap_lib\<close> are SHA-256 (of
  bytes, and of the UTF-8 form of a text), reading JSON and reading archives. A \<open>ToolError\<close> is a refusal of the program; \<open>Crash\<close> stands for any
  other exception, which nothing catches. Messages of refusals are not modelled.
\<close>

section \<open>Files and outcomes\<close>

datatype cap_exn =
    Refused                    \<comment> \<open>\<open>ToolError\<close>\<close>
  | Backend_down               \<comment> \<open>\<open>BackendUnavailable\<close>\<close>
  | Interrupted                \<comment> \<open>\<open>KeyboardInterrupt\<close>\<close>
  | Out_of_fuel                \<comment> \<open>the loop is still running\<close>
  | Crash

datatype node = Regular string | Symlink | Special

text \<open>A directory with everything below it that is not a plain directory, by its path from there.\<close>

record capture_dir =
  cd_name :: string
  cd_plain :: bool
  cd_nodes :: "(string \<times> node) list"

text \<open>Text that is not UTF-8, text that is not JSON, or a value.\<close>

datatype json_file = Not_text | Not_json | Value json

text \<open>An archive member: its declared size, its content in chunks, and whether reading goes wrong after them. Only some
  failures are \<open>BadZipFile\<close>.\<close>

datatype zip_end = Zip_ok | Zip_bad | Zip_crash

record zip_member =
  zm_name :: string
  zm_dir :: bool
  zm_link :: bool
  zm_size :: nat
  zm_chunks :: "string list"
  zm_end :: zip_end

record cap_lib =
  cl_sha :: "string \<Rightarrow> string"
  cl_sha_text :: "string \<Rightarrow> string"
  cl_json :: "string \<Rightarrow> json_file"
  cl_is_one :: "string \<Rightarrow> bool"                   \<comment> \<open>whether a number with a fraction or exponent equals 1\<close>
  cl_zip :: "string \<Rightarrow> zip_member list option"

definition CAPTURE_MAX_BYTES :: nat where "CAPTURE_MAX_BYTES = 1024 * 1024 * 1024"
definition OTLP_LINE_MAX_BYTES :: nat where "OTLP_LINE_MAX_BYTES = 16 * 1024 * 1024"
definition METADATA_MAX_BYTES :: nat where "METADATA_MAX_BYTES = 1024 * 1024"
definition CAPTURE_SCHEMA :: string where "CAPTURE_SCHEMA = ''osac.ci-observe.capture''"

definition SIGNALS :: "(string \<times> string) list" where
  "SIGNALS = [(''traces.jsonl'', ''spans''), (''metrics.jsonl'', ''metric_points''), (''logs.jsonl'', ''log_records'')]"

definition METADATA :: string where "METADATA = ''metadata.json''"

definition ARTIFACT_MEMBERS :: "string list" where
  "ARTIFACT_MEMBERS = METADATA # map fst SIGNALS"

definition load_json :: "cap_lib \<Rightarrow> string \<Rightarrow> cap_exn + (string \<times> json) list" where
  "load_json lib content = (case cl_json lib content of
       Not_text \<Rightarrow> Inl Crash
     | Not_json \<Rightarrow> Inl Refused
     | Value (JObj kvs) \<Rightarrow> Inr kvs
     | Value _ \<Rightarrow> Inl Refused)"

section \<open>Validation\<close>

text \<open>\<open>pathlib\<close>: the parts of a relative path.\<close>

definition path_parts :: "string \<Rightarrow> string list" where
  "path_parts s = filter (\<lambda>p. p \<noteq> [] \<and> p \<noteq> ''.'') (split_on (CHR ''/'') s)"

definition is_absolute :: "string \<Rightarrow> bool" where
  "is_absolute s \<longleftrightarrow> starts_with ''/'' s"

definition as_posix :: "string list \<Rightarrow> string" where
  "as_posix parts = join ''/'' parts"

definition safe_path :: "string \<Rightarrow> bool" where
  "safe_path rel \<longleftrightarrow> \<not> is_absolute rel \<and> path_parts rel \<noteq> [] \<and> ''..'' \<notin> set (path_parts rel)"

definition is_hash :: "string \<Rightarrow> bool" where
  "is_hash h \<longleftrightarrow> length h = 64 \<and> list_all (\<lambda>c. is_digit c \<or> in_range (CHR ''a'') (CHR ''f'') c) h"

record cap_entry =
  ce_path :: "string list"
  ce_size :: nat
  ce_hash :: string

text \<open>One entry of the files list, after the paths in \<open>seen\<close>.\<close>

definition read_entry :: "string list \<Rightarrow> json \<Rightarrow> cap_exn + string \<times> cap_entry" where
  "read_entry seen entry = (case entry of
       JObj kvs \<Rightarrow> (case (obj_get kvs ''path'', obj_get kvs ''size_bytes'', obj_get kvs ''sha256'') of
           (JStr rel, JInt n, JStr h) \<Rightarrow>
             if rel \<in> set seen \<or> \<not> safe_path rel \<or> n < 0 \<or> \<not> is_hash h then Inl Refused
             else Inr (rel, \<lparr>ce_path = path_parts rel, ce_size = nat n, ce_hash = h\<rparr>)
         | _ \<Rightarrow> Inl Refused)
     | _ \<Rightarrow> Inl Refused)"

fun read_all_entries :: "string list \<Rightarrow> json list \<Rightarrow> cap_exn + cap_entry list" where
  "read_all_entries seen [] = Inr []"
| "read_all_entries seen (f # fs) = bindE (read_entry seen f) (\<lambda>(rel, e).
     bindE (read_all_entries (rel # seen) fs) (\<lambda>es. Inr (e # es)))"

text \<open>\<open>for line in handle\<close>: the lines of a file, each with its end.\<close>

fun byte_lines :: "string \<Rightarrow> string list" where
  "byte_lines [] = []"
| "byte_lines (c # s) = (if c = CHR 0x0A then [c] # byte_lines s
     else (case byte_lines s of [] \<Rightarrow> [[c]] | l # ls \<Rightarrow> (c # l) # ls))"

text \<open>One declared file: its path if it differs from its entry, and its line of the digest.\<close>

definition check_entry :: "cap_lib \<Rightarrow> bool \<Rightarrow> capture_dir \<Rightarrow> cap_entry \<Rightarrow> cap_exn + string option \<times> string" where
  "check_entry lib tolerate dir e = (let rel = as_posix (ce_path e) in
     case map_of (cd_nodes dir) rel of
       Some (Regular content) \<Rightarrow>
         let actual = cl_sha lib content; differs = length content \<noteq> ce_size e \<or> actual \<noteq> ce_hash e in
         if differs \<and> \<not> tolerate then Inl Refused
         else if last (ce_path e) \<in> set (map fst SIGNALS) \<and> \<not> list_all (\<lambda>l. length l \<le> OTLP_LINE_MAX_BYTES) (byte_lines content)
         then Inl Refused
         else Inr (if differs then Some rel else None, rel @ '' '' @ actual @ [CHR 0x0A])
     | Some _ \<Rightarrow> Inl Refused
     | None \<Rightarrow> Inl Crash)"

record validated =
  v_meta :: "(string \<times> json) list"
  v_digest :: string
  v_modified :: "string list"

definition version_one :: "cap_lib \<Rightarrow> json \<Rightarrow> bool" where
  "version_one lib j \<longleftrightarrow> (case j of JInt i \<Rightarrow> i = 1 | JBool b \<Rightarrow> b | JFloat x \<Rightarrow> cl_is_one lib x | _ \<Rightarrow> False)"

definition meta_ok :: "cap_lib \<Rightarrow> string \<Rightarrow> (string \<times> json) list \<Rightarrow> bool" where
  "meta_ok lib dir_name meta \<longleftrightarrow> obj_get meta ''schema'' = JStr CAPTURE_SCHEMA \<and> version_one lib (obj_get meta ''version'') \<and>
     obj_get meta ''state'' = JStr ''closed'' \<and> obj_get meta ''id'' = JStr dir_name"

definition meta_entries :: "(string \<times> json) list \<Rightarrow> cap_exn + cap_entry list" where
  "meta_entries meta = (case obj_get meta ''files'' of
       JArr files \<Rightarrow> if files = [] then Inl Refused else bindE (read_all_entries [] files) (\<lambda>entries.
         if CAPTURE_MAX_BYTES < sum_list (map ce_size entries) then Inl Refused else Inr entries)
     | _ \<Rightarrow> Inl Refused)"

definition read_metadata :: "cap_lib \<Rightarrow> capture_dir \<Rightarrow> cap_exn + (string \<times> json) list" where
  "read_metadata lib dir = (case map_of (cd_nodes dir) METADATA of
       Some (Regular content) \<Rightarrow> if METADATA_MAX_BYTES < length content then Inl Refused else load_json lib content
     | _ \<Rightarrow> Inl Refused)"

definition validate_capture :: "cap_lib \<Rightarrow> capture_dir \<Rightarrow> bool \<Rightarrow> cap_exn + validated" where
  "validate_capture lib dir tolerate =
     (if \<not> cd_plain dir then Inl Refused else bindE (read_metadata lib dir) (\<lambda>meta.
      if \<not> meta_ok lib (cd_name dir) meta then Inl Refused else bindE (meta_entries meta) (\<lambda>entries.
      if Symlink \<in> snd ` set (cd_nodes dir) then Inl Refused
      else if set (map fst (cd_nodes dir)) \<noteq> insert METADATA (set (map (\<lambda>e. as_posix (ce_path e)) entries)) then Inl Refused
      else bindE (mapE (check_entry lib tolerate dir) entries) (\<lambda>checked.
        Inr \<lparr>v_meta = meta, v_digest = cl_sha_text lib (concat (sort (map snd checked))),
          v_modified = List.map_filter fst checked\<rparr>))))"

section \<open>Extraction\<close>

text \<open>\<open>posixpath.dirname\<close>\<close>

definition dirname :: "string \<Rightarrow> string" where
  "dirname p = (let head = rev (dropWhile (\<lambda>c. c \<noteq> CHR ''/'') (rev p)) in
     if list_all (\<lambda>c. c = CHR ''/'') head then head else rstrip_by (\<lambda>c. c = CHR ''/'') head)"

definition SCAN_OUTPUT :: "string list" where
  "SCAN_OUTPUT = [''redaction-report.json'', ''.redaction-complete'']"

definition capture_members :: "zip_member list \<Rightarrow> zip_member list" where
  "capture_members ms = filter (\<lambda>m. zm_name m \<notin> set SCAN_OUTPUT) (filter (\<lambda>m. \<not> zm_dir m) ms)"

text \<open>The directory all members are in, with its slash.\<close>

definition common_prefix :: "zip_member list \<Rightarrow> string option" where
  "common_prefix ms = (case remdups (map (dirname \<circ> zm_name) ms) of
       [d] \<Rightarrow> Some (if d = [] then [] else d @ ''/'')
     | _ \<Rightarrow> None)"

definition member_path :: "string \<Rightarrow> zip_member \<Rightarrow> cap_exn + zip_member \<times> string" where
  "member_path pre m = (let rel = drop (length pre) (zm_name m) in
     if rel \<notin> set ARTIFACT_MEMBERS \<or> zm_link m then Inl Refused else Inr (m, rel))"

definition zip_entries :: "zip_member list \<Rightarrow> cap_exn + (zip_member \<times> string) list" where
  "zip_entries ms =
     (if \<not> distinct (map zm_name ms) then Inl Refused
      else (case common_prefix ms of
          None \<Rightarrow> Inl Refused
        | Some pre \<Rightarrow> mapE (member_path pre) ms))"

text \<open>Reading one member: the bytes written so far, before and after; what is written when it fails stays in the staging
  directory. A member that cannot be opened has no chunks.\<close>

fun write_chunks :: "nat \<Rightarrow> string list \<Rightarrow> zip_end \<Rightarrow> (cap_exn option \<times> nat) \<times> string" where
  "write_chunks written [] e = ((case e of Zip_ok \<Rightarrow> None | Zip_bad \<Rightarrow> Some Refused | Zip_crash \<Rightarrow> Some Crash, written), [])"
| "write_chunks written (chunk # chunks) e = (let written = written + length chunk in
     if CAPTURE_MAX_BYTES < written then ((Some Refused, written - length chunk), [])
     else (case write_chunks written chunks e of (r, content) \<Rightarrow> (r, chunk @ content)))"

fun write_members :: "nat \<Rightarrow> (zip_member \<times> string) list \<Rightarrow> cap_exn option \<times> (string \<times> string) list" where
  "write_members written [] = (None, [])"
| "write_members written ((m, rel) # es) = (case write_chunks written (zm_chunks m) (zm_end m) of
       ((Some e, _), content) \<Rightarrow> (Some e, [(rel, content)])
     | ((None, written), content) \<Rightarrow> (case write_members written es of (r, files) \<Rightarrow> (r, (rel, content) # files)))"

text \<open>The metadata or an exception, and the files in the staging directory.\<close>

definition extract_artifact_zip :: "cap_lib \<Rightarrow> string \<Rightarrow> (cap_exn + (string \<times> json) list) \<times> (string \<times> string) list" where
  "extract_artifact_zip lib data = (case cl_zip lib data of
       None \<Rightarrow> (Inl Refused, [])
     | Some ms \<Rightarrow> (case zip_entries (capture_members ms) of
         Inl e \<Rightarrow> (Inl e, [])
       | Inr entries \<Rightarrow> (case find (\<lambda>(m, rel). rel = METADATA) entries of
           None \<Rightarrow> (Inl Refused, [])
         | Some (meta, _) \<Rightarrow>
             if METADATA_MAX_BYTES < zm_size meta \<or> CAPTURE_MAX_BYTES < sum_list (map (zm_size \<circ> fst) entries) then (Inl Refused, [])
             else (case write_members 0 entries of
                 (Some e, files) \<Rightarrow> (Inl e, files)
               | (None, files) \<Rightarrow> (case map_of files METADATA of
                   None \<Rightarrow> (Inl Refused, files)
                 | Some content \<Rightarrow> (load_json lib content, files))))))"

section \<open>What a validated capture is\<close>

lemma bindE_InrE:
  assumes "bindE r f = Inr y"
  obtains x where "r = Inr x" "f x = Inr y"
  using assms by (auto simp: bindE_Inr_iff)

lemma read_all_entries_ok:
  "read_all_entries seen fs = Inr es \<Longrightarrow> e \<in> set es \<Longrightarrow> ce_path e \<noteq> [] \<and> ''..'' \<notin> set (ce_path e) \<and> is_hash (ce_hash e)"
proof (induction fs arbitrary: seen es)
  case (Cons f fs)
  then obtain rel e' es' where f: "read_entry seen f = Inr (rel, e')" "read_all_entries (rel # seen) fs = Inr es'" "es = e' # es'"
    by (auto elim!: bindE_InrE)
  then have "ce_path e' \<noteq> [] \<and> ''..'' \<notin> set (ce_path e') \<and> is_hash (ce_hash e')"
    by (auto simp: read_entry_def safe_path_def split: json.splits if_splits)
  with Cons f show ?case by auto
qed simp

lemma check_entryD:
  assumes "check_entry lib tolerate dir e = Inr (changed, line)"
  obtains content where "map_of (cd_nodes dir) (as_posix (ce_path e)) = Some (Regular content)"
    "changed = (if length content \<noteq> ce_size e \<or> cl_sha lib content \<noteq> ce_hash e then Some (as_posix (ce_path e)) else None)"
    "\<not> tolerate \<Longrightarrow> changed = None" "line = as_posix (ce_path e) @ '' '' @ cl_sha lib content @ [CHR 0x0A]"
    "last (ce_path e) \<in> set (map fst SIGNALS) \<Longrightarrow> list_all (\<lambda>l. length l \<le> OTLP_LINE_MAX_BYTES) (byte_lines content)"
  using assms by (cases "map_of (cd_nodes dir) (as_posix (ce_path e))") (auto simp: check_entry_def Let_def split: node.splits if_splits)

definition holds_files :: "cap_lib \<Rightarrow> capture_dir \<Rightarrow> cap_entry list \<Rightarrow> bool" where
  "holds_files lib dir entries \<longleftrightarrow>
     set (map fst (cd_nodes dir)) = insert METADATA (set (map (\<lambda>e. as_posix (ce_path e)) entries)) \<and> Symlink \<notin> snd ` set (cd_nodes dir) \<and>
     sum_list (map ce_size entries) \<le> CAPTURE_MAX_BYTES \<and>
     list_all (\<lambda>e. ''..'' \<notin> set (ce_path e) \<and> (case map_of (cd_nodes dir) (as_posix (ce_path e)) of
         Some (Regular content) \<Rightarrow> length content = ce_size e \<and> cl_sha lib content = ce_hash e
       | _ \<Rightarrow> False)) entries"

lemma validate_captureD:
  assumes "validate_capture lib dir tolerate = Inr v"
  obtains entries checked where "cd_plain dir" "meta_ok lib (cd_name dir) (v_meta v)" "meta_entries (v_meta v) = Inr entries"
    "Symlink \<notin> snd ` set (cd_nodes dir)"
    "set (map fst (cd_nodes dir)) = insert METADATA (set (map (\<lambda>e. as_posix (ce_path e)) entries))"
    "mapE (check_entry lib tolerate dir) entries = Inr checked"
    "v_digest v = cl_sha_text lib (concat (sort (map snd checked)))" "v_modified v = List.map_filter fst checked"
  using assms unfolding validate_capture_def by (auto elim!: bindE_InrE split: if_splits)

lemma meta_entriesD:
  assumes "meta_entries meta = Inr entries"
  shows "sum_list (map ce_size entries) \<le> CAPTURE_MAX_BYTES"
    "e \<in> set entries \<Longrightarrow> ce_path e \<noteq> [] \<and> ''..'' \<notin> set (ce_path e) \<and> is_hash (ce_hash e)"
proof -
  obtain files where "read_all_entries [] files = Inr entries" "sum_list (map ce_size entries) \<le> CAPTURE_MAX_BYTES"
    using assms by (auto simp: meta_entries_def elim!: bindE_InrE split: json.splits if_splits)
  then show "sum_list (map ce_size entries) \<le> CAPTURE_MAX_BYTES"
    "e \<in> set entries \<Longrightarrow> ce_path e \<noteq> [] \<and> ''..'' \<notin> set (ce_path e) \<and> is_hash (ce_hash e)"
    using read_all_entries_ok [of "[]" files entries e] by auto
qed

text \<open>Everything that can go wrong is a refusal, except text that is not UTF-8.\<close>

lemma mapE_InlD: "mapE f xs = Inl e \<Longrightarrow> \<exists>x \<in> set xs. f x = Inl e"
  by (induction xs) (auto simp: bindE_def split: sum.splits)

lemma read_entry_Inl: "read_entry seen f = Inl e \<Longrightarrow> e = Refused"
  by (auto simp: read_entry_def split: json.splits if_splits)

lemma read_all_entries_Inl: "read_all_entries seen fs = Inl e \<Longrightarrow> e = Refused"
  by (induction fs arbitrary: seen) (auto simp: bindE_def dest: read_entry_Inl split: sum.splits)

lemma meta_entries_Inl: "meta_entries meta = Inl e \<Longrightarrow> e = Refused"
  by (auto simp: meta_entries_def bindE_def dest: read_all_entries_Inl split: json.splits sum.splits if_splits)

lemma check_entry_Inl:
  "check_entry lib tolerate dir x = Inl e \<Longrightarrow> as_posix (ce_path x) \<in> set (map fst (cd_nodes dir)) \<Longrightarrow> e = Refused"
  by (cases "map_of (cd_nodes dir) (as_posix (ce_path x))")
    (auto simp: check_entry_def Let_def map_of_eq_None_iff split: node.splits if_splits)

lemma load_json_Inl: "load_json lib content = Inl e \<Longrightarrow> e = Refused \<or> e = Crash \<and> cl_json lib content = Not_text"
  by (auto simp: load_json_def split: json_file.splits json.splits)

lemma read_metadata_Inl:
  "read_metadata lib dir = Inl e \<Longrightarrow> e = Refused \<or> e = Crash \<and>
     (\<exists>content. map_of (cd_nodes dir) METADATA = Some (Regular content) \<and> cl_json lib content = Not_text)"
  by (auto simp: read_metadata_def dest: load_json_Inl split: option.splits node.splits if_splits)

lemma validate_capture_Inl:
  assumes "validate_capture lib dir tolerate = Inl e"
  shows "e = Refused \<or> e = Crash \<and> (\<exists>content. map_of (cd_nodes dir) METADATA = Some (Regular content) \<and> cl_json lib content = Not_text)"
proof (cases "cd_plain dir")
  case True
  have run: "(bindE (read_metadata lib dir) (\<lambda>meta.
      if \<not> meta_ok lib (cd_name dir) meta then Inl Refused else bindE (meta_entries meta) (\<lambda>entries.
      if Symlink \<in> snd ` set (cd_nodes dir) then Inl Refused
      else if set (map fst (cd_nodes dir)) \<noteq> insert METADATA (set (map (\<lambda>e. as_posix (ce_path e)) entries)) then Inl Refused
      else bindE (mapE (check_entry lib tolerate dir) entries) (\<lambda>checked.
        Inr \<lparr>v_meta = meta, v_digest = cl_sha_text lib (concat (sort (map snd checked))),
          v_modified = List.map_filter fst checked\<rparr>)))) = Inl e"
    using assms True by (simp add: validate_capture_def)
  show ?thesis
  proof (cases "read_metadata lib dir")
    case (Inl x)
    with run read_metadata_Inl [OF Inl] show ?thesis by simp
  next
    case (Inr meta)
    show ?thesis
    proof (cases "meta_entries meta")
      case (Inl x)
      with run Inr meta_entries_Inl [OF Inl] show ?thesis by (auto split: if_splits)
    next
      case ents: (Inr entries)
      have "e = Refused" if "mapE (check_entry lib tolerate dir) entries = Inl e"
        "set (map fst (cd_nodes dir)) = insert METADATA (set (map (\<lambda>e. as_posix (ce_path e)) entries))"
      proof -
        from mapE_InlD [OF that(1)] obtain x where x: "x \<in> set entries" "check_entry lib tolerate dir x = Inl e" by blast
        have "as_posix (ce_path x) \<in> set (map fst (cd_nodes dir))" unfolding that(2) using x(1) by simp
        with check_entry_Inl [OF x(2)] show ?thesis .
      qed
      note refused = this
      show ?thesis
      proof (cases "mapE (check_entry lib tolerate dir) entries")
        case m: (Inl x)
        from run have "e = Refused \<or> x = e \<and> set (map fst (cd_nodes dir)) = insert METADATA (set (map (\<lambda>e. as_posix (ce_path e)) entries))"
          unfolding Inr ents m bindE_simps by (simp only: sum.inject split: if_splits) blast+
        with refused m show ?thesis by blast
      next
        case m: (Inr checked)
        from run show ?thesis unfolding Inr ents m bindE_simps by (simp split: if_splits)
      qed
    qed
  qed
qed (use assms in \<open>simp add: validate_capture_def\<close>)


section \<open>What an extraction writes\<close>

lemma write_chunks_bounded:
  "written \<le> CAPTURE_MAX_BYTES \<Longrightarrow> write_chunks written chunks e = ((r, written'), content) \<Longrightarrow>
   written + length content \<le> CAPTURE_MAX_BYTES \<and> (r = None \<longrightarrow> written' = written + length content)"
proof (induction chunks arbitrary: written content)
  case (Cons c chunks)
  show ?case
  proof (cases "CAPTURE_MAX_BYTES < written + length c")
    case False
    then obtain rest where "write_chunks (written + length c) chunks e = ((r, written'), rest)" "content = c @ rest"
      using Cons.prems(2) by (auto simp: Let_def split: prod.splits)
    with Cons.IH [of "written + length c" rest] False show ?thesis by simp
  qed (use Cons.prems in \<open>auto simp: Let_def\<close>)
qed auto

lemma write_members_bounded:
  "written \<le> CAPTURE_MAX_BYTES \<Longrightarrow> write_members written es = (r, files) \<Longrightarrow>
   written + (\<Sum>f \<leftarrow> files. length (snd f)) \<le> CAPTURE_MAX_BYTES \<and> (\<exists>n. map fst files = take n (map snd es))"
proof (induction es arbitrary: written r files)
  case Nil
  then show ?case by simp
next
  case (Cons x es)
  obtain m rel where x: "x = (m, rel)" by fastforce
  obtain q written' content where c: "write_chunks written (zm_chunks m) (zm_end m) = ((q, written'), content)" by (metis surj_pair)
  note b = write_chunks_bounded [OF Cons.prems(1) c]
  show ?case
  proof (cases q)
    case None
    obtain fs where fs: "write_members written' es = (r, fs)" "files = (rel, content) # fs"
      using Cons.prems(2) by (auto simp: x c None split: prod.splits)
    from b None Cons.IH [of written' r fs] fs obtain n where
      "written' + (\<Sum>f \<leftarrow> fs. length (snd f)) \<le> CAPTURE_MAX_BYTES" "map fst fs = take n (map snd es)" by auto
    with b None fs(2) show ?thesis by (auto simp: x intro!: exI [of _ "Suc n"])
  next
    case (Some e)
    with Cons.prems(2) b show ?thesis by (auto simp: x c intro!: exI [of _ "Suc 0"])
  qed
qed

lemma zip_entries_members: "zip_entries ms = Inr es \<Longrightarrow> set (map snd es) \<subseteq> set ARTIFACT_MEMBERS"
proof -
  assume "zip_entries ms = Inr es"
  then obtain pre where run: "mapE (member_path pre) ms = Inr es"
    by (auto simp: zip_entries_def split: if_splits option.splits)
  have "snd e \<in> set ARTIFACT_MEMBERS" if "e \<in> set es" for e
  proof -
    from that obtain i where i: "i < length ms" "e = es ! i" using mapE_Inr_length [OF run] by (metis in_set_conv_nth)
    with mapE_Inr_nth [OF run i(1)] show ?thesis by (simp add: member_path_def Let_def split: if_splits) (metis snd_conv)
  qed
  then show ?thesis by auto
qed

lemma write_chunks_exn: "write_chunks written chunks e = ((Some x, n), content) \<Longrightarrow> x = Refused \<or> x = Crash"
  by (induction chunks arbitrary: written content) (auto simp: Let_def split: zip_end.splits if_splits prod.splits)

lemma write_members_exn: "write_members written es = (Some x, files) \<Longrightarrow> x = Refused \<or> x = Crash"
proof (induction es arbitrary: written files)
  case (Cons m es)
  then show ?case
    by (cases m) (auto split: prod.splits option.splits dest: write_chunks_exn)
qed simp

text \<open>
  Claim C30: whatever the archive holds and however it breaks off, an extraction writes only \<^verbatim>\<open>metadata.json\<close> and the three signal files,
  at most 1 GiB in all; and what it returns without an exception is the metadata that it wrote.
\<close>

theorem extraction_is_confined:
  "case extract_artifact_zip lib data of (r, files) \<Rightarrow>
     set (map fst files) \<subseteq> set ARTIFACT_MEMBERS \<and> (\<Sum>f \<leftarrow> files. length (snd f)) \<le> CAPTURE_MAX_BYTES \<and>
     (case r of Inl e \<Rightarrow> e = Refused \<or> e = Crash
      | Inr kvs \<Rightarrow> (\<exists>content. map_of files METADATA = Some content \<and> cl_json lib content = Value (JObj kvs)))"
proof (cases "cl_zip lib data")
  case (Some ms)
  show ?thesis
  proof (cases "zip_entries (capture_members ms)")
    case (Inl e)
    have "e = Refused"
      using Inl mapE_InlD [of "member_path _" "capture_members ms" e]
      by (fastforce simp: zip_entries_def member_path_def Let_def split: if_splits option.splits)
    with Inl Some show ?thesis by (simp add: extract_artifact_zip_def)
  next
    case (Inr entries)
    obtain r files where w: "write_members 0 entries = (r, files)" by fastforce
    from write_members_bounded [OF _ w] obtain n where
      b: "(\<Sum>f \<leftarrow> files. length (snd f)) \<le> CAPTURE_MAX_BYTES" "map fst files = take n (map snd entries)" by auto
    have "set (map fst files) \<subseteq> set ARTIFACT_MEMBERS"
      unfolding b(2) using zip_entries_members [OF Inr] set_take_subset by fastforce
    note written = this b(1)
    show ?thesis
    proof (cases r)
      case (Some e)
      with written write_members_exn [of 0 entries e files] w Inr \<open>cl_zip lib data = Some ms\<close> show ?thesis
        by (auto simp: extract_artifact_zip_def split: option.split)
    next
      case None
      show ?thesis
      proof (cases "map_of files METADATA")
        case None
        with written w Inr \<open>r = None\<close> \<open>cl_zip lib data = Some ms\<close> show ?thesis
          by (auto simp: extract_artifact_zip_def split: option.split)
      next
        case meta: (Some content)
        show ?thesis
        proof (cases "load_json lib content")
          case (Inl e)
          with load_json_Inl [OF Inl] written w Inr None meta \<open>cl_zip lib data = Some ms\<close> show ?thesis
            by (auto simp: extract_artifact_zip_def split: option.split)
        next
          case obj: (Inr kvs)
          then have "cl_json lib content = Value (JObj kvs)" by (auto simp: load_json_def split: json_file.splits json.splits)
          with obj written w Inr None meta \<open>cl_zip lib data = Some ms\<close> show ?thesis
            by (auto simp: extract_artifact_zip_def split: option.split)
        qed
      qed
    qed
  qed
qed (simp add: extract_artifact_zip_def)

end
