(* ===== verification/CaptureImport.thy ===== *)
theory CaptureImport
  imports CaptureFiles
begin

text \<open>
  Replaying a capture into the local stack and the record of it, in \<^verbatim>\<open>monitoring/scripts/ci-observe.py\<close>.

  Podman, the metrics page of the collector and the clock answer over a world of any type; an interrupt arrives during the pause between
  two polls. The state directory is only written by this program: the index of imports is a list of entries by digest, or \<open>None\<close> when it
  is unreadable. Counters have any ordered type \<open>'n\<close> with an addition (floats without NaN). The wait takes fuel, one unit per poll; running out of it
  is the value \<open>Out_of_fuel\<close>, which nothing catches.
\<close>

section \<open>State and outside\<close>

datatype import_status = Imported | Incomplete

record 'n import_entry =
  ie_status :: import_status
  ie_capture :: json
  ie_counts :: "(string \<times> 'n \<times> 'n) list"     \<comment> \<open>accepted and sent\<close>
  ie_flushed :: bool
  ie_modified :: "string list"

record stack_record =
  sk_container :: string

datatype 'n ci_event =
    Replay_started string                      \<comment> \<open>the digest of the capture\<close>
  | Scraped "(string \<times> 'n) list option"
  | Replay_removed bool
  | Recorded string import_status
  | Zip_downloaded int int

text \<open>What the command on an artifact left behind: a refusal, or the digest that was processed.\<close>

datatype artifact_record = Refusal | Processed string

record ('n, 'w) ci_state =
  ci_world :: 'w
  ci_log :: "'n ci_event list"
  ci_index :: "(string \<times> 'n import_entry) list option"
  ci_stack :: "stack_record option"
  ci_captures :: "(string \<times> capture_dir) list"
  ci_zips :: "((int \<times> int) \<times> string) list"
  ci_records :: "((int \<times> int) \<times> artifact_record) list"
  ci_marks :: "(int \<times> int) list"              \<comment> \<open>runs marked as without telemetry\<close>

type_synonym ('n, 'w, 'a) ci = "(('n, 'w) ci_state, cap_exn, 'a) prog"

record container_info =
  ct_labels :: "(string \<times> json) list"
  ct_running :: bool
  ct_image :: string

datatype inspect_answer = No_podman | Unreadable | No_container | Container container_info

text \<open>Each call has an answer and a new world. A command of podman succeeds or fails; \<open>None\<close> is that podman is missing.\<close>

record ('n, 'w) ci_sys =
  sy_inspect :: "'w \<Rightarrow> string \<Rightarrow> inspect_answer \<times> 'w"
  sy_podman :: "'w \<Rightarrow> string list \<Rightarrow> bool option \<times> 'w"
  sy_http :: "'w \<Rightarrow> (nat \<times> string) option \<times> 'w"
  sy_clock :: "'w \<Rightarrow> int \<times> 'w"
  sy_sleep :: "'w \<Rightarrow> bool \<times> 'w"               \<comment> \<open>whether it was interrupted\<close>
  sy_float :: "string \<Rightarrow> 'n option"

definition ask :: "('w \<Rightarrow> 'a \<times> 'w) \<Rightarrow> ('n, 'w, 'a) ci" where
  "ask f st = (case f (ci_world st) of (r, w) \<Rightarrow> (Inr r, st\<lparr>ci_world := w\<rparr>))"

definition note_event :: "'n ci_event \<Rightarrow> ('n, 'w, unit) ci" where
  "note_event e = modP (\<lambda>st. st\<lparr>ci_log := ci_log st @ [e]\<rparr>)"

definition inspect_container :: "('n, 'w) ci_sys \<Rightarrow> string \<Rightarrow> ('n, 'w, container_info option) ci" where
  "inspect_container sys name = bindP (ask (\<lambda>w. sy_inspect sys w name)) (\<lambda>r. case r of
       No_podman \<Rightarrow> raise Refused | Unreadable \<Rightarrow> raise Crash | No_container \<Rightarrow> ret None | Container i \<Rightarrow> ret (Some i))"

text \<open>\<open>podman(args)\<close>, and \<open>podman(args, check=False)\<close> with whether the return code is 0.\<close>

definition podman :: "('n, 'w) ci_sys \<Rightarrow> string list \<Rightarrow> ('n, 'w, unit) ci" where
  "podman sys args = bindP (ask (\<lambda>w. sy_podman sys w args)) (\<lambda>r. if r = Some True then ret () else raise Refused)"

definition podman_unchecked :: "('n, 'w) ci_sys \<Rightarrow> string list \<Rightarrow> ('n, 'w, bool) ci" where
  "podman_unchecked sys args = bindP (ask (\<lambda>w. sy_podman sys w args)) (\<lambda>r. case r of None \<Rightarrow> raise Refused | Some ok \<Rightarrow> ret ok)"

definition OWNED_LABEL :: string where "OWNED_LABEL = ''osac.ci-observe.owned''"

definition require_owned :: "container_info \<Rightarrow> ('n, 'w, unit) ci" where
  "require_owned info = (if obj_get (ct_labels info) OWNED_LABEL = JStr ''true'' then ret () else raise Refused)"

definition load_index :: "('n, 'w, (string \<times> 'n import_entry) list) ci" where
  "load_index = bindP (getP ci_index) (\<lambda>i. case i of None \<Rightarrow> raise Refused | Some imports \<Rightarrow> ret imports)"

definition record_import :: "string \<Rightarrow> 'n import_entry \<Rightarrow> ('n, 'w, unit) ci" where
  "record_import digest entry = bindP load_index (\<lambda>imports.
     thenP (modP (\<lambda>st. st\<lparr>ci_index := Some (dict_set digest entry imports)\<rparr>)) (note_event (Recorded digest (ie_status entry))))"

section \<open>The counters of the collector\<close>

definition metric_char :: "char \<Rightarrow> bool" where
  "metric_char c \<longleftrightarrow> in_range (CHR ''a'') (CHR ''z'') c \<or> c = CHR ''_''"

definition METRIC_RE :: "char rx" where
  "METRIC_RE = Seqs [Grp 1 (Seq (Lit ''otelcol_'') (Plus (Cls metric_char))),
     Opt (Seqs [Lit ''{'', Star (Cls (\<lambda>c. c \<noteq> CHR ''}'')), Lit ''}'']),
     Plus (Cls str_space), Grp 2 (Plus (Cls (\<lambda>c. is_digit c \<or> c \<in> set ''.eE+-''))), Assert dollar]"

definition add_sample :: "(string \<Rightarrow> 'n option) \<Rightarrow> (string \<times> 'n::{plus, zero}) list \<Rightarrow> string \<Rightarrow> cap_exn + (string \<times> 'n) list" where
  "add_sample parse_float totals line = (let s = strip line in case rx_match_at METRIC_RE s 0 of
       None \<Rightarrow> Inr totals
     | Some m \<Rightarrow> (case parse_float (m_group s m 2) of
         None \<Rightarrow> Inl Crash
       | Some x \<Rightarrow> Inr (dict_set (m_group s m 1) ((case map_of totals (m_group s m 1) of None \<Rightarrow> 0 | Some y \<Rightarrow> y) + x) totals)))"

definition scrape_totals :: "('n::{plus, zero}, 'w) ci_sys \<Rightarrow> ('n, 'w, (string \<times> 'n) list option) ci" where
  "scrape_totals sys = bindP (ask (sy_http sys)) (\<lambda>got. case got of
       Some (status, page) \<Rightarrow> if status \<noteq> 200 then ret None
         else bindP (liftP (foldE (add_sample (sy_float sys)) [] (lines_of page))) (\<lambda>totals. ret (Some totals))
     | None \<Rightarrow> ret None)"

definition total_of :: "(string \<times> 'n::zero) list \<Rightarrow> string \<Rightarrow> 'n" where
  "total_of totals name = (case map_of totals name of None \<Rightarrow> 0 | Some x \<Rightarrow> x)"

definition signal_ok :: "(string \<times> 'n::{linorder, zero}) list \<Rightarrow> string \<Rightarrow> bool" where
  "signal_ok totals signal \<longleftrightarrow> (let sent = total_of totals (''otelcol_exporter_sent_'' @ signal) in
     0 < sent \<and> total_of totals (''otelcol_receiver_accepted_'' @ signal) \<le> sent \<and>
     total_of totals (''otelcol_exporter_send_failed_'' @ signal) = 0 \<and> total_of totals (''otelcol_receiver_refused_'' @ signal) = 0)"

definition exporter_ack_ok :: "(string \<times> 'n::{linorder, zero}) list \<Rightarrow> (string \<times> bool) list \<Rightarrow> bool" where
  "exporter_ack_ok totals needed \<longleftrightarrow> list_all (\<lambda>(signal, required). required \<longrightarrow> signal_ok totals signal) needed"

section \<open>Waiting for delivery\<close>

text \<open>One turn of the loop: the counters when they are confirmed for the second time in a row, or the confirmations in a row so far.\<close>

definition check_running :: "('n, 'w) ci_sys \<Rightarrow> string \<Rightarrow> ('n, 'w, unit) ci" where
  "check_running sys container = bindP (inspect_container sys container) (\<lambda>info. case info of
       None \<Rightarrow> ret ()
     | Some i \<Rightarrow> if ct_running i then ret () else raise Refused)"

definition pause :: "('n, 'w) ci_sys \<Rightarrow> ('n, 'w, unit) ci" where
  "pause sys = bindP (ask (sy_sleep sys)) (\<lambda>stop. if stop then raise Interrupted else ret ())"

definition confirmations :: "(string \<times> bool) list \<Rightarrow> (string \<times> 'n::{linorder, zero}) list option \<Rightarrow> nat \<Rightarrow> nat" where
  "confirmations needed totals streak = (case totals of
       None \<Rightarrow> 0 | Some t \<Rightarrow> if exporter_ack_ok t needed then streak + 1 else 0)"

definition poll_ack ::
  "('n::{linorder, plus, zero}, 'w) ci_sys \<Rightarrow> (string \<times> bool) list \<Rightarrow> string \<Rightarrow> nat \<Rightarrow> ('n, 'w, (string \<times> 'n) list + nat) ci" where
  "poll_ack sys needed container streak = thenP (check_running sys container)
     (bindP (scrape_totals sys) (\<lambda>totals. thenP (note_event (Scraped totals))
       (if 2 \<le> confirmations needed totals streak then ret (Inl (case totals of None \<Rightarrow> [] | Some t \<Rightarrow> t))
        else thenP (pause sys) (ret (Inr (confirmations needed totals streak))))))"

fun wait_loop ::
  "nat \<Rightarrow> ('n::{linorder, plus, zero}, 'w) ci_sys \<Rightarrow> (string \<times> bool) list \<Rightarrow> string \<Rightarrow> int \<Rightarrow> nat \<Rightarrow> ('n, 'w, (string \<times> 'n) list) ci" where
  "wait_loop 0 sys needed container deadline streak = raise Out_of_fuel"
| "wait_loop (Suc fuel) sys needed container deadline streak = bindP (ask (sy_clock sys)) (\<lambda>now.
     if now < deadline
     then bindP (poll_ack sys needed container streak) (\<lambda>r. case r of
         Inl totals \<Rightarrow> ret totals
       | Inr streak \<Rightarrow> wait_loop fuel sys needed container deadline streak)
     else raise Refused)"

definition wait_for_exporter_ack ::
  "nat \<Rightarrow> ('n::{linorder, plus, zero}, 'w) ci_sys \<Rightarrow> (string \<times> bool) list \<Rightarrow> int \<Rightarrow> string \<Rightarrow> ('n, 'w, (string \<times> 'n) list) ci" where
  "wait_for_exporter_ack fuel sys needed timeout container =
     bindP (ask (sy_clock sys)) (\<lambda>now. wait_loop fuel sys needed container (now + timeout) 0)"

section \<open>Importing a capture\<close>

record import_env =
  ev_config :: bool                          \<comment> \<open>whether the replay configuration is a file\<close>
  ev_timeout :: int
  ev_replay :: string                        \<comment> \<open>the name of the replay container\<close>
  ev_mounts :: "string \<Rightarrow> string \<Rightarrow> string list"

record 'n import_result =
  ir_new :: bool                             \<comment> \<open>imported, or imported before\<close>
  ir_digest :: string
  ir_modified :: "string list"

definition declared_sizes :: "(string \<times> json) list \<Rightarrow> (string \<times> int) list" where
  "declared_sizes meta = (case obj_get meta ''files'' of
       JArr files \<Rightarrow> rev (List.map_filter (\<lambda>f. case f of
           JObj kvs \<Rightarrow> (case (obj_get kvs ''path'', obj_get kvs ''size_bytes'') of (JStr rel, JInt n) \<Rightarrow> Some (rel, n) | _ \<Rightarrow> None)
         | _ \<Rightarrow> None) files)
     | _ \<Rightarrow> [])"

definition needed_signals :: "(string \<times> json) list \<Rightarrow> (string \<times> bool) list" where
  "needed_signals meta = map (\<lambda>(fname, signal). (signal,
     0 < (case map_of (declared_sizes meta) fname of None \<Rightarrow> 0 | Some n \<Rightarrow> n))) SIGNALS"

definition running_stack :: "('n, 'w) ci_sys \<Rightarrow> ('n, 'w, string) ci" where
  "running_stack sys = bindP (getP ci_stack) (\<lambda>stack. case stack of
       None \<Rightarrow> raise Backend_down
     | Some sk \<Rightarrow> bindP (inspect_container sys (sk_container sk)) (\<lambda>info. case info of
         None \<Rightarrow> raise Backend_down
       | Some i \<Rightarrow> if ct_running i then thenP (require_owned i) (ret (sk_container sk)) else raise Backend_down))"

definition remove_old_replay :: "('n, 'w) ci_sys \<Rightarrow> string \<Rightarrow> ('n, 'w, unit) ci" where
  "remove_old_replay sys replay = bindP (inspect_container sys replay) (\<lambda>old. case old of
       None \<Rightarrow> ret ()
     | Some i \<Rightarrow> thenP (require_owned i) (podman sys [''rm'', ''-f'', replay]))"

definition start_replay :: "('n, 'w) ci_sys \<Rightarrow> import_env \<Rightarrow> capture_dir \<Rightarrow> string \<Rightarrow> ('n, 'w, unit) ci" where
  "start_replay sys env dir digest = thenP (remove_old_replay sys (ev_replay env))
     (thenP (podman sys ([''run'', ''-d'', ''--name'', ev_replay env, ''--label'', OWNED_LABEL @ ''=true''] @ ev_mounts env (cd_name dir) digest))
       (note_event (Replay_started digest)))"

definition base_entry :: "(string \<times> json) list \<Rightarrow> 'n import_entry" where
  "base_entry meta = \<lparr>ie_status = Incomplete, ie_capture = obj_get meta ''id'', ie_counts = [], ie_flushed = False, ie_modified = []\<rparr>"

text \<open>Both handlers remove the container, record that the delivery is uncertain, and raise again.\<close>

definition wait_recorded ::
  "nat \<Rightarrow> ('n::{linorder, plus, zero}, 'w) ci_sys \<Rightarrow> import_env \<Rightarrow> (string \<times> json) list \<Rightarrow> string \<Rightarrow> ('n, 'w, (string \<times> 'n) list) ci" where
  "wait_recorded fuel sys env meta digest =
     catchP (wait_for_exporter_ack fuel sys (needed_signals meta) (ev_timeout env) (ev_replay env))
       (\<lambda>e. if e \<in> {Interrupted, Refused, Backend_down}
          then bindP (podman_unchecked sys [''rm'', ''-f'', ev_replay env]) (\<lambda>ok. thenP (note_event (Replay_removed ok))
            (thenP (record_import digest (base_entry meta)) (raise e)))
          else raise e)"

definition signal_counts :: "(string \<times> bool) list \<Rightarrow> (string \<times> 'n::zero) list \<Rightarrow> (string \<times> 'n \<times> 'n) list" where
  "signal_counts needed totals = map (\<lambda>(signal, required). (signal,
     total_of totals (''otelcol_receiver_accepted_'' @ signal), total_of totals (''otelcol_exporter_sent_'' @ signal))) needed"

definition finish_import ::
  "('n::{linorder, plus, zero}, 'w) ci_sys \<Rightarrow> import_env \<Rightarrow> string \<Rightarrow> validated \<Rightarrow> (string \<times> 'n) list \<Rightarrow> ('n, 'w, 'n import_result) ci" where
  "finish_import sys env container v totals = thenP (podman sys [''rm'', ''-f'', ev_replay env])
     (thenP (note_event (Replay_removed True))
     (bindP (podman_unchecked sys [''exec'', container, ''curl'', ''-s'', ''-X'', ''POST'', ''http://localhost:3100/flush'']) (\<lambda>flushed.
      thenP (record_import (v_digest v) ((base_entry (v_meta v))\<lparr>ie_status := Imported,
          ie_counts := signal_counts (needed_signals (v_meta v)) totals, ie_flushed := flushed, ie_modified := v_modified v\<rparr>))
        (ret \<lparr>ir_new = True, ir_digest = v_digest v, ir_modified = v_modified v\<rparr>))))"

definition import_capture ::
  "nat \<Rightarrow> cap_lib \<Rightarrow> ('n::{linorder, plus, zero}, 'w) ci_sys \<Rightarrow> import_env \<Rightarrow> capture_dir \<Rightarrow> bool \<Rightarrow> ('n, 'w, 'n import_result) ci" where
  "import_capture fuel lib sys env dir tolerate = bindP (liftP (validate_capture lib dir tolerate)) (\<lambda>v. bindP load_index (\<lambda>imports.
     case map_option ie_status (map_of imports (v_digest v)) of
       Some Imported \<Rightarrow> ret \<lparr>ir_new = False, ir_digest = v_digest v, ir_modified = []\<rparr>
     | Some Incomplete \<Rightarrow> raise Refused
     | None \<Rightarrow>
         if \<not> list_ex snd (needed_signals (v_meta v)) then raise Refused
         else bindP (running_stack sys) (\<lambda>container. if \<not> ev_config env then raise Refused
         else thenP (start_replay sys env dir (v_digest v))
          (bindP (wait_recorded fuel sys env (v_meta v) (v_digest v)) (finish_import sys env container v)))))"

text \<open>\<open>cmd_import\<close>: the exit status.\<close>

definition resolve_capture_dir :: "capture_dir option \<Rightarrow> string option \<Rightarrow> ('n, 'w, capture_dir) ci" where
  "resolve_capture_dir dir capture_id = (case (dir, capture_id) of
       (Some _, Some _) \<Rightarrow> raise Refused
     | (Some d, None) \<Rightarrow> ret d
     | (None, Some i) \<Rightarrow> bindP (getP ci_captures) (\<lambda>cs. case map_of cs i of None \<Rightarrow> raise Refused | Some d \<Rightarrow> ret d)
     | (None, None) \<Rightarrow> raise Refused)"

definition cmd_import ::
  "nat \<Rightarrow> cap_lib \<Rightarrow> ('n::{linorder, plus, zero}, 'w) ci_sys \<Rightarrow> import_env \<Rightarrow> capture_dir option \<Rightarrow> string option \<Rightarrow> ('n, 'w, nat) ci" where
  "cmd_import fuel lib sys env dir capture_id = bindP (resolve_capture_dir dir capture_id) (\<lambda>d.
     catchP (bindP (import_capture fuel lib sys env d False) (\<lambda>r. ret 0))
       (\<lambda>e. if e = Interrupted then ret 130 else raise e))"

section \<open>What a wait leaves in the log\<close>

definition at_log :: "(string \<times> 'n import_entry) list option \<Rightarrow> 'n ci_event list \<Rightarrow> ('n, 'w) ci_state \<Rightarrow> bool" where
  "at_log ix log st \<longleftrightarrow> ci_index st = ix \<and> ci_log st = log"

named_theorems quiet_rules \<open>programs that touch neither the log nor the index\<close>

lemma quiet_ask [quiet_rules]: "keeps (at_log ix log) (ask f)"
  by (auto simp: keeps_def ask_def at_log_def split: prod.split)

lemma quiet_inspect [quiet_rules]: "keeps (at_log ix log) (inspect_container sys name)"
  unfolding inspect_container_def by (intro keeps_bind quiet_rules) (auto simp: keeps_def split: inspect_answer.split)

lemma quiet_podman [quiet_rules]: "keeps (at_log ix log) (podman sys args)"
  unfolding podman_def by (intro keeps_bind quiet_rules keeps_if keeps_ret keeps_raise)

lemma quiet_podman_unchecked [quiet_rules]: "keeps (at_log ix log) (podman_unchecked sys args)"
  unfolding podman_unchecked_def by (intro keeps_bind quiet_rules) (auto simp: keeps_def split: option.split)

lemma quiet_require_owned [quiet_rules]: "keeps (at_log ix log) (require_owned info)"
  unfolding require_owned_def by (intro keeps_if keeps_ret keeps_raise)

lemma quiet_check_running [quiet_rules]: "keeps (at_log ix log) (check_running sys container)"
  unfolding check_running_def by (intro keeps_bind quiet_rules) (auto simp: keeps_def split: option.split)

lemma quiet_pause [quiet_rules]: "keeps (at_log ix log) (pause sys)"
  unfolding pause_def by (intro keeps_bind quiet_rules keeps_if keeps_ret keeps_raise)

lemma quiet_scrape [quiet_rules]: "keeps (at_log ix log) (scrape_totals sys)"
  unfolding scrape_totals_def
  by (intro keeps_bind quiet_rules) (auto simp: keeps_def bindP_def split: option.split sum.split)

lemma quiet_remove_old [quiet_rules]: "keeps (at_log ix log) (remove_old_replay sys replay)"
  unfolding remove_old_replay_def
  by (intro keeps_bind quiet_rules) (auto intro!: keeps_then keeps_ret quiet_rules split: option.split)

lemma quiet_running_stack [quiet_rules]: "keeps (at_log ix log) (running_stack sys)"
  unfolding running_stack_def
  by (intro keeps_bind keeps_getP)
    (auto intro!: keeps_bind keeps_then keeps_ret keeps_raise quiet_rules split: option.split)

lemmas quiet_hoare = quiet_rules [unfolded keeps_hoare]

lemma hoare_note_event: "hoare (at_log ix log) (note_event e) (\<lambda>_. at_log ix (log @ [e])) E"
  by (simp add: hoare_def note_event_def at_log_def)

text \<open>The scrapes since \<open>log\<close>, the last \<open>streak\<close> of them confirming.\<close>

definition trail ::
  "(string \<times> 'n import_entry) list option \<Rightarrow> 'n::{linorder, zero} ci_event list \<Rightarrow> (string \<times> bool) list \<Rightarrow> nat \<Rightarrow> ('n, 'w) ci_state \<Rightarrow> bool" where
  "trail ix log needed streak st \<longleftrightarrow> (\<exists>ss. at_log ix (log @ map Scraped ss) st \<and>
     (streak = 0 \<or> streak = 1 \<and> (\<exists>ss' t. ss = ss' @ [Some t] \<and> exporter_ack_ok t needed)))"

definition scraped_only :: "(string \<times> 'n import_entry) list option \<Rightarrow> 'n ci_event list \<Rightarrow> ('n, 'w) ci_state \<Rightarrow> bool" where
  "scraped_only ix log st \<longleftrightarrow> (\<exists>ss. at_log ix (log @ map Scraped ss) st)"

definition acknowledged ::
  "(string \<times> 'n import_entry) list option \<Rightarrow> 'n::{linorder, zero} ci_event list \<Rightarrow> (string \<times> bool) list \<Rightarrow> ('n, 'w) ci_state \<Rightarrow> bool" where
  "acknowledged ix log needed st \<longleftrightarrow> (\<exists>ss t1 t2. exporter_ack_ok t1 needed \<and> exporter_ack_ok t2 needed \<and>
     at_log ix (log @ map Scraped (ss @ [Some t1, Some t2])) st)"

lemma trail_scraped: "trail ix log needed streak st \<Longrightarrow> scraped_only ix log st"
  unfolding trail_def scraped_only_def by blast

lemma trail_start: "at_log ix log st \<Longrightarrow> trail ix log needed 0 st"
  unfolding trail_def by (intro exI [of _ "[]"]) simp

lemma trail_zeroI: "at_log ix (log @ map Scraped ss) st \<Longrightarrow> trail ix log needed 0 st"
  unfolding trail_def by blast

lemma trail_oneI: "at_log ix (log @ map Scraped (ss @ [Some u])) st \<Longrightarrow> exporter_ack_ok u needed \<Longrightarrow> trail ix log needed (Suc 0) st"
  unfolding trail_def One_nat_def [symmetric] by blast

lemma acknowledgedI:
  "at_log ix (log @ map Scraped (ss @ [Some t1, Some t2])) st \<Longrightarrow> exporter_ack_ok t1 needed \<Longrightarrow> exporter_ack_ok t2 needed \<Longrightarrow>
   acknowledged ix log needed st"
  unfolding acknowledged_def by blast

lemma keeps_trail: "(\<And>ix log. keeps (at_log ix log) m) \<Longrightarrow> keeps (trail ix log needed streak) m"
  unfolding keeps_def trail_def by blast

lemma hoare_quiet_trail:
  "(\<And>ix log. keeps (at_log ix log) m) \<Longrightarrow>
   hoare (trail ix log needed streak) m (\<lambda>_. trail ix log needed streak) (\<lambda>_. scraped_only ix log)"
  by (rule hoare_conseq [OF keeps_trail [unfolded keeps_hoare]]) (auto intro: trail_scraped simp: keeps_hoare)

lemma hoare_poll_ack:
  "hoare (trail ix log needed streak) (poll_ack sys needed container streak)
     (\<lambda>r st. case r of Inl totals \<Rightarrow> acknowledged ix log needed st | Inr n \<Rightarrow> trail ix log needed n st)
     (\<lambda>_. scraped_only ix log)"
proof -
  let ?T = "trail ix log needed streak" and ?E = "\<lambda>_. scraped_only ix log"
  have step: "hoare ?T (note_event (Scraped totals)) (\<lambda>_ st.
      if 2 \<le> confirmations needed totals streak then acknowledged ix log needed st
      else trail ix log needed (confirmations needed totals streak) st) ?E" for totals
  proof -
    have after: "if 2 \<le> confirmations needed totals streak then acknowledged ix log needed t
        else trail ix log needed (confirmations needed totals streak) t"
      if tr: "trail ix log needed streak s" and at: "at_log ix (ci_log s @ [Scraped totals]) t" for s t
    proof -
      obtain ss where ss: "ci_log s = log @ map Scraped ss" "streak = 0 \<or> streak = 1 \<and> (\<exists>ss' t. ss = ss' @ [Some t] \<and> exporter_ack_ok t needed)"
        using tr unfolding trail_def at_log_def by blast
      then have t: "at_log ix (log @ map Scraped (ss @ [totals])) t" using at by simp
      show ?thesis
      proof (cases "\<exists>u. totals = Some u \<and> exporter_ack_ok u needed")
        case False
        then have "confirmations needed totals streak = 0" by (auto simp: confirmations_def split: option.split)
        with trail_zeroI [OF t] show ?thesis by simp
      next
        case True
        then obtain u where u: "totals = Some u" "exporter_ack_ok u needed" by blast
        then have n: "confirmations needed totals streak = Suc streak" by (simp add: confirmations_def)
        show ?thesis
        proof (cases "streak = 0")
          case True
          with trail_oneI [OF t [unfolded u(1)] u(2)] u n show ?thesis by simp
        next
          case False
          then obtain ss' t1 where "ss = ss' @ [Some t1]" "exporter_ack_ok t1 needed" "streak = 1" using ss(2) by blast
          with acknowledgedI [of ix log ss' t1 u t needed] t u n show ?thesis by simp
        qed
      qed
    qed
    show ?thesis
      unfolding note_event_def
    proof (rule hoare_weaken [OF hoare_modP], goal_cases)
      case (1 s)
      then have "at_log ix (ci_log s @ [Scraped totals]) (s\<lparr>ci_log := ci_log s @ [Scraped totals]\<rparr>)"
        by (auto simp: trail_def at_log_def)
      from after [OF 1 this] show ?case .
    qed
  qed
  have finish: "hoare (\<lambda>st. if 2 \<le> confirmations needed totals streak then acknowledged ix log needed st
      else trail ix log needed (confirmations needed totals streak) st)
     (if 2 \<le> confirmations needed totals streak then ret (Inl (case totals of None \<Rightarrow> [] | Some t \<Rightarrow> t))
        else thenP (pause sys) (ret (Inr (confirmations needed totals streak))))
     (\<lambda>r st. case r of Inl totals \<Rightarrow> acknowledged ix log needed st | Inr n \<Rightarrow> trail ix log needed n st) ?E" for totals
  proof (rule hoare_if)
    assume "\<not> 2 \<le> confirmations needed totals streak"
    moreover have "hoare (trail ix log needed n) (thenP (pause sys) (ret (Inr n)))
       (\<lambda>r st. case r of Inl totals \<Rightarrow> acknowledged ix log needed st | Inr n \<Rightarrow> trail ix log needed n st) ?E" for n
      by (rule hoare_then [OF hoare_quiet_trail [OF quiet_pause]]) (simp add: hoare_def)
    ultimately show "hoare (\<lambda>st. if 2 \<le> confirmations needed totals streak then acknowledged ix log needed st
        else trail ix log needed (confirmations needed totals streak) st)
       (thenP (pause sys) (ret (Inr (confirmations needed totals streak))))
       (\<lambda>r st. case r of Inl totals \<Rightarrow> acknowledged ix log needed st | Inr n \<Rightarrow> trail ix log needed n st) ?E" by simp
  qed (simp add: hoare_def)
  show ?thesis
    unfolding poll_ack_def
    by (intro hoare_then [OF hoare_quiet_trail [OF quiet_check_running]] hoare_bind [OF hoare_quiet_trail [OF quiet_scrape]] hoare_then [OF step] finish)
qed

lemma hoare_wait_loop:
  "hoare (trail ix log needed streak) (wait_loop fuel sys needed container deadline streak)
     (\<lambda>_. acknowledged ix log needed) (\<lambda>_. scraped_only ix log)"
proof (induction fuel arbitrary: streak)
  case 0
  then show ?case by (auto simp: hoare_def intro: trail_scraped)
next
  case (Suc fuel)
  have next_turn: "hoare (\<lambda>st. case r of Inl totals \<Rightarrow> acknowledged ix log needed st | Inr n \<Rightarrow> trail ix log needed n st)
      (case r of Inl totals \<Rightarrow> ret totals | Inr n \<Rightarrow> wait_loop fuel sys needed container deadline n)
      (\<lambda>_. acknowledged ix log needed) (\<lambda>_. scraped_only ix log)" for r
    using Suc by (cases r) (auto simp: hoare_def)
  have "hoare (trail ix log needed streak) (bindP (poll_ack sys needed container streak) (\<lambda>r. case r of
         Inl totals \<Rightarrow> ret totals | Inr n \<Rightarrow> wait_loop fuel sys needed container deadline n))
      (\<lambda>_. acknowledged ix log needed) (\<lambda>_. scraped_only ix log)"
    by (rule hoare_bind [OF hoare_poll_ack next_turn])
  then show ?case
    unfolding wait_loop.simps
    by (intro hoare_bind [OF hoare_quiet_trail [OF quiet_ask]] hoare_if) (auto intro: trail_scraped simp: hoare_def)
qed

lemma hoare_wait:
  "hoare (at_log ix log) (wait_for_exporter_ack fuel sys needed timeout container)
     (\<lambda>_. acknowledged ix log needed) (\<lambda>_. scraped_only ix log)"
  unfolding wait_for_exporter_ack_def
  by (rule hoare_weaken [OF hoare_bind [OF hoare_quiet_trail [OF quiet_ask] hoare_wait_loop]]) (rule trail_start)

section \<open>What is replayed, and what is recorded\<close>

text \<open>
  \<open>import_ok lib known log e\<close>: what the log says before an event, when \<open>known\<close> are the digests in the index at the beginning.
\<close>

fun import_ok :: "cap_lib \<Rightarrow> string set \<Rightarrow> 'n::{linorder, zero} ci_event list \<Rightarrow> 'n ci_event \<Rightarrow> bool" where
  "import_ok lib known log (Replay_started d) = (d \<notin> known \<and> (\<forall>s. Recorded d s \<notin> set log))"
| "import_ok lib known log (Recorded d Imported) = (\<exists>dir tolerate v ss t1 t2 earlier.
     validate_capture lib dir tolerate = Inr v \<and> v_digest v = d \<and> list_ex snd (needed_signals (v_meta v)) \<and>
     log = earlier @ Replay_started d # map Scraped (ss @ [Some t1, Some t2]) @ [Replay_removed True] \<and>
     exporter_ack_ok t1 (needed_signals (v_meta v)) \<and> exporter_ack_ok t2 (needed_signals (v_meta v)))"
| "import_ok lib known log (Recorded d Incomplete) =
     (\<exists>ss removed earlier. log = earlier @ Replay_started d # map Scraped ss @ [Replay_removed removed])"
| "import_ok lib known log e = True"

definition inv_at ::
  "cap_lib \<Rightarrow> string set \<Rightarrow> (string \<times> 'n import_entry) list option \<Rightarrow> 'n::{linorder, zero} ci_event list \<Rightarrow> bool" where
  "inv_at lib known ix log \<longleftrightarrow> every_event (import_ok lib known) log \<and> (case ix of
       None \<Rightarrow> True
     | Some idx \<Rightarrow> known \<subseteq> dom (map_of idx) \<and> (\<forall>d s. Recorded d s \<in> set log \<longrightarrow> d \<in> dom (map_of idx)))"

definition import_inv :: "cap_lib \<Rightarrow> string set \<Rightarrow> ('n::{linorder, zero}, 'w) ci_state \<Rightarrow> bool" where
  "import_inv lib known st \<longleftrightarrow> inv_at lib known (ci_index st) (ci_log st)"

lemma import_invI: "at_log ix log st \<Longrightarrow> inv_at lib known ix log \<Longrightarrow> import_inv lib known st"
  by (simp add: import_inv_def at_log_def)

lemma inv_at_harmless:
  "inv_at lib known ix log \<Longrightarrow> (case e of Scraped t \<Rightarrow> True | Replay_removed b \<Rightarrow> True | Zip_downloaded r a \<Rightarrow> True | _ \<Rightarrow> False) \<Longrightarrow>
   inv_at lib known ix (log @ [e])"
  by (cases e) (auto simp: inv_at_def split: option.splits)

lemma inv_at_started:
  "inv_at lib known (Some idx) log \<Longrightarrow> map_of idx d = None \<Longrightarrow> inv_at lib known (Some idx) (log @ [Replay_started d])"
  by (auto simp: inv_at_def)

lemma inv_at_scraped: "inv_at lib known ix log \<Longrightarrow> inv_at lib known ix (log @ map Scraped ss)"
proof (induction ss rule: rev_induct)
  case (snoc s ss)
  then show ?case using inv_at_harmless [of lib known ix "log @ map Scraped ss" "Scraped s"] by simp
qed simp

lemma inv_at_recorded:
  "inv_at lib known (Some idx) log \<Longrightarrow> import_ok lib known log (Recorded d s) \<Longrightarrow>
   inv_at lib known (Some (dict_set d entry idx)) (log @ [Recorded d s])"
  by (auto simp: inv_at_def map_of_dict_set)

lemma hoare_record_import:
  assumes "inv_at lib known (Some idx) log" "import_ok lib known log (Recorded d (ie_status entry))"
  shows "hoare (at_log (Some idx) log) (record_import d entry) (\<lambda>_. import_inv lib known) E"
  using inv_at_recorded [OF assms]
  by (auto simp: hoare_def record_import_def load_index_def bindP_def thenP_def note_event_def at_log_def import_inv_def)

text \<open>A quiet step in front of a program.\<close>

lemma hoare_quiet_then:
  assumes "\<And>ix log. keeps (at_log ix log) m" "inv_at lib known ix log"
    and "\<And>x. hoare (at_log ix log) (f x) Q (\<lambda>_. import_inv lib known)"
  shows "hoare (at_log ix log) (bindP m f) Q (\<lambda>_. import_inv lib known)"
  by (rule hoare_bind [OF hoare_conseq [OF assms(1) [unfolded keeps_hoare]] assms(3)])
    (use assms(2) in \<open>auto intro: import_invI\<close>)

lemma hoare_wait_recorded:
  assumes inv: "inv_at lib known (Some idx) (log @ [Replay_started d])"
  shows "hoare (at_log (Some idx) (log @ [Replay_started d])) (wait_recorded fuel sys env meta d)
    (\<lambda>_. acknowledged (Some idx) (log @ [Replay_started d]) (needed_signals meta)) (\<lambda>_. import_inv lib known)"
  unfolding wait_recorded_def
proof (rule hoare_catch [OF hoare_wait])
  fix e
  let ?Q = "\<lambda>_. acknowledged (Some idx) (log @ [Replay_started d]) (needed_signals meta)"
  have rec: "hoare (at_log (Some idx) (log @ [Replay_started d] @ map Scraped ss))
      (bindP (podman_unchecked sys [''rm'', ''-f'', ev_replay env]) (\<lambda>ok. thenP (note_event (Replay_removed ok))
            (thenP (record_import d (base_entry meta)) (raise e)))) ?Q (\<lambda>_. import_inv lib known)" for ss
  proof (rule hoare_quiet_then [OF quiet_podman_unchecked])
    show scraped: "inv_at lib known (Some idx) (log @ [Replay_started d] @ map Scraped ss)" using inv_at_scraped [OF inv] by simp
    fix ok
    let ?log = "(log @ [Replay_started d] @ map Scraped ss) @ [Replay_removed ok]"
    have "hoare (at_log (Some idx) ?log) (record_import d (base_entry meta)) (\<lambda>_. import_inv lib known) (\<lambda>_. import_inv lib known)"
      by (rule hoare_record_import) (use inv_at_harmless [OF scraped, of "Replay_removed ok"] in \<open>auto simp: base_entry_def\<close>)
    then show "hoare (at_log (Some idx) (log @ [Replay_started d] @ map Scraped ss)) (thenP (note_event (Replay_removed ok))
            (thenP (record_import d (base_entry meta)) (raise e))) ?Q (\<lambda>_. import_inv lib known)"
      by (intro hoare_then [OF hoare_note_event]) (rule hoare_then, assumption, simp add: hoare_def)
  qed
  then show "hoare (scraped_only (Some idx) (log @ [Replay_started d]))
      (if e \<in> {Interrupted, Refused, Backend_down}
          then bindP (podman_unchecked sys [''rm'', ''-f'', ev_replay env]) (\<lambda>ok. thenP (note_event (Replay_removed ok))
            (thenP (record_import d (base_entry meta)) (raise e)))
          else raise e) ?Q (\<lambda>_. import_inv lib known)"
    unfolding scraped_only_def
  proof (intro hoare_ex hoare_if)
    fix ss
    show "hoare (at_log (Some idx) ((log @ [Replay_started d]) @ map Scraped ss)) (raise e) ?Q (\<lambda>_. import_inv lib known)"
      by (rule hoare_weaken [OF hoare_raise]) (rule import_invI [OF _ inv_at_scraped [OF inv]])
  qed (simp only: append_assoc rec)
qed


lemma hoare_finish_import:
  fixes sys :: "('n::{linorder, plus, zero}, 'w) ci_sys"
  assumes inv: "inv_at lib known (Some idx) (log @ [Replay_started (v_digest v)])"
    and v: "validate_capture lib dir tolerate = Inr v" "list_ex snd (needed_signals (v_meta v))"
  shows "hoare (acknowledged (Some idx) (log @ [Replay_started (v_digest v)]) (needed_signals (v_meta v)))
    (finish_import sys env container v totals) (\<lambda>_. import_inv lib known) (\<lambda>_. import_inv lib known)"
  unfolding acknowledged_def
proof (intro hoare_ex hoare_pure)
  fix ss and t1 t2 :: "(string \<times> 'n) list"
  assume ack: "exporter_ack_ok t1 (needed_signals (v_meta v))" "exporter_ack_ok t2 (needed_signals (v_meta v))"
  let ?log = "(log @ [Replay_started (v_digest v)]) @ map Scraped (ss @ [Some t1, Some t2])"
  have scraped: "inv_at lib known (Some idx) ?log" by (rule inv_at_scraped [OF inv])
  note removed = inv_at_harmless [OF scraped, of "Replay_removed True", simplified]
  have ok: "import_ok lib known (?log @ [Replay_removed True]) (Recorded (v_digest v) Imported)"
    using v ack by (simp only: import_ok.simps append.assoc append.simps) blast
  show "hoare (at_log (Some idx) ?log) (finish_import sys env container v totals) (\<lambda>_. import_inv lib known) (\<lambda>_. import_inv lib known)"
    unfolding finish_import_def thenP_def
  proof (intro hoare_quiet_then [OF quiet_podman scraped] hoare_bind [OF hoare_note_event] hoare_quiet_then [OF quiet_podman_unchecked])
    show "inv_at lib known (Some idx) (?log @ [Replay_removed True])" using removed by simp
    show "hoare (at_log (Some idx) (?log @ [Replay_removed True])) (bindP (record_import (v_digest v) ((base_entry (v_meta v))\<lparr>ie_status := Imported,
          ie_counts := signal_counts (needed_signals (v_meta v)) totals, ie_flushed := flushed, ie_modified := v_modified v\<rparr>))
        (\<lambda>_. ret \<lparr>ir_new = True, ir_digest = v_digest v, ir_modified = v_modified v\<rparr>)) (\<lambda>_. import_inv lib known) (\<lambda>_. import_inv lib known)" for flushed
    proof (rule hoare_bind)
      show "hoare (at_log (Some idx) (?log @ [Replay_removed True])) (record_import (v_digest v) ((base_entry (v_meta v))\<lparr>ie_status := Imported,
          ie_counts := signal_counts (needed_signals (v_meta v)) totals, ie_flushed := flushed, ie_modified := v_modified v\<rparr>))
        (\<lambda>_. import_inv lib known) (\<lambda>_. import_inv lib known)"
        by (rule hoare_record_import) (use removed ok in simp_all)
    qed (rule hoare_ret)
  qed
qed

lemma hoare_start_replay:
  assumes inv: "inv_at lib known (Some idx) log" and new: "map_of idx digest = None"
  shows "hoare (at_log (Some idx) log) (start_replay sys env dir digest)
    (\<lambda>_. at_log (Some idx) (log @ [Replay_started digest])) (\<lambda>_. import_inv lib known)"
  unfolding start_replay_def thenP_def
  by (intro hoare_quiet_then [OF quiet_remove_old inv] hoare_quiet_then [OF quiet_podman inv] hoare_note_event)

text \<open>
  The invariant of everything that idx.
\<close>

lemma keeps_import_capture:
  fixes sys :: "('n::{linorder, plus, zero}, 'w) ci_sys"
  shows "keeps (import_inv lib known) (import_capture fuel lib sys env dir tolerate)"
proof (rule keepsI)
  fix st :: "('n, 'w) ci_state" assume inv: "import_inv lib known st"
  show "import_inv lib known (snd (import_capture fuel lib sys env dir tolerate st))"
  proof (cases "\<exists>v idx. validate_capture lib dir tolerate = Inr v \<and> ci_index st = Some idx \<and>
      map_of idx (v_digest v) = None \<and> list_ex snd (needed_signals (v_meta v))")
    case False
    then have "snd (import_capture fuel lib sys env dir tolerate st) = st"
      by (cases "validate_capture lib dir tolerate"; cases "ci_index st")
        (auto simp: import_capture_def load_index_def bindP_def split: option.split import_status.split)
    with inv show ?thesis by simp
  next
    case True
    then obtain v idx where v: "validate_capture lib dir tolerate = Inr v" "ci_index st = Some idx"
      "map_of idx (v_digest v) = None" "list_ex snd (needed_signals (v_meta v))" by blast
    let ?log = "ci_log st"
    have at: "at_log (Some idx) ?log st" and inv': "inv_at lib known (Some idx) ?log"
      using inv v(2) by (simp_all add: at_log_def import_inv_def)
    have started: "inv_at lib known (Some idx) (?log @ [Replay_started (v_digest v)])" by (rule inv_at_started [OF inv' v(3)])
    have "hoare (at_log (Some idx) ?log)
       (bindP (running_stack sys) (\<lambda>container. if \<not> ev_config env then raise Refused
         else thenP (start_replay sys env dir (v_digest v))
          (bindP (wait_recorded fuel sys env (v_meta v) (v_digest v)) (finish_import sys env container v))))
       (\<lambda>_. import_inv lib known) (\<lambda>_. import_inv lib known)"
    proof (intro hoare_quiet_then [OF quiet_running_stack inv'] hoare_if)
      show "hoare (at_log (Some idx) ?log) (raise Refused) (\<lambda>_. import_inv lib known) (\<lambda>_. import_inv lib known)"
        by (rule hoare_weaken [OF hoare_raise]) (rule import_invI [OF _ inv'])
      show "hoare (at_log (Some idx) ?log) (thenP (start_replay sys env dir (v_digest v))
          (bindP (wait_recorded fuel sys env (v_meta v) (v_digest v)) (finish_import sys env container v)))
         (\<lambda>_. import_inv lib known) (\<lambda>_. import_inv lib known)" for container
        by (intro hoare_then [OF hoare_start_replay [OF inv' v(3)]] hoare_bind [OF hoare_wait_recorded [OF started]]
            hoare_finish_import [OF started v(1,4)])
    qed
    from hoareD_any [OF this at] show ?thesis
      using v by (simp add: import_capture_def load_index_def bindP_def)
  qed
qed

section \<open>Imports are acknowledged, and made once\<close>

definition known_digests :: "('n, 'w) ci_state \<Rightarrow> string set" where
  "known_digests st = (case ci_index st of None \<Rightarrow> {} | Some imports \<Rightarrow> fst ` set imports)"

lemma import_inv_start: "import_inv lib (known_digests st) (st\<lparr>ci_log := []\<rparr>)"
  by (auto simp: import_inv_def inv_at_def known_digests_def dom_map_of_conv_image_fst split: option.split)

lemma import_inv_log: "import_inv lib known st \<Longrightarrow> every_event (import_ok lib known) (ci_log st)"
  by (simp add: import_inv_def inv_at_def)

lemma keeps_resolve: "keeps I (resolve_capture_dir dir capture_id)"
  unfolding resolve_capture_dir_def
  by (auto simp: keeps_def bindP_def split: option.split)

lemma keeps_cmd_import: "keeps (import_inv lib known) (cmd_import fuel lib sys env dir capture_id)"
  unfolding cmd_import_def
  by (intro keeps_bind keeps_resolve keeps_catch keeps_import_capture keeps_ret keeps_if keeps_raise)

text \<open>
  Whatever podman, the collector and the clock do, the import command starts the replay of a capture only when its digest has
  no record in the index, neither from before nor from this run; and it records a capture as imported only after a replay of that digest whose
  last two readings of the counters both confirm every signal that the capture's metadata declares as not empty: something sent, as much as was
  accepted, nothing refused and nothing failed.
\<close>

theorem imports_are_acknowledged:
  "every_event (import_ok lib (known_digests st)) (ci_log (snd (cmd_import fuel lib sys env dir capture_id (st\<lparr>ci_log := []\<rparr>))))"
  by (rule import_inv_log [OF keepsD [OF keeps_cmd_import import_inv_start]])

section \<open>The wait ends\<close>

text \<open>\<open>tm\<close> is the clock of a world: no call turns it back, and a pause takes two seconds.\<close>

definition clock_ok :: "('n, 'w) ci_sys \<Rightarrow> ('w \<Rightarrow> int) \<Rightarrow> bool" where
  "clock_ok sys tm \<longleftrightarrow> (\<forall>w. fst (sy_clock sys w) = tm w \<and> tm w \<le> tm (snd (sy_clock sys w))) \<and>
     (\<forall>w name. tm w \<le> tm (snd (sy_inspect sys w name))) \<and> (\<forall>w. tm w \<le> tm (snd (sy_http sys w))) \<and>
     (\<forall>w. tm w + 2 \<le> tm (snd (sy_sleep sys w)))"

definition since :: "('w \<Rightarrow> int) \<Rightarrow> int \<Rightarrow> ('n, 'w) ci_state \<Rightarrow> bool" where
  "since tm t st \<longleftrightarrow> t \<le> tm (ci_world st)"

lemma raises_ask [raises_rules]: "raises X (ask f)"
  by (auto simp: raises_def ask_def split: prod.split)

lemma raises_note_event [raises_rules]: "raises X (note_event e)"
  unfolding note_event_def by (rule raises_modP)

lemma raises_inspect [raises_rules]: "{Refused, Crash} \<subseteq> X \<Longrightarrow> raises X (inspect_container sys name)"
  unfolding inspect_container_def
  by (intro raises_rules) (auto simp: raises_def split: inspect_answer.splits)

lemma add_sample_Inl: "add_sample fl totals line = Inl e \<Longrightarrow> e = Crash"
  by (auto simp: add_sample_def Let_def split: option.splits)

lemma foldE_raised: "foldE f b xs = Inl e \<Longrightarrow> (\<And>b x. f b x = Inl e \<Longrightarrow> P) \<Longrightarrow> P"
  by (induction xs arbitrary: b) (auto simp: bindE_def split: sum.splits)

lemma raises_scrape [raises_rules]: "{Refused, Crash} \<subseteq> X \<Longrightarrow> raises X (scrape_totals sys)"
  unfolding scrape_totals_def
  by (intro raises_rules)
    (auto intro!: raises_rules split: option.split dest: add_sample_Inl elim!: foldE_raised)

lemma raises_poll: "{Refused, Crash, Interrupted} \<subseteq> X \<Longrightarrow> raises X (poll_ack sys needed container streak)"
  unfolding poll_ack_def check_running_def pause_def
  by (intro raises_rules) (auto intro!: raises_rules split: option.split)

lemma since_ask: "(\<And>w. tm w \<le> tm (snd (f w))) \<Longrightarrow> keeps (since tm t) (ask f)"
  by (auto simp: keeps_def since_def ask_def split: prod.split) (metis order_trans snd_conv)

lemma since_note: "keeps (since tm t) (note_event e)"
  by (simp add: keeps_def since_def note_event_def)

lemma since_check_running: "clock_ok sys tm \<Longrightarrow> keeps (since tm t) (check_running sys container)"
  unfolding check_running_def inspect_container_def
  by (intro keeps_bind since_ask) (auto simp: clock_ok_def keeps_def split: inspect_answer.split option.split)

lemma since_scrape: "clock_ok sys tm \<Longrightarrow> keeps (since tm t) (scrape_totals sys)"
  unfolding scrape_totals_def
  by (intro keeps_bind since_ask) (auto simp: clock_ok_def keeps_def bindP_def split: option.split sum.split)

lemma hoare_pause: "clock_ok sys tm \<Longrightarrow> hoare (since tm t) (pause sys) (\<lambda>_. since tm (t + 2)) (\<lambda>e _. e \<noteq> Out_of_fuel)"
  unfolding pause_def
  by (rule hoare_bind [where R = "\<lambda>_. since tm (t + 2)"])
    (auto simp: hoare_def ask_def since_def clock_ok_def split: prod.split, metis add.commute add_left_mono order_trans snd_conv)

lemma hoare_since:
  assumes "keeps (since tm t) m" "raises {Refused, Crash} m"
  shows "hoare (since tm t) m (\<lambda>_. since tm t) (\<lambda>e _. e \<noteq> Out_of_fuel)"
  by (rule hoareI) (use keepsD [OF assms(1)] raisesD [OF assms(2)] in \<open>fastforce+\<close>)

lemma hoare_poll_time:
  assumes "clock_ok sys tm"
  shows "hoare (since tm t) (poll_ack sys needed container streak)
    (\<lambda>r st. case r of Inl totals \<Rightarrow> True | Inr n \<Rightarrow> since tm (t + 2) st) (\<lambda>e _. e \<noteq> Out_of_fuel)"
proof -
  have check: "hoare (since tm t) (check_running sys container) (\<lambda>_. since tm t) (\<lambda>e _. e \<noteq> Out_of_fuel)"
    by (rule hoare_since [OF since_check_running [OF assms]])
      (auto intro!: raises_rules simp: check_running_def split: option.split)
  have scrape: "hoare (since tm t) (scrape_totals sys) (\<lambda>_. since tm t) (\<lambda>e _. e \<noteq> Out_of_fuel)"
    by (rule hoare_since [OF since_scrape [OF assms]]) (rule raises_scrape, simp)
  have noted: "hoare (since tm t) (note_event e) (\<lambda>_. since tm t) (\<lambda>e _. e \<noteq> Out_of_fuel)" for e
    by (rule hoare_since [OF since_note]) (rule raises_note_event)
  have finish: "hoare (since tm t) (if 2 \<le> n then ret (Inl totals) else thenP (pause sys) (ret (Inr n)))
     (\<lambda>r st. case r of Inl totals \<Rightarrow> True | Inr n \<Rightarrow> since tm (t + 2) st) (\<lambda>e _. e \<noteq> Out_of_fuel)" for n totals
    by (intro hoare_if hoare_then [OF hoare_pause [OF assms]]) (simp_all add: hoare_def)
  show ?thesis
    unfolding poll_ack_def by (intro hoare_then [OF check] hoare_bind [OF scrape] hoare_then [OF noted] finish)
qed

lemma hoare_clock:
  "clock_ok sys tm \<Longrightarrow> hoare (since tm t) (ask (sy_clock sys)) (\<lambda>now st. t \<le> now \<and> since tm now st) E"
  by (auto simp: hoare_def ask_def since_def clock_ok_def split: prod.split) (metis fst_conv, metis fst_conv snd_conv)

lemma hoare_wait_ends:
  assumes "clock_ok sys tm"
  shows "deadline \<le> t + 2 * int fuel \<Longrightarrow>
    hoare (since tm t) (wait_loop (Suc fuel) sys needed container deadline streak) (\<lambda>_ _. True) (\<lambda>e _. e \<noteq> Out_of_fuel)"
proof (induction fuel arbitrary: t streak)
  case 0
  then show ?case
    unfolding wait_loop.simps(2)
    by (intro hoare_bind [OF hoare_clock [OF assms]] hoare_if hoare_pure) (simp_all add: hoare_def)
next
  case (Suc fuel)
  have again: "hoare (\<lambda>st. case r of Inl totals \<Rightarrow> True | Inr n \<Rightarrow> since tm (now + 2) st)
      (case r of Inl totals \<Rightarrow> ret totals | Inr n \<Rightarrow> wait_loop (Suc fuel) sys needed container deadline n)
      (\<lambda>_ _. True) (\<lambda>e _. e \<noteq> Out_of_fuel)" if "t \<le> now" for r now
    using Suc.IH [of "now + 2"] Suc.prems that by (cases r) (simp_all add: hoare_def del: wait_loop.simps)
  show ?case
    unfolding wait_loop.simps(2) [of "Suc fuel"]
    by (intro hoare_bind [OF hoare_clock [OF assms]] hoare_pure hoare_if hoare_bind [OF hoare_poll_time [OF assms] again])
      (simp_all add: hoare_def)
qed

lemma raises_wait:
  fixes sys :: "('n::{linorder, plus, zero}, 'w) ci_sys"
  assumes clock: "clock_ok sys tm" and fuel: "timeout \<le> 2 * int fuel"
  shows "raises (- {Out_of_fuel}) (wait_for_exporter_ack (Suc fuel) sys needed timeout container)"
  unfolding raises_def
proof (intro allI impI)
  fix s t :: "('n, 'w) ci_state" and e
  assume run: "wait_for_exporter_ack (Suc fuel) sys needed timeout container s = (Inl e, t)"
  have "hoare (since tm (tm (ci_world s))) (wait_for_exporter_ack (Suc fuel) sys needed timeout container) (\<lambda>_ _. True) (\<lambda>e _. e \<noteq> Out_of_fuel)"
    unfolding wait_for_exporter_ack_def
    by (intro hoare_bind [OF hoare_clock [OF clock]] hoare_pure hoare_wait_ends [OF clock]) (use fuel in simp)
  from hoareD_exn [OF this _ run] show "e \<in> - {Out_of_fuel}" by (simp add: since_def)
qed

lemma raises_podman [raises_rules]: "Refused \<in> X \<Longrightarrow> raises X (podman sys args)"
  unfolding podman_def by (intro raises_rules)

lemma raises_podman_unchecked [raises_rules]: "Refused \<in> X \<Longrightarrow> raises X (podman_unchecked sys args)"
  unfolding podman_unchecked_def by (intro raises_rules) (auto intro: raises_rules split: option.split)

lemma raises_require_owned [raises_rules]: "Refused \<in> X \<Longrightarrow> raises X (require_owned info)"
  unfolding require_owned_def by (intro raises_rules)

lemma raises_record_import [raises_rules]: "Refused \<in> X \<Longrightarrow> raises X (record_import digest entry)"
  unfolding record_import_def load_index_def by (intro raises_rules) (auto intro: raises_rules split: option.split)

lemma raises_running_stack [raises_rules]: "{Refused, Crash, Backend_down} \<subseteq> X \<Longrightarrow> raises X (running_stack sys)"
  unfolding running_stack_def by (intro raises_rules) (auto intro!: raises_rules split: option.split)

lemma raises_start_replay [raises_rules]: "{Refused, Crash} \<subseteq> X \<Longrightarrow> raises X (start_replay sys env dir digest)"
  unfolding start_replay_def remove_old_replay_def by (intro raises_rules) (auto intro!: raises_rules split: option.split)

text \<open>
  Claim C28: on a clock that is not turned back and with pauses of two seconds an import ends: a wait of \<open>timeout\<close> seconds takes at most half
  as many polls and one more, whatever the collector reports.
\<close>

theorem import_wait_ends:
  assumes "clock_ok sys tm" "ev_timeout env \<le> 2 * int fuel"
  shows "fst (import_capture (Suc fuel) lib sys env dir tolerate st) \<noteq> Inl Out_of_fuel"
proof -
  have wait: "raises (- {Out_of_fuel}) (wait_recorded (Suc fuel) sys env meta digest)" for meta digest
    unfolding wait_recorded_def
    by (rule raises_catch [OF raises_wait [OF assms]], intro raises_rules) auto
  have finish: "raises (- {Out_of_fuel}) (finish_import sys env container v totals)" for container v totals
    unfolding finish_import_def by (intro raises_rules) simp_all
  have "raises (- {Out_of_fuel}) (import_capture (Suc fuel) lib sys env dir tolerate)"
    unfolding import_capture_def load_index_def
    by (intro raises_bind raises_liftP raises_getP)
      (auto intro!: raises_rules wait finish split: option.split import_status.split dest: validate_capture_Inl)
  then show ?thesis
    by (cases "import_capture (Suc fuel) lib sys env dir tolerate st") (auto dest: raisesD)
qed

section \<open>An example\<close>

text \<open>A stack that confirms every signal; the removal of the replay container fails as often as the world says.\<close>

definition demo_hash :: string where "demo_hash = replicate 64 (CHR ''a'')"

definition demo_lib :: cap_lib where
  "demo_lib = \<lparr>cl_sha = \<lambda>s. demo_hash, cl_sha_text = \<lambda>s. demo_hash,
     cl_json = \<lambda>s. Value (JObj [(''schema'', JStr CAPTURE_SCHEMA), (''version'', JInt 1), (''state'', JStr ''closed''), (''id'', JStr ''c1''),
       (''files'', JArr [JObj [(''path'', JStr ''logs.jsonl''), (''size_bytes'', JInt 2), (''sha256'', JStr demo_hash)]])]),
     cl_is_one = \<lambda>_. False, cl_zip = \<lambda>_. None\<rparr>"

definition demo_dir :: capture_dir where
  "demo_dir = \<lparr>cd_name = ''c1'', cd_plain = True, cd_nodes = [(''metadata.json'', Regular ''m''), (''logs.jsonl'', Regular ''ab'')]\<rparr>"

definition demo_page :: string where
  "demo_page = ''otelcol_exporter_sent_log_records 1''"

definition demo_sys :: "(int, int \<times> nat) ci_sys" where
  "demo_sys = \<lparr>sy_inspect = \<lambda>w name. (if name = ''stack'' then Container \<lparr>ct_labels = [(OWNED_LABEL, JStr ''true'')], ct_running = True, ct_image = []\<rparr> else No_container, w),
     sy_podman = \<lambda>(t, n) args. (if args = [''rm'', ''-f'', ''replay''] \<and> 0 < n then (Some False, (t, n - 1)) else (Some True, (t, n))),
     sy_http = \<lambda>w. (Some (200, demo_page), w), sy_clock = \<lambda>w. (fst w, w), sy_sleep = \<lambda>(t, n). (False, (t + 2, n)),
     sy_float = \<lambda>s. Some 1\<rparr>"

definition demo_env :: import_env where
  "demo_env = \<lparr>ev_config = True, ev_timeout = 6, ev_replay = ''replay'', ev_mounts = \<lambda>_ _. []\<rparr>"

definition demo_state :: "nat \<Rightarrow> (int, int \<times> nat) ci_state" where
  "demo_state n = \<lparr>ci_world = (0, n), ci_log = [], ci_index = Some [], ci_stack = Some \<lparr>sk_container = ''stack''\<rparr>,
     ci_captures = [], ci_zips = [], ci_records = [], ci_marks = []\<rparr>"

lemma demo_clock: "clock_ok demo_sys fst"
  by (simp add: clock_ok_def demo_sys_def split_beta)

theorem import_wait_ends_witness:
  "fst (import_capture (Suc 3) demo_lib demo_sys demo_env demo_dir False (demo_state 0)) \<noteq> Inl Out_of_fuel"
  by (rule import_wait_ends [OF demo_clock]) (simp add: demo_env_def)

lemma demo_import:
  "map_option (map (ie_status \<circ> snd)) (ci_index (snd (import_capture 4 demo_lib demo_sys demo_env demo_dir False (demo_state 0)))) = Some [Imported]"
  by code_simp

text \<open>
  A confirmed delivery whose container cannot be removed leaves no record, and the next import of the same capture delivers it again.
\<close>

definition replays :: "'n ci_event list \<Rightarrow> nat" where
  "replays log = length (filter (\<lambda>e. case e of Replay_started d \<Rightarrow> True | _ \<Rightarrow> False) log)"

lemma confirmed_delivery_is_repeated:
  "let st1 = snd (import_capture 4 demo_lib demo_sys demo_env demo_dir False (demo_state 1));
       st2 = snd (import_capture 4 demo_lib demo_sys demo_env demo_dir False st1)
   in map_option (map fst) (ci_index st1) = Some [] \<and> length (ci_log st1) = 3 \<and>
      map_option (map (ie_status \<circ> snd)) (ci_index st2) = Some [Imported] \<and> replays (ci_log st2) = 2"
  by code_simp

end
