(* ===== verification/CaptureSync.thy ===== *)
theory CaptureSync
  imports CaptureImport RegexFacts "HOL-Library.Product_Lexorder"
begin

text \<open>
  \<^verbatim>\<open>ci-observe.py sync\<close>: fetching the telemetry artifacts of recent workflow runs and importing each capture once.

  The \<open>gh\<close> tool answers over the same world as podman. A listing fails (an error, or no JSON) or is a value; a download fails or is bytes.
  The state that the program keeps per run and attempt is in \<open>ci_zips\<close>, \<open>ci_records\<close> and \<open>ci_marks\<close>; run ids and attempts are numbers, a run whose
  attempt is another value has no such state. Points in time are microseconds. The listing of artifacts takes fuel, one unit per page.
\<close>

section \<open>Runs and artifacts\<close>

record 'w gh_sys =
  gs_json :: "'w \<Rightarrow> string list \<Rightarrow> json option \<times> 'w"
  gs_zip :: "'w \<Rightarrow> string \<Rightarrow> int \<Rightarrow> string option \<times> 'w"
  gs_pause :: "'w \<Rightarrow> bool \<times> 'w"
  gs_now :: "'w \<Rightarrow> int \<times> 'w"
  gs_time :: "string \<Rightarrow> int option"             \<comment> \<open>\<open>parse_utc\<close> of a text\<close>
  gs_date :: "int \<Rightarrow> string"
  gs_is_zip :: "string \<Rightarrow> bool"

definition gh_json :: "'w gh_sys \<Rightarrow> string list \<Rightarrow> ('n, 'w, json) ci" where
  "gh_json gh args = bindP (ask (\<lambda>w. gs_json gh w args)) (\<lambda>r. case r of None \<Rightarrow> raise Refused | Some j \<Rightarrow> ret j)"

definition ARTIFACT_NAME_PREFIX :: string where "ARTIFACT_NAME_PREFIX = ''ci-observe-''"

definition ARTIFACT_NAME_PATTERNS :: "char rx list" where
  "ARTIFACT_NAME_PATTERNS =
     [Seqs [Lit ''ci-observe-capture-'', Grp 1 (Plus (Cls is_digit)), Lit ''-attempt-'', Grp 2 (Plus (Cls is_digit)), Assert dollar],
      Seqs [Lit ''ci-observe-telemetry-'', Grp 1 (Plus (Cls is_digit)), Lit ''-'', Grp 2 (Plus (Cls is_digit)), Assert dollar]]"

definition name_char :: "char \<Rightarrow> bool" where
  "name_char c \<longleftrightarrow> is_alnum c \<or> c \<in> set ''._-''"

definition CAPTURE_ID_RE :: "char rx" where
  "CAPTURE_ID_RE = Seqs [Cls is_alnum, Star (Cls name_char), Assert dollar]"

definition SYNC_SINCE_HOURS :: "(string \<times> int) list" where
  "SYNC_SINCE_HOURS = [(''6h'', 6), (''12h'', 12), (''24h'', 24), (''2d'', 48), (''7d'', 168)]"

definition resolve_since :: "'w gh_sys \<Rightarrow> string \<Rightarrow> ('n, 'w, int \<times> int) ci" where
  "resolve_since gh raw = bindP (ask (gs_now gh)) (\<lambda>until. case map_of SYNC_SINCE_HOURS raw of
       Some hours \<Rightarrow> ret (until - hours * 3600000000, until)
     | None \<Rightarrow> (case gs_time gh raw of
         None \<Rightarrow> raise Refused
       | Some start \<Rightarrow> if until < start then raise Refused else ret (start, until)))"

definition in_window :: "'w gh_sys \<Rightarrow> int \<Rightarrow> (string \<times> json) list \<Rightarrow> bool" where
  "in_window gh start run = (case obj_get run ''createdAt'' of
       JStr s \<Rightarrow> (case gs_time gh s of None \<Rightarrow> False | Some created \<Rightarrow> start \<le> created)
     | _ \<Rightarrow> False)"

definition objects :: "json list \<Rightarrow> (string \<times> json) list list" where
  "objects js = List.map_filter (\<lambda>j. case j of JObj kvs \<Rightarrow> Some kvs | _ \<Rightarrow> None) js"

definition list_workflow_runs :: "'w gh_sys \<Rightarrow> string \<Rightarrow> int \<Rightarrow> ('n, 'w, (string \<times> json) list list) ci" where
  "list_workflow_runs gh repository start = bindP (gh_json gh [''run'', ''list'', ''--repo'', repository,
       ''--created'', ''>'' @ gs_date gh (start - 86400000000), ''--limit'', ''1000'', ''--json'', ''databaseId,attempt,status,conclusion,createdAt''])
     (\<lambda>data. case data of JArr runs \<Rightarrow> ret (filter (in_window gh start) (objects runs)) | _ \<Rightarrow> raise Refused)"

definition page_args :: "string \<Rightarrow> int \<Rightarrow> nat \<Rightarrow> string list" where
  "page_args repository run_id page = [''api'', ''repos/'' @ repository @ ''/actions/runs/'' @ show_int run_id @
     ''/artifacts?per_page=100&page='' @ show_nat page]"

definition try_page :: "'w gh_sys \<Rightarrow> string list \<Rightarrow> ('n, 'w, (string \<times> json) list list) ci" where
  "try_page gh args = bindP (gh_json gh args) (\<lambda>data. case data of
       JObj kvs \<Rightarrow> (case obj_get kvs ''artifacts'' of JArr as \<Rightarrow> ret (objects as) | _ \<Rightarrow> raise Refused)
     | _ \<Rightarrow> raise Refused)"

fun fetch_page :: "nat \<Rightarrow> 'w gh_sys \<Rightarrow> string list \<Rightarrow> ('n, 'w, (string \<times> json) list list) ci" where
  "fetch_page 0 gh args = raise Refused"
| "fetch_page (Suc remaining) gh args = bindP (catchP (bindP (try_page gh args) (\<lambda>as. ret (Some as)))
       (\<lambda>e. if e = Refused then ret None else raise e)) (\<lambda>r. case r of
       Some as \<Rightarrow> ret as
     | None \<Rightarrow> if remaining = 0 then raise Refused
         else bindP (ask (gs_pause gh)) (\<lambda>stop. if stop then raise Interrupted else fetch_page remaining gh args))"

fun list_pages :: "nat \<Rightarrow> 'w gh_sys \<Rightarrow> string \<Rightarrow> int \<Rightarrow> nat \<Rightarrow> ('n, 'w, (string \<times> json) list list) ci" where
  "list_pages 0 gh repository run_id page = raise Out_of_fuel"
| "list_pages (Suc fuel) gh repository run_id page = bindP (fetch_page 3 gh (page_args repository run_id page)) (\<lambda>as.
     if length as < 100 then ret as
     else bindP (list_pages fuel gh repository run_id (page + 1)) (\<lambda>rest. ret (as @ rest)))"

definition list_run_artifacts :: "nat \<Rightarrow> 'w gh_sys \<Rightarrow> string \<Rightarrow> int \<Rightarrow> ('n, 'w, (string \<times> json) list list) ci" where
  "list_run_artifacts fuel gh repository run_id = bindP (list_pages fuel gh repository run_id 1)
     (\<lambda>as. ret (map (dict_set ''workflow_run'' (JObj [(''id'', JInt run_id)])) as))"

section \<open>Telemetry artifacts\<close>

record telemetry =
  ta_run :: int
  ta_attempt :: int
  ta_id :: json
  ta_name :: string

datatype ignored_reason = No_run_in_name | Other_run | Expired_artifact | Duplicate_artifact

fun match_name :: "char rx list \<Rightarrow> string \<Rightarrow> (int \<times> int) option" where
  "match_name [] name = None"
| "match_name (r # rs) name = (case rx_fullmatch r name of
       Some m \<Rightarrow> Some (int (digits_val (m_group name m 1)), int (digits_val (m_group name m 2)))
     | None \<Rightarrow> match_name rs name)"

definition has_prefix :: "(string \<times> json) list \<Rightarrow> bool" where
  "has_prefix a = (case obj_get a ''name'' of JStr n \<Rightarrow> starts_with ARTIFACT_NAME_PREFIX n | _ \<Rightarrow> False)"

definition workflow_run_id :: "(string \<times> json) list \<Rightarrow> json" where
  "workflow_run_id a = (case obj_get a ''workflow_run'' of JObj kvs \<Rightarrow> obj_get kvs ''id'' | _ \<Rightarrow> JNull)"

text \<open>\<open>Inl\<close>: not this tool's business, or an ignored artifact. \<open>Crash\<close>: an id that is not hashable.\<close>

definition classify ::
  "json list \<Rightarrow> (int \<times> int) list \<Rightarrow> (string \<times> json) list \<Rightarrow> cap_exn + (ignored_reason option + telemetry)" where
  "classify run_ids seen a = (case obj_get a ''name'' of
       JStr name \<Rightarrow> if \<not> starts_with ARTIFACT_NAME_PREFIX name then Inr (Inl None)
         else (case match_name ARTIFACT_NAME_PATTERNS name of
             None \<Rightarrow> Inr (Inl (Some No_run_in_name))
           | Some (run_id, attempt) \<Rightarrow> (let wid = workflow_run_id a in
               bindE (if member (JInt run_id) run_ids then Inr True
                 else (case hashable wid of Inl e \<Rightarrow> Inl Crash | Inr w \<Rightarrow> Inr (member w run_ids))) (\<lambda>known. Inr (
               if \<not> known then Inl None
               else if wid \<noteq> JNull \<and> py_key wid \<noteq> JInt run_id then Inl (Some Other_run)
               else if truthy (obj_get a ''expired'') then Inl (Some Expired_artifact)
               else if (run_id, attempt) \<in> set seen then Inl (Some Duplicate_artifact)
               else Inr \<lparr>ta_run = run_id, ta_attempt = attempt, ta_id = obj_get a ''id'', ta_name = name\<rparr>))))
     | _ \<Rightarrow> Inr (Inl None))"

definition add_classified ::
  "json list \<Rightarrow> telemetry list \<times> ignored_reason list \<Rightarrow> (string \<times> json) list \<Rightarrow> cap_exn + telemetry list \<times> ignored_reason list" where
  "add_classified run_ids acc a = (case acc of (matched, ignored) \<Rightarrow>
     bindE (classify run_ids (map (\<lambda>t. (ta_run t, ta_attempt t)) matched) a) (\<lambda>c. Inr (case c of
       Inl None \<Rightarrow> (matched, ignored) | Inl (Some r) \<Rightarrow> (matched, ignored @ [r]) | Inr t \<Rightarrow> (matched @ [t], ignored))))"

definition find_telemetry_artifacts ::
  "(string \<times> json) list list \<Rightarrow> (string \<times> json) list list \<Rightarrow> cap_exn + telemetry list \<times> ignored_reason list" where
  "find_telemetry_artifacts runs artifacts =
     (case mapE (\<lambda>r. hashable (obj_get r ''databaseId'')) runs of
        Inl e \<Rightarrow> Inl Crash
      | Inr run_ids \<Rightarrow> bindE (foldE (add_classified run_ids) ([], []) artifacts) (\<lambda>(matched, ignored).
          Inr (sort_key (\<lambda>t. (ta_run t, ta_attempt t)) matched, ignored)))"

section \<open>One artifact\<close>

datatype sync_status = Sync_imported | Skipped | Failed | Deferred

record sync_detail =
  sd_status :: sync_status
  sd_downloaded :: bool

abbreviation key_of :: "telemetry \<Rightarrow> int \<times> int" where
  "key_of t \<equiv> (ta_run t, ta_attempt t)"

definition download_artifact :: "'w gh_sys \<Rightarrow> string \<Rightarrow> telemetry \<Rightarrow> ('n, 'w, string) ci" where
  "download_artifact gh repository t = (case ta_id t of
       JInt i \<Rightarrow> bindP (ask (\<lambda>w. gs_zip gh w repository i)) (\<lambda>r. case r of
           None \<Rightarrow> raise Refused
         | Some data \<Rightarrow> if CAPTURE_MAX_BYTES < length data \<or> \<not> gs_is_zip gh data then raise Refused
             else thenP (modP (\<lambda>st. st\<lparr>ci_zips := dict_set (key_of t) data (ci_zips st)\<rparr>))
               (thenP (note_event (Zip_downloaded (ta_run t) (ta_attempt t))) (ret data)))
     | _ \<Rightarrow> raise Refused)"

definition put_record :: "int \<times> int \<Rightarrow> artifact_record \<Rightarrow> ('n, 'w, unit) ci" where
  "put_record k r = modP (\<lambda>st. st\<lparr>ci_records := dict_set k r (ci_records st)\<rparr>)"

definition staged_dir :: "string \<Rightarrow> (string \<times> string) list \<Rightarrow> capture_dir" where
  "staged_dir capture_id files = \<lparr>cd_name = capture_id, cd_plain = True, cd_nodes = map (\<lambda>(rel, content). (rel, Regular content)) files\<rparr>"

text \<open>The capture directory: the one that is there, or the staged files.\<close>

definition place_capture :: "string \<Rightarrow> (string \<times> string) list \<Rightarrow> ('n, 'w, capture_dir) ci" where
  "place_capture capture_id files = bindP (getP (\<lambda>st. map_of (ci_captures st) capture_id)) (\<lambda>old. case old of
       Some dir \<Rightarrow> ret dir
     | None \<Rightarrow> thenP (modP (\<lambda>st. st\<lparr>ci_captures := ci_captures st @ [(capture_id, staged_dir capture_id files)]\<rparr>))
         (ret (staged_dir capture_id files)))"

definition safe_capture_id :: "json \<Rightarrow> ('n, 'w, string) ci" where
  "safe_capture_id j = (case j of
       JStr s \<Rightarrow> if rx_fullmatch CAPTURE_ID_RE s = None then raise Refused else ret s
     | _ \<Rightarrow> raise Refused)"

definition import_artifact ::
  "nat \<Rightarrow> cap_lib \<Rightarrow> ('n::{linorder, plus, zero}, 'w) ci_sys \<Rightarrow> import_env \<Rightarrow> telemetry \<Rightarrow> string \<Rightarrow> ('n, 'w, sync_status) ci" where
  "import_artifact fuel lib sys env t data = (case extract_artifact_zip lib data of (r, files) \<Rightarrow>
     bindP (liftP r) (\<lambda>meta. bindP (safe_capture_id (obj_get meta ''id'')) (\<lambda>capture_id.
     bindP (place_capture capture_id files) (\<lambda>dir. bindP (import_capture fuel lib sys env dir True) (\<lambda>result.
     thenP (put_record (key_of t) (Processed (ir_digest result))) (ret (if ir_new result then Sync_imported else Skipped)))))))"

definition process_artifact ::
  "nat \<Rightarrow> cap_lib \<Rightarrow> ('n::{linorder, plus, zero}, 'w) ci_sys \<Rightarrow> import_env \<Rightarrow> telemetry \<Rightarrow> string \<Rightarrow> ('n, 'w, sync_status) ci" where
  "process_artifact fuel lib sys env t data = catchP (import_artifact fuel lib sys env t data)
     (\<lambda>e. case e of
        Backend_down \<Rightarrow> ret Deferred
      | Refused \<Rightarrow> thenP (put_record (key_of t) Refusal) (ret Failed)
      | _ \<Rightarrow> raise e)"

definition handled_before :: "int \<times> int \<Rightarrow> ('n, 'w, bool) ci" where
  "handled_before k = bindP (getP (\<lambda>st. map_of (ci_records st) k)) (\<lambda>r. case r of
       None \<Rightarrow> ret False
     | Some Refusal \<Rightarrow> ret True
     | Some (Processed digest) \<Rightarrow> bindP load_index (\<lambda>imports. ret (map_option ie_status (map_of imports digest) = Some Imported)))"

definition sync_artifact ::
  "nat \<Rightarrow> cap_lib \<Rightarrow> ('n::{linorder, plus, zero}, 'w) ci_sys \<Rightarrow> 'w gh_sys \<Rightarrow> import_env \<Rightarrow> string \<Rightarrow> bool \<Rightarrow> telemetry \<Rightarrow> ('n, 'w, sync_detail) ci" where
  "sync_artifact fuel lib sys gh env repository can_download t =
     bindP (getP (\<lambda>st. map_of (ci_zips st) (key_of t))) (\<lambda>cached.
     if cached = None \<and> \<not> can_download then ret \<lparr>sd_status = Deferred, sd_downloaded = False\<rparr>
     else bindP (case cached of Some data \<Rightarrow> ret data | None \<Rightarrow> download_artifact gh repository t) (\<lambda>data.
     bindP (handled_before (key_of t)) (\<lambda>handled.
     if handled then ret \<lparr>sd_status = Skipped, sd_downloaded = (cached = None)\<rparr>
     else bindP (process_artifact fuel lib sys env t data) (\<lambda>status. ret \<lparr>sd_status = status, sd_downloaded = (cached = None)\<rparr>))))"

section \<open>One pass\<close>

record sync_report =
  rp_runs :: nat
  rp_artifacts :: nat
  rp_downloaded :: nat
  rp_imported :: nat
  rp_skipped :: nat
  rp_failed :: nat
  rp_ignored :: "ignored_reason list"

definition attempt_of :: "(string \<times> json) list \<Rightarrow> int option" where
  "attempt_of run = (case d_or (obj_get run ''attempt'') (JInt 1) of JInt n \<Rightarrow> Some n | _ \<Rightarrow> None)"

definition seen_before :: "(int \<times> int) option \<Rightarrow> ('n, 'w) ci_state \<Rightarrow> bool" where
  "seen_before k st = (case k of None \<Rightarrow> False | Some k \<Rightarrow> map_of (ci_records st) k \<noteq> None \<or> k \<in> set (ci_marks st))"

definition mark_run :: "(int \<times> int) option \<Rightarrow> ('n, 'w, unit) ci" where
  "mark_run k = modP (\<lambda>st. case k of None \<Rightarrow> st | Some k \<Rightarrow> st\<lparr>ci_marks := k # ci_marks st\<rparr>)"

definition artifacts_of_run ::
  "nat \<Rightarrow> 'w gh_sys \<Rightarrow> string \<Rightarrow> (string \<times> json) list list \<Rightarrow> (string \<times> json) list \<Rightarrow> ('n, 'w, (string \<times> json) list list) ci" where
  "artifacts_of_run fuel gh repository found run = (case obj_get run ''databaseId'' of
       JInt run_id \<Rightarrow>
         let k = map_option (Pair run_id) (attempt_of run) in
         if obj_get run ''status'' \<noteq> JStr ''completed'' then ret found
         else bindP (getP (seen_before k)) (\<lambda>seen. if seen then ret found
         else bindP (list_run_artifacts fuel gh repository run_id) (\<lambda>as.
           if \<not> list_ex has_prefix as then thenP (mark_run k) (ret found) else ret (found @ as)))
     | _ \<Rightarrow> ret found)"

definition count_detail :: "sync_report \<Rightarrow> sync_detail \<Rightarrow> sync_report" where
  "count_detail rp d = (let rp = (if sd_downloaded d then rp\<lparr>rp_downloaded := rp_downloaded rp + 1\<rparr> else rp) in
     case sd_status d of
       Sync_imported \<Rightarrow> rp\<lparr>rp_imported := rp_imported rp + 1\<rparr>
     | Skipped \<Rightarrow> rp\<lparr>rp_skipped := rp_skipped rp + 1\<rparr>
     | Failed \<Rightarrow> rp\<lparr>rp_failed := rp_failed rp + 1\<rparr>
     | Deferred \<Rightarrow> rp)"

definition sync_one ::
  "nat \<Rightarrow> cap_lib \<Rightarrow> ('n::{linorder, plus, zero}, 'w) ci_sys \<Rightarrow> 'w gh_sys \<Rightarrow> import_env \<Rightarrow> string \<Rightarrow> nat \<Rightarrow> sync_report \<Rightarrow> telemetry \<Rightarrow> ('n, 'w, sync_report) ci" where
  "sync_one fuel lib sys gh env repository limit rp t =
     bindP (sync_artifact fuel lib sys gh env repository (rp_downloaded rp < limit) t) (\<lambda>d. ret (count_detail rp d))"

definition sync_iteration ::
  "nat \<Rightarrow> cap_lib \<Rightarrow> ('n::{linorder, plus, zero}, 'w) ci_sys \<Rightarrow> 'w gh_sys \<Rightarrow> import_env \<Rightarrow> string \<Rightarrow> string \<Rightarrow> nat \<Rightarrow> ('n, 'w, sync_report) ci" where
  "sync_iteration fuel lib sys gh env repository start limit =
     bindP (resolve_since gh start) (\<lambda>window. bindP (list_workflow_runs gh repository (fst window)) (\<lambda>runs.
     bindP (foldP (artifacts_of_run fuel gh repository) [] runs) (\<lambda>artifacts.
     bindP (liftP (find_telemetry_artifacts runs artifacts)) (\<lambda>(matched, ignored).
       foldP (sync_one fuel lib sys gh env repository limit)
         \<lparr>rp_runs = length runs, rp_artifacts = length matched, rp_downloaded = 0, rp_imported = 0, rp_skipped = 0, rp_failed = 0, rp_ignored = ignored\<rparr>
         matched))))"

section \<open>What an import leaves alone\<close>

text \<open>
  An import moves the world, writes the index and adds events other than downloads. A predicate that these three keep is kept by every import.
\<close>

locale import_frame =
  fixes I :: "('n::{linorder, plus, zero}, 'w) ci_state \<Rightarrow> bool"
  assumes world: "I st \<Longrightarrow> I (st\<lparr>ci_world := w\<rparr>)"
    and index: "I st \<Longrightarrow> I (st\<lparr>ci_index := ix\<rparr>)"
    and event: "I st \<Longrightarrow> (case e of Zip_downloaded r a \<Rightarrow> False | _ \<Rightarrow> True) \<Longrightarrow> I (st\<lparr>ci_log := ci_log st @ [e]\<rparr>)"
begin

lemma keeps_ask: "keeps I (ask f)"
  by (auto simp: keeps_def ask_def world split: prod.split)

lemma keeps_note: "(case e of Zip_downloaded r a \<Rightarrow> False | _ \<Rightarrow> True) \<Longrightarrow> keeps I (note_event e)"
  by (simp add: keeps_def note_event_def event)

lemma keeps_record: "keeps I (record_import digest entry)"
  unfolding record_import_def load_index_def
  by (intro keeps_bind keeps_getP keeps_then keeps_note) (auto simp: keeps_def index split: option.split)

lemma keeps_inspect: "keeps I (inspect_container sys name)"
  unfolding inspect_container_def by (intro keeps_bind keeps_ask) (auto simp: keeps_def split: inspect_answer.split)

lemma keeps_podman: "keeps I (podman sys args)"
  unfolding podman_def by (intro keeps_bind keeps_ask keeps_if keeps_ret keeps_raise)

lemma keeps_podman_unchecked: "keeps I (podman_unchecked sys args)"
  unfolding podman_unchecked_def by (intro keeps_bind keeps_ask) (auto simp: keeps_def split: option.split)

lemma keeps_owned: "keeps I (require_owned info)"
  unfolding require_owned_def by (intro keeps_if keeps_ret keeps_raise)

lemma keeps_scrape: "keeps I (scrape_totals sys)"
  unfolding scrape_totals_def
  by (intro keeps_bind keeps_ask) (auto intro!: keeps_bind keeps_liftP keeps_ret split: option.split)

lemma keeps_poll_ack: "keeps I (poll_ack sys needed container streak)"
  unfolding poll_ack_def check_running_def pause_def
  by (intro keeps_then keeps_bind keeps_inspect keeps_scrape keeps_note keeps_if keeps_ask keeps_ret keeps_raise)
    (auto simp: keeps_def split: option.split)

lemma keeps_wait_loop: "keeps I (wait_loop fuel sys needed container deadline streak)"
proof (induction fuel arbitrary: streak)
  case (Suc fuel)
  then show ?case
    unfolding wait_loop.simps
    by (intro keeps_bind keeps_ask keeps_if keeps_poll_ack keeps_raise) (auto intro: keeps_ret split: sum.split)
qed (simp add: keeps_raise)

lemma keeps_wait: "keeps I (wait_for_exporter_ack fuel sys needed timeout container)"
  unfolding wait_for_exporter_ack_def by (intro keeps_bind keeps_ask keeps_wait_loop)

lemma keeps_import: "keeps I (import_capture fuel lib sys env dir tolerate)"
proof -
  have stack: "keeps I (running_stack sys)"
    unfolding running_stack_def
    by (intro keeps_bind keeps_getP)
      (auto intro!: keeps_bind keeps_then keeps_ret keeps_raise keeps_inspect keeps_owned split: option.split)
  have start: "keeps I (start_replay sys env dir digest)" for digest
    unfolding start_replay_def remove_old_replay_def
    by (intro keeps_then keeps_bind keeps_inspect keeps_podman keeps_note)
      (auto intro!: keeps_then keeps_ret keeps_owned keeps_podman split: option.split)
  have wait: "keeps I (wait_recorded fuel sys env meta digest)" for meta digest
    unfolding wait_recorded_def
    by (intro keeps_catch keeps_wait keeps_if keeps_bind keeps_podman_unchecked keeps_then keeps_note keeps_record keeps_raise) simp
  have finish: "keeps I (finish_import sys env container v totals)" for container v totals
    unfolding finish_import_def
    by (intro keeps_then keeps_bind keeps_podman keeps_podman_unchecked keeps_note keeps_record keeps_ret) simp
  show ?thesis
    unfolding import_capture_def load_index_def
    by (intro keeps_bind keeps_liftP keeps_getP)
      (auto intro!: keeps_ret keeps_raise keeps_bind keeps_then stack start wait finish split: option.split import_status.split)
qed

end

section \<open>What a pass leaves alone\<close>

text \<open>
  Everything of a pass but the download: it asks, marks runs, records artifacts, places a capture under a checked name, and imports.
\<close>

definition is_capture_id :: "string \<Rightarrow> bool" where
  "is_capture_id s \<longleftrightarrow> rx_fullmatch CAPTURE_ID_RE s \<noteq> None"

locale artifact_frame =
  fixes lib :: cap_lib and I :: "('n::{linorder, plus, zero}, 'w) ci_state \<Rightarrow> bool"
  assumes world: "I st \<Longrightarrow> I (st\<lparr>ci_world := w\<rparr>)"
    and marks: "I st \<Longrightarrow> I (st\<lparr>ci_marks := ms\<rparr>)"
    and records: "I st \<Longrightarrow> I (st\<lparr>ci_records := rs\<rparr>)"
    and place: "I st \<Longrightarrow> is_capture_id capture_id \<Longrightarrow>
      I (st\<lparr>ci_captures := ci_captures st @ [(capture_id, staged_dir capture_id files)]\<rparr>)"
    and import_keeps: "keeps I (import_capture fuel lib sys env dir tolerate)"
begin

lemma keeps_answer: "keeps I (ask f)"
  by (auto simp: keeps_def ask_def world split: prod.split)

lemma keeps_gh_json: "keeps I (gh_json gh args)"
  unfolding gh_json_def by (intro keeps_bind keeps_answer) (auto simp: keeps_def split: option.split)

lemma keeps_since: "keeps I (resolve_since gh raw)"
  unfolding resolve_since_def by (intro keeps_bind keeps_answer) (auto simp: keeps_def split: option.split)

lemma keeps_runs: "keeps I (list_workflow_runs gh repository t)"
  unfolding list_workflow_runs_def by (intro keeps_bind keeps_gh_json) (auto simp: keeps_def split: json.split)

lemma keeps_page: "keeps I (fetch_page n gh args)"
proof (induction n)
  case (Suc n)
  have "keeps I (try_page gh args)"
    unfolding try_page_def by (intro keeps_bind keeps_gh_json) (auto simp: keeps_def split: json.split)
  then show ?case
    unfolding fetch_page.simps
    by (intro keeps_bind keeps_catch keeps_if keeps_ret keeps_raise)
      (auto intro!: keeps_ret keeps_raise keeps_bind keeps_if keeps_answer Suc split: option.split)
qed (simp only: fetch_page.simps keeps_raise)

lemma keeps_pages: "keeps I (list_pages fuel gh repository run_id n)"
proof (induction fuel arbitrary: n)
  case 0
  show ?case by (simp only: list_pages.simps keeps_raise)
next
  case (Suc fuel)
  then show ?case
    unfolding list_pages.simps by (intro keeps_bind keeps_page keeps_if keeps_ret)
qed

lemma keeps_mark: "keeps I (mark_run k)"
  by (cases k) (auto simp: keeps_def mark_run_def marks)

lemma keeps_artifacts_of_run: "keeps I (artifacts_of_run fuel gh repository found run)"
  unfolding artifacts_of_run_def list_run_artifacts_def
  by (auto intro!: keeps_ret keeps_bind keeps_getP keeps_then keeps_pages keeps_mark simp: Let_def split: json.split)

lemma keeps_put_record: "keeps I (put_record k r)"
  by (simp add: keeps_def put_record_def records)

lemma keeps_handled: "keeps I (handled_before k)"
  unfolding handled_before_def load_index_def
  by (intro keeps_bind keeps_getP)
    (auto intro!: keeps_ret keeps_bind keeps_getP keeps_raise split: option.split artifact_record.split)

lemma keeps_place: "is_capture_id capture_id \<Longrightarrow> keeps I (place_capture capture_id files)"
  unfolding place_capture_def
  by (intro keeps_bind keeps_getP) (auto simp: keeps_def thenP_def bindP_def place split: option.split)

lemma keeps_safe_id: "(\<And>s. is_capture_id s \<Longrightarrow> keeps I (f s)) \<Longrightarrow> keeps I (bindP (safe_capture_id j) f)"
  by (cases j) (auto simp: safe_capture_id_def is_capture_id_def intro: keeps_raise)

lemma keeps_process: "keeps I (process_artifact fuel lib sys env t data)"
proof -
  have "keeps I (import_artifact fuel lib sys env t data)"
    unfolding import_artifact_def
    by (auto intro!: keeps_bind keeps_liftP keeps_safe_id keeps_place import_keeps keeps_then keeps_put_record keeps_ret split: prod.split)
  then show ?thesis
    unfolding process_artifact_def
    by (intro keeps_catch) (auto intro!: keeps_ret keeps_then keeps_put_record keeps_raise split: cap_exn.split)
qed

end

text \<open>With the download, a whole pass.\<close>

locale sync_frame = artifact_frame lib I for lib and I :: "('n::{linorder, plus, zero}, 'w) ci_state \<Rightarrow> bool" +
  assumes zips: "I st \<Longrightarrow> I (st\<lparr>ci_zips := zs\<rparr>)"
    and download: "I st \<Longrightarrow> I (st\<lparr>ci_log := ci_log st @ [Zip_downloaded r a]\<rparr>)"
begin

lemma keeps_download: "keeps I (download_artifact gh repository t)"
proof -
  have "keeps I (modP (\<lambda>st. st\<lparr>ci_zips := dict_set k data (ci_zips st)\<rparr>))" for k data
    by (simp add: keeps_def zips)
  moreover have "keeps I (note_event (Zip_downloaded r a))" for r a
    by (simp add: keeps_def note_event_def download)
  ultimately show ?thesis
    unfolding download_artifact_def
    by (auto intro!: keeps_bind keeps_answer keeps_if keeps_then keeps_ret keeps_raise split: json.split option.split)
qed

lemma keeps_sync_artifact: "keeps I (sync_artifact fuel lib sys gh env repository can_download t)"
  unfolding sync_artifact_def
  by (intro keeps_bind keeps_getP keeps_if keeps_handled keeps_process keeps_ret)
    (auto intro!: keeps_ret keeps_download split: option.split)

lemma keeps_sync: "keeps I (sync_iteration fuel lib sys gh env repository raw limit)"
  unfolding sync_iteration_def sync_one_def
  by (intro keeps_bind keeps_since keeps_runs keeps_foldP keeps_artifacts_of_run keeps_liftP)
    (auto intro!: keeps_foldP keeps_bind keeps_sync_artifact keeps_ret split: prod.split)

end

section \<open>Imports and captures of a pass\<close>

interpretation acks: sync_frame lib "import_inv lib known"
  by unfold_locales (auto simp: import_inv_def intro!: keeps_import_capture inv_at_harmless)

definition safe_name :: "string \<Rightarrow> bool" where
  "safe_name s \<longleftrightarrow> s \<noteq> [] \<and> is_alnum (hd s) \<and> list_all name_char s"

lemma capture_id_safe:
  assumes "is_capture_id s"
  shows "safe_name s"
proof -
  obtain cs where run: "(length s, cs) \<in> set (rx_run CAPTURE_ID_RE s 0 [])"
  proof -
    have "filter (\<lambda>(j, cs). j = length s) (rx_run CAPTURE_ID_RE s 0 []) \<noteq> []"
      using assms by (auto simp: is_capture_id_def rx_fullmatch_def)
    then show ?thesis using that by (fastforce simp: filter_empty_conv)
  qed
  have first: "s \<noteq> []" "is_alnum (hd s)"
    using run by (cases s; simp add: CAPTURE_ID_RE_def split: if_splits)+
  then have "length s \<le> run_end name_char s 1"
    using run unfolding CAPTURE_ID_RE_def Seqs.simps rx_run.simps(4)
    by (cases s) (auto simp: rx_run_Star simp del: rx_run.simps(6) split: if_splits)
  then have rest: "name_char (s ! q)" if "1 \<le> q" "q < length s" for q
    using run_end_in [of 1 q name_char s] that by simp
  have "name_char (s ! 0)" using first by (simp add: name_char_def hd_conv_nth)
  with rest have "name_char (s ! q)" if "q < length s" for q using that by (cases q) auto
  then show ?thesis using first by (simp add: safe_name_def list_all_length)
qed

definition captures_safe :: "(string \<times> capture_dir) list \<Rightarrow> ('n, 'w) ci_state \<Rightarrow> bool" where
  "captures_safe old st \<longleftrightarrow> (\<exists>new. ci_captures st = old @ new \<and> list_all (\<lambda>(i, dir). safe_name i \<and> cd_name dir = i) new)"

lemma captures_safe_snoc:
  "captures_safe old st \<Longrightarrow> safe_name i \<Longrightarrow> cd_name dir = i \<Longrightarrow> captures_safe old (st\<lparr>ci_captures := ci_captures st @ [(i, dir)]\<rparr>)"
  unfolding captures_safe_def by (elim exE, rule exI [of _ "_ @ [(i, dir)]"]) auto

interpretation safe_import: import_frame "captures_safe old"
  by unfold_locales (simp_all add: captures_safe_def)

interpretation safe_sync: sync_frame lib "captures_safe old"
  by unfold_locales
    (simp_all add: captures_safe_snoc staged_dir_def safe_import.keeps_import capture_id_safe, simp_all add: captures_safe_def)

text \<open>
  Claim C26: a pass of \<^verbatim>\<open>sync\<close> over untrusted artifacts replays a digest only when the index has no record of it, also when several artifacts
  of the pass carry the same capture, and records a capture as imported only after two confirming readings in a row; and it leaves the captures of
  the state directory as they are, and every capture it adds to them has a plain name of letters, digits, dots, dashes and underscores that
  begins with a letter or digit, and is stored under it.
\<close>

theorem sync_imports_are_acknowledged:
  "case sync_iteration fuel lib sys gh env repository raw limit (st\<lparr>ci_log := []\<rparr>) of (r, t) \<Rightarrow>
     every_event (import_ok lib (known_digests st)) (ci_log t) \<and>
     (\<exists>new. ci_captures t = ci_captures st @ new \<and> list_all (\<lambda>(i, dir). safe_name i \<and> cd_name dir = i) new)"
proof -
  let ?s = "st\<lparr>ci_log := []\<rparr>"
  have "captures_safe (ci_captures st) ?s" by (simp add: captures_safe_def)
  from import_inv_log [OF keepsD [OF acks.keeps_sync import_inv_start]] keepsD [OF safe_sync.keeps_sync this]
  show ?thesis by (simp add: split_beta captures_safe_def)
qed

section \<open>Downloads of a pass\<close>

definition downloads :: "'n ci_event list \<Rightarrow> nat" where
  "downloads log = length (filter (\<lambda>e. case e of Zip_downloaded r a \<Rightarrow> True | _ \<Rightarrow> False) log)"

fun download_ok :: "nat \<Rightarrow> (int \<times> int) set \<Rightarrow> 'n ci_event list \<Rightarrow> 'n ci_event \<Rightarrow> bool" where
  "download_ok limit known log (Zip_downloaded r a) = ((r, a) \<notin> known \<and> Zip_downloaded r a \<notin> set log \<and> downloads log < limit)"
| "download_ok limit known log e = True"

definition download_inv :: "nat \<Rightarrow> (int \<times> int) set \<Rightarrow> nat \<Rightarrow> ('n, 'w) ci_state \<Rightarrow> bool" where
  "download_inv limit known n st \<longleftrightarrow> every_event (download_ok limit known) (ci_log st) \<and> downloads (ci_log st) = n \<and>
     known \<subseteq> fst ` set (ci_zips st) \<and> (\<forall>r a. Zip_downloaded r a \<in> set (ci_log st) \<longrightarrow> (r, a) \<in> fst ` set (ci_zips st))"

interpretation dl_import: import_frame "download_inv limit known n"
  by unfold_locales (auto simp: download_inv_def downloads_def split: ci_event.splits)

interpretation dl: artifact_frame lib "download_inv limit known n"
  by unfold_locales (auto simp: download_inv_def intro: dl_import.keeps_import)

lemma hoare_download:
  "hoare (\<lambda>st. download_inv limit known n st \<and> key_of t \<notin> fst ` set (ci_zips st) \<and> n < limit) (download_artifact gh repository t)
     (\<lambda>_. download_inv limit known (n + 1)) (\<lambda>_. download_inv limit known n)"
  (is "hoare ?P _ _ ?E")
proof (cases "ta_id t")
  case (JInt i)
  have ask: "hoare ?P (ask f) (\<lambda>_. ?P) ?E" for f
    by (auto simp: hoare_def ask_def download_inv_def split: prod.split)
  have store: "hoare ?P (thenP (modP (\<lambda>st. st\<lparr>ci_zips := dict_set (key_of t) data (ci_zips st)\<rparr>))
     (thenP (note_event (Zip_downloaded (ta_run t) (ta_attempt t))) (ret data))) (\<lambda>_. download_inv limit known (n + 1)) ?E" for data
    by (auto simp: hoare_def thenP_def bindP_def note_event_def download_inv_def downloads_def keys_dict_set [unfolded set_map])
  show ?thesis
    unfolding download_artifact_def JInt json.case
  proof (rule hoare_bind [OF ask])
    fix r
    have "hoare ?P (raise Refused) (\<lambda>_. download_inv limit known (n + 1)) ?E" by (auto simp: hoare_def)
    with store show "hoare ?P (case r of None \<Rightarrow> raise Refused
         | Some data \<Rightarrow> if CAPTURE_MAX_BYTES < length data \<or> \<not> gs_is_zip gh data then raise Refused
             else thenP (modP (\<lambda>st. st\<lparr>ci_zips := dict_set (key_of t) data (ci_zips st)\<rparr>))
               (thenP (note_event (Zip_downloaded (ta_run t) (ta_attempt t))) (ret data)))
         (\<lambda>_. download_inv limit known (n + 1)) ?E"
      by (cases r) (simp_all only: option.case split: if_split, blast)
  qed
qed (auto simp: download_artifact_def hoare_def)

lemma hoare_sync_artifact:
  "hoare (download_inv limit known n) (sync_artifact fuel lib sys gh env repository (n < limit) t)
     (\<lambda>d. download_inv limit known (if sd_downloaded d then n + 1 else n)) (\<lambda>_ st. \<exists>n. download_inv limit known n st)"
proof -
  let ?E = "\<lambda>_ st. \<exists>n. download_inv limit known n st"
  have quiet: "hoare (download_inv limit known m) p (\<lambda>_. download_inv limit known m) ?E" if "keeps (download_inv limit known m) p" for p m
    by (rule hoare_conseq [OF that [unfolded keeps_hoare]]) auto
  have rest: "hoare (download_inv limit known m) (bindP (handled_before (key_of t)) (\<lambda>handled.
       if handled then ret \<lparr>sd_status = Skipped, sd_downloaded = c\<rparr>
       else bindP (process_artifact fuel lib sys env t data) (\<lambda>status. ret \<lparr>sd_status = status, sd_downloaded = c\<rparr>)))
     (\<lambda>d st. sd_downloaded d = c \<and> download_inv limit known m st) ?E" for m c data
    by (intro hoare_bind [OF quiet [OF dl.keeps_handled]] hoare_if hoare_bind [OF quiet [OF dl.keeps_process]]) (simp_all add: hoare_def)
  have body: "hoare (\<lambda>st. cached = map_of (ci_zips st) (key_of t) \<and> download_inv limit known n st)
     (if cached = None \<and> \<not> n < limit then ret \<lparr>sd_status = Deferred, sd_downloaded = False\<rparr>
     else bindP (case cached of Some data \<Rightarrow> ret data | None \<Rightarrow> download_artifact gh repository t) (\<lambda>data.
     bindP (handled_before (key_of t)) (\<lambda>handled.
     if handled then ret \<lparr>sd_status = Skipped, sd_downloaded = (cached = None)\<rparr>
     else bindP (process_artifact fuel lib sys env t data) (\<lambda>status. ret \<lparr>sd_status = status, sd_downloaded = (cached = None)\<rparr>))))
     (\<lambda>d. download_inv limit known (if sd_downloaded d then n + 1 else n)) ?E" for cached
  proof (rule hoare_if)
    assume "\<not> (cached = None \<and> \<not> n < limit)"
    then consider "cached = None" "n < limit" | data where "cached = Some data" by (cases cached) auto
    then show "hoare (\<lambda>st. cached = map_of (ci_zips st) (key_of t) \<and> download_inv limit known n st)
       (bindP (case cached of Some data \<Rightarrow> ret data | None \<Rightarrow> download_artifact gh repository t) (\<lambda>data.
         bindP (handled_before (key_of t)) (\<lambda>handled.
         if handled then ret \<lparr>sd_status = Skipped, sd_downloaded = (cached = None)\<rparr>
         else bindP (process_artifact fuel lib sys env t data) (\<lambda>status. ret \<lparr>sd_status = status, sd_downloaded = (cached = None)\<rparr>))))
       (\<lambda>d. download_inv limit known (if sd_downloaded d then n + 1 else n)) ?E"
    proof cases
      case 1
      have get: "hoare (\<lambda>st. cached = map_of (ci_zips st) (key_of t) \<and> download_inv limit known n st) (download_artifact gh repository t)
          (\<lambda>_. download_inv limit known (n + 1)) ?E"
        by (rule hoare_conseq [OF hoare_download]) (use 1 in \<open>simp_all add: eq_commute [of None] map_of_eq_None_iff\<close>, blast)
      show ?thesis
        unfolding 1(1) option.case
        by (rule hoare_bind [OF get [unfolded 1(1)] hoare_conseq [OF rest]]) auto
    next
      case 2
      show ?thesis
        unfolding 2 option.case bindP_ret by (rule hoare_conseq [OF rest]) auto
    qed
  qed (auto simp: hoare_def)
  show ?thesis
    unfolding sync_artifact_def
    by (rule hoare_bind [OF hoare_weaken [OF hoare_getP] body]) simp
qed

lemma count_downloaded: "rp_downloaded (count_detail rp d) = (if sd_downloaded d then rp_downloaded rp + 1 else rp_downloaded rp)"
  by (cases "sd_status d") (simp_all add: count_detail_def Let_def)

lemma downloads_le: "every_event (download_ok limit known) log \<Longrightarrow> downloads log \<le> limit"
proof (induction log rule: rev_induct)
  case (snoc e log)
  then show ?case by (cases e) (simp_all add: downloads_def)
qed (simp add: downloads_def)

text \<open>
  Claim C27: a pass downloads at most \<open>limit\<close> artifacts, and only ones that are not in its cache, each of them once.
\<close>

theorem sync_downloads_are_bounded:
  "case ci_log (snd (sync_iteration fuel lib sys gh env repository raw limit (st\<lparr>ci_log := []\<rparr>))) of log \<Rightarrow>
     every_event (download_ok limit (fst ` set (ci_zips st))) log \<and> downloads log \<le> limit"
proof -
  let ?known = "fst ` set (ci_zips st)" and ?s = "st\<lparr>ci_log := []\<rparr>"
  let ?I = "download_inv limit ?known" and ?E = "\<lambda>_ st. \<exists>n. download_inv limit ?known n st"
  have quiet: "hoare (?I 0) p (\<lambda>_. ?I 0) ?E" if "keeps (?I 0) p" for p
    by (rule hoare_conseq [OF that [unfolded keeps_hoare]]) auto
  have one: "hoare (?I (rp_downloaded rp)) (sync_one fuel lib sys gh env repository limit rp t) (\<lambda>rp. ?I (rp_downloaded rp)) ?E" for rp t
    unfolding sync_one_def by (rule hoare_bind [OF hoare_sync_artifact]) (simp add: hoare_def count_downloaded)
  have "hoare (?I 0) (sync_iteration fuel lib sys gh env repository raw limit) (\<lambda>rp. ?I (rp_downloaded rp)) ?E"
    unfolding sync_iteration_def
  proof (intro hoare_bind [OF quiet [OF dl.keeps_since]] hoare_bind [OF quiet [OF dl.keeps_runs]]
      hoare_bind [OF quiet [OF keeps_foldP [OF dl.keeps_artifacts_of_run]]] hoare_bind [OF quiet [OF keeps_liftP]])
    fix runs and found :: "telemetry list \<times> ignored_reason list"
    obtain matched ignored where found: "found = (matched, ignored)" by fastforce
    have "hoare (?I (rp_downloaded rp)) (foldP (sync_one fuel lib sys gh env repository limit) rp matched) (\<lambda>rp. ?I (rp_downloaded rp)) ?E" for rp
      by (rule hoare_foldP [OF one])
    from this [of "\<lparr>rp_runs = length runs, rp_artifacts = length matched, rp_downloaded = 0, rp_imported = 0, rp_skipped = 0, rp_failed = 0, rp_ignored = ignored\<rparr>"]
    show "hoare (?I 0) (case found of (matched, ignored) \<Rightarrow> foldP (sync_one fuel lib sys gh env repository limit)
         \<lparr>rp_runs = length runs, rp_artifacts = length matched, rp_downloaded = 0, rp_imported = 0, rp_skipped = 0, rp_failed = 0, rp_ignored = ignored\<rparr>
         matched) (\<lambda>rp. ?I (rp_downloaded rp)) ?E" by (simp add: found)
  qed
  then have run: "hoare (?I 0) (sync_iteration fuel lib sys gh env repository raw limit) (\<lambda>_ st. \<exists>n. ?I n st) ?E"
    by (rule hoare_conseq) auto
  have "?I 0 ?s" by (simp add: download_inv_def downloads_def)
  from hoareD_any [OF run this] have "\<exists>n. ?I n (snd (sync_iteration fuel lib sys gh env repository raw limit ?s))" .
  then show ?thesis using downloads_le by (auto simp: download_inv_def Let_def)
qed

section \<open>Matching artifacts to runs\<close>

definition run_ids_of :: "(string \<times> json) list list \<Rightarrow> json list" where
  "run_ids_of runs = map (\<lambda>r. obj_get r ''databaseId'') runs"

definition fits :: "json list \<Rightarrow> telemetry \<Rightarrow> bool" where
  "fits ids t \<longleftrightarrow> (member (JInt (ta_run t)) ids \<or> member JNull ids) \<and>
     match_name ARTIFACT_NAME_PATTERNS (ta_name t) = Some (ta_run t, ta_attempt t)"

lemma classify_fits:
  assumes "classify ids seen a = Inr (Inr t)"
  shows "fits ids t" "key_of t \<notin> set seen"
proof -
  obtain name run_id attempt where n: "obj_get a ''name'' = JStr name" "match_name ARTIFACT_NAME_PATTERNS name = Some (run_id, attempt)"
    using assms by (auto simp: classify_def split: json.splits if_splits option.splits)
  have t: "t = \<lparr>ta_run = run_id, ta_attempt = attempt, ta_id = obj_get a ''id'', ta_name = name\<rparr>" "(run_id, attempt) \<notin> set seen"
    using assms by (auto simp: classify_def n Let_def bindE_def split: if_splits sum.splits)
  have "member (JInt run_id) ids \<or> member JNull ids"
  proof (rule ccontr)
    assume no: "\<not> (member (JInt run_id) ids \<or> member JNull ids)"
    then obtain w where w: "hashable (workflow_run_id a) = Inr w" "member w ids" "w = JNull \<or> py_key w = JInt run_id"
      using assms hashable_Inr [of "workflow_run_id a"]
      by (auto simp: classify_def n Let_def bindE_def split: if_splits sum.splits)
    with no show False by (auto simp: member_def py_key_def)
  qed
  with n t show "fits ids t" "key_of t \<notin> set seen" by (simp_all add: fits_def)
qed

lemma add_classified_keeps:
  assumes "add_classified ids (matched, ignored) a = Inr (matched', ignored')"
    and "distinct (map key_of matched)" "list_all (fits ids) matched"
  shows "distinct (map key_of matched') \<and> list_all (fits ids) matched'"
proof -
  obtain c where c: "classify ids (map key_of matched) a = Inr c" using assms(1) by (auto simp: add_classified_def bindE_Inr_iff)
  show ?thesis
  proof (cases c)
    case (Inl r)
    with assms c show ?thesis by (cases r) (auto simp: add_classified_def)
  next
    case (Inr t)
    with assms c classify_fits [OF c [unfolded Inr]] show ?thesis by (auto simp: add_classified_def)
  qed
qed

text \<open>
  The artifacts that a pass goes on with are one per run and attempt, in the order of run and attempt, each named after its run and
  attempt, and its run is among those of the window (or one of these has no id).
\<close>

theorem matched_artifacts_fit:
  "case find_telemetry_artifacts runs artifacts of
     Inl e \<Rightarrow> e = Crash
   | Inr (matched, ignored) \<Rightarrow> distinct (map (\<lambda>t. (ta_run t, ta_attempt t)) matched) \<and> sorted (map (\<lambda>t. (ta_run t, ta_attempt t)) matched) \<and>
       list_all (fits (run_ids_of runs)) matched"
proof (cases "mapE (\<lambda>r. hashable (obj_get r ''databaseId'')) runs")
  case (Inr ids)
  have ids: "ids = run_ids_of runs"
    using mapE_Inr_length [OF Inr] mapE_Inr_nth [OF Inr] unfolding run_ids_of_def
    by (intro nth_equalityI) (auto dest: hashable_Inr)
  show ?thesis
  proof (cases "foldE (add_classified ids) ([], []) artifacts")
    case (Inl e)
    have "x = Crash" if "add_classified ids acc a = Inl x" for x acc a
      using that by (auto simp: add_classified_def classify_def bindE_def Let_def split: prod.splits json.splits if_splits option.splits sum.splits)
    then have "e = Crash" using foldE_raised [OF Inl] by blast
    with Inr Inl show ?thesis by (simp add: find_telemetry_artifacts_def)
  next
    case fold: (Inr r)
    have "distinct (map key_of (fst r)) \<and> list_all (fits ids) (fst r)"
      if "foldE (add_classified ids) acc as = Inr r" "distinct (map key_of (fst acc))" "list_all (fits ids) (fst acc)" for acc as
      using that
    proof (induction as arbitrary: acc)
      case (Cons a as)
      then obtain acc' where a: "add_classified ids acc a = Inr acc'" "foldE (add_classified ids) acc' as = Inr r"
        by (auto simp: bindE_Inr_iff)
      with add_classified_keeps [of ids "fst acc" "snd acc" a "fst acc'" "snd acc'"] Cons show ?case by simp
    qed simp
    from this [OF fold] have m: "distinct (map key_of (fst r))" "list_all (fits ids) (fst r)" by simp_all
    have "distinct (map key_of (sort_key key_of (fst r)))"
      using m(1) by (metis distinct_map distinct_sort set_sort)
    moreover have "list_all (fits ids) (sort_key key_of (fst r))" using m(2) by (simp add: list_all_iff)
    ultimately show ?thesis
      using Inr fold ids by (simp add: find_telemetry_artifacts_def split_beta)
  qed
qed (simp add: find_telemetry_artifacts_def)

text \<open>An archive whose reading raises something other than a refusal ends the pass, and leaves no record of it.\<close>

lemma crash_ends_pass:
  "extract_artifact_zip lib data = (Inl Crash, files) \<Longrightarrow> process_artifact fuel lib sys env t data st = (Inl Crash, st)"
  by (simp add: process_artifact_def import_artifact_def catchP_def bindP_def)

text \<open>So does a download that fails.\<close>

lemma failed_download_ends_pass:
  "ta_id t = JInt i \<Longrightarrow> gs_zip gh (ci_world st) repository i = (None, w) \<Longrightarrow> map_of (ci_zips st) (key_of t) = None \<Longrightarrow>
   fst (sync_artifact fuel lib sys gh env repository True t st) = Inl Refused"
  by (simp add: sync_artifact_def bindP_def download_artifact_def ask_def)

end
