(* ===== verification/CaptureReport.thy ===== *)
theory CaptureReport
  imports CaptureSync
begin

text \<open>
  The commands \<^verbatim>\<open>report\<close> and \<^verbatim>\<open>sync\<close> of \<^verbatim>\<open>monitoring/scripts/ci-observe.py\<close>, over the state and the outside of \<open>CaptureImport\<close> and \<open>CaptureSync\<close>.

  Numbers of the metadata are whole. What a report echoes as recorded is left out; its gaps, the verdict on the files and the import entry are kept.
\<close>

section \<open>report\<close>

datatype gap =
    Stack_down | Meta_unreadable | Import_incomplete | Not_imported | Not_closed
  | Source_silent string | Source_status string json
  | No_signal_file string | Empty_signal string | No_exit_code

record 'n capture_report =
  rr_running :: bool
  rr_meta :: "(string \<times> json) list option"
  rr_valid :: bool
  rr_entry :: "'n import_entry option"
  rr_gaps :: "gap list"

text \<open>A capture id that is not there gives a directory that is not there. \<open>linked\<close> is the file that a linked \<^verbatim>\<open>metadata.json\<close> leads to.\<close>

definition report_dir :: "capture_dir option \<Rightarrow> string option \<Rightarrow> ('n, 'w, capture_dir) ci" where
  "report_dir dir capture_id = (case (dir, capture_id) of
       (Some _, Some _) \<Rightarrow> raise Refused
     | (Some d, None) \<Rightarrow> ret d
     | (None, Some i) \<Rightarrow> getP (\<lambda>st. case map_of (ci_captures st) i of None \<Rightarrow> \<lparr>cd_name = i, cd_plain = False, cd_nodes = []\<rparr> | Some d \<Rightarrow> d)
     | (None, None) \<Rightarrow> raise Refused)"

definition metadata_content :: "string option \<Rightarrow> capture_dir \<Rightarrow> string option" where
  "metadata_content linked dir = (case (case map_of (cd_nodes dir) METADATA of Some (Regular c) \<Rightarrow> Some c | Some Symlink \<Rightarrow> linked | _ \<Rightarrow> None) of
       Some c \<Rightarrow> if length c \<le> METADATA_MAX_BYTES then Some c else None
     | None \<Rightarrow> None)"

definition stack_runs :: "('n, 'w) ci_sys \<Rightarrow> ('n, 'w, bool) ci" where
  "stack_runs sys = bindP (getP ci_stack) (\<lambda>stack. case stack of
       None \<Rightarrow> ret False
     | Some sk \<Rightarrow> bindP (inspect_container sys (sk_container sk)) (\<lambda>info. ret (case info of None \<Rightarrow> False | Some i \<Rightarrow> ct_running i)))"

text \<open>The import of the capture as it is, and without a valid one, an import that had its id.\<close>

definition import_of :: "cap_lib \<Rightarrow> capture_dir \<Rightarrow> (string \<times> json) list \<Rightarrow> ('n, 'w, bool \<times> 'n import_entry option) ci" where
  "import_of lib dir meta = catchP (bindP (liftP (validate_capture lib dir False)) (\<lambda>v. bindP load_index (\<lambda>imports. ret (True, map_of imports (v_digest v)))))
     (\<lambda>e. if e = Refused then bindP load_index (\<lambda>imports. ret (False, find (\<lambda>e. ie_capture e = obj_get meta ''id'') (map snd imports)))
          else raise e)"

definition EXPECTED_SOURCES :: "string list" where
  "EXPECTED_SOURCES = [''pytest'', ''beyla'', ''cluster-objects'', ''cluster-logs'', ''cluster-metrics'']"

definition source_gaps :: "(string \<times> json) list \<Rightarrow> gap list" where
  "source_gaps meta = (let sources = (case obj_get meta ''sources'' of JObj kvs \<Rightarrow> kvs | _ \<Rightarrow> []) in
     concat (map (\<lambda>name. case obj_get sources name of
         JNull \<Rightarrow> [Source_silent name]
       | status \<Rightarrow> if status = JStr ''collected'' \<or> status = JStr ''delivered'' then [] else [Source_status name status]) EXPECTED_SOURCES))"

definition signal_gaps :: "(string \<times> json) list \<Rightarrow> gap list" where
  "signal_gaps meta = (let files = (case obj_get meta ''files'' of JArr fs \<Rightarrow> objects fs | _ \<Rightarrow> []) in
     concat (map (\<lambda>(fname, signal). case find (\<lambda>f. obj_get f ''path'' = JStr fname) files of
         None \<Rightarrow> [No_signal_file fname]
       | Some f \<Rightarrow> if py_key (obj_get f ''size_bytes'') = JInt 0 then [Empty_signal fname] else []) SIGNALS))"

definition import_gaps :: "'n import_entry option \<Rightarrow> gap list" where
  "import_gaps entry = (case entry of
       Some e \<Rightarrow> if ie_status e = Imported then [] else [Import_incomplete]
     | None \<Rightarrow> [Not_imported])"

definition cmd_report ::
  "cap_lib \<Rightarrow> ('n, 'w) ci_sys \<Rightarrow> string \<Rightarrow> string option \<Rightarrow> capture_dir option \<Rightarrow> string option \<Rightarrow> ('n, 'w, 'n capture_report) ci" where
  "cmd_report lib sys wanted linked dir capture_id =
     (if wanted \<noteq> ''summary'' then raise Refused
      else bindP (stack_runs sys) (\<lambda>running. bindP (report_dir dir capture_id) (\<lambda>dir.
        let down = (if running then [] else [Stack_down]) in
        case metadata_content linked dir of
          None \<Rightarrow> ret \<lparr>rr_running = running, rr_meta = None, rr_valid = False, rr_entry = None, rr_gaps = down @ [Meta_unreadable]\<rparr>
        | Some content \<Rightarrow> bindP (liftP (load_json lib content)) (\<lambda>meta. bindP (import_of lib dir meta) (\<lambda>(valid, entry).
            ret \<lparr>rr_running = running, rr_meta = Some meta, rr_valid = valid, rr_entry = entry,
              rr_gaps = down @ import_gaps entry @ (if obj_get meta ''state'' = JStr ''closed'' then [] else [Not_closed]) @
                source_gaps meta @ signal_gaps meta @ (if obj_get meta ''child_exit_code'' = JNull then [No_exit_code] else [])\<rparr>)))))"

section \<open>What a report without gaps says\<close>

definition declared_nonempty :: "(string \<times> json) list \<Rightarrow> string \<Rightarrow> bool" where
  "declared_nonempty meta fname \<longleftrightarrow> (\<exists>files f. obj_get meta ''files'' = JArr files \<and> JObj f \<in> set files \<and> obj_get f ''path'' = JStr fname \<and>
     py_key (obj_get f ''size_bytes'') \<noteq> JInt 0)"

definition delivered :: "(string \<times> json) list \<Rightarrow> string \<Rightarrow> bool" where
  "delivered meta name \<longleftrightarrow> (\<exists>sources. obj_get meta ''sources'' = JObj sources \<and> obj_get sources name \<in> {JStr ''collected'', JStr ''delivered''})"

lemma objects_mem: "f \<in> set (objects js) \<longleftrightarrow> JObj f \<in> set js"
  by (induction js) (auto simp: objects_def map_filter_simps split: json.split)

lemma find_SomeD: "find P xs = Some x \<Longrightarrow> x \<in> set xs \<and> P x"
  by (induction xs) (auto split: if_splits)

lemma concat_map_empty: "concat (map f xs) = [] \<Longrightarrow> x \<in> set xs \<Longrightarrow> f x = []"
  by (induction xs) auto

lemma source_gaps_Nil:
  assumes "source_gaps meta = []"
  shows "list_all (delivered meta) EXPECTED_SOURCES"
  unfolding list_all_iff
proof
  let ?sources = "case obj_get meta ''sources'' of JObj kvs \<Rightarrow> kvs | _ \<Rightarrow> []"
  fix name assume "name \<in> set EXPECTED_SOURCES"
  from concat_map_empty [OF assms [unfolded source_gaps_def Let_def] this]
  have "obj_get ?sources name \<in> {JStr ''collected'', JStr ''delivered''}" by (auto split: json.splits if_splits)
  moreover from this have "?sources \<noteq> []" by (auto simp: obj_get_def)
  ultimately show "delivered meta name" unfolding delivered_def by (auto split: json.splits)
qed

lemma signal_gaps_Nil:
  assumes "signal_gaps meta = []"
  shows "list_all (declared_nonempty meta) (map fst SIGNALS)"
  unfolding list_all_iff
proof
  let ?files = "case obj_get meta ''files'' of JArr fs \<Rightarrow> objects fs | _ \<Rightarrow> []"
  fix fname assume "fname \<in> set (map fst SIGNALS)"
  then obtain signal where "(fname, signal) \<in> set SIGNALS" by auto
  from concat_map_empty [OF assms [unfolded signal_gaps_def Let_def] this]
  obtain f where f: "find (\<lambda>f. obj_get f ''path'' = JStr fname) ?files = Some f" "py_key (obj_get f ''size_bytes'') \<noteq> JInt 0"
    by (auto split: option.splits if_splits)
  from find_SomeD [OF f(1)] have "f \<in> set ?files" "obj_get f ''path'' = JStr fname" by simp_all
  then show "declared_nonempty meta fname"
    unfolding declared_nonempty_def using f(2)
    by (cases "obj_get meta ''files''") (auto simp: objects_mem)
qed

text \<open>What no gap means: \<open>d\<close> is the capture directory and \<open>index\<close> the record of imports.\<close>

definition complete_report ::
  "cap_lib \<Rightarrow> capture_dir \<Rightarrow> (string \<times> 'n import_entry) list option \<Rightarrow> 'n capture_report \<Rightarrow> bool" where
  "complete_report lib d index rp \<longleftrightarrow> rr_running rp \<and> (\<exists>meta idx e. rr_meta rp = Some meta \<and> index = Some idx \<and> rr_entry rp = Some e \<and> ie_status e = Imported \<and>
     (if rr_valid rp then \<exists>v. validate_capture lib d False = Inr v \<and> map_of idx (v_digest v) = Some e
      else validate_capture lib d False = Inl Refused \<and> e \<in> snd ` set idx \<and> ie_capture e = obj_get meta ''id'') \<and>
     obj_get meta ''state'' = JStr ''closed'' \<and> obj_get meta ''child_exit_code'' \<noteq> JNull \<and>
     list_all (delivered meta) EXPECTED_SOURCES \<and> list_all (declared_nonempty meta) (map fst SIGNALS))"

lemma import_of_Inr:
  assumes "import_of lib d meta st = (Inr (valid, Some e), t)"
  shows "\<exists>idx. ci_index st = Some idx \<and> (if valid then \<exists>v. validate_capture lib d False = Inr v \<and> map_of idx (v_digest v) = Some e
     else validate_capture lib d False = Inl Refused \<and> e \<in> snd ` set idx \<and> ie_capture e = obj_get meta ''id'')"
  using assms
  by (auto simp: import_of_def catchP_def bindP_def load_index_def split: sum.splits option.splits if_splits prod.splits dest: find_SomeD)

lemma ask_index: "ask f st = (r, t) \<Longrightarrow> ci_index t = ci_index st \<and> ci_captures t = ci_captures st"
  by (auto simp: ask_def split: prod.splits)

lemma stack_runs_index: "stack_runs sys st = (r, t) \<Longrightarrow> ci_index t = ci_index st \<and> ci_captures t = ci_captures st"
  by (auto simp: stack_runs_def inspect_container_def bindP_def dest!: ask_index split: prod.splits sum.splits option.splits inspect_answer.splits)

text \<open>
  Claim C33: a report without gaps says that the stack runs, the capture is closed and has an exit code, every expected source delivered, every
  signal file is declared and not empty, and that an import was acknowledged: of exactly these files when they pass the validation, and
  otherwise only of some capture that had the same id.
\<close>

theorem report_without_gaps:
  "case fst (cmd_report lib sys wanted linked dir capture_id st) of
     Inl e \<Rightarrow> e = Refused \<or> e = Crash
   | Inr rp \<Rightarrow> (case rr_gaps rp of
       [] \<Rightarrow> (\<exists>d. fst (report_dir dir capture_id st) = Inr d \<and> complete_report lib d (ci_index st) rp)
     | _ \<Rightarrow> True)"
proof (cases "cmd_report lib sys wanted linked dir capture_id st")
  case (Pair r t)
  show ?thesis
  proof (cases r)
    case (Inl e)
    have stack: "raises {Refused, Crash} (stack_runs sys)"
      unfolding stack_runs_def by (intro raises_rules) (auto intro!: raises_rules split: option.split)
    have d: "raises {Refused, Crash} (report_dir dir capture_id :: ('a, 'b, capture_dir) ci)"
      unfolding report_dir_def by (auto intro!: raises_rules split: option.split)
    have imp: "raises {Refused, Crash} (import_of lib d meta :: ('a, 'b, bool \<times> 'a import_entry option) ci)" for d meta
      unfolding import_of_def load_index_def
      by (rule raises_catch [where Y = "{Refused, Crash}"], (intro raises_rules; auto intro!: raises_rules dest: validate_capture_Inl split: option.split)+)
    have "raises {Refused, Crash} (cmd_report lib sys wanted linked dir capture_id)"
      unfolding cmd_report_def Let_def
      by (intro raises_rules stack d) (auto intro!: raises_rules imp dest: load_json_Inl split: option.split)
    with Pair Inl show ?thesis by (auto dest: raisesD)
  next
    case (Inr rp)
    show ?thesis
    proof (cases "rr_gaps rp")
      case Nil
      from Pair [unfolded Inr] obtain running st1 d st2 where run: "stack_runs sys st = (Inr running, st1)" "report_dir dir capture_id st1 = (Inr d, st2)"
        and rest: "(case metadata_content linked d of
            None \<Rightarrow> ret \<lparr>rr_running = running, rr_meta = None, rr_valid = False, rr_entry = None, rr_gaps = (if running then [] else [Stack_down]) @ [Meta_unreadable]\<rparr>
          | Some content \<Rightarrow> bindP (liftP (load_json lib content)) (\<lambda>meta. bindP (import_of lib d meta) (\<lambda>(valid, entry).
              ret \<lparr>rr_running = running, rr_meta = Some meta, rr_valid = valid, rr_entry = entry,
                rr_gaps = (if running then [] else [Stack_down]) @ import_gaps entry @ (if obj_get meta ''state'' = JStr ''closed'' then [] else [Not_closed]) @
                  source_gaps meta @ signal_gaps meta @ (if obj_get meta ''child_exit_code'' = JNull then [No_exit_code] else [])\<rparr>))) st2 = (Inr rp, t)"
        by (auto simp: cmd_report_def Let_def bindP_Inr_iff split: if_splits)
      have st2: "st2 = st1" "ci_index st1 = ci_index st" "fst (report_dir dir capture_id st) = Inr d"
        using run(2) stack_runs_index [OF run(1)] by (auto simp: report_dir_def split: option.splits)
      from rest Nil obtain content meta valid entry st3 where c: "metadata_content linked d = Some content" "load_json lib content = Inr meta"
        "import_of lib d meta st1 = (Inr (valid, entry), st3)"
        and rp: "rp = \<lparr>rr_running = running, rr_meta = Some meta, rr_valid = valid, rr_entry = entry,
                rr_gaps = (if running then [] else [Stack_down]) @ import_gaps entry @ (if obj_get meta ''state'' = JStr ''closed'' then [] else [Not_closed]) @
                  source_gaps meta @ signal_gaps meta @ (if obj_get meta ''child_exit_code'' = JNull then [No_exit_code] else [])\<rparr>"
        by (auto simp: st2 bindP_Inr_iff split: option.splits prod.splits)
      with Nil have gaps: "running" "import_gaps entry = []" "obj_get meta ''state'' = JStr ''closed''" "source_gaps meta = []" "signal_gaps meta = []"
        "obj_get meta ''child_exit_code'' \<noteq> JNull" by (auto split: if_splits)
      then obtain e where e: "entry = Some e" "ie_status e = Imported" by (auto simp: import_gaps_def split: option.splits if_splits)
      have "complete_report lib d (ci_index st) rp"
        unfolding complete_report_def rp
        using gaps e source_gaps_Nil [OF gaps(4)] signal_gaps_Nil [OF gaps(5)] import_of_Inr [OF c(3) [unfolded e(1)]] st2(2) by auto
      with st2(3) Pair Inr Nil show ?thesis by auto
    qed (simp add: Pair Inr)
  qed
qed

text \<open>Files that fail the validation are not a gap: the report takes over the import of whatever had the id.\<close>

lemma changed_capture_borrows_import:
  assumes "validate_capture lib d False = Inl Refused" "ci_index st = Some idx"
    "find (\<lambda>e. ie_capture e = obj_get meta ''id'') (map snd idx) = Some e" "ie_status e = Imported"
  shows "import_of lib d meta st = (Inr (False, Some e), st)" "import_gaps (Some e) = []"
  using assms by (simp_all add: import_of_def catchP_def bindP_def load_index_def import_gaps_def)

section \<open>sync\<close>

definition REPOSITORY_RE :: "char rx" where
  "REPOSITORY_RE = (let part = Plus (Cls (\<lambda>c. c \<noteq> CHR ''/'' \<and> \<not> str_space c)) in Seqs [part, Lit ''/'', part])"

definition check_sync_args :: "string \<Rightarrow> int \<Rightarrow> cap_exn + nat" where
  "check_sync_args repository limit =
     (if rx_fullmatch REPOSITORY_RE repository = None \<or> limit < 1 then Inl Refused else Inr (nat limit))"

text \<open>\<open>None\<close> is watching for ever; the pause of five minutes may be interrupted.\<close>

partial_function (option) sync_loop ::
  "nat \<Rightarrow> cap_lib \<Rightarrow> ('n::{linorder, plus, zero}, 'w) ci_sys \<Rightarrow> 'w gh_sys \<Rightarrow> import_env \<Rightarrow> string \<Rightarrow> string \<Rightarrow> nat \<Rightarrow> bool \<Rightarrow>
     ('n, 'w) ci_state \<Rightarrow> ((cap_exn + nat) \<times> ('n, 'w) ci_state) option" where
  "sync_loop fuel lib sys gh env repository raw limit watch st =
     (case sync_iteration fuel lib sys gh env repository raw limit st of
        (Inl e, t) \<Rightarrow> Some (Inl e, t)
      | (Inr rp, t) \<Rightarrow> if \<not> watch then Some (Inr (if rp_failed rp = 0 then 0 else 1), t)
          else (case ask (gs_pause gh) t of
              (Inl e, u) \<Rightarrow> Some (Inl e, u)
            | (Inr stop, u) \<Rightarrow> if stop then Some (Inl Interrupted, u)
                else sync_loop fuel lib sys gh env repository raw limit watch u))"

definition cmd_sync ::
  "nat \<Rightarrow> cap_lib \<Rightarrow> ('n::{linorder, plus, zero}, 'w) ci_sys \<Rightarrow> 'w gh_sys \<Rightarrow> import_env \<Rightarrow> string \<Rightarrow> string \<Rightarrow> int \<Rightarrow> bool \<Rightarrow>
     ('n, 'w) ci_state \<Rightarrow> ((cap_exn + nat) \<times> ('n, 'w) ci_state) option" where
  "cmd_sync fuel lib sys gh env repository raw limit watch st = (case check_sync_args repository limit of
       Inl e \<Rightarrow> Some (Inl e, st)
     | Inr n \<Rightarrow> sync_loop fuel lib sys gh env repository raw n watch st)"

text \<open>The states between the passes, also of a watch that never returns.\<close>

inductive synced ::
  "nat \<Rightarrow> cap_lib \<Rightarrow> ('n::{linorder, plus, zero}, 'w) ci_sys \<Rightarrow> 'w gh_sys \<Rightarrow> import_env \<Rightarrow> string \<Rightarrow> string \<Rightarrow> nat \<Rightarrow>
     ('n, 'w) ci_state \<Rightarrow> ('n, 'w) ci_state \<Rightarrow> bool"
  for fuel lib sys gh env repository raw limit start where
  first: "synced fuel lib sys gh env repository raw limit start start"
| again: "synced fuel lib sys gh env repository raw limit start st \<Longrightarrow> sync_iteration fuel lib sys gh env repository raw limit st = (Inr rp, t) \<Longrightarrow>
    ask (gs_pause gh) t = (Inr False, u) \<Longrightarrow> synced fuel lib sys gh env repository raw limit start u"

lemma synced_keeps:
  assumes "synced fuel lib sys gh env repository raw limit start st" "I start"
    and pass: "keeps I (sync_iteration fuel lib sys gh env repository raw limit)" and pause: "keeps I (ask (gs_pause gh))"
  shows "I st"
  using assms(1,2)
proof induction
  case (again st rp t u)
  with keepsD [OF pass, of st] have "I t" by simp
  with keepsD [OF pause, of t] again show ?case by simp
qed

text \<open>
  However long \<^verbatim>\<open>sync --watch\<close> runs, every import over all of its passes is acknowledged, and no digest is replayed again once
  a pass recorded it.
\<close>

theorem watch_imports_are_acknowledged:
  assumes "synced fuel lib sys gh env repository raw limit (st\<lparr>ci_log := []\<rparr>) t"
  shows "every_event (import_ok lib (known_digests st)) (ci_log (snd (sync_iteration fuel lib sys gh env repository raw limit t)))"
proof -
  from synced_keeps [OF assms import_inv_start acks.keeps_sync acks.keeps_answer]
  show ?thesis by (rule import_inv_log [OF keepsD [OF acks.keeps_sync]])
qed

end
