(* ===== verification/CaptureStack.thy ===== *)
theory CaptureStack
  imports CaptureImport
begin

text \<open>
  The local stack of \<^verbatim>\<open>monitoring/scripts/ci-observe.py\<close>: the commands \<^verbatim>\<open>up\<close> and \<^verbatim>\<open>down\<close>, and the checks of the state directory.

  Podman, systemd, sockets, the clock and the health page answer over a world of any type, and each command given to podman is logged with
  its answer. \<open>sk_file\<close> is the stack record of the state directory, a JSON file; its numbers are whole. The wait for the health page takes fuel,
  one unit per request; running out of it is the value \<open>Out_of_fuel\<close>, which nothing catches. What the commands print is the result.
\<close>

section \<open>Outside\<close>

datatype stk_event =
    Inspected string inspect_answer
  | Podman "string list" "(bool \<times> string) option"       \<comment> \<open>arguments; success and output\<close>
  | Systemctl "string list"
  | Override_copied string bool            \<comment> \<open>whether it is executable\<close>
  | Unit_written "string list"            \<comment> \<open>the lines of the unit\<close>
  | Stack_saved "(string \<times> json) list"

record 'w stk_state =
  sk_world :: 'w
  sk_log :: "stk_event list"
  sk_file :: "json_file option"

record 'w stk_sys =
  st_inspect :: "'w \<Rightarrow> string \<Rightarrow> inspect_answer \<times> 'w"
  st_podman :: "'w \<Rightarrow> string list \<Rightarrow> (bool \<times> string) option \<times> 'w"
  st_systemctl :: "'w \<Rightarrow> string list \<Rightarrow> bool \<times> 'w"
  st_bind :: "'w \<Rightarrow> int \<Rightarrow> bool \<times> 'w"                  \<comment> \<open>whether the loopback port can be bound\<close>
  st_healthy :: "'w \<Rightarrow> int \<Rightarrow> bool \<times> 'w"               \<comment> \<open>whether the page at the port answers with 200\<close>
  st_clock :: "'w \<Rightarrow> int \<times> 'w"
  st_sleep :: "'w \<Rightarrow> bool \<times> 'w"                       \<comment> \<open>whether it was interrupted\<close>
  st_json :: "string \<Rightarrow> json option"

type_synonym ('w, 'a) stk = "('w stk_state, cap_exn, 'a) prog"

definition stk_ask :: "('w \<Rightarrow> 'a \<times> 'w) \<Rightarrow> ('w, 'a) stk" where
  "stk_ask f st = (case f (sk_world st) of (r, w) \<Rightarrow> (Inr r, st\<lparr>sk_world := w\<rparr>))"

definition stk_log :: "stk_event \<Rightarrow> ('w, unit) stk" where
  "stk_log e = modP (\<lambda>st. st\<lparr>sk_log := sk_log st @ [e]\<rparr>)"

definition inspect_stack :: "'w stk_sys \<Rightarrow> string \<Rightarrow> ('w, container_info option) stk" where
  "inspect_stack sys name = bindP (stk_ask (\<lambda>w. st_inspect sys w name)) (\<lambda>a. thenP (stk_log (Inspected name a)) (case a of
       No_podman \<Rightarrow> raise Refused | Unreadable \<Rightarrow> raise Crash | No_container \<Rightarrow> ret None | Container i \<Rightarrow> ret (Some i)))"

text \<open>\<open>podman(args, check=False)\<close> and \<open>podman(args)\<close>\<close>

definition podman_result :: "'w stk_sys \<Rightarrow> string list \<Rightarrow> ('w, bool \<times> string) stk" where
  "podman_result sys args = bindP (stk_ask (\<lambda>w. st_podman sys w args)) (\<lambda>r. thenP (stk_log (Podman args r))
     (case r of None \<Rightarrow> raise Refused | Some x \<Rightarrow> ret x))"

definition podman_output :: "'w stk_sys \<Rightarrow> string list \<Rightarrow> ('w, string) stk" where
  "podman_output sys args = bindP (podman_result sys args) (\<lambda>(ok, out). if ok then ret out else raise Refused)"

definition podman_do :: "'w stk_sys \<Rightarrow> string list \<Rightarrow> ('w, unit) stk" where
  "podman_do sys args = bindP (podman_output sys args) (\<lambda>out. ret ())"

definition owned_labels :: "(string \<times> json) list \<Rightarrow> bool" where
  "owned_labels labels \<longleftrightarrow> obj_get labels OWNED_LABEL = JStr ''true''"

definition require_owned_stack :: "container_info \<Rightarrow> ('w, unit) stk" where
  "require_owned_stack info = (if owned_labels (ct_labels info) then ret () else raise Refused)"

definition LGTM_IMAGE :: string where
  "LGTM_IMAGE = ''docker.io/grafana/otel-lgtm:0.38.1@sha256:0df9bc14142000b161344bd24caf6ddd319b7319055aedaf9b0692b125730af7''"

definition image_digest :: "string \<Rightarrow> string option" where
  "image_digest text = map_option (\<lambda>m. m_group text m 0)
     (rx_search (Seq (Lit ''sha256:'') (Rep True 64 (Some 64) (Cls (\<lambda>c. is_digit c \<or> in_range (CHR ''a'') (CHR ''f'') c)))) text)"

definition image_matches :: "string \<Rightarrow> string \<Rightarrow> bool" where
  "image_matches image_name reference \<longleftrightarrow> (case (image_digest image_name, image_digest reference) of
       (Some left, Some right) \<Rightarrow> left = right | _ \<Rightarrow> image_name = reference)"

text \<open>\<open>bind\<close> raises \<open>OverflowError\<close> for a number that is no port.\<close>

definition check_port_free :: "'w stk_sys \<Rightarrow> int \<Rightarrow> ('w, unit) stk" where
  "check_port_free sys port = (if port = 0 then ret ()
     else if port < 0 \<or> 65535 < port then raise Crash
     else bindP (stk_ask (\<lambda>w. st_bind sys w port)) (\<lambda>ok. if ok then ret () else raise Refused))"

definition after_colon :: "string \<Rightarrow> string option" where
  "after_colon s = (if CHR '':'' \<in> set s then Some (rev (takeWhile (\<lambda>c. c \<noteq> CHR '':'') (rev s))) else None)"

definition published_port :: "'w stk_sys \<Rightarrow> string \<Rightarrow> int \<Rightarrow> ('w, int) stk" where
  "published_port sys container inner = bindP (podman_output sys [''port'', container, show_int inner]) (\<lambda>out.
     case lines_of (strip out) of
       [] \<Rightarrow> raise Refused
     | l # ls \<Rightarrow> (case Option.bind (after_colon l) int_of_str of None \<Rightarrow> raise Crash | Some n \<Rightarrow> ret n))"

fun health_loop :: "nat \<Rightarrow> 'w stk_sys \<Rightarrow> int \<Rightarrow> int \<Rightarrow> ('w, unit) stk" where
  "health_loop 0 sys port deadline = raise Out_of_fuel"
| "health_loop (Suc fuel) sys port deadline = bindP (stk_ask (st_clock sys)) (\<lambda>now.
     if deadline \<le> now then raise Refused
     else bindP (stk_ask (\<lambda>w. st_healthy sys w port)) (\<lambda>ok. if ok then ret ()
     else bindP (stk_ask (st_sleep sys)) (\<lambda>stop. if stop then raise Interrupted else health_loop fuel sys port deadline)))"

definition wait_healthy :: "nat \<Rightarrow> 'w stk_sys \<Rightarrow> int \<Rightarrow> int \<Rightarrow> ('w, unit) stk" where
  "wait_healthy fuel sys port timeout = bindP (stk_ask (st_clock sys)) (\<lambda>now. health_loop fuel sys port (now + timeout))"

section \<open>The stack record\<close>

definition load_stack :: "('w, (string \<times> json) list option) stk" where
  "load_stack = bindP (getP sk_file) (\<lambda>f. case f of
       None \<Rightarrow> ret None
     | Some (Value (JObj kvs)) \<Rightarrow> ret (Some kvs)
     | Some Not_text \<Rightarrow> raise Crash
     | Some _ \<Rightarrow> raise Refused)"

definition save_stack :: "(string \<times> json) list \<Rightarrow> ('w, unit) stk" where
  "save_stack kvs = thenP (modP (\<lambda>st. st\<lparr>sk_file := Some (Value (JObj kvs))\<rparr>)) (stk_log (Stack_saved kvs))"

definition OPTIONAL_PORTS :: "(string \<times> int) list" where
  "OPTIONAL_PORTS = [(''tempo'', 3200), (''loki'', 3100), (''metrics'', 9090)]"

definition STACK_VERSION :: int where "STACK_VERSION = 2"

definition QUADLET_NAME :: string where "QUADLET_NAME = ''ci-observe-backend''"
definition QUADLET_CONTAINER :: string where "QUADLET_CONTAINER = ''ci-observe-lgtm''"
definition QUADLET_VOLUME :: string where "QUADLET_VOLUME = ''ci-observe-lgtm-quadlet-data''"

definition QUADLET_PORTS :: "(string \<times> int) list" where
  "QUADLET_PORTS = [(''ui'', 3300), (''otlp'', 4318), (''tempo'', 3200), (''loki'', 3100), (''metrics'', 9092)]"

record up_args =
  ua_quadlet :: bool
  ua_ui :: int
  ua_otlp :: int
  ua_optional :: "string \<Rightarrow> int"
  ua_iid :: string                            \<comment> \<open>\<open>instance_id(state_dir)\<close>\<close>
  ua_overrides :: bool                        \<comment> \<open>whether the four override files are there\<close>
  ua_path :: "string \<Rightarrow> string"               \<comment> \<open>the resolved path of an override\<close>
  ua_overrides_dir :: string
  ua_config :: string                        \<comment> \<open>the directory \<open>config\<close> of the state directory\<close>

definition container_name :: "string \<Rightarrow> string" where "container_name iid = ''ci-observe-lgtm-'' @ iid"
definition volume_name :: "string \<Rightarrow> string" where "volume_name iid = ''ci-observe-lgtm-data-'' @ iid"

datatype up_status = Started | Restarted | Already_up

definition stack_fields :: "up_args \<Rightarrow> int \<Rightarrow> int \<Rightarrow> (string \<times> json) list \<Rightarrow> (string \<times> json) list" where
  "stack_fields args ui otlp opt =
     [(''version'', JInt STACK_VERSION), (''container'', JStr (container_name (ua_iid args))), (''volume'', JStr (volume_name (ua_iid args))),
      (''image'', JStr LGTM_IMAGE), (''ui_port'', JInt ui), (''otlp_port'', JInt otlp)] @
     map (\<lambda>(name, inner). (name @ ''_port'', obj_get opt name)) OPTIONAL_PORTS @
     [(''lgtm_overrides'', JStr (ua_overrides_dir args))]"

section \<open>The state directory\<close>

text \<open>What is found at the path of the state directory; without a marker file, \<open>pf_marker\<close> is \<open>None\<close>.\<close>

record path_facts =
  pf_symlink :: bool
  pf_exists :: bool
  pf_dir :: bool
  pf_canonical :: bool
  pf_mine :: bool
  pf_mode :: nat
  pf_marker :: "json_file option"
  pf_empty :: bool

definition TOOL :: string where "TOOL = ''ci-observe''"

definition marker_ok :: "json_file \<Rightarrow> cap_exn + unit" where
  "marker_ok f = (case f of
       Not_text \<Rightarrow> Inl Crash
     | Value (JObj kvs) \<Rightarrow> if obj_get kvs ''tool'' = JStr TOOL then Inr () else Inl Refused
     | _ \<Rightarrow> Inl Refused)"

text \<open>Whether the directory is created, and whether the marker is written.\<close>

definition resolve_state_dir :: "path_facts \<Rightarrow> cap_exn + bool \<times> bool" where
  "resolve_state_dir p =
     (if pf_symlink p then Inl Refused
      else if \<not> pf_exists p then Inr (True, True)
      else if \<not> pf_dir p \<or> \<not> pf_canonical p \<or> \<not> pf_mine p \<or> pf_mode p mod 64 \<noteq> 0 then Inl Refused
      else (case pf_marker p of
          Some m \<Rightarrow> bindE (marker_ok m) (\<lambda>_. Inr (False, False))
        | None \<Rightarrow> if pf_empty p then Inr (False, True) else Inl Refused))"

text \<open>A directory that is there is used only when it is private, really at its path, and either marked as the tool's or empty.\<close>

lemma state_dir_is_owned:
  "resolve_state_dir p = Inr (created, marked) \<Longrightarrow> \<not> pf_symlink p \<and> created = (\<not> pf_exists p) \<and>
     (pf_exists p \<longrightarrow> pf_dir p \<and> pf_canonical p \<and> pf_mine p \<and> 64 dvd pf_mode p \<and>
       (if marked then pf_empty p \<and> pf_marker p = None
        else \<exists>kvs. pf_marker p = Some (Value (JObj kvs)) \<and> obj_get kvs ''tool'' = JStr TOOL))"
  by (auto simp: resolve_state_dir_def marker_ok_def bindE_Inr_iff dvd_eq_mod_eq_0 split: if_splits option.splits json_file.splits json.splits)

section \<open>up\<close>

text \<open>An existing container keeps the ports it was created with.\<close>

definition keep_ports :: "up_args \<Rightarrow> (string \<times> json) list \<Rightarrow> cap_exn + (string \<times> json) list" where
  "keep_ports args stack = mapE (\<lambda>(name, inner). let port = ua_optional args name; recorded = obj_get stack (name @ ''_port'') in
     if port \<noteq> 0 \<and> py_key recorded \<noteq> JInt port then Inl Refused else Inr (name, recorded)) OPTIONAL_PORTS"

definition resume_stack ::
  "nat \<Rightarrow> 'w stk_sys \<Rightarrow> up_args \<Rightarrow> container_info \<Rightarrow> ('w, up_status \<times> int \<times> int \<times> (string \<times> json) list) stk" where
  "resume_stack fuel sys args info = (let container = container_name (ua_iid args) in
     thenP (require_owned_stack info)
     (if \<not> image_matches (ct_image info) LGTM_IMAGE then raise Refused
      else bindP load_stack (\<lambda>stack. case stack of
          None \<Rightarrow> raise Refused
        | Some stack \<Rightarrow> if py_key (obj_get stack ''version'') \<noteq> JInt STACK_VERSION then raise Refused
            else bindP (liftP (keep_ports args stack)) (\<lambda>opt.
              thenP (if ct_running info then ret ()
                 else thenP (podman_do sys [''start'', container]) (bindP (published_port sys container 3000) (\<lambda>port. wait_healthy fuel sys port 120)))
              (bindP (published_port sys container 3000) (\<lambda>ui. bindP (published_port sys container 4318) (\<lambda>otlp.
                ret (if ct_running info then Already_up else Restarted, ui, otlp, opt))))))))"

text \<open>The ports of a new container: all of them different, and free.\<close>

definition requested :: "up_args \<Rightarrow> (string \<times> int \<times> int) list" where
  "requested args = filter (\<lambda>(name, inner, port). port \<noteq> 0) (map (\<lambda>(name, inner). (name, inner, ua_optional args name)) OPTIONAL_PORTS)"

definition take_port :: "int list \<Rightarrow> int \<Rightarrow> cap_exn + int list" where
  "take_port taken port = (if port \<in> set taken then Inl Refused else Inr (port # taken))"

definition check_ports :: "'w stk_sys \<Rightarrow> up_args \<Rightarrow> ('w, unit) stk" where
  "check_ports sys args =
     (if ua_ui args \<noteq> 0 \<and> ua_ui args = ua_otlp args then raise Refused
      else bindP (liftP (foldE take_port (filter (\<lambda>p. p \<noteq> 0) [ua_ui args, ua_otlp args]) (map (snd \<circ> snd) (requested args)))) (\<lambda>taken.
        thenP (check_port_free sys (ua_ui args)) (thenP (check_port_free sys (ua_otlp args))
          (forP (\<lambda>(name, inner, port). check_port_free sys port) (requested args)))))"

definition volume_inspect :: "string \<Rightarrow> string list" where
  "volume_inspect volume = [''volume'', ''inspect'', ''--format'', ''{{json .Labels}}'', volume]"

definition read_labels :: "'w stk_sys \<Rightarrow> string \<Rightarrow> cap_exn + (string \<times> json) list" where
  "read_labels sys out = (case st_json sys (strip out) of
       None \<Rightarrow> Inl Crash
     | Some j \<Rightarrow> if \<not> truthy j then Inr [] else (case j of JObj kvs \<Rightarrow> Inr kvs | _ \<Rightarrow> Inl Crash))"

definition claim_volume :: "'w stk_sys \<Rightarrow> string \<Rightarrow> ('w, unit) stk" where
  "claim_volume sys volume = bindP (podman_result sys (volume_inspect volume)) (\<lambda>(ok, out).
     if ok then bindP (liftP (read_labels sys out)) (\<lambda>labels. if owned_labels labels then ret () else raise Refused)
     else podman_do sys [''volume'', ''create'', ''--label'', OWNED_LABEL @ ''=true'', volume])"

definition LOOPBACK :: string where "LOOPBACK = ''127.0.0.1:''"

definition port_map :: "int \<Rightarrow> int \<Rightarrow> string" where
  "port_map port inner = LOOPBACK @ (if port = 0 then [] else show_int port) @ '':'' @ show_int inner"

definition port_maps :: "up_args \<Rightarrow> string list" where
  "port_maps args = port_map (ua_ui args) 3000 # port_map (ua_otlp args) 4318 #
     map (\<lambda>(name, inner, port). port_map port inner) (requested args)"

definition run_args :: "up_args \<Rightarrow> string list" where
  "run_args args =
     [''run'', ''-d'', ''--name'', container_name (ua_iid args), ''--label'', OWNED_LABEL @ ''=true'', ''--label'', ''osac.ci-observe.state='' @ ua_iid args] @
     concat (map (\<lambda>m. [''-p'', m]) (port_maps args)) @
     [''-v'', volume_name (ua_iid args) @ '':/data'',
      ''-v'', ua_path args ''prometheus.yaml'' @ '':/otel-lgtm/prometheus.yaml:ro,Z'',
      ''-v'', ua_path args ''loki-config.yaml'' @ '':/otel-lgtm/loki-config.yaml:ro,Z'',
      ''-v'', ua_path args ''pyroscope-stub.sh'' @ '':/otel-lgtm/run-pyroscope.sh:ro,Z'', LGTM_IMAGE]"

definition create_stack ::
  "nat \<Rightarrow> 'w stk_sys \<Rightarrow> up_args \<Rightarrow> ('w, up_status \<times> int \<times> int \<times> (string \<times> json) list) stk" where
  "create_stack fuel sys args = (let container = container_name (ua_iid args) in
     thenP (check_ports sys args) (thenP (claim_volume sys (volume_name (ua_iid args)))
     (thenP (podman_do sys (run_args args))
     (bindP (published_port sys container 3000) (\<lambda>ui. bindP (published_port sys container 4318) (\<lambda>otlp.
      bindP (foldP (\<lambda>opt (name, inner, port). bindP (published_port sys container inner) (\<lambda>p. ret (dict_set name (JInt p) opt)))
        (map (\<lambda>(name, inner). (name, JNull)) OPTIONAL_PORTS) (requested args)) (\<lambda>opt.
      thenP (catchP (wait_healthy fuel sys ui 120)
          (\<lambda>e. if e \<in> {Refused, Backend_down} then bindP (podman_result sys [''rm'', ''-f'', container]) (\<lambda>r. raise e) else raise e))
        (ret (Started, ui, otlp, opt)))))))))"

definition up_stack :: "nat \<Rightarrow> 'w stk_sys \<Rightarrow> up_args \<Rightarrow> ('w, up_status) stk" where
  "up_stack fuel sys args =
     (if \<not> ua_overrides args then raise Refused
      else if list_ex (\<lambda>(name, inner). ua_optional args name < 0) OPTIONAL_PORTS then raise Refused
      else bindP (inspect_stack sys (container_name (ua_iid args))) (\<lambda>info.
        bindP (case info of None \<Rightarrow> create_stack fuel sys args | Some i \<Rightarrow> resume_stack fuel sys args i) (\<lambda>(status, ui, otlp, opt).
        thenP (save_stack (stack_fields args ui otlp opt)) (ret status))))"

definition systemctl_user :: "'w stk_sys \<Rightarrow> string list \<Rightarrow> ('w, unit) stk" where
  "systemctl_user sys args = bindP (stk_ask (\<lambda>w. st_systemctl sys w args)) (\<lambda>ok. thenP (stk_log (Systemctl args))
     (if ok then ret () else raise Refused))"

definition quadlet_fields :: "up_args \<Rightarrow> (string \<times> json) list" where
  "quadlet_fields args =
     [(''version'', JInt STACK_VERSION), (''managed'', JStr ''quadlet''), (''container'', JStr QUADLET_CONTAINER), (''volume'', JStr QUADLET_VOLUME),
      (''image'', JStr LGTM_IMAGE)] @ map (\<lambda>(name, port). (name @ ''_port'', JInt port)) QUADLET_PORTS @ [(''lgtm_overrides'', JStr (ua_config args))]"

definition OVERRIDES :: "string list" where
  "OVERRIDES = [''prometheus.yaml'', ''loki-config.yaml'', ''tempo-config.yaml'', ''pyroscope-stub.sh'']"

definition quadlet_publish :: "int \<Rightarrow> int \<Rightarrow> string" where
  "quadlet_publish port inner = ''PublishPort='' @ LOOPBACK @ show_int port @ '':'' @ show_int inner"

definition render_quadlet :: "string \<Rightarrow> string list" where
  "render_quadlet config =
     [''[Unit]'', ''Description=ci-observe telemetry backend (Grafana LGTM stack)'', [], ''[Container]'', ''ContainerName='' @ QUADLET_CONTAINER, ''Image='' @ LGTM_IMAGE,
      ''Environment=PROMETHEUS_EXTRA_ARGS=--storage.tsdb.retention.time=30d'', ''Label='' @ OWNED_LABEL @ ''=true'', ''Label=osac.ci-observe.state=quadlet'',
      quadlet_publish 3300 3000, quadlet_publish 4318 4318, quadlet_publish 3200 3200, quadlet_publish 3100 3100, quadlet_publish 9092 9090,
      ''Volume='' @ QUADLET_VOLUME @ '':/data'',
      ''Volume='' @ config @ ''/prometheus.yaml:/otel-lgtm/prometheus.yaml:ro,Z'',
      ''Volume='' @ config @ ''/loki-config.yaml:/otel-lgtm/loki-config.yaml:ro,Z'',
      ''Volume='' @ config @ ''/tempo-config.yaml:/otel-lgtm/tempo-config.yaml:ro,Z'',
      ''Volume='' @ config @ ''/pyroscope-stub.sh:/otel-lgtm/run-pyroscope.sh:ro,Z'',
      [], ''[Service]'', ''Restart=on-failure'', [], ''[Install]'', ''WantedBy=default.target'', []]"

definition up_quadlet :: "nat \<Rightarrow> 'w stk_sys \<Rightarrow> up_args \<Rightarrow> ('w, up_status) stk" where
  "up_quadlet fuel sys args =
     (if \<not> ua_overrides args then raise Refused
      else thenP (forP (\<lambda>name. stk_log (Override_copied name (name = ''pyroscope-stub.sh''))) OVERRIDES)
        (thenP (stk_log (Unit_written (render_quadlet (ua_config args)))) (thenP (systemctl_user sys [''daemon-reload''])
        (thenP (systemctl_user sys [''restart'', QUADLET_NAME @ ''.service''])
        (thenP (wait_healthy fuel sys 3300 120) (thenP (save_stack (quadlet_fields args)) (ret Started)))))))"

definition cmd_up :: "nat \<Rightarrow> 'w stk_sys \<Rightarrow> up_args \<Rightarrow> ('w, up_status) stk" where
  "cmd_up fuel sys args = (if ua_quadlet args then up_quadlet fuel sys args else up_stack fuel sys args)"

text \<open>Capturing to local files is suspended.\<close>

definition cmd_capture :: "('w, unit) stk" where
  "cmd_capture = raise Refused"

section \<open>down\<close>

datatype down_status = Unit_stopped | Not_running | Down bool bool     \<comment> \<open>container and volume preserved\<close>

definition purge_volume :: "'w stk_sys \<Rightarrow> string \<Rightarrow> ('w, bool) stk" where
  "purge_volume sys volume = bindP (podman_result sys (volume_inspect volume)) (\<lambda>(ok, out).
     if \<not> ok then ret True
     else bindP (liftP (read_labels sys out)) (\<lambda>labels.
       if \<not> owned_labels labels then raise Refused else thenP (podman_do sys [''volume'', ''rm'', volume]) (ret False)))"

definition cmd_down :: "'w stk_sys \<Rightarrow> string \<Rightarrow> bool \<Rightarrow> ('w, down_status) stk" where
  "cmd_down sys iid purge = bindP load_stack (\<lambda>stack.
     if (case stack of None \<Rightarrow> False | Some kvs \<Rightarrow> obj_get kvs ''managed'' = JStr ''quadlet'')
     then thenP (systemctl_user sys [''stop'', QUADLET_NAME @ ''.service'']) (ret Unit_stopped)
     else bindP (inspect_stack sys (container_name iid)) (\<lambda>info. case info of
         None \<Rightarrow> ret Not_running
       | Some i \<Rightarrow> thenP (require_owned_stack i)
          (thenP (if ct_running i then podman_do sys [''stop'', ''-t'', ''60'', container_name iid] else ret ())
          (bindP (if purge then thenP (podman_do sys [''rm'', container_name iid]) (purge_volume sys (volume_name iid)) else ret True) (\<lambda>kept.
            ret (Down (\<not> purge) kept))))))"

section \<open>What is known to be owned\<close>

text \<open>The container or volume that a command starts, stops or removes.\<close>

definition container_of :: "string list \<Rightarrow> string option" where
  "container_of args = (if args \<noteq> [] \<and> hd args \<in> {''start'', ''stop'', ''rm''} then Some (last args) else None)"

definition removed_volume :: "string list \<Rightarrow> string option" where
  "removed_volume args = (if take 2 args = [''volume'', ''rm''] then Some (last args) else None)"

text \<open>The log shows that a container carries the label of the tool or was created by it; the same for a volume.\<close>

definition owned_container :: "stk_event list \<Rightarrow> string \<Rightarrow> bool" where
  "owned_container log c \<longleftrightarrow> (\<exists>i. Inspected c (Container i) \<in> set log \<and> owned_labels (ct_labels i)) \<or>
     (\<exists>args out. Podman args (Some (True, out)) \<in> set log \<and> take 4 args = [''run'', ''-d'', ''--name'', c])"

definition owned_volume :: "'w stk_sys \<Rightarrow> stk_event list \<Rightarrow> string \<Rightarrow> bool" where
  "owned_volume sys log v \<longleftrightarrow>
     (\<exists>out labels. Podman (volume_inspect v) (Some (True, out)) \<in> set log \<and> read_labels sys out = Inr labels \<and> owned_labels labels) \<or>
     (\<exists>out. Podman [''volume'', ''create'', ''--label'', OWNED_LABEL @ ''=true'', v] (Some (True, out)) \<in> set log)"

definition published :: "up_args \<Rightarrow> int list" where
  "published args = filter (\<lambda>p. p \<noteq> 0) [ua_ui args, ua_otlp args] @ map (snd \<circ> snd) (requested args)"

fun event_ok :: "'w stk_sys \<Rightarrow> stk_event list \<Rightarrow> stk_event \<Rightarrow> bool" where
  "event_ok sys log (Podman args r) =
     ((case container_of args of None \<Rightarrow> True | Some c \<Rightarrow> owned_container log c) \<and>
      (case removed_volume args of None \<Rightarrow> True | Some v \<Rightarrow> owned_volume sys log v) \<and>
      (args \<noteq> [] \<and> hd args = ''run'' \<longrightarrow> (\<exists>a. args = run_args a \<and> Inspected (container_name (ua_iid a)) No_container \<in> set log \<and>
         owned_volume sys log (volume_name (ua_iid a)) \<and> distinct (published a))))"
| "event_ok sys log e = True"

text \<open>The log so far is as it should be, and has the events \<open>es\<close>.\<close>

definition stk_inv :: "'w stk_sys \<Rightarrow> stk_event list \<Rightarrow> 'w stk_state \<Rightarrow> bool" where
  "stk_inv sys es st \<longleftrightarrow> every_event (event_ok sys) (sk_log st) \<and> set es \<subseteq> set (sk_log st)"

named_theorems stk_rules \<open>programs that keep the invariant of the log\<close>

lemma stk_ask_keeps [stk_rules]: "keeps (stk_inv sys es) (stk_ask f)"
  by (auto simp: keeps_def stk_ask_def stk_inv_def split: prod.split)

lemma stk_log_keeps [stk_rules]: "(\<And>log. set es \<subseteq> set log \<Longrightarrow> event_ok sys log e) \<Longrightarrow> keeps (stk_inv sys es) (stk_log e)"
  by (auto simp: keeps_def stk_log_def stk_inv_def)

lemma hoare_stk_log:
  "(\<And>log. set es \<subseteq> set log \<Longrightarrow> event_ok sys log e) \<Longrightarrow> hoare (stk_inv sys es) (stk_log e) (\<lambda>_. stk_inv sys (e # es)) E"
  by (auto simp: hoare_def stk_log_def stk_inv_def)

lemma stk_inv_mono: "stk_inv sys (e # es) st \<Longrightarrow> stk_inv sys es st"
  by (simp add: stk_inv_def)

lemma hoare_keeps: "keeps (stk_inv sys es) m \<Longrightarrow> hoare (stk_inv sys es) m (\<lambda>_. stk_inv sys es) (\<lambda>_. stk_inv sys es)"
  by (simp add: keeps_hoare)

lemma hoare_inspect_stack:
  "hoare (stk_inv sys es) (inspect_stack sys name)
     (\<lambda>r. stk_inv sys (Inspected name (case r of None \<Rightarrow> No_container | Some i \<Rightarrow> Container i) # es)) (\<lambda>_. stk_inv sys es)"
  unfolding inspect_stack_def
proof (intro hoare_bind [OF hoare_keeps [OF stk_ask_keeps]] hoare_then)
  fix a
  show "hoare (stk_inv sys es) (stk_log (Inspected name a)) (\<lambda>_. stk_inv sys (Inspected name a # es)) (\<lambda>_. stk_inv sys es)"
    by (rule hoare_stk_log) simp
  show "hoare (stk_inv sys (Inspected name a # es))
     (case a of No_podman \<Rightarrow> raise Refused | Unreadable \<Rightarrow> raise Crash | No_container \<Rightarrow> ret None | Container i \<Rightarrow> ret (Some i))
     (\<lambda>r. stk_inv sys (Inspected name (case r of None \<Rightarrow> No_container | Some i \<Rightarrow> Container i) # es)) (\<lambda>_. stk_inv sys es)"
    by (cases a) (auto simp: hoare_def stk_inv_mono)
qed

lemma hoare_podman_result:
  assumes "\<And>log r. set es \<subseteq> set log \<Longrightarrow> event_ok sys log (Podman args r)"
  shows "hoare (stk_inv sys es) (podman_result sys args) (\<lambda>x. stk_inv sys (Podman args (Some x) # es)) (\<lambda>_. stk_inv sys es)"
  unfolding podman_result_def
proof (intro hoare_bind [OF hoare_keeps [OF stk_ask_keeps]] hoare_then)
  fix r
  show "hoare (stk_inv sys es) (stk_log (Podman args r)) (\<lambda>_. stk_inv sys (Podman args r # es)) (\<lambda>_. stk_inv sys es)"
    by (rule hoare_stk_log) (rule assms)
  show "hoare (stk_inv sys (Podman args r # es)) (case r of None \<Rightarrow> raise Refused | Some x \<Rightarrow> ret x)
     (\<lambda>x. stk_inv sys (Podman args (Some x) # es)) (\<lambda>_. stk_inv sys es)"
    by (cases r) (auto simp: hoare_def stk_inv_mono)
qed

lemma hoare_podman_do:
  assumes "\<And>log r. set es \<subseteq> set log \<Longrightarrow> event_ok sys log (Podman args r)"
  shows "hoare (stk_inv sys es) (podman_do sys args) (\<lambda>_ st. \<exists>out. stk_inv sys (Podman args (Some (True, out)) # es) st) (\<lambda>_. stk_inv sys es)"
  unfolding podman_do_def podman_output_def
proof (intro hoare_bind [OF hoare_bind [OF hoare_podman_result [OF assms]]])
  fix x :: "bool \<times> string"
  show "hoare (stk_inv sys (Podman args (Some x) # es)) (case x of (ok, out) \<Rightarrow> if ok then ret out else raise Refused)
     (\<lambda>out. stk_inv sys (Podman args (Some (True, out)) # es)) (\<lambda>_. stk_inv sys es)"
    by (cases x) (auto simp: hoare_def stk_inv_mono)
qed (auto simp: hoare_def)

lemma podman_result_keeps:
  "(\<And>log r. set es \<subseteq> set log \<Longrightarrow> event_ok sys log (Podman args r)) \<Longrightarrow> keeps (stk_inv sys es) (podman_result sys args)"
  unfolding keeps_hoare by (rule hoare_conseq [OF hoare_podman_result]) (auto intro: stk_inv_mono)

lemma podman_output_keeps:
  "(\<And>log r. set es \<subseteq> set log \<Longrightarrow> event_ok sys log (Podman args r)) \<Longrightarrow> keeps (stk_inv sys es) (podman_output sys args)"
  unfolding podman_output_def by (intro keeps_bind podman_result_keeps) (auto intro: keeps_ret keeps_raise)

lemma podman_do_keeps:
  "(\<And>log r. set es \<subseteq> set log \<Longrightarrow> event_ok sys log (Podman args r)) \<Longrightarrow> keeps (stk_inv sys es) (podman_do sys args)"
  unfolding podman_do_def by (intro keeps_bind podman_output_keeps keeps_ret) auto

lemma published_port_keeps [stk_rules]: "keeps (stk_inv sys es) (published_port sys container inner)"
  unfolding published_port_def
  by (intro keeps_bind podman_output_keeps)
    (auto simp: container_of_def removed_volume_def intro!: keeps_ret keeps_raise split: list.split option.split)

lemma health_loop_keeps: "keeps (stk_inv sys es) (health_loop fuel sys port deadline)"
proof (induction fuel)
  case (Suc fuel)
  then show ?case unfolding health_loop.simps by (intro keeps_bind keeps_if keeps_ret keeps_raise stk_rules)
qed (simp only: health_loop.simps keeps_raise)

lemma wait_healthy_keeps [stk_rules]: "keeps (stk_inv sys es) (wait_healthy fuel sys port timeout)"
  unfolding wait_healthy_def by (intro keeps_bind stk_rules health_loop_keeps)

lemma load_stack_keeps [stk_rules]: "keeps (stk_inv sys es) load_stack"
  unfolding load_stack_def
  by (intro keeps_bind keeps_getP) (auto intro!: keeps_ret keeps_raise split: option.split json_file.split json.split)

lemma save_stack_keeps [stk_rules]: "keeps (stk_inv sys es) (save_stack kvs)"
  unfolding save_stack_def by (intro keeps_then stk_rules) (auto simp: keeps_def stk_inv_def)

lemma systemctl_keeps [stk_rules]: "keeps (stk_inv sys es) (systemctl_user sys args)"
  unfolding systemctl_user_def by (intro keeps_bind keeps_then keeps_if keeps_ret keeps_raise stk_rules) simp

lemma check_port_keeps [stk_rules]: "keeps (stk_inv sys es) (check_port_free sys port)"
  unfolding check_port_free_def by (intro keeps_bind keeps_if keeps_ret keeps_raise stk_rules)

section \<open>Ports\<close>

lemma take_ports_distinct: "foldE take_port taken ps = Inr taken' \<Longrightarrow> distinct taken \<Longrightarrow> distinct (taken @ ps)"
proof (induction ps arbitrary: taken)
  case (Cons p ps)
  then have "p \<notin> set taken" "foldE take_port (p # taken) ps = Inr taken'"
    by (auto simp: take_port_def [of taken p] bindE_Inr_iff split: if_splits)
  with Cons.IH [of "p # taken"] Cons.prems(2) show ?case by auto
qed simp

lemma hoare_check_ports:
  "hoare (stk_inv sys es) (check_ports sys args) (\<lambda>_ st. distinct (published args) \<and> stk_inv sys es st) (\<lambda>_. stk_inv sys es)"
proof -
  let ?free = "thenP (check_port_free sys (ua_ui args)) (thenP (check_port_free sys (ua_otlp args))
     (forP (\<lambda>(name, inner, port). check_port_free sys port) (requested args)))"
  let ?r = "foldE take_port (filter (\<lambda>p. p \<noteq> 0) [ua_ui args, ua_otlp args]) (map (snd \<circ> snd) (requested args))"
  have free: "hoare (stk_inv sys es) ?free (\<lambda>_. stk_inv sys es) (\<lambda>_. stk_inv sys es)"
    by (intro hoare_keeps keeps_then keeps_forP stk_rules) (auto intro: stk_rules)
  show ?thesis
  proof (cases "ua_ui args \<noteq> 0 \<and> ua_ui args = ua_otlp args")
    case False
    show ?thesis
    proof (cases ?r)
      case (Inr taken)
      have "distinct (filter (\<lambda>p. p \<noteq> 0) [ua_ui args, ua_otlp args])" using False by auto
      from take_ports_distinct [OF Inr this] have "distinct (published args)" by (simp only: published_def)
      with free show ?thesis
        unfolding check_ports_def if_not_P [OF False] Inr
        by (auto simp: hoare_def bindP_def split: prod.splits sum.splits)
    qed (simp add: check_ports_def hoare_def bindP_def if_not_P [OF False])
  qed (simp add: check_ports_def hoare_def)
qed

section \<open>Commands act on what is owned\<close>

lemma owned_label_known: "Inspected c (Container i) \<in> set es \<Longrightarrow> owned_labels (ct_labels i) \<Longrightarrow> set es \<subseteq> set log \<Longrightarrow> owned_container log c"
  unfolding owned_container_def by blast

lemma created_known: "Podman (run_args a) (Some (True, out)) \<in> set es \<Longrightarrow> set es \<subseteq> set log \<Longrightarrow> owned_container log (container_name (ua_iid a))"
  unfolding owned_container_def run_args_def by (intro disjI2 exI conjI, erule subsetD [rotated], assumption) simp

lemma harmless_podman:
  "args \<noteq> [] \<Longrightarrow> hd args \<notin> {''start'', ''stop'', ''rm'', ''run''} \<Longrightarrow> take 2 args \<noteq> [''volume'', ''rm''] \<Longrightarrow> event_ok sys log (Podman args r)"
  by (simp add: container_of_def removed_volume_def)

lemma container_podman:
  "args \<noteq> [] \<Longrightarrow> hd args \<in> {''start'', ''stop'', ''rm''} \<Longrightarrow> owned_container log (last args) \<Longrightarrow> event_ok sys log (Podman args r)"
  by (cases args) (auto simp: container_of_def removed_volume_def)

lemma hoare_claim_volume:
  "hoare (stk_inv sys es) (claim_volume sys v) (\<lambda>_ st. \<exists>e. (\<forall>log. e \<in> set log \<longrightarrow> owned_volume sys log v) \<and> stk_inv sys (e # es) st)
     (\<lambda>_. stk_inv sys es)"
  unfolding claim_volume_def
proof (rule hoare_bind [OF hoare_podman_result])
  show "event_ok sys log (Podman (volume_inspect v) r)" for log r
    by (rule harmless_podman) (simp_all add: volume_inspect_def)
  fix x :: "bool \<times> string"
  obtain ok out where x: "x = (ok, out)" by fastforce
  let ?e = "Podman (volume_inspect v) (Some x)" and ?c = "[''volume'', ''create'', ''--label'', OWNED_LABEL @ ''=true'', v]"
  have found: "hoare (stk_inv sys (?e # es)) (bindP (liftP (read_labels sys out)) (\<lambda>labels. if owned_labels labels then ret () else raise Refused))
     (\<lambda>_ st. \<exists>e. (\<forall>log. e \<in> set log \<longrightarrow> owned_volume sys log v) \<and> stk_inv sys (e # es) st) (\<lambda>_. stk_inv sys es)" if ok
  proof (cases "read_labels sys out")
    case (Inr labels)
    then have "owned_labels labels \<Longrightarrow> \<forall>log. ?e \<in> set log \<longrightarrow> owned_volume sys log v"
      using that unfolding owned_volume_def x by auto
    with Inr show ?thesis by (auto simp: hoare_def bindP_def stk_inv_mono)
  qed (auto simp: hoare_def bindP_def stk_inv_mono)
  have create: "hoare (stk_inv sys (?e # es)) (podman_do sys ?c)
     (\<lambda>_ st. \<exists>e. (\<forall>log. e \<in> set log \<longrightarrow> owned_volume sys log v) \<and> stk_inv sys (e # es) st) (\<lambda>_. stk_inv sys es)"
  proof (rule hoare_conseq [OF hoare_podman_do])
    show "event_ok sys log (Podman ?c r)" for log r by (rule harmless_podman) simp_all
    fix u st
    assume "\<exists>out. stk_inv sys (Podman ?c (Some (True, out)) # ?e # es) st"
    then obtain out where "stk_inv sys (Podman ?c (Some (True, out)) # es) st" by (auto simp: stk_inv_def)
    moreover have "\<forall>log. Podman ?c (Some (True, out)) \<in> set log \<longrightarrow> owned_volume sys log v" unfolding owned_volume_def by blast
    ultimately show "\<exists>e. (\<forall>log. e \<in> set log \<longrightarrow> owned_volume sys log v) \<and> stk_inv sys (e # es) st" by blast
  qed (auto intro: stk_inv_mono)
  show "hoare (stk_inv sys (?e # es)) (case x of (ok, out) \<Rightarrow> if ok then bindP (liftP (read_labels sys out)) (\<lambda>labels. if owned_labels labels then ret () else raise Refused)
       else podman_do sys ?c) (\<lambda>_ st. \<exists>e. (\<forall>log. e \<in> set log \<longrightarrow> owned_volume sys log v) \<and> stk_inv sys (e # es) st) (\<lambda>_. stk_inv sys es)"
    unfolding x prod.case using found create x by (cases ok) simp_all
qed

lemma create_stack_keeps:
  assumes "Inspected (container_name (ua_iid args)) No_container \<in> set es"
  shows "keeps (stk_inv sys es) (create_stack fuel sys args)"
proof -
  let ?c = "container_name (ua_iid args)" and ?v = "volume_name (ua_iid args)"
  let ?any = "\<lambda>es. hoare (stk_inv sys es)"
  have after: "keeps (stk_inv sys es') (bindP (published_port sys ?c 3000) (\<lambda>ui. bindP (published_port sys ?c 4318) (\<lambda>otlp.
      bindP (foldP (\<lambda>opt (name, inner, port). bindP (published_port sys ?c inner) (\<lambda>p. ret (dict_set name (JInt p) opt)))
        (map (\<lambda>(name, inner). (name, JNull)) OPTIONAL_PORTS) (requested args)) (\<lambda>opt.
      thenP (catchP (wait_healthy fuel sys ui 120)
          (\<lambda>e. if e \<in> {Refused, Backend_down} then bindP (podman_result sys [''rm'', ''-f'', ?c]) (\<lambda>r. raise e) else raise e))
        (ret (Started, ui, otlp, opt))))))" if "Podman (run_args args) (Some (True, out)) \<in> set es'" for es' out
  proof -
    have rm: "keeps (stk_inv sys es') (podman_result sys [''rm'', ''-f'', ?c])"
      by (rule podman_result_keeps, rule container_podman) (simp_all add: created_known [OF that])
    show ?thesis
      by (intro keeps_bind keeps_then keeps_catch keeps_if keeps_ret keeps_raise stk_rules keeps_foldP rm)
        (auto intro!: keeps_bind keeps_ret stk_rules)
  qed
  have run: "hoare (stk_inv sys (e # es)) (podman_do sys (run_args args))
      (\<lambda>_ st. \<exists>out. stk_inv sys (Podman (run_args args) (Some (True, out)) # e # es) st) (\<lambda>_. stk_inv sys (e # es))"
    if "\<forall>log. e \<in> set log \<longrightarrow> owned_volume sys log ?v" "distinct (published args)" for e
  proof (rule hoare_podman_do)
    fix log r assume "set (e # es) \<subseteq> set log"
    then have "\<exists>a. run_args args = run_args a \<and> Inspected (container_name (ua_iid a)) No_container \<in> set log \<and>
        owned_volume sys log (volume_name (ua_iid a)) \<and> distinct (published a)"
      using that assms by (intro exI [of _ args]) auto
    then show "event_ok sys log (Podman (run_args args) r)"
      unfolding event_ok.simps by (intro conjI impI) (simp_all add: container_of_def removed_volume_def run_args_def)
  qed
  have rest: "hoare (stk_inv sys (e # es)) (thenP (podman_do sys (run_args args)) m) (\<lambda>_. stk_inv sys es) (\<lambda>_. stk_inv sys es)"
    if "\<forall>log. e \<in> set log \<longrightarrow> owned_volume sys log ?v" "distinct (published args)"
      "\<And>es' out. Podman (run_args args) (Some (True, out)) \<in> set es' \<Longrightarrow> keeps (stk_inv sys es') m" for e m
  proof (rule hoare_then)
    show "hoare (stk_inv sys (e # es)) (podman_do sys (run_args args))
        (\<lambda>_ st. \<exists>out. stk_inv sys (Podman (run_args args) (Some (True, out)) # e # es) st) (\<lambda>_. stk_inv sys es)"
      by (rule hoare_conseq [OF run [OF that(1,2)]]) (auto intro: stk_inv_mono)
    show "hoare (\<lambda>st. \<exists>out. stk_inv sys (Podman (run_args args) (Some (True, out)) # e # es) st) m (\<lambda>_. stk_inv sys es) (\<lambda>_. stk_inv sys es)"
    proof (rule hoare_ex)
      fix out
      let ?es = "Podman (run_args args) (Some (True, out)) # e # es"
      have "keeps (stk_inv sys ?es) m" by (rule that(3) [of out]) simp
      then show "hoare (stk_inv sys ?es) m (\<lambda>_. stk_inv sys es) (\<lambda>_. stk_inv sys es)"
        unfolding keeps_hoare by (rule hoare_conseq) (auto simp: stk_inv_def)
    qed
  qed
  have claim: "hoare (\<lambda>st. distinct (published args) \<and> stk_inv sys es st) (thenP (claim_volume sys ?v) (thenP (podman_do sys (run_args args)) m))
      (\<lambda>_. stk_inv sys es) (\<lambda>_. stk_inv sys es)"
    if "\<And>es' out. Podman (run_args args) (Some (True, out)) \<in> set es' \<Longrightarrow> keeps (stk_inv sys es') m" for m
  proof (rule hoare_pure, rule hoare_then [OF hoare_claim_volume])
    assume "distinct (published args)"
    show "hoare (\<lambda>st. \<exists>e. (\<forall>log. e \<in> set log \<longrightarrow> owned_volume sys log ?v) \<and> stk_inv sys (e # es) st) (thenP (podman_do sys (run_args args)) m)
        (\<lambda>_. stk_inv sys es) (\<lambda>_. stk_inv sys es)"
      by (rule hoare_ex, rule hoare_pure, rule rest) (use \<open>distinct (published args)\<close> that in auto)
  qed
  show ?thesis
    unfolding keeps_hoare create_stack_def Let_def
    by (rule hoare_then [OF hoare_check_ports claim]) (rule after)
qed

lemma resume_stack_keeps:
  assumes "Inspected (container_name (ua_iid args)) (Container info) \<in> set es"
  shows "keeps (stk_inv sys es) (resume_stack fuel sys args info)"
proof (cases "owned_labels (ct_labels info)")
  case True
  have start: "keeps (stk_inv sys es) (podman_do sys [''start'', container_name (ua_iid args)])"
    by (rule podman_do_keeps, rule container_podman) (simp_all add: owned_label_known [OF assms True])
  show ?thesis
    unfolding resume_stack_def require_owned_stack_def Let_def
    by (intro keeps_then keeps_if keeps_ret keeps_raise keeps_bind stk_rules)
      (auto intro!: keeps_ret keeps_raise keeps_bind keeps_then keeps_liftP stk_rules start split: option.split)
qed (simp add: resume_stack_def require_owned_stack_def keeps_def thenP_def bindP_def)

lemma up_keeps: "keeps (stk_inv sys []) (cmd_up fuel sys args)"
proof -
  have quadlet: "keeps (stk_inv sys []) (up_quadlet fuel sys args)"
    unfolding up_quadlet_def by (intro keeps_if keeps_raise keeps_then keeps_ret keeps_forP stk_rules) simp_all
  let ?c = "container_name (ua_iid args)"
  let ?m = "\<lambda>info. bindP (case info of None \<Rightarrow> create_stack fuel sys args | Some i \<Rightarrow> resume_stack fuel sys args i) (\<lambda>(status, ui, otlp, opt).
     thenP (save_stack (stack_fields args ui otlp opt)) (ret status))"
  have m: "hoare (stk_inv sys [Inspected ?c (case info of None \<Rightarrow> No_container | Some i \<Rightarrow> Container i)]) (?m info) (\<lambda>_. stk_inv sys []) (\<lambda>_. stk_inv sys [])"
    for info
  proof (rule hoare_conseq [OF hoare_keeps [OF keeps_bind]])
    show "keeps (stk_inv sys [Inspected ?c (case info of None \<Rightarrow> No_container | Some i \<Rightarrow> Container i)])
        (case info of None \<Rightarrow> create_stack fuel sys args | Some i \<Rightarrow> resume_stack fuel sys args i)"
      by (cases info) (simp_all add: create_stack_keeps resume_stack_keeps)
  qed (auto intro!: keeps_then keeps_ret stk_rules intro: stk_inv_mono)
  have "keeps (stk_inv sys []) (bindP (inspect_stack sys ?c) ?m)"
    unfolding keeps_hoare by (rule hoare_bind [OF hoare_inspect_stack m])
  with quadlet show ?thesis
    unfolding cmd_up_def up_stack_def by (auto intro!: keeps_if keeps_raise)
qed

lemma down_keeps: "keeps (stk_inv sys []) (cmd_down sys iid purge)"
proof -
  let ?c = "container_name iid" and ?v = "volume_name iid"
  let ?K = "\<lambda>i. stk_inv sys [Inspected ?c (Container i)]"
  have act: "keeps (?K i) (podman_do sys args)"
    if "owned_labels (ct_labels i)" "args \<noteq> []" "hd args \<in> {''start'', ''stop'', ''rm''}" "last args = ?c" for i args
    by (rule podman_do_keeps, rule container_podman) (use that owned_label_known in \<open>auto\<close>)
  have volume: "keeps (stk_inv sys es) (purge_volume sys ?v)" for es
    unfolding purge_volume_def keeps_hoare
  proof (rule hoare_bind [OF hoare_podman_result])
    show "event_ok sys log (Podman (volume_inspect ?v) r)" for log r
      by (rule harmless_podman) (simp_all add: volume_inspect_def)
    fix x :: "bool \<times> string"
    obtain ok out where x: "x = (ok, out)" by fastforce
    let ?es = "Podman (volume_inspect ?v) (Some x) # es"
    have "keeps (stk_inv sys ?es) (thenP (podman_do sys [''volume'', ''rm'', ?v]) (ret False))"
      if "ok" "read_labels sys out = Inr labels" "owned_labels labels" for labels
    proof (intro keeps_then keeps_ret podman_do_keeps)
      fix log r assume "set ?es \<subseteq> set log"
      then have "owned_volume sys log ?v" unfolding owned_volume_def using that x by auto
      then show "event_ok sys log (Podman [''volume'', ''rm'', ?v] r)" by (simp add: container_of_def removed_volume_def)
    qed
    then have "keeps (stk_inv sys ?es) (case x of (ok, out) \<Rightarrow> if \<not> ok then ret True
       else bindP (liftP (read_labels sys out)) (\<lambda>labels. if \<not> owned_labels labels then raise Refused
         else thenP (podman_do sys [''volume'', ''rm'', ?v]) (ret False)))"
      unfolding x prod.case by (cases "read_labels sys out") (auto simp: keeps_def bindP_def)
    then show "hoare (stk_inv sys ?es) (case x of (ok, out) \<Rightarrow> if \<not> ok then ret True
       else bindP (liftP (read_labels sys out)) (\<lambda>labels. if \<not> owned_labels labels then raise Refused
         else thenP (podman_do sys [''volume'', ''rm'', ?v]) (ret False))) (\<lambda>_. stk_inv sys es) (\<lambda>_. stk_inv sys es)"
      unfolding keeps_hoare by (rule hoare_conseq) (auto intro: stk_inv_mono)
  qed
  have found: "keeps (?K i) (thenP (require_owned_stack i)
      (thenP (if ct_running i then podman_do sys [''stop'', ''-t'', ''60'', ?c] else ret ())
      (bindP (if purge then thenP (podman_do sys [''rm'', ?c]) (purge_volume sys ?v) else ret True) (\<lambda>kept. ret (Down (\<not> purge) kept)))))" for i
  proof (cases "owned_labels (ct_labels i)")
    case True
    show ?thesis
      unfolding require_owned_stack_def
      by (intro keeps_then keeps_if keeps_ret keeps_raise keeps_bind act [OF True] volume) simp_all
  qed (simp add: require_owned_stack_def keeps_def thenP_def bindP_def)
  have "hoare (stk_inv sys []) (inspect_stack sys ?c)
     (\<lambda>r. stk_inv sys [Inspected ?c (case r of None \<Rightarrow> No_container | Some i \<Rightarrow> Container i)]) (\<lambda>_. stk_inv sys [])"
    by (rule hoare_inspect_stack)
  then have "keeps (stk_inv sys []) (bindP (inspect_stack sys ?c) (\<lambda>info. case info of None \<Rightarrow> ret Not_running
      | Some i \<Rightarrow> thenP (require_owned_stack i)
      (thenP (if ct_running i then podman_do sys [''stop'', ''-t'', ''60'', ?c] else ret ())
      (bindP (if purge then thenP (podman_do sys [''rm'', ?c]) (purge_volume sys ?v) else ret True) (\<lambda>kept. ret (Down (\<not> purge) kept))))))"
    unfolding keeps_hoare
  proof (rule hoare_bind, goal_cases)
    case (1 info)
    show ?case
    proof (cases info)
      case None
      then show ?thesis by (auto simp: hoare_def intro: stk_inv_mono)
    next
      case (Some i)
      show ?thesis
        unfolding Some option.case by (rule hoare_conseq [OF hoare_keeps [OF found]]) (auto intro: stk_inv_mono)
    qed
  qed
  then show ?thesis
    unfolding cmd_down_def by (intro keeps_bind [OF load_stack_keeps] keeps_if) (auto intro: keeps_then stk_rules keeps_ret)
qed


section \<open>down preserves data\<close>

text \<open>What is removed, or tried to be.\<close>

definition removal :: "stk_event \<Rightarrow> string option" where
  "removal e = (case e of
       Podman args r \<Rightarrow> if take 1 args = [''rm''] \<or> take 2 args = [''volume'', ''rm''] then Some (last args) else None
     | _ \<Rightarrow> None)"

definition removals :: "stk_event list \<Rightarrow> string list" where
  "removals log = List.map_filter removal log"

lemma removals_snoc [simp]: "removals (log @ [e]) = removals log @ (case removal e of None \<Rightarrow> [] | Some c \<Rightarrow> [c])"
  by (simp add: removals_def map_filter_def split: option.split)

definition removed_so_far :: "string list \<Rightarrow> 'w stk_state \<Rightarrow> bool" where
  "removed_so_far cs st \<longleftrightarrow> removals (sk_log st) = cs"

lemma keeps_removed_ask: "keeps (removed_so_far cs) (stk_ask f)"
  by (auto simp: keeps_def stk_ask_def removed_so_far_def split: prod.split)

lemma keeps_removed_log: "removal e = None \<Longrightarrow> keeps (removed_so_far cs) (stk_log e)"
  by (simp add: keeps_def stk_log_def removed_so_far_def)

lemma keeps_removed_podman: "removal (Podman args None) = None \<Longrightarrow> keeps (removed_so_far cs) (podman_result sys args)"
  unfolding podman_result_def
  by (intro keeps_bind keeps_then keeps_removed_ask keeps_removed_log)
    (auto simp: removal_def intro!: keeps_ret keeps_raise split: option.splits)

lemma hoare_removed_podman:
  assumes "removal (Podman args None) = Some c"
  shows "hoare (removed_so_far cs) (podman_do sys args) (\<lambda>_. removed_so_far (cs @ [c])) (\<lambda>_ st. removals (sk_log st) \<in> {cs, cs @ [c]})"
  using assms
  by (auto simp: hoare_def podman_do_def podman_output_def podman_result_def bindP_def thenP_def stk_ask_def stk_log_def removed_so_far_def removal_def
      split: prod.splits sum.splits option.splits if_splits)

lemma keeps_removed_inspect: "keeps (removed_so_far cs) (inspect_stack sys name)"
  unfolding inspect_stack_def
  by (intro keeps_bind keeps_then keeps_removed_ask keeps_removed_log)
    (auto simp: removal_def intro!: keeps_ret keeps_raise split: inspect_answer.split)

lemma hoare_purge_volume:
  "hoare (removed_so_far cs) (purge_volume sys v)
     (\<lambda>kept st. if kept then removed_so_far cs st else removed_so_far (cs @ [v]) st) (\<lambda>_ st. removals (sk_log st) \<in> {cs, cs @ [v]})"
  unfolding purge_volume_def
proof (rule hoare_bind)
  show "hoare (removed_so_far cs) (podman_result sys (volume_inspect v)) (\<lambda>_. removed_so_far cs) (\<lambda>_ st. removals (sk_log st) \<in> {cs, cs @ [v]})"
    by (rule hoare_conseq [OF keeps_removed_podman [unfolded keeps_hoare]])
      (auto simp: removal_def volume_inspect_def removed_so_far_def)
  fix x :: "bool \<times> string"
  obtain ok out where x: "x = (ok, out)" by fastforce
  have rm: "hoare (removed_so_far cs) (thenP (podman_do sys [''volume'', ''rm'', v]) (ret False))
     (\<lambda>kept st. if kept then removed_so_far cs st else removed_so_far (cs @ [v]) st) (\<lambda>_ st. removals (sk_log st) \<in> {cs, cs @ [v]})"
    by (rule hoare_then [OF hoare_removed_podman]) (auto simp: removal_def hoare_def)
  show "hoare (removed_so_far cs) (case x of (ok, out) \<Rightarrow> if \<not> ok then ret True
       else bindP (liftP (read_labels sys out)) (\<lambda>labels. if \<not> owned_labels labels then raise Refused
         else thenP (podman_do sys [''volume'', ''rm'', v]) (ret False)))
     (\<lambda>kept st. if kept then removed_so_far cs st else removed_so_far (cs @ [v]) st) (\<lambda>_ st. removals (sk_log st) \<in> {cs, cs @ [v]})"
  proof (cases "ok \<and> (\<exists>labels. read_labels sys out = Inr labels \<and> owned_labels labels)")
    case True
    then obtain labels where "ok" "read_labels sys out = Inr labels" "owned_labels labels" by blast
    with rm show ?thesis by (simp add: x hoare_def bindP_def)
  next
    case False
    then show ?thesis
      by (cases "read_labels sys out") (auto simp: x hoare_def bindP_def removed_so_far_def)
  qed
qed

text \<open>What \<^verbatim>\<open>down\<close> says about what it preserved, when it returns.\<close>

definition down_ok :: "string \<Rightarrow> bool \<Rightarrow> cap_exn + down_status \<Rightarrow> string list \<Rightarrow> bool" where
  "down_ok iid purge r cs \<longleftrightarrow> set cs \<subseteq> (if purge then {container_name iid, volume_name iid} else {}) \<and>
     (case r of
        Inr (Down container_kept volume_kept) \<Rightarrow>
          container_kept = (container_name iid \<notin> set cs) \<and> volume_kept = (volume_name iid \<notin> set cs)
      | Inr _ \<Rightarrow> cs = []
      | Inl _ \<Rightarrow> True)"

lemma names_differ [simp]: "container_name iid \<noteq> volume_name iid"
  unfolding container_name_def volume_name_def by (rule notI, drule arg_cong [where f = length]) simp

lemma hoare_down:
  "hoare (removed_so_far []) (cmd_down sys iid purge) (\<lambda>r st. down_ok iid purge (Inr r) (removals (sk_log st)))
     (\<lambda>e st. down_ok iid purge (Inl e) (removals (sk_log st)))"
  (is "hoare ?P _ ?Q ?E")
proof -
  let ?c = "container_name iid" and ?v = "volume_name iid"
  have quiet: "hoare ?P m (\<lambda>_. ?P) ?E" if "keeps ?P m" for m
    by (rule hoare_conseq [OF that [unfolded keeps_hoare]]) (auto simp: removed_so_far_def down_ok_def)
  have idle: "hoare ?P (ret r) ?Q ?E" if "r = Unit_stopped \<or> r = Not_running" for r
    using that by (auto simp: hoare_def removed_so_far_def down_ok_def)
  have purged: "hoare ?P (bindP (thenP (podman_do sys [''rm'', ?c]) (purge_volume sys ?v)) (\<lambda>kept. ret (Down (\<not> purge) kept))) ?Q ?E" if purge
  proof (intro hoare_bind [where R = "\<lambda>kept st. if kept then removed_so_far [?c] st else removed_so_far [?c, ?v] st"] hoare_then)
    show "hoare ?P (podman_do sys [''rm'', ?c]) (\<lambda>_. removed_so_far [?c]) ?E"
      by (rule hoare_conseq [OF hoare_removed_podman]) (use that in \<open>auto simp: removal_def down_ok_def\<close>)
    show "hoare (removed_so_far [?c]) (purge_volume sys ?v) (\<lambda>kept st. if kept then removed_so_far [?c] st else removed_so_far [?c, ?v] st) ?E"
      by (rule hoare_conseq [OF hoare_purge_volume]) (use that in \<open>auto simp: down_ok_def\<close>)
    show "hoare (\<lambda>st. if kept then removed_so_far [?c] st else removed_so_far [?c, ?v] st) (ret (Down (\<not> purge) kept)) ?Q ?E" for kept
      using that names_differ [of iid] names_differ [of iid, symmetric] by (cases kept) (auto simp: hoare_def removed_so_far_def down_ok_def)
  qed
  have kept: "hoare ?P (bindP (ret True) (\<lambda>kept. ret (Down (\<not> purge) kept))) ?Q ?E" if "\<not> purge"
    using that by (auto simp: hoare_def removed_so_far_def down_ok_def)
  have stop: "keeps ?P (if b then podman_do sys [''stop'', ''-t'', ''60'', ?c] else ret ())" for b
    unfolding podman_do_def podman_output_def
    by (intro keeps_if keeps_bind keeps_removed_podman) (auto simp: removal_def intro: keeps_ret keeps_raise)
  have owned: "keeps ?P (require_owned_stack i)" for i
    unfolding require_owned_stack_def by (intro keeps_if keeps_ret keeps_raise)
  have finish: "hoare ?P (bindP (if purge then thenP (podman_do sys [''rm'', ?c]) (purge_volume sys ?v) else ret True)
      (\<lambda>kept. ret (Down (\<not> purge) kept))) ?Q ?E"
  proof (cases purge)
    case True
    show ?thesis by (simp only: if_P [OF True] purged [OF True])
  next
    case False
    show ?thesis by (simp only: if_not_P [OF False] kept [OF False])
  qed
  have inspect: "hoare ?P (bindP (inspect_stack sys ?c) (\<lambda>info. case info of None \<Rightarrow> ret Not_running
      | Some i \<Rightarrow> thenP (require_owned_stack i)
      (thenP (if ct_running i then podman_do sys [''stop'', ''-t'', ''60'', ?c] else ret ())
      (bindP (if purge then thenP (podman_do sys [''rm'', ?c]) (purge_volume sys ?v) else ret True) (\<lambda>kept. ret (Down (\<not> purge) kept)))))) ?Q ?E"
  proof (rule hoare_bind [OF quiet [OF keeps_removed_inspect]])
    fix info :: "container_info option"
    have "hoare ?P (thenP (require_owned_stack i)
      (thenP (if ct_running i then podman_do sys [''stop'', ''-t'', ''60'', ?c] else ret ())
      (bindP (if purge then thenP (podman_do sys [''rm'', ?c]) (purge_volume sys ?v) else ret True) (\<lambda>kept. ret (Down (\<not> purge) kept))))) ?Q ?E" for i
      by (intro hoare_then [OF quiet] stop owned finish)
    then show "hoare ?P (case info of None \<Rightarrow> ret Not_running
      | Some i \<Rightarrow> thenP (require_owned_stack i)
      (thenP (if ct_running i then podman_do sys [''stop'', ''-t'', ''60'', ?c] else ret ())
      (bindP (if purge then thenP (podman_do sys [''rm'', ?c]) (purge_volume sys ?v) else ret True) (\<lambda>kept. ret (Down (\<not> purge) kept))))) ?Q ?E"
    proof (cases info)
      case None
      show ?thesis unfolding None option.case by (rule idle) simp
    qed (simp only: option.case)
  qed
  have systemd: "hoare ?P (thenP (systemctl_user sys args) (ret Unit_stopped)) ?Q ?E" for args
    unfolding systemctl_user_def
    by (intro hoare_then [OF quiet] idle keeps_bind keeps_then keeps_removed_ask keeps_removed_log keeps_if keeps_ret keeps_raise)
      (simp_all add: removal_def)
  have load: "keeps ?P load_stack"
    unfolding load_stack_def
    by (intro keeps_bind keeps_getP) (auto intro!: keeps_ret keeps_raise split: option.split json_file.split json.split)
  show ?thesis
    unfolding cmd_down_def by (rule hoare_bind [OF quiet [OF load]]) (simp only: systemd inspect split: if_split, simp add: systemd inspect)
qed

text \<open>
  \<^verbatim>\<open>down\<close> removes nothing without \<^verbatim>\<open>--purge\<close>, with it nothing but the container and the volume of this state directory, and what it
  reports as preserved is what it has not removed.
\<close>

theorem down_preserves_data:
  "case cmd_down sys iid purge (st\<lparr>sk_log := []\<rparr>) of (r, t) \<Rightarrow> down_ok iid purge r (removals (sk_log t))"
proof -
  have start: "removed_so_far [] (st\<lparr>sk_log := []\<rparr>)" by (simp add: removed_so_far_def removals_def map_filter_def)
  obtain r t where run: "cmd_down sys iid purge (st\<lparr>sk_log := []\<rparr>) = (r, t)" by fastforce
  show ?thesis
    using hoareD_ret [OF hoare_down start] hoareD_exn [OF hoare_down start] run by (cases r) simp_all
qed

section \<open>The wait for the health page ends\<close>

text \<open>\<open>tm\<close> is the clock of a world: no answer turns it back, and a pause takes two seconds.\<close>

definition stk_clock_ok :: "'w stk_sys \<Rightarrow> ('w \<Rightarrow> int) \<Rightarrow> bool" where
  "stk_clock_ok sys tm \<longleftrightarrow> (\<forall>w. fst (st_clock sys w) = tm w \<and> tm w \<le> tm (snd (st_clock sys w)) \<and> tm w + 2 \<le> tm (snd (st_sleep sys w)) \<and>
     (\<forall>port. tm w \<le> tm (snd (st_healthy sys w port))))"

lemma health_loop_ends:
  assumes "stk_clock_ok sys tm" "deadline \<le> tm (sk_world st) + 2 * int n"
  shows "fst (health_loop (Suc n) sys port deadline st) \<noteq> Inl Out_of_fuel"
  using assms(2)
proof (induction n arbitrary: st)
  case 0
  then show ?case
    using assms(1) unfolding stk_clock_ok_def by (auto simp: bindP_def stk_ask_def split: prod.splits dest: spec [of _ "sk_world st"])
next
  case (Suc n)
  define w1 where "w1 = snd (st_clock sys (sk_world st))"
  define w2 where "w2 = snd (st_healthy sys w1 port)"
  define w3 where "w3 = snd (st_sleep sys w2)"
  have now: "fst (st_clock sys (sk_world st)) = tm (sk_world st)" and "tm (sk_world st) \<le> tm w1" "tm w1 \<le> tm w2" "tm w2 + 2 \<le> tm w3"
    using assms(1) unfolding stk_clock_ok_def w1_def w2_def w3_def by blast+
  then have "deadline \<le> tm (sk_world (st\<lparr>sk_world := w3\<rparr>)) + 2 * int n" using Suc.prems by simp
  note IH = Suc.IH [OF this]
  show ?case
  proof (cases "deadline \<le> tm (sk_world st) \<or> fst (st_healthy sys w1 port) \<or> fst (st_sleep sys w2)")
    case True
    then show ?thesis
      using now by (auto simp: bindP_def stk_ask_def w1_def w2_def split: prod.splits)
  next
    case False
    then have "health_loop (Suc (Suc n)) sys port deadline st = health_loop (Suc n) sys port deadline (st\<lparr>sk_world := w3\<rparr>)"
      unfolding health_loop.simps(2) [of "Suc n"] using now
      by (auto simp: bindP_def stk_ask_def w1_def w2_def w3_def split: prod.splits simp del: health_loop.simps)
    with IH show ?thesis by (simp del: health_loop.simps)
  qed
qed

lemma raises_wait_healthy:
  assumes "stk_clock_ok sys tm" "timeout \<le> 2 * int n"
  shows "raises (- {Out_of_fuel}) (wait_healthy (Suc n) sys port timeout)"
proof -
  have "fst (wait_healthy (Suc n) sys port timeout st) \<noteq> Inl Out_of_fuel" for st
  proof -
    obtain now w where w: "st_clock sys (sk_world st) = (now, w)" by fastforce
    have "now = tm (sk_world st)" "tm (sk_world st) \<le> tm w"
      using assms(1) w unfolding stk_clock_ok_def by (metis fst_conv, metis snd_conv)
    then have "now + timeout \<le> tm (sk_world (st\<lparr>sk_world := w\<rparr>)) + 2 * int n" using assms(2) by simp
    from health_loop_ends [OF assms(1) this] show ?thesis
      by (simp add: wait_healthy_def bindP_def stk_ask_def w del: health_loop.simps)
  qed
  then show ?thesis unfolding raises_def by (metis ComplI fst_conv singletonD)
qed

text \<open>So every \<^verbatim>\<open>up\<close> ends: 61 requests are enough for the 120 seconds it gives the health page.\<close>

lemma raises_stk_ask [raises_rules]: "raises X (stk_ask f)"
  by (simp add: raises_def stk_ask_def split: prod.splits)

lemma raises_stk_log [raises_rules]: "raises X (stk_log e)"
  by (simp add: stk_log_def raises_modP)

lemma raises_podman_result [raises_rules]: "Refused \<in> X \<Longrightarrow> raises X (podman_result sys args)"
  unfolding podman_result_def by (intro raises_rules) (auto intro!: raises_rules split: option.split)

lemma raises_podman_output [raises_rules]: "Refused \<in> X \<Longrightarrow> raises X (podman_output sys args)"
  unfolding podman_output_def by (intro raises_rules) (auto intro!: raises_rules)

lemma raises_podman_do [raises_rules]: "Refused \<in> X \<Longrightarrow> raises X (podman_do sys args)"
  unfolding podman_do_def by (intro raises_rules)

lemma raises_inspect_stack [raises_rules]: "{Refused, Crash} \<subseteq> X \<Longrightarrow> raises X (inspect_stack sys name)"
  unfolding inspect_stack_def by (intro raises_rules) (auto intro!: raises_rules split: inspect_answer.split)

lemma raises_published_port [raises_rules]: "{Refused, Crash} \<subseteq> X \<Longrightarrow> raises X (published_port sys container inner)"
  unfolding published_port_def by (intro raises_rules) (auto intro!: raises_rules split: list.split option.split)

lemma raises_load_stack [raises_rules]: "{Refused, Crash} \<subseteq> X \<Longrightarrow> raises X load_stack"
  unfolding load_stack_def by (intro raises_rules) (auto intro!: raises_rules split: option.split json_file.split json.split)

lemma raises_save_stack [raises_rules]: "raises X (save_stack kvs)"
  unfolding save_stack_def by (intro raises_rules)

lemma raises_systemctl [raises_rules]: "Refused \<in> X \<Longrightarrow> raises X (systemctl_user sys args)"
  unfolding systemctl_user_def by (intro raises_rules)

lemma raises_check_port [raises_rules]: "{Refused, Crash} \<subseteq> X \<Longrightarrow> raises X (check_port_free sys port)"
  unfolding check_port_free_def by (intro raises_rules) auto

lemma read_labels_Inl: "read_labels sys out = Inl e \<Longrightarrow> e = Crash"
  by (auto simp: read_labels_def split: option.splits if_splits json.splits)

lemma raises_claim_volume [raises_rules]: "{Refused, Crash} \<subseteq> X \<Longrightarrow> raises X (claim_volume sys v)"
  unfolding claim_volume_def by (intro raises_rules) (auto intro!: raises_rules dest: read_labels_Inl)

lemma raises_forP [raises_rules]: "(\<And>x. raises X (f x)) \<Longrightarrow> raises X (forP f xs)"
  by (induction xs) (auto intro: raises_rules)

lemma raises_foldP [raises_rules]: "(\<And>b x. raises X (f b x)) \<Longrightarrow> raises X (foldP f b xs)"
  by (induction xs arbitrary: b) (auto intro: raises_rules)

lemma take_ports_Inl: "foldE take_port taken ps = Inl e \<Longrightarrow> e = Refused"
  by (erule foldE_raised) (auto simp: take_port_def split: if_splits)

lemma raises_check_ports [raises_rules]: "{Refused, Crash} \<subseteq> X \<Longrightarrow> raises X (check_ports sys args)"
  unfolding check_ports_def by (intro raises_rules) (auto intro!: raises_rules dest: take_ports_Inl)

lemma keep_ports_Inl: "keep_ports args stack = Inl e \<Longrightarrow> e = Refused"
  unfolding keep_ports_def by (drule mapE_InlD) (auto simp: Let_def split: if_splits)

theorem up_ends:
  assumes "stk_clock_ok sys tm"
  shows "fst (cmd_up 61 sys args st) \<noteq> Inl Out_of_fuel"
proof -
  let ?X = "- {Out_of_fuel}"
  have wait: "raises ?X (wait_healthy 61 sys port 120)" for port
    using raises_wait_healthy [OF assms, of 120 60 port] by (simp add: numeral_eq_Suc)
  have create: "raises ?X (create_stack 61 sys args)"
    unfolding create_stack_def Let_def
    by (intro raises_rules raises_catch [OF wait]) (auto intro!: raises_rules)
  have resume: "raises ?X (resume_stack 61 sys args i)" for i
    unfolding resume_stack_def require_owned_stack_def Let_def
    by (intro raises_rules) (auto intro!: raises_rules wait dest: keep_ports_Inl split: option.split)
  have "raises ?X (cmd_up 61 sys args)"
    unfolding cmd_up_def up_stack_def up_quadlet_def
    by (intro raises_rules wait) (auto intro!: raises_rules create resume split: option.split)
  then show ?thesis
    by (cases "cmd_up 61 sys args st") (auto dest: raisesD)
qed

end
