(* ===== verification/DeliveryVerify.thy ===== *)
theory DeliveryVerify
  imports Prelude PyDyn
begin

text \<open>
  \<^verbatim>\<open>monitoring/scripts/ci_observe_verify.py\<close>: what a CI job says about the delivery of its telemetry, and the identity it posts.

  The metrics page of the gateway, the post to the central ingest and the pauses answer over a world of any type. Counters have any ordered
  type \<open>'n\<close> with an addition and a subtraction (floats without NaN), read by \<open>dv_float\<close>. Messages keep what they say and their numbers, not their wording.
\<close>

section \<open>Samples\<close>

definition SIGNALS :: "string list" where "SIGNALS = [''spans'', ''log_records'', ''metric_points'']"
definition QUEUE_SIZE :: string where "QUEUE_SIZE = ''otelcol_exporter_queue_size''"
definition DRAIN_TIMEOUT_SECONDS :: nat where "DRAIN_TIMEOUT_SECONDS = 100"
definition DRAIN_INTERVAL_SECONDS :: nat where "DRAIN_INTERVAL_SECONDS = 10"
definition TRIVIAL_RUN_SECONDS :: int where "TRIVIAL_RUN_SECONDS = 60"

definition IDENTITY_FIELDS :: "string list" where
  "IDENTITY_FIELDS = [''ci_run_id'', ''ci_run_attempt'', ''ci_suite'', ''ci_pr'', ''ci_workflow'', ''ci_test_ref'', ''ci_test_sha'',
     ''ci_test_infra_ref'', ''ci_test_infra_sha'', ''ci_test_infra_workflow_sha'', ''ci_test_suite'', ''ci_test_filter'', ''ci_test_marker'']"

type_synonym 'n samples = "(string \<times> 'n) list"

definition sample_name :: "string \<Rightarrow> string" where
  "sample_name word = (let name = takeWhile (\<lambda>c. c \<noteq> CHR ''{'') word in
     if ends_with ''_total'' name then take (length name - 6) name else name)"

definition add_line :: "(string \<Rightarrow> 'n option) \<Rightarrow> 'n::{plus, zero} samples \<Rightarrow> string \<Rightarrow> 'n samples" where
  "add_line parse_float totals raw = (let line = strip raw; parts = words_by str_space line in
     if line = [] \<or> starts_with ''#'' line \<or> length parts < 2 then totals
     else (case parse_float (last parts) of
         None \<Rightarrow> totals
       | Some x \<Rightarrow> (let name = sample_name (hd parts) in
           dict_set name ((case map_of totals name of None \<Rightarrow> 0 | Some y \<Rightarrow> y) + x) totals)))"

definition metric_samples :: "(string \<Rightarrow> 'n option) \<Rightarrow> string \<Rightarrow> 'n::{plus, zero} samples" where
  "metric_samples parse_float text = foldl (add_line parse_float) [] (lines_of text)"

definition sample :: "'n::zero samples \<Rightarrow> string \<Rightarrow> 'n" where
  "sample samples name = (case map_of samples name of None \<Rightarrow> 0 | Some x \<Rightarrow> x)"

section \<open>Messages\<close>

datatype drop_kind = Refused_items | Not_queued

datatype 'n message =
    Not_requested | Deploy_failed | Never_deployed | Forwarder_dead | No_port
  | Not_scraped | No_metrics | Not_rescraped | No_queue
  | Dropped "(drop_kind \<times> string \<times> 'n) list"
  | Send_failed string 'n
  | Totals 'n 'n 'n                         \<comment> \<open>accepted, sent, in flight\<close>
  | Still_in_flight 'n
  | Delivered 'n 'n 'n
  | Nothing_collected int
  | No_identity | Not_posted | Posted string | Not_deployed

datatype 'n dv_event = Scraped_page "string option" | Slept | Said "'n message"

record ('n, 'w) dv_state =
  dv_world :: 'w
  dv_log :: "'n dv_event list"

record ('n, 'w) dv_sys =
  dv_scrape :: "'w \<Rightarrow> string option \<times> 'w"
  dv_post :: "'w \<Rightarrow> json \<Rightarrow> bool \<times> 'w"
  dv_sleep :: "'w \<Rightarrow> 'w"
  dv_alive :: "'w \<Rightarrow> bool \<times> 'w"             \<comment> \<open>whether the forwarder's process is there\<close>
  dv_now :: "'w \<Rightarrow> nat \<times> 'w"
  dv_float :: "string \<Rightarrow> 'n option"

text \<open>The directory and the environment of the job.\<close>

record dv_job =
  jb_requested :: bool
  jb_deploy_failed :: bool
  jb_deployed :: string
  jb_port :: "string option"
  jb_duration :: "string option"
  jb_identity :: "json option"              \<comment> \<open>the identity file, \<open>None\<close> when it cannot be read as JSON\<close>

type_synonym ('n, 'w, 'a) dv = "(('n, 'w) dv_state, unit, 'a) prog"

definition say :: "'n message \<Rightarrow> ('n, 'w, unit) dv" where
  "say m = modP (\<lambda>st. st\<lparr>dv_log := dv_log st @ [Said m]\<rparr>)"

definition scrape :: "('n, 'w) dv_sys \<Rightarrow> ('n, 'w, string option) dv" where
  "scrape sys st = (case dv_scrape sys (dv_world st) of (r, w) \<Rightarrow> (Inr r, st\<lparr>dv_world := w, dv_log := dv_log st @ [Scraped_page r]\<rparr>))"

definition dv_pause :: "('n, 'w) dv_sys \<Rightarrow> ('n, 'w, unit) dv" where
  "dv_pause sys = modP (\<lambda>st. st\<lparr>dv_world := dv_sleep sys (dv_world st), dv_log := dv_log st @ [Slept]\<rparr>)"

definition dv_ask :: "('w \<Rightarrow> 'a \<times> 'w) \<Rightarrow> ('n, 'w, 'a) dv" where
  "dv_ask f st = (case f (dv_world st) of (r, w) \<Rightarrow> (Inr r, st\<lparr>dv_world := w\<rparr>))"

section \<open>Waiting for the queue\<close>

datatype 'n queue_state = Drained | Residue 'n | Absent | Unreachable

definition attempts :: "nat \<Rightarrow> nat \<Rightarrow> nat" where
  "attempts timeout interval = max 1 (timeout div interval + 1)"

fun drain_loop :: "nat \<Rightarrow> ('n::{plus, zero}, 'w) dv_sys \<Rightarrow> 'n samples option \<Rightarrow> ('n, 'w, 'n queue_state \<times> 'n samples option) dv" where
  "drain_loop 0 sys latest = ret (Residue 0, latest)"
| "drain_loop (Suc n) sys latest = bindP (scrape sys) (\<lambda>page. case page of
       None \<Rightarrow> ret (Unreachable, latest)
     | Some text \<Rightarrow> (let samples = metric_samples (dv_float sys) text in case map_of samples QUEUE_SIZE of
         None \<Rightarrow> ret (Absent, Some samples)
       | Some q \<Rightarrow> if q = 0 then ret (Drained, Some samples)
           else if n = 0 then ret (Residue q, Some samples)
           else thenP (dv_pause sys) (drain_loop n sys (Some samples))))"

definition wait_for_queue_drain ::
  "('n::{plus, zero}, 'w) dv_sys \<Rightarrow> nat \<Rightarrow> nat \<Rightarrow> ('n, 'w, 'n queue_state \<times> 'n samples option) dv" where
  "wait_for_queue_drain sys timeout interval = drain_loop (attempts timeout interval) sys None"

section \<open>The verdict\<close>

definition drops :: "'n::zero samples \<Rightarrow> (drop_kind \<times> string \<times> 'n) list" where
  "drops samples = concat (map (\<lambda>signal.
     (let refused = sample samples (''otelcol_receiver_refused_'' @ signal);
          failed = sample samples (''otelcol_exporter_enqueue_failed_'' @ signal)
      in (if refused = 0 then [] else [(Refused_items, signal, refused)]) @ (if failed = 0 then [] else [(Not_queued, signal, failed)]))) SIGNALS)"

definition send_failures :: "'n::zero samples \<Rightarrow> 'n message list" where
  "send_failures samples = concat (map (\<lambda>signal.
     (let failed = sample samples (''otelcol_exporter_send_failed_'' @ signal) in if failed = 0 then [] else [Send_failed signal failed])) SIGNALS)"

definition sum_signals :: "'n::{plus, zero} samples \<Rightarrow> string \<Rightarrow> 'n" where
  "sum_signals samples pre = foldl (\<lambda>acc signal. acc + sample samples (pre @ signal)) 0 SIGNALS"

definition verdict :: "'n::{linorder, plus, minus, zero} queue_state \<Rightarrow> 'n samples \<Rightarrow> int \<Rightarrow> 'n message list" where
  "verdict queue samples duration =
     (let sent = (\<lambda>signal. sample samples (''otelcol_exporter_sent_'' @ signal));
          accepted_total = sum_signals samples ''otelcol_receiver_accepted_'';
          sent_total = sum_signals samples ''otelcol_exporter_sent_''
      in (if queue = Absent then [No_queue] else []) @
         (if drops samples = [] then [] else [Dropped (drops samples)]) @
         send_failures samples @ [Totals accepted_total sent_total (max (accepted_total - sent_total) 0)] @
         (case queue of
            Residue q \<Rightarrow> [Still_in_flight q]
          | Drained \<Rightarrow> [Delivered (sent ''spans'') (sent ''log_records'') (sent ''metric_points'')]
          | _ \<Rightarrow> []) @
         (if sent_total = 0 \<and> TRIVIAL_RUN_SECONDS < duration then [Nothing_collected duration] else []))"

definition int_or_none :: "string option \<Rightarrow> int option" where
  "int_or_none v = (case v of None \<Rightarrow> None | Some s \<Rightarrow> if strip s = [] then None else int_of_str s)"

definition telemetry_deployed :: "dv_job \<Rightarrow> bool" where
  "telemetry_deployed job \<longleftrightarrow> jb_deployed job = ''1'' \<and> \<not> jb_deploy_failed job"

definition judge :: "('n::{linorder, plus, minus, zero}, 'w) dv_sys \<Rightarrow> int \<Rightarrow> string \<Rightarrow> ('n, 'w, unit) dv" where
  "judge sys duration text = (let samples = metric_samples (dv_float sys) text in
     if \<not> list_ex (starts_with ''otelcol_'') (map fst samples) then say No_metrics
     else bindP (case map_of samples QUEUE_SIZE of
         None \<Rightarrow> ret (Absent, Some samples)
       | Some q \<Rightarrow> if q = 0 then ret (Drained, Some samples)
           else wait_for_queue_drain sys DRAIN_TIMEOUT_SECONDS DRAIN_INTERVAL_SECONDS) (\<lambda>(queue, final).
       if queue = Unreachable then say Not_rescraped
       else forP say (verdict queue (case final of Some s \<Rightarrow> (if s = [] then samples else s) | None \<Rightarrow> samples) duration)))"

definition verify_delivery :: "('n::{linorder, plus, minus, zero}, 'w) dv_sys \<Rightarrow> dv_job \<Rightarrow> bool \<Rightarrow> ('n, 'w, nat) dv" where
  "verify_delivery sys job deployed =
     (let port = int_or_none (jb_port job); duration = (case int_or_none (jb_duration job) of None \<Rightarrow> 0 | Some n \<Rightarrow> n) in
      thenP (if \<not> jb_requested job then say Not_requested
       else if jb_deploy_failed job then say Deploy_failed
       else if \<not> deployed then say Never_deployed
       else thenP (bindP (dv_ask (dv_alive sys)) (\<lambda>alive. if alive then ret () else say Forwarder_dead))
        (if port = None \<or> port = Some 0 then say No_port
         else bindP (scrape sys) (\<lambda>page. case page of None \<Rightarrow> say Not_scraped | Some text \<Rightarrow> judge sys duration text)))
      (ret 0))"

section \<open>The identity of the run\<close>

definition string_attributes :: "(string \<times> string) list \<Rightarrow> json" where
  "string_attributes kvs = JArr (map (\<lambda>(k, v). JObj [(''key'', JStr k), (''value'', JObj [(''stringValue'', JStr v)])]) kvs)"

definition text_of :: "(string \<times> string) list \<Rightarrow> string \<Rightarrow> string" where
  "text_of capture k = (case map_of capture k of None \<Rightarrow> [] | Some v \<Rightarrow> v)"

definition capture_info_payload :: "(string \<times> string) list \<Rightarrow> nat \<Rightarrow> json" where
  "capture_info_payload capture moment = JObj [(''resourceMetrics'', JArr [JObj [
     (''resource'', JObj [(''attributes'', string_attributes [(''osac.ci.capture_id'', text_of capture ''capture_id'')])]),
     (''scopeMetrics'', JArr [JObj [(''scope'', JObj [(''name'', JStr ''ci-observe-capture'')]),
        (''metrics'', JArr [JObj [(''name'', JStr ''osac_ci_capture_info''), (''gauge'', JObj [(''dataPoints'', JArr [JObj [
          (''asInt'', JStr ''1''), (''timeUnixNano'', JStr (show_nat moment)),
          (''attributes'', string_attributes (map (\<lambda>field. (field, text_of capture field)) IDENTITY_FIELDS))]])])]])]])]])]"

definition post_capture_info :: "('n, 'w) dv_sys \<Rightarrow> (string \<times> string) list \<Rightarrow> ('n, 'w, bool) dv" where
  "post_capture_info sys capture = bindP (dv_ask (dv_now sys)) (\<lambda>moment. dv_ask (\<lambda>w. dv_post sys w (capture_info_payload capture moment)))"

text \<open>\<open>repr\<close> is \<open>str\<close> of a value that is not a text.\<close>

definition read_identity :: "(json \<Rightarrow> string) \<Rightarrow> json option \<Rightarrow> (string \<times> string) list option" where
  "read_identity repr file = (case file of
       Some (JObj kvs) \<Rightarrow> Some (map (\<lambda>(k, v). (k, d_text repr v)) kvs)
     | _ \<Rightarrow> None)"

definition write_identity :: "(string \<times> string) list \<Rightarrow> json" where
  "write_identity capture = JObj (map (\<lambda>(k, v). (k, JStr v)) capture)"

definition post_info_command :: "('n, 'w) dv_sys \<Rightarrow> (json \<Rightarrow> string) \<Rightarrow> dv_job \<Rightarrow> ('n, 'w, nat) dv" where
  "post_info_command sys repr job =
     thenP (if \<not> telemetry_deployed job then say Not_deployed
       else (case read_identity repr (jb_identity job) of
           None \<Rightarrow> say No_identity
         | Some capture \<Rightarrow> bindP (post_capture_info sys capture) (\<lambda>posted. if posted then say (Posted (text_of capture ''capture_id'')) else say Not_posted)))
     (ret 0)"

definition write_identity_command :: "string \<Rightarrow> (string \<Rightarrow> string) \<Rightarrow> json" where
  "write_identity_command capture_id args = write_identity ((''capture_id'', capture_id) # map (\<lambda>field. (field, args field)) IDENTITY_FIELDS)"

definition verify_command :: "('n::{linorder, plus, minus, zero}, 'w) dv_sys \<Rightarrow> (json \<Rightarrow> string) \<Rightarrow> dv_job \<Rightarrow> ('n, 'w, nat) dv" where
  "verify_command sys repr job = (let deployed = telemetry_deployed job in
     thenP (if \<not> deployed then ret ()
       else (case read_identity repr (jb_identity job) of
           None \<Rightarrow> say No_identity
         | Some capture \<Rightarrow> bindP (post_capture_info sys capture) (\<lambda>posted. if posted then ret () else say Not_posted)))
     (verify_delivery sys job deployed))"

section \<open>What the messages mean\<close>

definition page_samples :: "('n::{plus, zero}, 'w) dv_sys \<Rightarrow> 'n dv_event list \<Rightarrow> 'n samples list" where
  "page_samples sys log = List.map_filter (\<lambda>e. case e of Scraped_page (Some text) \<Rightarrow> Some (metric_samples (dv_float sys) text) | _ \<Rightarrow> None) log"

lemma page_samples_append [simp]: "page_samples sys (log @ es) = page_samples sys log @ page_samples sys es"
  by (simp add: page_samples_def map_filter_def)

lemma page_samples_simps [simp]:
  "page_samples sys [] = []"
  "page_samples sys (Scraped_page (Some text) # log) = metric_samples (dv_float sys) text # page_samples sys log"
  "page_samples sys (Scraped_page None # log) = page_samples sys log"
  "page_samples sys (Slept # log) = page_samples sys log"
  "page_samples sys (Said m # log) = page_samples sys log"
  by (simp_all add: page_samples_def map_filter_simps)

text \<open>The counters that a verdict is about: those of the last page, or of the first when the last page has none.\<close>

definition basis :: "('n::{plus, zero}, 'w) dv_sys \<Rightarrow> 'n dv_event list \<Rightarrow> 'n samples" where
  "basis sys log = (case page_samples sys log of [] \<Rightarrow> [] | p # ps \<Rightarrow> if last (p # ps) = [] then p else last (p # ps))"

definition message_ok :: "'n::{linorder, plus, minus, zero} samples \<Rightarrow> nat \<Rightarrow> 'n message \<Rightarrow> bool" where
  "message_ok s n m \<longleftrightarrow> (case m of
       Delivered spans logs points \<Rightarrow> map_of s QUEUE_SIZE = Some 0 \<and>
         spans = sample s ''otelcol_exporter_sent_spans'' \<and> logs = sample s ''otelcol_exporter_sent_log_records'' \<and>
         points = sample s ''otelcol_exporter_sent_metric_points''
     | Still_in_flight q \<Rightarrow> map_of s QUEUE_SIZE = Some q \<and> q \<noteq> 0 \<and> n = 12
     | Dropped ds \<Rightarrow> ds = drops s \<and> ds \<noteq> []
     | Send_failed signal x \<Rightarrow> x = sample s (''otelcol_exporter_send_failed_'' @ signal) \<and> x \<noteq> 0
     | Totals accepted sent in_flight \<Rightarrow> accepted = sum_signals s ''otelcol_receiver_accepted_'' \<and> sent = sum_signals s ''otelcol_exporter_sent_'' \<and>
         in_flight = max (accepted - sent) 0
     | Nothing_collected duration \<Rightarrow> sum_signals s ''otelcol_exporter_sent_'' = 0 \<and> 60 < duration
     | _ \<Rightarrow> True)"

fun said_ok :: "('n::{linorder, plus, minus, zero}, 'w) dv_sys \<Rightarrow> 'n dv_event list \<Rightarrow> 'n dv_event \<Rightarrow> bool" where
  "said_ok sys log (Said m) = message_ok (basis sys log) (length (page_samples sys log)) m"
| "said_ok sys log e = True"

text \<open>When totals were given, the drops that these counters show were reported.\<close>

definition drops_reported :: "('n::{linorder, plus, minus, zero}, 'w) dv_sys \<Rightarrow> 'n dv_event list \<Rightarrow> bool" where
  "drops_reported sys log \<longleftrightarrow> (\<forall>a b c. Said (Totals a b c) \<in> set log \<longrightarrow> drops (basis sys log) = [] \<or> Said (Dropped (drops (basis sys log))) \<in> set log)"

lemma forP_say: "forP say ms st = (Inr (), st\<lparr>dv_log := dv_log st @ map Said ms\<rparr>)"
  by (induction ms arbitrary: st) (simp_all add: say_def thenP_def bindP_def)

lemma every_event_said:
  assumes "every_event (said_ok sys) log" "list_all (message_ok (basis sys log) (length (page_samples sys log))) ms"
  shows "every_event (said_ok sys) (log @ map Said ms)"
  using assms(2)
proof (induction ms rule: rev_induct)
  case (snoc m ms)
  have "page_samples sys (map Said ms) = []" for ms by (induction ms) simp_all
  then have "basis sys (log @ map Said ms) = basis sys log" "page_samples sys (log @ map Said ms) = page_samples sys log"
    by (simp_all add: basis_def)
  with snoc show ?case by (simp flip: append_assoc)
qed (simp add: assms(1))

lemma verdict_ok:
  assumes "case queue of Drained \<Rightarrow> map_of s QUEUE_SIZE = Some 0 | Residue q \<Rightarrow> map_of s QUEUE_SIZE = Some q \<and> q \<noteq> 0 \<and> n = 12 | _ \<Rightarrow> True"
  shows "list_all (message_ok s n) (verdict queue s duration)"
  using assms
  by (cases queue) (auto simp: verdict_def Let_def list_all_iff message_ok_def send_failures_def TRIVIAL_RUN_SECONDS_def split: if_splits)

lemma verdict_drops: "drops s = [] \<or> Dropped (drops s) \<in> set (verdict queue s duration)"
  by (simp add: verdict_def Let_def)

text \<open>What the wait leaves in the log.\<close>

fun silent :: "'n dv_event \<Rightarrow> bool" where
  "silent (Said m) = False"
| "silent e = True"

lemma every_event_silent: "list_all silent es \<Longrightarrow> every_event (said_ok sys) log \<Longrightarrow> every_event (said_ok sys) (log @ es)"
proof (induction es rule: rev_induct)
  case (snoc e es)
  then show ?case by (cases e) (simp_all flip: append_assoc)
qed simp

definition drained ::
  "('n::{plus, zero}, 'w) dv_sys \<Rightarrow> nat \<Rightarrow> ('n, 'w) dv_state \<Rightarrow> (unit + 'n queue_state \<times> 'n samples option) \<times> ('n, 'w) dv_state \<Rightarrow> bool" where
  "drained sys n st out \<longleftrightarrow> (\<exists>r w evs. out = (Inr r, st\<lparr>dv_world := w, dv_log := dv_log st @ evs\<rparr>) \<and> list_all silent evs \<and> length (page_samples sys evs) \<le> n \<and>
     (fst r = Unreachable \<or> (\<exists>ps s. snd r = Some s \<and> page_samples sys evs = ps @ [s] \<and>
       (case fst r of Drained \<Rightarrow> map_of s QUEUE_SIZE = Some 0 | Residue q \<Rightarrow> map_of s QUEUE_SIZE = Some q \<and> q \<noteq> 0 \<and> length ps + 1 = n | _ \<Rightarrow> True))))"

lemma drainedI:
  assumes "out = (Inr (queue, final), st\<lparr>dv_world := w, dv_log := dv_log st @ evs\<rparr>)" "list_all silent evs" "length (page_samples sys evs) \<le> n"
    "queue = Unreachable \<or> (\<exists>ps s. final = Some s \<and> page_samples sys evs = ps @ [s] \<and>
       (case queue of Drained \<Rightarrow> map_of s QUEUE_SIZE = Some 0 | Residue q \<Rightarrow> map_of s QUEUE_SIZE = Some q \<and> q \<noteq> 0 \<and> length ps + 1 = n | _ \<Rightarrow> True))"
  shows "drained sys n st out"
  using assms unfolding drained_def by (intro exI [of _ "(queue, final)"] exI [of _ w] exI [of _ evs]) simp

lemma drainedE:
  assumes "drained sys n st out"
  obtains queue final w evs where "out = (Inr (queue, final), st\<lparr>dv_world := w, dv_log := dv_log st @ evs\<rparr>)"
    "list_all silent evs" "length (page_samples sys evs) \<le> n"
    "queue = Unreachable \<or> (\<exists>ps s. final = Some s \<and> page_samples sys evs = ps @ [s] \<and>
       (case queue of Drained \<Rightarrow> map_of s QUEUE_SIZE = Some 0 | Residue q \<Rightarrow> map_of s QUEUE_SIZE = Some q \<and> q \<noteq> 0 \<and> length ps + 1 = n | _ \<Rightarrow> True))"
proof -
  from assms obtain r w evs where r: "out = (Inr r, st\<lparr>dv_world := w, dv_log := dv_log st @ evs\<rparr>)" "list_all silent evs" "length (page_samples sys evs) \<le> n"
    "fst r = Unreachable \<or> (\<exists>ps s. snd r = Some s \<and> page_samples sys evs = ps @ [s] \<and>
       (case fst r of Drained \<Rightarrow> map_of s QUEUE_SIZE = Some 0 | Residue q \<Rightarrow> map_of s QUEUE_SIZE = Some q \<and> q \<noteq> 0 \<and> length ps + 1 = n | _ \<Rightarrow> True))"
    unfolding drained_def by blast
  show thesis by (rule that [where queue = "fst r" and final = "snd r" and w = w and evs = evs]) (use r in simp_all)
qed

lemma drain_loop_drained: "drained sys (Suc n) st (drain_loop (Suc n) sys latest st)"
proof (induction n arbitrary: st latest)
  case 0
  obtain page w where page: "dv_scrape sys (dv_world st) = (page, w)" by fastforce
  show ?case
    by (cases page; cases "map_of (metric_samples (dv_float sys) (the page)) QUEUE_SIZE")
      (auto simp: page bindP_def scrape_def Let_def intro!: drainedI [where evs = "[Scraped_page page]" and w = w])
next
  case (Suc n)
  obtain page w where page: "dv_scrape sys (dv_world st) = (page, w)" by fastforce
  let ?s = "metric_samples (dv_float sys) (the page)"
  show ?case
  proof (cases "page \<noteq> None \<and> map_of ?s QUEUE_SIZE \<noteq> None \<and> map_of ?s QUEUE_SIZE \<noteq> Some 0")
    case False
    then show ?thesis
      by (cases page; cases "map_of ?s QUEUE_SIZE")
        (auto simp: page bindP_def scrape_def Let_def intro!: drainedI [where evs = "[Scraped_page page]" and w = w])
  next
    case True
    then obtain body q where q: "page = Some body" "map_of ?s QUEUE_SIZE = Some q" "q \<noteq> 0" by auto
    let ?t = "st\<lparr>dv_world := dv_sleep sys w, dv_log := dv_log st @ [Scraped_page page, Slept]\<rparr>"
    have step: "drain_loop (Suc (Suc n)) sys latest st = drain_loop (Suc n) sys (Some ?s) ?t"
      unfolding drain_loop.simps(2) [of "Suc n"] using q
      by (simp add: page bindP_def thenP_def scrape_def dv_pause_def Let_def del: drain_loop.simps)
    from Suc.IH [of ?t "Some ?s"] obtain queue final w' evs where r: "drain_loop (Suc n) sys (Some ?s) ?t = (Inr (queue, final), ?t\<lparr>dv_world := w', dv_log := dv_log ?t @ evs\<rparr>)"
      "list_all silent evs" "length (page_samples sys evs) \<le> Suc n"
      "queue = Unreachable \<or> (\<exists>ps s. final = Some s \<and> page_samples sys evs = ps @ [s] \<and>
       (case queue of Drained \<Rightarrow> map_of s QUEUE_SIZE = Some 0 | Residue q \<Rightarrow> map_of s QUEUE_SIZE = Some q \<and> q \<noteq> 0 \<and> length ps + 1 = Suc n | _ \<Rightarrow> True))"
      unfolding drained_def by (auto simp del: drain_loop.simps)
    show ?thesis
    proof (rule drainedI [where evs = "[Scraped_page page, Slept] @ evs" and w = w'])
      show "drain_loop (Suc (Suc n)) sys latest st = (Inr (queue, final), st\<lparr>dv_world := w', dv_log := dv_log st @ [Scraped_page page, Slept] @ evs\<rparr>)"
        using r(1) by (simp only: step) simp
      have pages: "page_samples sys (Scraped_page page # Slept # evs) = ?s # page_samples sys evs" using q by simp
      show "queue = Unreachable \<or> (\<exists>ps s. final = Some s \<and> page_samples sys ([Scraped_page page, Slept] @ evs) = ps @ [s] \<and>
         (case queue of Drained \<Rightarrow> map_of s QUEUE_SIZE = Some 0 | Residue q \<Rightarrow> map_of s QUEUE_SIZE = Some q \<and> q \<noteq> 0 \<and> length ps + 1 = Suc (Suc n) | _ \<Rightarrow> True))"
      proof (rule disjE [OF r(4)])
        assume "\<exists>ps s. final = Some s \<and> page_samples sys evs = ps @ [s] \<and>
         (case queue of Drained \<Rightarrow> map_of s QUEUE_SIZE = Some 0 | Residue q \<Rightarrow> map_of s QUEUE_SIZE = Some q \<and> q \<noteq> 0 \<and> length ps + 1 = Suc n | _ \<Rightarrow> True)"
        then obtain ps s where "final = Some s" "page_samples sys evs = ps @ [s]"
          "case queue of Drained \<Rightarrow> map_of s QUEUE_SIZE = Some 0 | Residue q \<Rightarrow> map_of s QUEUE_SIZE = Some q \<and> q \<noteq> 0 \<and> length ps + 1 = Suc n | _ \<Rightarrow> True" by blast
        then show ?thesis
          by (intro disjI2 exI [of _ "?s # ps"] exI [of _ s]) (cases queue; simp add: pages)
      qed simp
    qed (use r q in \<open>simp_all\<close>)
  qed
qed

text \<open>Before the first page is read, and at the end.\<close>

definition totals_said :: "'n dv_event list \<Rightarrow> bool" where
  "totals_said log \<longleftrightarrow> list_ex (\<lambda>e. case e of Said (Totals a b c) \<Rightarrow> True | _ \<Rightarrow> False) log"

definition fresh :: "('n::{linorder, plus, minus, zero}, 'w) dv_sys \<Rightarrow> ('n, 'w) dv_state \<Rightarrow> bool" where
  "fresh sys st \<longleftrightarrow> every_event (said_ok sys) (dv_log st) \<and> page_samples sys (dv_log st) = [] \<and> \<not> totals_said (dv_log st)"

definition settled :: "('n::{linorder, plus, minus, zero}, 'w) dv_sys \<Rightarrow> ('n, 'w) dv_state \<Rightarrow> bool" where
  "settled sys st \<longleftrightarrow> every_event (said_ok sys) (dv_log st) \<and> drops_reported sys (dv_log st) \<and> length (page_samples sys (dv_log st)) \<le> 12"

definition plain :: "'n message \<Rightarrow> bool" where
  "plain m \<longleftrightarrow> (case m of Delivered a b c \<Rightarrow> False | Still_in_flight q \<Rightarrow> False | Dropped ds \<Rightarrow> False | Send_failed s x \<Rightarrow> False
     | Totals a b c \<Rightarrow> False | Nothing_collected d \<Rightarrow> False | _ \<Rightarrow> True)"

lemma no_totals_reported: "\<not> totals_said log \<Longrightarrow> drops_reported sys log"
  by (fastforce simp: totals_said_def drops_reported_def list_ex_iff)

lemma plain_ok: "plain m \<Longrightarrow> message_ok s n m"
  by (cases m) (simp_all add: plain_def message_ok_def)

lemma plain_totals: "plain m \<Longrightarrow> totals_said (log @ [Said m]) = totals_said log"
  by (cases m) (simp_all add: plain_def totals_said_def)

lemma fresh_settled: "fresh sys st \<Longrightarrow> settled sys st"
  by (simp add: fresh_def settled_def no_totals_reported)

lemma say_plain: "fresh sys st \<Longrightarrow> plain m \<Longrightarrow> \<exists>t. say m st = (Inr (), t) \<and> fresh sys t"
  by (simp add: say_def fresh_def plain_totals plain_ok)

lemma silent_totals: "list_all silent es \<Longrightarrow> \<not> totals_said es"
proof (induction es)
  case (Cons e es)
  then show ?case by (cases e) (simp_all add: totals_said_def)
qed (simp add: totals_said_def)

lemma totals_said_append [simp]: "totals_said (log @ es) \<longleftrightarrow> totals_said log \<or> totals_said es"
  by (simp add: totals_said_def)

text \<open>After pages whose last one has the queue size that the verdict says.\<close>

lemma settled_verdict:
  assumes "every_event (said_ok sys) log" "length (page_samples sys log) \<le> 12"
    "case queue of Drained \<Rightarrow> map_of (basis sys log) QUEUE_SIZE = Some 0
     | Residue q \<Rightarrow> map_of (basis sys log) QUEUE_SIZE = Some q \<and> q \<noteq> 0 \<and> length (page_samples sys log) = 12 | _ \<Rightarrow> True"
  shows "settled sys (st\<lparr>dv_world := w, dv_log := log @ map Said (verdict queue (basis sys log) duration)\<rparr>)"
proof -
  let ?ms = "verdict queue (basis sys log) duration"
  have "page_samples sys (map Said ms) = []" for ms by (induction ms) simp_all
  then have same: "basis sys (log @ map Said ?ms) = basis sys log" "page_samples sys (log @ map Said ?ms) = page_samples sys log"
    by (simp_all add: basis_def)
  have "drops_reported sys (log @ map Said ?ms)"
    unfolding drops_reported_def same using verdict_drops [of "basis sys log" queue duration] by auto
  moreover have "every_event (said_ok sys) (log @ map Said ?ms)"
    by (rule every_event_said [OF assms(1) verdict_ok [OF assms(3)]])
  ultimately show ?thesis using assms(2) same by (simp add: settled_def)
qed

lemma judge_settled:
  assumes "fresh sys st0" "dv_log st = dv_log st0 @ [Scraped_page (Some page)]"
  shows "\<exists>t. judge sys duration page st = (Inr (), t) \<and> settled sys t"
proof -
  let ?s = "metric_samples (dv_float sys) page"
  have start: "every_event (said_ok sys) (dv_log st)" "page_samples sys (dv_log st) = [?s]" "\<not> totals_said (dv_log st)"
    using assms by (simp_all add: fresh_def totals_said_def)
  then have b: "basis sys (dv_log st) = ?s" by (simp add: basis_def)
  show ?thesis
  proof (cases "list_ex (starts_with ''otelcol_'') (map fst ?s)")
    case False
    have "settled sys (st\<lparr>dv_log := dv_log st @ [Said No_metrics]\<rparr>)"
      using start by (simp add: settled_def plain_ok plain_def no_totals_reported totals_said_def)
    with False show ?thesis by (simp add: judge_def say_def Let_def)
  next
    case True
    then have "?s \<noteq> []" by auto
    show ?thesis
    proof (cases "map_of ?s QUEUE_SIZE = None \<or> map_of ?s QUEUE_SIZE = Some 0")
      case quick: True
      define queue :: "'a queue_state" where "queue = (if map_of ?s QUEUE_SIZE = None then Absent else Drained)"
      have "settled sys (st\<lparr>dv_world := dv_world st, dv_log := dv_log st @ map Said (verdict queue (basis sys (dv_log st)) duration)\<rparr>)"
        by (rule settled_verdict) (use start quick b in \<open>auto simp: queue_def\<close>)
      moreover have "judge sys duration page st = (Inr (), st\<lparr>dv_world := dv_world st, dv_log := dv_log st @ map Said (verdict queue (basis sys (dv_log st)) duration)\<rparr>)"
        using True quick \<open>?s \<noteq> []\<close> by (auto simp: judge_def Let_def forP_say queue_def b)
      ultimately show ?thesis by blast
    next
      case False
      then obtain q where q: "map_of ?s QUEUE_SIZE = Some q" "q \<noteq> 0" by auto
      have "attempts DRAIN_TIMEOUT_SECONDS DRAIN_INTERVAL_SECONDS = Suc 10"
        by (simp add: attempts_def DRAIN_TIMEOUT_SECONDS_def DRAIN_INTERVAL_SECONDS_def)
      then have "drained sys (Suc 10) st (wait_for_queue_drain sys DRAIN_TIMEOUT_SECONDS DRAIN_INTERVAL_SECONDS st)"
        unfolding wait_for_queue_drain_def by (simp only: drain_loop_drained)
      then obtain queue final w evs where run:
        "wait_for_queue_drain sys DRAIN_TIMEOUT_SECONDS DRAIN_INTERVAL_SECONDS st = (Inr (queue, final), st\<lparr>dv_world := w, dv_log := dv_log st @ evs\<rparr>)"
        and evs: "list_all silent evs" "length (page_samples sys evs) \<le> Suc 10"
        and post: "queue = Unreachable \<or> (\<exists>ps s. final = Some s \<and> page_samples sys evs = ps @ [s] \<and>
          (case queue of Drained \<Rightarrow> map_of s QUEUE_SIZE = Some 0 | Residue q \<Rightarrow> map_of s QUEUE_SIZE = Some q \<and> q \<noteq> 0 \<and> length ps + 1 = Suc 10 | _ \<Rightarrow> True))"
        by (rule drainedE)
      let ?log = "dv_log st @ evs"
      have log: "every_event (said_ok sys) ?log" "length (page_samples sys ?log) \<le> 12" "\<not> totals_said ?log"
        using start evs every_event_silent [OF evs(1)] silent_totals [OF evs(1)] by simp_all
      show ?thesis
      proof (cases "queue = Unreachable")
        case True
        have "settled sys (st\<lparr>dv_world := w, dv_log := ?log @ [Said Not_rescraped]\<rparr>)"
          using log by (simp add: settled_def plain_ok plain_def no_totals_reported totals_said_def flip: append_assoc)
        with True run \<open>list_ex _ _\<close> q show ?thesis by (simp add: judge_def Let_def bindP_def say_def)
      next
        case False
        then obtain ps s where s: "final = Some s" "page_samples sys evs = ps @ [s]"
          "case queue of Drained \<Rightarrow> map_of s QUEUE_SIZE = Some 0 | Residue q \<Rightarrow> map_of s QUEUE_SIZE = Some q \<and> q \<noteq> 0 \<and> length ps + 1 = Suc 10 | _ \<Rightarrow> True"
          using post by blast
        have basis: "basis sys ?log = (if s = [] then ?s else s)" using start s by (simp add: basis_def)
        have "settled sys (st\<lparr>dv_world := w, dv_log := ?log @ map Said (verdict queue (basis sys ?log) duration)\<rparr>)"
          by (rule settled_verdict [OF log(1,2)]) (use s basis start in \<open>cases queue; auto\<close>)
        moreover have "judge sys duration page st = (Inr (), st\<lparr>dv_world := w, dv_log := ?log @ map Said (verdict queue (basis sys ?log) duration)\<rparr>)"
          using False run \<open>list_ex _ _\<close> q s by (simp add: judge_def Let_def bindP_def forP_say basis)
        ultimately show ?thesis by blast
      qed
    qed
  qed
qed

lemma ask_fresh: "fresh sys st \<Longrightarrow> \<exists>x t. dv_ask f st = (Inr x, t) \<and> fresh sys t"
  by (cases "f (dv_world st)") (simp add: dv_ask_def fresh_def)

lemma post_fresh: "fresh sys st \<Longrightarrow> \<exists>x t. post_capture_info sys capture st = (Inr x, t) \<and> fresh sys t"
  by (cases "dv_now sys (dv_world st)"; cases "dv_post sys (snd (dv_now sys (dv_world st))) (capture_info_payload capture (fst (dv_now sys (dv_world st))))")
    (simp add: post_capture_info_def bindP_def dv_ask_def fresh_def)

lemma fresh_then:
  assumes "\<exists>x t. m st = (Inr x, t) \<and> fresh sys t" "\<And>t. fresh sys t \<Longrightarrow> \<exists>y u. n t = (Inr y, u) \<and> P u"
  shows "\<exists>y u. thenP m n st = (Inr y, u) \<and> P u"
  using assms by (fastforce simp: thenP_def bindP_def)

lemma fresh_bind:
  assumes "\<exists>x t. m st = (Inr x, t) \<and> fresh sys t" "\<And>x t. fresh sys t \<Longrightarrow> \<exists>y u. f x t = (Inr y, u) \<and> P u"
  shows "\<exists>y u. bindP m f st = (Inr y, u) \<and> P u"
  using assms by (fastforce simp: bindP_def)

lemma then_ret: "\<exists>y t. m st = (Inr y, t) \<and> P t \<Longrightarrow> \<exists>t. thenP m (ret x) st = (Inr x, t) \<and> P t"
  by (auto simp: thenP_def bindP_def)

lemma say_settled: "fresh sys st \<Longrightarrow> plain m \<Longrightarrow> \<exists>y t. say m st = (Inr y, t) \<and> settled sys t"
  using say_plain fresh_settled by blast

lemma delivery_settled:
  assumes "fresh sys st"
  shows "\<exists>t. verify_delivery sys job deployed st = (Inr 0, t) \<and> settled sys t"
proof -
  have alive: "\<exists>x t. bindP (dv_ask (dv_alive sys)) (\<lambda>alive. if alive then ret () else say Forwarder_dead) st = (Inr x, t) \<and> fresh sys t" if "fresh sys st" for st
  proof (rule fresh_bind, rule ask_fresh [OF that])
    fix alive t assume "fresh sys t"
    with say_plain [OF this, of Forwarder_dead] show "\<exists>y u. (if alive then ret () else say Forwarder_dead) t = (Inr y, u) \<and> fresh sys u"
      by (cases alive) (auto simp: plain_def)
  qed
  have page: "\<exists>y t. bindP (scrape sys) (\<lambda>page. case page of None \<Rightarrow> say Not_scraped | Some text \<Rightarrow> judge sys duration text) st = (Inr y, t) \<and> settled sys t"
    if "fresh sys st" for st duration
  proof (cases "dv_scrape sys (dv_world st)")
    case (Pair r w)
    let ?t = "st\<lparr>dv_world := w, dv_log := dv_log st @ [Scraped_page r]\<rparr>"
    show ?thesis
    proof (cases r)
      case None
      then have "fresh sys ?t" using that by (simp add: fresh_def totals_said_def)
      from say_settled [OF this, of Not_scraped] Pair None show ?thesis by (simp add: bindP_def scrape_def plain_def)
    next
      case (Some body)
      have "dv_log ?t = dv_log st @ [Scraped_page (Some body)]" using Some by simp
      from judge_settled [OF that this, of duration] Pair Some show ?thesis by (simp add: bindP_def scrape_def)
    qed
  qed
  have guards: "\<exists>y t. (if \<not> jb_requested job then say Not_requested
       else if jb_deploy_failed job then say Deploy_failed
       else if \<not> deployed then say Never_deployed
       else thenP (bindP (dv_ask (dv_alive sys)) (\<lambda>alive. if alive then ret () else say Forwarder_dead))
        (if port = None \<or> port = Some 0 then say No_port
         else bindP (scrape sys) (\<lambda>page. case page of None \<Rightarrow> say Not_scraped | Some text \<Rightarrow> judge sys duration text))) st = (Inr y, t) \<and> settled sys t"
    for port :: "int option" and duration
  proof -
    have "\<exists>y t. thenP (bindP (dv_ask (dv_alive sys)) (\<lambda>alive. if alive then ret () else say Forwarder_dead))
        (if port = None \<or> port = Some 0 then say No_port
         else bindP (scrape sys) (\<lambda>page. case page of None \<Rightarrow> say Not_scraped | Some text \<Rightarrow> judge sys duration text)) st = (Inr y, t) \<and> settled sys t"
    proof (rule fresh_then, rule alive [OF assms])
      fix t assume t: "fresh sys t"
      show "\<exists>y u. (if port = None \<or> port = Some 0 then say No_port
         else bindP (scrape sys) (\<lambda>page. case page of None \<Rightarrow> say Not_scraped | Some text \<Rightarrow> judge sys duration text)) t = (Inr y, u) \<and> settled sys u"
      proof (cases "port = None \<or> port = Some 0")
        case True
        show ?thesis unfolding if_P [OF True] by (rule say_settled [OF t]) (simp add: plain_def)
      next
        case False
        show ?thesis unfolding if_not_P [OF False] by (rule page [OF t])
      qed
    qed
    with say_settled [OF assms] show ?thesis by (simp add: plain_def)
  qed
  show ?thesis unfolding verify_delivery_def Let_def by (rule then_ret, rule guards)
qed


section \<open>The identity that is posted is the one recorded\<close>

text \<open>Reading back a recorded identity gives its texts, and the series posted for it has them as attributes.\<close>

lemma read_write_identity: "read_identity repr (Some (write_identity capture)) = Some capture"
  by (simp add: read_identity_def write_identity_def d_text_def split_beta comp_def)

lemma distinct_identity_fields: "distinct (''capture_id'' # IDENTITY_FIELDS)"
  by (simp add: IDENTITY_FIELDS_def)

end
