(* ===== verification/ObserveHistory.thy ===== *)
theory ObserveHistory
  imports TestTrends
begin

text \<open>
  \<^verbatim>\<open>monitoring/scripts/ci_observe_history.py\<close>: the history of one test, read from the store that \<open>TestTrends\<close> writes, and of one job, read from
  the rows of the workflow exporter.

  A table is the list of its rows. \<open>hs_like\<close> is SQLite's \<^verbatim>\<open>LIKE\<close> for a pattern that starts and ends with a percent sign around the given
  text, and \<open>hs_wmean\<close> the mean weighted by runs, and \<open>hs_rate\<close> their quotient
  rounded to four digits; the other operations on floats are those of \<open>TestTrends\<close>. A day row has at least one run. Rows that an order leaves equal
  stand in one fixed order, and a store that cannot be read fails at its first statement. Texts of the document that only describe its source are left out, and notes are values.
\<close>

section \<open>Parameters and links\<close>

record 'd hist_lib =
  hs_stats :: "'d stats"
  hs_wmean :: "('d \<times> nat) list \<Rightarrow> 'd"
  hs_like :: "string \<Rightarrow> string \<Rightarrow> bool"
  hs_zero :: 'd
  hs_rate :: "nat \<Rightarrow> nat \<Rightarrow> 'd"

definition DEFAULT_DAYS :: int where "DEFAULT_DAYS = 30"
definition MAX_DAYS :: int where "MAX_DAYS = 30"
definition DEFAULT_RECENT :: nat where "DEFAULT_RECENT = 50"
definition DEFAULT_MATCHES :: nat where "DEFAULT_MATCHES = 25"
definition MAX_MATCHES :: nat where "MAX_MATCHES = 100"

definition FAILED_CONCLUSIONS :: "string list" where
  "FAILED_CONCLUSIONS = [''failure'', ''timed_out'', ''startup_failure'']"

text \<open>The first value of a parameter, empty when it is not given.\<close>

definition int_param :: "string \<Rightarrow> int \<Rightarrow> int \<Rightarrow> int \<Rightarrow> int" where
  "int_param raw fallback low high = (let n = (if raw = [] then fallback else (case int_of_str raw of None \<Rightarrow> fallback | Some n \<Rightarrow> n))
     in max low (min n high))"

definition percent_byte :: "char \<Rightarrow> string" where
  "percent_byte c = (let digit = (\<lambda>n. ''0123456789ABCDEF'' ! n) in [CHR ''%'', digit (code c div 16), digit (code c mod 16)])"

definition url_quote :: "string \<Rightarrow> string" where
  "url_quote s = concat (map (\<lambda>c. if (is_alnum c \<and> code c < 128) \<or> c \<in> set ''_.-~'' then [c] else percent_byte c) (utf8 s))"

definition TRENDS_DASHBOARD :: string where "TRENDS_DASHBOARD = ''/d/ci-observe-trends/ci-observe-e28094-trends''"

definition history_url :: "string \<Rightarrow> string \<Rightarrow> int \<Rightarrow> string \<Rightarrow> string" where
  "history_url kind name days repo = TRENDS_DASHBOARD @ ''?var-kind='' @ kind @ ''&var-name='' @ url_quote name @
     ''&var-days='' @ show_int days @ ''&var-repo='' @ url_quote repo"

definition nearest_rank :: "'d::linorder stats \<Rightarrow> nat \<Rightarrow> 'd list \<Rightarrow> 'd option" where
  "nearest_rank st hundredths vals = (if vals = [] then None
     else (let ordered = sort vals; rank = (hundredths * length ordered + 99) div 100
       in Some (st_round st (ordered ! (min (max rank 1) (length ordered) - 1)))))"

definition window_mean :: "'d stats \<Rightarrow> 'd list \<Rightarrow> 'd option" where
  "window_mean st vals = (if vals = [] then None else Some (st_round st (st_div st (st_sum st vals) (length vals))))"

definition pass_rate :: "'d hist_lib \<Rightarrow> nat \<Rightarrow> nat \<Rightarrow> 'd option" where
  "pass_rate lib passes runs = (if runs = 0 then None else Some (hs_rate lib passes runs))"

text \<open>Without \<^verbatim>\<open>GITHUB_ORG\<close> in the environment.\<close>

definition ORG :: string where "ORG = ''osac-project''"

definition run_url :: "string \<Rightarrow> string \<Rightarrow> string" where
  "run_url repo run = ''https://github.com/'' @ ORG @ ''/'' @ repo @ ''/actions/runs/'' @ run"

section \<open>The document\<close>

record 'd summary =
  sm_runs :: nat
  sm_passes :: nat
  sm_failures :: nat
  sm_other :: int
  sm_p50 :: "'d option"
  sm_p95 :: "'d option"
  sm_p99 :: "'d option"
  sm_mean :: "'d option"
  sm_measured :: nat
  sm_rate :: "'d option"

record 'd daily =
  dy_day :: string
  dy_runs :: nat
  dy_passes :: nat
  dy_failures :: nat
  dy_p50 :: "'d option"
  dy_p95 :: "'d option"
  dy_p99 :: "'d option"
  dy_mean :: "'d option"
  dy_rate :: "'d option"

record 'd recent =
  re_created :: string
  re_conclusion :: string
  re_duration :: "'d option"
  re_commit :: string
  re_run :: string
  re_repo :: string
  re_day :: string
  re_url :: string

record match =
  ma_name :: string
  ma_suite :: string
  ma_repo :: string
  ma_runs :: nat
  ma_failures :: nat
  ma_last :: string
  ma_url :: string

datatype hist_note =
    Unknown_kind | Type_a_name | No_store | Not_opened | Not_read
  | Too_many_matches | Not_exact string | Choose nat | No_match
  | Newest_of nat | No_rows | No_durations | Some_unmeasured nat | Some_other nat | Limit_reached | No_job_name

record 'd document =
  do_name :: string
  do_repo :: string
  do_summary :: "'d summary option"
  do_daily :: "'d daily list"
  do_recent :: "'d recent list"
  do_matches :: "match list"
  do_truncated :: bool
  do_notes :: "hist_note list"

definition no_document :: "'d document" where
  "no_document = \<lparr>do_name = [], do_repo = [], do_summary = None, do_daily = [], do_recent = [], do_matches = [], do_truncated = False, do_notes = []\<rparr>"

definition note_hist :: "'d document \<Rightarrow> hist_note \<Rightarrow> 'd document" where
  "note_hist d n = d\<lparr>do_notes := do_notes d @ [n]\<rparr>"

text \<open>A file of the store is missing, cannot be opened or read, or has tables.\<close>

datatype 'a store = Missing | Unopened | Unreadable | Open 'a

section \<open>Tests\<close>

definition test_of :: "test_key \<Rightarrow> string" where
  "test_of k = (case k of (day, repo, workflow, suite, test, sha) \<Rightarrow> test)"

definition repo_of :: "test_key \<Rightarrow> string" where
  "repo_of k = (case k of (day, repo, workflow, suite, test, sha) \<Rightarrow> repo)"

definition suite_of :: "test_key \<Rightarrow> string" where
  "suite_of k = (case k of (day, repo, workflow, suite, test, sha) \<Rightarrow> suite)"

definition sha_of_key :: "test_key \<Rightarrow> string" where
  "sha_of_key k = (case k of (day, repo, workflow, suite, test, sha) \<Rightarrow> sha)"

definition sorted_ids :: "'d hist_lib \<Rightarrow> 'd trends_db \<Rightarrow> string \<Rightarrow> string \<Rightarrow> string list" where
  "sorted_ids lib db name window_from =
     sort (remdups (map (test_of \<circ> ro_key) (filter (\<lambda>r. hs_like lib name (test_of (ro_key r)) \<and> window_from \<le> ro_day r) (test_rollup db))))"

definition resolve_test :: "'d hist_lib \<Rightarrow> 'd trends_db \<Rightarrow> string \<Rightarrow> string \<Rightarrow> string option \<times> hist_note list" where
  "resolve_test lib db name window_from =
     (if list_ex (\<lambda>r. test_of (ro_key r) = name \<and> window_from \<le> ro_day r) (test_rollup db) then (Some name, [])
      else (let matches = take (MAX_MATCHES + 1) (sorted_ids lib db name window_from) in
        if MAX_MATCHES < length matches then (None, [Too_many_matches])
        else (case matches of
            [m] \<Rightarrow> (Some m, [Not_exact m])
          | [] \<Rightarrow> (None, [No_match])
          | _ \<Rightarrow> (None, [Choose (length matches)]))))"

definition daily_of :: "'d::linorder hist_lib \<Rightarrow> string \<Rightarrow> 'd rollup list \<Rightarrow> 'd daily" where
  "daily_of lib day rows = (let weighted = List.map_filter (\<lambda>r. map_option (\<lambda>m. (m, ro_runs r)) (ro_mean r)) rows in
     \<lparr>dy_day = day, dy_runs = sum_list (map ro_runs rows), dy_passes = sum_list (map ro_passes rows), dy_failures = sum_list (map ro_failures rows),
      dy_p50 = nearest_rank (hs_stats lib) 50 (List.map_filter ro_p50 rows), dy_p95 = nearest_rank (hs_stats lib) 95 (List.map_filter ro_p95 rows),
      dy_p99 = nearest_rank (hs_stats lib) 99 (List.map_filter ro_p99 rows),
      dy_mean = (if weighted = [] then None else Some (st_round (hs_stats lib) (hs_wmean lib weighted))),
      dy_rate = pass_rate lib (sum_list (map ro_passes rows)) (sum_list (map ro_runs rows))\<rparr>)"

definition test_daily :: "'d::linorder hist_lib \<Rightarrow> 'd rollup list \<Rightarrow> 'd daily list" where
  "test_daily lib rows = map (\<lambda>day. daily_of lib day (filter (\<lambda>r. ro_day r = day) rows)) (sort (remdups (map ro_day rows)))"

definition test_summary :: "'d::linorder hist_lib \<Rightarrow> 'd rollup list \<Rightarrow> 'd daily list \<Rightarrow> 'd list \<Rightarrow> 'd summary" where
  "test_summary lib rows daily durations =
     (let st = hs_stats lib; runs = sum_list (map ro_runs rows); passes = sum_list (map ro_passes rows); failures = sum_list (map ro_failures rows);
          base = \<lparr>sm_runs = runs, sm_passes = passes, sm_failures = failures, sm_other = int runs - int passes - int failures,
            sm_p50 = None, sm_p95 = None, sm_p99 = None, sm_mean = None, sm_measured = 0, sm_rate = pass_rate lib passes runs\<rparr>
      in if durations \<noteq> [] then base\<lparr>sm_p50 := nearest_rank st 50 durations, sm_p95 := nearest_rank st 95 durations,
           sm_p99 := nearest_rank st 99 durations, sm_mean := window_mean st durations, sm_measured := length durations\<rparr>
         else base\<lparr>sm_p50 := nearest_rank st 50 (List.map_filter dy_p50 daily), sm_p95 := nearest_rank st 50 (List.map_filter dy_p95 daily)\<rparr>)"

definition test_recent :: "'d test_run list \<Rightarrow> nat \<Rightarrow> 'd recent list" where
  "test_recent rows limit = map (\<lambda>t. \<lparr>re_created = tr_created t, re_conclusion = (if tr_passed t then ''success'' else ''failure''),
     re_duration = tr_duration t, re_commit = sha_of_key (tr_key t), re_run = show_nat (tr_run t), re_repo = repo_of (tr_key t),
     re_day = tr_day t, re_url = run_url (repo_of (tr_key t)) (show_nat (tr_run t))\<rparr>) (take limit rows)"

definition test_matches :: "'d hist_lib \<Rightarrow> 'd trends_db \<Rightarrow> string \<Rightarrow> string \<Rightarrow> int \<Rightarrow> match list" where
  "test_matches lib db name window_from days =
     (let rows = filter (\<lambda>r. hs_like lib name (test_of (ro_key r)) \<and> window_from \<le> ro_day r) (test_rollup db);
          unit = (\<lambda>r. (test_of (ro_key r), suite_of (ro_key r), repo_of (ro_key r)));
          groups = map (\<lambda>u. (u, sum_list (map ro_runs (filter (\<lambda>r. unit r = u) rows)), sum_list (map ro_failures (filter (\<lambda>r. unit r = u) rows)))) (remdups (map unit rows))
      in map (\<lambda>((test, suite, repo), runs, failures). \<lparr>ma_name = test, ma_suite = suite, ma_repo = repo, ma_runs = runs, ma_failures = failures,
           ma_last = [], ma_url = history_url ''test'' test days repo\<rparr>)
         (take DEFAULT_MATCHES (sort_key (\<lambda>((test, suite, repo), runs, failures). (- int failures, - int runs, test)) groups)))"

text \<open>The rows of one test in the window, in one repository when one is given.\<close>

definition in_history :: "string \<Rightarrow> string \<Rightarrow> string \<Rightarrow> test_key \<Rightarrow> bool" where
  "in_history test repo window_from k \<longleftrightarrow> test_of k = test \<and> window_from \<le> fst k \<and> (repo = [] \<or> repo_of k = repo)"

definition test_history ::
  "'d::linorder hist_lib \<Rightarrow> 'd trends_db store \<Rightarrow> string \<Rightarrow> string \<Rightarrow> string \<Rightarrow> int \<Rightarrow> 'd document \<Rightarrow> 'd document" where
  "test_history lib store name repo window_from days doc =
     (if name = [] then note_hist doc Type_a_name
      else case store of
        Missing \<Rightarrow> note_hist doc No_store
      | Unopened \<Rightarrow> note_hist doc Not_opened
      | Unreadable \<Rightarrow> note_hist doc Not_read
      | Open db \<Rightarrow> (case resolve_test lib db name window_from of
          (None, notes) \<Rightarrow> doc\<lparr>do_notes := do_notes doc @ notes, do_matches := test_matches lib db name window_from days\<rparr>
        | (Some test, notes) \<Rightarrow>
            (let rows = sort_key ro_day (filter (\<lambda>r. in_history test repo window_from (ro_key r)) (test_rollup db));
                 runs = rev (sort_key (\<lambda>t. (tr_created t, tr_run t)) (filter (\<lambda>t. in_history test repo window_from (tr_key t)) (test_runs db)));
                 daily = test_daily lib rows;
                 durations = List.map_filter tr_duration runs;
                 truncated = DEFAULT_RECENT < length runs
             in doc\<lparr>do_name := test, do_summary := Some (test_summary lib rows daily durations), do_daily := daily,
                  do_recent := test_recent runs DEFAULT_RECENT, do_truncated := truncated,
                  do_notes := do_notes doc @ notes @ (if truncated then [Newest_of (length runs)] else []) @
                    (if sum_list (map ro_runs rows) = 0 then [No_rows] else []) @ (if durations = [] then [No_durations] else [])\<rparr>)))"

section \<open>Jobs\<close>

record 'd hist_job =
  hj_id :: int
  hj_repo :: string
  hj_name :: string
  hj_created :: string
  hj_duration :: "'d option"
  hj_conclusion :: "string option"
  hj_run :: string
  hj_url :: string
  hj_sha :: string

definition job_passed :: "'d hist_job \<Rightarrow> bool" where
  "job_passed j \<longleftrightarrow> map str_lower (or_empty (hj_conclusion j)) = ''success''"

definition job_failed :: "'d hist_job \<Rightarrow> bool" where
  "job_failed j \<longleftrightarrow> map str_lower (or_empty (hj_conclusion j)) \<in> set FAILED_CONCLUSIONS"

definition job_bounds :: "string \<Rightarrow> string \<Rightarrow> string \<times> string" where
  "job_bounds window_from window_to = (window_from @ ''T00:00:00Z'', window_to @ ''T23:59:59Z'')"

definition in_bounds :: "string \<Rightarrow> string \<Rightarrow> 'd hist_job \<Rightarrow> bool" where
  "in_bounds window_from window_to j \<longleftrightarrow> fst (job_bounds window_from window_to) \<le> hj_created j \<and> hj_created j < snd (job_bounds window_from window_to)"

definition measured :: "'d::linorder hist_lib \<Rightarrow> 'd hist_job list \<Rightarrow> 'd list" where
  "measured lib rows = filter (\<lambda>d. hs_zero lib < d) (List.map_filter hj_duration rows)"

definition job_daily :: "'d::linorder hist_lib \<Rightarrow> 'd hist_job list \<Rightarrow> 'd daily list" where
  "job_daily lib rows = map (\<lambda>day. let of_day = filter (\<lambda>j. take 10 (hj_created j) = day) rows; ds = measured lib of_day; st = hs_stats lib in
     \<lparr>dy_day = day, dy_runs = length of_day, dy_passes = length (filter job_passed of_day), dy_failures = length (filter job_failed of_day),
      dy_p50 = nearest_rank st 50 ds, dy_p95 = nearest_rank st 95 ds, dy_p99 = nearest_rank st 99 ds, dy_mean = window_mean st ds,
      dy_rate = pass_rate lib (length (filter job_passed of_day)) (length of_day)\<rparr>)
     (sort (remdups (map (take 10 \<circ> hj_created) rows)))"

definition job_summary :: "'d::linorder hist_lib \<Rightarrow> 'd hist_job list \<Rightarrow> 'd summary" where
  "job_summary lib rows = (let ds = measured lib rows; st = hs_stats lib; passes = length (filter job_passed rows); failures = length (filter job_failed rows) in
     \<lparr>sm_runs = length rows, sm_passes = passes, sm_failures = failures, sm_other = int (length rows) - int passes - int failures,
      sm_p50 = nearest_rank st 50 ds, sm_p95 = nearest_rank st 95 ds, sm_p99 = nearest_rank st 99 ds, sm_mean = window_mean st ds, sm_measured = length ds,
      sm_rate = pass_rate lib passes (length rows)\<rparr>)"

definition job_recent :: "'d::linorder hist_lib \<Rightarrow> 'd hist_job list \<Rightarrow> nat \<Rightarrow> 'd recent list" where
  "job_recent lib rows limit = map (\<lambda>j. let run = (if hj_run j \<noteq> [] then hj_run j else show_int (hj_id j)) in \<lparr>re_created = hj_created j, re_conclusion = or_empty (hj_conclusion j),
     re_duration = (if hj_duration j = Some (hs_zero lib) then None else hj_duration j), re_commit = hj_sha j,
     re_run = run, re_repo = hj_repo j, re_day = take 10 (hj_created j), re_url = (if hj_url j \<noteq> [] then hj_url j else run_url (hj_repo j) run)\<rparr>) (take limit rows)"

definition job_matches :: "'d hist_lib \<Rightarrow> 'd hist_job list \<Rightarrow> string \<Rightarrow> string \<Rightarrow> string \<Rightarrow> string \<Rightarrow> nat \<Rightarrow> int \<Rightarrow> match list" where
  "job_matches lib jobs name repo window_from window_to limit days =
     (let rows = filter (\<lambda>j. in_bounds window_from window_to j \<and> hs_like lib name (hj_name j) \<and> (repo = [] \<or> hj_repo j = repo)) jobs;
          groups = map (\<lambda>u. (u, filter (\<lambda>j. (hj_repo j, hj_name j) = u) rows)) (remdups (map (\<lambda>j. (hj_repo j, hj_name j)) rows))
      in map (\<lambda>((r, n), js). \<lparr>ma_name = n, ma_suite = [], ma_repo = r, ma_runs = length js, ma_failures = 0,
           ma_last = foldl max [] (map hj_created js), ma_url = history_url ''job'' n days r\<rparr>)
         (take limit (sort_key (\<lambda>((r, n), js). (- int (length js), n)) groups)))"

text \<open>The one repository and name to read, or none with the matches to choose from.\<close>

definition resolve_job ::
  "'d hist_lib \<Rightarrow> 'd hist_job list \<Rightarrow> string \<Rightarrow> string \<Rightarrow> string \<Rightarrow> string \<Rightarrow> int \<Rightarrow> (string \<times> string) option \<times> match list \<times> hist_note list" where
  "resolve_job lib jobs name repo window_from window_to days =
     (let exact = filter (\<lambda>j. in_bounds window_from window_to j \<and> hj_name j = name \<and> (repo = [] \<or> hj_repo j = repo)) jobs in
      case exact of
        j # js \<Rightarrow> (Some (if repo \<noteq> [] then repo else hj_repo j, name), [], [])
      | [] \<Rightarrow> (let matches = job_matches lib jobs name repo window_from window_to (MAX_MATCHES + 1) days in
          if MAX_MATCHES < length matches then (None, [], [Too_many_matches])
          else (case matches of
              [] \<Rightarrow> (None, [], [No_match])
            | [m] \<Rightarrow> (Some (ma_repo m, ma_name m), [], [Not_exact (ma_name m)])
            | _ \<Rightarrow> (None, take DEFAULT_MATCHES matches, [Choose (length matches)]))))"

definition job_history ::
  "'d::linorder hist_lib \<Rightarrow> 'd hist_job list store \<Rightarrow> string \<Rightarrow> string \<Rightarrow> string \<Rightarrow> string \<Rightarrow> int \<Rightarrow> 'd document \<Rightarrow> 'd document" where
  "job_history lib store name repo window_from window_to days doc =
     (if name = [] then note_hist doc Type_a_name
      else case store of
        Missing \<Rightarrow> note_hist doc No_store
      | Unopened \<Rightarrow> note_hist doc Not_opened
      | Unreadable \<Rightarrow> note_hist doc Not_read
      | Open jobs \<Rightarrow> (case resolve_job lib jobs name repo window_from window_to days of
          (None, matches, notes) \<Rightarrow> doc\<lparr>do_matches := matches, do_notes := do_notes doc @ notes\<rparr>
        | (Some (repo, name), _, notes) \<Rightarrow>
            (let rows = rev (sort_key (\<lambda>j. (hj_created j, hj_id j))
                   (filter (\<lambda>j. in_bounds window_from window_to j \<and> hj_name j = name \<and> (repo = [] \<or> hj_repo j = repo)) jobs));
                 summary = job_summary lib rows; n = length rows
             in doc\<lparr>do_name := name, do_repo := repo, do_summary := Some summary, do_daily := job_daily lib rows,
                  do_recent := job_recent lib rows DEFAULT_RECENT, do_truncated := DEFAULT_RECENT < n,
                  do_notes := do_notes doc @ notes @ (if DEFAULT_RECENT < n then [Newest_of n] else []) @ (if n = 0 then [No_rows] else []) @
                    (if sm_measured summary < n then [Some_unmeasured (n - sm_measured summary)] else []) @
                    (if sm_passes summary + sm_failures summary < n then [Some_other (n - sm_passes summary - sm_failures summary)] else [])\<rparr>)))"

section \<open>The two endpoints\<close>

record hist_params =
  hp_kind :: string
  hp_name :: string
  hp_repo :: string
  hp_days :: string
  hp_q :: string
  hp_limit :: string

text \<open>\<open>window\<close> gives the first and the last day of a window of so many days.\<close>

definition history_document ::
  "'d::linorder hist_lib \<Rightarrow> (int \<Rightarrow> string \<times> string) \<Rightarrow> 'd trends_db store \<Rightarrow> 'd hist_job list store \<Rightarrow> hist_params \<Rightarrow> 'd document" where
  "history_document lib window trends jobs p =
     (let kind = map str_lower (if strip (hp_kind p) = [] then ''test'' else strip (hp_kind p));
          days = int_param (hp_days p) DEFAULT_DAYS 1 MAX_DAYS; (window_from, window_to) = window days;
          doc = (if kind = ''test'' \<or> kind = ''job'' then no_document else note_hist no_document Unknown_kind)
      in if kind = ''job'' then job_history lib jobs (strip (hp_name p)) (strip (hp_repo p)) window_from window_to days doc
         else test_history lib trends (strip (hp_name p)) (strip (hp_repo p)) window_from days doc)"

definition jobs_document ::
  "'d hist_lib \<Rightarrow> (int \<Rightarrow> string \<times> string) \<Rightarrow> 'd hist_job list store \<Rightarrow> hist_params \<Rightarrow> match list \<times> bool \<times> hist_note list" where
  "jobs_document lib window jobs p =
     (let days = int_param (hp_days p) DEFAULT_DAYS 1 MAX_DAYS; limit = nat (int_param (hp_limit p) 50 1 200); (window_from, window_to) = window days in
      case jobs of
        Missing \<Rightarrow> ([], False, [No_store])
      | Unopened \<Rightarrow> ([], False, [Not_opened])
      | Unreadable \<Rightarrow> ([], False, [Not_read])
      | Open js \<Rightarrow> (let found = job_matches lib js (strip (hp_q p)) (strip (hp_repo p)) window_from window_to (limit + 1) days; truncated = limit < length found
          in (take limit found, truncated, (if truncated then [Limit_reached] else []) @ (if found = [] then [No_job_name] else []))))"

section \<open>The figures of a test\<close>

text \<open>The two modules round the same percentile and mean.\<close>

lemma nearest_rank_percentile: "nearest_rank st h vals = percentile st h vals"
  by (simp add: nearest_rank_def percentile_def Let_def)

lemma window_mean_value: "window_mean st vals = mean_value st vals"
  by (simp add: window_mean_def mean_value_def)

lemma sum_by_key:
  "distinct ks \<Longrightarrow> sum_list (map (\<lambda>k. length (filter (\<lambda>x. f x = k) xs)) ks) = length (filter (\<lambda>x. f x \<in> set ks) xs)"
proof (induction ks)
  case (Cons k ks)
  have "length (filter (\<lambda>x. f x = k) xs) + length (filter (\<lambda>x. f x \<in> set ks) xs) = length (filter (\<lambda>x. f x \<in> set (k # ks)) xs)"
    using Cons.prems by (induction xs) auto
  with Cons show ?case by simp
qed simp

lemma sum_over_keys:
  fixes w :: "'a \<Rightarrow> nat"
  shows "distinct ks \<Longrightarrow> (\<And>x. x \<in> set xs \<Longrightarrow> f x \<in> set ks) \<Longrightarrow>
    sum_list (map (\<lambda>k. sum_list (map w (filter (\<lambda>x. f x = k) xs))) ks) = sum_list (map w xs)"
proof (induction xs)
  case (Cons x xs)
  have split: "(\<lambda>k. sum_list (map w (filter (\<lambda>x. f x = k) (x # xs)))) =
      (\<lambda>k. (if f x = k then w x else 0) + sum_list (map w (filter (\<lambda>x. f x = k) xs)))" by auto
  have "sum_list (map (\<lambda>k. if f x = k then w x else 0) ks) = w x"
    using Cons.prems(1) Cons.prems(2) [of x] by (simp add: sum_list_distinct_conv_sum_set)
  moreover have "sum_list (map (\<lambda>k. sum_list (map w (filter (\<lambda>x. f x = k) xs))) ks) = sum_list (map w xs)"
    using Cons by simp
  ultimately show ?case unfolding split by (simp add: sum_list_addf)
qed simp

text \<open>Over the keys that satisfy any condition, the rollup counts the raw rows.\<close>

definition rollup_counts :: "(test_key \<Rightarrow> bool) \<Rightarrow> 'd rollup list \<Rightarrow> nat \<times> nat \<times> nat" where
  "rollup_counts P rows = (let rows = filter (\<lambda>r. P (ro_key r)) rows in
     (sum_list (map ro_runs rows), sum_list (map ro_passes rows), sum_list (map ro_failures rows)))"

definition raw_counts :: "(test_key \<Rightarrow> bool) \<Rightarrow> 'd test_run list \<Rightarrow> nat \<times> nat \<times> nat" where
  "raw_counts P rows = (let rows = filter (\<lambda>t. P (tr_key t)) rows in
     (length rows, length (filter tr_passed rows), length (filter (\<lambda>t. \<not> tr_passed t) rows)))"

definition store_counts :: "'d trends_db \<Rightarrow> bool" where
  "store_counts db \<longleftrightarrow> (\<forall>P. rollup_counts P (test_rollup db) = raw_counts P (test_runs db))"

definition add3 :: "nat \<times> nat \<times> nat \<Rightarrow> nat \<times> nat \<times> nat \<Rightarrow> nat \<times> nat \<times> nat" where
  "add3 x y = (fst x + fst y, fst (snd x) + fst (snd y), snd (snd x) + snd (snd y))"

lemma counts_append:
  "rollup_counts P (rows @ rows') = add3 (rollup_counts P rows) (rollup_counts P rows')"
  "raw_counts P (runs @ runs') = add3 (raw_counts P runs) (raw_counts P runs')"
  by (simp_all add: rollup_counts_def raw_counts_def add3_def Let_def)

lemma counts_filter:
  "rollup_counts P (filter (\<lambda>r. Q (ro_day r)) rows) = rollup_counts (\<lambda>k. P k \<and> Q (fst k)) rows"
  "raw_counts P (filter (\<lambda>t. Q (tr_day t)) runs) = raw_counts (\<lambda>k. P k \<and> Q (fst k)) runs"
  by (simp_all add: rollup_counts_def raw_counts_def ro_day_def tr_day_def Let_def conj_commute conj_left_commute)

lemma raw_counts_outcomes:
  "raw_counts P (test_run_rows runs) = (let rcs = filter (\<lambda>rc. P (the_key rc)) (all_outcomes runs) in
     (length rcs, length (filter (\<lambda>rc. c_passed (snd rc)) rcs), length (filter (\<lambda>rc. \<not> c_passed (snd rc)) rcs)))"
  by (simp add: raw_counts_def test_run_rows_def the_key_def filter_map comp_def case_prod_unfold Let_def)

lemma day_counts: "rollup_counts P (rollup_rows st runs) = raw_counts P (test_run_rows runs)"
proof -
  let ?rcs = "all_outcomes runs"
  let ?keys = "filter P (sort (remdups (map the_key ?rcs)))"
  have count: "sum_list (map (\<lambda>k. length (filter (\<lambda>rc. the_key rc = k) (filter Q ?rcs))) ?keys) = length (filter (\<lambda>rc. P (the_key rc) \<and> Q rc) ?rcs)" for Q
    by (subst sum_by_key) (auto intro!: arg_cong [where f = length] filter_cong)
  have rows: "filter (\<lambda>r. P (ro_key r)) (rollup_rows st runs) = map (\<lambda>key. reference_row st key (outcomes_for key ?rcs)) ?keys"
    unfolding rollup_counts_outcomes by (simp add: filter_map comp_def reference_row_def Let_def)
  have "rollup_counts P (rollup_rows st runs) =
      (length (filter (\<lambda>rc. P (the_key rc) \<and> True) ?rcs), length (filter (\<lambda>rc. P (the_key rc) \<and> c_passed (snd rc)) ?rcs),
       length (filter (\<lambda>rc. P (the_key rc) \<and> \<not> c_passed (snd rc)) ?rcs))"
    unfolding rollup_counts_def rows Let_def count [symmetric]
    by (simp add: comp_def reference_row_def Let_def outcomes_for_def filter_map conj_commute)
  then show ?thesis by (simp add: raw_counts_outcomes Let_def)
qed

text \<open>A pass keeps that, whatever it reads and however it ends.\<close>

lemma prune_counts: "store_counts db \<Longrightarrow> store_counts (prune_old_days cutoff db)"
  by (simp add: store_counts_def prune_old_days_def counts_filter [where Q = "\<lambda>d. \<not> d < cutoff"])

lemma write_day_counts:
  assumes "store_counts db" "write_day day (rollup_rows st runs) coverage (test_run_rows runs) db = Some db'"
  shows "store_counts db'"
proof -
  from assms(2) have db': "test_rollup db' = filter (\<lambda>r. ro_day r \<noteq> day) (test_rollup db) @ rollup_rows st runs"
      "test_runs db' = filter (\<lambda>t. tr_day t \<noteq> day) (test_runs db) @ test_run_rows runs"
    by (auto simp: write_day_def Let_def split: if_splits)
  show ?thesis using assms(1)
    by (simp add: store_counts_def db' counts_append counts_filter [where Q = "\<lambda>d. d \<noteq> day"] day_counts)
qed

lemma roll_days_counts: "store_counts db \<Longrightarrow> store_counts (snd (roll_days st force g runs days db))"
  by (induction days arbitrary: db) (auto simp: roll_day_def split: sum.split option.split dest: write_day_counts)

lemma pass_counts: "store_counts db \<Longrightarrow> store_counts (snd (trends_main lib st tm args has_token jobs db))"
  by (simp add: trends_main_def Let_def prune_counts roll_days_counts split: option.split sum.split)

text \<open>The history of a test reads the rows of one set of keys.\<close>

lemma daily_runs: "sum_list (map dy_runs (test_daily lib rows)) = sum_list (map ro_runs rows)"
  by (simp add: test_daily_def daily_of_def Let_def comp_def sum_over_keys)

lemma sum_insort_key: "sum_list (map f (insort_key k x xs)) = f x + sum_list (map f xs)" for f :: "'a \<Rightarrow> nat"
  by (induction xs) auto

lemma sum_sort_key: "sum_list (map f (sort_key k xs)) = sum_list (map f xs)" for f :: "'a \<Rightarrow> nat"
  by (induction xs) (simp_all add: sum_insort_key)

lemma history_counts:
  assumes "store_counts db"
  shows "sum_list (map ro_runs (filter (\<lambda>r. P (ro_key r)) (test_rollup db))) = length (filter (\<lambda>t. P (tr_key t)) (test_runs db))"
    "sum_list (map ro_passes (filter (\<lambda>r. P (ro_key r)) (test_rollup db))) = length (filter (\<lambda>t. P (tr_key t) \<and> tr_passed t) (test_runs db))"
    "sum_list (map ro_failures (filter (\<lambda>r. P (ro_key r)) (test_rollup db))) = length (filter (\<lambda>t. P (tr_key t) \<and> \<not> tr_passed t) (test_runs db))"
  using assms by (simp_all add: store_counts_def rollup_counts_def raw_counts_def Let_def)

text \<open>Claim C35: the history of a test counts its raw results. In a store that a pass leaves, the runs, passes and failures
  of the answer are those of the stored results of the named test in the window and repository, no run is neither passed nor
  failed, and the days add up to the total.\<close>

theorem test_history_counts_results:
  assumes "store_counts db"
  shows "let db' = snd (trends_main alib st tm args has_token jobs db); d = test_history lib (Open db') name repo window_from days no_document;
           mine = filter (\<lambda>t. in_history (do_name d) repo window_from (tr_key t)) (test_runs db') in
     case do_summary d of None \<Rightarrow> do_daily d = [] \<and> do_recent d = [] \<and> do_notes d \<noteq> []
     | Some s \<Rightarrow> sm_runs s = length mine \<and> sm_passes s = length (filter tr_passed mine) \<and> sm_failures s = length (filter (\<lambda>t. \<not> tr_passed t) mine) \<and>
         sm_other s = 0 \<and> sum_list (map dy_runs (do_daily d)) = sm_runs s \<and> length (do_recent d) = min DEFAULT_RECENT (length mine)"
proof -
  define db' where "db' = snd (trends_main alib st tm args has_token jobs db)"
  have c: "store_counts db'" unfolding db'_def by (rule pass_counts [OF assms])
  have all: "length (filter (\<lambda>t. P t \<and> tr_passed t) ts) + length (filter (\<lambda>t. P t \<and> \<not> tr_passed t) ts) = length (filter P ts)" for P and ts :: "'d test_run list"
    by (induction ts) auto
  show ?thesis
  proof (cases "name = [] \<or> fst (resolve_test lib db' name window_from) = None")
    case True
    then show ?thesis unfolding db'_def [symmetric]
      by (auto simp: test_history_def Let_def note_hist_def no_document_def resolve_test_def split: if_splits list.splits)
  next
    case False
    then obtain test ns where r: "name \<noteq> []" "resolve_test lib db' name window_from = (Some test, ns)"
      by (cases "resolve_test lib db' name window_from") auto
    show ?thesis unfolding db'_def [symmetric] using all [of "\<lambda>t. in_history test repo window_from (tr_key t)" "test_runs db'"]
      by (simp add: test_history_def r Let_def no_document_def test_summary_def daily_runs sum_sort_key
          history_counts [OF c, of "in_history test repo window_from"] test_recent_def min.commute)
  qed
qed

text \<open>The results of two tests, one of which failed, after a pass over an empty store.\<close>

definition demo_hist :: "nat hist_lib" where
  "demo_hist = \<lparr>hs_stats = demo_stats, hs_wmean = (\<lambda>xs. sum_list (map (\<lambda>(m, n). m * n) xs) div max 1 (sum_list (map snd xs))),
     hs_like = (\<lambda>pattern s. contains (map str_lower pattern) (map str_lower s)), hs_zero = 0,
     hs_rate = (\<lambda>passes runs. 10000 * passes div runs)\<rparr>"

definition empty_store :: "nat trends_db" where
  "empty_store = \<lparr>test_rollup = [], test_runs = [], rollup_days = []\<rparr>"

lemma empty_store_counts: "store_counts empty_store"
  by (simp add: store_counts_def empty_store_def rollup_counts_def raw_counts_def)

theorem test_history_counts_results_witness:
  "let db' = snd (trends_main demo_artifacts demo_stats demo_time demo_args True (Some [demo_job]) empty_store);
       d = test_history demo_hist (Open db') ''tests.a::test_y'' [] ''2026-01-01'' 30 no_document;
       mine = filter (\<lambda>t. in_history (do_name d) [] ''2026-01-01'' (tr_key t)) (test_runs db') in
     case do_summary d of None \<Rightarrow> do_daily d = [] \<and> do_recent d = [] \<and> do_notes d \<noteq> []
     | Some s \<Rightarrow> sm_runs s = length mine \<and> sm_passes s = length (filter tr_passed mine) \<and> sm_failures s = length (filter (\<lambda>t. \<not> tr_passed t) mine) \<and>
         sm_other s = 0 \<and> sum_list (map dy_runs (do_daily d)) = sm_runs s \<and> length (do_recent d) = min DEFAULT_RECENT (length mine)"
  by (rule test_history_counts_results [OF empty_store_counts])

section \<open>The figures of a job\<close>

lemma job_daily_runs: "sum_list (map dy_runs (job_daily lib rows)) = length rows"
  by (simp add: job_daily_def Let_def comp_def sum_by_key)

lemma passed_not_failed: "job_passed j \<Longrightarrow> \<not> job_failed j"
  by (simp add: job_passed_def job_failed_def FAILED_CONCLUSIONS_def)

lemma passed_failed_total: "length (filter job_passed js) + length (filter job_failed js) \<le> length js"
  by (induction js) (auto dest: passed_not_failed)

text \<open>The jobs that a resolved repository and name stand for.\<close>

definition of_job :: "string \<Rightarrow> string \<Rightarrow> string \<Rightarrow> string \<Rightarrow> 'd hist_job \<Rightarrow> bool" where
  "of_job repo name window_from window_to j \<longleftrightarrow>
     in_bounds window_from window_to j \<and> hj_name j = name \<and> (repo = [] \<or> hj_repo j = repo)"

lemma sort_key_rev_order: "sorted_wrt (\<lambda>a b. k b \<le> k a) (rev (sort_key k xs))"
  using sorted_sort_key [of k xs] by (simp add: sorted_wrt_rev sorted_map)

lemma job_matches_from:
  assumes "m \<in> set (job_matches lib jobs name repo window_from window_to limit days)"
  shows "\<exists>j \<in> set jobs. in_bounds window_from window_to j \<and> hj_name j = ma_name m \<and> hj_repo j = ma_repo m \<and> (repo = [] \<or> ma_repo m = repo)"
  using assms by (auto simp: job_matches_def Let_def dest!: in_set_takeD)

lemma resolve_job_stored:
  assumes "resolve_job lib jobs name repo window_from window_to days = (Some (r, n), ms, ns)"
  shows "(repo = [] \<or> r = repo) \<and> (\<exists>j \<in> set jobs. of_job r n window_from window_to j)"
proof (cases "filter (\<lambda>j. in_bounds window_from window_to j \<and> hj_name j = name \<and> (repo = [] \<or> hj_repo j = repo)) jobs")
  case (Cons j js)
  then have "j \<in> set (filter (\<lambda>j. in_bounds window_from window_to j \<and> hj_name j = name \<and> (repo = [] \<or> hj_repo j = repo)) jobs)" by simp
  then have j: "j \<in> set jobs" "in_bounds window_from window_to j" "hj_name j = name" "repo = [] \<or> hj_repo j = repo" by auto
  from assms Cons have "r = (if repo \<noteq> [] then repo else hj_repo j)" "n = name" by (simp_all add: resolve_job_def)
  with j show ?thesis by (auto simp: of_job_def)
next
  case Nil
  let ?ms = "job_matches lib jobs name repo window_from window_to (MAX_MATCHES + 1) days"
  from assms Nil obtain m where m: "?ms = [m]" "r = ma_repo m" "n = ma_name m"
    by (auto simp: resolve_job_def Let_def split: if_splits list.splits)
  then have "m \<in> set ?ms" by simp
  from job_matches_from [OF this] m(2,3) show ?thesis by (auto simp: of_job_def)
qed

lemma unresolved_notes:
  "resolve_job lib jobs name repo window_from window_to days = (None, ms, ns) \<Longrightarrow> ns \<noteq> []"
  by (auto simp: resolve_job_def Let_def split: if_splits list.splits)

lemma job_history_unresolved:
  assumes "name = [] \<or> fst (resolve_job lib jobs name repo window_from window_to days) = None"
  shows "do_summary (job_history lib (Open jobs) name repo window_from window_to days no_document) = None \<and>
    do_daily (job_history lib (Open jobs) name repo window_from window_to days no_document) = [] \<and>
    do_recent (job_history lib (Open jobs) name repo window_from window_to days no_document) = [] \<and>
    do_notes (job_history lib (Open jobs) name repo window_from window_to days no_document) \<noteq> []"
proof (cases "name = []")
  case True
  then show ?thesis by (simp add: job_history_def note_hist_def no_document_def)
next
  case False
  with assms obtain ms ns where r: "resolve_job lib jobs name repo window_from window_to days = (None, ms, ns)"
    by (cases "resolve_job lib jobs name repo window_from window_to days") auto
  with False unresolved_notes [OF r] show ?thesis by (simp add: job_history_def no_document_def)
qed

lemma recent_newest:
  "sorted_wrt (\<lambda>a b. re_created b \<le> re_created a) (job_recent lib (rev (sort_key (\<lambda>j. (hj_created j, hj_id j)) js)) limit)"
proof -
  have "sorted_wrt (\<lambda>a b. hj_created b \<le> hj_created a) (rev (sort_key (\<lambda>j. (hj_created j, hj_id j)) js))"
    by (rule sorted_wrt_mono_rel [OF _ sort_key_rev_order [of "\<lambda>j. (hj_created j, hj_id j)"]]) (auto simp: less_eq_prod_def)
  then show ?thesis by (simp add: job_recent_def Let_def sorted_wrt_map sorted_wrt_take)
qed

text \<open>Claim C36: the history of a job is that of one job. The answer counts the stored jobs of the one repository and name that it
  names, within the window; passed, failed and other runs add up, the days add up, the recent runs are the newest of them in
  order, at most fifty, and a repository that was asked for is the one that is answered.\<close>

theorem job_history_counts_one_job:
  "let d = job_history lib store name repo window_from window_to days no_document in
   case do_summary d of None \<Rightarrow> do_daily d = [] \<and> do_recent d = [] \<and> do_notes d \<noteq> []
   | Some s \<Rightarrow> \<exists>jobs. store = Open jobs \<and> (repo = [] \<or> do_repo d = repo) \<and>
       (let mine = filter (of_job (do_repo d) (do_name d) window_from window_to) jobs in
         mine \<noteq> [] \<and> sm_runs s = length mine \<and> int (sm_passes s) + int (sm_failures s) + sm_other s = int (length mine) \<and> 0 \<le> sm_other s \<and>
         sum_list (map dy_runs (do_daily d)) = length mine \<and> length (do_recent d) = min DEFAULT_RECENT (length mine) \<and>
         sorted_wrt (\<lambda>a b. re_created b \<le> re_created a) (do_recent d))"
proof (cases store)
  case (Open jobs)
  show ?thesis
  proof (cases "name = [] \<or> fst (resolve_job lib jobs name repo window_from window_to days) = None")
    case True
    then have "do_summary (job_history lib store name repo window_from window_to days no_document) = None \<and>
        do_daily (job_history lib store name repo window_from window_to days no_document) = [] \<and>
        do_recent (job_history lib store name repo window_from window_to days no_document) = [] \<and>
        do_notes (job_history lib store name repo window_from window_to days no_document) \<noteq> []"
      unfolding Open by (rule job_history_unresolved)
    then show ?thesis by (simp add: Let_def)
  next
    case False
    then obtain r n ms ns where r: "name \<noteq> []" "resolve_job lib jobs name repo window_from window_to days = (Some (r, n), ms, ns)"
      by (cases "resolve_job lib jobs name repo window_from window_to days") auto
    let ?mine = "filter (of_job r n window_from window_to) jobs"
    let ?rows = "rev (sort_key (\<lambda>j. (hj_created j, hj_id j)) ?mine)"
    define d where "d = job_history lib (Open jobs) name repo window_from window_to days no_document"
    have d: "do_name d = n" "do_repo d = r" "do_summary d = Some (job_summary lib ?rows)" "do_daily d = job_daily lib ?rows"
        "do_recent d = job_recent lib ?rows DEFAULT_RECENT"
      unfolding d_def by (simp_all add: job_history_def r Let_def no_document_def of_job_def [abs_def])
    have "?mine \<noteq> []" using resolve_job_stored [OF r(2)] by (auto simp: filter_empty_conv)
    moreover have "0 \<le> sm_other (job_summary lib ?rows)"
      using passed_failed_total [of ?rows] by (simp add: job_summary_def Let_def)
    ultimately show ?thesis
      unfolding Open d_def [symmetric] Let_def d option.case
      using resolve_job_stored [OF r(2)] recent_newest
      by (simp add: job_daily_runs job_summary_def Let_def job_recent_def min.commute)
  qed
qed (simp_all add: job_history_def note_hist_def no_document_def)

end
