(* ===== verification/PrQueue.thy ===== *)
theory PrQueue
  imports PyDyn PyRegex "HOL-Library.Char_ord" "HOL-Library.List_Lexorder" "HOL-Library.Product_Lexorder" "HOL-Library.Multiset"
begin

text \<open>
  \<^verbatim>\<open>monitoring/scripts/ci_observe_prs.py\<close>: the record of a pull request and its attempts in the merge queue, built from what GitHub answers.

  Objects of GitHub are records of the fields that are read; a text that is missing or null is the empty text. Texts have characters up to
  U+00FF; the ellipsis of a cut comment is outside and is the argument \<open>mark\<close>. Times are microseconds: \<open>tk_parse\<close> is \<open>datetime.fromisoformat\<close>
  with the zone designator replaced, and \<open>tk_show\<close> is \<open>_iso\<close>.
\<close>

section \<open>Objects of GitHub\<close>

record timekeeper =
  tk_parse :: "string \<Rightarrow> int option"
  tk_show :: "int \<Rightarrow> string"

record wf_run =
  wr_id :: int
  wr_number :: "int option"
  wr_attempt :: "int option"
  wr_event :: string
  wr_branch :: string
  wr_sha :: string
  wr_status :: string
  wr_conclusion :: string
  wr_created :: string
  wr_started :: string
  wr_updated :: string
  wr_url :: string

record gh_user =
  us_login :: string
  us_type :: string

record tl_event =
  ev_kind :: string
  ev_body :: string
  ev_created :: string
  ev_url :: string
  ev_user :: "gh_user option"
  ev_reviewer :: string
  ev_label :: string

record review =
  rv_submitted :: string
  rv_user :: "gh_user option"
  rv_state :: string

record pull =
  pl_number :: int
  pl_title :: string
  pl_user :: "gh_user option"
  pl_url :: string
  pl_labels :: "string list"
  pl_created :: string
  pl_merged :: string
  pl_closed :: string
  pl_updated :: string

section \<open>Small helpers\<close>

definition parse_iso :: "timekeeper \<Rightarrow> string \<Rightarrow> int option" where
  "parse_iso tk s = (if s = [] then None else tk_parse tk s)"

text \<open>\<open>round\<close> of a number of microseconds to seconds, a half to the even side.\<close>

definition round_seconds :: "int \<Rightarrow> int" where
  "round_seconds d = (let q = d div 1000000; r = d mod 1000000 in
     if 2 * r < 1000000 \<or> (2 * r = 1000000 \<and> even q) then q else q + 1)"

definition seconds_between :: "timekeeper \<Rightarrow> string \<Rightarrow> string \<Rightarrow> int option" where
  "seconds_between tk start finish = (case (parse_iso tk start, parse_iso tk finish) of
       (Some a, Some b) \<Rightarrow> Some (max 0 (round_seconds (b - a)))
     | _ \<Rightarrow> None)"

definition is_bot :: "gh_user option \<Rightarrow> bool" where
  "is_bot user = (case user of None \<Rightarrow> False
     | Some u \<Rightarrow> us_type u = ''Bot'' \<or> rx_search (Seq (Lit ''[bot]'') (Assert dollar)) (us_login u) \<noteq> None)"

definition MERGE_QUEUE_BRANCH_RE :: "char rx" where
  "MERGE_QUEUE_BRANCH_RE = Seqs [Lit ''gh-readonly-queue/'', Plus (Cls (\<lambda>c. c \<noteq> CHR 0x0A)), Lit ''/pr-'', Grp 1 (Plus (Cls is_digit)),
     Lit ''-'', Plus (Cls (\<lambda>c. is_digit c \<or> in_range (CHR ''a'') (CHR ''f'') c)), Assert dollar]"

definition RUN_LINK_RE :: "char rx" where
  "RUN_LINK_RE = Seqs [Lit ''/'', Alts [Lit ''actions/runs'', Lit ''runs''], Lit ''/'', Grp 1 (Plus (Cls is_digit))]"

definition merge_queue_pr_number :: "string \<Rightarrow> int option" where
  "merge_queue_pr_number branch = (if branch = [] then None
     else map_option (\<lambda>m. int (digits_val (m_group branch m 1))) (rx_match_at MERGE_QUEUE_BRANCH_RE branch 0))"

definition MERGE_QUEUE_COMMENT_MARKERS :: "string list" where
  "MERGE_QUEUE_COMMENT_MARKERS = [''merge queue'', ''merge group'', ''gh-readonly-queue'', ''removed from the merge queue'']"

definition MERGE_QUEUE_COMMENT_MAX_CHARS :: nat where "MERGE_QUEUE_COMMENT_MAX_CHARS = 240"

definition about_queue :: "string \<Rightarrow> bool" where
  "about_queue text \<longleftrightarrow> list_ex (\<lambda>marker. contains marker (lower text)) MERGE_QUEUE_COMMENT_MARKERS"

definition comment_lines :: "string \<Rightarrow> string list" where
  "comment_lines body =
     (let text = rx_sub (Seqs [Lit ''```'', AnyLazy, Lit ''```'']) (\<lambda>_. '' '') body;
          text = rx_sub (Seqs [Lit ''['', Grp 1 (Plus (Cls (\<lambda>c. c \<noteq> CHR '']''))), Lit ''](''  , Plus (Cls (\<lambda>c. c \<noteq> CHR '')'')), Lit '')'']) (\<lambda>m. m_group text m 1) text;
          text = rx_sub (Plus (Cls (\<lambda>c. c \<in> set ''*_>`#''))) (\<lambda>_. []) text
      in filter (\<lambda>line. line \<noteq> []) (map (\<lambda>line. join '' '' (words_by str_space line)) (lines_of text)))"

definition clean_comment_body :: "string \<Rightarrow> string \<Rightarrow> string" where
  "clean_comment_body mark body = (case comment_lines body of
       [] \<Rightarrow> []
     | line # rest \<Rightarrow> (let queue_line = (case find about_queue (line # rest) of None \<Rightarrow> line | Some l \<Rightarrow> l) in
         if MERGE_QUEUE_COMMENT_MAX_CHARS < length queue_line
         then rstrip (take (MERGE_QUEUE_COMMENT_MAX_CHARS - 1) queue_line) @ mark else queue_line))"

definition ejection_kind :: "string \<Rightarrow> string \<Rightarrow> string" where
  "ejection_kind conclusion reason = (let text = lower reason in
     if conclusion = ''cancelled'' \<or> contains ''cancel'' text then ''cancelled''
     else if contains ''timed out'' text \<or> contains ''timeout'' text \<or> contains ''exceeded'' text then ''timed_out''
     else if conclusion \<noteq> [] \<and> conclusion \<noteq> ''success'' then ''check_failed''
     else if contains ''fail'' text then ''check_failed''
     else if contains ''removed from the merge queue'' text then ''removed'' else ''unknown'')"

definition entry_conclusion :: "wf_run list \<Rightarrow> string" where
  "entry_conclusion runs = (let conclusions = map wr_conclusion runs in
     case find (\<lambda>c. c \<in> set conclusions) [''failure'', ''timed_out'', ''startup_failure'', ''action_required''] of
       Some c \<Rightarrow> c
     | None \<Rightarrow> if ''cancelled'' \<in> set conclusions then ''cancelled''
         else if conclusions \<noteq> [] \<and> list_all (\<lambda>c. c \<in> {''success'', ''skipped'', ''neutral''}) conclusions then ''success'' else [])"

definition final_stage :: "string \<Rightarrow> string \<Rightarrow> string \<Rightarrow> string \<Rightarrow> string" where
  "final_stage state first_review first_approval queued =
     (if state = ''merged'' then ''merged''
      else if state = ''open'' then (if queued \<noteq> [] then ''open in queue'' else ''open'')
      else if queued \<noteq> [] then ''closed in queue''
      else if first_approval \<noteq> [] then ''closed after approval''
      else if first_review \<noteq> [] then ''closed in review'' else ''closed in authoring'')"

section \<open>The attempts of a pull request\<close>

record attempt =
  at_repo :: string
  at_number :: int
  at_run :: int
  at_run_number :: "int option"
  at_run_attempt :: "int option"
  at_branch :: string
  at_sha :: string
  at_runs :: "int list"
  at_conclusion :: string
  at_started :: string
  at_completed :: string
  at_duration :: "int option"
  at_url :: string
  at_ejected :: bool
  at_reason :: string
  at_kind :: string
  at_source :: string
  at_comment_url :: string
  at_comment_author :: string
  at_comment_at :: string
  at_fetched :: string

definition first_of :: "string \<Rightarrow> string \<Rightarrow> string" where
  "first_of a b = (if a \<noteq> [] then a else b)"

definition least_text :: "string list \<Rightarrow> string" where
  "least_text ts = (case ts of [] \<Rightarrow> [] | t # ts \<Rightarrow> foldl min t ts)"

definition greatest_text :: "string list \<Rightarrow> string" where
  "greatest_text ts = (case ts of [] \<Rightarrow> [] | t # ts \<Rightarrow> foldl max t ts)"

definition DAY :: int where "DAY = 24 * 3600 * 1000000"

text \<open>The comment that explains a failed attempt.\<close>

definition comment_end :: "timekeeper \<Rightarrow> string \<Rightarrow> string option \<Rightarrow> string" where
  "comment_end tk start next_start = first_of (case next_start of None \<Rightarrow> [] | Some s \<Rightarrow> s)
     (case parse_iso tk start of None \<Rightarrow> [] | Some t \<Rightarrow> tk_show tk (t + DAY))"

definition explains :: "timekeeper \<Rightarrow> string \<Rightarrow> string option \<Rightarrow> tl_event \<Rightarrow> bool" where
  "explains tk start next_start c \<longleftrightarrow> \<not> (start \<noteq> [] \<and> ev_created c < start) \<and>
     \<not> (comment_end tk start next_start \<noteq> [] \<and> comment_end tk start next_start < ev_created c) \<and> about_queue (ev_body c)"

definition queue_comment :: "timekeeper \<Rightarrow> tl_event list \<Rightarrow> wf_run \<Rightarrow> string option \<Rightarrow> tl_event option" where
  "queue_comment tk comments run next_start = find (explains tk (wr_created run) next_start) comments"

definition login_of :: "gh_user option \<Rightarrow> string" where
  "login_of u = (case u of None \<Rightarrow> [] | Some u \<Rightarrow> us_login u)"

definition build_attempt ::
  "timekeeper \<Rightarrow> string \<Rightarrow> string \<Rightarrow> int \<Rightarrow> wf_run list \<Rightarrow> tl_event list \<Rightarrow> string option \<Rightarrow> string \<Rightarrow> attempt" where
  "build_attempt tk mark repo number entry comments next_start fetched =
     (let runs = sort_key wr_created entry; primary = hd runs; conclusion = entry_conclusion runs;
          started = least_text (filter (\<lambda>t. t \<noteq> []) (map (\<lambda>r. first_of (wr_started r) (wr_created r)) runs));
          completed = (if list_all (\<lambda>r. wr_status r = ''completed'') runs then greatest_text (filter (\<lambda>t. t \<noteq> []) (map wr_updated runs)) else []);
          failed = conclusion \<notin> {[], ''success''};
          ejected = failed \<or> next_start \<noteq> None;
          comment = (if ejected \<and> failed then queue_comment tk comments primary next_start else None);
          said = (case comment of None \<Rightarrow> [] | Some c \<Rightarrow> clean_comment_body mark (ev_body c));
          fallback = ejected \<and> failed \<and> said = [];
          reason = (if fallback then ''merge_group entry (run '' @ show_int (wr_id primary) @ '') concluded '' @ first_of conclusion ''no conclusion'' else said)
      in \<lparr>at_repo = repo, at_number = number, at_run = wr_id primary, at_run_number = wr_number primary, at_run_attempt = wr_attempt primary,
          at_branch = wr_branch primary, at_sha = wr_sha primary, at_runs = map wr_id runs, at_conclusion = conclusion,
          at_started = started, at_completed = completed, at_duration = seconds_between tk started completed, at_url = wr_url primary,
          at_ejected = ejected, at_reason = reason, at_kind = (if ejected then ejection_kind conclusion reason else []),
          at_source = (if fallback then ''run'' else if comment \<noteq> None then ''comment'' else []),
          at_comment_url = (case comment of None \<Rightarrow> [] | Some c \<Rightarrow> ev_url c),
          at_comment_author = (case comment of None \<Rightarrow> [] | Some c \<Rightarrow> login_of (ev_user c)),
          at_comment_at = (case comment of None \<Rightarrow> [] | Some c \<Rightarrow> ev_created c), at_fetched = fetched\<rparr>)"

definition linked_ids :: "tl_event list \<Rightarrow> int list" where
  "linked_ids timeline = concat (map (\<lambda>e. map (\<lambda>m. int (digits_val (m_group (ev_body e) m 1))) (rx_finditer RUN_LINK_RE (ev_body e)))
     (filter (\<lambda>e. ev_kind e = ''commented'') timeline))"

definition takes_part :: "int \<Rightarrow> tl_event list \<Rightarrow> wf_run \<Rightarrow> bool" where
  "takes_part number timeline run \<longleftrightarrow> merge_queue_pr_number (wr_branch run) = Some number \<or> wr_id run \<in> set (linked_ids timeline)"

type_synonym entry_key = "string \<times> string \<times> int option"

definition entry_key :: "wf_run \<Rightarrow> entry_key" where
  "entry_key run = (wr_branch run, wr_sha run, if wr_branch run \<noteq> [] \<and> wr_sha run \<noteq> [] then None else Some (wr_id run))"

definition add_run :: "(entry_key \<times> wf_run list) list \<Rightarrow> wf_run \<Rightarrow> (entry_key \<times> wf_run list) list" where
  "add_run entries run = dict_append (entry_key run) run entries"

definition group_start :: "wf_run list \<Rightarrow> string" where
  "group_start entry = least_text (map wr_created entry)"

fun number_attempts :: "(wf_run list \<Rightarrow> string option \<Rightarrow> attempt) \<Rightarrow> wf_run list list \<Rightarrow> attempt list" where
  "number_attempts build [] = []"
| "number_attempts build [g] = [build g None]"
| "number_attempts build (g # h # gs) = build g (Some (group_start h)) # number_attempts build (h # gs)"

definition queue_entries :: "int \<Rightarrow> wf_run list \<Rightarrow> tl_event list \<Rightarrow> wf_run list list" where
  "queue_entries number merge_runs timeline =
     (let mine = sort_key wr_created (filter (takes_part number timeline) merge_runs)
      in sort_key group_start (map snd (foldl add_run [] mine)))"

definition build_attempts :: "timekeeper \<Rightarrow> string \<Rightarrow> string \<Rightarrow> int \<Rightarrow> wf_run list \<Rightarrow> tl_event list \<Rightarrow> string \<Rightarrow> attempt list" where
  "build_attempts tk mark repo number merge_runs timeline fetched =
     (let comments = filter (\<lambda>e. ev_kind e = ''commented'' \<and> ev_created e \<noteq> []) timeline
      in number_attempts (\<lambda>g next_start. build_attempt tk mark repo number g comments next_start fetched) (queue_entries number merge_runs timeline))"

section \<open>The record of a pull request\<close>

record pr_row =
  pr_repo :: string
  pr_number :: int
  pr_title :: string
  pr_author :: string
  pr_url :: string
  pr_state :: string
  pr_labels :: string
  pr_opened :: string
  pr_first_review :: string
  pr_first_approval :: string
  pr_queued :: string
  pr_merged :: string
  pr_closed :: string
  pr_last_attempt :: string
  pr_authoring :: "int option"
  pr_review :: "int option"
  pr_waiting :: "int option"
  pr_queue :: "int option"
  pr_merging :: "int option"
  pr_total :: "int option"
  pr_commits :: nat
  pr_reviews :: nat
  pr_requests :: nat
  pr_retests :: "int option"
  pr_stage :: string
  pr_fetched :: string

definition human_reviews :: "review list \<Rightarrow> review list" where
  "human_reviews reviews = sort_key rv_submitted (filter (\<lambda>r. rv_submitted r \<noteq> [] \<and> \<not> is_bot (rv_user r) \<and>
     rv_state r \<in> {''APPROVED'', ''CHANGES_REQUESTED'', ''COMMENTED'', ''DISMISSED''}) reviews)"

definition first_submitted :: "review list \<Rightarrow> string" where
  "first_submitted rs = (case rs of [] \<Rightarrow> [] | r # _ \<Rightarrow> rv_submitted r)"

definition pull_url :: "string \<Rightarrow> int \<Rightarrow> string" where
  "pull_url repo number = ''https://github.com/osac-project/'' @ repo @ ''/pull/'' @ show_int number"

definition build_pr_record ::
  "timekeeper \<Rightarrow> string \<Rightarrow> pull \<Rightarrow> tl_event list \<Rightarrow> review list \<Rightarrow> nat \<Rightarrow> int option \<Rightarrow> int \<Rightarrow> pr_row" where
  "build_pr_record tk repo pr timeline reviews commits retests now =
     (let state = (if pl_merged pr \<noteq> [] then ''merged'' else if pl_closed pr \<noteq> [] then ''closed'' else ''open'');
          human = human_reviews reviews;
          first_review = first_submitted human;
          first_approval = first_submitted (filter (\<lambda>r. rv_state r = ''APPROVED'') human);
          requesters = remdups (filter (\<lambda>l. l \<noteq> []) (map ev_reviewer (filter (\<lambda>e. ev_kind e = ''review_requested'') timeline)));
          labels = filter (\<lambda>l. l \<noteq> []) (map ev_label (filter (\<lambda>e. ev_kind e = ''labeled'') timeline) @ pl_labels pr)
      in \<lparr>pr_repo = repo, pr_number = pl_number pr, pr_title = pl_title pr, pr_author = login_of (pl_user pr),
          pr_url = first_of (pl_url pr) (pull_url repo (pl_number pr)), pr_state = state, pr_labels = join '','' (sort (remdups labels)),
          pr_opened = pl_created pr, pr_first_review = first_review, pr_first_approval = first_approval, pr_queued = [],
          pr_merged = pl_merged pr, pr_closed = pl_closed pr, pr_last_attempt = [],
          pr_authoring = seconds_between tk (pl_created pr) first_review, pr_review = seconds_between tk first_review first_approval,
          pr_waiting = None, pr_queue = None, pr_merging = None,
          pr_total = seconds_between tk (pl_created pr) (first_of (pl_merged pr) (first_of (pl_closed pr) (tk_show tk now))),
          pr_commits = commits, pr_reviews = length reviews, pr_requests = length requesters, pr_retests = retests,
          pr_stage = final_stage state first_review first_approval [], pr_fetched = tk_show tk now\<rparr>)"

text \<open>The timings of the queue, once the attempts are known.\<close>

definition with_attempts :: "timekeeper \<Rightarrow> attempt list \<Rightarrow> pr_row \<Rightarrow> pr_row" where
  "with_attempts tk attempts r = (case attempts of
       [] \<Rightarrow> r
     | a # _ \<Rightarrow> (let last_attempt = greatest_text (filter (\<lambda>t. t \<noteq> []) (map at_completed attempts)); queued = at_started a in
         r\<lparr>pr_last_attempt := last_attempt, pr_queued := queued, pr_waiting := seconds_between tk (pr_first_approval r) queued,
           pr_queue := seconds_between tk queued last_attempt, pr_merging := seconds_between tk last_attempt (pr_merged r),
           pr_stage := final_stage (pr_state r) (pr_first_review r) (pr_first_approval r) queued\<rparr>))"

section \<open>Every run is in one attempt\<close>

lemma mset_dict_append:
  "distinct (map fst d) \<Longrightarrow> mset (concat (map snd (dict_append k v d))) = add_mset v (mset (concat (map snd d)))"
  unfolding dict_append_def
proof (induction d)
  case (Cons e d)
  then show ?case by (cases e) (auto simp: map_of_eq_None_iff split: option.split)
qed simp

text \<open>The keys differ, and each group is not empty and has the runs of its key only.\<close>

definition groups_ok :: "(entry_key \<times> wf_run list) list \<Rightarrow> bool" where
  "groups_ok d \<longleftrightarrow> distinct (map fst d) \<and> (\<forall>e \<in> set d. snd e \<noteq> [] \<and> (\<forall>r \<in> set (snd e). entry_key r = fst e))"

lemma set_dict_set: "x \<in> set (dict_set k v d) \<Longrightarrow> x = (k, v) \<or> x \<in> set d"
  by (induction k v d rule: dict_set.induct) (auto split: if_splits)

lemma add_run_ok:
  assumes "groups_ok d"
  shows "groups_ok (add_run d r)"
proof -
  let ?g = "(case map_of d (entry_key r) of None \<Rightarrow> [] | Some rs \<Rightarrow> rs) @ [r]"
  have "entry_key r' = entry_key r" if "r' \<in> set ?g" for r'
  proof (cases "map_of d (entry_key r)")
    case (Some rs)
    from map_of_SomeD [OF this] assms have "\<forall>q \<in> set rs. entry_key q = entry_key r" unfolding groups_ok_def by fastforce
    with Some that show ?thesis by auto
  qed (use that in simp)
  moreover have "distinct (map fst (add_run d r))"
    using assms by (simp add: groups_ok_def add_run_def dict_append_def distinct_dict_set)
  moreover have "e = (entry_key r, ?g) \<or> e \<in> set d" if "e \<in> set (add_run d r)" for e
    using that unfolding add_run_def dict_append_def by (rule set_dict_set)
  ultimately show ?thesis using assms unfolding groups_ok_def by fastforce
qed

lemma grouped:
  "groups_ok (foldl add_run [] runs) \<and> mset (concat (map snd (foldl add_run [] runs))) = mset runs"
proof (induction runs rule: rev_induct)
  case (snoc r runs)
  let ?d = "foldl add_run [] runs"
  from snoc have ok: "groups_ok ?d" by simp
  have "groups_ok (add_run ?d r)" by (rule add_run_ok [OF ok])
  moreover have "distinct (map fst ?d)" using ok by (simp add: groups_ok_def)
  moreover have "mset (concat (map snd (add_run ?d r))) = add_mset r (mset (concat (map snd ?d)))"
    unfolding add_run_def [of ?d r] by (rule mset_dict_append) (rule calculation(2))
  ultimately show ?case using snoc by simp
qed (simp add: groups_ok_def)

lemma mset_concat_sort: "mset (concat (sort_key f gs)) = mset (concat gs)"
  by (simp add: mset_concat flip: sum_mset_sum_list)

definition own_entries :: "int \<Rightarrow> wf_run list \<Rightarrow> tl_event list \<Rightarrow> (entry_key \<times> wf_run list) list" where
  "own_entries number merge_runs timeline = foldl add_run [] (sort_key wr_created (filter (takes_part number timeline) merge_runs))"

lemma queue_entries_own: "queue_entries number merge_runs timeline = sort_key group_start (map snd (own_entries number merge_runs timeline))"
  by (simp add: queue_entries_def own_entries_def Let_def)

lemma entries_ok:
  "mset (concat (queue_entries number merge_runs timeline)) = mset (filter (takes_part number timeline) merge_runs)"
  "g \<in> set (queue_entries number merge_runs timeline) \<Longrightarrow> g \<noteq> [] \<and> (\<forall>r \<in> set g. \<forall>r' \<in> set g. entry_key r = entry_key r')"
  using grouped [of "sort_key wr_created (filter (takes_part number timeline) merge_runs)"]
  unfolding queue_entries_own own_entries_def [symmetric]
  by (auto simp: mset_concat_sort groups_ok_def)

text \<open>What an attempt takes from its group.\<close>

lemma attempt_fields:
  assumes "a = build_attempt tk mark repo number g comments next_start fetched"
  shows "at_repo a = repo" "at_number a = number" "mset (at_runs a) = mset (map wr_id g)" "g \<noteq> [] \<Longrightarrow> at_runs a \<noteq> [] \<and> at_run a = hd (at_runs a)"
    "at_ejected a \<longleftrightarrow> at_conclusion a \<notin> {[], ''success''} \<or> next_start \<noteq> None"
  unfolding assms build_attempt_def Let_def
  by (simp_all add: hd_map) (metis hd_map list.map_disc_iff mset_sort mset_zero_iff)

lemma number_attempts_nth:
  "i < length gs \<Longrightarrow> number_attempts build gs ! i = build (gs ! i) (if Suc i < length gs then Some (group_start (gs ! Suc i)) else None)"
  by (induction build gs arbitrary: i rule: number_attempts.induct) (auto simp: nth_Cons split: nat.split)

lemma number_attempts_length: "length (number_attempts build gs) = length gs"
  by (induction build gs rule: number_attempts.induct) simp_all

lemma number_attempts_runs:
  "(\<And>g n. mset (at_runs (build g n)) = mset (map wr_id g)) \<Longrightarrow>
   mset (concat (map at_runs (number_attempts build gs))) = mset (map wr_id (concat gs))"
  by (induction build gs rule: number_attempts.induct) simp_all

lemma number_attempts_mem: "a \<in> set (number_attempts build gs) \<Longrightarrow> \<exists>g \<in> set gs. \<exists>n. a = build g n"
  by (induction build gs rule: number_attempts.induct) auto

lemma number_attempts_last:
  assumes "\<And>g n. ejected (build g n) = (failed (build g n) \<or> n \<noteq> None)"
  shows "case rev (number_attempts build gs) of [] \<Rightarrow> True | a # earlier \<Rightarrow> list_all ejected earlier \<and> ejected a = failed a"
  using assms
proof (induction build gs rule: number_attempts.induct)
  case (3 build g h gs)
  from number_attempts_length [of build "h # gs"] obtain a earlier where e: "rev (number_attempts build (h # gs)) = a # earlier"
    by (cases "rev (number_attempts build (h # gs))") auto
  have "ejected (build g (Some (group_start h)))" by (simp add: "3.prems")
  with "3.IH" [OF "3.prems"] e show ?case by simp
qed simp_all

text \<open>Entries that have a branch and a commit do not share them.\<close>

definition key_of :: "wf_run list \<Rightarrow> entry_key" where
  "key_of g = entry_key (hd (sort_key wr_created g))"

lemma key_of_entry: "groups_ok d \<Longrightarrow> e \<in> set d \<Longrightarrow> key_of (snd e) = fst e"
proof -
  assume ok: "groups_ok d" "e \<in> set d"
  then have "sort_key wr_created (snd e) \<noteq> []" by (metis groups_ok_def mset_sort mset_zero_iff)
  then have "hd (sort_key wr_created (snd e)) \<in> set (sort_key wr_created (snd e))" by (rule hd_in_set)
  with ok show ?thesis by (auto simp: groups_ok_def key_of_def)
qed

lemma distinct_keys_of: "distinct (map key_of (queue_entries number merge_runs timeline))"
proof -
  let ?d = "own_entries number merge_runs timeline"
  have ok: "groups_ok ?d" unfolding own_entries_def using grouped by blast
  then have keys: "map key_of (map snd ?d) = map fst ?d" by (simp add: key_of_entry)
  from ok have "distinct (map fst ?d)" by (simp add: groups_ok_def)
  then have "distinct (map key_of (map snd ?d))" unfolding keys .
  moreover have "mset (map key_of (queue_entries number merge_runs timeline)) = mset (map key_of (map snd ?d))"
    by (simp add: queue_entries_own multiset.map_comp comp_def)
  ultimately show ?thesis using mset_eq_imp_distinct_iff by blast
qed

lemma number_attempts_map: "(\<And>g n. f (build g n) = h g) \<Longrightarrow> map f (number_attempts build gs) = map h gs"
  by (induction build gs rule: number_attempts.induct) simp_all

lemma distinct_filter_map:
  "distinct (map k xs) \<Longrightarrow> (\<And>x y. P (f x) \<Longrightarrow> f x = f y \<Longrightarrow> k x = k y) \<Longrightarrow> distinct (filter P (map f xs))"
proof (induction xs)
  case (Cons x xs)
  have "f x \<notin> f ` set xs" if "P (f x)"
  proof
    assume "f x \<in> f ` set xs"
    then obtain y where y: "y \<in> set xs" "f x = f y" by blast
    with Cons.prems(2) [OF that y(2)] Cons.prems(1) show False by auto
  qed
  moreover have "distinct (filter P (map f xs))"
    using Cons.prems(1) by (intro Cons.IH Cons.prems(2)) simp_all
  ultimately show ?case by auto
qed simp

text \<open>The runs of an attempt have its branch and its commit.\<close>

definition runs_at :: "string \<Rightarrow> string \<Rightarrow> wf_run list \<Rightarrow> wf_run list" where
  "runs_at branch sha runs = filter (\<lambda>r. wr_branch r = branch \<and> wr_sha r = sha) runs"

lemma attempt_runs_share:
  assumes g: "g \<in> set (queue_entries number merge_runs timeline)" and a: "a = build_attempt tk mark repo n g comments next_start fetched"
  shows "set (at_runs a) \<subseteq> wr_id ` set (runs_at (at_branch a) (at_sha a) merge_runs)"
proof
  fix i assume "i \<in> set (at_runs a)"
  then have "i \<in> wr_id ` set g" using attempt_fields(3) [OF a] by (metis list.set_map mset_eq_setD)
  then obtain r where r: "r \<in> set g" "i = wr_id r" by blast
  let ?p = "hd (sort_key wr_created g)"
  have "sort_key wr_created g \<noteq> []" using r(1) by (metis empty_iff list.set(1) set_sort)
  then have "?p \<in> set g" by (metis hd_in_set set_sort)
  with entries_ok(2) [OF g] r(1) have "entry_key r = entry_key ?p" by blast
  moreover have "at_branch a = wr_branch ?p" "at_sha a = wr_sha ?p" unfolding a build_attempt_def Let_def by simp_all
  ultimately have "wr_branch r = at_branch a" "wr_sha r = at_sha a" by (simp_all add: entry_key_def)
  moreover have "set (concat (queue_entries number merge_runs timeline)) \<subseteq> set merge_runs"
    using mset_eq_setD [OF entries_ok(1) [of number merge_runs timeline]] by (metis filter_is_subset)
  then have "r \<in> set merge_runs" using g r(1) by auto
  ultimately show "i \<in> wr_id ` set (runs_at (at_branch a) (at_sha a) merge_runs)" using r(2) by (simp add: runs_at_def)
qed

text \<open>Claim C37: the attempts of a pull request are its entries in the merge queue. Each run that takes part, by its branch or by a link in a
  comment, is in exactly one attempt and no other run is, an attempt has only runs of its branch and its commit; attempts with a branch and a commit do not share both; all attempts but the last are ejected, and the last one exactly when it failed.\<close>

theorem attempts_partition_runs:
  "let attempts = build_attempts tk mark repo number merge_runs timeline fetched in
     mset (concat (map at_runs attempts)) = mset (map wr_id (filter (takes_part number timeline) merge_runs)) \<and>
     list_all (\<lambda>a. at_repo a = repo \<and> at_number a = number \<and> at_runs a \<noteq> [] \<and> at_run a = hd (at_runs a) \<and>
       set (at_runs a) \<subseteq> wr_id ` set (runs_at (at_branch a) (at_sha a) merge_runs)) attempts \<and>
     distinct (filter (\<lambda>(branch, sha). branch \<noteq> [] \<and> sha \<noteq> []) (map (\<lambda>a. (at_branch a, at_sha a)) attempts)) \<and>
     (case rev attempts of [] \<Rightarrow> True
      | a # earlier \<Rightarrow> list_all at_ejected earlier \<and> at_ejected a = (at_conclusion a \<notin> {[], ''success''}))"
proof -
  define comments where "comments = filter (\<lambda>e. ev_kind e = ''commented'' \<and> ev_created e \<noteq> []) timeline"
  define build where "build = (\<lambda>g n. build_attempt tk mark repo number g comments n fetched)"
  let ?gs = "queue_entries number merge_runs timeline"
  have built: "build_attempts tk mark repo number merge_runs timeline fetched = number_attempts build ?gs"
    by (simp add: build_attempts_def build_def comments_def Let_def)
  have "mset (concat (map at_runs (number_attempts build ?gs))) = mset (map wr_id (concat ?gs))"
    by (rule number_attempts_runs) (simp add: build_def attempt_fields(3) [OF refl])
  then have "mset (concat (map at_runs (number_attempts build ?gs))) = mset (map wr_id (filter (takes_part number timeline) merge_runs))"
    by (simp add: entries_ok(1))
  moreover have "list_all (\<lambda>a. at_repo a = repo \<and> at_number a = number \<and> at_runs a \<noteq> [] \<and> at_run a = hd (at_runs a) \<and>
      set (at_runs a) \<subseteq> wr_id ` set (runs_at (at_branch a) (at_sha a) merge_runs)) (number_attempts build ?gs)"
    unfolding list_all_iff
  proof
    fix a assume "a \<in> set (number_attempts build ?gs)"
    then obtain g n where g: "g \<in> set ?gs" "a = build g n" by (blast dest: number_attempts_mem)
    with entries_ok(2) [OF g(1)] attempt_fields [OF g(2) [unfolded build_def]] attempt_runs_share [OF g(1) g(2) [unfolded build_def]]
    show "at_repo a = repo \<and> at_number a = number \<and> at_runs a \<noteq> [] \<and> at_run a = hd (at_runs a) \<and>
      set (at_runs a) \<subseteq> wr_id ` set (runs_at (at_branch a) (at_sha a) merge_runs)" by blast
  qed
  moreover have "distinct (filter (\<lambda>(branch, sha). branch \<noteq> [] \<and> sha \<noteq> []) (map (\<lambda>a. (at_branch a, at_sha a)) (number_attempts build ?gs)))"
  proof -
    let ?f = "\<lambda>g. let r = hd (sort_key wr_created g) in (wr_branch r, wr_sha r)"
    have fields: "map (\<lambda>a. (at_branch a, at_sha a)) (number_attempts build ?gs) = map ?f ?gs"
      by (rule number_attempts_map) (simp add: build_def build_attempt_def Let_def)
    show ?thesis unfolding fields
      by (rule distinct_filter_map [OF distinct_keys_of]) (auto simp: key_of_def entry_key_def Let_def)
  qed
  moreover have "case rev (number_attempts build ?gs) of [] \<Rightarrow> True
      | a # earlier \<Rightarrow> list_all at_ejected earlier \<and> at_ejected a = (at_conclusion a \<notin> {[], ''success''})"
    by (rule number_attempts_last) (simp add: build_def attempt_fields(5) [OF refl])
  ultimately show ?thesis unfolding built Let_def by blast
qed

text \<open>The conclusion of a run alone does not make a time-out: a run that timed out and has no comment that says so counts as a failed check.\<close>

lemma timed_out_run_is_check_failed:
  "ejection_kind ''timed_out'' (''merge_group entry (run '' @ show_int 7 @ '') concluded timed_out'') = ''check_failed''"
  by code_simp

text \<open>No attempt is labelled as removed from the queue.\<close>

lemma failed_is_never_removed:
  "conclusion \<notin> {[], ''success''} \<Longrightarrow> ejection_kind conclusion reason \<noteq> ''removed''"
  by (simp add: ejection_kind_def Let_def)

lemma attempt_never_removed: "at_kind (build_attempt tk mark repo number entry comments next_start fetched) \<noteq> ''removed''"
proof -
  have "ejection_kind c [] \<noteq> ''removed''" for c
    by (simp add: ejection_kind_def Let_def contains_sublist)
  then show ?thesis unfolding build_attempt_def Let_def using failed_is_never_removed by simp
qed

end
