(* ===== verification/PrBackfill.thy ===== *)
theory PrBackfill
  imports PrQueue
begin

text \<open>
  The backfill of \<^verbatim>\<open>monitoring/scripts/ci_observe_prs.py\<close>: one pass over GitHub, the store \<^verbatim>\<open>prs.db\<close> that it fills, and the freshness that the page
  shows.

  GitHub answers over a world of any type; an answer that is not read as JSON of the expected shape ends the pass with \<open>Crash\<close>. A table is the list of its rows in the
  order of insertion. Pages are followed with fuel, one unit per page of a listing; running out of it is the exception \<open>Out_of_fuel\<close>, which nothing
  catches. Listings log what they read, and the pruning logs the rows it drops. The clock is read once per pull request.
\<close>

section \<open>State\<close>

datatype ph_exn = Crash | Out_of_fuel

datatype stop =
    Repos_unread
  | Pulls_unread string
  | Rate_limit string nat int
  | Limit_reached int
  | Subset "string list"

record backfill_row =
  bk_id :: nat
  bk_ran_at :: string
  bk_mode :: string
  bk_from :: string
  bk_to :: string
  bk_stored :: nat
  bk_skipped :: nat
  bk_failed :: nat
  bk_calls :: nat
  bk_rate :: "int option"
  bk_stopped :: "stop option"
  bk_complete :: bool
  bk_ok :: bool

record prs_db =
  db_rows :: "pr_row list"
  db_attempts :: "attempt list"
  db_runs :: "backfill_row list"
  db_next :: nat                    \<comment> \<open>the next number of \<open>AUTOINCREMENT\<close>\<close>

datatype 'a answer = Unanswered | Error_status "int option" | Garbled "int option" | Answered "int option" 'a "string option"

datatype ph_event =
    Repos_listed "string list"
  | Listed string "pull list"
  | Pruned "pr_row list"
  | Window_read int int nat "wf_run list"

record 'w ph_state =
  ph_world :: 'w
  ph_db :: prs_db
  ph_calls :: nat
  ph_rate :: "int option"
  ph_log :: "ph_event list"

text \<open>The answers of GitHub by endpoint; \<open>ga_runs\<close> has the total count with the runs of a page.\<close>

record 'w gh_api =
  ga_repos :: "'w \<Rightarrow> string \<Rightarrow> (string \<times> bool) list answer \<times> 'w"
  ga_pulls :: "'w \<Rightarrow> string \<Rightarrow> pull list answer \<times> 'w"
  ga_timeline :: "'w \<Rightarrow> string \<Rightarrow> tl_event list answer \<times> 'w"
  ga_reviews :: "'w \<Rightarrow> string \<Rightarrow> review list answer \<times> 'w"
  ga_commits :: "'w \<Rightarrow> string \<Rightarrow> unit list answer \<times> 'w"
  ga_runs :: "'w \<Rightarrow> string \<Rightarrow> (nat \<times> wf_run list) answer \<times> 'w"
  ga_clock :: "'w \<Rightarrow> int \<times> 'w"
  ga_retests :: "'w \<Rightarrow> string \<Rightarrow> int \<Rightarrow> nat option"    \<comment> \<open>the count of job rows, \<open>None\<close> without the exporter's file\<close>

type_synonym ('w, 'a) ph = "('w ph_state, ph_exn, 'a) prog"

record bf_args =
  bf_fuel :: nat
  bf_tk :: timekeeper
  bf_mark :: string
  bf_filter :: "string list"        \<comment> \<open>\<open>--repo\<close>, empty for the organisation\<close>
  bf_days :: nat
  bf_force :: bool
  bf_limit :: "int option"
  bf_now :: int
  bf_mode :: string

section \<open>Requests\<close>

definition ask_github :: "('w \<Rightarrow> 'a \<times> 'w) \<Rightarrow> ('w, 'a) ph" where
  "ask_github f st = (case f (ph_world st) of (r, w) \<Rightarrow> (Inr r, st\<lparr>ph_world := w\<rparr>))"

definition note_rate :: "int option \<Rightarrow> ('w, unit) ph" where
  "note_rate remaining = (case remaining of None \<Rightarrow> ret () | Some n \<Rightarrow> modP (\<lambda>st. st\<lparr>ph_rate := Some n\<rparr>))"

definition get_counted :: "('w \<Rightarrow> string \<Rightarrow> 'a answer \<times> 'w) \<Rightarrow> string \<Rightarrow> ('w, 'a answer) ph" where
  "get_counted f url = thenP (modP (\<lambda>st. st\<lparr>ph_calls := ph_calls st + 1\<rparr>)) (bindP (ask_github (\<lambda>w. f w url)) (\<lambda>a.
     thenP (case a of Unanswered \<Rightarrow> ret () | Error_status n \<Rightarrow> note_rate n | Garbled n \<Rightarrow> note_rate n | Answered n x url \<Rightarrow> note_rate n) (ret a)))"

definition get_page :: "('w \<Rightarrow> string \<Rightarrow> 'a answer \<times> 'w) \<Rightarrow> string \<Rightarrow> ('w, ('a \<times> string option) option) ph" where
  "get_page f url = bindP (get_counted f url) (\<lambda>a. case a of
       Garbled n \<Rightarrow> raise Crash
     | Answered n x link \<Rightarrow> ret (Some (x, link))
     | _ \<Rightarrow> ret None)"

text \<open>\<open>while url\<close>; the texts of links are not empty.\<close>

fun get_all :: "nat \<Rightarrow> ('w \<Rightarrow> string \<Rightarrow> 'a list answer \<times> 'w) \<Rightarrow> string option \<Rightarrow> ('w, 'a list option) ph" where
  "get_all fuel f None = ret (Some [])"
| "get_all 0 f (Some url) = raise Out_of_fuel"
| "get_all (Suc fuel) f (Some url) = bindP (get_page f url) (\<lambda>p. case p of
       None \<Rightarrow> ret None
     | Some (page, link) \<Rightarrow> bindP (get_all fuel f link) (\<lambda>rest. ret (map_option (\<lambda>items. page @ items) rest)))"

definition ph_logged :: "ph_event \<Rightarrow> ('w, unit) ph" where
  "ph_logged e = modP (\<lambda>st. st\<lparr>ph_log := ph_log st @ [e]\<rparr>)"

definition API :: string where "API = ''https://api.github.com''"

definition repo_url :: "string \<Rightarrow> string \<Rightarrow> string" where
  "repo_url repo path = API @ ''/repos/osac-project/'' @ repo @ path"

definition list_repos :: "bf_args \<Rightarrow> 'w gh_api \<Rightarrow> ('w, string list option) ph" where
  "list_repos args api = (if bf_filter args \<noteq> [] then ret (Some (bf_filter args))
     else bindP (get_all (bf_fuel args) (ga_repos api) (Some (API @ ''/orgs/osac-project/repos?per_page=100&type=all''))) (\<lambda>repos.
       case repos of None \<Rightarrow> ret None
       | Some rs \<Rightarrow> (let names = map fst (filter (\<lambda>(name, archived). \<not> archived) rs) in thenP (ph_logged (Repos_listed names)) (ret (Some names)))))"

section \<open>Closed pull requests\<close>

definition ended_of :: "pull \<Rightarrow> string" where
  "ended_of pr = first_of (pl_merged pr) (pl_closed pr)"

definition in_retention :: "timekeeper \<Rightarrow> int \<Rightarrow> pull \<Rightarrow> bool" where
  "in_retention tk cutoff pr \<longleftrightarrow> ended_of pr \<noteq> [] \<and> (case parse_iso tk (ended_of pr) of None \<Rightarrow> False | Some t \<Rightarrow> cutoff \<le> t)"

definition older_page :: "timekeeper \<Rightarrow> int \<Rightarrow> pull list \<Rightarrow> bool" where
  "older_page tk since page \<longleftrightarrow> page \<noteq> [] \<and>
     list_all (\<lambda>pr. (case parse_iso tk (pl_updated pr) of None \<Rightarrow> since | Some t \<Rightarrow> t) < since) page"

fun closed_pages :: "nat \<Rightarrow> timekeeper \<Rightarrow> 'w gh_api \<Rightarrow> int \<Rightarrow> int \<Rightarrow> string option \<Rightarrow> ('w, pull list option) ph" where
  "closed_pages fuel tk api cutoff since None = ret (Some [])"
| "closed_pages 0 tk api cutoff since (Some url) = raise Out_of_fuel"
| "closed_pages (Suc fuel) tk api cutoff since (Some url) = bindP (get_page (ga_pulls api) url) (\<lambda>p. case p of
       None \<Rightarrow> ret None
     | Some (page, link) \<Rightarrow> (let prs = filter (in_retention tk cutoff) page in
         if older_page tk since page then ret (Some prs)
         else bindP (closed_pages fuel tk api cutoff since link) (\<lambda>rest. ret (map_option (\<lambda>r. prs @ r) rest))))"

definition fetch_closed_prs :: "bf_args \<Rightarrow> 'w gh_api \<Rightarrow> string \<Rightarrow> int \<Rightarrow> int \<Rightarrow> ('w, pull list option) ph" where
  "fetch_closed_prs args api repo cutoff since =
     bindP (closed_pages (bf_fuel args) (bf_tk args) api cutoff since
        (Some (repo_url repo (''/pulls?state=closed&sort=updated&direction=desc&per_page=100&since='' @ tk_show (bf_tk args) since)))) (\<lambda>r.
       case r of None \<Rightarrow> ret None
       | Some prs \<Rightarrow> thenP (ph_logged (Listed repo prs)) (ret (Some prs)))"

section \<open>Runs of the merge queue\<close>

definition MERGE_GROUP_SAFE_RESULT_LIMIT :: nat where "MERGE_GROUP_SAFE_RESULT_LIMIT = 900"
definition HOUR :: int where "HOUR = 3600 * 1000000"

text \<open>Half of a time span, rounded to the even microsecond.\<close>

definition half_span :: "int \<Rightarrow> int" where
  "half_span d = (if even d \<or> even (d div 2) then d div 2 else d div 2 + 1)"

definition unique_runs :: "wf_run list \<Rightarrow> wf_run list" where
  "unique_runs runs = map snd (foldl (\<lambda>d run. if wr_id run \<in> set (map fst d) then d else d @ [(wr_id run, run)]) [] runs)"

definition runs_url :: "timekeeper \<Rightarrow> string \<Rightarrow> int \<Rightarrow> int \<Rightarrow> string" where
  "runs_url tk repo since until = repo_url repo (''/actions/runs?event=merge_group&created='' @ tk_show tk since @ ''..'' @ tk_show tk until @ ''&per_page=100'')"

fun more_runs :: "nat \<Rightarrow> 'w gh_api \<Rightarrow> string option \<Rightarrow> ('w, wf_run list option) ph" where
  "more_runs fuel api None = ret (Some [])"
| "more_runs 0 api (Some url) = raise Out_of_fuel"
| "more_runs (Suc fuel) api (Some url) = bindP (get_page (ga_runs api) url) (\<lambda>p. case p of
       None \<Rightarrow> ret None
     | Some ((found, runs), link) \<Rightarrow> bindP (more_runs fuel api link) (\<lambda>rest. ret (map_option (\<lambda>r. runs @ r) rest)))"

lemma half_span_between: "HOUR < d \<Longrightarrow> 0 < half_span d \<and> half_span d < d"
  by (simp add: half_span_def HOUR_def) linarith

function merge_group_range :: "bf_args \<Rightarrow> 'w gh_api \<Rightarrow> string \<Rightarrow> int \<Rightarrow> int \<Rightarrow> ('w, wf_run list option) ph" where
  "merge_group_range args api repo since until =
     bindP (get_page (ga_runs api) (runs_url (bf_tk args) repo since until)) (\<lambda>p. case p of
       None \<Rightarrow> ret None
     | Some ((found, runs), link) \<Rightarrow>
         if MERGE_GROUP_SAFE_RESULT_LIMIT < found \<and> HOUR < until - since
         then (let mid = since + half_span (until - since) in
           bindP (merge_group_range args api repo since mid) (\<lambda>left. bindP (merge_group_range args api repo mid until) (\<lambda>right.
             ret (case (left, right) of (Some l, Some r) \<Rightarrow> Some (unique_runs (l @ r)) | _ \<Rightarrow> None))))
         else bindP (more_runs (bf_fuel args) api link) (\<lambda>rest. case rest of
             None \<Rightarrow> ret None
           | Some r \<Rightarrow> thenP (ph_logged (Window_read since until found (runs @ r)))
               (ret (Some (filter (\<lambda>run. wr_event run = ''merge_group'') (runs @ r))))))"
  by pat_completeness auto

termination
  by (relation "measure (\<lambda>(args, api, repo, since, until). nat (until - since))") (auto dest: half_span_between)

declare merge_group_range.simps [simp del]

definition merge_group_from :: "timekeeper \<Rightarrow> pull list \<Rightarrow> int \<Rightarrow> int" where
  "merge_group_from tk pending cutoff = (case List.map_filter (\<lambda>pr. parse_iso tk (pl_created pr)) pending of
       [] \<Rightarrow> cutoff
     | t # ts \<Rightarrow> max cutoff (foldl min t ts))"

section \<open>The store\<close>

definition is_stored :: "prs_db \<Rightarrow> string \<Rightarrow> int \<Rightarrow> bool" where
  "is_stored db repo number \<longleftrightarrow> list_ex (\<lambda>r. pr_repo r = repo \<and> pr_number r = number) (db_rows db)"

definition put_attempt :: "attempt list \<Rightarrow> attempt \<Rightarrow> attempt list" where
  "put_attempt rows a = filter (\<lambda>b. \<not> (at_repo b = at_repo a \<and> at_number b = at_number a \<and> at_run b = at_run a)) rows @ [a]"

definition write_pr :: "timekeeper \<Rightarrow> pr_row \<Rightarrow> attempt list \<Rightarrow> prs_db \<Rightarrow> prs_db" where
  "write_pr tk r attempts db = (let r = with_attempts tk attempts r in
     db\<lparr>db_rows := filter (\<lambda>q. \<not> (pr_repo q = pr_repo r \<and> pr_number q = pr_number r)) (db_rows db) @ [r],
        db_attempts := foldl put_attempt (filter (\<lambda>a. \<not> (at_repo a = pr_repo r \<and> at_number a = pr_number r)) (db_attempts db)) attempts\<rparr>)"

definition row_end :: "pr_row \<Rightarrow> string" where
  "row_end r = first_of (pr_merged r) (first_of (pr_closed r) (pr_opened r))"

definition stale_row :: "string \<Rightarrow> string \<Rightarrow> pr_row \<Rightarrow> bool" where
  "stale_row repo cutoff r \<longleftrightarrow> pr_repo r = repo \<and> row_end r \<noteq> [] \<and> row_end r < cutoff"

definition prune_prs :: "string \<Rightarrow> string \<Rightarrow> prs_db \<Rightarrow> prs_db" where
  "prune_prs repo cutoff db = (let stale = map pr_number (filter (stale_row repo cutoff) (db_rows db)) in
     db\<lparr>db_attempts := filter (\<lambda>a. \<not> (at_repo a = repo \<and> at_number a \<in> set stale)) (db_attempts db),
        db_rows := filter (\<lambda>r. \<not> stale_row repo cutoff r) (db_rows db)\<rparr>)"

definition BACKFILL_RUNS_KEEP :: nat where "BACKFILL_RUNS_KEEP = 2000"

definition latest_first :: "backfill_row list \<Rightarrow> backfill_row list" where
  "latest_first rows = rev (sort_key (\<lambda>b. (bk_ran_at b, bk_id b)) rows)"

definition prune_runs :: "string \<Rightarrow> prs_db \<Rightarrow> prs_db" where
  "prune_runs cutoff db = (let rows = filter (\<lambda>b. \<not> bk_ran_at b < cutoff) (db_runs db); kept = map bk_id (take BACKFILL_RUNS_KEEP (latest_first rows)) in
     db\<lparr>db_runs := filter (\<lambda>b. bk_id b \<in> set kept) rows\<rparr>)"

definition coverage_until :: "prs_db \<Rightarrow> string option" where
  "coverage_until db = (case latest_first (filter bk_complete (db_runs db)) of [] \<Rightarrow> None | b # _ \<Rightarrow> Some (bk_to b))"

definition last_run :: "prs_db \<Rightarrow> backfill_row option" where
  "last_run db = (case latest_first (db_runs db) of [] \<Rightarrow> None | b # _ \<Rightarrow> Some b)"

definition full_pass_due :: "timekeeper \<Rightarrow> int \<Rightarrow> prs_db \<Rightarrow> bool" where
  "full_pass_due tk now db \<longleftrightarrow> \<not> list_ex (\<lambda>b. bk_mode b = ''full'' \<and> bk_complete b \<and> tk_show tk (now - DAY) \<le> bk_ran_at b) (db_runs db)"

definition OVERLAP :: int where "OVERLAP = 2 * HOUR"

definition plan :: "timekeeper \<Rightarrow> nat \<Rightarrow> int \<Rightarrow> string \<Rightarrow> prs_db \<Rightarrow> string \<times> int" where
  "plan tk days now mode db = (let full_since = now - int days * DAY in
     if mode = ''full'' \<or> (mode = ''auto'' \<and> full_pass_due tk now db) then (''full'', full_since)
     else (case Option.bind (coverage_until db) (parse_iso tk) of
         None \<Rightarrow> (''full'', full_since)
       | Some coverage \<Rightarrow> (''incremental'', max (coverage - OVERLAP) full_since)))"

section \<open>One pull request\<close>

definition backfill_one :: "bf_args \<Rightarrow> 'w gh_api \<Rightarrow> string \<Rightarrow> pull \<Rightarrow> wf_run list option \<Rightarrow> ('w, nat option) ph" where
  "backfill_one args api repo pr merge_runs = (case merge_runs of
       None \<Rightarrow> ret None
     | Some runs \<Rightarrow> (let number = show_int (pl_number pr) in
         bindP (get_all (bf_fuel args) (ga_timeline api) (Some (repo_url repo (''/issues/'' @ number @ ''/timeline?per_page=100'')))) (\<lambda>timeline.
         bindP (get_all (bf_fuel args) (ga_reviews api) (Some (repo_url repo (''/pulls/'' @ number @ ''/reviews?per_page=100'')))) (\<lambda>reviews.
         bindP (get_all (bf_fuel args) (ga_commits api) (Some (repo_url repo (''/pulls/'' @ number @ ''/commits?per_page=100'')))) (\<lambda>commits.
         case (timeline, reviews, commits) of
           (Some events, Some rs, Some cs) \<Rightarrow>
             bindP (ask_github (ga_clock api)) (\<lambda>now. bindP (getP (\<lambda>st. ga_retests api (ph_world st) repo (pl_number pr))) (\<lambda>jobs.
             (let retests = map_option (\<lambda>n. max 0 (int n - 1)) jobs;
                  record = build_pr_record (bf_tk args) repo pr events rs (length cs) retests now;
                  attempts = build_attempts (bf_tk args) (bf_mark args) repo (pl_number pr) runs events (tk_show (bf_tk args) now)
              in thenP (modP (\<lambda>st. st\<lparr>ph_db := write_pr (bf_tk args) record attempts (ph_db st)\<rparr>)) (ret (Some (length attempts))))))
         | _ \<Rightarrow> ret None)))))"

section \<open>One pass\<close>

record bf_summary =
  sm_stored :: nat
  sm_skipped :: nat
  sm_failed :: nat
  sm_attempts :: nat
  sm_stopped :: "stop option"
  sm_complete :: bool

definition no_summary :: bf_summary where
  "no_summary = \<lparr>sm_stored = 0, sm_skipped = 0, sm_failed = 0, sm_attempts = 0, sm_stopped = None, sm_complete = True\<rparr>"

definition MIN_RATE_LIMIT_REMAINING :: int where "MIN_RATE_LIMIT_REMAINING = 200"

text \<open>The loop over the pending pull requests of a repository; \<open>before\<close> counts those that earlier repositories stored.\<close>

fun store_pending ::
  "bf_args \<Rightarrow> 'w gh_api \<Rightarrow> string \<Rightarrow> wf_run list option \<Rightarrow> nat \<Rightarrow> pull list \<Rightarrow> bf_summary \<Rightarrow> ('w, bool \<times> bf_summary) ph" where
  "store_pending args api repo merge_runs before [] s = ret (False, s)"
| "store_pending args api repo merge_runs before (pr # prs) s =
     bindP (backfill_one args api repo pr merge_runs) (\<lambda>r. bindP (getP ph_rate) (\<lambda>rate.
       (let s = (case r of None \<Rightarrow> s\<lparr>sm_failed := sm_failed s + 1\<rparr>
              | Some n \<Rightarrow> s\<lparr>sm_stored := sm_stored s + 1, sm_attempts := sm_attempts s + n\<rparr>);
            low = (case rate of None \<Rightarrow> False | Some n \<Rightarrow> n < MIN_RATE_LIMIT_REMAINING);
            full = (case bf_limit args of None \<Rightarrow> False | Some limit \<Rightarrow> limit \<le> int (sm_stored s));
            s = (if low then s\<lparr>sm_stopped := Some (Rate_limit repo (sm_stored s - before) (the rate))\<rparr> else s);
            s = (if full then s\<lparr>sm_stopped := Some (Limit_reached (the (bf_limit args)))\<rparr> else s)
        in if low \<or> full then ret (True, s) else store_pending args api repo merge_runs before prs s)))"

definition prune_repo :: "string \<Rightarrow> string \<Rightarrow> ('w, unit) ph" where
  "prune_repo repo cutoff = bindP (getP ph_db) (\<lambda>db. thenP (ph_logged (Pruned (filter (stale_row repo cutoff) (db_rows db))))
     (modP (\<lambda>st. st\<lparr>ph_db := prune_prs repo cutoff (ph_db st)\<rparr>)))"

definition backfill_repo :: "bf_args \<Rightarrow> 'w gh_api \<Rightarrow> string \<Rightarrow> int \<Rightarrow> int \<Rightarrow> string \<Rightarrow> bf_summary \<Rightarrow> ('w, bool \<times> bf_summary) ph" where
  "backfill_repo args api mode cutoff since repo s =
     bindP (fetch_closed_prs args api repo cutoff since) (\<lambda>prs. case prs of
       None \<Rightarrow> ret (False, s\<lparr>sm_complete := False, sm_stopped := (case sm_stopped s of None \<Rightarrow> Some (Pulls_unread repo) | Some x \<Rightarrow> Some x)\<rparr>)
     | Some prs \<Rightarrow> bindP (getP ph_db) (\<lambda>db.
         (let pending = filter (\<lambda>pr. bf_force args \<or> \<not> is_stored db repo (pl_number pr)) prs in
          bindP (if pending = [] then ret (Some [])
              else merge_group_range args api repo (merge_group_from (bf_tk args) pending cutoff) (bf_now args)) (\<lambda>runs.
          bindP (store_pending args api repo runs (sm_stored s) pending (s\<lparr>sm_skipped := sm_skipped s + (length prs - length pending)\<rparr>)) (\<lambda>(stopped, s).
          thenP (if mode = ''full'' then prune_repo repo (tk_show (bf_tk args) cutoff) else ret ())
            (ret (stopped, if stopped then s\<lparr>sm_complete := False\<rparr> else s)))))))"

fun backfill_repos :: "bf_args \<Rightarrow> 'w gh_api \<Rightarrow> string \<Rightarrow> int \<Rightarrow> int \<Rightarrow> string list \<Rightarrow> bf_summary \<Rightarrow> ('w, bf_summary) ph" where
  "backfill_repos args api mode cutoff since [] s = ret s"
| "backfill_repos args api mode cutoff since (repo # repos) s =
     bindP (backfill_repo args api mode cutoff since repo s) (\<lambda>(stopped, s).
       if stopped then ret s else backfill_repos args api mode cutoff since repos s)"

definition record_run :: "bf_args \<Rightarrow> string \<Rightarrow> int \<Rightarrow> bf_summary \<Rightarrow> ('w, backfill_row) ph" where
  "record_run args mode since s = bindP (getP (\<lambda>st. st)) (\<lambda>st.
     (let tk = bf_tk args; b = \<lparr>bk_id = db_next (ph_db st), bk_ran_at = tk_show tk (bf_now args), bk_mode = mode, bk_from = tk_show tk since, bk_to = tk_show tk (bf_now args),
        bk_stored = sm_stored s, bk_skipped = sm_skipped s, bk_failed = sm_failed s, bk_calls = ph_calls st, bk_rate = ph_rate st,
        bk_stopped = sm_stopped s, bk_complete = sm_complete s, bk_ok = (sm_complete s \<and> sm_stopped s = None \<and> sm_failed s = 0)\<rparr>
      in thenP (modP (\<lambda>st. st\<lparr>ph_db := (ph_db st)\<lparr>db_runs := db_runs (ph_db st) @ [b], db_next := db_next (ph_db st) + 1\<rparr>\<rparr>)) (ret b)))"

text \<open>The pass returns the row that it records.\<close>

definition backfill :: "bf_args \<Rightarrow> 'w gh_api \<Rightarrow> ('w, backfill_row) ph" where
  "backfill args api =
     (if bf_mode args \<notin> {''auto'', ''full'', ''incremental''} then raise Crash
      else thenP (modP (\<lambda>st. st\<lparr>ph_calls := 0, ph_rate := None\<rparr>)) (bindP (getP ph_db) (\<lambda>db.
        (let cutoff = bf_now args - int (bf_days args) * DAY;
             (mode, since) = plan (bf_tk args) (bf_days args) (bf_now args) (if bf_force args \<and> bf_mode args = ''auto'' then ''full'' else bf_mode args) db in
         bindP (list_repos args api) (\<lambda>repos.
         bindP (backfill_repos args api mode cutoff since (case repos of None \<Rightarrow> [] | Some rs \<Rightarrow> rs)
             (if repos = None then no_summary\<lparr>sm_complete := False, sm_stopped := Some Repos_unread\<rparr> else no_summary)) (\<lambda>s.
         (let s = (if bf_filter args = [] then s
               else s\<lparr>sm_complete := False, sm_stopped := (case sm_stopped s of None \<Rightarrow> Some (Subset (bf_filter args)) | Some x \<Rightarrow> Some x)\<rparr>) in
          bindP (record_run args mode since s) (\<lambda>b.
          thenP (modP (\<lambda>st. st\<lparr>ph_db := prune_runs (tk_show (bf_tk args) cutoff) (ph_db st)\<rparr>)) (ret b)))))))))"

section \<open>Freshness\<close>

definition FRESHNESS_STALE_AFTER_SECONDS :: int where "FRESHNESS_STALE_AFTER_SECONDS = 2 * 3600"

datatype fresh_state = Never | Stale | Fresh

record freshness =
  fr_state :: fresh_state
  fr_age :: "int option"
  fr_fetched :: string
  fr_coverage :: "string option"
  fr_coverage_age :: "int option"
  fr_stored :: nat
  fr_failed :: nat
  fr_stopped :: "stop option"
  fr_ok :: bool

definition freshness :: "timekeeper \<Rightarrow> int \<Rightarrow> prs_db \<Rightarrow> freshness" where
  "freshness tk now db = (case last_run db of
       None \<Rightarrow> \<lparr>fr_state = Never, fr_age = None, fr_fetched = [], fr_coverage = None, fr_coverage_age = None, fr_stored = 0, fr_failed = 0,
         fr_stopped = None, fr_ok = False\<rparr>
     | Some b \<Rightarrow> (let coverage = coverage_until db; age = seconds_between tk (bk_ran_at b) (tk_show tk now);
           coverage_age = (case coverage of None \<Rightarrow> None | Some c \<Rightarrow> seconds_between tk c (tk_show tk now));
           stale = (case coverage_age of None \<Rightarrow> True | Some n \<Rightarrow> FRESHNESS_STALE_AFTER_SECONDS < n \<or>
              (case age of None \<Rightarrow> False | Some a \<Rightarrow> FRESHNESS_STALE_AFTER_SECONDS < a))
         in \<lparr>fr_state = (if stale then Stale else Fresh), fr_age = age, fr_fetched = bk_ran_at b, fr_coverage = coverage, fr_coverage_age = coverage_age,
             fr_stored = bk_stored b, fr_failed = bk_failed b, fr_stopped = bk_stopped b, fr_ok = bk_ok b\<rparr>))"

section \<open>What the steps change\<close>

text \<open>A condition on the store and the log.\<close>

definition on_store :: "(prs_db \<Rightarrow> ph_event list \<Rightarrow> bool) \<Rightarrow> 'w ph_state \<Rightarrow> bool" where
  "on_store J st \<longleftrightarrow> J (ph_db st) (ph_log st)"

named_theorems ph_rules \<open>what keeps a condition on the store and the log\<close>

lemma ask_keeps [ph_rules]: "keeps (on_store J) (ask_github f)"
  by (simp add: keeps_def on_store_def ask_github_def split: prod.split)

lemma note_rate_keeps [ph_rules]: "keeps (on_store J) (note_rate n)"
  by (cases n) (simp_all add: note_rate_def keeps_def on_store_def)

lemma get_counted_keeps [ph_rules]: "keeps (on_store J) (get_counted f url)"
proof -
  have "keeps (on_store J) (modP (\<lambda>st. st\<lparr>ph_calls := ph_calls st + 1\<rparr>))" by (simp add: keeps_def on_store_def)
  then show ?thesis unfolding get_counted_def
    by (intro keeps_then keeps_bind ph_rules keeps_ret) (auto intro!: keeps_ret ph_rules split: answer.split)
qed

lemma get_page_keeps [ph_rules]: "keeps (on_store J) (get_page f url)"
  unfolding get_page_def by (intro keeps_bind ph_rules) (auto intro!: keeps_ret keeps_raise split: answer.split)

lemma get_all_keeps [ph_rules]: "keeps (on_store J) (get_all fuel f url)"
proof (induction fuel f url rule: get_all.induct)
  case (3 fuel f url)
  then show ?case unfolding get_all.simps
    by (intro keeps_bind ph_rules) (auto intro!: keeps_bind keeps_ret split: option.split)
qed (simp_all only: get_all.simps keeps_ret keeps_raise)

lemma closed_pages_keeps [ph_rules]: "keeps (on_store J) (closed_pages fuel tk api cutoff since url)"
proof (induction fuel tk api cutoff since url rule: closed_pages.induct)
  case (3 fuel tk api cutoff since url)
  then show ?case unfolding closed_pages.simps Let_def
    by (intro keeps_bind ph_rules) (auto intro!: keeps_bind keeps_if keeps_ret split: option.split)
qed (simp_all only: closed_pages.simps keeps_ret keeps_raise)

lemma more_runs_keeps [ph_rules]: "keeps (on_store J) (more_runs fuel api url)"
proof (induction fuel api url rule: more_runs.induct)
  case (3 fuel api url)
  then show ?case unfolding more_runs.simps
    by (intro keeps_bind ph_rules) (auto intro!: keeps_bind keeps_ret split: option.split)
qed (simp_all only: more_runs.simps keeps_ret keeps_raise)

lemma logged_keeps: "(\<And>db l. J db l \<Longrightarrow> J db (l @ [e])) \<Longrightarrow> keeps (on_store J) (ph_logged e)"
  by (simp add: keeps_def on_store_def ph_logged_def)

text \<open>The fetch of runs logs windows only, the other listings what they list.\<close>

lemma merge_group_range_keeps:
  assumes "\<And>db l a b n rs. J db l \<Longrightarrow> J db (l @ [Window_read a b n rs])"
  shows "keeps (on_store J) (merge_group_range args api repo since until)"
proof (induction args api repo since until rule: merge_group_range.induct)
  case (1 args api repo since until)
  show ?case
    unfolding merge_group_range.simps [of args api repo since until] Let_def
    by (intro keeps_bind ph_rules)
      (auto intro!: keeps_bind keeps_then keeps_if keeps_ret ph_rules logged_keeps assms 1 split: option.split)
qed

section \<open>The store is well formed\<close>

definition row_key :: "pr_row \<Rightarrow> string \<times> int" where
  "row_key r = (pr_repo r, pr_number r)"

definition attempt_key :: "attempt \<Rightarrow> string \<times> int" where
  "attempt_key a = (at_repo a, at_number a)"

definition db_ok :: "prs_db \<Rightarrow> bool" where
  "db_ok db \<longleftrightarrow> distinct (map row_key (db_rows db)) \<and> distinct (map (\<lambda>a. (attempt_key a, at_run a)) (db_attempts db)) \<and>
     attempt_key ` set (db_attempts db) \<subseteq> row_key ` set (db_rows db) \<and>
     distinct (map bk_id (db_runs db)) \<and> (\<forall>b \<in> set (db_runs db). bk_id b < db_next db)"

lemma with_attempts_key [simp]: "row_key (with_attempts tk attempts r) = row_key r"
  by (simp add: with_attempts_def row_key_def Let_def split: list.split)

lemma put_attempt_distinct:
  "distinct (map (\<lambda>a. (attempt_key a, at_run a)) rows) \<Longrightarrow> distinct (map (\<lambda>a. (attempt_key a, at_run a)) (put_attempt rows a))"
  by (auto simp: put_attempt_def attempt_key_def distinct_map_filter)

lemma put_attempts:
  assumes "distinct (map (\<lambda>a. (attempt_key a, at_run a)) rows)"
  shows "distinct (map (\<lambda>a. (attempt_key a, at_run a)) (foldl put_attempt rows attempts)) \<and> set (foldl put_attempt rows attempts) \<subseteq> set rows \<union> set attempts"
  by (rule foldl_invariant) (use assms put_attempt_distinct in \<open>auto simp: put_attempt_def\<close>)

lemma write_pr_ok:
  assumes "db_ok db" "\<forall>a \<in> set attempts. attempt_key a = row_key r"
  shows "db_ok (write_pr tk r attempts db)"
proof -
  let ?r = "with_attempts tk attempts r"
  let ?others = "filter (\<lambda>q. row_key q \<noteq> row_key r) (db_rows db)"
  let ?kept = "filter (\<lambda>a. attempt_key a \<noteq> row_key r) (db_attempts db)"
  have key: "pr_repo ?r = pr_repo r" "pr_number ?r = pr_number r" using with_attempts_key [of tk attempts r] by (simp_all add: row_key_def)
  have w: "write_pr tk r attempts db = db\<lparr>db_rows := ?others @ [?r], db_attempts := foldl put_attempt ?kept attempts\<rparr>"
    by (simp add: write_pr_def Let_def key row_key_def attempt_key_def)
  have rows: "distinct (map row_key (?others @ [?r]))" using assms(1) by (auto simp: db_ok_def distinct_map_filter)
  have "distinct (map (\<lambda>a. (attempt_key a, at_run a)) ?kept)" using assms(1) by (simp add: db_ok_def distinct_map_filter)
  note atts = put_attempts [OF this, of attempts]
  have "attempt_key a \<in> row_key ` set (?others @ [?r])" if "a \<in> set (foldl put_attempt ?kept attempts)" for a
  proof -
    from atts that have "a \<in> set ?kept \<or> a \<in> set attempts" by blast
    then show ?thesis
    proof
      assume "a \<in> set ?kept"
      then have a: "a \<in> set (db_attempts db)" "attempt_key a \<noteq> row_key r" by simp_all
      with assms(1) obtain q where "q \<in> set (db_rows db)" "attempt_key a = row_key q" unfolding db_ok_def by blast
      with a(2) show ?thesis by simp
    next
      assume "a \<in> set attempts"
      with assms(2) show ?thesis by simp
    qed
  qed
  then have "attempt_key ` set (foldl put_attempt ?kept attempts) \<subseteq> row_key ` set (?others @ [?r])" by (rule image_subsetI)
  with atts rows assms(1) show ?thesis unfolding w db_ok_def by (simp del: set_append map_append filter.simps)
qed

lemma prune_prs_ok:
  assumes "db_ok db"
  shows "db_ok (prune_prs repo cutoff db)"
proof -
  let ?stale = "map pr_number (filter (stale_row repo cutoff) (db_rows db))"
  have "attempt_key a \<in> row_key ` set (filter (\<lambda>r. \<not> stale_row repo cutoff r) (db_rows db))"
    if "a \<in> set (db_attempts db)" "\<not> (at_repo a = repo \<and> at_number a \<in> set ?stale)" for a
  proof -
    from assms that(1) obtain q where q: "q \<in> set (db_rows db)" "attempt_key a = row_key q" unfolding db_ok_def by blast
    have "\<not> stale_row repo cutoff q"
    proof
      assume s: "stale_row repo cutoff q"
      with q(1) have "pr_number q \<in> set ?stale" by simp
      moreover have "at_repo a = repo" "at_number a = pr_number q" using s q(2) by (simp_all add: stale_row_def row_key_def attempt_key_def)
      ultimately show False using that(2) by simp
    qed
    with q show ?thesis by simp
  qed
  then have "attempt_key ` set (filter (\<lambda>a. \<not> (at_repo a = repo \<and> at_number a \<in> set ?stale)) (db_attempts db)) \<subseteq>
      row_key ` set (filter (\<lambda>r. \<not> stale_row repo cutoff r) (db_rows db))"
    unfolding image_subset_iff by (simp del: set_map)
  with assms show ?thesis by (simp add: db_ok_def prune_prs_def Let_def distinct_map_filter)
qed

lemma prune_runs_ok: "db_ok db \<Longrightarrow> db_ok (prune_runs cutoff db)"
  by (auto simp: db_ok_def prune_runs_def Let_def distinct_map_filter)

section \<open>What a pass keeps\<close>

lemma build_attempts_key:
  "a \<in> set (build_attempts tk mark repo number runs timeline fetched) \<Longrightarrow> attempt_key a = (repo, number)"
  by (auto simp: build_attempts_def Let_def attempt_key_def attempt_fields(1,2) [OF refl] dest!: number_attempts_mem)

lemma build_record_key: "row_key (build_pr_record tk repo pr timeline reviews commits retests now) = (repo, pl_number pr)"
  by (simp add: build_pr_record_def row_key_def Let_def)

text \<open>A condition that the writing of a pull request of the repository keeps.\<close>

definition write_stable :: "string \<Rightarrow> (prs_db \<Rightarrow> ph_event list \<Rightarrow> bool) \<Rightarrow> bool" where
  "write_stable repo J \<longleftrightarrow> (\<forall>db l tk r attempts. J db l \<and> fst (row_key r) = repo \<and> (\<forall>a \<in> set attempts. attempt_key a = row_key r) \<longrightarrow>
     J (write_pr tk r attempts db) l)"

definition log_stable :: "(ph_event \<Rightarrow> bool) \<Rightarrow> (prs_db \<Rightarrow> ph_event list \<Rightarrow> bool) \<Rightarrow> bool" where
  "log_stable A J \<longleftrightarrow> (\<forall>db l e. J db l \<and> A e \<longrightarrow> J db (l @ [e]))"

definition prune_stable :: "(prs_db \<Rightarrow> ph_event list \<Rightarrow> bool) \<Rightarrow> bool" where
  "prune_stable J \<longleftrightarrow> (\<forall>db l repo c. J db l \<longrightarrow> J (prune_prs repo c db) (l @ [Pruned (filter (stale_row repo c) (db_rows db))]))"

lemma backfill_one_keeps:
  assumes "write_stable repo J"
  shows "keeps (on_store J) (backfill_one args api repo pr runs)"
proof -
  have store: "keeps (on_store J) (modP (\<lambda>st. st\<lparr>ph_db := write_pr tk (build_pr_record tk repo pr events rs n retests now)
      (build_attempts tk mark repo (pl_number pr) ws events fetched) (ph_db st)\<rparr>))" for tk events rs n retests now mark ws fetched
    using assms by (auto simp: keeps_def on_store_def write_stable_def build_record_key build_attempts_key)
  show ?thesis unfolding backfill_one_def Let_def
    by (auto intro!: keeps_bind keeps_then keeps_ret keeps_getP ph_rules store split: option.split)
qed

lemma store_pending_keeps:
  "write_stable repo J \<Longrightarrow> keeps (on_store J) (store_pending args api repo runs before prs s)"
proof (induction prs arbitrary: s)
  case (Cons pr prs)
  then show ?case unfolding store_pending.simps Let_def
    by (intro keeps_bind keeps_getP keeps_if keeps_ret backfill_one_keeps) simp_all
qed (simp only: store_pending.simps keeps_ret)

lemma prune_repo_keeps: "prune_stable J \<Longrightarrow> keeps (on_store J) (prune_repo repo c)"
  by (simp add: keeps_def on_store_def prune_repo_def prune_stable_def ph_logged_def bindP_def thenP_def)

lemma fetch_closed_prs_keeps:
  "log_stable (\<lambda>e. \<exists>r prs. e = Listed r prs) J \<Longrightarrow> keeps (on_store J) (fetch_closed_prs args api repo cutoff since)"
  unfolding fetch_closed_prs_def log_stable_def
  by (auto intro!: keeps_bind keeps_then keeps_ret ph_rules logged_keeps split: option.split)

lemma range_keeps:
  "log_stable (\<lambda>e. \<exists>a b n rs. e = Window_read a b n rs) J \<Longrightarrow> keeps (on_store J) (merge_group_range args api repo since until)"
  by (rule merge_group_range_keeps) (auto simp: log_stable_def)

definition pass_stable :: "(prs_db \<Rightarrow> ph_event list \<Rightarrow> bool) \<Rightarrow> bool" where
  "pass_stable J \<longleftrightarrow> (\<forall>repo. write_stable repo J) \<and> log_stable (\<lambda>e. True) J \<and> prune_stable J"

lemma pass_stableD:
  assumes "pass_stable J"
  shows "write_stable repo J" "log_stable A J" "prune_stable J"
  using assms by (auto simp: pass_stable_def log_stable_def)

lemma backfill_repo_keeps:
  assumes "pass_stable J"
  shows "keeps (on_store J) (backfill_repo args api mode cutoff since repo s)"
  unfolding backfill_repo_def Let_def
  by (auto intro!: keeps_bind keeps_then keeps_if keeps_ret keeps_getP fetch_closed_prs_keeps range_keeps store_pending_keeps prune_repo_keeps
      pass_stableD [OF assms] split: option.split)

lemma backfill_repos_keeps: "pass_stable J \<Longrightarrow> keeps (on_store J) (backfill_repos args api mode cutoff since repos s)"
proof (induction repos arbitrary: s)
  case (Cons repo repos)
  then show ?case unfolding backfill_repos.simps
    by (intro keeps_bind backfill_repo_keeps) (auto intro!: keeps_ret)
qed (simp only: backfill_repos.simps keeps_ret)

lemma list_repos_keeps: "pass_stable J \<Longrightarrow> keeps (on_store J) (list_repos args api)"
  unfolding list_repos_def Let_def
  by (auto intro!: keeps_bind keeps_then keeps_if keeps_ret ph_rules logged_keeps simp: pass_stable_def log_stable_def split: option.split)

lemma db_ok_stable: "pass_stable (\<lambda>db l. db_ok db)"
  by (simp add: pass_stable_def write_stable_def log_stable_def prune_stable_def write_pr_ok prune_prs_ok)

lemma record_run_keeps: "keeps (on_store (\<lambda>db l. db_ok db)) (record_run args mode since s)"
  by (auto simp: record_run_def Let_def keeps_def on_store_def bindP_def thenP_def db_ok_def less_Suc_eq)

lemma backfill_keeps: "keeps (on_store (\<lambda>db l. db_ok db)) (backfill args api)"
proof -
  have "keeps (on_store (\<lambda>db l. db_ok db)) (modP (\<lambda>st. st\<lparr>ph_calls := 0, ph_rate := None\<rparr>))"
    "keeps (on_store (\<lambda>db l. db_ok db)) (modP (\<lambda>st. st\<lparr>ph_db := prune_runs c (ph_db st)\<rparr>))" for c
    by (simp_all add: keeps_def on_store_def prune_runs_ok)
  then show ?thesis unfolding backfill_def Let_def
    by (auto intro!: keeps_if keeps_raise keeps_bind keeps_then keeps_getP keeps_ret record_run_keeps list_repos_keeps backfill_repos_keeps db_ok_stable
        split: prod.split)
qed

text \<open>Claim C39: whatever GitHub answers and however a pass ends, the store stays well formed: one row per pull request, one attempt per run of it,
  no attempt without the row of its pull request, and passes numbered apart.\<close>

theorem backfill_keeps_store:
  assumes "db_ok (ph_db st)"
  shows "db_ok (ph_db (snd (backfill args api st)))"
  using keepsD [OF backfill_keeps, of st] assms by (simp add: on_store_def)

text \<open>A first pass over an organisation with one repository and one pull request that was merged outside of the queue.\<close>

definition demo_tk :: timekeeper where "demo_tk = \<lparr>tk_parse = (\<lambda>s. Some (int (length s))), tk_show = (\<lambda>t. ''2'')\<rparr>"

definition demo_pull :: pull where
  "demo_pull = \<lparr>pl_number = 7, pl_title = ''fix'', pl_user = None, pl_url = ''u'', pl_labels = [], pl_created = ''a'', pl_merged = ''abc'', pl_closed = ''abc'',
     pl_updated = ''abc''\<rparr>"

definition demo_github :: "unit gh_api" where
  "demo_github = \<lparr>ga_repos = (\<lambda>w url. (Answered (Some 5000) [(''installer'', False), (''old'', True)] None, w)),
     ga_pulls = (\<lambda>w url. (Answered (Some 4999) [demo_pull] None, w)), ga_timeline = (\<lambda>w url. (Answered None [] None, w)),
     ga_reviews = (\<lambda>w url. (Answered None [] None, w)), ga_commits = (\<lambda>w url. (Answered None [()] None, w)),
     ga_runs = (\<lambda>w url. (Answered None (0, []) None, w)), ga_clock = (\<lambda>w. (5, w)), ga_retests = (\<lambda>w repo n. None)\<rparr>"

definition demo_bf :: bf_args where
  "demo_bf = \<lparr>bf_fuel = 1, bf_tk = demo_tk, bf_mark = ''m'', bf_filter = [], bf_days = 30, bf_force = False, bf_limit = None, bf_now = 5, bf_mode = ''auto''\<rparr>"

definition demo_ph :: "unit ph_state" where
  "demo_ph = \<lparr>ph_world = (), ph_db = \<lparr>db_rows = [], db_attempts = [], db_runs = [], db_next = 1\<rparr>, ph_calls = 0, ph_rate = None, ph_log = []\<rparr>"

lemma demo_pass: "case backfill demo_bf demo_github demo_ph of (Inr b, t) \<Rightarrow> bk_ok b \<and> map row_key (db_rows (ph_db t)) = [(''installer'', 7)] \<and> ph_calls t = 6 | _ \<Rightarrow> False"
  by code_simp

theorem backfill_keeps_store_witness: "db_ok (ph_db (snd (backfill demo_bf demo_github demo_ph)))"
  by (rule backfill_keeps_store) (simp add: demo_ph_def db_ok_def)

section \<open>What a recorded pass has read\<close>

text \<open>A pull request is stored, or its row was dropped by the pruning.\<close>

definition kept_row :: "string \<Rightarrow> int \<Rightarrow> prs_db \<Rightarrow> ph_event list \<Rightarrow> bool" where
  "kept_row repo n db l \<longleftrightarrow> (repo, n) \<in> row_key ` set (db_rows db) \<or> (\<exists>rs. Pruned rs \<in> set l \<and> (repo, n) \<in> row_key ` set rs)"

lemma is_stored_key: "is_stored db repo n \<longleftrightarrow> (repo, n) \<in> row_key ` set (db_rows db)"
  by (auto simp: is_stored_def row_key_def list_ex_iff)

lemma write_pr_rows:
  "row_key ` set (db_rows (write_pr tk r attempts db)) = insert (row_key r) (row_key ` set (db_rows db))"
proof -
  let ?r = "with_attempts tk attempts r"
  have "db_rows (write_pr tk r attempts db) = filter (\<lambda>q. row_key q \<noteq> row_key ?r) (db_rows db) @ [?r]"
    unfolding write_pr_def Let_def row_key_def prod.inject by simp
  then have "row_key ` set (db_rows (write_pr tk r attempts db)) = insert (row_key r) (row_key ` {q \<in> set (db_rows db). row_key q \<noteq> row_key r})"
    by simp
  then show ?thesis by blast
qed

lemma kept_row_stable: "pass_stable (kept_row repo n)"
proof -
  have "kept_row repo n (prune_prs r c db) (l @ [Pruned (filter (stale_row r c) (db_rows db))])" if "kept_row repo n db l" for db l r c
  proof (cases "(repo, n) \<in> row_key ` set (db_rows db)")
    case True
    then obtain q where q: "q \<in> set (db_rows db)" "row_key q = (repo, n)" by auto
    show ?thesis
    proof (cases "stale_row r c q")
      case True
      with q have "(repo, n) \<in> row_key ` set (filter (stale_row r c) (db_rows db))" by force
      then show ?thesis unfolding kept_row_def by auto
    next
      case False
      with q have "(repo, n) \<in> row_key ` set (db_rows (prune_prs r c db))" by (force simp: prune_prs_def Let_def)
      then show ?thesis unfolding kept_row_def by blast
    qed
  next
    case False
    with that show ?thesis unfolding kept_row_def by auto
  qed
  moreover have "kept_row repo n db l \<Longrightarrow> kept_row repo n (write_pr tk r attempts db) l" for db l tk r attempts
    unfolding kept_row_def write_pr_rows by blast
  moreover have "kept_row repo n db l \<Longrightarrow> kept_row repo n db (l @ [e])" for db l e by (auto simp: kept_row_def)
  ultimately show ?thesis by (simp add: pass_stable_def write_stable_def log_stable_def prune_stable_def)
qed

abbreviation kept_in :: "string \<Rightarrow> pull \<Rightarrow> 'w ph_state \<Rightarrow> bool" where
  "kept_in repo pr st \<equiv> kept_row repo (pl_number pr) (ph_db st) (ph_log st)"

lemma kept_after:
  assumes "keeps (on_store (kept_row repo n)) m" "m st = (r, t)" "kept_row repo n (ph_db st) (ph_log st)"
  shows "kept_row repo n (ph_db t) (ph_log t)"
  using keepsD [OF assms(1), of st] assms(2,3) by (simp add: on_store_def)

definition clean :: "bf_summary \<Rightarrow> bool" where
  "clean s \<longleftrightarrow> sm_failed s = 0 \<and> sm_stopped s = None"

lemma hoare_any: "hoare P m (\<lambda>_ _. True) (\<lambda>_ _. True)"
  by (simp add: hoare_def split: prod.split sum.split)

lemma hoare_backfill_one: "hoare (\<lambda>_. True) (backfill_one args api repo pr runs) (\<lambda>r st. r = None \<or> kept_in repo pr st) (\<lambda>_ _. True)"
proof (cases runs)
  case (Some ws)
  have none: "hoare (\<lambda>_. True) (ret None) (\<lambda>r st. r = None \<or> kept_in repo pr st) (\<lambda>_ _. True)" by (simp add: hoare_def)
  have store: "hoare (\<lambda>_. True) (thenP (modP (\<lambda>st. st\<lparr>ph_db := write_pr tk (build_pr_record tk repo pr events rs n retests now) attempts (ph_db st)\<rparr>))
      (ret (Some m))) (\<lambda>r st. r = None \<or> kept_in repo pr st) (\<lambda>_ _. True)" for tk events rs n retests now attempts m
    by (simp add: hoare_def thenP_def bindP_def kept_row_def write_pr_rows build_record_key)
  show ?thesis
    unfolding backfill_one_def Some option.case Let_def
    by (intro hoare_bind [OF hoare_any]) (auto intro!: hoare_bind [OF hoare_any] none store split: option.split)
qed (simp add: backfill_one_def hoare_def)

lemma backfill_one_stores:
  "backfill_one args api repo pr runs st = (Inr (Some n), t) \<Longrightarrow> kept_in repo pr t"
  by (drule hoareD_ret [OF hoare_backfill_one, rotated]) simp_all

lemma store_pending_run:
  "store_pending args api repo runs before prs s st = (Inr (stopped, s'), t) \<Longrightarrow>
   (clean s' \<longrightarrow> clean s \<and> (\<forall>pr \<in> set prs. kept_in repo pr t)) \<and> (stopped \<longrightarrow> \<not> clean s') \<and> sm_complete s' = sm_complete s"
proof (induction prs arbitrary: s st)
  case (Cons pr prs)
  then obtain r st1 where one: "backfill_one args api repo pr runs st = (Inr r, st1)" by (auto simp: run_iff)
  let ?s = "case r of None \<Rightarrow> s\<lparr>sm_failed := sm_failed s + 1\<rparr> | Some n \<Rightarrow> s\<lparr>sm_stored := sm_stored s + 1, sm_attempts := sm_attempts s + n\<rparr>"
  let ?low = "case ph_rate st1 of None \<Rightarrow> False | Some n \<Rightarrow> n < MIN_RATE_LIMIT_REMAINING"
  let ?full = "case bf_limit args of None \<Rightarrow> False | Some limit \<Rightarrow> limit \<le> int (sm_stored ?s)"
  have complete: "sm_complete ?s = sm_complete s" by (simp split: option.split)
  have first: "clean ?s \<Longrightarrow> clean s \<and> kept_in repo pr st1"
    using backfill_one_stores [of args api repo pr runs st _ st1] one by (cases r) (auto simp: clean_def)
  show ?case
  proof (cases "?low \<or> ?full")
    case True
    with Cons.prems one have "stopped" "sm_stopped s' \<noteq> None" "sm_complete s' = sm_complete ?s"
      by (auto simp: bindP_def Let_def split: if_splits)
    with complete show ?thesis by (auto simp: clean_def)
  next
    case False
    with Cons.prems one have rest: "store_pending args api repo runs before prs ?s st1 = (Inr (stopped, s'), t)"
      by (simp add: bindP_def Let_def)
    have "kept_in repo pr st1 \<Longrightarrow> kept_in repo pr t"
      by (rule kept_after [OF store_pending_keeps rest]) (use kept_row_stable pass_stableD(1) in auto)
    with Cons.IH [OF rest] first complete show ?thesis by auto
  qed
qed (simp add: run_iff)

definition listed_in :: "ph_event list \<Rightarrow> (string \<times> pull list) set" where
  "listed_in l = {(repo, prs). Listed repo prs \<in> set l}"

lemma listed_in_snoc [simp]:
  "listed_in (l @ [Listed repo prs]) = insert (repo, prs) (listed_in l)" "listed_in (l @ [Window_read a b n rs]) = listed_in l"
  "listed_in (l @ [Pruned rows]) = listed_in l" "listed_in (l @ [Repos_listed names]) = listed_in l"
  by (auto simp: listed_in_def)

text \<open>Every listed pull request is stored or was dropped by the pruning.\<close>

definition listed_kept :: "prs_db \<Rightarrow> ph_event list \<Rightarrow> bool" where
  "listed_kept db l \<longleftrightarrow> (\<forall>(repo, prs) \<in> listed_in l. \<forall>pr \<in> set prs. kept_row repo (pl_number pr) db l)"

definition pass_inv :: "string set \<Rightarrow> bf_summary \<Rightarrow> 'w ph_state \<Rightarrow> bool" where
  "pass_inv N s st \<longleftrightarrow> (clean s \<longrightarrow> listed_kept (ph_db st) (ph_log st)) \<and> (sm_complete s \<longrightarrow> N \<subseteq> fst ` listed_in (ph_log st))"

lemma on_store_after: "keeps (on_store J) m \<Longrightarrow> m st = (r, t) \<Longrightarrow> J (ph_db st) (ph_log st) \<Longrightarrow> J (ph_db t) (ph_log t)"
  using keepsD [of "on_store J" m st] by (simp add: on_store_def)

lemma fetch_run:
  assumes "fetch_closed_prs args api repo cutoff since st = (Inr (Some prs), t)"
  shows "ph_db t = ph_db st" "ph_log t = ph_log st @ [Listed repo prs]"
proof -
  from assms obtain u where u: "closed_pages (bf_fuel args) (bf_tk args) api cutoff since
        (Some (repo_url repo (''/pulls?state=closed&sort=updated&direction=desc&per_page=100&since='' @ tk_show (bf_tk args) since))) st = (Inr (Some prs), u)"
      "t = u\<lparr>ph_log := ph_log u @ [Listed repo prs]\<rparr>"
    by (auto simp: fetch_closed_prs_def run_iff ph_logged_def split: option.splits)
  from on_store_after [OF closed_pages_keeps u(1), of "\<lambda>db l. db = ph_db st \<and> l = ph_log st"] u(2)
  show "ph_db t = ph_db st" "ph_log t = ph_log st @ [Listed repo prs]" by simp_all
qed

lemma listed_stable:
  "write_stable repo (\<lambda>db l. listed_in l = L)" "log_stable (\<lambda>e. \<exists>a b n rs. e = Window_read a b n rs) (\<lambda>db l. listed_in l = L)"
  "prune_stable (\<lambda>db l. listed_in l = L)"
  by (auto simp: write_stable_def log_stable_def prune_stable_def)

lemma backfill_repo_run:
  assumes run: "backfill_repo args api mode cutoff since repo s st = (Inr (stopped, s'), t)" and inv: "pass_inv N s st"
  shows "pass_inv (insert repo N) s' t \<and> (stopped \<longrightarrow> \<not> sm_complete s')"
proof -
  from run obtain prs st1 where fetch: "fetch_closed_prs args api repo cutoff since st = (Inr prs, st1)"
    by (auto simp: backfill_repo_def run_iff)
  show ?thesis
  proof (cases prs)
    case None
    with run fetch show ?thesis
      by (auto simp: backfill_repo_def bindP_def pass_inv_def clean_def split: option.splits)
  next
    case (Some ps)
    note fetched = fetch_run [OF fetch [unfolded Some]]
    let ?pending = "filter (\<lambda>pr. bf_force args \<or> \<not> is_stored (ph_db st1) repo (pl_number pr)) ps"
    let ?ask = "if ?pending = [] then ret (Some []) else merge_group_range args api repo (merge_group_from (bf_tk args) ?pending cutoff) (bf_now args)"
    let ?s = "s\<lparr>sm_skipped := sm_skipped s + (length ps - length ?pending)\<rparr>"
    let ?prune = "if mode = ''full'' then prune_repo repo (tk_show (bf_tk args) cutoff) else ret ()"
    from run fetch Some obtain runs st2 s2 st3 where
      steps: "?ask st1 = (Inr runs, st2)" "store_pending args api repo runs (sm_stored s) ?pending ?s st2 = (Inr (stopped, s2), st3)"
        "?prune st3 = (Inr (), t)" and s': "s' = (if stopped then s2\<lparr>sm_complete := False\<rparr> else s2)"
      by (auto simp: backfill_repo_def run_iff Let_def)
    have ask: "keeps (on_store J) ?ask" if "log_stable (\<lambda>e. \<exists>a b n rs. e = Window_read a b n rs) J" for J
      by (intro keeps_if keeps_ret range_keeps that)
    have prune: "keeps (on_store J) ?prune" if "prune_stable J" for J
      by (intro keeps_if keeps_ret prune_repo_keeps that)
    have listed: "listed_in (ph_log t) = insert (repo, ps) (listed_in (ph_log st))"
      using on_store_after [OF ask [OF listed_stable(2)] steps(1)] on_store_after [OF store_pending_keeps [OF listed_stable(1)] steps(2)]
        on_store_after [OF prune [OF listed_stable(3)] steps(3)] by (simp add: fetched)
    note stable = kept_row_stable [THEN pass_stableD(1)] kept_row_stable [THEN pass_stableD(2)] kept_row_stable [THEN pass_stableD(3)]
    have stored: "clean s2 \<longrightarrow> clean s \<and> (\<forall>pr \<in> set ?pending. kept_in repo pr st3)" "stopped \<longrightarrow> \<not> clean s2" "sm_complete s2 = sm_complete s"
      using store_pending_run [OF steps(2)] by (auto simp: clean_def)
    have kept: "kept_in repo pr t" if "clean s2" "pr \<in> set ps" for pr
    proof (cases "pr \<in> set ?pending")
      case True
      with stored(1) that(1) have "kept_in repo pr st3" by blast
      then show ?thesis by (rule on_store_after [OF prune [OF stable(3)] steps(3)])
    next
      case False
      with that(2) have "is_stored (ph_db st1) repo (pl_number pr)" by simp
      then have "kept_in repo pr st1" unfolding kept_row_def is_stored_key by blast
      then have "kept_in repo pr st2" by (rule on_store_after [OF ask [OF stable(2)] steps(1)])
      then have "kept_in repo pr st3" by (rule on_store_after [OF store_pending_keeps [OF stable(1)] steps(2)])
      then show ?thesis by (rule on_store_after [OF prune [OF stable(3)] steps(3)])
    qed
    have old: "kept_row r n (ph_db st) (ph_log st) \<Longrightarrow> kept_row r n (ph_db t) (ph_log t)" for r n
      by (rule on_store_after [OF backfill_repo_keeps [OF kept_row_stable] run])
    have clean: "clean s' = clean s2" "sm_complete s' \<longrightarrow> sm_complete s \<and> \<not> stopped"
      using stored(3) by (auto simp: s' clean_def)
    have "listed_kept (ph_db t) (ph_log t)" if "clean s'"
      using inv that stored(1) kept old unfolding clean(1) listed_kept_def listed pass_inv_def by auto
    moreover have "insert repo N \<subseteq> fst ` listed_in (ph_log t)" if "sm_complete s'"
      using inv that clean(2) unfolding listed pass_inv_def by auto
    ultimately show ?thesis using clean(2) unfolding pass_inv_def by blast
  qed
qed

lemma backfill_repos_run:
  "backfill_repos args api mode cutoff since repos s st = (Inr s', t) \<Longrightarrow> pass_inv N s st \<Longrightarrow> pass_inv (N \<union> set repos) s' t"
proof (induction repos arbitrary: N s st)
  case (Cons repo repos)
  from Cons.prems(1) obtain stopped s1 st1 where one: "backfill_repo args api mode cutoff since repo s st = (Inr (stopped, s1), st1)"
      and rest: "if stopped then s' = s1 \<and> t = st1 else backfill_repos args api mode cutoff since repos s1 st1 = (Inr s', t)"
    by (auto simp: run_iff split: if_splits)
  note inv = backfill_repo_run [OF one Cons.prems(2)]
  show ?case
  proof (cases stopped)
    case True
    with inv rest show ?thesis by (auto simp: pass_inv_def)
  next
    case False
    with rest have "backfill_repos args api mode cutoff since repos s1 st1 = (Inr s', t)" by simp
    from Cons.IH [OF this conjunct1 [OF inv]] show ?thesis by simp
  qed
qed (simp add: run_iff)

section \<open>Coverage\<close>

text \<open>Pruning the passes keeps the latest ones, in order.\<close>

lemma latest_first_set [simp]: "set (latest_first rows) = set rows"
  by (simp add: latest_first_def)

lemma latest_first_filter: "latest_first (filter P rows) = filter P (latest_first rows)"
  unfolding latest_first_def by (simp only: filter_sort [symmetric] rev_filter)

lemma latest_first_distinct: "distinct (map bk_id rows) \<Longrightarrow> distinct (map bk_id (latest_first rows))"
proof -
  have "mset (map bk_id (latest_first rows)) = mset (map bk_id rows)" by (simp add: latest_first_def)
  then show "distinct (map bk_id rows) \<Longrightarrow> distinct (map bk_id (latest_first rows))" using mset_eq_imp_distinct_iff by blast
qed

lemma filter_prefix:
  "sorted_wrt (\<lambda>a b. P b \<longrightarrow> P a) xs \<Longrightarrow> \<exists>k. filter P xs = take k xs"
proof (induction xs)
  case (Cons x xs)
  show ?case
  proof (cases "P x")
    case True
    with Cons obtain k where "filter P xs = take k xs" by auto
    with True show ?thesis by (intro exI [of _ "Suc k"]) simp
  next
    case False
    with Cons.prems have "filter P (x # xs) = []" by (auto simp: filter_empty_conv)
    then show ?thesis by (intro exI [of _ 0]) simp
  qed
qed simp

lemma latest_first_order: "sorted_wrt (\<lambda>a b. bk_ran_at b \<le> bk_ran_at a) (latest_first rows)"
proof -
  have "sorted_wrt (\<lambda>a b. (bk_ran_at b, bk_id b) \<le> (bk_ran_at a, bk_id a)) (latest_first rows)"
    using sorted_sort_key [of "\<lambda>b. (bk_ran_at b, bk_id b)" rows] by (simp add: latest_first_def sorted_wrt_rev sorted_map)
  then show ?thesis by (rule sorted_wrt_mono_rel [rotated]) (auto simp: less_eq_prod_def)
qed

lemma filter_ids_take:
  assumes "distinct (map bk_id xs)"
  shows "filter (\<lambda>b. bk_id b \<in> set (map bk_id (take n xs))) xs = take n xs"
proof -
  have split: "distinct (map bk_id (take n xs) @ map bk_id (drop n xs))"
    using assms by (simp only: map_append [symmetric] append_take_drop_id)
  have "filter (\<lambda>b. bk_id b \<in> set (map bk_id (take n xs))) (drop n xs) = []"
    using split by (auto simp: filter_empty_conv)
  moreover have "filter (\<lambda>b. bk_id b \<in> set (map bk_id (take n xs))) (take n xs) = take n xs" by (simp add: filter_id_conv)
  ultimately show ?thesis by (metis append_Nil2 append_take_drop_id filter_append)
qed

lemma prune_runs_latest:
  assumes "distinct (map bk_id (db_runs db))"
  shows "\<exists>k. latest_first (db_runs (prune_runs c db)) = take k (latest_first (db_runs db))"
proof -
  let ?rows = "filter (\<lambda>b. \<not> bk_ran_at b < c) (db_runs db)"
  have "distinct (map bk_id ?rows)" using assms by (simp add: distinct_map_filter)
  have "db_runs (prune_runs c db) = filter (\<lambda>b. bk_id b \<in> set (map bk_id (take BACKFILL_RUNS_KEEP (latest_first ?rows)))) ?rows"
    by (simp add: prune_runs_def Let_def)
  also have "latest_first \<dots> = take BACKFILL_RUNS_KEEP (latest_first ?rows)"
    unfolding latest_first_filter [of _ ?rows] by (rule filter_ids_take [OF latest_first_distinct]) fact
  finally have "latest_first (db_runs (prune_runs c db)) = take BACKFILL_RUNS_KEEP (latest_first ?rows)" .
  moreover have "sorted_wrt (\<lambda>a b. \<not> bk_ran_at b < c \<longrightarrow> \<not> bk_ran_at a < c) (latest_first (db_runs db))"
    by (rule sorted_wrt_mono_rel [OF _ latest_first_order]) auto
  from filter_prefix [OF this] obtain k where "latest_first ?rows = take k (latest_first (db_runs db))"
    by (auto simp: latest_first_filter)
  ultimately show ?thesis by (auto simp: take_take)
qed

lemma coverage_find: "coverage_until db = map_option bk_to (find bk_complete (latest_first (db_runs db)))"
proof -
  have "(case filter P xs of [] \<Rightarrow> None | b # _ \<Rightarrow> Some (f b)) = map_option f (find P xs)" for P xs and f :: "backfill_row \<Rightarrow> string"
    by (induction xs) auto
  then show ?thesis by (simp add: coverage_until_def latest_first_filter)
qed

lemma find_take: "find P (take k xs) = None \<or> find P (take k xs) = find P xs"
proof (induction xs arbitrary: k)
  case (Cons x xs)
  then show ?case by (cases k) auto
qed simp

text \<open>A pass that has not read everything leaves the coverage where it was, or without one when the passes that gave it are pruned.\<close>

lemma incomplete_keeps_coverage:
  assumes "distinct (map bk_id (db_runs db @ [b]))" "\<not> bk_complete b"
  shows "coverage_until (prune_runs c (db\<lparr>db_runs := db_runs db @ [b], db_next := n\<rparr>)) \<in> {coverage_until db, None}"
proof -
  let ?db = "db\<lparr>db_runs := db_runs db @ [b], db_next := n\<rparr>"
  from prune_runs_latest [of ?db c] assms(1) obtain k where k: "latest_first (db_runs (prune_runs c ?db)) = take k (latest_first (db_runs ?db))" by auto
  have "filter bk_complete (db_runs ?db) = filter bk_complete (db_runs db)" using assms(2) by simp
  then have "coverage_until ?db = coverage_until db" by (simp add: coverage_until_def)
  with find_take [of bk_complete k "latest_first (db_runs ?db)"] show ?thesis unfolding coverage_find k by auto
qed

section \<open>The record is true\<close>

lemma runs_stable: "pass_stable (\<lambda>db l. db_runs db = R \<and> db_next db = n)"
  by (simp add: pass_stable_def write_stable_def log_stable_def prune_stable_def write_pr_def prune_prs_def Let_def)

lemma list_repos_run:
  assumes "list_repos args api st = (Inr repos, t)"
  shows "ph_db t = ph_db st" "listed_in (ph_log t) = listed_in (ph_log st)"
    "bf_filter args = [] \<Longrightarrow> repos = Some names \<Longrightarrow> Repos_listed names \<in> set (ph_log t)"
proof -
  have quiet: "pass_stable (\<lambda>db l. True)" by (simp add: pass_stable_def write_stable_def log_stable_def prune_stable_def)
  show "ph_db t = ph_db st" "listed_in (ph_log t) = listed_in (ph_log st)" "bf_filter args = [] \<Longrightarrow> repos = Some names \<Longrightarrow> Repos_listed names \<in> set (ph_log t)"
    using assms on_store_after [OF get_all_keeps, of "bf_fuel args" "ga_repos api" _ st _ _ "\<lambda>db l. db = ph_db st \<and> l = ph_log st"]
    by (auto simp: list_repos_def Let_def run_iff ph_logged_def split: if_splits option.splits)
qed

lemma backfill_exn:
  "hoare (on_store (\<lambda>db l. db_runs db = R \<and> db_next db = n)) (backfill args api) (\<lambda>_ _. True) (\<lambda>_. on_store (\<lambda>db l. db_runs db = R \<and> db_next db = n))"
proof -
  let ?J = "on_store (\<lambda>db l. db_runs db = R \<and> db_next db = n)"
  have k: "hoare ?J m (\<lambda>_. ?J) (\<lambda>_. ?J)" if "keeps ?J m" for m :: "('w, 'x) ph"
    using that by (simp add: keeps_hoare)
  have start: "keeps ?J (modP (\<lambda>st. st\<lparr>ph_calls := 0, ph_rate := None\<rparr>))" by (simp add: keeps_def on_store_def)
  have last: "hoare ?J (bindP (record_run args mode since s) (\<lambda>b. thenP (modP f) (ret b))) (\<lambda>_ _. True) (\<lambda>_. ?J)" for mode since s f
    by (simp add: hoare_def bindP_def thenP_def record_run_def Let_def)
  show ?thesis
    unfolding backfill_def Let_def
    by (intro hoare_if hoare_then [OF k [OF start]] hoare_bind [OF k [OF keeps_getP]])
      (auto intro!: hoare_bind [OF k [OF list_repos_keeps [OF runs_stable]]] hoare_bind [OF k [OF backfill_repos_keeps [OF runs_stable]]] last hoare_raise
        split: prod.split)
qed

text \<open>The row that a pass records.\<close>

lemma backfill_run:
  fixes st t :: "'w ph_state"
  assumes "backfill args api (st\<lparr>ph_log := []\<rparr>) = (Inr b, t)"
  obtains repos s c n and st1 st2 :: "'w ph_state" where "list_repos args api (st\<lparr>ph_log := [], ph_calls := 0, ph_rate := None\<rparr>) = (Inr repos, st1)"
    "pass_inv (case repos of None \<Rightarrow> {} | Some rs \<Rightarrow> set rs) s st2"
    "bk_complete b \<Longrightarrow> sm_complete s \<and> bf_filter args = [] \<and> repos \<noteq> None" "bk_ok b \<Longrightarrow> clean s" "bk_id b = db_next (ph_db st)"
    "db_runs (ph_db st2) = db_runs (ph_db st)" "\<And>e. e \<in> set (ph_log st1) \<Longrightarrow> e \<in> set (ph_log st2)"
    "ph_log t = ph_log st2" "ph_db t = prune_runs c ((ph_db st2)\<lparr>db_runs := db_runs (ph_db st2) @ [b], db_next := n\<rparr>)"
proof -
  let ?st = "st\<lparr>ph_log := [], ph_calls := 0, ph_rate := None\<rparr>"
  obtain mode since where plan: "plan (bf_tk args) (bf_days args) (bf_now args) (if bf_force args \<and> bf_mode args = ''auto'' then ''full'' else bf_mode args) (ph_db st) = (mode, since)"
    by fastforce
  let ?s0 = "\<lambda>repos. if repos = None then no_summary\<lparr>sm_complete := False, sm_stopped := Some Repos_unread\<rparr> else no_summary"
  let ?s1 = "\<lambda>s. if bf_filter args = [] then s
     else s\<lparr>sm_complete := False, sm_stopped := (case sm_stopped s of None \<Rightarrow> Some (Subset (bf_filter args)) | Some x \<Rightarrow> Some x)\<rparr>"
  let ?c = "tk_show (bf_tk args) (bf_now args - int (bf_days args) * DAY)"
  from assms plan obtain repos st1 s st2 st3 where
    list: "list_repos args api ?st = (Inr repos, st1)" and
    pass: "backfill_repos args api mode (bf_now args - int (bf_days args) * DAY) since (case repos of None \<Rightarrow> [] | Some rs \<Rightarrow> rs) (?s0 repos) st1 = (Inr s, st2)" and
    rec: "record_run args mode since (?s1 s) st2 = (Inr b, st3)" and
    t: "t = st3\<lparr>ph_db := prune_runs ?c (ph_db st3)\<rparr>"
    by (auto simp: backfill_def Let_def run_iff split: if_splits)
  have start: "pass_inv {} (?s0 repos) st1"
    using list_repos_run(2) [OF list] by (auto simp: pass_inv_def listed_kept_def listed_in_def clean_def)
  from backfill_repos_run [OF pass start] have inv: "pass_inv (case repos of None \<Rightarrow> {} | Some rs \<Rightarrow> set rs) s st2" by (auto split: option.splits)
  have none: "repos = None \<Longrightarrow> \<not> sm_complete s" using pass by (auto simp: run_iff)
  from rec have b: "bk_complete b = sm_complete (?s1 s)" "bk_ok b \<Longrightarrow> clean (?s1 s)" "bk_id b = db_next (ph_db st2)"
      "ph_log st3 = ph_log st2" "ph_db st3 = (ph_db st2)\<lparr>db_runs := db_runs (ph_db st2) @ [b], db_next := db_next (ph_db st2) + 1\<rparr>"
    by (auto simp: record_run_def Let_def run_iff clean_def)
  have runs: "db_runs (ph_db st2) = db_runs (ph_db st) \<and> db_next (ph_db st2) = db_next (ph_db st)"
    by (rule on_store_after [OF backfill_repos_keeps [OF runs_stable] pass]) (simp add: list_repos_run(1) [OF list])
  have logs: "pass_stable (\<lambda>db l. e \<in> set l)" for e by (simp add: pass_stable_def write_stable_def log_stable_def prune_stable_def)
  show thesis
  proof (rule that [OF list inv])
    show "bk_complete b \<Longrightarrow> sm_complete s \<and> bf_filter args = [] \<and> repos \<noteq> None" using none by (auto simp: b(1) split: if_splits)
    show "bk_ok b \<Longrightarrow> clean s" using b(2) by (auto simp: clean_def split: if_splits option.splits)
    show "bk_id b = db_next (ph_db st)" "db_runs (ph_db st2) = db_runs (ph_db st)" using b(3) runs by simp_all
    show "e \<in> set (ph_log st1) \<Longrightarrow> e \<in> set (ph_log st2)" for e by (rule on_store_after [OF backfill_repos_keeps [OF logs] pass])
    show "ph_log t = ph_log st2" by (simp add: t b(4))
    show "ph_db t = prune_runs ?c ((ph_db st2)\<lparr>db_runs := db_runs (ph_db st2) @ [b], db_next := db_next (ph_db st2) + 1\<rparr>)" by (simp add: t b(5))
  qed
qed



section \<open>The windows of the merge queue\<close>

definition windows :: "ph_event list \<Rightarrow> (int \<times> int \<times> nat \<times> wf_run list) list" where
  "windows l = List.map_filter (\<lambda>e. case e of Window_read a b n rs \<Rightarrow> Some (a, b, n, rs) | _ \<Rightarrow> None) l"

text \<open>Windows that follow one another without a gap.\<close>

fun tiles :: "int \<Rightarrow> int \<Rightarrow> (int \<times> int) list \<Rightarrow> bool" where
  "tiles a b [] = False"
| "tiles a b [w] = (w = (a, b))"
| "tiles a b (w # v # ws) = (fst w = a \<and> tiles (snd w) b (v # ws))"

lemma tiles_append: "tiles a m ws \<Longrightarrow> tiles m b vs \<Longrightarrow> tiles a b (ws @ vs)"
proof (induction a m ws rule: tiles.induct)
  case (2 a m w)
  then show ?case by (cases vs) auto
qed auto

definition window_runs :: "(int \<times> int \<times> nat \<times> wf_run list) list \<Rightarrow> wf_run list" where
  "window_runs ws = filter (\<lambda>r. wr_event r = ''merge_group'') (concat (map (\<lambda>(a, b, n, rs). rs) ws))"

definition windows_ok :: "int \<Rightarrow> int \<Rightarrow> wf_run list \<Rightarrow> (int \<times> int \<times> nat \<times> wf_run list) list \<Rightarrow> bool" where
  "windows_ok since until runs ws \<longleftrightarrow> tiles since until (map (\<lambda>(a, b, n, rs). (a, b)) ws) \<and>
     list_all (\<lambda>(a, b, n, rs). n \<le> MERGE_GROUP_SAFE_RESULT_LIMIT \<or> b - a \<le> HOUR) ws \<and> wr_id ` set runs = wr_id ` set (window_runs ws)"

lemma unique_runs_ids: "wr_id ` set (unique_runs runs) = wr_id ` set runs"
proof -
  define f where "f = (\<lambda>(d :: (int \<times> wf_run) list) run. if wr_id run \<in> set (map fst d) then d else d @ [(wr_id run, run)])"
  have old: "f d r = d" if "wr_id r \<in> set (map fst d)" for d r unfolding f_def using that by (rule if_P)
  have fresh: "f d r = d @ [(wr_id r, r)]" if "wr_id r \<notin> set (map fst d)" for d r unfolding f_def using that by (rule if_not_P)
  have inv: "map fst (foldl f [] runs) = map wr_id (map snd (foldl f [] runs)) \<and> set (map fst (foldl f [] runs)) = wr_id ` set runs"
  proof (induction runs rule: rev_induct)
    case Nil
    show ?case by simp
  next
    case (snoc r rs)
    define d where "d = foldl f [] rs"
    have IH: "map fst d = map wr_id (map snd d)" "set (map fst d) = wr_id ` set rs" using snoc.IH unfolding d_def by blast+
    have step: "foldl f [] (rs @ [r]) = f d r" by (simp add: d_def)
    show ?case
    proof (cases "wr_id r \<in> set (map fst d)")
      case True
      have "wr_id ` set (rs @ [r]) = set (map fst d)" using True IH(2) by (simp add: insert_absorb)
      then show ?thesis unfolding step old [OF True] using IH(1) by simp
    next
      case False
      show ?thesis unfolding step fresh [OF False] using IH by simp
    qed
  qed
  then have "set (map wr_id (map snd (foldl f [] runs))) = wr_id ` set runs" by metis
  then show ?thesis unfolding unique_runs_def f_def [symmetric] by (simp only: list.set_map)
qed

lemma windows_append: "windows (l @ l') = windows l @ windows l'"
  by (simp add: windows_def map_filter_def)

lemma merge_group_range_run:
  "merge_group_range args api repo since until st = (Inr (Some runs), t) \<Longrightarrow>
   \<exists>l. ph_log t = ph_log st @ l \<and> windows_ok since until runs (windows l)"
proof (induction args api repo since until arbitrary: st runs t rule: merge_group_range.induct)
  case (1 args api repo since until)
  from "1.prems" obtain found first link st1 where
    page: "get_page (ga_runs api) (runs_url (bf_tk args) repo since until) st = (Inr (Some ((found, first), link)), st1)"
    unfolding merge_group_range.simps [of args api repo since until] by (auto simp: run_iff split: option.splits)
  have step: "bindP (get_page (ga_runs api) (runs_url (bf_tk args) repo since until)) f st = f (Some ((found, first), link)) st1"
    for f :: "((nat \<times> wf_run list) \<times> string option) option \<Rightarrow> ('a, wf_run list option) ph" by (simp add: bindP_def page)
  have log1: "ph_log st1 = ph_log st"
    using on_store_after [OF get_page_keeps page, of "\<lambda>db l. l = ph_log st"] by simp
  let ?mid = "since + half_span (until - since)"
  show ?case
  proof (cases "MERGE_GROUP_SAFE_RESULT_LIMIT < found \<and> HOUR < until - since")
    case True
    with "1.prems" have "bindP (merge_group_range args api repo since ?mid) (\<lambda>left. bindP (merge_group_range args api repo ?mid until) (\<lambda>right.
        ret (case (left, right) of (Some l, Some r) \<Rightarrow> Some (unique_runs (l @ r)) | _ \<Rightarrow> None))) st1 = (Inr (Some runs), t)"
      unfolding merge_group_range.simps [of args api repo since until] by (simp add: step Let_def)
    then obtain left right u where parts: "merge_group_range args api repo since ?mid st1 = (Inr (Some left), u)"
        "merge_group_range args api repo ?mid until u = (Inr (Some right), t)" "runs = unique_runs (left @ right)"
      by (auto simp: run_iff split: option.splits)
    from "1.IH"(1) [OF refl True refl parts(1)] obtain l where l: "ph_log u = ph_log st1 @ l" "windows_ok since ?mid left (windows l)" by auto
    from "1.IH"(2) [OF refl True refl parts(2)] obtain l' where l': "ph_log t = ph_log u @ l'" "windows_ok ?mid until right (windows l')" by auto
    have "windows_ok since until runs (windows (l @ l'))"
      using l(2) l'(2) tiles_append [of since ?mid _ until]
      by (auto simp: windows_ok_def windows_append parts(3) unique_runs_ids window_runs_def image_Un)
    with l(1) l'(1) log1 show ?thesis by auto
  next
    case False
    with "1.prems" have "bindP (more_runs (bf_fuel args) api link) (\<lambda>rest. case rest of None \<Rightarrow> ret None
        | Some r \<Rightarrow> thenP (ph_logged (Window_read since until found (first @ r))) (ret (Some (filter (\<lambda>run. wr_event run = ''merge_group'') (first @ r)))))
        st1 = (Inr (Some runs), t)"
      unfolding merge_group_range.simps [of args api repo since until] by (simp only: step option.case prod.case if_False)
    then obtain rest u where more: "more_runs (bf_fuel args) api link st1 = (Inr (Some rest), u)"
        "t = u\<lparr>ph_log := ph_log u @ [Window_read since until found (first @ rest)]\<rparr>" "runs = filter (\<lambda>r. wr_event r = ''merge_group'') (first @ rest)"
      by (auto simp: run_iff ph_logged_def split: option.splits)
    have "ph_log u = ph_log st1" using on_store_after [OF more_runs_keeps more(1), of "\<lambda>db l. l = ph_log st1"] by simp
    with more log1 False show ?thesis
      by (intro exI [of _ "[Window_read since until found (first @ rest)]"]) (auto simp: windows_ok_def windows_def map_filter_simps window_runs_def)
  qed
qed


end
