(* ===== verification/Spec2Isabelle.thy ===== *)
theory Spec2Isabelle
  imports VirtualBmh ReconcileBmh OcpUplink Redact ReleaseGate SelectJobs ObserveRuns PrCommentSpec NetrisCleanup ExportAllowlist WorkerBmis TestTrends RecurringFailure LabelAgents CaptureReport CaptureStack DeliveryVerify ObserveHistory PrBackfill
begin

text \<open>
  A verification library for the Python tools of osac-test-infra, the test infrastructure of the OSAC project. Paths below are
  relative to the repository.

  \<^bold>\<open>The program.\<close> The repository holds no single program but the tools that the CI pipelines and the lab are run with. They work on
  shared state rather than call one another: the raw inventory file and the cluster (virtual and bare metal hosts), the Netris
  controller (networks of test clusters), the artifacts of a CI run (redacted, gated, then published), the comment and issues of a
  pull request, and the stores of the monitoring site.

  \<^bold>\<open>Common base.\<close>
  \<^item> \<open>Prelude\<close>: programs as functions from a state to a result or an exception and a state; Hoare triples with an exceptional exit,
    \<open>keeps\<close> for preserved predicates, and the collections that the component proofs use.
  \<^item> \<open>PyStr\<close>, \<open>Utf8\<close>, \<open>UText\<close>: Python's texts as characters up to U+00FF, as UTF-8 bytes, and as code points. Each component
    says which one it uses.
  \<^item> \<open>PyRegex\<close>, \<open>RegexFacts\<close>: a backtracking matcher with the semantics of \<^verbatim>\<open>re\<close>, and what it returns for the patterns of the tools.
  \<^item> \<open>Json\<close>, \<open>PyDyn\<close>, \<open>Xml\<close>, \<open>Base64\<close>: JSON values and dynamically typed access with Python's exceptions, ordered
    dictionaries (locale \<open>py_dict\<close>, interpreted on association lists), parsed XML, and base64 at every alignment.

  \<^bold>\<open>Hosts of the lab.\<close>
  \<^item> \<open>RawInventory\<close> (\<^verbatim>\<open>.github/scripts/raw_inventory.py\<close>): the inventory file and its atomic replacement. Saving and loading is the
    identity, an interrupted save leaves the old or the new file, names stay unique (locale \<open>host_store\<close>, interpreted on the file's value).
  \<^item> \<open>VirtualBmh\<close> (\<^verbatim>\<open>manage-virtual-bmh-vms.py\<close>): creating and deleting the VMs behind virtual bare metal hosts, on the inventory and an
    arbitrary hypervisor. Creation keeps inventory and hypervisor in step; deletion removes only what the inventory owns.
  \<^item> \<open>ReconcileBmh\<close> (\<^verbatim>\<open>reconcile-bmhs.py\<close>): the hosts of a cluster follow the inventory. Only stale hosts are deleted, finalizers are
    removed after the deletion only, exit status 0 means every host is available, credentials stay scalars in the manifest.
  \<^item> \<open>LabelAgents\<close> (\<^verbatim>\<open>infra/netris/roles/prepare-caas-bmaas/files/label-netris-agents.py\<close>): the agents of a lab are labelled with their
    servers; only what a listing showed unlabelled is patched.
  \<^item> \<open>OcpUplink\<close> (\<^verbatim>\<open>infra/netris/scripts/ocp_uplink.py\<close>): the fabric port of an OpenShift VM. Only a checked data link is attached.

  \<^bold>\<open>Cleaning up after clusters.\<close>
  \<^item> \<open>NetrisCleanup\<close> (\<^verbatim>\<open>netris_orphan_cleanup.py\<close>) and \<open>WorkerBmis\<close> (\<^verbatim>\<open>delete_worker_bmis.py\<close>), both under
    \<^verbatim>\<open>infra/netris/roles/force-destroy-caas/files\<close>: what is deleted belongs to the clusters to destroy, a running order is spared, and a
    run ends. \<open>ExportAllowlist\<close> (\<^verbatim>\<open>gather-vmaas/files/export_vm_allowlist.py\<close>): an exported VM has the allowed fields only.

  \<^bold>\<open>Publishing artifacts.\<close>
  \<^item> \<open>Redact\<close> (\<^verbatim>\<open>.github/scripts/redact.py\<close>): no redacted file holds a found secret, in clear or under nested base64.
  \<^item> \<open>GateNeedles\<close>, \<open>GateCensor\<close>, \<open>ReleaseGate\<close> (\<^verbatim>\<open>.github/scripts/release_gate.py\<close>): which values are searched, the forms of a value and
    the censoring of a file, and the run over a directory with its archives, report and exit status. A file that stays published holds no
    form of a searched value; unpacking is bounded.

  \<^bold>\<open>Pull requests.\<close>
  \<^item> \<open>SelectJobs\<close> (\<^verbatim>\<open>select-jobs.py\<close>): which suites a change needs; the answer of the language model only escalates, and cannot break the
    comment's table. \<open>PrComment\<close>, \<open>PrCommentSpec\<close> (\<^verbatim>\<open>upsert-pr-comment.py\<close>): the comment implements a dictionary of sections with a
    total. \<open>RecurringFailure\<close> (\<^verbatim>\<open>track-recurring-failure.py\<close>): the review queue of failing tests is bumped, never confirmed.

  \<^bold>\<open>Monitoring.\<close>
  \<^item> \<open>ObserveRuns\<close> (\<^verbatim>\<open>monitoring/scripts/ci_observe_runs.py\<close>): "not collected" is said of a run only when it is proven.
  \<^item> \<open>JUnitArtifacts\<close>, \<open>TestTrends\<close> (\<^verbatim>\<open>ci_observe_run_evidence.py\<close> in part, \<^verbatim>\<open>ci_observe_trends.py\<close>): the outcomes of a run, their daily
    rollup and its store. A stored run survives a pass, the rollup counts the outcomes, a percentile is a nearest rank.
  \<^item> \<open>ObserveHistory\<close> (\<^verbatim>\<open>ci_observe_history.py\<close>): the history of a test, read from that store, and of a job. Over any store that a pass
    leaves, the history has the counts of the raw results; the history of a job is that of one job.
  \<^item> \<open>CaptureFiles\<close>, \<open>CaptureImport\<close>, \<open>CaptureSync\<close> (\<^verbatim>\<open>monitoring/scripts/ci-observe.py\<close>): telemetry captures from untrusted artifacts.
    Extraction is confined and bounded, a capture is accepted exactly as its metadata says, it is replayed once and recorded as imported
    after two confirming readings only, and a pass stays within its download limit.
  \<^item> \<open>CaptureReport\<close>, \<open>CaptureStack\<close> (the same file): the commands \<^verbatim>\<open>report\<close> and \<^verbatim>\<open>sync\<close>, and the local stack with \<^verbatim>\<open>up\<close> and \<^verbatim>\<open>down\<close>. What a
    report without gaps says, and that only containers and volumes of the tool are touched.
  \<^item> \<open>DeliveryVerify\<close> (\<^verbatim>\<open>monitoring/scripts/ci_observe_verify.py\<close>): what a job says of the delivery of its telemetry agrees with the counters.
  \<^item> \<open>PrQueue\<close> (\<^verbatim>\<open>monitoring/scripts/ci_observe_prs.py\<close> in part): the record of a pull request and its attempts in the merge queue.
    Every run is in one attempt, and all attempts but the last are ejected.
  \<^item> \<open>PrBackfill\<close> (the same file): the hourly pass that fills \<^verbatim>\<open>prs.db\<close> from GitHub, and the freshness of the page. The store stays well formed
    however a pass ends, what a pass records of itself is true of what it read, and splitting a listing of queue runs loses none.

  \<^bold>\<open>What is outside.\<close> The cluster, hypervisor, controllers, GitHub, the language model, file readers, clocks, floating-point arithmetic
  and the parsing of JSON, XML and archives are arguments of the definitions. The theorems hold for every value of them; where one relies on
  documented behaviour, that is a named hypothesis (a clock that does not run backwards, a decoder that inverts the encoder), and a witness
  instantiates it. Worlds are of an arbitrary type and every answer may change them.

  \<^bold>\<open>Loops.\<close> Loops over lists are recursions over them. Loops that may not end are \<open>partial_function (option)\<close>: the drawing of a free
  token (\<open>VirtualBmh\<close>), the wait for deleted instances (\<open>WorkerBmis\<close>), which is shown to end after at most 120 pauses, and the labelling
  service (\<open>LabelAgents\<close>) and the watch of \<open>CaptureReport\<close>, which need not end and whose passes are inductive relations. Nested base64 and the censoring of pieces have
  explicit measures. Three kinds of loop take fuel: the wait for a replay (\<open>CaptureImport\<close>), one unit per poll, for which half the seconds of the
  timeout and one more are enough (\<open>import_wait_ends\<close>), the wait for a stack to be healthy (\<open>CaptureStack\<close>), for which 61 requests are enough (\<open>up_ends\<close>), and the listings of GitHub (\<open>CaptureSync\<close>, \<open>PrBackfill\<close>), one unit per page; running out is
  an exception of its own, and the theorems about safety hold for it too. The splitting of a window of queue runs ends because the span shrinks.

  \<^bold>\<open>Not modelled.\<close> The manifest lists every remaining tool with the reason. In short: argument parsing, progress output and log lines; the
  HTTP server and the exporter of the monitoring site, the live lookups and documents of the page of pull requests and the digest, whose logic is SQL, the paging of remote
  services and the text of metrics; the collection of logs for the diagnosis by a language model; the recorder, which starts processes; vendored Ansible collections, playbooks, shell and Go.
\<close>

end
